(* ===== verification/Server_Base.thy ===== *)
theory Server_Base
  imports Main "HOL-Library.Word"
begin

text \<open>
  Prelude of the development. It holds the types every component uses (the fixed width
  integers of ServerCore/Types.h, the outcome of an operation that may crash), the collections
  the proofs draw on, the list and word lemmas shared by the components, and the generic
  notion of a reachable state with its invariant rule.
\<close>

unbundle bit_operations_syntax

section \<open>Types and collections\<close>

type_synonym byte = "8 word"
type_synonym u16 = "16 word"
type_synonym u32 = "32 word"
type_synonym u64 = "64 word"

text \<open>
  What can go wrong in an operation: the macro CRASH of ServerCore/CoreMacro.h with its cause,
  or a step the C++ language leaves undefined. Every such step is a branch of the model.
\<close>

datatype fault =
    Crash string
  | OutOfBounds
  | MemcpyOverlap
  | NullDeref
  | UseAfterFree
  | UninitRead
  | SignedOverflow
  | LengthError

type_synonym 'a result = "fault + 'a"

named_theorems inv_defs \<open>definitions of the components' invariants\<close>
named_theorems op_defs \<open>definitions of the components' operations\<close>

definition rbind :: "'a result \<Rightarrow> ('a \<Rightarrow> 'b result) \<Rightarrow> 'b result" where
  "rbind r f = (case r of Inl e \<Rightarrow> Inl e | Inr x \<Rightarrow> f x)"

lemma rbind_simps [simp]: "rbind (Inl e) f = Inl e" "rbind (Inr x) f = f x"
  by (simp_all add: rbind_def)

lemma rbind_eq_Inr: "rbind r f = Inr y \<longleftrightarrow> (\<exists>x. r = Inr x \<and> f x = Inr y)"
  by (cases r) simp_all

lemma rbind_eq_Inl: "rbind r f = Inl e \<longleftrightarrow> r = Inl e \<or> (\<exists>x. r = Inr x \<and> f x = Inl e)"
  by (cases r) simp_all

lemma rbind_assoc: "rbind (rbind r f) g = rbind r (\<lambda>x. rbind (f x) g)"
  by (cases r) simp_all

text \<open>The macro ASSERT_CRASH(expr): a false condition crashes with the macro's own cause.\<close>

definition ASSERT_CRASH :: "bool \<Rightarrow> unit result" where
  "ASSERT_CRASH b = (if \<not> b then Inl (Crash ''ASSERT_CRASH'') else Inr ())"

lemma ASSERT_CRASH_simps [simp]:
  "ASSERT_CRASH True = Inr ()"
  "ASSERT_CRASH False = Inl (Crash ''ASSERT_CRASH'')"
  "ASSERT_CRASH b = Inr u \<longleftrightarrow> b"
  "rbind (ASSERT_CRASH b) f = (if b then f () else Inl (Crash ''ASSERT_CRASH''))"
  by (simp_all add: ASSERT_CRASH_def)

section \<open>Signed 32 bit values\<close>

definition fits_i32 :: "int \<Rightarrow> bool" where
  "fits_i32 n \<longleftrightarrow> - (2 ^ 31) \<le> n \<and> n < 2 ^ 31"

section \<open>Writing into the middle of a list\<close>

definition overwrite :: "'a list \<Rightarrow> nat \<Rightarrow> 'a list \<Rightarrow> 'a list" where
  "overwrite xs n ys = take n xs @ ys @ drop (n + length ys) xs"

definition slice :: "nat \<Rightarrow> nat \<Rightarrow> 'a list \<Rightarrow> 'a list" where
  "slice n k xs = take k (drop n xs)"

lemma length_slice [simp]: "length (slice n k xs) = min k (length xs - n)"
  by (simp add: slice_def)

lemma slice_zero [simp]: "slice n 0 xs = []"
  by (simp add: slice_def)

lemma slice_whole [simp]: "slice 0 (length xs) xs = xs"
  by (simp add: slice_def)

lemma slice_split:
  "k \<le> m \<Longrightarrow> slice n m xs = slice n k xs @ slice (n + k) (m - k) xs"
  using take_add[of k "m - k" "drop n xs"] by (simp add: slice_def add.commute)

lemma drop_slice: "drop k (slice n m xs) = slice (n + k) (m - k) xs"
  by (simp add: slice_def drop_take add.commute)

lemma take_slice: "take k (slice n m xs) = slice n (min k m) xs"
  by (simp add: slice_def)

lemma length_overwrite [simp]:
  "n + length ys \<le> length xs \<Longrightarrow> length (overwrite xs n ys) = length xs"
  by (simp add: overwrite_def)

lemma slice_overwrite_same:
  "n \<le> length xs \<Longrightarrow> slice n (length ys) (overwrite xs n ys) = ys"
  by (simp add: slice_def overwrite_def)

lemma slice_overwrite_before:
  "p + k \<le> n \<Longrightarrow> n \<le> length xs \<Longrightarrow> slice p k (overwrite xs n ys) = slice p k xs"
  by (simp add: slice_def overwrite_def drop_take)

lemma slice_overwrite_after:
  assumes "n + length ys \<le> p" and "n \<le> length xs"
  shows "slice p k (overwrite xs n ys) = slice p k xs"
proof -
  have "drop p (overwrite xs n ys) = drop p xs"
    using assms by (simp add: overwrite_def)
  then show ?thesis by (simp add: slice_def)
qed

lemma slice_overwrite_extend:
  assumes "p \<le> n" and "n \<le> length xs"
  shows "slice p (n - p + length ys) (overwrite xs n ys) = slice p (n - p) xs @ ys"
proof -
  have "slice p (n - p + length ys) (overwrite xs n ys)
      = slice p (n - p) (overwrite xs n ys) @ slice n (length ys) (overwrite xs n ys)"
    using slice_split[of "n - p" "n - p + length ys" p "overwrite xs n ys"] assms by simp
  with assms show ?thesis
    by (simp add: slice_overwrite_same slice_overwrite_before)
qed

text \<open>
  The address of element i of a vector, and memcpy inside one vector: both undefined outside
  the vector, memcpy also where source and destination overlap.
\<close>

definition vec_at :: "'a list \<Rightarrow> int \<Rightarrow> nat result" where
  "vec_at xs i = (if 0 \<le> i \<and> i < int (length xs) then Inr (nat i) else Inl OutOfBounds)"

lemma vec_at_Inr: "vec_at xs i = Inr k \<longleftrightarrow> i = int k \<and> k < length xs"
  by (auto simp: vec_at_def)

definition memcpy_self :: "'a list \<Rightarrow> nat \<Rightarrow> nat \<Rightarrow> int \<Rightarrow> 'a list result" where
  "memcpy_self xs dst src n =
     (if n < 0 \<or> length xs < dst + nat n \<or> length xs < src + nat n then Inl OutOfBounds
      else if 0 < n \<and> dst < src + nat n \<and> src < dst + nat n then Inl MemcpyOverlap
      else Inr (overwrite xs dst (slice src (nat n) xs)))"

section \<open>Little endian bytes of a 16 bit value\<close>

definition le16 :: "u16 \<Rightarrow> byte list" where
  "le16 w = [ucast w, ucast (drop_bit 8 w)]"

definition rd16 :: "byte \<Rightarrow> byte \<Rightarrow> u16" where
  "rd16 lo hi = ucast lo OR push_bit 8 (ucast hi)"

lemma length_le16 [simp]: "length (le16 w) = 2"
  by (simp add: le16_def)

lemma rd16_le16: "rd16 (le16 w ! 0) (le16 w ! Suc 0) = w"
  unfolding rd16_def le16_def
  by (rule bit_word_eqI) (auto simp: bit_simps)

text \<open>The same for any width: the word in the bytes of a list, and the first bytes of a word.\<close>

fun load_le :: "byte list \<Rightarrow> 'a::len word" where
  "load_le [] = 0"
| "load_le (b # bs) = ucast b OR push_bit 8 (load_le bs)"

fun store_le :: "nat \<Rightarrow> 'a::len word \<Rightarrow> byte list" where
  "store_le 0 w = []"
| "store_le (Suc n) w = ucast w # store_le n (drop_bit 8 w)"

lemma length_store_le [simp]: "length (store_le n w) = n"
  by (induction n arbitrary: w) simp_all

lemma load_store_le: "LENGTH('a) \<le> 8 * n \<Longrightarrow> load_le (store_le n w) = (w :: 'a::len word)"
proof -
  have "load_le (store_le n w) = take_bit (8 * n) w"
  proof (induction n arbitrary: w)
    case (Suc n)
    show ?case unfolding store_le.simps load_le.simps Suc
      by (rule bit_word_eqI) (auto simp: bit_simps)
  qed simp
  then show "LENGTH('a) \<le> 8 * n \<Longrightarrow> ?thesis" by (simp add: take_bit_word_eq_self)
qed

lemma byte_less: "unat (b :: byte) < 256"
  using unsigned_less[of b, where 'a = nat] by simp

lemma unat_of_byte: "m < 256 \<Longrightarrow> unat (word_of_nat m :: byte) = m"
  by (simp add: unsigned_of_nat take_bit_nat_eq_self)

lemma bit_7: "bit (b :: byte) 7 \<longleftrightarrow> 128 \<le> unat b"
proof -
  have "bit b 7 \<longleftrightarrow> odd (unat b div 2 ^ 7)"
    using bit_unsigned_iff[of b 7, where 'a = nat] bit_iff_odd[of "unat b" 7] bit_imp_le_length[of b 7] by auto
  moreover have "unat b div 128 < 2" using byte_less[of b] by (simp add: div_less_iff_less_mult)
  then have "unat b div 128 = 0 \<or> unat b div 128 = 1" by linarith
  then have "odd (unat b div 128) \<longleftrightarrow> 128 \<le> unat b" by (auto simp: div_eq_0_iff)
  ultimately show ?thesis by simp
qed

lemma bit_load_le:
  "bit (load_le bs :: 'a::len word) n \<longleftrightarrow> n < LENGTH('a) \<and> n div 8 < length bs \<and> bit (bs ! (n div 8)) (n mod 8)"
proof (induction bs arbitrary: n)
  case (Cons b bs)
  show ?case
  proof (cases "n < 8")
    case True
    then show ?thesis by (auto simp: bit_simps)
  next
    case False
    then have "n = 8 + (n - 8)" by simp
    then obtain m where n: "n = 8 + m" by blast
    have "\<not> bit (ucast b :: 'a word) n" using n by (auto simp: bit_simps dest: bit_imp_le_length)
    moreover have "(8 + m) div 8 = Suc (m div 8)" by simp
    ultimately show ?thesis unfolding n by (auto simp: bit_simps Cons)
  qed
qed simp

lemma nth_append_left [simp]: "i < length xs \<Longrightarrow> (xs @ ys) ! i = xs ! i"
  by (simp add: nth_append)

section \<open>Sums over threads\<close>

text \<open>Thread ids are 32 bit words; a sum in which only the summand of one thread changed.\<close>

lemma sum_one:
  fixes f g :: "u32 \<Rightarrow> nat"
  assumes "\<And>u. u \<noteq> t \<Longrightarrow> f u = g u"
  shows "sum f UNIV + g t = sum g UNIV + f t"
proof -
  have "sum f (UNIV - {t}) = sum g (UNIV - {t})" using assms by (intro sum.cong) auto
  then show ?thesis by (simp add: sum.remove[of UNIV t])
qed

section \<open>Reachable states\<close>

inductive reach :: "('s \<Rightarrow> bool) \<Rightarrow> ('s \<Rightarrow> 's \<Rightarrow> bool) \<Rightarrow> 's \<Rightarrow> bool"
  for I :: "'s \<Rightarrow> bool" and R :: "'s \<Rightarrow> 's \<Rightarrow> bool" where
  reach_init: "I s \<Longrightarrow> reach I R s"
| reach_step: "reach I R s \<Longrightarrow> R s t \<Longrightarrow> reach I R t"

text \<open>
  The contract of a state machine with an inductive invariant; each machine of the development
  interprets it and takes the invariant of its reachable states from here.
\<close>

locale invariant_system =
  fixes I :: "'s \<Rightarrow> bool" and R :: "'s \<Rightarrow> 's \<Rightarrow> bool" and Inv :: "'s \<Rightarrow> bool"
  assumes init_inv: "I s \<Longrightarrow> Inv s"
    and step_inv: "Inv s \<Longrightarrow> R s t \<Longrightarrow> Inv t"
begin

lemma reach_inv: "reach I R s \<Longrightarrow> Inv s"
  by (induction rule: reach.induct) (auto intro: init_inv step_inv)

lemma run_inv: "R\<^sup>*\<^sup>* s t \<Longrightarrow> Inv s \<Longrightarrow> Inv t"
  by (induction rule: rtranclp_induct) (auto intro: step_inv)

end

lemma reach_run: "R\<^sup>*\<^sup>* s t \<Longrightarrow> reach I R s \<Longrightarrow> reach I R t"
  by (induction rule: rtranclp_induct) (auto intro: reach_step)

end
