(* ===== verification/Recv_Buffer.thy ===== *)
theory Recv_Buffer
  imports Server_Base
begin

text \<open>
  The receive buffer of a session (ServerCore/RecvBuffer.h, RecvBuffer.cpp): a vector of bytes
  with a read and a write cursor. An int32 field is an int here; the invariant below bounds
  every value the operations compute by the capacity, which fits in 32 bits, so no operation
  overflows. The abstract view of a buffer is the list of bytes received and not yet consumed.
\<close>

section \<open>State and operations\<close>

definition BUFFER_COUNT :: int where
  "BUFFER_COUNT = 10"

record recv_buffer =
  m_capacity :: int
  m_bufferSize :: int
  m_readPos :: int
  m_writePos :: int
  m_buffer :: "byte list"

definition RecvBuffer :: "int \<Rightarrow> recv_buffer result" where
  "RecvBuffer bufferSize =
     (let capacity = bufferSize * BUFFER_COUNT in
      if \<not> fits_i32 capacity then Inl SignedOverflow
      else if capacity < 0 then Inl LengthError
      else Inr \<lparr>m_capacity = capacity, m_bufferSize = bufferSize, m_readPos = 0, m_writePos = 0,
                m_buffer = replicate (nat capacity) 0\<rparr>)"

definition ReadPos :: "recv_buffer \<Rightarrow> nat result" where
  "ReadPos b = vec_at (m_buffer b) (m_readPos b)"

definition WritePos :: "recv_buffer \<Rightarrow> nat result" where
  "WritePos b = vec_at (m_buffer b) (m_writePos b)"

definition DataSize :: "recv_buffer \<Rightarrow> int" where
  "DataSize b = m_writePos b - m_readPos b"

definition FreeSize :: "recv_buffer \<Rightarrow> int" where
  "FreeSize b = m_capacity b - m_writePos b"

definition Clean :: "recv_buffer \<Rightarrow> recv_buffer result" where
  "Clean b =
     (let dataSize = DataSize b in
      if dataSize = 0 then Inr (b\<lparr>m_readPos := 0, m_writePos := 0\<rparr>)
      else if FreeSize b < m_bufferSize b then
        rbind (vec_at (m_buffer b) 0) (\<lambda>dst.
        rbind (vec_at (m_buffer b) (m_readPos b)) (\<lambda>src.
        rbind (memcpy_self (m_buffer b) dst src dataSize) (\<lambda>buf.
          Inr (b\<lparr>m_buffer := buf, m_readPos := 0, m_writePos := dataSize\<rparr>))))
      else Inr b)"

definition OnRead :: "int \<Rightarrow> recv_buffer \<Rightarrow> bool \<times> recv_buffer" where
  "OnRead numOfBytes b =
     (if numOfBytes > DataSize b then (False, b)
      else (True, b\<lparr>m_readPos := m_readPos b + numOfBytes\<rparr>))"

definition OnWrite :: "int \<Rightarrow> recv_buffer \<Rightarrow> bool \<times> recv_buffer" where
  "OnWrite numOfBytes b =
     (if numOfBytes > FreeSize b then (False, b)
      else (True, b\<lparr>m_writePos := m_writePos b + numOfBytes\<rparr>))"

text \<open>
  What the socket layer does between a receive request and its completion: it stores the bytes
  at the address WritePos returned. This is the environment's step, not an operation of the class.
\<close>

definition socket_store :: "byte list \<Rightarrow> recv_buffer \<Rightarrow> recv_buffer" where
  "socket_store bs b = b\<lparr>m_buffer := overwrite (m_buffer b) (nat (m_writePos b)) bs\<rparr>"

lemmas [op_defs] = ReadPos_def WritePos_def DataSize_def FreeSize_def Clean_def OnRead_def
  OnWrite_def socket_store_def

section \<open>Invariant and abstract view\<close>

definition rb_inv :: "recv_buffer \<Rightarrow> bool" where
  "rb_inv b \<longleftrightarrow> 0 \<le> m_readPos b \<and> m_readPos b \<le> m_writePos b \<and> m_writePos b \<le> m_capacity b
     \<and> m_capacity b = m_bufferSize b * BUFFER_COUNT \<and> fits_i32 (m_capacity b)
     \<and> length (m_buffer b) = nat (m_capacity b)"

definition rb_data :: "recv_buffer \<Rightarrow> byte list" where
  "rb_data b = slice (nat (m_readPos b)) (nat (DataSize b)) (m_buffer b)"

lemmas [inv_defs] = rb_inv_def

lemma rb_inv_length: "rb_inv b \<Longrightarrow> int (length (rb_data b)) = DataSize b"
  by (auto simp: rb_inv_def rb_data_def DataSize_def)

lemma rb_inv_fits:
  "rb_inv b \<Longrightarrow> fits_i32 (m_readPos b) \<and> fits_i32 (m_writePos b) \<and> fits_i32 (DataSize b)
     \<and> fits_i32 (FreeSize b)"
  by (auto simp: rb_inv_def fits_i32_def DataSize_def FreeSize_def)

lemma RecvBuffer_inv:
  "RecvBuffer n = Inr b \<Longrightarrow> rb_inv b \<and> rb_data b = [] \<and> m_bufferSize b = n"
  by (auto simp: RecvBuffer_def rb_inv_def rb_data_def DataSize_def Let_def split: if_splits)

lemma OnRead_inv:
  "rb_inv b \<Longrightarrow> 0 \<le> n \<Longrightarrow> OnRead n b = (ok, b') \<Longrightarrow> rb_inv b'"
  by (auto simp: rb_inv_def OnRead_def DataSize_def split: if_splits)

lemma OnRead_data:
  assumes "rb_inv b" "0 \<le> n" "OnRead n b = (True, b')"
  shows "rb_data b' = drop (nat n) (rb_data b)"
proof -
  have b': "b' = b\<lparr>m_readPos := m_readPos b + n\<rparr>" and le: "n \<le> DataSize b"
    using assms(3) by (auto simp: OnRead_def split: if_splits)
  have "nat (m_readPos b + n) = nat (m_readPos b) + nat n"
    "nat (m_writePos b - (m_readPos b + n)) = nat (DataSize b) - nat n"
    using assms(1,2) le by (auto simp: rb_inv_def DataSize_def nat_add_distrib nat_diff_distrib')
  then show ?thesis
    by (simp add: b' rb_data_def DataSize_def drop_slice)
qed

lemma OnRead_False: "OnRead n b = (False, b') \<longleftrightarrow> DataSize b < n \<and> b' = b"
  by (auto simp: OnRead_def)

lemma OnWrite_inv:
  "rb_inv b \<Longrightarrow> 0 \<le> n \<Longrightarrow> OnWrite n b = (ok, b') \<Longrightarrow> rb_inv b'"
  by (auto simp: rb_inv_def OnWrite_def FreeSize_def split: if_splits)

lemma socket_store_inv:
  "rb_inv b \<Longrightarrow> int (length bs) \<le> FreeSize b \<Longrightarrow> rb_inv (socket_store bs b)"
  by (auto simp: rb_inv_def socket_store_def FreeSize_def)

lemma OnWrite_data:
  assumes "rb_inv b" "int (length bs) \<le> FreeSize b"
    and "OnWrite (int (length bs)) (socket_store bs b) = (ok, b')"
  shows "ok \<and> rb_data b' = rb_data b @ bs"
proof -
  have ok: "ok" and b': "b' = (socket_store bs b)\<lparr>m_writePos := m_writePos b + int (length bs)\<rparr>"
    using assms by (auto simp: OnWrite_def FreeSize_def socket_store_def split: if_splits)
  let ?r = "nat (m_readPos b)" and ?w = "nat (m_writePos b)"
  have pos: "?r \<le> ?w" "?w \<le> length (m_buffer b)"
    using assms(1) by (auto simp: rb_inv_def)
  have "nat (m_writePos b + int (length bs) - m_readPos b) = ?w - ?r + length bs"
    using assms(1) by (auto simp: rb_inv_def)
  moreover have "nat (DataSize b) = ?w - ?r"
    using assms(1) by (auto simp: rb_inv_def DataSize_def)
  ultimately show ?thesis
    using ok slice_overwrite_extend[OF pos, of bs]
    by (simp add: b' rb_data_def DataSize_def socket_store_def)
qed

section \<open>Compaction\<close>

lemma Clean_no_overlap_iff:
  assumes "rb_inv b" "DataSize b \<noteq> 0" "FreeSize b < m_bufferSize b"
  shows "Clean b = Inl MemcpyOverlap \<longleftrightarrow> m_readPos b < DataSize b"
  using assms
  by (auto simp: Clean_def Let_def rb_inv_def memcpy_self_def vec_at_def DataSize_def rbind_eq_Inl
      split: if_splits)

lemma Clean_Inr:
  assumes "rb_inv b" "DataSize b \<le> m_readPos b \<or> m_bufferSize b \<le> FreeSize b"
  shows "\<exists>b'. Clean b = Inr b'"
proof (cases "DataSize b = 0 \<or> \<not> FreeSize b < m_bufferSize b")
  case True
  then show ?thesis by (auto simp: Clean_def Let_def)
next
  case False
  with assms show ?thesis
    by (auto simp: Clean_def Let_def rb_inv_def memcpy_self_def vec_at_def DataSize_def)
qed

lemma Clean_inv_data:
  assumes inv: "rb_inv b" and eq: "Clean b = Inr b'"
  shows "rb_inv b' \<and> rb_data b' = rb_data b \<and> m_bufferSize b' = m_bufferSize b"
proof (cases "DataSize b = 0 \<or> \<not> FreeSize b < m_bufferSize b")
  case True
  with inv eq show ?thesis
    by (auto simp: Clean_def Let_def rb_inv_def rb_data_def DataSize_def split: if_splits)
next
  case False
  then obtain buf where buf: "memcpy_self (m_buffer b) 0 (nat (m_readPos b)) (DataSize b) = Inr buf"
    and b': "b' = b\<lparr>m_buffer := buf, m_readPos := 0, m_writePos := DataSize b\<rparr>"
    using eq by (auto simp: Clean_def Let_def rbind_eq_Inr vec_at_Inr)
  let ?d = "slice (nat (m_readPos b)) (nat (DataSize b)) (m_buffer b)"
  have len: "length ?d = nat (DataSize b)"
    using rb_inv_length[OF inv] by (simp add: rb_data_def)
  have "buf = overwrite (m_buffer b) 0 ?d"
    using buf by (simp add: memcpy_self_def split: if_splits)
  moreover have "nat (DataSize b) \<le> length (m_buffer b)"
    using inv by (auto simp: rb_inv_def DataSize_def)
  ultimately have "slice 0 (nat (DataSize b)) buf = ?d" "length buf = length (m_buffer b)"
    using slice_overwrite_same[of 0 "m_buffer b" ?d] len by simp_all
  with inv show ?thesis
    by (auto simp: b' rb_inv_def rb_data_def DataSize_def)
qed

text \<open>
  After a compaction the buffer offers a whole bufferSize of room, as long as what is left over
  is smaller than the reserve. This is what keeps the next receive request non-empty.
\<close>

lemma Clean_free:
  assumes "rb_inv b" "Clean b = Inr b'" "DataSize b \<le> m_capacity b - m_bufferSize b"
  shows "m_bufferSize b \<le> FreeSize b'"
  using assms
  by (auto simp: Clean_def Let_def rb_inv_def FreeSize_def DataSize_def BUFFER_COUNT_def rbind_eq_Inr
      split: if_splits)

lemma small_rest_no_overlap:
  assumes "rb_inv b" "DataSize b < m_bufferSize b"
  shows "DataSize b \<le> m_readPos b \<or> m_bufferSize b \<le> FreeSize b"
  using assms by (auto simp: rb_inv_def FreeSize_def DataSize_def BUFFER_COUNT_def)

lemma WritePos_ok: "rb_inv b \<Longrightarrow> 0 < FreeSize b \<Longrightarrow> WritePos b = Inr (nat (m_writePos b))"
  by (auto simp: rb_inv_def FreeSize_def WritePos_def vec_at_def)

lemma ReadPos_ok: "rb_inv b \<Longrightarrow> 0 < DataSize b \<Longrightarrow> ReadPos b = Inr (nat (m_readPos b))"
  by (auto simp: rb_inv_def DataSize_def ReadPos_def vec_at_def)

section \<open>Properties\<close>

text \<open>The receive buffer is a byte queue. From any buffer its constructor and operations can
  make: a receive of bytes that fit in FreeSize appends them, OnRead of at most DataSize bytes
  removes them from the front, a larger OnRead or OnWrite is refused and changes nothing, and a
  Clean that returns keeps the queued bytes.\<close>

theorem recv_buffer_queue:
  assumes "rb_inv b"
  shows "(int (length bs) \<le> FreeSize b \<longrightarrow>
           (\<exists>b'. OnWrite (int (length bs)) (socket_store bs b) = (True, b')
              \<and> rb_inv b' \<and> rb_data b' = rb_data b @ bs))
    \<and> (FreeSize b < k \<longrightarrow> OnWrite k b = (False, b))
    \<and> (0 \<le> n \<and> n \<le> DataSize b \<longrightarrow>
           (\<exists>b'. OnRead n b = (True, b') \<and> rb_inv b' \<and> rb_data b' = drop (nat n) (rb_data b)))
    \<and> (DataSize b < n \<longrightarrow> OnRead n b = (False, b))
    \<and> (\<forall>b'. Clean b = Inr b' \<longrightarrow> rb_inv b' \<and> rb_data b' = rb_data b)"
proof (intro conjI impI allI)
  assume fit: "int (length bs) \<le> FreeSize b"
  obtain ok b' where w: "OnWrite (int (length bs)) (socket_store bs b) = (ok, b')"
    by (cases "OnWrite (int (length bs)) (socket_store bs b)")
  show "\<exists>b'. OnWrite (int (length bs)) (socket_store bs b) = (True, b')
      \<and> rb_inv b' \<and> rb_data b' = rb_data b @ bs"
    using OnWrite_data[OF assms fit w] OnWrite_inv[OF socket_store_inv[OF assms fit] _ w] w by auto
next
  assume n: "0 \<le> n \<and> n \<le> DataSize b"
  obtain b' where r: "OnRead n b = (True, b')" using n by (simp add: OnRead_def)
  then show "\<exists>b'. OnRead n b = (True, b') \<and> rb_inv b' \<and> rb_data b' = drop (nat n) (rb_data b)"
    using OnRead_inv[OF assms _ r] OnRead_data[OF assms _ r] n by blast
next
  show "FreeSize b < k \<Longrightarrow> OnWrite k b = (False, b)" by (simp add: OnWrite_def)
  show "DataSize b < n \<Longrightarrow> OnRead n b = (False, b)" by (simp add: OnRead_def)
  fix b' assume "Clean b = Inr b'"
  then show "rb_inv b'" "rb_data b' = rb_data b" using Clean_inv_data[OF assms] by auto
qed

abbreviation small_buffer :: recv_buffer where
  "small_buffer \<equiv> \<lparr>m_capacity = 10, m_bufferSize = 1, m_readPos = 3, m_writePos = 5,
    m_buffer = [0, 0, 0, 7, 8, 0, 0, 0, 0, 0]\<rparr>"

lemma small_buffer_inv: "rb_inv small_buffer"
  by (simp add: rb_inv_def BUFFER_COUNT_def fits_i32_def)

theorem recv_buffer_queue_witness:
  "\<exists>b'. OnRead 1 small_buffer = (True, b') \<and> rb_data b' = [8]"
  using recv_buffer_queue[OF small_buffer_inv, of "[]" 0 1]
  by (auto simp: DataSize_def FreeSize_def rb_data_def slice_def eval_nat_numeral)

text \<open>When Clean compacts. It never fails for a buffer with less than m_bufferSize queued
  bytes, it leaves room for a whole receive of m_bufferSize bytes whenever the queued bytes allow
  it, and it copies between overlapping ranges (undefined for memcpy) exactly when the tail has
  less than m_bufferSize free bytes and the read cursor stands below the number of queued bytes.\<close>

theorem Clean_when:
  assumes "rb_inv b"
  shows "(Clean b = Inl MemcpyOverlap \<longleftrightarrow>
            DataSize b \<noteq> 0 \<and> FreeSize b < m_bufferSize b \<and> m_readPos b < DataSize b)
    \<and> (DataSize b < m_bufferSize b \<longrightarrow> (\<exists>b'. Clean b = Inr b' \<and> m_bufferSize b \<le> FreeSize b'))"
proof (intro conjI impI)
  show "Clean b = Inl MemcpyOverlap \<longleftrightarrow>
      DataSize b \<noteq> 0 \<and> FreeSize b < m_bufferSize b \<and> m_readPos b < DataSize b"
  proof (cases "DataSize b = 0 \<or> \<not> FreeSize b < m_bufferSize b")
    case True
    then show ?thesis by (auto simp: Clean_def Let_def)
  next
    case False
    then show ?thesis using Clean_no_overlap_iff[OF assms] by simp
  qed
  assume small: "DataSize b < m_bufferSize b"
  obtain b' where b': "Clean b = Inr b'" using Clean_Inr[OF assms small_rest_no_overlap[OF assms small]] by blast
  moreover have "DataSize b \<le> m_capacity b - m_bufferSize b"
    using assms small by (simp add: rb_inv_def BUFFER_COUNT_def DataSize_def)
  ultimately show "\<exists>b'. Clean b = Inr b' \<and> m_bufferSize b \<le> FreeSize b'"
    using Clean_free[OF assms] by blast
qed

abbreviation full_buffer :: recv_buffer where
  "full_buffer \<equiv> \<lparr>m_capacity = 10, m_bufferSize = 1, m_readPos = 3, m_writePos = 10,
    m_buffer = [0, 1, 2, 3, 4, 5, 6, 7, 8, 9]\<rparr>"

theorem Clean_when_witness: "Clean full_buffer = Inl MemcpyOverlap"
proof -
  have "rb_inv full_buffer" by (simp add: rb_inv_def BUFFER_COUNT_def fits_i32_def)
  from Clean_when[OF this] show ?thesis by (simp add: DataSize_def FreeSize_def)
qed

end
