(* ===== verification/Packet_Framing.thy ===== *)
theory Packet_Framing
  imports Server_Base
begin

text \<open>
  Cutting the received byte stream into packets (PacketSession::OnRecv, ServerCore/Session.cpp)
  and the packet header (ServerCore/Session.h). The loop hands every complete packet to a
  callback and returns the number of bytes it consumed. It never ends on a header whose size
  field is zero, so it is a partial function into an option; None is a call that does not return.
\<close>

section \<open>The header\<close>

record PacketHeader =
  hd_size :: u16
  hd_id :: u16

definition sizeof_PacketHeader :: nat where
  "sizeof_PacketHeader = 4"

definition read_header :: "byte list \<Rightarrow> PacketHeader" where
  "read_header m = \<lparr>hd_size = rd16 (m ! 0) (m ! 1), hd_id = rd16 (m ! 2) (m ! 3)\<rparr>"

definition header_bytes :: "PacketHeader \<Rightarrow> byte list" where
  "header_bytes h = le16 (hd_size h) @ le16 (hd_id h)"

lemma length_header_bytes [simp]: "length (header_bytes h) = sizeof_PacketHeader"
  by (simp add: header_bytes_def sizeof_PacketHeader_def)

lemma read_header_bytes: "read_header (header_bytes h @ m) = h"
proof -
  have "read_header (header_bytes h @ m)
      = \<lparr>hd_size = rd16 (le16 (hd_size h) ! 0) (le16 (hd_size h) ! 1),
         hd_id = rd16 (le16 (hd_id h) ! 0) (le16 (hd_id h) ! 1)\<rparr>"
    by (simp add: read_header_def header_bytes_def nth_append)
  then show ?thesis by (simp add: rd16_le16)
qed

lemma read_header_append: "4 \<le> length m \<Longrightarrow> read_header (m @ k) = read_header m"
proof -
  assume "4 \<le> length m"
  then have "(m @ k) ! 0 = m ! 0" "(m @ k) ! 1 = m ! 1" "(m @ k) ! 2 = m ! 2" "(m @ k) ! 3 = m ! 3"
    by (auto simp: nth_append)
  then show ?thesis by (simp only: read_header_def)
qed

section \<open>The receive loop\<close>

text \<open>A callback sees the memory from the packet's first byte on, and the packet's size.\<close>

type_synonym 's packet_callback = "byte list \<Rightarrow> u16 \<Rightarrow> 's \<Rightarrow> 's result"

text \<open>An int32 compared with a size_t is converted first.\<close>

definition to_size_t :: "int \<Rightarrow> int" where
  "to_size_t n = n mod 2 ^ 64"

lemma to_size_t_id: "0 \<le> n \<Longrightarrow> n < 2 ^ 64 \<Longrightarrow> to_size_t n = n"
  by (simp add: to_size_t_def)

partial_function (option) OnRecv_loop ::
    "'s packet_callback \<Rightarrow> byte list \<Rightarrow> int \<Rightarrow> int \<Rightarrow> 's \<Rightarrow> (int \<times> 's) result option" where
  "OnRecv_loop cb buffer len processLen s =
     (let dataSize = len - processLen in
      if to_size_t dataSize < int sizeof_PacketHeader then Some (Inr (processLen, s))
      else
        let here = drop (nat processLen) buffer; header = read_header here in
        if dataSize < uint (hd_size header) then Some (Inr (processLen, s))
        else
          (case cb here (hd_size header) s of
             Inl e \<Rightarrow> Some (Inl e)
           | Inr s' \<Rightarrow> OnRecv_loop cb buffer len (processLen + uint (hd_size header)) s'))"

definition OnRecv :: "'s packet_callback \<Rightarrow> byte list \<Rightarrow> int \<Rightarrow> 's \<Rightarrow> (int \<times> 's) result option" where
  "OnRecv cb buffer len s = OnRecv_loop cb buffer len 0 s"

section \<open>What the loop computes\<close>

text \<open>The specification: complete packets from the front, and what is left over.\<close>

definition frame_len :: "byte list \<Rightarrow> nat" where
  "frame_len m = unat (hd_size (read_header m))"

function split_frames :: "byte list \<Rightarrow> byte list list \<times> byte list" where
  "split_frames m =
     (if length m < 4 \<or> length m < frame_len m \<or> frame_len m = 0 then ([], m)
      else let (fs, r) = split_frames (drop (frame_len m) m) in (take (frame_len m) m # fs, r))"
  by pat_completeness auto
termination
  by (relation "measure length") auto

declare split_frames.simps [simp del]

definition stuck :: "byte list \<Rightarrow> bool" where
  "stuck m \<longleftrightarrow> 4 \<le> length m \<and> frame_len m = 0"

definition wf_frame :: "byte list \<Rightarrow> bool" where
  "wf_frame f \<longleftrightarrow> 4 \<le> length f \<and> frame_len f = length f"

definition incomplete :: "byte list \<Rightarrow> bool" where
  "incomplete m \<longleftrightarrow> length m < 4 \<or> length m < frame_len m"

fun deliver :: "'s packet_callback \<Rightarrow> byte list list \<Rightarrow> byte list \<Rightarrow> 's \<Rightarrow> 's result" where
  "deliver cb [] r s = Inr s"
| "deliver cb (f # fs) r s =
     rbind (cb (f @ concat fs @ r) (word_of_nat (length f)) s) (deliver cb fs r)"

lemma frame_len_bound: "frame_len m < 65536"
  using unsigned_less[of "hd_size (read_header m)", where ?'a = nat] by (simp add: frame_len_def)

lemma uint_frame_len: "uint (hd_size (read_header m)) = int (frame_len m)"
  by (simp add: frame_len_def)

lemma word_frame_len: "word_of_nat (frame_len m) = hd_size (read_header m)"
  by (simp add: frame_len_def)

lemma frame_len_append: "4 \<le> length m \<Longrightarrow> frame_len (m @ k) = frame_len m"
  by (simp add: frame_len_def read_header_append)

lemma split_frames_stop:
  "incomplete m \<or> stuck m \<Longrightarrow> split_frames m = ([], m)"
  by (subst split_frames.simps) (auto simp: incomplete_def stuck_def)

lemma split_frames_step:
  assumes "\<not> incomplete m" "\<not> stuck m"
  shows "split_frames m = (take (frame_len m) m # fst (split_frames (drop (frame_len m) m)),
                           snd (split_frames (drop (frame_len m) m)))"
  using assms
  by (subst split_frames.simps) (auto simp: incomplete_def stuck_def Let_def split: prod.splits)

lemma split_frames_concat: "split_frames m = (fs, r) \<Longrightarrow> concat fs @ r = m"
proof (induction m arbitrary: fs r rule: split_frames.induct)
  case (1 m)
  show ?case
  proof (cases "incomplete m \<or> stuck m")
    case True
    with "1.prems" show ?thesis by (simp add: split_frames_stop)
  next
    case False
    obtain fs' where fs: "fs = take (frame_len m) m # fs'"
      and rec: "split_frames (drop (frame_len m) m) = (fs', r)"
      using "1.prems" False split_frames_step[of m] by (cases "split_frames (drop (frame_len m) m)") auto
    have "concat fs' @ r = drop (frame_len m) m"
      using False rec by (intro "1.IH") (auto simp: incomplete_def stuck_def)
    then show ?thesis by (simp add: fs)
  qed
qed

lemma split_frames_rest: "split_frames m = (fs, r) \<Longrightarrow> incomplete r \<or> stuck r"
proof (induction m arbitrary: fs r rule: split_frames.induct)
  case (1 m)
  show ?case
  proof (cases "incomplete m \<or> stuck m")
    case True
    with "1.prems" show ?thesis by (simp add: split_frames_stop)
  next
    case False
    then show ?thesis
      using "1.prems" split_frames_step[of m] "1.IH"
      by (cases "split_frames (drop (frame_len m) m)") (auto simp: incomplete_def stuck_def)
  qed
qed

lemma incomplete_short: "incomplete m \<Longrightarrow> length m < 65536"
  using frame_len_bound[of m] by (auto simp: incomplete_def)

lemma wf_frame_cons:
  assumes "wf_frame f"
  shows "split_frames (f @ m) = (f # fst (split_frames m), snd (split_frames m))"
proof -
  have "frame_len (f @ m) = length f" "\<not> incomplete (f @ m)" "\<not> stuck (f @ m)"
    using assms by (auto simp: wf_frame_def frame_len_append incomplete_def stuck_def)
  then show ?thesis by (subst split_frames_step) simp_all
qed

lemma split_frames_wf:
  "(\<forall>f \<in> set fs. wf_frame f) \<Longrightarrow> incomplete r \<Longrightarrow> split_frames (concat fs @ r) = (fs, r)"
  by (induction fs) (simp_all add: split_frames_stop wf_frame_cons)

text \<open>Cutting a longer stream continues from what was left over.\<close>

lemma split_frames_append:
  "split_frames m = (fs, r) \<Longrightarrow>
     split_frames (m @ k) = (fs @ fst (split_frames (r @ k)), snd (split_frames (r @ k)))"
proof (induction m arbitrary: fs r rule: split_frames.induct)
  case (1 m)
  show ?case
  proof (cases "incomplete m \<or> stuck m")
    case True
    with "1.prems" show ?thesis by (simp add: split_frames_stop)
  next
    case False
    let ?n = "frame_len m"
    have len: "4 \<le> length m" "?n \<le> length m" "?n \<noteq> 0"
      using False by (auto simp: incomplete_def stuck_def)
    obtain fs' where fs: "fs = take ?n m # fs'" and rec: "split_frames (drop ?n m) = (fs', r)"
      using "1.prems" False split_frames_step[of m] by (cases "split_frames (drop ?n m)") auto
    have "split_frames (drop ?n m @ k)
        = (fs' @ fst (split_frames (r @ k)), snd (split_frames (r @ k)))"
      using "1.IH"[OF _ rec] len by simp
    moreover have "\<not> incomplete (m @ k)" "\<not> stuck (m @ k)" "frame_len (m @ k) = ?n"
      using len by (auto simp: incomplete_def stuck_def frame_len_append)
    ultimately show ?thesis
      using len split_frames_step[of "m @ k"] by (simp add: fs)
  qed
qed

section \<open>The loop meets the specification\<close>

lemma loop_size:
  assumes "0 \<le> p" "p \<le> int (length m)" "length m < 2 ^ 31"
  shows "int (length m) - p = int (length (drop (nat p) m))"
    and "to_size_t (int (length (drop (nat p) m))) = int (length (drop (nat p) m))"
  using assms by (auto simp: to_size_t_id)

lemma OnRecv_loop_stop:
  assumes "incomplete (drop (nat p) m)" "0 \<le> p" "p \<le> int (length m)" "length m < 2 ^ 31"
  shows "OnRecv_loop cb m (int (length m)) p s = Some (Inr (p, s))"
  using assms(1)
  by (subst OnRecv_loop.simps)
    (auto simp only: Let_def loop_size[OF assms(2-4)] incomplete_def uint_frame_len
      sizeof_PacketHeader_def of_nat_less_iff split: if_splits)

lemma OnRecv_loop_step:
  assumes "\<not> incomplete (drop (nat p) m)" "0 \<le> p" "p \<le> int (length m)" "length m < 2 ^ 31"
  shows "OnRecv_loop cb m (int (length m)) p s =
    (case cb (drop (nat p) m) (hd_size (read_header (drop (nat p) m))) s of
       Inl e \<Rightarrow> Some (Inl e)
     | Inr s' \<Rightarrow> OnRecv_loop cb m (int (length m)) (p + int (frame_len (drop (nat p) m))) s')"
  using assms(1)
  by (subst OnRecv_loop.simps)
    (auto simp only: Let_def loop_size[OF assms(2-4)] incomplete_def uint_frame_len
      sizeof_PacketHeader_def of_nat_less_iff de_Morgan_disj split: if_splits)

lemma OnRecv_loop_deliver:
  assumes "split_frames (drop (nat p) m) = (fs, r)" "\<not> stuck r"
    "0 \<le> p" "p \<le> int (length m)" "length m < 2 ^ 31"
  shows "OnRecv_loop cb m (int (length m)) p s
     = Some (rbind (deliver cb fs r s) (\<lambda>s'. Inr (p + int (length (concat fs)), s')))"
  using assms
proof (induction fs arbitrary: p s)
  case Nil
  then have "incomplete (drop (nat p) m)"
    using split_frames_rest split_frames_concat by fastforce
  with Nil show ?case by (simp add: OnRecv_loop_stop)
next
  case (Cons f fs)
  let ?d = "drop (nat p) m"
  have go: "\<not> incomplete ?d" "\<not> stuck ?d"
    using Cons.prems(1) split_frames_stop[of ?d] by auto
  have f: "f = take (frame_len ?d) ?d" and rec: "split_frames (drop (frame_len ?d) ?d) = (fs, r)"
    using Cons.prems(1) split_frames_step[OF go]
    by (cases "split_frames (drop (frame_len ?d) ?d)", simp)+
  have len: "length f = frame_len ?d" "frame_len ?d \<le> length ?d"
    using go by (auto simp: f incomplete_def)
  have whole: "?d = f @ concat fs @ r"
    using split_frames_concat[OF Cons.prems(1)] by simp
  have next_: "drop (nat (p + int (frame_len ?d))) m = drop (frame_len ?d) ?d"
    using Cons.prems(3) by (simp add: nat_add_distrib add.commute)
  have hd: "hd_size (read_header ?d) = word_of_nat (length f)"
    by (simp add: len word_frame_len)
  show ?case
  proof (cases "cb ?d (hd_size (read_header ?d)) s")
    case (Inl e)
    then have "cb (f @ concat fs @ r) (word_of_nat (length f)) s = Inl e"
      unfolding hd unfolding whole .
    then have "deliver cb (f # fs) r s = Inl e" by simp
    then show ?thesis
      using OnRecv_loop_step[OF go(1) Cons.prems(3-5), of cb s] Inl by simp
  next
    case (Inr s')
    have "OnRecv_loop cb m (int (length m)) (p + int (frame_len ?d)) s'
      = Some (rbind (deliver cb fs r s')
          (\<lambda>s''. Inr (p + int (frame_len ?d) + int (length (concat fs)), s'')))"
      using Cons.prems len rec next_ by (intro Cons.IH) auto
    moreover have "cb (f @ concat fs @ r) (word_of_nat (length f)) s = Inr s'"
      using Inr unfolding hd unfolding whole .
    then have "deliver cb (f # fs) r s = deliver cb fs r s'" by simp
    ultimately show ?thesis
      using OnRecv_loop_step[OF go(1) Cons.prems(3-5), of cb s] Inr len
      by (simp add: add.assoc)
  qed
qed

lemma OnRecv_deliver:
  assumes "split_frames m = (fs, r)" "\<not> stuck r" "length m < 2 ^ 31"
  shows "OnRecv cb m (int (length m)) s
     = Some (rbind (deliver cb fs r s) (\<lambda>s'. Inr (int (length (concat fs)), s')))"
  using OnRecv_loop_deliver[of 0 m fs r] assms by (simp add: OnRecv_def)

text \<open>
  A zero size field: the position never advances, the callback runs for ever and the call does
  not return.
\<close>

lemma OnRecv_loop_stuck:
  assumes st: "stuck (drop (nat p) m)" and le: "0 \<le> p" "p \<le> int (length m)" "length m < 2 ^ 31"
    and ok: "\<And>s. \<exists>s'. cb (drop (nat p) m) 0 s = Inr s'"
  shows "OnRecv_loop cb m (int (length m)) p s = None"
proof (rule ccontr)
  assume "OnRecv_loop cb m (int (length m)) p s \<noteq> None"
  then obtain y where ret: "OnRecv_loop cb m (int (length m)) p s = Some y" by auto
  have size: "4 \<le> length (drop (nat p) m)" "hd_size (read_header (drop (nat p) m)) = 0"
    using st by (auto simp: stuck_def frame_len_def unat_eq_zero)
  have "to_size_t (int (length m) - p) = int (length m) - p"
    using le by (simp add: to_size_t_id)
  then have big: "\<not> to_size_t (int (length m) - p) < 4"
    using size le by simp
  have "\<not> (cb = cb \<and> m = m \<and> int (length m) = int (length m) \<and> p = p)"
  proof (rule OnRecv_loop.raw_induct
      [where P = "\<lambda>c b l q t y. \<not> (c = cb \<and> b = m \<and> l = int (length m) \<and> q = p)", OF _ ret])
    fix f c b l q and t :: 'a and y
    assume IH: "\<And>c b l q t y. f c b l q t = Some y \<Longrightarrow>
        \<not> (c = cb \<and> b = m \<and> l = int (length m) \<and> q = p)"
      and eq: "(let dataSize = l - q in
         if to_size_t dataSize < int sizeof_PacketHeader then Some (Inr (q, t))
         else let here = drop (nat q) b; header = read_header here in
           if dataSize < uint (hd_size header) then Some (Inr (q, t))
           else (case c here (hd_size header) t of Inl e \<Rightarrow> Some (Inl e)
             | Inr s' \<Rightarrow> f c b l (q + uint (hd_size header)) s')) = Some y"
    show "\<not> (c = cb \<and> b = m \<and> l = int (length m) \<and> q = p)"
    proof
      assume a: "c = cb \<and> b = m \<and> l = int (length m) \<and> q = p"
      obtain t' where "cb (drop (nat p) m) 0 t = Inr t'" using ok by blast
      then have "f cb m (int (length m)) p t' = Some y"
        using eq a size big le by (simp add: Let_def sizeof_PacketHeader_def)
      with IH show False by blast
    qed
  qed
  then show False by simp
qed

lemma OnRecv_loop_leftover:
  assumes "split_frames (drop (nat p) m) = (fs, r)" "stuck r"
    "0 \<le> p" "p \<le> int (length m)" "length m < 2 ^ 31"
    and ok: "\<And>here n s. \<exists>s'. cb here n s = Inr s'"
  shows "OnRecv_loop cb m (int (length m)) p s = None"
  using assms(1-5)
proof (induction fs arbitrary: p s)
  case Nil
  then have "drop (nat p) m = r" using split_frames_concat[OF Nil.prems(1)] by simp
  then show ?case using OnRecv_loop_stuck[OF _ Nil.prems(3-5), of cb s] Nil.prems(2) ok by simp
next
  case (Cons f fs)
  let ?d = "drop (nat p) m"
  have go: "\<not> incomplete ?d" "\<not> stuck ?d" using Cons.prems(1) split_frames_stop[of ?d] by auto
  have rec: "split_frames (drop (frame_len ?d) ?d) = (fs, r)"
    using Cons.prems(1) split_frames_step[OF go] by (cases "split_frames (drop (frame_len ?d) ?d)", simp)+
  have "drop (nat (p + int (frame_len ?d))) m = drop (frame_len ?d) ?d"
    using Cons.prems(3) by (simp add: nat_add_distrib add.commute)
  moreover have "p + int (frame_len ?d) \<le> int (length m)"
  proof -
    have "frame_len ?d \<le> length m - nat p" using go(1) by (simp add: incomplete_def)
    then show ?thesis using Cons.prems(3,4) by linarith
  qed
  ultimately have IH: "OnRecv_loop cb m (int (length m)) (p + int (frame_len ?d)) s' = None" for s'
    using Cons.prems rec by (intro Cons.IH) auto
  obtain s' where "cb ?d (hd_size (read_header ?d)) s = Inr s'" using ok by blast
  then show ?case using OnRecv_loop_step[OF go(1) Cons.prems(3-5), of cb s] IH by simp
qed

text \<open>What every callback keeps, a call of OnRecv that returns keeps.\<close>

lemma OnRecv_loop_preserves:
  assumes ret: "OnRecv_loop cb m len p s = Some y"
    and step: "\<And>here k s s'. P s \<Longrightarrow> cb here k s = Inr s' \<Longrightarrow> P s'"
  shows "cb = cb \<longrightarrow> P s \<longrightarrow> (\<forall>q s'. y = Inr (q, s') \<longrightarrow> P s')"
proof (rule OnRecv_loop.raw_induct
    [where P = "\<lambda>c b l p t y. c = cb \<longrightarrow> P t \<longrightarrow> (\<forall>q s'. y = Inr (q, s') \<longrightarrow> P s')", OF _ ret])
  fix f c b l p and t :: 'a and y
  assume IH: "\<And>c b l p t y. f c b l p t = Some y \<Longrightarrow> c = cb \<longrightarrow> P t \<longrightarrow> (\<forall>q s'. y = Inr (q, s') \<longrightarrow> P s')"
    and eq: "(let dataSize = l - p in
       if to_size_t dataSize < int sizeof_PacketHeader then Some (Inr (p, t))
       else let here = drop (nat p) b; header = read_header here in
         if dataSize < uint (hd_size header) then Some (Inr (p, t))
         else (case c here (hd_size header) t of Inl e \<Rightarrow> Some (Inl e)
           | Inr s' \<Rightarrow> f c b l (p + uint (hd_size header)) s')) = Some y"
  show "c = cb \<longrightarrow> P t \<longrightarrow> (\<forall>q s'. y = Inr (q, s') \<longrightarrow> P s')"
  proof (intro impI allI)
    fix q s' assume c: "c = cb" and t: "P t" and y: "y = Inr (q, s')"
    consider "s' = t" | t' p' where "cb (drop (nat p) b) (hd_size (read_header (drop (nat p) b))) t = Inr t'"
      "f cb b l p' t' = Some y"
      using eq y unfolding Let_def c by (auto split: if_splits sum.splits)
    then show "P s'"
    proof cases
      case 1
      then show ?thesis using t by simp
    next
      case 2
      then show ?thesis using IH[OF 2(2)] step[OF t 2(1)] y by blast
    qed
  qed
qed

lemma OnRecv_preserves:
  assumes "OnRecv cb m len s = Some (Inr (q, s'))" and "P s"
    and "\<And>here k s s'. P s \<Longrightarrow> cb here k s = Inr s' \<Longrightarrow> P s'"
  shows "P s'"
proof -
  have "OnRecv_loop cb m len 0 s = Some (Inr (q, s'))" using assms(1) by (simp add: OnRecv_def)
  from OnRecv_loop_preserves[where P = P, OF this] show ?thesis using assms(2,3) by blast
qed

section \<open>Properties\<close>

text \<open>C12: OnRecv against its specification. For every received buffer below 2 GB whose leftover
  does not begin with a zero size field, the call returns; it runs the callback on the complete
  packets in their order, each with its own size, stops at the first callback that fails, and
  otherwise reports as consumed exactly the bytes of those packets.\<close>

theorem OnRecv_correct:
  assumes "length m < 2 ^ 31" and "\<not> stuck (snd (split_frames m))"
  shows "OnRecv cb m (int (length m)) s
     = Some (rbind (deliver cb (fst (split_frames m)) (snd (split_frames m)) s)
         (\<lambda>s'. Inr (int (length m) - int (length (snd (split_frames m))), s')))"
proof -
  have "length (concat (fst (split_frames m))) + length (snd (split_frames m)) = length m"
    by (metis split_frames_concat length_append prod.collapse)
  then have "int (length (concat (fst (split_frames m)))) = int (length m) - int (length (snd (split_frames m)))"
    by linarith
  with OnRecv_deliver[OF _ assms(2,1), of "fst (split_frames m)"] show ?thesis by simp
qed

text \<open>Two whole packets and the first byte of a third.\<close>

abbreviation two_packets :: "byte list" where
  "two_packets \<equiv> [5, 0, 1, 0, 42, 4, 0, 2, 0, 9]"

lemma two_packets_split: "split_frames two_packets = ([[5, 0, 1, 0, 42], [4, 0, 2, 0]], [9])"
proof -
  have "split_frames (concat [[5, 0, 1, 0, 42], [4, 0, 2, 0]] @ [9]) = ([[5, 0, 1, 0, 42], [4, 0, 2, 0]], [9 :: byte])"
    by (rule split_frames_wf)
      (simp_all add: wf_frame_def incomplete_def frame_len_def read_header_def rd16_def unsigned_or_eq)
  then show ?thesis by simp
qed

theorem OnRecv_correct_witness:
  "OnRecv (\<lambda>here n log. Inr (log @ [(take (unat n) here)])) two_packets 10 []
     = Some (Inr (9, [[5, 0, 1, 0, 42], [4, 0, 2, 0]]))"
  using OnRecv_correct[of two_packets "\<lambda>here n log. Inr (log @ [(take (unat n) here)])" "[]"]
  by (simp add: two_packets_split stuck_def)

text \<open>Framing does not depend on how the stream is cut. Consuming the packets of a first
  part and then those of the leftover with the next part appended gives the same packets in the
  same order, and the same leftover, as the whole stream at once.\<close>

theorem framing_chunks:
  "split_frames (m @ k) =
     (fst (split_frames m) @ fst (split_frames (snd (split_frames m) @ k)),
      snd (split_frames (snd (split_frames m) @ k)))"
  by (rule split_frames_append) simp

text \<open>C39: When the receive loop ends. For a callback that does not fail, OnRecv returns exactly if
  cutting the buffer into packets does not leave a header whose size field is zero in front; on such a
  header it runs the callback for ever.\<close>

theorem OnRecv_terminates:
  assumes "length m < 2 ^ 31" and "\<And>here n s. \<exists>s'. cb here n s = Inr s'"
  shows "OnRecv cb m (int (length m)) s \<noteq> None \<longleftrightarrow> \<not> stuck (snd (split_frames m))"
proof (cases "stuck (snd (split_frames m))")
  case True
  then show ?thesis
    using OnRecv_loop_leftover[of 0 m "fst (split_frames m)" "snd (split_frames m)" cb s] assms
    by (simp add: OnRecv_def)
next
  case False
  then show ?thesis using OnRecv_deliver[of m _ _ cb s] assms(1) by (cases "split_frames m") simp
qed

theorem OnRecv_terminates_witness:
  "OnRecv (\<lambda>_ _ s. Inr s) [0, 0, 1, 0] 4 () = None"
  using OnRecv_terminates[of "[0, 0, 1, 0]" "\<lambda>_ _ s. Inr s" "()"]
  by (simp add: split_frames_stop stuck_def frame_len_def read_header_def rd16_def)

text \<open>The header round trip. The four bytes of a header followed by any payload are read
  back as that header.\<close>

theorem header_roundtrip: "read_header (header_bytes h @ payload) = h"
  by (rule read_header_bytes)

end
