(* ===== verification/Send_Buffer.thy ===== *)
theory Send_Buffer
  imports Server_Base
begin

text \<open>
  Send buffers (ServerCore/SendBuffer.h, SendBuffer.cpp). A SendBuffer is a piece cut from the
  end of a SendBufferChunk of 6000 bytes; each thread has one current chunk, and a chunk that
  no shared_ptr refers to any more goes back to the manager's pool, because its deleter is
  PushGlobal and not delete. Chunks and send buffers live in a store and are named by numbers;
  the count a shared_ptr keeps for a chunk is the field chunk_refs.
\<close>

section \<open>State\<close>

definition SEND_BUFFER_CHUNK_SIZE :: u32 where
  "SEND_BUFFER_CHUNK_SIZE = 6000"

record send_chunk =
  c_buffer :: "byte list"
  c_open :: bool
  c_usedSize :: u32

record send_buffer =
  b_offset :: u32
  b_allocSize :: u32
  b_writeSize :: u32
  b_owner :: nat

record send_state =
  chunks :: "nat \<Rightarrow> send_chunk"
  chunk_refs :: "nat \<Rightarrow> nat"
  next_chunk :: nat
  buffers :: "nat \<Rightarrow> send_buffer option"
  next_buffer :: nat
  m_sendBufferChunks :: "nat list"
  LSendBufferChunk :: "nat \<Rightarrow> nat option"

definition new_chunk :: send_chunk where
  "new_chunk = \<lparr>c_buffer = replicate 6000 0, c_open = False, c_usedSize = 0\<rparr>"

definition send_init :: send_state where
  "send_init = \<lparr>chunks = (\<lambda>_. new_chunk), chunk_refs = (\<lambda>_. 0), next_chunk = 0,
     buffers = (\<lambda>_. None), next_buffer = 0, m_sendBufferChunks = [], LSendBufferChunk = (\<lambda>_. None)\<rparr>"

definition upd_chunk :: "nat \<Rightarrow> (send_chunk \<Rightarrow> send_chunk) \<Rightarrow> send_state \<Rightarrow> send_state" where
  "upd_chunk c f s = s\<lparr>chunks := (chunks s)(c := f (chunks s c))\<rparr>"

section \<open>SendBufferChunk\<close>

definition Chunk_Reset :: "nat \<Rightarrow> send_state \<Rightarrow> send_state" where
  "Chunk_Reset c s = upd_chunk c (\<lambda>k. k\<lparr>c_open := False, c_usedSize := 0\<rparr>) s"

definition Chunk_IsOpen :: "nat \<Rightarrow> send_state \<Rightarrow> bool" where
  "Chunk_IsOpen c s = c_open (chunks s c)"

definition Chunk_FreeSize :: "nat \<Rightarrow> send_state \<Rightarrow> u32" where
  "Chunk_FreeSize c s = word_of_nat (length (c_buffer (chunks s c))) - c_usedSize (chunks s c)"

definition Chunk_Open :: "nat \<Rightarrow> u32 \<Rightarrow> send_state \<Rightarrow> (nat option \<times> send_state) result" where
  "Chunk_Open c allocSize s =
     rbind (ASSERT_CRASH (allocSize \<le> SEND_BUFFER_CHUNK_SIZE)) (\<lambda>_.
     rbind (ASSERT_CRASH (\<not> Chunk_IsOpen c s)) (\<lambda>_.
       if allocSize > Chunk_FreeSize c s then Inr (None, s)
       else
         let s1 = upd_chunk c (\<lambda>k. k\<lparr>c_open := True\<rparr>) s;
             i = next_buffer s1;
             b = \<lparr>b_offset = c_usedSize (chunks s1 c), b_allocSize = allocSize, b_writeSize = 0,
                  b_owner = c\<rparr>
         in Inr (Some i, s1\<lparr>buffers := (buffers s1)(i := Some b), next_buffer := Suc i,
                            chunk_refs := (chunk_refs s1)(c := Suc (chunk_refs s1 c))\<rparr>)))"

definition Chunk_Close :: "nat \<Rightarrow> u32 \<Rightarrow> send_state \<Rightarrow> send_state result" where
  "Chunk_Close c writeSize s =
     rbind (ASSERT_CRASH (Chunk_IsOpen c s)) (\<lambda>_.
       Inr (upd_chunk c (\<lambda>k. k\<lparr>c_open := False, c_usedSize := c_usedSize k + writeSize\<rparr>) s))"

section \<open>SendBuffer\<close>

definition SendBuffer_Close :: "nat \<Rightarrow> u32 \<Rightarrow> send_state \<Rightarrow> send_state result" where
  "SendBuffer_Close i writeSize s =
     (case buffers s i of
        None \<Rightarrow> Inl UseAfterFree
      | Some b \<Rightarrow>
          rbind (ASSERT_CRASH (b_allocSize b \<ge> writeSize)) (\<lambda>_.
            Chunk_Close (b_owner b) writeSize
              (s\<lparr>buffers := (buffers s)(i := Some (b\<lparr>b_writeSize := writeSize\<rparr>))\<rparr>)))"

section \<open>SendBufferManager\<close>

definition Manager_Push :: "nat \<Rightarrow> send_state \<Rightarrow> send_state" where
  "Manager_Push c s = s\<lparr>m_sendBufferChunks := m_sendBufferChunks s @ [c]\<rparr>"

text \<open>The deleter: a new shared_ptr for the chunk, kept by the pool.\<close>

definition PushGlobal :: "nat \<Rightarrow> send_state \<Rightarrow> send_state" where
  "PushGlobal c s = Manager_Push c (s\<lparr>chunk_refs := (chunk_refs s)(c := 1)\<rparr>)"

definition release_chunk :: "nat \<Rightarrow> send_state \<Rightarrow> send_state" where
  "release_chunk c s =
     (let s1 = s\<lparr>chunk_refs := (chunk_refs s)(c := chunk_refs s c - 1)\<rparr> in
      if chunk_refs s1 c = 0 then PushGlobal c s1 else s1)"

text \<open>The reference of the pool moves to the caller; an empty pool makes a new chunk.\<close>

definition Manager_Pop :: "send_state \<Rightarrow> nat \<times> send_state" where
  "Manager_Pop s =
     (if m_sendBufferChunks s \<noteq> []
      then (last (m_sendBufferChunks s), s\<lparr>m_sendBufferChunks := butlast (m_sendBufferChunks s)\<rparr>)
      else (next_chunk s,
            s\<lparr>chunks := (chunks s)(next_chunk s := new_chunk),
              chunk_refs := (chunk_refs s)(next_chunk s := 1), next_chunk := Suc (next_chunk s)\<rparr>))"

definition set_current :: "nat \<Rightarrow> nat \<Rightarrow> send_state \<Rightarrow> send_state" where
  "set_current t c s =
     (let s1 = s\<lparr>LSendBufferChunk := (LSendBufferChunk s)(t := Some c)\<rparr> in
      case LSendBufferChunk s t of None \<Rightarrow> s1 | Some old \<Rightarrow> release_chunk old s1)"

definition take_chunk :: "nat \<Rightarrow> send_state \<Rightarrow> nat \<times> send_state" where
  "take_chunk t s = (let (c, s1) = Manager_Pop s in (c, Chunk_Reset c (set_current t c s1)))"

definition Manager_Open :: "nat \<Rightarrow> u32 \<Rightarrow> send_state \<Rightarrow> (nat option \<times> send_state) result" where
  "Manager_Open t sz s =
     (let (c, s1) = (case LSendBufferChunk s t of None \<Rightarrow> take_chunk t s | Some c \<Rightarrow> (c, s)) in
      rbind (ASSERT_CRASH (\<not> Chunk_IsOpen c s1)) (\<lambda>_.
        let (c2, s2) = (if Chunk_FreeSize c s1 < sz then take_chunk t s1 else (c, s1)) in
        Chunk_Open c2 sz s2))"

section \<open>The end of a send buffer, and writing into it\<close>

text \<open>
  The destructor of a SendBuffer runs when its last shared_ptr goes; it gives up the owner.
  Between Open and Close the caller writes through the pointer Buffer() returned.
\<close>

definition SendBuffer_destroy :: "nat \<Rightarrow> send_state \<Rightarrow> send_state result" where
  "SendBuffer_destroy i s =
     (case buffers s i of
        None \<Rightarrow> Inl UseAfterFree
      | Some b \<Rightarrow> Inr (release_chunk (b_owner b) (s\<lparr>buffers := (buffers s)(i := None)\<rparr>)))"

definition SendBuffer_store :: "nat \<Rightarrow> byte list \<Rightarrow> send_state \<Rightarrow> send_state result" where
  "SendBuffer_store i bs s =
     (case buffers s i of
        None \<Rightarrow> Inl UseAfterFree
      | Some b \<Rightarrow>
          if length (c_buffer (chunks s (b_owner b))) < unat (b_offset b) + length bs
          then Inl OutOfBounds
          else Inr (upd_chunk (b_owner b)
                 (\<lambda>k. k\<lparr>c_buffer := overwrite (c_buffer k) (unat (b_offset b)) bs\<rparr>) s))"

definition buffer_bytes :: "send_state \<Rightarrow> nat \<Rightarrow> byte list option" where
  "buffer_bytes s i =
     (case buffers s i of
        None \<Rightarrow> None
      | Some b \<Rightarrow> Some (slice (unat (b_offset b)) (unat (b_writeSize b)) (c_buffer (chunks s (b_owner b)))))"

lemmas [op_defs] = upd_chunk_def Chunk_Reset_def Chunk_IsOpen_def Chunk_FreeSize_def Chunk_Close_def
  Manager_Push_def PushGlobal_def release_chunk_def set_current_def

section \<open>The threads that make packets\<close>

text \<open>
  A thread that makes a packet opens a buffer, writes into it and closes it (MakeSendBuffer in
  GameServer/ClientPacketHandler.h and DummyClient/ServerPacketHandler.h); the second component
  of a state says which threads are in between, and with which buffer. A finished buffer may be
  dropped at any time. The manager's lock makes Pop and Push atomic and every other field is
  used by one thread only, so the steps of different threads interleave as whole operations.
\<close>

type_synonym send_sys = "send_state \<times> (nat \<Rightarrow> nat option)"

definition sys_init :: "send_sys \<Rightarrow> bool" where
  "sys_init x \<longleftrightarrow> x = (send_init, \<lambda>_. None)"

inductive send_step :: "send_sys \<Rightarrow> send_sys \<Rightarrow> bool" where
  s_open: "p t = None \<Longrightarrow> Manager_Open t sz s = Inr (Some i, s') \<Longrightarrow>
     send_step (s, p) (s', p(t := Some i))"
| s_store: "p t = Some i \<Longrightarrow> buffers s i = Some b \<Longrightarrow> length bs \<le> unat (b_allocSize b) \<Longrightarrow>
     SendBuffer_store i bs s = Inr s' \<Longrightarrow> send_step (s, p) (s', p)"
| s_close: "p t = Some i \<Longrightarrow> SendBuffer_Close i n s = Inr s' \<Longrightarrow>
     send_step (s, p) (s', p(t := None))"
| s_drop: "(\<forall>t. p t \<noteq> Some i) \<Longrightarrow> SendBuffer_destroy i s = Inr s' \<Longrightarrow>
     send_step (s, p) (s', p)"

end
