(* ===== verification/Send_Buffer_Safety.thy ===== *)
theory Send_Buffer_Safety
  imports Send_Buffer
begin

text \<open>
  The invariant of the send buffers of all threads and what follows from it: the count of every
  chunk is the number of its holders, a chunk in the pool has no other holder, the live buffers
  of a chunk are pairwise disjoint pieces of it, and the bytes of a finished buffer never change.
\<close>

section \<open>The invariant\<close>

definition tls_set :: "send_state \<Rightarrow> nat \<Rightarrow> nat set" where
  "tls_set s c = {t. LSendBufferChunk s t = Some c}"

definition buf_set :: "send_state \<Rightarrow> nat \<Rightarrow> nat set" where
  "buf_set s c = {i. \<exists>b. buffers s i = Some b \<and> b_owner b = c}"

text \<open>
  The parameter x names a chunk whose reference a local variable holds, in the middle of an
  operation; between operations it is None.
\<close>

definition refs_inv :: "nat option \<Rightarrow> send_state \<Rightarrow> bool" where
  "refs_inv x s \<longleftrightarrow> (\<forall>c. finite (tls_set s c) \<and> finite (buf_set s c) \<and>
     chunk_refs s c = card (tls_set s c) + card (buf_set s c)
       + (if c \<in> set (m_sendBufferChunks s) then 1 else 0) + (if x = Some c then 1 else 0))"

definition pool_inv :: "nat option \<Rightarrow> send_state \<Rightarrow> bool" where
  "pool_inv x s \<longleftrightarrow> distinct (m_sendBufferChunks s) \<and>
     (\<forall>c \<in> set (m_sendBufferChunks s). tls_set s c = {} \<and> buf_set s c = {} \<and> x \<noteq> Some c)"

definition ids_inv :: "nat option \<Rightarrow> send_state \<Rightarrow> bool" where
  "ids_inv x s \<longleftrightarrow> (\<forall>c \<in> set (m_sendBufferChunks s). c < next_chunk s)
     \<and> (\<forall>t c. LSendBufferChunk s t = Some c \<longrightarrow> c < next_chunk s)
     \<and> (\<forall>i b. buffers s i = Some b \<longrightarrow> i < next_buffer s \<and> b_owner b < next_chunk s)
     \<and> (\<forall>c. x = Some c \<longrightarrow> c < next_chunk s)
     \<and> (\<forall>t u c. LSendBufferChunk s t = Some c \<longrightarrow> LSendBufferChunk s u = Some c \<longrightarrow> t = u)"

definition region_inv :: "send_state \<Rightarrow> bool" where
  "region_inv s \<longleftrightarrow>
     (\<forall>c. length (c_buffer (chunks s c)) = 6000 \<and> unat (c_usedSize (chunks s c)) \<le> 6000)
     \<and> (\<forall>i b. buffers s i = Some b \<longrightarrow>
          unat (b_offset b) + unat (b_writeSize b) \<le> unat (c_usedSize (chunks s (b_owner b))))
     \<and> (\<forall>i j b d. buffers s i = Some b \<longrightarrow> buffers s j = Some d \<longrightarrow> i \<noteq> j \<longrightarrow> b_owner b = b_owner d \<longrightarrow>
          unat (b_offset b) + unat (b_writeSize b) \<le> unat (b_offset d) \<or>
          unat (b_offset d) + unat (b_writeSize d) \<le> unat (b_offset b))"

definition pend_inv :: "send_state \<Rightarrow> (nat \<Rightarrow> nat option) \<Rightarrow> bool" where
  "pend_inv s p \<longleftrightarrow>
     (\<forall>t i. p t = Some i \<longrightarrow> (\<exists>b. buffers s i = Some b \<and> LSendBufferChunk s t = Some (b_owner b)
        \<and> c_open (chunks s (b_owner b)) \<and> b_offset b = c_usedSize (chunks s (b_owner b))
        \<and> b_writeSize b = 0 \<and> unat (b_offset b) + unat (b_allocSize b) \<le> 6000))
     \<and> (\<forall>t c. LSendBufferChunk s t = Some c \<longrightarrow> p t = None \<longrightarrow> \<not> c_open (chunks s c))"

definition send_inv :: "nat option \<Rightarrow> send_sys \<Rightarrow> bool" where
  "send_inv x y \<longleftrightarrow> (case y of (s, p) \<Rightarrow>
     refs_inv x s \<and> pool_inv x s \<and> ids_inv x s \<and> region_inv s \<and> pend_inv s p)"

lemmas [inv_defs] = refs_inv_def pool_inv_def ids_inv_def region_inv_def pend_inv_def

lemma ids_inv_owner: "ids_inv x s \<Longrightarrow> buffers s i = Some b \<Longrightarrow> b_owner b < next_chunk s"
  and ids_inv_buffer: "ids_inv x s \<Longrightarrow> buffers s i = Some b \<Longrightarrow> i < next_buffer s"
  and ids_inv_current: "ids_inv x s \<Longrightarrow> LSendBufferChunk s t = Some c \<Longrightarrow> c < next_chunk s"
  by (auto simp: ids_inv_def)

lemma region_inv_cong:
  assumes "region_inv s" "buffers s' = buffers s"
    and "\<And>c. length (c_buffer (chunks s' c)) = 6000 \<and> unat (c_usedSize (chunks s' c)) \<le> 6000"
    and "\<And>i b. buffers s i = Some b \<Longrightarrow>
           c_usedSize (chunks s' (b_owner b)) = c_usedSize (chunks s (b_owner b))"
  shows "region_inv s'"
  using assms(1) assms(3) assms(4) unfolding region_inv_def assms(2) by metis

lemma pend_inv_cong:
  assumes "pend_inv s p" "buffers s' = buffers s" "LSendBufferChunk s' = LSendBufferChunk s"
    and "\<And>t c. LSendBufferChunk s t = Some c \<Longrightarrow>
           c_open (chunks s' c) = c_open (chunks s c) \<and> c_usedSize (chunks s' c) = c_usedSize (chunks s c)"
  shows "pend_inv s' p"
  using assms(1) assms(4) unfolding pend_inv_def assms(2,3) by metis

lemma pend_invD:
  assumes "pend_inv s p" "p t = Some i"
  obtains b where "buffers s i = Some b" "LSendBufferChunk s t = Some (b_owner b)"
    "c_open (chunks s (b_owner b))" "b_offset b = c_usedSize (chunks s (b_owner b))"
    "b_writeSize b = 0" "unat (b_offset b) + unat (b_allocSize b) \<le> 6000"
  using assms unfolding pend_inv_def by blast

definition writing :: "send_state \<Rightarrow> nat \<Rightarrow> nat \<Rightarrow> bool" where
  "writing s u i \<longleftrightarrow> (\<exists>b. buffers s i = Some b \<and> LSendBufferChunk s u = Some (b_owner b)
     \<and> c_open (chunks s (b_owner b)) \<and> b_offset b = c_usedSize (chunks s (b_owner b))
     \<and> b_writeSize b = 0 \<and> unat (b_offset b) + unat (b_allocSize b) \<le> 6000)"

lemma pend_inv_writing:
  "pend_inv s p \<longleftrightarrow> (\<forall>u i. p u = Some i \<longrightarrow> writing s u i)
     \<and> (\<forall>u c. LSendBufferChunk s u = Some c \<longrightarrow> p u = None \<longrightarrow> \<not> c_open (chunks s c))"
  by (simp add: pend_inv_def writing_def)

lemma send_invD:
  assumes "send_inv x (s, p)"
  shows "refs_inv x s" "pool_inv x s" "ids_inv x s" "region_inv s" "pend_inv s p"
  using assms by (auto simp: send_inv_def)

lemma send_invI:
  "refs_inv x s \<Longrightarrow> pool_inv x s \<Longrightarrow> ids_inv x s \<Longrightarrow> region_inv s \<Longrightarrow> pend_inv s p \<Longrightarrow> send_inv x (s, p)"
  by (simp add: send_inv_def)

lemma send_inv_init: "sys_init y \<Longrightarrow> send_inv None y"
  by (auto simp: sys_init_def send_inv_def send_init_def inv_defs tls_set_def buf_set_def new_chunk_def)

section \<open>Giving up a reference\<close>

lemma release_chunk_frame [simp]:
  "chunks (release_chunk c s) = chunks s" "buffers (release_chunk c s) = buffers s"
  "LSendBufferChunk (release_chunk c s) = LSendBufferChunk s"
  "next_chunk (release_chunk c s) = next_chunk s" "next_buffer (release_chunk c s) = next_buffer s"
  "tls_set (release_chunk c s) = tls_set s" "buf_set (release_chunk c s) = buf_set s"
  by (auto simp: op_defs Let_def tls_set_def buf_set_def fun_eq_iff)

lemma release_chunk_refs_pool:
  assumes "refs_inv (Some c) s" "pool_inv (Some c) s"
  shows "refs_inv None (release_chunk c s) \<and> pool_inv None (release_chunk c s)"
proof (cases "chunk_refs s c = 1")
  case True
  have out: "c \<notin> set (m_sendBufferChunks s)"
    using assms(2) by (auto simp: pool_inv_def)
  have "card (tls_set s c) = 0" "card (buf_set s c) = 0"
    using assms(1) True out by (auto simp: refs_inv_def dest: spec[of _ c])
  then have "tls_set s c = {}" "buf_set s c = {}"
    using assms(1) by (auto simp: refs_inv_def)
  moreover have "release_chunk c s = s\<lparr>chunk_refs := (chunk_refs s)(c := 1),
      m_sendBufferChunks := m_sendBufferChunks s @ [c]\<rparr>"
    using True by (simp add: op_defs)
  ultimately show ?thesis
    using assms out by (auto simp: refs_inv_def pool_inv_def tls_set_def buf_set_def)
next
  case False
  have "1 \<le> chunk_refs s c"
    using assms(1) by (auto simp: refs_inv_def dest: spec[of _ c])
  then have "release_chunk c s = s\<lparr>chunk_refs := (chunk_refs s)(c := chunk_refs s c - 1)\<rparr>"
    using False by (simp add: op_defs)
  then show ?thesis
    using assms by (auto simp: refs_inv_def pool_inv_def tls_set_def buf_set_def)
qed

lemma release_chunk_ids: "ids_inv (Some c) s \<Longrightarrow> ids_inv None (release_chunk c s)"
  by (auto simp: ids_inv_def op_defs Let_def)

lemma release_chunk_inv: "send_inv (Some c) (s, p) \<Longrightarrow> send_inv None (release_chunk c s, p)"
  using release_chunk_refs_pool[of c s] release_chunk_ids[of c s]
  by (simp add: send_inv_def region_inv_def pend_inv_def)

section \<open>Changing the current chunk\<close>

definition unheld :: "nat \<Rightarrow> send_state \<Rightarrow> bool" where
  "unheld c s \<longleftrightarrow> tls_set s c = {} \<and> buf_set s c = {}"

lemma Manager_Pop_inv:
  assumes "send_inv None (s, p)" "Manager_Pop s = (c, s')"
  shows "send_inv (Some c) (s', p) \<and> unheld c s' \<and> buffers s' = buffers s
    \<and> LSendBufferChunk s' = LSendBufferChunk s \<and> (\<forall>k. k < next_chunk s \<longrightarrow> chunks s' k = chunks s k)
    \<and> next_chunk s \<le> next_chunk s'"
proof (cases "m_sendBufferChunks s = []")
  case True
  have c: "c = next_chunk s" and s': "s' = s\<lparr>chunks := (chunks s)(next_chunk s := new_chunk),
      chunk_refs := (chunk_refs s)(next_chunk s := 1), next_chunk := Suc (next_chunk s)\<rparr>"
    using assms(2) True by (auto simp: Manager_Pop_def)
  note D = send_invD[OF assms(1)]
  have free: "unheld c s'"
    using D(3) by (auto simp: c s' unheld_def tls_set_def buf_set_def dest: ids_inv_owner ids_inv_current)
  moreover have "refs_inv (Some c) s'"
    using D(1) free True by (auto simp: c s' refs_inv_def unheld_def tls_set_def buf_set_def)
  moreover have "pool_inv (Some c) s'"
    using True by (simp add: s' pool_inv_def)
  moreover have "ids_inv (Some c) s'"
    using D(3) unfolding ids_inv_def c s' by (simp add: less_Suc_eq)
  moreover have "region_inv s'"
    using D(3,4) by (intro region_inv_cong[OF D(4)])
      (auto simp: s' new_chunk_def region_inv_def dest: ids_inv_owner)
  moreover have "pend_inv s' p"
    using D(3) by (intro pend_inv_cong[OF D(5)]) (auto simp: s' dest: ids_inv_current)
  ultimately show ?thesis
    by (auto intro: send_invI simp: s')
next
  case False
  have c: "c = last (m_sendBufferChunks s)"
    and s': "s' = s\<lparr>m_sendBufferChunks := butlast (m_sendBufferChunks s)\<rparr>"
    using assms(2) False by (auto simp: Manager_Pop_def)
  have pool: "m_sendBufferChunks s = butlast (m_sendBufferChunks s) @ [c]"
    using False by (simp add: c)
  have dist: "distinct (butlast (m_sendBufferChunks s) @ [c])"
    using assms(1) pool by (simp add: send_inv_def pool_inv_def)
  have mem: "set (m_sendBufferChunks s) = insert c (set (butlast (m_sendBufferChunks s)))"
    by (subst pool) simp
  have free: "unheld c s'"
    using assms(1) mem by (auto simp: s' send_inv_def pool_inv_def unheld_def tls_set_def buf_set_def)
  moreover have "pool_inv (Some c) s'"
    using assms(1) mem dist by (auto simp: s' send_inv_def pool_inv_def tls_set_def buf_set_def)
  moreover have "refs_inv (Some c) s'"
    using assms(1) mem dist by (auto simp: s' send_inv_def refs_inv_def tls_set_def buf_set_def)
  moreover have "ids_inv (Some c) s'"
    using assms(1) mem by (auto simp: s' send_inv_def ids_inv_def)
  ultimately show ?thesis
    using assms(1) by (simp add: send_inv_def s' region_inv_def pend_inv_def)
qed

lemma tls_set_update:
  "tls_set (s\<lparr>LSendBufferChunk := (LSendBufferChunk s)(t := Some c)\<rparr>) k
     = (if k = c then insert t (tls_set s k) else tls_set s k - {t})"
  by (auto simp: tls_set_def)

lemma set_current_inv:
  assumes inv: "send_inv (Some c) (s, p)" and free: "unheld c s" and idle: "p t = None"
    and closed: "\<not> c_open (chunks s c)"
  shows "send_inv None (set_current t c s, p)"
proof -
  let ?s1 = "s\<lparr>LSendBufferChunk := (LSendBufferChunk s)(t := Some c)\<rparr>"
  let ?old = "LSendBufferChunk s t"
  note D = send_invD[OF inv]
  have t: "t \<notin> tls_set s c" "\<And>k. t \<in> tls_set s k \<longleftrightarrow> ?old = Some k" "?old \<noteq> Some c"
    using free by (auto simp: unheld_def tls_set_def)
  have bufs: "buf_set ?s1 = buf_set s" by (simp add: buf_set_def fun_eq_iff)
  have "refs_inv ?old ?s1"
    unfolding refs_inv_def
  proof
    fix k
    have old: "finite (tls_set s k)" "finite (buf_set s k)"
      "chunk_refs s k = card (tls_set s k) + card (buf_set s k)
        + (if k \<in> set (m_sendBufferChunks s) then 1 else 0) + (if Some c = Some k then 1 else 0)"
      using inv by (auto simp: send_inv_def refs_inv_def)
    have "t \<in> tls_set s k \<Longrightarrow> card (tls_set s k) = Suc (card (tls_set s k - {t}))"
      using old(1) by (metis card.remove)
    then have "card (tls_set ?s1 k) + (if ?old = Some k then 1 else 0)
        = card (tls_set s k) + (if k = c then 1 else 0)"
      using old(1) t by (cases "k = c") (simp_all add: tls_set_update)
    with old(3) have "chunk_refs ?s1 k = card (tls_set ?s1 k) + card (buf_set ?s1 k)
        + (if k \<in> set (m_sendBufferChunks ?s1) then 1 else 0) + (if ?old = Some k then 1 else 0)"
      by (simp add: bufs)
    with old(1,2) show "finite (tls_set ?s1 k) \<and> finite (buf_set ?s1 k) \<and>
        chunk_refs ?s1 k = card (tls_set ?s1 k) + card (buf_set ?s1 k)
          + (if k \<in> set (m_sendBufferChunks ?s1) then 1 else 0) + (if ?old = Some k then 1 else 0)"
      by (auto simp: tls_set_update bufs)
  qed
  moreover have "pool_inv ?old ?s1"
    unfolding pool_inv_def
  proof (intro conjI ballI)
    show "distinct (m_sendBufferChunks ?s1)"
      using D(2) by (simp add: pool_inv_def)
    fix k assume "k \<in> set (m_sendBufferChunks ?s1)"
    then have k: "tls_set s k = {}" "buf_set s k = {}" "k \<noteq> c"
      using D(2) by (auto simp: pool_inv_def)
    then show "tls_set ?s1 k = {}" "buf_set ?s1 k = {}" "?old \<noteq> Some k"
      using t(2)[of k] by (simp_all add: tls_set_update bufs)
  qed
  moreover have "ids_inv ?old ?s1"
  proof -
    have none: "LSendBufferChunk s u \<noteq> Some c" for u
      using free by (auto simp: unheld_def tls_set_def)
    then show ?thesis
      using D(3) unfolding ids_inv_def by simp metis
  qed
  moreover have "region_inv ?s1"
    using D(4) by (simp add: region_inv_def)
  moreover have "pend_inv ?s1 p"
    using D(5) idle closed by (auto simp: pend_inv_def)
  ultimately have "send_inv ?old (?s1, p)"
    by (rule send_invI)
  then show ?thesis
    by (auto simp: set_current_def Let_def release_chunk_inv split: option.splits)
qed

lemma Reset_commute: "Chunk_Reset c (set_current t c s) = set_current t c (Chunk_Reset c s)"
  by (auto simp: op_defs Let_def split: option.splits)

lemma Reset_frame [simp]:
  "buffers (Chunk_Reset c s) = buffers s" "LSendBufferChunk (Chunk_Reset c s) = LSendBufferChunk s"
  "tls_set (Chunk_Reset c s) = tls_set s" "buf_set (Chunk_Reset c s) = buf_set s"
  "next_buffer (Chunk_Reset c s) = next_buffer s" "next_chunk (Chunk_Reset c s) = next_chunk s"
  "m_sendBufferChunks (Chunk_Reset c s) = m_sendBufferChunks s"
  "chunk_refs (Chunk_Reset c s) = chunk_refs s"
  "chunks (Chunk_Reset c s) k = (if k = c then (chunks s c)\<lparr>c_open := False, c_usedSize := 0\<rparr> else chunks s k)"
  by (auto simp: op_defs tls_set_def buf_set_def fun_eq_iff)

lemma Reset_inv:
  assumes "send_inv x (s, p)" "unheld c s"
  shows "send_inv x (Chunk_Reset c s, p) \<and> unheld c (Chunk_Reset c s)"
proof -
  note D = send_invD[OF assms(1)]
  have b: "b_owner b \<noteq> c" if "buffers s i = Some b" for i b
    using assms(2) that by (auto simp: unheld_def buf_set_def)
  have t: "LSendBufferChunk s t \<noteq> Some c" for t
    using assms(2) by (auto simp: unheld_def tls_set_def)
  have "refs_inv x (Chunk_Reset c s)" "pool_inv x (Chunk_Reset c s)" "ids_inv x (Chunk_Reset c s)"
    using D(1-3) by (simp_all add: refs_inv_def pool_inv_def ids_inv_def)
  moreover have "region_inv (Chunk_Reset c s)"
    using D(4) b by (intro region_inv_cong[OF D(4)]) (auto simp: region_inv_def)
  moreover have "pend_inv (Chunk_Reset c s) p"
    using t by (intro pend_inv_cong[OF D(5)]) auto
  ultimately show ?thesis
    using assms(2) by (simp add: send_invI unheld_def)
qed

text \<open>Taking a chunk keeps the invariant, gives the thread an empty closed chunk and touches no live bytes.\<close>

lemma take_chunk_inv:
  assumes "send_inv None (s, p)" "p t = None" "take_chunk t s = (c, s')"
  shows "send_inv None (s', p) \<and> LSendBufferChunk s' t = Some c \<and> \<not> c_open (chunks s' c)
    \<and> c_usedSize (chunks s' c) = 0 \<and> buffers s' = buffers s \<and> buf_set s' c = {}
    \<and> (\<forall>k. k < next_chunk s \<longrightarrow> c_buffer (chunks s' k) = c_buffer (chunks s k))
    \<and> next_buffer s' = next_buffer s"
proof -
  obtain s1 where pop: "Manager_Pop s = (c, s1)"
    and s': "s' = set_current t c (Chunk_Reset c s1)"
    using assms(3) by (auto simp: take_chunk_def Reset_commute split: prod.splits)
  have s1: "send_inv (Some c) (s1, p)" "unheld c s1" "buffers s1 = buffers s"
    "\<forall>k. k < next_chunk s \<longrightarrow> chunks s1 k = chunks s k"
    using Manager_Pop_inv[OF assms(1) pop] by auto
  have "next_buffer s1 = next_buffer s"
    using pop by (auto simp: Manager_Pop_def split: if_splits)
  moreover have "send_inv None (s', p)"
    unfolding s' using Reset_inv[OF s1(1,2)] assms(2)
    by (intro set_current_inv) (auto simp: op_defs)
  ultimately show ?thesis
    using s1 by (auto simp: s' set_current_def Let_def Chunk_Reset_def upd_chunk_def unheld_def
        buf_set_def split: option.splits)
qed

section \<open>Open\<close>

lemma FreeSize_unat:
  "region_inv s \<Longrightarrow> unat (Chunk_FreeSize c s) = 6000 - unat (c_usedSize (chunks s c))"
  by (simp add: Chunk_FreeSize_def region_inv_def unat_sub word_le_nat_alt)

lemma used_le: "region_inv s \<Longrightarrow> unat (c_usedSize (chunks s c)) \<le> 6000"
  by (simp add: region_inv_def)

definition ready :: "nat \<Rightarrow> nat \<Rightarrow> u32 \<Rightarrow> send_state \<Rightarrow> bool" where
  "ready t c sz s \<longleftrightarrow> LSendBufferChunk s t = Some c \<and> \<not> c_open (chunks s c) \<and> sz \<le> Chunk_FreeSize c s"

text \<open>
  The two checks of Manager_Open come down to one call of Chunk_Open on a chunk with room.
\<close>

lemma Manager_Open_ready:
  assumes inv: "send_inv None (s, p)" and idle: "p t = None" and sz: "sz \<le> 6000"
  shows "\<exists>c s1. Manager_Open t sz s = Chunk_Open c sz s1 \<and> send_inv None (s1, p) \<and> ready t c sz s1
    \<and> buffers s1 = buffers s \<and> next_buffer s1 = next_buffer s
    \<and> (\<forall>i. buffer_bytes s1 i = buffer_bytes s i)"
proof -
  have fits: "ready t c sz s1" if "take_chunk t s0 = (c, s1)" "send_inv None (s0, p)" for s0 c s1
    using take_chunk_inv[OF that(2) idle that(1)] FreeSize_unat[of s1 c] sz
    by (auto simp: ready_def send_inv_def word_le_nat_alt)
  have bytes: "buffer_bytes s1 i = buffer_bytes s0 i"
    if "take_chunk t s0 = (c, s1)" "send_inv None (s0, p)" for s0 c s1 i
    using take_chunk_inv[OF that(2) idle that(1)] that(2)
    by (auto simp: buffer_bytes_def send_inv_def dest: ids_inv_owner split: option.splits)
  have closed: "\<not> Chunk_IsOpen c s" if "LSendBufferChunk s t = Some c" for c
    using inv idle that by (auto simp: send_inv_def pend_inv_def Chunk_IsOpen_def)
  show ?thesis
  proof (cases "LSendBufferChunk s t")
    case None
    obtain c s1 where tc: "take_chunk t s = (c, s1)" by fastforce
    have r: "ready t c sz s1" using fits[OF tc inv] .
    have "Manager_Open t sz s = Chunk_Open c sz s1"
      using None tc r by (simp add: Manager_Open_def ready_def Chunk_IsOpen_def not_less[symmetric])
    then show ?thesis
      using take_chunk_inv[OF inv idle tc] r bytes[OF tc inv] by blast
  next
    case (Some c)
    show ?thesis
    proof (cases "Chunk_FreeSize c s < sz")
      case True
      obtain c2 s2 where tc: "take_chunk t s = (c2, s2)" by fastforce
      have "Manager_Open t sz s = Chunk_Open c2 sz s2"
        using Some tc True closed[OF Some] by (simp add: Manager_Open_def)
      then show ?thesis
        using take_chunk_inv[OF inv idle tc] fits[OF tc inv] bytes[OF tc inv] by blast
    next
      case False
      have "Manager_Open t sz s = Chunk_Open c sz s"
        using Some False closed[OF Some] by (simp add: Manager_Open_def)
      then show ?thesis
        using inv Some False closed[OF Some]
        by (intro exI[of _ c] exI[of _ s]) (auto simp: ready_def Chunk_IsOpen_def)
    qed
  qed
qed

lemma buf_set_add:
  assumes "buffers s i = None"
  shows "buf_set (s\<lparr>buffers := (buffers s)(i := Some b)\<rparr>) c
     = (if b_owner b = c then insert i (buf_set s c) else buf_set s c)"
  using assms by (auto simp: buf_set_def)

lemma buf_set_cong:
  "buffers s' = buffers s \<Longrightarrow> buf_set s' = buf_set s"
  "LSendBufferChunk s' = LSendBufferChunk s \<Longrightarrow> tls_set s' = tls_set s"
  by (simp_all add: buf_set_def tls_set_def fun_eq_iff)

definition opened :: "nat \<Rightarrow> u32 \<Rightarrow> send_state \<Rightarrow> send_state" where
  "opened c sz s = s\<lparr>chunks := (chunks s)(c := (chunks s c)\<lparr>c_open := True\<rparr>),
     buffers := (buffers s)(next_buffer s := Some \<lparr>b_offset = c_usedSize (chunks s c), b_allocSize = sz,
        b_writeSize = 0, b_owner = c\<rparr>),
     next_buffer := Suc (next_buffer s), chunk_refs := (chunk_refs s)(c := Suc (chunk_refs s c))\<rparr>"

lemma Chunk_Open_ready:
  assumes "ready t c sz s" "sz \<le> 6000"
  shows "Chunk_Open c sz s = Inr (Some (next_buffer s), opened c sz s)"
  using assms
  by (simp add: Chunk_Open_def ready_def SEND_BUFFER_CHUNK_SIZE_def Chunk_IsOpen_def opened_def
      Let_def upd_chunk_def not_less[symmetric])

lemma opened_inv:
  assumes inv: "send_inv None (s, p)" and r: "ready t c sz s" and idle: "p t = None"
  shows "send_inv None (opened c sz s, p(t := Some (next_buffer s)))"
proof -
  note D = send_invD[OF inv]
  let ?i = "next_buffer s" and ?s' = "opened c sz s"
  have cur: "LSendBufferChunk s t = Some c" "\<not> c_open (chunks s c)" "sz \<le> Chunk_FreeSize c s"
    using r by (auto simp: ready_def)
  have fresh: "buffers s ?i = None"
    using D(3) ids_inv_buffer[of None s ?i] by (cases "buffers s ?i") auto
  have tls: "tls_set ?s' = tls_set s"
    by (rule buf_set_cong) (simp add: opened_def)
  have bufs: "buf_set ?s' k = (if k = c then insert ?i (buf_set s k) else buf_set s k)" for k
    using fresh by (auto simp: opened_def buf_set_def)
  have ni: "?i \<notin> buf_set s c"
    using fresh by (simp add: buf_set_def)
  have pool: "c \<notin> set (m_sendBufferChunks s)"
    using D(2) cur by (auto simp: pool_inv_def tls_set_def)
  have "refs_inv None ?s'"
    unfolding refs_inv_def tls bufs using D(1) ni by (auto simp: refs_inv_def opened_def)
  moreover have "pool_inv None ?s'"
    unfolding pool_inv_def tls bufs using D(2) pool by (auto simp: pool_inv_def opened_def)
  moreover have "ids_inv None ?s'"
    using D(3) ids_inv_current[OF D(3) cur(1)] unfolding ids_inv_def
    by (auto simp: opened_def less_Suc_eq)
  moreover have "region_inv ?s'"
    using D(4) fresh unfolding region_inv_def opened_def
    by (auto simp: less_imp_le_nat split: if_splits)
  moreover have "pend_inv ?s' (p(t := Some ?i))"
  proof -
    have room: "unat (c_usedSize (chunks s c)) + unat sz \<le> 6000"
      using cur(3) FreeSize_unat[OF D(4), of c] used_le[OF D(4), of c]
      by (auto simp: word_le_nat_alt)
    have other: "LSendBufferChunk s u \<noteq> Some c" if "u \<noteq> t" for u
      using D(3) cur(1) that by (auto simp: ids_inv_def)
    have "writing ?s' u i" if "(p(t := Some ?i)) u = Some i" for u i
    proof (cases "u = t")
      case True
      with that cur room show ?thesis by (simp add: writing_def opened_def)
    next
      case False
      with that have "p u = Some i" by simp
      with D(5) obtain b where "buffers s i = Some b" "LSendBufferChunk s u = Some (b_owner b)"
        "c_open (chunks s (b_owner b))" "b_offset b = c_usedSize (chunks s (b_owner b))"
        "b_writeSize b = 0" "unat (b_offset b) + unat (b_allocSize b) \<le> 6000"
        by (rule pend_invD)
      with fresh other[OF False] show ?thesis
        unfolding writing_def by (intro exI[of _ b]) (auto simp: opened_def)
    qed
    moreover have "\<not> c_open (chunks ?s' k)"
      if "LSendBufferChunk ?s' u = Some k" "(p(t := Some ?i)) u = None" for u k
      using that D(5) other[of u] by (auto simp: opened_def pend_inv_def split: if_splits)
    ultimately show ?thesis unfolding pend_inv_writing by blast
  qed
  ultimately show ?thesis by (rule send_invI)
qed

text \<open>A packet of at most 6000 bytes always gets its buffer: no crash and no null result.\<close>

lemma Manager_Open_ok:
  assumes "send_inv None (s, p)" "p t = None" "sz \<le> 6000"
  shows "\<exists>i s'. Manager_Open t sz s = Inr (Some i, s') \<and> send_inv None (s', p(t := Some i))
     \<and> buffers s i = None \<and> (\<forall>j. j \<noteq> i \<longrightarrow> buffer_bytes s' j = buffer_bytes s j)
     \<and> (\<exists>b. buffers s' i = Some b \<and> b_allocSize b = sz)"
proof -
  obtain c s1 where o: "Manager_Open t sz s = Chunk_Open c sz s1" "send_inv None (s1, p)"
    "ready t c sz s1" "buffers s1 = buffers s" "\<forall>i. buffer_bytes s1 i = buffer_bytes s i"
    using Manager_Open_ready[OF assms] by blast
  have "buffer_bytes (opened c sz s1) j = buffer_bytes s1 j" if "j \<noteq> next_buffer s1" for j
    using that by (auto simp: buffer_bytes_def opened_def split: option.splits)
  moreover have "buffers s1 (next_buffer s1) = None"
    using send_invD(3)[OF o(2)] ids_inv_buffer[of None s1 "next_buffer s1"]
    by (cases "buffers s1 (next_buffer s1)") auto
  moreover have "\<exists>b. buffers (opened c sz s1) (next_buffer s1) = Some b \<and> b_allocSize b = sz"
    by (simp add: opened_def)
  ultimately show ?thesis
    using o Chunk_Open_ready[OF o(3) assms(3)] opened_inv[OF o(2,3) assms(2)] by auto
qed

text \<open>A larger request crashes the server, whatever the state of the sender's chunk.\<close>

lemma Manager_Open_too_big:
  assumes "send_inv None (s, p)" "p t = None" "6000 < sz"
  shows "Manager_Open t sz s = Inl (Crash ''ASSERT_CRASH'')"
proof -
  have big: "Chunk_Open c sz s1 = Inl (Crash ''ASSERT_CRASH'')" for c s1
  proof -
    have "(sz \<le> 6000) = False" using assms(3) by simp
    then show ?thesis
      unfolding Chunk_Open_def SEND_BUFFER_CHUNK_SIZE_def ASSERT_CRASH_simps(4) by (simp only: if_False)
  qed
  have closed: "\<not> Chunk_IsOpen c s1"
    if "(case LSendBufferChunk s t of None \<Rightarrow> take_chunk t s | Some c \<Rightarrow> (c, s)) = (c, s1)" for c s1
    using that take_chunk_inv[OF assms(1,2), of c s1] assms(1,2)
    by (auto simp: Chunk_IsOpen_def send_inv_def pend_inv_def split: option.splits)
  show ?thesis
    unfolding Manager_Open_def Let_def using closed big by (simp split: prod.splits)
qed

section \<open>Writing, closing, dropping\<close>

lemma region_before:
  "region_inv s \<Longrightarrow> buffers s i = Some b \<Longrightarrow>
     unat (b_offset b) + unat (b_writeSize b) \<le> unat (c_usedSize (chunks s (b_owner b)))"
  by (simp add: region_inv_def)

lemma store_inv:
  assumes inv: "send_inv None (s, p)" and st: "SendBuffer_store i bs s = Inr s'"
  shows "send_inv None (s', p)"
proof -
  note D = send_invD[OF inv]
  obtain b where b: "buffers s i = Some b"
    and fit: "unat (b_offset b) + length bs \<le> length (c_buffer (chunks s (b_owner b)))"
    and s': "s' = upd_chunk (b_owner b)
       (\<lambda>k. k\<lparr>c_buffer := overwrite (c_buffer k) (unat (b_offset b)) bs\<rparr>) s"
    using st by (auto simp: SendBuffer_store_def split: option.splits if_splits)
  have same: "tls_set s' = tls_set s" "buf_set s' = buf_set s"
    by (rule buf_set_cong, simp add: s' upd_chunk_def)+
  have "refs_inv None s'" "pool_inv None s'" "ids_inv None s'"
    using D(1-3) unfolding refs_inv_def pool_inv_def ids_inv_def same by (simp_all add: s' upd_chunk_def)
  moreover have "region_inv s'"
    using D(4) fit by (intro region_inv_cong[OF D(4)]) (auto simp: s' upd_chunk_def region_inv_def)
  moreover have "pend_inv s' p"
    by (intro pend_inv_cong[OF D(5)]) (auto simp: s' upd_chunk_def)
  ultimately show ?thesis by (rule send_invI)
qed

text \<open>The bytes written through an open buffer lie behind every finished buffer of the chunk.\<close>

lemma store_bytes:
  assumes inv: "send_inv None (s, p)" and own: "p t = Some i" and st: "SendBuffer_store i bs s = Inr s'"
    and ne: "j \<noteq> i"
  shows "buffer_bytes s' j = buffer_bytes s j"
proof (cases "buffers s j")
  case None
  with st show ?thesis
    by (auto simp: SendBuffer_store_def buffer_bytes_def upd_chunk_def split: option.splits if_splits)
next
  case (Some d)
  note D = send_invD[OF inv]
  obtain b where b: "buffers s i = Some b" "b_offset b = c_usedSize (chunks s (b_owner b))"
    using D(5) own by (rule pend_invD)
  have s': "s' = upd_chunk (b_owner b)
       (\<lambda>k. k\<lparr>c_buffer := overwrite (c_buffer k) (unat (b_offset b)) bs\<rparr>) s"
    using st b by (auto simp: SendBuffer_store_def split: if_splits)
  have "unat (b_offset d) + unat (b_writeSize d) \<le> unat (b_offset b)" if "b_owner d = b_owner b"
    using region_before[OF D(4) Some] that b by simp
  moreover have "unat (b_offset b) \<le> length (c_buffer (chunks s (b_owner b)))"
    using D(4) b(2) by (simp add: region_inv_def)
  ultimately show ?thesis
    using Some by (simp add: buffer_bytes_def s' upd_chunk_def slice_overwrite_before)
qed

definition closed_state :: "nat \<Rightarrow> send_buffer \<Rightarrow> u32 \<Rightarrow> send_state \<Rightarrow> send_state" where
  "closed_state i b n s = s\<lparr>buffers := (buffers s)(i := Some (b\<lparr>b_writeSize := n\<rparr>)),
     chunks := (chunks s)(b_owner b := (chunks s (b_owner b))\<lparr>c_open := False,
        c_usedSize := c_usedSize (chunks s (b_owner b)) + n\<rparr>)\<rparr>"

lemma SendBuffer_Close_eq:
  assumes "buffers s i = Some b" "c_open (chunks s (b_owner b))" "n \<le> b_allocSize b"
  shows "SendBuffer_Close i n s = Inr (closed_state i b n s)"
  using assms
  by (simp add: SendBuffer_Close_def Chunk_Close_def Chunk_IsOpen_def closed_state_def upd_chunk_def)

lemma SendBuffer_Close_Inr:
  assumes "SendBuffer_Close i n s = Inr s'"
  obtains b where "buffers s i = Some b" "c_open (chunks s (b_owner b))" "n \<le> b_allocSize b"
    "s' = closed_state i b n s"
  using assms
  by (auto simp: SendBuffer_Close_def Chunk_Close_def Chunk_IsOpen_def closed_state_def upd_chunk_def
      split: option.splits if_splits)

lemma close_inv:
  assumes inv: "send_inv None (s, p)" and own: "p t = Some i" and cl: "SendBuffer_Close i n s = Inr s'"
  shows "send_inv None (s', p(t := None))"
proof -
  note D = send_invD[OF inv]
  obtain b where b: "buffers s i = Some b" "LSendBufferChunk s t = Some (b_owner b)"
    "b_offset b = c_usedSize (chunks s (b_owner b))" "b_writeSize b = 0"
    "unat (b_offset b) + unat (b_allocSize b) \<le> 6000"
    using D(5) own by (rule pend_invD)
  have n: "n \<le> b_allocSize b" and s': "s' = closed_state i b n s"
    using cl b(1) by (auto elim!: SendBuffer_Close_Inr)
  let ?c = "b_owner b"
  have end_: "unat (c_usedSize (chunks s ?c) + n) = unat (c_usedSize (chunks s ?c)) + unat n"
    "unat (c_usedSize (chunks s ?c)) + unat n \<le> 6000"
  proof -
    show le: "unat (c_usedSize (chunks s ?c)) + unat n \<le> 6000"
      using n b(3,5) by (simp add: word_le_nat_alt)
    then show "unat (c_usedSize (chunks s ?c) + n) = unat (c_usedSize (chunks s ?c)) + unat n"
      by (subst unat_add_lem[symmetric]) simp
  qed
  have tls: "tls_set s' = tls_set s"
    by (rule buf_set_cong) (simp add: s' closed_state_def)
  have bufs: "buf_set s' = buf_set s"
    using b(1) by (auto simp: s' closed_state_def buf_set_def fun_eq_iff)
  have "refs_inv None s'" "pool_inv None s'"
    using D(1,2) unfolding refs_inv_def pool_inv_def tls bufs by (simp_all add: s' closed_state_def)
  moreover have "ids_inv None s'"
    using D(3) b(1) unfolding ids_inv_def by (auto simp: s' closed_state_def)
  moreover have "region_inv s'"
  proof -
    have before: "unat (b_offset d) + unat (b_writeSize d) \<le> unat (b_offset b)"
      if "buffers s j = Some d" "b_owner d = ?c" for j d
      using region_before[OF D(4) that(1)] that(2) b(3) by simp
    have len: "\<forall>c. length (c_buffer (chunks s' c)) = 6000 \<and> unat (c_usedSize (chunks s' c)) \<le> 6000"
      using D(4) end_ by (simp add: region_inv_def s' closed_state_def)
    have inside: "unat (b_offset d) + unat (b_writeSize d) \<le> unat (c_usedSize (chunks s' (b_owner d)))"
      if "buffers s' j = Some d" for j d
    proof (cases "j = i")
      case True
      with that have "d = b\<lparr>b_writeSize := n\<rparr>" by (simp add: s' closed_state_def)
      then show ?thesis using end_ b(3) by (simp add: s' closed_state_def)
    next
      case False
      with that have "buffers s j = Some d" by (simp add: s' closed_state_def)
      from region_before[OF D(4) this] end_ show ?thesis by (auto simp: s' closed_state_def)
    qed
    have disj: "unat (b_offset d) + unat (b_writeSize d) \<le> unat (b_offset e) \<or>
        unat (b_offset e) + unat (b_writeSize e) \<le> unat (b_offset d)"
      if d: "buffers s' j = Some d" and e: "buffers s' k = Some e" and "j \<noteq> k" "b_owner d = b_owner e"
      for j k d e
    proof (cases "j = i \<or> k = i")
      case True
      with d e that(3,4) before show ?thesis
        by (auto simp: s' closed_state_def split: if_splits)
    next
      case False
      with d e that(3,4) D(4) show ?thesis
        by (simp add: s' closed_state_def region_inv_def)
    qed
    show ?thesis
      unfolding region_inv_def using len inside disj by blast
  qed
  moreover have "pend_inv s' (p(t := None))"
  proof -
    have other: "LSendBufferChunk s u \<noteq> Some ?c" if "u \<noteq> t" for u
      using D(3) b(2) that by (auto simp: ids_inv_def)
    have "u = t" if "p u = Some i" for u
      using D(5) that
    proof (rule pend_invD)
      fix d assume "buffers s i = Some d" "LSendBufferChunk s u = Some (b_owner d)"
      with b(1) other show "u = t" by auto
    qed
    then have mine: "u = t" if "p u = Some i" for u
      using that by blast
    have "writing s' u j" if "(p(t := None)) u = Some j" for u j
    proof -
      from that have u: "u \<noteq> t" "p u = Some j" by (auto split: if_splits)
      with mine have "j \<noteq> i" by auto
      obtain d where "buffers s j = Some d" "LSendBufferChunk s u = Some (b_owner d)"
        "c_open (chunks s (b_owner d))" "b_offset d = c_usedSize (chunks s (b_owner d))"
        "b_writeSize d = 0" "unat (b_offset d) + unat (b_allocSize d) \<le> 6000"
        using D(5) u(2) by (rule pend_invD)
      with \<open>j \<noteq> i\<close> other[OF u(1)] show ?thesis
        unfolding writing_def by (intro exI[of _ d]) (auto simp: s' closed_state_def)
    qed
    moreover have "\<not> c_open (chunks s' k)"
      if "LSendBufferChunk s' u = Some k" "(p(t := None)) u = None" for u k
      using that D(5) b(2) by (auto simp: s' closed_state_def pend_inv_def split: if_splits)
    ultimately show ?thesis unfolding pend_inv_writing by blast
  qed
  ultimately show ?thesis by (rule send_invI)
qed

lemma close_bytes:
  assumes "send_inv None (s, p)" "SendBuffer_Close i n s = Inr s'" "j \<noteq> i"
  shows "buffer_bytes s' j = buffer_bytes s j"
  using assms(2,3)
  by (auto elim!: SendBuffer_Close_Inr simp: buffer_bytes_def closed_state_def split: option.splits)

lemma destroy_inv:
  assumes inv: "send_inv None (s, p)" and free: "\<forall>t. p t \<noteq> Some i"
    and ds: "SendBuffer_destroy i s = Inr s'"
  shows "send_inv None (s', p)"
proof -
  note D = send_invD[OF inv]
  obtain b where b: "buffers s i = Some b"
    and s': "s' = release_chunk (b_owner b) (s\<lparr>buffers := (buffers s)(i := None)\<rparr>)"
    using ds by (auto simp: SendBuffer_destroy_def split: option.splits)
  let ?c = "b_owner b" and ?s1 = "s\<lparr>buffers := (buffers s)(i := None)\<rparr>"
  have tls: "tls_set ?s1 = tls_set s"
    by (rule buf_set_cong) simp
  have bufs: "buf_set ?s1 k = buf_set s k - {i}" for k
    by (auto simp: buf_set_def)
  have mem: "i \<in> buf_set s k \<longleftrightarrow> k = ?c" for k
    using b by (auto simp: buf_set_def)
  have "refs_inv (Some ?c) ?s1"
    unfolding refs_inv_def
  proof
    fix k
    have old: "finite (tls_set s k)" "finite (buf_set s k)"
      "chunk_refs s k = card (tls_set s k) + card (buf_set s k)
        + (if k \<in> set (m_sendBufferChunks s) then 1 else 0)"
      using D(1) by (auto simp: refs_inv_def)
    have "card (buf_set s k) = card (buf_set ?s1 k) + (if k = ?c then 1 else 0)"
    proof (cases "k = ?c")
      case True
      then have "card (buf_set s k) = Suc (card (buf_set s k - {i}))"
        using card.remove[OF old(2)] mem by blast
      with True show ?thesis unfolding bufs by simp
    next
      case False
      then show ?thesis using mem[of k] by (simp add: bufs)
    qed
    with old show "finite (tls_set ?s1 k) \<and> finite (buf_set ?s1 k) \<and>
        chunk_refs ?s1 k = card (tls_set ?s1 k) + card (buf_set ?s1 k)
          + (if k \<in> set (m_sendBufferChunks ?s1) then 1 else 0) + (if Some ?c = Some k then 1 else 0)"
      by (auto simp: tls bufs)
  qed
  moreover have "pool_inv (Some ?c) ?s1"
    using D(2) mem unfolding pool_inv_def tls bufs by auto
  moreover have "ids_inv (Some ?c) ?s1"
    using D(3) ids_inv_owner[OF D(3) b] unfolding ids_inv_def by simp
  moreover have "region_inv ?s1"
    using D(4) unfolding region_inv_def by simp
  moreover have "pend_inv ?s1 p"
  proof -
    have "writing ?s1 u j" if "p u = Some j" for u j
      using D(5) that free unfolding pend_inv_writing by (auto simp: writing_def)
    then show ?thesis
      using D(5) unfolding pend_inv_writing by simp
  qed
  ultimately have "send_inv (Some ?c) (?s1, p)"
    by (rule send_invI)
  then show ?thesis unfolding s' by (rule release_chunk_inv)
qed

lemma destroy_bytes:
  "SendBuffer_destroy i s = Inr s' \<Longrightarrow> j \<noteq> i \<Longrightarrow> buffer_bytes s' j = buffer_bytes s j"
  by (auto simp: SendBuffer_destroy_def buffer_bytes_def split: option.splits)

section \<open>Every step, every reachable state\<close>

lemma Manager_Open_small:
  "send_inv None (s, p) \<Longrightarrow> p t = None \<Longrightarrow> Manager_Open t sz s = Inr r \<Longrightarrow> sz \<le> 6000"
  using Manager_Open_too_big[of s p t sz] by (cases "sz \<le> 6000") (auto simp: not_le)

lemma send_step_inv:
  assumes "send_inv None x" and "send_step x y"
  shows "send_inv None y"
  using assms(2,1)
proof (cases rule: send_step.cases)
  case (s_open p t sz s i s')
  then have "sz \<le> 6000" using assms(1) by (auto intro: Manager_Open_small)
  with s_open assms(1) show ?thesis using Manager_Open_ok[of s p t sz] by auto
qed (auto intro: store_inv close_inv destroy_inv)

interpretation send_machine: invariant_system sys_init send_step "send_inv None"
  by unfold_locales (rule send_inv_init send_step_inv; assumption)+

section \<open>Properties\<close>

lemmas send_eval = Manager_Open_def take_chunk_def Manager_Pop_def set_current_def release_chunk_def
  PushGlobal_def Manager_Push_def Chunk_Reset_def Chunk_Open_def Chunk_IsOpen_def Chunk_FreeSize_def
  upd_chunk_def SendBuffer_Close_def Chunk_Close_def SendBuffer_store_def SendBuffer_destroy_def
  SEND_BUFFER_CHUNK_SIZE_def send_init_def new_chunk_def Let_def

text \<open>A run that serves as example: thread 0 makes two packets of 10 and 20 bytes.\<close>

definition demo_open1 :: send_state where
  "demo_open1 = snd (projr (Manager_Open 0 16 send_init))"

definition demo_close1 :: send_state where
  "demo_close1 = projr (SendBuffer_Close 0 10 demo_open1)"

definition demo_open2 :: send_state where
  "demo_open2 = snd (projr (Manager_Open 0 20 demo_close1))"

definition demo_close2 :: send_state where
  "demo_close2 = projr (SendBuffer_Close 1 20 demo_open2)"

lemmas demo_eval = demo_close2_def demo_open2_def demo_close1_def demo_open1_def

lemma demo_reach1: "reach sys_init send_step (demo_open1, (\<lambda>_. None)(0 := Some 0))"
proof (rule reach_step[OF reach_init])
  show "sys_init (send_init, \<lambda>_. None)" by (simp add: sys_init_def)
  show "send_step (send_init, \<lambda>_. None) (demo_open1, (\<lambda>_. None)(0 := Some 0))"
    by (rule s_open[where sz = 16]) (simp_all add: demo_eval send_eval)
qed

lemma demo_reach2: "reach sys_init send_step (demo_close1, \<lambda>_. None)"
proof (rule reach_step[OF demo_reach1])
  have "send_step (demo_open1, (\<lambda>_. None)(0 := Some 0)) (demo_close1, ((\<lambda>_. None)(0 := Some 0))(0 := None))"
    by (rule s_close[where i = 0 and n = 10]) (simp_all add: demo_eval send_eval)
  then show "send_step (demo_open1, (\<lambda>_. None)(0 := Some 0)) (demo_close1, \<lambda>_. None)"
    by (simp add: fun_upd_idem)
qed

lemma demo_reach3: "reach sys_init send_step (demo_open2, (\<lambda>_. None)(0 := Some 1))"
proof (rule reach_step[OF demo_reach2])
  show "send_step (demo_close1, \<lambda>_. None) (demo_open2, (\<lambda>_. None)(0 := Some 1))"
    by (rule s_open[where sz = 20]) (simp_all add: demo_eval send_eval)
qed

lemma demo_step4: "send_step (demo_open2, (\<lambda>_. None)(0 := Some 1)) (demo_close2, \<lambda>_. None)"
proof -
  have "send_step (demo_open2, (\<lambda>_. None)(0 := Some 1)) (demo_close2, ((\<lambda>_. None)(0 := Some 1))(0 := None))"
    by (rule s_close[where i = 1 and n = 20]) (simp_all add: demo_eval send_eval)
  then show ?thesis by (simp add: fun_upd_idem)
qed

lemma demo_buffers:
  "buffers demo_close2 0 = Some \<lparr>b_offset = 0, b_allocSize = 16, b_writeSize = 10, b_owner = 0\<rparr>"
  "buffers demo_close2 1 = Some \<lparr>b_offset = 10, b_allocSize = 20, b_writeSize = 20, b_owner = 0\<rparr>"
  by (simp_all add: demo_eval send_eval)

lemma demo_bytes:
  "buffer_bytes demo_open2 0 = Some (replicate 10 0)"
  "buffer_bytes demo_close2 0 = Some (replicate 10 0)"
  by (simp_all add: buffer_bytes_def slice_def demo_eval send_eval)

text \<open>C13: in every reachable state of the threads that make packets, two live send buffers of one
  chunk occupy disjoint bytes of it, inside its 6000 bytes, and no live send buffer belongs to a
  chunk that waits in the manager's pool for reuse.\<close>

theorem send_buffers_disjoint:
  assumes "reach sys_init send_step (s, p)"
    and "buffers s i = Some b" and "buffers s j = Some d" and "i \<noteq> j" and "b_owner b = b_owner d"
  shows "{unat (b_offset b) ..< unat (b_offset b) + unat (b_writeSize b)}
           \<inter> {unat (b_offset d) ..< unat (b_offset d) + unat (b_writeSize d)} = {}
    \<and> unat (b_offset b) + unat (b_writeSize b) \<le> 6000
    \<and> b_owner b \<notin> set (m_sendBufferChunks s)"
proof -
  have inv: "send_inv None (s, p)"
    using assms(1) by (rule send_machine.reach_inv)
  note D = send_invD[OF inv]
  have "unat (b_offset b) + unat (b_writeSize b) \<le> unat (b_offset d) \<or>
      unat (b_offset d) + unat (b_writeSize d) \<le> unat (b_offset b)"
    using D(4) assms(2-5) unfolding region_inv_def by blast
  moreover have "i \<in> buf_set s (b_owner b)"
    using assms(2) by (simp add: buf_set_def)
  ultimately show ?thesis
    using D(2) region_before[OF D(4) assms(2)] used_le[OF D(4), of "b_owner b"]
    by (auto simp: pool_inv_def)
qed

theorem send_buffers_disjoint_witness:
  "{0::nat ..< 10} \<inter> {10 ..< 30} = {} \<and> (0::nat) + 10 \<le> 6000 \<and> 0 \<notin> set (m_sendBufferChunks demo_close2)"
  using send_buffers_disjoint[OF reach_step[OF demo_reach3 demo_step4] demo_buffers] by simp

text \<open>C14: the bytes of a finished send buffer never change while it lives: any step of any thread,
  the opening, filling, closing or dropping of other buffers included, leaves them as they are.\<close>

theorem finished_bytes_stable:
  assumes "reach sys_init send_step (s, p)" and "send_step (s, p) (s', p')"
    and "\<forall>t. p t \<noteq> Some i" and "buffer_bytes s i = Some bs" and "buffers s' i \<noteq> None"
  shows "buffer_bytes s' i = Some bs"
proof -
  have inv: "send_inv None (s, p)"
    using assms(1) by (rule send_machine.reach_inv)
  have live: "buffers s i \<noteq> None"
    using assms(4) by (auto simp: buffer_bytes_def split: option.splits)
  from assms(2) show ?thesis
  proof (cases rule: send_step.cases)
    case (s_open t sz j)
    then have "sz \<le> 6000" using inv by (auto intro: Manager_Open_small)
    from Manager_Open_ok[OF inv s_open(2) this] s_open(3) live have "buffer_bytes s' i = buffer_bytes s i"
      by (cases "i = j") auto
    with assms(4) show ?thesis by simp
  next
    case (s_store t j b cs)
    have "buffer_bytes s' i = buffer_bytes s i"
      by (rule store_bytes[OF inv s_store(2,5)]) (use assms(3) s_store(2) in auto)
    with assms(4) show ?thesis by simp
  next
    case (s_close t j n)
    have "buffer_bytes s' i = buffer_bytes s i"
      by (rule close_bytes[OF inv s_close(3)]) (use assms(3) s_close(2) in auto)
    with assms(4) show ?thesis by simp
  next
    case (s_drop j)
    have "buffers s' j = None"
      using s_drop(3) by (auto simp: SendBuffer_destroy_def split: option.splits)
    with assms(5) have "i \<noteq> j" by auto
    with assms(4) show ?thesis using destroy_bytes[OF s_drop(3)] by simp
  qed
qed

theorem finished_bytes_stable_witness: "buffer_bytes demo_close2 0 = Some (replicate 10 0)"
  by (rule finished_bytes_stable[OF demo_reach3 demo_step4])
    (simp_all add: demo_bytes demo_buffers)

text \<open>a thread that is not in the middle of a packet and asks for at most 6000 bytes gets a send
  buffer of exactly that allocation; a request above 6000 bytes crashes the server on an
  assertion, in every reachable state.\<close>

theorem open_by_size:
  assumes "reach sys_init send_step (s, p)" and "p t = None"
  shows "if sz \<le> 6000
    then \<exists>i s' b. Manager_Open t sz s = Inr (Some i, s') \<and> buffers s i = None
           \<and> buffers s' i = Some b \<and> b_allocSize b = sz
    else Manager_Open t sz s = Inl (Crash ''ASSERT_CRASH'')"
proof -
  have inv: "send_inv None (s, p)"
    using assms(1) by (rule send_machine.reach_inv)
  show ?thesis
    using Manager_Open_ok[OF inv assms(2), of sz] Manager_Open_too_big[OF inv assms(2), of sz]
    by (auto simp: not_le)
qed

theorem open_by_size_witness:
  "Manager_Open 0 6001 demo_close1 = Inl (Crash ''ASSERT_CRASH'')"
  using open_by_size[OF demo_reach2, where t = 0 and sz = 6001] by simp

end
