(* ===== verification/RW_Lock.thy ===== *)
theory RW_Lock
  imports Server_Base
begin

text \<open>
  The reader/writer spin lock (ServerCore/Lock.h, Lock.cpp) with any number of threads. The
  upper half of the flag is the id of the writing thread, the lower half the number of shared
  holds. Every atomic access of the flag is a step of its own, so the threads interleave between
  them; each operation is a function from the program counter of a thread and the lock to the
  next ones, and a step relation lets any thread move.
\<close>

section \<open>State\<close>

definition ACQUIRE_TIMEOUT_TICK :: u64 where "ACQUIRE_TIMEOUT_TICK = 10000"
definition MAX_SPIN_COUNT :: nat where "MAX_SPIN_COUNT = 5000"
definition WRITE_THREAD_MASK :: u32 where "WRITE_THREAD_MASK = 0xFFFF0000"
definition READ_COUNT_MASK :: u32 where "READ_COUNT_MASK = 0x0000FFFF"
definition EMPTY_FLAG :: u32 where "EMPTY_FLAG = 0"

record rw_lock =
  m_lockFlag :: u32
  m_writeCount :: u16

definition new_lock :: rw_lock where
  "new_lock = \<lparr>m_lockFlag = EMPTY_FLAG, m_writeCount = 0\<rparr>"

text \<open>
  Where a thread is: outside the lock's code, at the first load of WriteLock or ReadLock, in the
  spin loop (with its counter, and for a reader the value it loaded), at the count of a writer,
  in WriteUnlock or ReadUnlock, or crashed with its cause.
\<close>

datatype lock_pc =
    Idle
  | W_Load | W_Spin nat | W_Count
  | R_Load | R_Add | R_Spin nat | R_Cas nat u32
  | WU_Check | WU_Dec | WU_Store
  | RU_Sub
  | Crashed string

definition lock_thread_id :: "u32 \<Rightarrow> u32" where
  "lock_thread_id flag = drop_bit 16 (flag AND WRITE_THREAD_MASK)"

section \<open>The four operations\<close>

text \<open>
  One step of each operation for a thread with id LThreadId. The flag "late" is the outcome of
  the comparison of GetTickCount64 with the time the spin began.
\<close>

fun WriteLock :: "u32 \<Rightarrow> bool \<Rightarrow> lock_pc \<Rightarrow> rw_lock \<Rightarrow> lock_pc \<times> rw_lock" where
  "WriteLock tid late W_Load l =
     (if tid = lock_thread_id (m_lockFlag l) then (W_Count, l) else (W_Spin 0, l))"
| "WriteLock tid late (W_Spin n) l =
     (if n < MAX_SPIN_COUNT then
        (let desired = push_bit 16 tid AND WRITE_THREAD_MASK in
         if m_lockFlag l = EMPTY_FLAG then (W_Count, l\<lparr>m_lockFlag := desired\<rparr>)
         else (W_Spin (Suc n), l))
      else if late then (Crashed ''LOCK_TIMEOUT'', l)
      else (W_Spin 0, l))"
| "WriteLock tid late W_Count l = (Idle, l\<lparr>m_writeCount := m_writeCount l + 1\<rparr>)"
| "WriteLock tid late pc l = (pc, l)"

fun WriteUnlock :: "lock_pc \<Rightarrow> rw_lock \<Rightarrow> lock_pc \<times> rw_lock" where
  "WriteUnlock WU_Check l =
     (if m_lockFlag l AND READ_COUNT_MASK \<noteq> 0 then (Crashed ''INVALID_UNLOCK_ORDER'', l)
      else (WU_Dec, l))"
| "WriteUnlock WU_Dec l =
     (let l' = l\<lparr>m_writeCount := m_writeCount l - 1\<rparr>
      in if m_writeCount l' = 0 then (WU_Store, l') else (Idle, l'))"
| "WriteUnlock WU_Store l = (Idle, l\<lparr>m_lockFlag := EMPTY_FLAG\<rparr>)"
| "WriteUnlock pc l = (pc, l)"

fun ReadLock :: "u32 \<Rightarrow> bool \<Rightarrow> lock_pc \<Rightarrow> rw_lock \<Rightarrow> lock_pc \<times> rw_lock" where
  "ReadLock tid late R_Load l =
     (if tid = lock_thread_id (m_lockFlag l) then (R_Add, l) else (R_Spin 0, l))"
| "ReadLock tid late R_Add l = (Idle, l\<lparr>m_lockFlag := m_lockFlag l + 1\<rparr>)"
| "ReadLock tid late (R_Spin n) l =
     (if n < MAX_SPIN_COUNT then (R_Cas n (m_lockFlag l AND READ_COUNT_MASK), l)
      else if late then (Crashed ''LOCK_TIMEOUT'', l)
      else (R_Spin 0, l))"
| "ReadLock tid late (R_Cas n expected) l =
     (if m_lockFlag l = expected then (Idle, l\<lparr>m_lockFlag := expected + 1\<rparr>)
      else (R_Spin (Suc n), l))"
| "ReadLock tid late pc l = (pc, l)"

fun ReadUnlock :: "lock_pc \<Rightarrow> rw_lock \<Rightarrow> lock_pc \<times> rw_lock" where
  "ReadUnlock RU_Sub l =
     (let l' = l\<lparr>m_lockFlag := m_lockFlag l - 1\<rparr>
      in if m_lockFlag l AND READ_COUNT_MASK = 0 then (Crashed ''MULTIPLE_UNLOCK'', l')
         else (Idle, l'))"
| "ReadUnlock pc l = (pc, l)"

section \<open>Guards and the step relation\<close>

text \<open>
  ReadLockGuard and WriteLockGuard are scoped, so a thread releases its guards in the reverse
  order of their construction: it has a stack of them. A constructor runs the lock operation and
  pushes the guard when that returns; a destructor runs the unlock operation for the top.
\<close>

datatype guard = ReadLockGuard | WriteLockGuard

record lock_sys =
  lk :: rw_lock
  pcs :: "u32 \<Rightarrow> lock_pc"
  guards :: "u32 \<Rightarrow> guard list"

text \<open>Threads get their ids from a counter that starts at 1 (ThreadManager::InitTLS).\<close>

definition thread_ids :: "u32 set" where
  "thread_ids = {t. 0 < t \<and> t < 65536}"

definition set_pc :: "u32 \<Rightarrow> lock_pc \<times> rw_lock \<Rightarrow> lock_sys \<Rightarrow> lock_sys" where
  "set_pc t x s = s\<lparr>lk := snd x, pcs := (pcs s)(t := fst x)\<rparr>"

definition push_guard :: "u32 \<Rightarrow> guard \<Rightarrow> lock_sys \<Rightarrow> lock_sys" where
  "push_guard t g s = s\<lparr>guards := (guards s)(t := g # guards s t)\<rparr>"

definition pop_guard :: "u32 \<Rightarrow> lock_sys \<Rightarrow> lock_sys" where
  "pop_guard t s = s\<lparr>guards := (guards s)(t := tl (guards s t))\<rparr>"

definition in_WriteLock :: "lock_pc \<Rightarrow> bool" where
  "in_WriteLock pc \<longleftrightarrow> pc = W_Load \<or> (\<exists>n. pc = W_Spin n) \<or> pc = W_Count"

definition in_ReadLock :: "lock_pc \<Rightarrow> bool" where
  "in_ReadLock pc \<longleftrightarrow> pc = R_Load \<or> pc = R_Add \<or> (\<exists>n. pc = R_Spin n) \<or> (\<exists>n e. pc = R_Cas n e)"

definition in_WriteUnlock :: "lock_pc \<Rightarrow> bool" where
  "in_WriteUnlock pc \<longleftrightarrow> pc = WU_Check \<or> pc = WU_Dec \<or> pc = WU_Store"

text \<open>
  The shared count and the recursion count of a writer have 16 bits. A step that adds a shared
  hold has the guard that fewer than 65535 of them exist, a step that counts a writer the guard
  that its recursion is below 65535; what the shared count does beyond is a lemma of its own.
\<close>

definition write_room :: "rw_lock \<Rightarrow> bool" where
  "write_room l \<longleftrightarrow> m_writeCount l \<noteq> 0xFFFF"

definition read_room :: "rw_lock \<Rightarrow> bool" where
  "read_room l \<longleftrightarrow> m_lockFlag l AND READ_COUNT_MASK \<noteq> READ_COUNT_MASK"

inductive lock_step :: "lock_sys \<Rightarrow> lock_sys \<Rightarrow> bool" where
  begin_write: "t \<in> thread_ids \<Longrightarrow> pcs s t = Idle \<Longrightarrow> lock_step s (s\<lparr>pcs := (pcs s)(t := W_Load)\<rparr>)"
| begin_read: "t \<in> thread_ids \<Longrightarrow> pcs s t = Idle \<Longrightarrow> lock_step s (s\<lparr>pcs := (pcs s)(t := R_Load)\<rparr>)"
| end_write: "t \<in> thread_ids \<Longrightarrow> pcs s t = Idle \<Longrightarrow> guards s t = WriteLockGuard # gs \<Longrightarrow>
     lock_step s (s\<lparr>pcs := (pcs s)(t := WU_Check)\<rparr>)"
| end_read: "t \<in> thread_ids \<Longrightarrow> pcs s t = Idle \<Longrightarrow> guards s t = ReadLockGuard # gs \<Longrightarrow>
     lock_step s (s\<lparr>pcs := (pcs s)(t := RU_Sub)\<rparr>)"
| write_lock: "in_WriteLock (pcs s t) \<Longrightarrow> WriteLock t late (pcs s t) (lk s) = (pc, l) \<Longrightarrow> pc \<noteq> Idle \<Longrightarrow>
     lock_step s (set_pc t (pc, l) s)"
| write_locked: "in_WriteLock (pcs s t) \<Longrightarrow> WriteLock t late (pcs s t) (lk s) = (Idle, l) \<Longrightarrow>
     write_room (lk s) \<Longrightarrow> lock_step s (push_guard t WriteLockGuard (set_pc t (Idle, l) s))"
| read_lock: "in_ReadLock (pcs s t) \<Longrightarrow> ReadLock t late (pcs s t) (lk s) = (pc, l) \<Longrightarrow> pc \<noteq> Idle \<Longrightarrow>
     lock_step s (set_pc t (pc, l) s)"
| read_locked: "in_ReadLock (pcs s t) \<Longrightarrow> ReadLock t late (pcs s t) (lk s) = (Idle, l) \<Longrightarrow>
     read_room (lk s) \<Longrightarrow> lock_step s (push_guard t ReadLockGuard (set_pc t (Idle, l) s))"
| write_unlock: "in_WriteUnlock (pcs s t) \<Longrightarrow> WriteUnlock (pcs s t) (lk s) = (pc, l) \<Longrightarrow> pc \<noteq> Idle \<Longrightarrow>
     lock_step s (set_pc t (pc, l) s)"
| write_unlocked: "in_WriteUnlock (pcs s t) \<Longrightarrow> WriteUnlock (pcs s t) (lk s) = (Idle, l) \<Longrightarrow>
     lock_step s (pop_guard t (set_pc t (Idle, l) s))"
| read_unlock: "pcs s t = RU_Sub \<Longrightarrow> ReadUnlock RU_Sub (lk s) = (pc, l) \<Longrightarrow> pc \<noteq> Idle \<Longrightarrow>
     lock_step s (set_pc t (pc, l) s)"
| read_unlocked: "pcs s t = RU_Sub \<Longrightarrow> ReadUnlock RU_Sub (lk s) = (Idle, l) \<Longrightarrow>
     lock_step s (pop_guard t (set_pc t (Idle, l) s))"

definition lock_init :: "lock_sys \<Rightarrow> bool" where
  "lock_init s \<longleftrightarrow> s = \<lparr>lk = new_lock, pcs = (\<lambda>_. Idle), guards = (\<lambda>_. [])\<rparr>"

section \<open>The flag as two numbers\<close>

definition owner_of :: "rw_lock \<Rightarrow> nat" where
  "owner_of l = unat (m_lockFlag l) div 65536"

definition readers_of :: "rw_lock \<Rightarrow> nat" where
  "readers_of l = unat (m_lockFlag l) mod 65536"

lemma masks:
  "WRITE_THREAD_MASK = NOT (mask 16)" "READ_COUNT_MASK = mask 16"
  by (simp_all add: WRITE_THREAD_MASK_def READ_COUNT_MASK_def mask_eq_exp_minus_1)

lemma unat_and_read: "unat (w AND READ_COUNT_MASK) = unat (w :: u32) mod 65536"
proof -
  have "w AND READ_COUNT_MASK = take_bit 16 w" by (simp only: masks take_bit_eq_mask)
  then have "unat (w AND READ_COUNT_MASK) = take_bit 16 (unat w)" by (simp only: unsigned_take_bit_eq)
  then show ?thesis by (simp only: take_bit_eq_mod) simp
qed

lemma drop_write: "drop_bit 16 (w AND WRITE_THREAD_MASK) = drop_bit 16 (w :: u32)"
  unfolding masks by (rule bit_word_eqI) (auto simp: bit_simps dest: bit_imp_le_length)

lemma unat_thread_id: "unat (lock_thread_id w) = unat w div 65536"
proof -
  have "unat (lock_thread_id w) = drop_bit 16 (unat w)"
    by (simp only: lock_thread_id_def drop_write unat_drop_bit_eq)
  then show ?thesis by (simp only: drop_bit_eq_div) simp
qed

lemma push_write:
  assumes "t < 65536"
  shows "unat (push_bit 16 t AND WRITE_THREAD_MASK :: u32) = unat t * 65536"
proof -
  have "push_bit 16 t AND WRITE_THREAD_MASK = push_bit 16 t"
    unfolding masks by (rule bit_word_eqI) (auto simp: bit_simps)
  moreover have "unat t < 65536"
    using assms by (simp add: word_less_nat_alt)
  ultimately show ?thesis
    by (simp add: push_bit_eq_mult unat_word_ariths)
qed

end
