(* ===== verification/RW_Lock_Safety.thy ===== *)
theory RW_Lock_Safety
  imports RW_Lock
begin

text \<open>
  Mutual exclusion of the reader/writer lock: the invariant that ties the flag to the guards the
  threads hold, its preservation by every atomic step, and the properties that follow.
\<close>

section \<open>The invariant\<close>

definition wcount :: "guard list \<Rightarrow> nat" where
  "wcount gs = count_list gs WriteLockGuard"

definition rcount :: "guard list \<Rightarrow> nat" where
  "rcount gs = count_list gs ReadLockGuard"

lemma counts [simp]:
  "wcount [] = 0" "rcount [] = 0"
  "wcount (g # gs) = (if g = WriteLockGuard then Suc (wcount gs) else wcount gs)"
  "rcount (g # gs) = (if g = ReadLockGuard then Suc (rcount gs) else rcount gs)"
  by (simp_all add: wcount_def rcount_def)

definition total_reads :: "lock_sys \<Rightarrow> nat" where
  "total_reads s = (\<Sum>t\<in>thread_ids. rcount (guards s t))"

text \<open>A thread has the write lock when it holds a write guard or has just won the exchange.\<close>

definition has_write :: "lock_sys \<Rightarrow> u32 \<Rightarrow> bool" where
  "has_write s t \<longleftrightarrow> 0 < wcount (guards s t) \<or> pcs s t = W_Count"

definition count_now :: "lock_sys \<Rightarrow> u32 \<Rightarrow> nat" where
  "count_now s t = wcount (guards s t) - (if pcs s t = WU_Store then 1 else 0)"

text \<open>
  What the program counter of a thread implies about its guards and the lock. The bottom guard
  of a thread that has the write lock is a write guard: a thread that holds only read guards
  never wins the exchange.
\<close>

definition pc_ok :: "lock_sys \<Rightarrow> u32 \<Rightarrow> bool" where
  "pc_ok s t \<longleftrightarrow> (case pcs s t of
      WU_Check \<Rightarrow> (\<exists>gs. guards s t = WriteLockGuard # gs)
    | WU_Dec \<Rightarrow> (\<exists>gs. guards s t = WriteLockGuard # gs)
    | WU_Store \<Rightarrow> guards s t = [WriteLockGuard]
    | RU_Sub \<Rightarrow> (\<exists>gs. guards s t = ReadLockGuard # gs)
    | R_Add \<Rightarrow> 0 < wcount (guards s t)
    | R_Cas n e \<Rightarrow> unat e < 65536
    | _ \<Rightarrow> True)"

definition lock_inv :: "lock_sys \<Rightarrow> bool" where
  "lock_inv s \<longleftrightarrow>
     (\<forall>t. t \<notin> thread_ids \<longrightarrow> pcs s t = Idle \<and> guards s t = [])
     \<and> (\<forall>t\<in>thread_ids. has_write s t \<longleftrightarrow> owner_of (lk s) = unat t)
     \<and> readers_of (lk s) = total_reads s
     \<and> (\<forall>t\<in>thread_ids. has_write s t \<longrightarrow> (\<forall>u. u \<noteq> t \<longrightarrow> rcount (guards s u) = 0)
          \<and> unat (m_writeCount (lk s)) = count_now s t
          \<and> (guards s t \<noteq> [] \<longrightarrow> last (guards s t) = WriteLockGuard))
     \<and> (owner_of (lk s) = 0 \<longrightarrow> m_writeCount (lk s) = 0)
     \<and> (\<forall>t. pc_ok s t)"

lemma lock_invD:
  assumes "lock_inv s"
  shows "t \<notin> thread_ids \<Longrightarrow> pcs s t = Idle" "t \<notin> thread_ids \<Longrightarrow> guards s t = []"
    and "t \<in> thread_ids \<Longrightarrow> has_write s t \<longleftrightarrow> owner_of (lk s) = unat t"
    and "readers_of (lk s) = total_reads s"
    and "t \<in> thread_ids \<Longrightarrow> has_write s t \<Longrightarrow> u \<noteq> t \<Longrightarrow> rcount (guards s u) = 0"
    and "t \<in> thread_ids \<Longrightarrow> has_write s t \<Longrightarrow> unat (m_writeCount (lk s)) = count_now s t"
    and "t \<in> thread_ids \<Longrightarrow> has_write s t \<Longrightarrow> guards s t \<noteq> [] \<Longrightarrow> last (guards s t) = WriteLockGuard"
    and "owner_of (lk s) = 0 \<Longrightarrow> m_writeCount (lk s) = 0"
    and "pc_ok s t"
  using assms unfolding lock_inv_def by blast+

lemma thread_id_pos: "t \<in> thread_ids \<Longrightarrow> 0 < unat t \<and> unat t < 65536"
  by (auto simp: thread_ids_def word_less_nat_alt)

lemma total_reads_ge: "t \<in> thread_ids \<Longrightarrow> rcount (guards s t) \<le> total_reads s"
  unfolding total_reads_def by (rule member_le_sum) simp_all

lemma total_reads_update:
  assumes "t \<in> thread_ids" and "\<And>u. u \<noteq> t \<Longrightarrow> guards s' u = guards s u"
  shows "total_reads s' + rcount (guards s t) = total_reads s + rcount (guards s' t)"
proof -
  have "(\<Sum>u\<in>thread_ids - {t}. rcount (guards s' u)) = (\<Sum>u\<in>thread_ids - {t}. rcount (guards s u))"
    using assms(2) by (intro sum.cong) auto
  then show ?thesis
    using assms(1) by (simp add: total_reads_def sum.remove[of thread_ids t])
qed

lemma no_guards: "rcount gs = 0 \<Longrightarrow> wcount gs = 0 \<Longrightarrow> gs = []"
proof (cases gs)
  case (Cons g gs')
  then show "rcount gs = 0 \<Longrightarrow> wcount gs = 0 \<Longrightarrow> gs = []" by (cases g) simp_all
qed simp

lemma pc_ok_frame:
  "guards s' u = guards s u \<Longrightarrow> pcs s' u = pcs s u \<Longrightarrow> pc_ok s' u = pc_ok s u"
  by (simp only: pc_ok_def)

lemma set_pc_simps [simp]:
  "lk (set_pc t x s) = snd x" "guards (set_pc t x s) = guards s"
  "pcs (set_pc t x s) u = (if u = t then fst x else pcs s u)"
  by (simp_all add: set_pc_def)

lemma push_pop_simps [simp]:
  "lk (push_guard t g s) = lk s" "pcs (push_guard t g s) = pcs s"
  "guards (push_guard t g s) u = (if u = t then g # guards s u else guards s u)"
  "lk (pop_guard t s) = lk s" "pcs (pop_guard t s) = pcs s"
  "guards (pop_guard t s) u = (if u = t then tl (guards s u) else guards s u)"
  by (simp_all add: push_guard_def pop_guard_def)

section \<open>Steps that leave the owner as it is\<close>

lemma keep_owner:
  assumes inv: "lock_inv s" and t: "t \<in> thread_ids"
    and frame: "\<And>u. u \<noteq> t \<Longrightarrow> guards s' u = guards s u" "\<And>u. u \<noteq> t \<Longrightarrow> pcs s' u = pcs s u"
    and own: "owner_of (lk s') = owner_of (lk s)" and hw: "has_write s' t = has_write s t"
    and rd: "readers_of (lk s') + rcount (guards s t) = readers_of (lk s) + rcount (guards s' t)"
    and mine: "has_write s t \<Longrightarrow> unat (m_writeCount (lk s')) = count_now s' t
        \<and> (guards s' t \<noteq> [] \<longrightarrow> last (guards s' t) = WriteLockGuard)"
    and notmine: "\<not> has_write s t \<Longrightarrow> m_writeCount (lk s') = m_writeCount (lk s)"
    and other: "\<And>u. u \<in> thread_ids \<Longrightarrow> u \<noteq> t \<Longrightarrow> has_write s u \<Longrightarrow> rcount (guards s' t) = 0"
    and pc: "pc_ok s' t"
  shows "lock_inv s'"
proof -
  note D = lock_invD[OF inv]
  have hw': "has_write s' u = has_write s u" for u
    using hw frame by (cases "u = t") (simp_all add: has_write_def)
  have out: "pcs s' u = Idle \<and> guards s' u = []" if "u \<notin> thread_ids" for u
    using D(1,2)[OF that] that t frame[of u] by auto
  have reads: "readers_of (lk s') = total_reads s'"
    using rd D(4) total_reads_update[OF t frame(1)] by simp
  have excl: "rcount (guards s' v) = 0" if u: "u \<in> thread_ids" "has_write s' u" and "v \<noteq> u" for u v
  proof -
    have hu: "has_write s u" using u(2) by (simp add: hw')
    show ?thesis
      using D(5)[OF u(1) hu \<open>v \<noteq> u\<close>] other[OF u(1)] hu \<open>v \<noteq> u\<close> frame(1)[of v] by (cases "v = t") auto
  qed
  have count: "unat (m_writeCount (lk s')) = count_now s' u
      \<and> (guards s' u \<noteq> [] \<longrightarrow> last (guards s' u) = WriteLockGuard)"
    if u: "u \<in> thread_ids" "has_write s' u" for u
  proof (cases "u = t")
    case True
    then show ?thesis using mine u(2) hw' by simp
  next
    case False
    have hu: "has_write s u" using u(2) by (simp add: hw')
    have "\<not> has_write s t"
      using D(3)[OF t] D(3)[OF u(1)] hu False by (auto simp flip: word_unat_eq_iff)
    then show ?thesis
      using D(6,7)[OF u(1) hu] notmine frame[OF False] by (simp add: count_now_def)
  qed
  have zero: "m_writeCount (lk s') = 0" if "owner_of (lk s') = 0"
    using D(3)[OF t] D(8) own that notmine thread_id_pos[OF t] by auto
  have pcs': "pc_ok s' u" for u
  proof (cases "u = t")
    case False
    show ?thesis using D(9)[of u] by (simp only: pc_ok_frame[of s' u s, OF frame[OF False]])
  qed (use pc in simp)
  show ?thesis
    unfolding lock_inv_def
    using out hw' D(3) own reads excl count zero pcs' by (simp; blast)
qed

section \<open>Preservation by every step\<close>

lemma flag_split: "unat (m_lockFlag l) = owner_of l * 65536 + readers_of l"
  by (simp add: owner_of_def readers_of_def)

lemma owner_readers_of_flag:
  assumes "unat (m_lockFlag l) = a * 65536 + b" and "b < 65536"
  shows "owner_of l = a" "readers_of l = b"
  using assms by (simp_all add: owner_of_def readers_of_def)

lemma thread_id_eq: "t = lock_thread_id (m_lockFlag l) \<longleftrightarrow> unat t = owner_of l"
  by (metis unat_thread_id owner_of_def unsigned_word_eqI)

lemma read_room_less: "read_room l \<longleftrightarrow> readers_of l < 65535"
proof -
  have "read_room l \<longleftrightarrow> unat (m_lockFlag l AND READ_COUNT_MASK) \<noteq> unat READ_COUNT_MASK"
    by (simp add: read_room_def word_unat_eq_iff)
  also have "\<dots> \<longleftrightarrow> readers_of l \<noteq> 65535"
    by (simp only: unat_and_read readers_of_def) (simp add: READ_COUNT_MASK_def)
  also have "\<dots> \<longleftrightarrow> readers_of l < 65535"
    by (simp add: readers_of_def) linarith
  finally show ?thesis .
qed

lemma read_mask_zero: "m_lockFlag l AND READ_COUNT_MASK = 0 \<longleftrightarrow> readers_of l = 0"
  by (simp add: word_unat_eq_iff unat_and_read readers_of_def)

lemma flag_zero: "m_lockFlag l = EMPTY_FLAG \<longleftrightarrow> owner_of l = 0 \<and> readers_of l = 0"
  by (auto simp: word_unat_eq_iff flag_split EMPTY_FLAG_def)

lemma add_reader:
  assumes "readers_of l < 65535" and "m_lockFlag l' = m_lockFlag l + 1"
  shows "owner_of l' = owner_of l" "readers_of l' = Suc (readers_of l)"
proof -
  have "unat (m_lockFlag l) < 2 ^ 32" using unsigned_less[of "m_lockFlag l"] by simp
  moreover have "owner_of l < 65536" using calculation by (simp add: owner_of_def less_mult_imp_div_less)
  ultimately have "unat (m_lockFlag l') = owner_of l * 65536 + Suc (readers_of l)"
    using assms flag_split[of l] by (simp add: unat_word_ariths)
  from owner_readers_of_flag[OF this] assms(1)
  show "owner_of l' = owner_of l" "readers_of l' = Suc (readers_of l)" by simp_all
qed

lemma sub_reader:
  assumes "0 < readers_of l" and "m_lockFlag l' = m_lockFlag l - 1"
  shows "owner_of l' = owner_of l" "Suc (readers_of l') = readers_of l"
proof -
  have "unat (m_lockFlag l') = unat (m_lockFlag l) - 1"
    using assms flag_split[of l] by (subst assms(2)) (simp add: unat_sub word_le_nat_alt)
  moreover have "readers_of l < 65536" by (simp add: readers_of_def)
  ultimately have "unat (m_lockFlag l') = owner_of l * 65536 + (readers_of l - 1)"
    using assms flag_split[of l] by simp
  from owner_readers_of_flag[OF this] assms(1) \<open>readers_of l < 65536\<close>
  show "owner_of l' = owner_of l" "Suc (readers_of l') = readers_of l" by simp_all
qed

lemma active_thread: "lock_inv s \<Longrightarrow> pcs s t \<noteq> Idle \<Longrightarrow> t \<in> thread_ids"
  using lock_invD(1) by blast

text \<open>A move of the program counter alone.\<close>

lemma pc_move:
  assumes "lock_inv s" and "t \<in> thread_ids" and "pcs s t \<noteq> W_Count" and "pcs s t \<noteq> WU_Store"
    and "pc = W_Count \<Longrightarrow> has_write s t" and "pc \<noteq> WU_Store" and "pc_ok (set_pc t (pc, lk s) s) t"
  shows "lock_inv (set_pc t (pc, lk s) s)"
proof (rule keep_owner[OF assms(1,2)])
  show "has_write (set_pc t (pc, lk s) s) t = has_write s t"
    using assms(3,5) by (auto simp: has_write_def)
  show "has_write s t \<Longrightarrow> unat (m_writeCount (lk (set_pc t (pc, lk s) s))) = count_now (set_pc t (pc, lk s) s) t
        \<and> (guards (set_pc t (pc, lk s) s) t \<noteq> [] \<longrightarrow> last (guards (set_pc t (pc, lk s) s) t) = WriteLockGuard)"
    using lock_invD(6,7)[OF assms(1,2)] assms(4,6) by (simp add: count_now_def)
  show "rcount (guards (set_pc t (pc, lk s) s) t) = 0" if "u \<in> thread_ids" "u \<noteq> t" "has_write s u" for u
    using lock_invD(5)[OF assms(1) that(1,3)] that(2) by auto
qed (use assms(7) in simp_all)

lemma begin_as_set_pc: "s\<lparr>pcs := (pcs s)(t := pc)\<rparr> = set_pc t (pc, lk s) s"
  by (simp add: set_pc_def)

text \<open>The exchange that takes the write lock: no thread holds any guard then.\<close>

lemma nobody_holds:
  assumes inv: "lock_inv s" and "owner_of (lk s) = 0" and "readers_of (lk s) = 0"
  shows "guards s u = []"
proof (cases "u \<in> thread_ids")
  case True
  have "rcount (guards s u) = 0"
    using total_reads_ge[OF True, of s] lock_invD(4)[OF inv] assms(3) by simp
  moreover have "\<not> has_write s u"
    using lock_invD(3)[OF inv True] assms(2) thread_id_pos[OF True] by simp
  then have "wcount (guards s u) = 0" by (simp add: has_write_def)
  ultimately show ?thesis by (rule no_guards)
next
  case False
  then show ?thesis by (rule lock_invD(2)[OF inv])
qed

lemma acquire_inv:
  assumes inv: "lock_inv s" and t: "t \<in> thread_ids" and pc: "pcs s t = W_Spin n"
    and flag: "m_lockFlag (lk s) = EMPTY_FLAG"
  shows "lock_inv (set_pc t (W_Count, (lk s)\<lparr>m_lockFlag := push_bit 16 t AND WRITE_THREAD_MASK\<rparr>) s)"
    (is "lock_inv ?s'")
proof -
  have free: "owner_of (lk s) = 0" "readers_of (lk s) = 0" using flag by (simp_all add: flag_zero)
  have g: "guards s u = []" for u by (rule nobody_holds[OF inv free])
  have "t < 65536" using t by (simp add: thread_ids_def)
  from push_write[OF this]
  have own: "owner_of (lk ?s') = unat t" "readers_of (lk ?s') = 0"
    by (auto intro!: owner_readers_of_flag)
  have none: "\<not> has_write s u" if "u \<in> thread_ids" for u
    using lock_invD(3)[OF inv that] free thread_id_pos[OF that] by simp
  have hw: "has_write ?s' u \<longleftrightarrow> u = t" if "u \<in> thread_ids" for u
    using none[OF that] g by (auto simp: has_write_def)
  have reads: "total_reads ?s' = 0"
    by (simp add: total_reads_def g)
  have count: "m_writeCount (lk s) = 0" by (rule lock_invD(8)[OF inv free(1)])
  have pcs: "pc_ok ?s' u" for u
    using lock_invD(9)[OF inv, of u] pc_ok_frame[of ?s' u s] by (cases "u = t") (simp_all add: pc_ok_def)
  show ?thesis
    unfolding lock_inv_def
    using own hw reads pcs lock_invD(1,2)[OF inv] g t thread_id_pos[OF t] count
    by (auto simp: count_now_def simp flip: word_unat_eq_iff)
qed

lemma release_inv:
  assumes inv: "lock_inv s" and pc: "pcs s t = WU_Store"
  shows "lock_inv (pop_guard t (set_pc t (Idle, (lk s)\<lparr>m_lockFlag := EMPTY_FLAG\<rparr>) s))"
    (is "lock_inv ?s'")
proof -
  have t: "t \<in> thread_ids" using active_thread[OF inv] pc by simp
  have gt: "guards s t = [WriteLockGuard]" using lock_invD(9)[OF inv, of t] pc by (simp add: pc_ok_def)
  then have hw: "has_write s t" by (simp add: has_write_def)
  have own: "owner_of (lk ?s') = 0" "readers_of (lk ?s') = 0"
    using flag_zero[of "lk ?s'"] by simp_all
  have g: "guards ?s' u = guards s u" "pcs ?s' u = pcs s u" if "u \<noteq> t" for u
    using that by simp_all
  have gt': "guards ?s' t = []" "pcs ?s' t = Idle" using gt by simp_all
  have none: "\<not> has_write ?s' u" if "u \<in> thread_ids" for u
  proof (cases "u = t")
    case False
    have "\<not> has_write s u"
      using lock_invD(3)[OF inv t] lock_invD(3)[OF inv that] hw False by (auto simp flip: word_unat_eq_iff)
    then show ?thesis using g[OF False] by (simp add: has_write_def)
  qed (use gt' in \<open>simp add: has_write_def\<close>)
  have "rcount (guards ?s' u) = 0" for u
    using lock_invD(5)[OF inv t hw, of u] g gt' by (cases "u = t") simp_all
  then have reads: "total_reads ?s' = 0" by (simp add: total_reads_def)
  have "unat (m_writeCount (lk s)) = 0"
    using lock_invD(6)[OF inv t hw] gt pc by (simp add: count_now_def)
  then have count: "m_writeCount (lk ?s') = 0" by (simp add: unat_eq_0)
  have pcs: "pc_ok ?s' u" for u
  proof (cases "u = t")
    case False
    show ?thesis using lock_invD(9)[OF inv, of u] by (simp only: pc_ok_frame[of ?s' u s, OF g[OF False]])
  qed (use gt' in \<open>simp add: pc_ok_def\<close>)
  have out: "pcs ?s' u = Idle \<and> guards ?s' u = []" if "u \<notin> thread_ids" for u
    using lock_invD(1,2)[OF inv that] that t g[of u] by auto
  show ?thesis
    unfolding lock_inv_def
    using own none reads pcs out count thread_id_pos by auto
qed

text \<open>The operations, one lemma each: a step inside the operation, and the step that ends it.\<close>

lemma WriteLock_inv:
  assumes inv: "lock_inv s" and "in_WriteLock (pcs s t)"
    and run: "WriteLock t late (pcs s t) (lk s) = (pc, l)" and "pc \<noteq> Idle"
  shows "lock_inv (set_pc t (pc, l) s)"
proof -
  have t: "t \<in> thread_ids" using active_thread[OF inv] assms(2) by (auto simp: in_WriteLock_def)
  consider "pcs s t = W_Load" | n where "pcs s t = W_Spin n" | "pcs s t = W_Count"
    using assms(2) by (auto simp: in_WriteLock_def)
  then show ?thesis
  proof cases
    case 1
    then have *: "l = lk s" "pc = W_Count \<and> has_write s t \<or> pc = W_Spin 0"
      using run lock_invD(3)[OF inv t] by (auto simp: thread_id_eq split: if_splits)
    show ?thesis unfolding *(1) by (rule pc_move[OF inv t]) (use 1 *(2) in \<open>auto simp: pc_ok_def\<close>)
  next
    case (2 n)
    show ?thesis
    proof (cases "n < MAX_SPIN_COUNT \<and> m_lockFlag (lk s) = EMPTY_FLAG")
      case True
      then show ?thesis using run 2 acquire_inv[OF inv t 2] by (auto simp: Let_def)
    next
      case False
      then have *: "l = lk s" "pc = W_Spin (Suc n) \<or> pc = W_Spin 0 \<or> pc = Crashed ''LOCK_TIMEOUT''"
        using run 2 by (auto simp: Let_def split: if_splits)
      show ?thesis unfolding *(1) by (rule pc_move[OF inv t]) (use 2 *(2) in \<open>auto simp: pc_ok_def\<close>)
    qed
  next
    case 3
    then show ?thesis using run \<open>pc \<noteq> Idle\<close> by simp
  qed
qed

lemma count_inc: "w \<noteq> 0xFFFF \<Longrightarrow> unat (w + 1 :: u16) = Suc (unat w)"
  using unsigned_less[of w, where 'a = nat] by (simp add: unat_word_ariths word_unat_eq_iff)

lemma WriteLocked_inv:
  assumes inv: "lock_inv s" and op: "in_WriteLock (pcs s t)"
    and run: "WriteLock t late (pcs s t) (lk s) = (Idle, l)" and room: "write_room (lk s)"
  shows "lock_inv (push_guard t WriteLockGuard (set_pc t (Idle, l) s))"
proof -
  have t: "t \<in> thread_ids" using active_thread[OF inv] op by (auto simp: in_WriteLock_def)
  have pc: "pcs s t = W_Count" and l: "l = (lk s)\<lparr>m_writeCount := m_writeCount (lk s) + 1\<rparr>"
    using op run by (auto simp: in_WriteLock_def Let_def split: if_splits)
  have hw: "has_write s t" using pc by (simp add: has_write_def)
  have "unat (m_writeCount l) = Suc (count_now s t)"
    using lock_invD(6)[OF inv t hw] room by (simp add: l count_inc write_room_def)
  then show ?thesis
    using hw lock_invD(5)[OF inv t hw] lock_invD(7)[OF inv t hw] pc lock_invD(3,5)[OF inv]
    by (intro keep_owner[OF inv t])
      (auto simp: l owner_of_def readers_of_def has_write_def count_now_def pc_ok_def)
qed

lemma ReadLock_inv:
  assumes inv: "lock_inv s" and op: "in_ReadLock (pcs s t)"
    and run: "ReadLock t late (pcs s t) (lk s) = (pc, l)" and "pc \<noteq> Idle"
  shows "lock_inv (set_pc t (pc, l) s)"
proof -
  have t: "t \<in> thread_ids" using active_thread[OF inv] op by (auto simp: in_ReadLock_def)
  have here: "pcs s t \<noteq> W_Count" "pcs s t \<noteq> WU_Store" using op by (auto simp: in_ReadLock_def)
  have owner: "has_write s t \<longleftrightarrow> t = lock_thread_id (m_lockFlag (lk s))"
    using lock_invD(3)[OF inv t] by (auto simp: thread_id_eq)
  have "l = lk s \<and> pc \<noteq> W_Count \<and> pc \<noteq> WU_Store \<and> pc_ok (set_pc t (pc, lk s) s) t"
    using op run \<open>pc \<noteq> Idle\<close> owner here
    by (auto simp: in_ReadLock_def has_write_def pc_ok_def unat_and_read split: if_splits)
  then show ?thesis
    by (auto intro!: pc_move[OF inv t] simp: here)
qed

lemma ReadLocked_inv:
  assumes inv: "lock_inv s" and op: "in_ReadLock (pcs s t)"
    and run: "ReadLock t late (pcs s t) (lk s) = (Idle, l)" and room: "read_room (lk s)"
  shows "lock_inv (push_guard t ReadLockGuard (set_pc t (Idle, l) s))"
proof -
  have t: "t \<in> thread_ids" using active_thread[OF inv] op by (auto simp: in_ReadLock_def)
  have hw0: "pcs s t \<noteq> W_Count" "pcs s t \<noteq> WU_Store" using op by (auto simp: in_ReadLock_def)
  have flag: "l = (lk s)\<lparr>m_lockFlag := m_lockFlag (lk s) + 1\<rparr>"
    and who: "pcs s t = R_Add \<or> (\<exists>n e. pcs s t = R_Cas n e \<and> m_lockFlag (lk s) = e)"
    using op run by (auto simp: in_ReadLock_def split: if_splits)
  have own: "owner_of l = owner_of (lk s)" "readers_of l = Suc (readers_of (lk s))"
    using add_reader[of "lk s" l] room by (simp_all add: flag read_room_less)
  have alone: False if "u \<in> thread_ids" "u \<noteq> t" "has_write s u" for u
  proof -
    have "owner_of (lk s) = unat u" using that lock_invD(3)[OF inv] by simp
    moreover have "owner_of (lk s) = unat t \<or> owner_of (lk s) = 0"
      using who lock_invD(9)[OF inv, of t] lock_invD(3)[OF inv t]
      by (auto simp: pc_ok_def has_write_def owner_of_def)
    ultimately show False using that thread_id_pos[OF that(1)] by (auto simp flip: word_unat_eq_iff)
  qed
  have g: "guards s t \<noteq> []" if "has_write s t" using that hw0 by (auto simp: has_write_def)
  show ?thesis
    using own alone g lock_invD(6,7)[OF inv t] hw0
    by (intro keep_owner[OF inv t])
      (auto simp: flag has_write_def count_now_def pc_ok_def)
qed

lemma WriteUnlock_cases:
  assumes inv: "lock_inv s" and op: "in_WriteUnlock (pcs s t)"
  shows "t \<in> thread_ids" "has_write s t" "\<exists>gs. guards s t = WriteLockGuard # gs"
proof -
  show t: "t \<in> thread_ids" using active_thread[OF inv] op by (auto simp: in_WriteUnlock_def)
  show "\<exists>gs. guards s t = WriteLockGuard # gs"
    using lock_invD(9)[OF inv, of t] op by (auto simp: in_WriteUnlock_def pc_ok_def)
  then show "has_write s t" by (auto simp: has_write_def)
qed

lemma WriteUnlock_inv:
  assumes inv: "lock_inv s" and op: "in_WriteUnlock (pcs s t)"
    and run: "WriteUnlock (pcs s t) (lk s) = (pc, l)" and "pc \<noteq> Idle"
  shows "lock_inv (set_pc t (pc, l) s)"
proof -
  note C = WriteUnlock_cases[OF inv op]
  obtain gs where gs: "guards s t = WriteLockGuard # gs" using C(3) by blast
  consider "pcs s t = WU_Check" | "pcs s t = WU_Dec" | "pcs s t = WU_Store"
    using op by (auto simp: in_WriteUnlock_def)
  then show ?thesis
  proof cases
    case 1
    then have *: "l = lk s" "pc = WU_Dec \<or> pc = Crashed ''INVALID_UNLOCK_ORDER''"
      using run by (auto split: if_splits)
    show ?thesis unfolding *(1) by (rule pc_move[OF inv C(1)]) (use 1 *(2) gs in \<open>auto simp: pc_ok_def\<close>)
  next
    case 2
    then have *: "pc = WU_Store" "l = (lk s)\<lparr>m_writeCount := m_writeCount (lk s) - 1\<rparr>"
        "m_writeCount (lk s) = 1"
      using run \<open>pc \<noteq> Idle\<close> by (auto simp: Let_def split: if_splits)
    have "wcount gs = 0" using lock_invD(6)[OF inv C(1,2)] gs 2 *(3) by (simp add: count_now_def)
    moreover have "last (guards s t) = WriteLockGuard" using lock_invD(7)[OF inv C(1,2)] gs by simp
    ultimately have "gs = []"
      using gs last_in_set[of gs] by (cases "gs = []") (auto simp: wcount_def count_list_0_iff)
    then show ?thesis
      using * gs 2 C lock_invD(5)[OF inv _ _, of _ t]
      by (intro keep_owner[OF inv C(1)])
        (auto simp: owner_of_def readers_of_def has_write_def count_now_def pc_ok_def)
  next
    case 3
    then show ?thesis using run \<open>pc \<noteq> Idle\<close> by simp
  qed
qed

lemma WriteUnlocked_inv:
  assumes inv: "lock_inv s" and op: "in_WriteUnlock (pcs s t)"
    and run: "WriteUnlock (pcs s t) (lk s) = (Idle, l)"
  shows "lock_inv (pop_guard t (set_pc t (Idle, l) s))"
proof -
  note C = WriteUnlock_cases[OF inv op]
  obtain gs where gs: "guards s t = WriteLockGuard # gs" using C(3) by blast
  consider "pcs s t = WU_Check" | "pcs s t = WU_Dec" | "pcs s t = WU_Store"
    using op by (auto simp: in_WriteUnlock_def)
  then show ?thesis
  proof cases
    case 1
    then show ?thesis using run by (simp split: if_splits)
  next
    case 2
    then have *: "l = (lk s)\<lparr>m_writeCount := m_writeCount (lk s) - 1\<rparr>" "m_writeCount (lk s) - 1 \<noteq> 0"
      using run by (auto simp: Let_def split: if_splits)
    have n: "unat (m_writeCount (lk s)) = Suc (wcount gs)"
      using lock_invD(6)[OF inv C(1,2)] gs 2 by (simp add: count_now_def)
    then have dec: "unat (m_writeCount (lk s) - 1) = wcount gs"
      by (subst unat_sub) (simp_all add: word_le_nat_alt)
    then have pos: "0 < wcount gs" using *(2) by (simp add: word_unat_eq_iff)
    have "last gs = WriteLockGuard"
      using lock_invD(7)[OF inv C(1,2)] gs pos by (auto split: if_splits)
    then show ?thesis
      using * gs 2 C pos dec lock_invD(5)[OF inv _ _, of _ t]
      by (intro keep_owner[OF inv C(1)])
        (auto simp: owner_of_def readers_of_def has_write_def count_now_def pc_ok_def)
  next
    case 3
    then have "l = (lk s)\<lparr>m_lockFlag := EMPTY_FLAG\<rparr>" using run by simp
    then show ?thesis using release_inv[OF inv 3] by simp
  qed
qed

lemma reader_counted:
  assumes inv: "lock_inv s" and pc: "pcs s t = RU_Sub"
  shows "t \<in> thread_ids" "\<exists>gs. guards s t = ReadLockGuard # gs" "0 < readers_of (lk s)"
proof -
  show t: "t \<in> thread_ids" using active_thread[OF inv] pc by simp
  show g: "\<exists>gs. guards s t = ReadLockGuard # gs"
    using lock_invD(9)[OF inv, of t] pc by (simp add: pc_ok_def)
  then show "0 < readers_of (lk s)"
    using total_reads_ge[OF t, of s] lock_invD(4)[OF inv] by auto
qed

lemma ReadUnlocked_inv:
  assumes inv: "lock_inv s" and pc: "pcs s t = RU_Sub"
    and run: "ReadUnlock RU_Sub (lk s) = (Idle, l)"
  shows "lock_inv (pop_guard t (set_pc t (Idle, l) s))"
proof -
  note C = reader_counted[OF inv pc]
  obtain gs where gs: "guards s t = ReadLockGuard # gs" using C(2) by blast
  have l: "l = (lk s)\<lparr>m_lockFlag := m_lockFlag (lk s) - 1\<rparr>"
    using run by (simp add: Let_def split: if_splits)
  have own: "owner_of l = owner_of (lk s)" "Suc (readers_of l) = readers_of (lk s)"
    using sub_reader[OF C(3), of l] by (simp_all add: l)
  have "last gs = WriteLockGuard" if "has_write s t" "gs \<noteq> []"
    using lock_invD(7)[OF inv C(1) that(1)] gs that(2) by simp
  then show ?thesis
    using own gs pc lock_invD(5)[OF inv _ _, of _ t] lock_invD(6)[OF inv C(1)]
    by (intro keep_owner[OF inv C(1)])
      (auto simp: l has_write_def count_now_def pc_ok_def)
qed

lemma lock_init_inv: "lock_init s \<Longrightarrow> lock_inv s"
  using thread_id_pos
  by (fastforce simp: lock_init_def lock_inv_def new_lock_def owner_of_def readers_of_def EMPTY_FLAG_def
      has_write_def total_reads_def pc_ok_def)

lemma lock_step_inv: "lock_step s s' \<Longrightarrow> lock_inv s \<Longrightarrow> lock_inv s'"
proof (induction rule: lock_step.induct)
  case (read_unlock s t pc l)
  then show ?case
    using reader_counted[of s t] by (simp add: Let_def read_mask_zero split: if_splits)
qed (auto simp: begin_as_set_pc pc_ok_def intro!: pc_move intro: WriteLock_inv WriteLocked_inv ReadLock_inv
      ReadLocked_inv WriteUnlock_inv WriteUnlocked_inv ReadUnlocked_inv)

interpretation lock_machine: invariant_system lock_init lock_step lock_inv
  by unfold_locales (fact lock_init_inv, erule (1) lock_step_inv[rotated])

lemmas lock_reach_inv = lock_machine.reach_inv

section \<open>A run of one writer and one reader\<close>

abbreviation lock_at :: "rw_lock \<Rightarrow> lock_pc \<Rightarrow> guard list \<Rightarrow> lock_sys" where
  "lock_at l pc gs \<equiv> \<lparr>lk = l, pcs = (\<lambda>_. Idle)(1 := pc), guards = (\<lambda>_. [])(1 := gs)\<rparr>"

lemma one_is_thread: "(1 :: u32) \<in> thread_ids"
  by (simp add: thread_ids_def)

lemma lock_at_write:
  assumes "reach lock_init lock_step (lock_at l pc gs)" and "in_WriteLock pc"
    and "WriteLock 1 False pc l = (pc', l')" and "pc' \<noteq> Idle"
  shows "reach lock_init lock_step (lock_at l' pc' gs)"
  using reach_step[OF assms(1) write_lock[of "lock_at l pc gs" 1 False pc' l']] assms(2-)
  by (simp add: set_pc_def)

lemma run_start: "reach lock_init lock_step (lock_at new_lock Idle [])"
  by (rule reach_init) (simp add: lock_init_def fun_eq_iff)

abbreviation held_once :: rw_lock where
  "held_once \<equiv> \<lparr>m_lockFlag = 0x10000, m_writeCount = 1\<rparr>"

lemma run_writer: "reach lock_init lock_step (lock_at held_once Idle [WriteLockGuard])"
proof -
  have load: "reach lock_init lock_step (lock_at new_lock W_Load [])"
    using reach_step[OF run_start begin_write[OF one_is_thread]] by simp
  have spin: "reach lock_init lock_step (lock_at new_lock (W_Spin 0) [])"
    by (rule lock_at_write[OF load])
      (simp_all add: in_WriteLock_def new_lock_def EMPTY_FLAG_def lock_thread_id_def WRITE_THREAD_MASK_def)
  have count: "reach lock_init lock_step (lock_at \<lparr>m_lockFlag = 0x10000, m_writeCount = 0\<rparr> W_Count [])"
    by (rule lock_at_write[OF spin])
      (simp_all add: in_WriteLock_def new_lock_def EMPTY_FLAG_def WRITE_THREAD_MASK_def MAX_SPIN_COUNT_def)
  show ?thesis
    using reach_step[OF count write_locked[of _ 1 False]]
    by (simp add: in_WriteLock_def set_pc_def push_guard_def write_room_def)
qed

lemma run_reader:
  "reach lock_init lock_step (lock_at \<lparr>m_lockFlag = 1, m_writeCount = 0\<rparr> Idle [ReadLockGuard])"
proof -
  have load: "reach lock_init lock_step (lock_at new_lock R_Load [])"
    using reach_step[OF run_start begin_read[OF one_is_thread]] by simp
  have spin: "reach lock_init lock_step (lock_at new_lock (R_Spin 0) [])"
    using reach_step[OF load read_lock[of _ 1 False "R_Spin 0" new_lock]]
    by (simp add: in_ReadLock_def set_pc_def new_lock_def EMPTY_FLAG_def lock_thread_id_def WRITE_THREAD_MASK_def)
  have cas: "reach lock_init lock_step (lock_at new_lock (R_Cas 0 0) [])"
    using reach_step[OF spin read_lock[of _ 1 False "R_Cas 0 0" new_lock]]
    by (simp add: in_ReadLock_def set_pc_def new_lock_def EMPTY_FLAG_def MAX_SPIN_COUNT_def)
  show ?thesis
    using reach_step[OF cas read_locked[of _ 1 False]]
    by (simp add: in_ReadLock_def set_pc_def push_guard_def read_room_def new_lock_def EMPTY_FLAG_def
        READ_COUNT_MASK_def)
qed

lemma run_reader_upgrading:
  "reach lock_init lock_step (lock_at \<lparr>m_lockFlag = 1, m_writeCount = 0\<rparr> (W_Spin 0) [ReadLockGuard])"
proof -
  have load: "reach lock_init lock_step (lock_at \<lparr>m_lockFlag = 1, m_writeCount = 0\<rparr> W_Load [ReadLockGuard])"
    using reach_step[OF run_reader begin_write[OF one_is_thread]] by simp
  show ?thesis
    by (rule lock_at_write[OF load])
      (simp_all add: in_WriteLock_def lock_thread_id_def WRITE_THREAD_MASK_def)
qed

lemma run_reader_unlocking:
  "reach lock_init lock_step (lock_at \<lparr>m_lockFlag = 1, m_writeCount = 0\<rparr> RU_Sub [ReadLockGuard])"
  using reach_step[OF run_reader end_read[OF one_is_thread]] by simp

section \<open>Properties\<close>

text \<open>C15: Mutual exclusion. While a thread holds a write guard no other thread holds a guard of
  any kind, in every state the interleaved atomic steps of WriteLock, WriteUnlock, ReadLock and
  ReadUnlock can reach.\<close>

theorem lock_mutual_exclusion:
  assumes "reach lock_init lock_step s" and "WriteLockGuard \<in> set (guards s t)" and "u \<noteq> t"
  shows "guards s u = []"
proof -
  note inv = lock_reach_inv[OF assms(1)]
  have t: "t \<in> thread_ids"
    using lock_invD(2)[OF inv, of t] assms(2) by (cases "t \<in> thread_ids") auto
  have hw: "has_write s t"
    using assms(2) count_list_0_iff[of "guards s t" WriteLockGuard] by (auto simp: has_write_def wcount_def)
  have "wcount (guards s u) = 0"
  proof (cases "u \<in> thread_ids")
    case True
    then show ?thesis
      using lock_invD(3)[OF inv t] lock_invD(3)[OF inv True] hw assms(3)
      by (auto simp: has_write_def simp flip: word_unat_eq_iff)
  qed (use lock_invD(2)[OF inv] in simp)
  with lock_invD(5)[OF inv t hw assms(3)] show ?thesis by (rule no_guards)
qed

theorem lock_mutual_exclusion_witness:
  "guards (lock_at held_once Idle [WriteLockGuard]) 2 = []"
  using lock_mutual_exclusion[OF run_writer, of 1 2] by simp

text \<open>The checks of the two unlock operations. The MULTIPLE_UNLOCK crash of ReadUnlock cannot
  happen to a scoped guard. The INVALID_UNLOCK_ORDER crash of WriteUnlock happens exactly when the
  thread itself still holds a shared guard below the write guard it releases, although the lock
  lets it take that write guard.\<close>

theorem unlock_checks:
  assumes "reach lock_init lock_step s"
  shows "(pcs s t = RU_Sub \<longrightarrow> fst (ReadUnlock (pcs s t) (lk s)) = Idle)
    \<and> (pcs s t = WU_Check \<longrightarrow>
        (fst (WriteUnlock (pcs s t) (lk s)) = Crashed ''INVALID_UNLOCK_ORDER''
          \<longleftrightarrow> ReadLockGuard \<in> set (guards s t)))"
proof (intro conjI impI)
  note inv = lock_reach_inv[OF assms]
  show "fst (ReadUnlock (pcs s t) (lk s)) = Idle" if "pcs s t = RU_Sub"
    using reader_counted(3)[OF inv that] that by (simp add: Let_def read_mask_zero)
  assume pc: "pcs s t = WU_Check"
  then have "in_WriteUnlock (pcs s t)" by (simp add: in_WriteUnlock_def)
  note C = WriteUnlock_cases[OF inv this]
  have "total_reads s = rcount (guards s t)"
    using lock_invD(5)[OF inv C(1,2)] C(1) by (simp add: total_reads_def sum.remove[of thread_ids t])
  then have "readers_of (lk s) \<noteq> 0 \<longleftrightarrow> ReadLockGuard \<in> set (guards s t)"
    using lock_invD(4)[OF inv] by (auto simp: rcount_def count_list_0_iff)
  then show "fst (WriteUnlock (pcs s t) (lk s)) = Crashed ''INVALID_UNLOCK_ORDER''
      \<longleftrightarrow> ReadLockGuard \<in> set (guards s t)"
    using pc by (simp add: read_mask_zero)
qed

theorem unlock_checks_witness:
  "fst (ReadUnlock RU_Sub \<lparr>m_lockFlag = 1, m_writeCount = 0\<rparr>) = Idle"
  using unlock_checks[OF run_reader_unlocking, of 1] by simp

text \<open>A shared guard is never upgraded. A thread that holds a shared guard and no write guard
  never wins the exchange of WriteLock, so its WriteLock can only spin until LOCK_TIMEOUT.\<close>

theorem no_upgrade:
  assumes "reach lock_init lock_step s" and "pcs s t = W_Spin n"
    and "ReadLockGuard \<in> set (guards s t)"
  shows "fst (WriteLock t late (pcs s t) (lk s)) =
     (if n < MAX_SPIN_COUNT then W_Spin (Suc n)
      else if late then Crashed ''LOCK_TIMEOUT'' else W_Spin 0)"
proof -
  note inv = lock_reach_inv[OF assms(1)]
  have t: "t \<in> thread_ids" using active_thread[OF inv] assms(2) by simp
  have "0 < rcount (guards s t)"
    using assms(3) count_list_0_iff[of "guards s t" ReadLockGuard] by (auto simp: rcount_def)
  then have "readers_of (lk s) \<noteq> 0" using total_reads_ge[OF t, of s] lock_invD(4)[OF inv] by simp
  then have "m_lockFlag (lk s) \<noteq> EMPTY_FLAG" by (simp add: flag_zero)
  then show ?thesis by (simp add: assms(2) Let_def)
qed

theorem no_upgrade_witness:
  "fst (WriteLock 1 True (W_Spin 0) \<lparr>m_lockFlag = 1, m_writeCount = 0\<rparr>) = W_Spin 1"
  using no_upgrade[OF run_reader_upgrading, of 1 0 True] by (simp add: MAX_SPIN_COUNT_def)

text \<open>Every hold is given back. When no thread is inside an operation of the lock and no
  thread holds a guard, the flag and the recursion count are what the constructor made them.\<close>

theorem lock_released:
  assumes "reach lock_init lock_step s" and "\<And>t. pcs s t = Idle" and "\<And>t. guards s t = []"
  shows "lk s = new_lock"
proof -
  note inv = lock_reach_inv[OF assms(1)]
  have "readers_of (lk s) = 0" using lock_invD(4)[OF inv] assms(3) by (simp add: total_reads_def)
  moreover have own: "owner_of (lk s) = 0"
  proof (rule ccontr)
    assume pos: "owner_of (lk s) \<noteq> 0"
    have "owner_of (lk s) < 65536"
      using unsigned_less[of "m_lockFlag (lk s)", where 'a = nat] by (simp add: owner_of_def less_mult_imp_div_less)
    then have "unat (of_nat (owner_of (lk s)) :: u32) = owner_of (lk s)"
      by (simp add: unsigned_of_nat take_bit_nat_eq_self)
    moreover from this pos \<open>owner_of (lk s) < 65536\<close>
    have "(of_nat (owner_of (lk s)) :: u32) \<in> thread_ids"
      by (simp add: thread_ids_def word_less_nat_alt)
    ultimately show False using lock_invD(3)[OF inv] assms(2,3) by (fastforce simp: has_write_def)
  qed
  ultimately show ?thesis
    using lock_invD(8)[OF inv own] flag_zero[of "lk s"] by (simp add: new_lock_def)
qed

theorem lock_released_witness: "lk (lock_at new_lock Idle []) = new_lock"
  by (rule lock_released[OF run_start]) simp_all

text \<open>The guard read_room is needed: at 65535 shared holds one more carries into the half of
  the flag that names the writer, and the thread with id 1 is taken for its owner.\<close>

lemma reader_overflow:
  "ReadLock tid late (R_Cas n 0xFFFF) \<lparr>m_lockFlag = 0xFFFF, m_writeCount = c\<rparr>
     = (Idle, \<lparr>m_lockFlag = 0x10000, m_writeCount = c\<rparr>)"
  "lock_thread_id 0x10000 = 1"
  by (simp_all add: lock_thread_id_def WRITE_THREAD_MASK_def)

end
