(* ===== verification/Dead_Lock_Profiler.thy ===== *)
theory Dead_Lock_Profiler
  imports Server_Base
begin

text \<open>
  The deadlock profiler (ServerCore/DeadLockProfiler.h, DeadLockProfiler.cpp): it numbers the
  lock names, records which lock was taken while which other was the last one held, and searches
  the recorded graph for a cycle when an edge is new. A name is a const char pointer, compared as
  an address. The set of successors of a lock is the ascending list a std::set iterates over. The
  recursion of Dfs and the loop that prints the cycle take a fuel argument, and None is a run that
  did not end within it; the lemmas of Dead_Lock_Safety show that it always does.
\<close>

section \<open>State\<close>

type_synonym lock_name = nat
type_synonym lock_history = "nat \<rightharpoonup> nat list"

record dfs_state =
  m_discoveredOrder :: "int list"
  m_discoveredCount :: int
  m_finished :: "bool list"
  m_parent :: "int list"

text \<open>
  The two name tables are association lists (an unordered_map, whose size the code asks for);
  each thread has its own lock stack, the top first.
\<close>

record dead_lock_profiler =
  m_nameToId :: "(lock_name \<times> nat) list"
  m_idToName :: "(nat \<times> lock_name) list"
  m_lockHistory :: lock_history
  LLockStack :: "nat \<Rightarrow> nat list"

definition new_profiler :: dead_lock_profiler where
  "new_profiler = \<lparr>m_nameToId = [], m_idToName = [], m_lockHistory = Map.empty, LLockStack = (\<lambda>_. [])\<rparr>"

section \<open>The search\<close>

text \<open>The loop that prints the cycle: from the current node along the parents to the target.\<close>

fun print_cycle :: "nat \<Rightarrow> int list \<Rightarrow> int \<Rightarrow> int \<Rightarrow> unit result option" where
  "print_cycle 0 parent now there = None"
| "print_cycle (Suc n) parent now there =
     (if now < 0 \<or> int (length parent) \<le> now then Some (Inl OutOfBounds)
      else let now' = parent ! nat now in
        if now' = there then Some (Inr ()) else print_cycle n parent now' there)"

definition discover :: "nat \<Rightarrow> dfs_state \<Rightarrow> dfs_state" where
  "discover i d = d\<lparr>m_discoveredOrder := (m_discoveredOrder d)[i := m_discoveredCount d],
     m_discoveredCount := m_discoveredCount d + 1\<rparr>"

definition finish :: "nat \<Rightarrow> dfs_state \<Rightarrow> dfs_state" where
  "finish i d = d\<lparr>m_finished := (m_finished d)[i := True]\<rparr>"

definition set_parent :: "nat \<Rightarrow> nat \<Rightarrow> dfs_state \<Rightarrow> dfs_state" where
  "set_parent t i d = d\<lparr>m_parent := (m_parent d)[t := int i]\<rparr>"

text \<open>Dfs, and the loop of its body over the successors of the node.\<close>

function Dfs :: "nat \<Rightarrow> lock_history \<Rightarrow> nat \<Rightarrow> dfs_state \<Rightarrow> dfs_state result option"
  and Dfs_loop :: "nat \<Rightarrow> lock_history \<Rightarrow> nat \<Rightarrow> nat list \<Rightarrow> dfs_state \<Rightarrow> dfs_state result option" where
  "Dfs 0 h i d = None"
| "Dfs (Suc n) h i d =
     (if length (m_discoveredOrder d) \<le> i then Some (Inl OutOfBounds)
      else if m_discoveredOrder d ! i \<noteq> - 1 then Some (Inr d)
      else case h i of
          None \<Rightarrow> Some (Inr (finish i (discover i d)))
        | Some nextSet \<Rightarrow> Dfs_loop n h i nextSet (discover i d))"
| "Dfs_loop n h i [] d = Some (Inr (finish i d))"
| "Dfs_loop n h i (there # ts) d =
     (if length (m_discoveredOrder d) \<le> there then Some (Inl OutOfBounds)
      else if m_discoveredOrder d ! there = - 1 then
        (case Dfs n h there (set_parent there i d) of
           None \<Rightarrow> None
         | Some (Inl e) \<Rightarrow> Some (Inl e)
         | Some (Inr d') \<Rightarrow> Dfs_loop n h i ts d')
      else if m_discoveredOrder d ! i < m_discoveredOrder d ! there then Dfs_loop n h i ts d
      else if \<not> m_finished d ! there then
        (case print_cycle (Suc (length (m_parent d))) (m_parent d) (int i) (int there) of
           None \<Rightarrow> None
         | Some (Inl e) \<Rightarrow> Some (Inl e)
         | Some (Inr _) \<Rightarrow> Some (Inl (Crash ''DEADLOCK_DETECTED'')))
      else Dfs_loop n h i ts d)"
  by pat_completeness auto
termination
  by (relation "measures [case_sum (\<lambda>(n, h, i, d). n) (\<lambda>(n, h, i, ts, d). n),
                          case_sum (\<lambda>(n, h, i, d). 0) (\<lambda>(n, h, i, ts, d). Suc (length ts))]") auto

definition dfs_start :: "nat \<Rightarrow> dfs_state" where
  "dfs_start lockCount = \<lparr>m_discoveredOrder = replicate lockCount (- 1), m_discoveredCount = 0,
     m_finished = replicate lockCount False, m_parent = replicate lockCount (- 1)\<rparr>"

fun CheckCycle_loop :: "nat \<Rightarrow> lock_history \<Rightarrow> nat list \<Rightarrow> dfs_state \<Rightarrow> dfs_state result option" where
  "CheckCycle_loop n h [] d = Some (Inr d)"
| "CheckCycle_loop n h (lockId # is) d =
     (case Dfs n h lockId d of
        None \<Rightarrow> None
      | Some (Inl e) \<Rightarrow> Some (Inl e)
      | Some (Inr d') \<Rightarrow> CheckCycle_loop n h is d')"

text \<open>The search clears its own arrays afterwards, so only its outcome is left.\<close>

definition CheckCycle :: "lock_history \<Rightarrow> nat \<Rightarrow> unit result option" where
  "CheckCycle h lockCount =
     (case CheckCycle_loop (Suc lockCount) h [0..<lockCount] (dfs_start lockCount) of
        None \<Rightarrow> None
      | Some r \<Rightarrow> Some (rbind r (\<lambda>_. Inr ())))"

section \<open>PushLock and PopLock\<close>

definition find_or_issue :: "lock_name \<Rightarrow> dead_lock_profiler \<Rightarrow> nat \<times> dead_lock_profiler" where
  "find_or_issue name p =
     (case map_of (m_nameToId p) name of
        None \<Rightarrow>
          let lockId = length (m_nameToId p) in
          (lockId, p\<lparr>m_nameToId := (name, lockId) # m_nameToId p, m_idToName := (lockId, name) # m_idToName p\<rparr>)
      | Some lockId \<Rightarrow> (lockId, p))"

definition history_of :: "lock_history \<Rightarrow> nat \<Rightarrow> nat list" where
  "history_of h i = (case h i of None \<Rightarrow> [] | Some ts \<Rightarrow> ts)"

definition push_stack :: "nat \<Rightarrow> nat \<Rightarrow> dead_lock_profiler \<Rightarrow> dead_lock_profiler" where
  "push_stack t lockId p = p\<lparr>LLockStack := (LLockStack p)(t := lockId # LLockStack p t)\<rparr>"

definition PushLock :: "nat \<Rightarrow> lock_name \<Rightarrow> dead_lock_profiler \<Rightarrow> dead_lock_profiler result option" where
  "PushLock t name p =
     (let (lockId, p1) = find_or_issue name p in
      case LLockStack p1 t of
        [] \<Rightarrow> Some (Inr (push_stack t lockId p1))
      | prevId # _ \<Rightarrow>
          if lockId = prevId then Some (Inr (push_stack t lockId p1))
          else
            let history = history_of (m_lockHistory p1) prevId in
            if lockId \<in> set history
            then Some (Inr (push_stack t lockId (p1\<lparr>m_lockHistory := (m_lockHistory p1)(prevId \<mapsto> history)\<rparr>)))
            else
              let p2 = p1\<lparr>m_lockHistory := (m_lockHistory p1)(prevId \<mapsto> insort lockId history)\<rparr> in
              case CheckCycle (m_lockHistory p2) (length (m_nameToId p2)) of
                None \<Rightarrow> None
              | Some (Inl e) \<Rightarrow> Some (Inl e)
              | Some (Inr _) \<Rightarrow> Some (Inr (push_stack t lockId p2)))"

text \<open>The lookup of PopLock inserts the id 0 for a name the table does not have.\<close>

definition PopLock :: "nat \<Rightarrow> lock_name \<Rightarrow> dead_lock_profiler \<Rightarrow> dead_lock_profiler result" where
  "PopLock t name p =
     (case LLockStack p t of
        [] \<Rightarrow> Inl (Crash ''MULTIPLE_UNLOCK'')
      | topId # rest \<Rightarrow>
          let (lockId, p1) =
            (case map_of (m_nameToId p) name of
               None \<Rightarrow> (0, p\<lparr>m_nameToId := (name, 0) # m_nameToId p\<rparr>)
             | Some lockId \<Rightarrow> (lockId, p))
          in if topId \<noteq> lockId then Inl (Crash ''INVALID_UNLOCK'')
             else Inr (p1\<lparr>LLockStack := (LLockStack p1)(t := rest)\<rparr>))"

text \<open>Every thread calls the two from the lock operations, one call at a time under m_lock.\<close>

definition profiler_init :: "dead_lock_profiler \<Rightarrow> bool" where
  "profiler_init p \<longleftrightarrow> p = new_profiler"

inductive profiler_step :: "dead_lock_profiler \<Rightarrow> dead_lock_profiler \<Rightarrow> bool" where
  push: "PushLock t name p = Some (Inr p') \<Longrightarrow> profiler_step p p'"
| pop: "PopLock t name p = Inr p' \<Longrightarrow> profiler_step p p'"

end
