(* ===== verification/Dead_Lock_Safety.thy ===== *)
theory Dead_Lock_Safety
  imports Dead_Lock_Profiler
begin

text \<open>
  The deadlock profiler finds exactly the cycles: the invariant of the depth first search, its
  outcome against acyclicity of the recorded graph, and what that means for the threads.
\<close>

section \<open>The recorded graph\<close>

definition edges :: "lock_history \<Rightarrow> (nat \<times> nat) set" where
  "edges h = {(u, v). \<exists>ts. h u = Some ts \<and> v \<in> set ts}"

definition history_wf :: "lock_history \<Rightarrow> nat \<Rightarrow> bool" where
  "history_wf h N \<longleftrightarrow> (\<forall>u v. (u, v) \<in> edges h \<longrightarrow> u < N \<and> v < N \<and> v \<noteq> u)"

lemma edgesI: "h u = Some ts \<Longrightarrow> v \<in> set ts \<Longrightarrow> (u, v) \<in> edges h"
  by (auto simp: edges_def)

lemma edges_iff: "(u, v) \<in> edges h \<longleftrightarrow> v \<in> set (history_of h u)"
  by (cases "h u") (auto simp: edges_def history_of_def)

lemma history_wfD:
  assumes "history_wf h N" "(u, v) \<in> edges h"
  shows "u < N" "v < N" "v \<noteq> u"
  using assms by (auto simp: history_wf_def)

section \<open>The invariant of the search\<close>

definition seen :: "dfs_state \<Rightarrow> nat \<Rightarrow> bool" where
  "seen d u \<longleftrightarrow> m_discoveredOrder d ! u \<noteq> - 1"

definition fin :: "dfs_state \<Rightarrow> nat \<Rightarrow> bool" where
  "fin d u \<longleftrightarrow> m_finished d ! u"

definition unseen :: "nat \<Rightarrow> dfs_state \<Rightarrow> nat set" where
  "unseen N d = {u. u < N \<and> \<not> seen d u}"

lemma finite_unseen [simp]: "finite (unseen N d)"
  by (simp add: unseen_def)

definition sizes :: "nat \<Rightarrow> dfs_state \<Rightarrow> bool" where
  "sizes N d \<longleftrightarrow> length (m_discoveredOrder d) = N \<and> length (m_finished d) = N \<and> length (m_parent d) = N"

definition orders :: "nat \<Rightarrow> dfs_state \<Rightarrow> bool" where
  "orders N d \<longleftrightarrow> 0 \<le> m_discoveredCount d
     \<and> (\<forall>u<N. m_discoveredOrder d ! u < m_discoveredCount d)
     \<and> (\<forall>u<N. fin d u \<longrightarrow> seen d u)"

text \<open>The stack of nodes whose search is running: each is the parent of the one above it.\<close>

fun chain :: "lock_history \<Rightarrow> dfs_state \<Rightarrow> nat list \<Rightarrow> bool" where
  "chain h d [] \<longleftrightarrow> True"
| "chain h d [u] \<longleftrightarrow> True"
| "chain h d (u # w # us) \<longleftrightarrow> m_parent d ! u = int w \<and> (w, u) \<in> edges h
      \<and> m_discoveredOrder d ! w < m_discoveredOrder d ! u \<and> chain h d (w # us)"

definition black :: "lock_history \<Rightarrow> nat \<Rightarrow> dfs_state \<Rightarrow> bool" where
  "black h N d \<longleftrightarrow> (\<forall>u v. u < N \<longrightarrow> fin d u \<longrightarrow> (u, v) \<in> edges h \<longrightarrow> fin d v)
     \<and> acyclic {(u, v). (u, v) \<in> edges h \<and> u < N \<and> fin d u}"

definition dfs_inv :: "lock_history \<Rightarrow> nat \<Rightarrow> dfs_state \<Rightarrow> nat list \<Rightarrow> bool" where
  "dfs_inv h N d path \<longleftrightarrow> sizes N d \<and> orders N d
     \<and> set path = {u. u < N \<and> seen d u \<and> \<not> fin d u} \<and> chain h d path \<and> black h N d"

lemma dfs_invD:
  assumes "dfs_inv h N d path"
  shows "sizes N d" "orders N d" "u \<in> set path \<longleftrightarrow> u < N \<and> seen d u \<and> \<not> fin d u"
    "chain h d path" "black h N d"
  using assms by (auto simp: dfs_inv_def)

section \<open>Pieces of a step\<close>

lemma chain_tl: "chain h d (u # us) \<Longrightarrow> chain h d us"
  by (cases us) simp_all

lemma chain_le: "chain h d (u # us) \<Longrightarrow> w \<in> set us \<Longrightarrow> m_discoveredOrder d ! w < m_discoveredOrder d ! u"
proof (induction us arbitrary: u)
  case (Cons x us)
  then show ?case by (cases "w = x") force+
qed simp

lemma chain_cong:
  "chain h d path \<Longrightarrow> (\<And>u. u \<in> set path \<Longrightarrow> m_parent d' ! u = m_parent d ! u
      \<and> m_discoveredOrder d' ! u = m_discoveredOrder d ! u) \<Longrightarrow> chain h d' path"
  by (induction h d path rule: chain.induct) simp_all

lemma chain_reach:
  "chain h d (u # us) \<Longrightarrow> w \<in> set us \<Longrightarrow> (w, u) \<in> (edges h)\<^sup>+"
proof (induction us arbitrary: u)
  case (Cons x us)
  have step: "(x, u) \<in> edges h" using Cons.prems(1) by simp
  show ?case
  proof (cases "w = x")
    case False
    then have "(w, x) \<in> (edges h)\<^sup>+" using Cons by auto
    then show ?thesis using step by (rule trancl_into_trancl)
  qed (use step in auto)
qed simp

text \<open>The printed cycle ends at the target, within as many steps as the path has nodes.\<close>

lemma print_cycle_ends:
  assumes "chain h d (u # us)" and "w \<in> set us" and "\<forall>x\<in>set (u # us). x < N"
    and "length (m_parent d) = N" and "length us < n"
  shows "print_cycle n (m_parent d) (int u) (int w) = Some (Inr ())"
  using assms
proof (induction us arbitrary: u n)
  case (Cons x us)
  then obtain m where n: "n = Suc m" by (cases n) auto
  show ?case
  proof (cases "w = x")
    case True
    then show ?thesis using Cons.prems n by simp
  next
    case False
    then have "print_cycle m (m_parent d) (int x) (int w) = Some (Inr ())"
      using Cons.prems n by (intro Cons.IH) auto
    then show ?thesis using Cons.prems n False by simp
  qed
qed simp

lemma chain_distinct: "chain h d path \<Longrightarrow> distinct path"
proof (induction path)
  case (Cons u us)
  then show ?case using chain_le[OF Cons.prems] chain_tl[OF Cons.prems] by fastforce
qed simp

lemma acyclic_insert_source:
  assumes "acyclic R" and "\<And>v. (v, i) \<notin> R" and "i \<notin> B"
  shows "acyclic (R \<union> {i} \<times> B)"
proof (rule ccontr)
  assume "\<not> acyclic (R \<union> {i} \<times> B)"
  then obtain x where "(x, x) \<in> (R \<union> {i} \<times> B)\<^sup>+" by (auto simp: acyclic_def)
  moreover have "(x, y) \<in> R\<^sup>+ \<and> y \<noteq> i \<or> x = i \<and> y \<noteq> i" if "(x, y) \<in> (R \<union> {i} \<times> B)\<^sup>+" for x y
    using that
  proof (induction rule: trancl_induct)
    case (base y)
    then show ?case using assms by auto
  next
    case (step y z)
    then have "(y, z) \<in> R" by auto
    then have "z \<noteq> i" using assms(2) by auto
    then show ?case using step.IH \<open>(y, z) \<in> R\<close> by (auto intro: trancl_into_trancl)
  qed
  ultimately have "(x, x) \<in> R\<^sup>+" by blast
  then show False using assms(1) by (auto simp: acyclic_def)
qed

lemma discover_fields:
  "m_parent (discover i d) = m_parent d" "m_finished (discover i d) = m_finished d"
  "m_discoveredCount (discover i d) = m_discoveredCount d + 1"
  "fin (discover i d) = fin d"
  by (auto simp: discover_def fin_def)

lemma seen_discover:
  "sizes N d \<Longrightarrow> orders N d \<Longrightarrow> i < N \<Longrightarrow> seen (discover i d) u \<longleftrightarrow> u = i \<or> seen d u"
  by (auto simp: seen_def discover_def sizes_def orders_def nth_list_update)

lemma unseen_discover:
  "sizes N d \<Longrightarrow> orders N d \<Longrightarrow> i < N \<Longrightarrow> \<not> seen d i \<Longrightarrow>
     Suc (card (unseen N (discover i d))) = card (unseen N d)"
proof -
  assume a: "sizes N d" "orders N d" "i < N" "\<not> seen d i"
  have "unseen N d = insert i (unseen N (discover i d))" "i \<notin> unseen N (discover i d)"
    using a by (auto simp: unseen_def seen_discover)
  then show ?thesis by simp
qed

lemma discover_inv:
  assumes inv: "dfs_inv h N d path" and i: "i < N" "\<not> seen d i"
    and from_top: "path = [] \<or> m_parent d ! i = int (hd path) \<and> (hd path, i) \<in> edges h"
  shows "dfs_inv h N (discover i d) (i # path)"
proof -
  note D = dfs_invD[OF inv]
  have sz: "length (m_discoveredOrder d) = N" using D(1) by (simp add: sizes_def)
  have no: "i \<notin> set path" "\<not> fin d i" using D(2,3) i by (auto simp: orders_def)
  have ord: "m_discoveredOrder (discover i d) ! u = m_discoveredOrder d ! u" if "u \<noteq> i" for u
    using that by (simp add: discover_def)
  have top: "m_discoveredOrder (discover i d) ! i = m_discoveredCount d"
    using i sz by (simp add: discover_def)
  have ch: "chain h (discover i d) path"
  proof (rule chain_cong[OF D(4)])
    fix u assume "u \<in> set path"
    then have "u \<noteq> i" using no by blast
    then show "m_parent (discover i d) ! u = m_parent d ! u
        \<and> m_discoveredOrder (discover i d) ! u = m_discoveredOrder d ! u"
      using ord by (simp add: discover_fields)
  qed
  have "chain h (discover i d) (i # path)"
  proof (cases path)
    case (Cons w ws)
    have "w < N" "w \<noteq> i" using D(3)[of w] Cons no by auto
    then have "m_discoveredOrder (discover i d) ! w < m_discoveredCount d"
      using D(2) ord by (simp add: orders_def)
    then show ?thesis using ch Cons from_top top by (simp add: discover_fields)
  qed simp
  moreover have "orders N (discover i d)"
    unfolding orders_def
  proof (intro conjI allI impI)
    show "m_discoveredOrder (discover i d) ! u < m_discoveredCount (discover i d)" if "u < N" for u
      using that D(2) top ord[of u] by (cases "u = i") (auto simp: orders_def discover_fields intro: less_trans)
    show "seen (discover i d) u" if "u < N" "fin (discover i d) u" for u
      using that D(1,2) i by (simp add: seen_discover discover_fields) (auto simp: orders_def)
  qed (use D(2) in \<open>simp add: orders_def discover_fields\<close>)
  moreover have "black h N (discover i d)" using D(5) by (simp add: black_def discover_fields)
  moreover have "sizes N (discover i d)" using D(1) by (simp add: sizes_def discover_def)
  moreover have "set (i # path) = {u. u < N \<and> seen (discover i d) u \<and> \<not> fin (discover i d) u}"
    using D(3) i no by (auto simp: seen_discover[OF D(1,2)] discover_fields)
  ultimately show ?thesis by (simp add: dfs_inv_def)
qed

lemma finish_fields:
  "m_parent (finish i d) = m_parent d" "m_discoveredOrder (finish i d) = m_discoveredOrder d"
  "m_discoveredCount (finish i d) = m_discoveredCount d" "seen (finish i d) = seen d"
  "unseen N (finish i d) = unseen N d"
  by (auto simp: finish_def seen_def unseen_def)

lemma fin_finish: "sizes N d \<Longrightarrow> i < N \<Longrightarrow> fin (finish i d) u \<longleftrightarrow> u = i \<or> fin d u"
  by (auto simp: fin_def finish_def sizes_def nth_list_update)

lemma finish_inv:
  assumes inv: "dfs_inv h N d (i # path)" and wf: "history_wf h N"
    and next_: "\<And>v. (i, v) \<in> edges h \<Longrightarrow> fin d v"
  shows "dfs_inv h N (finish i d) path"
proof -
  note D = dfs_invD[OF inv]
  have i: "i < N" "seen d i" "\<not> fin d i" using D(3)[of i] by auto
  note fin' = fin_finish[OF D(1) i(1)]
  let ?R = "{(u, v). (u, v) \<in> edges h \<and> u < N \<and> fin d u}"
  have closed: "fin d v" if "(u, v) \<in> edges h" "fin d u" for u v
    using D(5) that history_wfD(1)[OF wf that(1)] unfolding black_def by blast
  have "acyclic (?R \<union> {i} \<times> {v. (i, v) \<in> edges h})"
  proof (rule acyclic_insert_source)
    show "acyclic ?R" using D(5) by (simp add: black_def)
    show "(v, i) \<notin> ?R" for v using closed i by blast
    show "i \<notin> {v. (i, v) \<in> edges h}" using history_wfD(3)[OF wf] by blast
  qed
  moreover have "{(u, v). (u, v) \<in> edges h \<and> u < N \<and> fin (finish i d) u} = ?R \<union> {i} \<times> {v. (i, v) \<in> edges h}"
    using i fin' by auto
  ultimately have "acyclic {(u, v). (u, v) \<in> edges h \<and> u < N \<and> fin (finish i d) u}" by simp
  moreover have "fin (finish i d) v" if "fin (finish i d) u" "(u, v) \<in> edges h" for u v
  proof (cases "u = i")
    case True
    then have "fin d v" using next_ that(2) by simp
    then show ?thesis by (simp add: fin')
  next
    case False
    then have "fin d v" using closed[OF that(2)] that(1) fin' by simp
    then show ?thesis by (simp add: fin')
  qed
  ultimately have "black h N (finish i d)" unfolding black_def by blast
  moreover have "chain h (finish i d) path"
    by (rule chain_cong[OF chain_tl[OF D(4)]]) (simp add: finish_fields)
  moreover have "set path = {u. u < N \<and> seen (finish i d) u \<and> \<not> fin (finish i d) u}"
    using D(3) chain_distinct[OF D(4)] fin' by (auto simp: finish_fields)
  moreover have "orders N (finish i d)"
    using D(2) fin' i by (auto simp: orders_def finish_fields)
  moreover have "sizes N (finish i d)" using D(1) by (simp add: sizes_def finish_def)
  ultimately show ?thesis by (simp add: dfs_inv_def)
qed

lemma set_parent_inv:
  assumes inv: "dfs_inv h N d path" and "\<not> seen d t"
  shows "dfs_inv h N (set_parent t i d) path"
    "seen (set_parent t i d) = seen d" "fin (set_parent t i d) = fin d"
    "unseen N (set_parent t i d) = unseen N d"
proof -
  note D = dfs_invD[OF inv]
  show f: "seen (set_parent t i d) = seen d" "fin (set_parent t i d) = fin d"
    "unseen N (set_parent t i d) = unseen N d"
    by (auto simp: set_parent_def seen_def fin_def unseen_def)
  have "t \<notin> set path" using D(3) assms(2) by simp
  then have "chain h (set_parent t i d) path"
    by (intro chain_cong[OF D(4)]) (simp add: set_parent_def, metis nth_list_update_neq)
  then show "dfs_inv h N (set_parent t i d) path"
    using D f by (auto simp: dfs_inv_def sizes_def orders_def black_def set_parent_def)
qed

section \<open>The search meets its specification\<close>

text \<open>
  What a call of Dfs promises about the state it starts in and the one it ends in; a call that
  crashes does so with the profiler's own cause, and then the graph has a cycle.
\<close>

definition dfs_post :: "lock_history \<Rightarrow> nat \<Rightarrow> nat list \<Rightarrow> dfs_state \<Rightarrow> nat \<Rightarrow> dfs_state result option \<Rightarrow> bool" where
  "dfs_post h N path d i r \<longleftrightarrow> (case r of
      None \<Rightarrow> False
    | Some (Inl e) \<Rightarrow> e = Crash ''DEADLOCK_DETECTED'' \<and> \<not> acyclic (edges h)
    | Some (Inr d') \<Rightarrow> dfs_inv h N d' path \<and> seen d' i
         \<and> (\<forall>u. seen d u \<longrightarrow> seen d' u) \<and> (\<forall>u<N. fin d u \<longrightarrow> fin d' u))"

lemma unseen_mono: "(\<forall>u. seen d u \<longrightarrow> seen d' u) \<Longrightarrow> card (unseen N d') \<le> card (unseen N d)"
  by (rule card_mono) (auto simp: unseen_def)

lemma Dfs_spec:
  "dfs_inv h N d path \<Longrightarrow> history_wf h N \<Longrightarrow> i < N \<Longrightarrow> card (unseen N d) < n
     \<Longrightarrow> \<not> seen d i \<longrightarrow> path = [] \<or> m_parent d ! i = int (hd path) \<and> (hd path, i) \<in> edges h
     \<Longrightarrow> dfs_post h N path d i (Dfs n h i d)"
  and Dfs_loop_spec:
  "dfs_inv h N d (i # path) \<Longrightarrow> history_wf h N \<Longrightarrow> card (unseen N d) < n
     \<Longrightarrow> set ts \<subseteq> {v. (i, v) \<in> edges h} \<Longrightarrow> (\<forall>v. (i, v) \<in> edges h \<longrightarrow> v \<in> set ts \<or> fin d v)
     \<Longrightarrow> dfs_post h N path d i (Dfs_loop n h i ts d)"
proof (induction n h i d and n h i ts d arbitrary: path and path rule: Dfs_Dfs_loop.induct)
  case (1 h i d)
  then show ?case by simp
next
  case (2 n h i d)
  note inv = "2.prems"(1) and wf = "2.prems"(2) and i = "2.prems"(3)
  note D = dfs_invD[OF inv]
  have len: "length (m_discoveredOrder d) = N" using D(1) by (simp add: sizes_def)
  show ?case
  proof (cases "seen d i")
    case True
    then show ?thesis using len i inv by (simp add: dfs_post_def seen_def)
  next
    case False
    then have new: "m_discoveredOrder d ! i = - 1" by (simp add: seen_def)
    let ?d = "discover i d"
    have inv': "dfs_inv h N ?d (i # path)"
      by (rule discover_inv[OF inv i False]) (use "2.prems"(5) False in blast)
    have grow: "\<forall>u. seen d u \<longrightarrow> seen ?d u" by (simp add: seen_discover[OF D(1,2) i])
    show ?thesis
    proof (cases "h i")
      case None
      then have "dfs_inv h N (finish i ?d) path"
        by (intro finish_inv[OF inv' wf]) (simp add: edges_def)
      then show ?thesis
        using new len i None grow seen_discover[OF D(1,2) i] fin_finish[OF dfs_invD(1)[OF inv'] i]
        by (simp add: dfs_post_def finish_fields discover_fields)
    next
      case (Some ts)
      have run: "Dfs (Suc n) h i d = Dfs_loop n h i ts ?d" using new len i Some by simp
      have "dfs_post h N path ?d i (Dfs_loop n h i ts ?d)"
      proof (rule "2.IH")
        show "card (unseen N ?d) < n"
          using unseen_discover[OF D(1,2) i False] "2.prems"(4) by simp
        show "set ts \<subseteq> {v. (i, v) \<in> edges h}" using Some by (auto intro: edgesI)
        show "\<forall>v. (i, v) \<in> edges h \<longrightarrow> v \<in> set ts \<or> fin ?d v" using Some by (auto simp: edges_def)
      qed (use new len i Some inv' wf in auto)
      then show ?thesis
        unfolding run using grow
        by (simp add: dfs_post_def discover_fields split: option.splits sum.splits)
    qed
  qed
next
  case (3 n h i d)
  have i: "i < N" "sizes N d" "seen d i" using dfs_invD(1,3)[OF "3.prems"(1)] by auto
  have "dfs_inv h N (finish i d) path"
    by (rule finish_inv[OF "3.prems"(1,2)]) (use "3.prems"(5) in auto)
  then show ?case
    using i(3) fin_finish[OF i(2,1)] by (simp add: dfs_post_def finish_fields)
next
  case (4 n h i t ts d)
  note inv = "4.prems"(1) and wf = "4.prems"(2)
  note D = dfs_invD[OF inv]
  have len: "length (m_discoveredOrder d) = N" using D(1) by (simp add: sizes_def)
  have e: "(i, t) \<in> edges h" using "4.prems"(4) by simp
  have t: "t < N" "i < N" "t \<noteq> i" using history_wfD[OF wf e] by auto
  show ?case
  proof (cases "seen d t")
    case False
    then have new: "m_discoveredOrder d ! t = - 1" by (simp add: seen_def)
    let ?d = "set_parent t i d"
    note P = set_parent_inv[OF inv False, of i]
    have post: "dfs_post h N (i # path) ?d t (Dfs n h t ?d)"
    proof (rule "4.IH"(1))
      show "\<not> seen ?d t \<longrightarrow> i # path = [] \<or> m_parent ?d ! t = int (hd (i # path)) \<and> (hd (i # path), t) \<in> edges h"
        using e t D(1) by (simp add: set_parent_def sizes_def)
    qed (use new len t P wf "4.prems"(3) in auto)
    show ?thesis
    proof (cases "Dfs n h t ?d")
      case None
      then show ?thesis using post by (simp add: dfs_post_def)
    next
      case (Some r)
      show ?thesis
      proof (cases r)
        case (Inl x)
        then show ?thesis using post Some new len t by (simp add: dfs_post_def)
      next
        case (Inr d')
        have q: "dfs_inv h N d' (i # path)" "seen d' t" "\<forall>u. seen d u \<longrightarrow> seen d' u" "\<forall>u<N. fin d u \<longrightarrow> fin d' u"
          using post Some Inr P by (auto simp: dfs_post_def)
        have "t \<notin> set (i # path)" using D(3)[of t] False by blast
        then have "fin d' t" using dfs_invD(3)[OF q(1)] q(2) t by blast
        then have "dfs_post h N path d' i (Dfs_loop n h i ts d')"
          using "4.prems" q history_wfD[OF wf] new len t Some Inr unseen_mono[OF q(3), of N]
          by (intro "4.IH"(2)) auto
        then show ?thesis
          using new len t Some Inr q by (auto simp: dfs_post_def split: option.splits sum.splits)
      qed
    qed
  next
    case True
    then have old: "m_discoveredOrder d ! t \<noteq> - 1" by (simp add: seen_def)
    show ?thesis
    proof (cases "m_discoveredOrder d ! i < m_discoveredOrder d ! t \<or> fin d t")
      case True
      have "fin d t"
      proof (rule ccontr)
        assume nf: "\<not> fin d t"
        then have "t \<in> set path" using D(3)[of t] \<open>seen d t\<close> t by auto
        then show False using chain_le[OF D(4)] True nf by fastforce
      qed
      have "dfs_post h N path d i (Dfs_loop n h i ts d)"
      proof (cases "m_discoveredOrder d ! i < m_discoveredOrder d ! t")
        case True
        then show ?thesis using "4.prems" old len t \<open>fin d t\<close> by (intro "4.IH"(3)) auto
      next
        case False
        then show ?thesis using "4.prems" old len t \<open>fin d t\<close> by (intro "4.IH"(4)) (auto simp: fin_def)
      qed
      then show ?thesis using True old len t by (auto simp: fin_def)
    next
      case False
      then have tp: "t \<in> set path" using D(3)[of t] \<open>seen d t\<close> t by auto
      have "length (i # path) \<le> N"
        using chain_distinct[OF D(4)] D(3) card_mono[of "{..<N}" "set (i # path)"]
        by (simp only: distinct_card[symmetric]) auto
      then have "print_cycle (Suc (length (m_parent d))) (m_parent d) (int i) (int t) = Some (Inr ())"
        using D(1,3) by (intro print_cycle_ends[OF D(4) tp]) (auto simp: sizes_def)
      moreover have "(t, t) \<in> (edges h)\<^sup>+"
        using chain_reach[OF D(4) tp] e by (rule trancl_into_trancl)
      then have "\<not> acyclic (edges h)" by (auto simp: acyclic_def)
      ultimately show ?thesis
        using False old len t by (simp add: dfs_post_def fin_def)
    qed
  qed
qed

lemma dfs_start_inv: "dfs_inv h N (dfs_start N) []"
proof -
  have "\<not> seen (dfs_start N) u \<and> \<not> fin (dfs_start N) u" if "u < N" for u
    using that by (simp add: dfs_start_def seen_def fin_def)
  moreover have "{(u, v). (u, v) \<in> edges h \<and> u < N \<and> fin (dfs_start N) u} = {}"
    using calculation by auto
  then have "acyclic {(u, v). (u, v) \<in> edges h \<and> u < N \<and> fin (dfs_start N) u}"
    by (simp only: acyclic_def) simp
  ultimately have "black h N (dfs_start N)" by (simp add: black_def)
  moreover have "sizes N (dfs_start N)" "orders N (dfs_start N)"
    using \<open>\<And>u. u < N \<Longrightarrow> \<not> seen (dfs_start N) u \<and> \<not> fin (dfs_start N) u\<close>
    by (simp_all add: sizes_def orders_def) (simp_all add: dfs_start_def)
  ultimately show ?thesis
    using \<open>\<And>u. u < N \<Longrightarrow> \<not> seen (dfs_start N) u \<and> \<not> fin (dfs_start N) u\<close>
    by (auto simp: dfs_inv_def)
qed

lemma CheckCycle_loop_spec:
  assumes "dfs_inv h N d []" and "history_wf h N" and "\<forall>i\<in>set is. i < N"
  shows "case CheckCycle_loop (Suc N) h is d of
      None \<Rightarrow> False
    | Some (Inl e) \<Rightarrow> e = Crash ''DEADLOCK_DETECTED'' \<and> \<not> acyclic (edges h)
    | Some (Inr d') \<Rightarrow> dfs_inv h N d' [] \<and> (\<forall>i\<in>set is. seen d' i) \<and> (\<forall>u. seen d u \<longrightarrow> seen d' u)"
  using assms
proof (induction "is" arbitrary: d)
  case (Cons i "is")
  have "card (unseen N d) \<le> card {..<N}" by (rule card_mono) (auto simp: unseen_def)
  then have post: "dfs_post h N [] d i (Dfs (Suc N) h i d)"
    using Cons.prems by (intro Dfs_spec) auto
  show ?case
  proof (cases "Dfs (Suc N) h i d")
    case None
    then show ?thesis using post by (simp add: dfs_post_def)
  next
    case (Some r)
    show ?thesis
    proof (cases r)
      case (Inl e)
      then show ?thesis using post Some by (simp add: dfs_post_def del: Dfs.simps)
    next
      case (Inr d')
      have q: "dfs_inv h N d' []" "seen d' i" "\<forall>u. seen d u \<longrightarrow> seen d' u"
        using post Some Inr by (auto simp: dfs_post_def)
      show ?thesis
        using Cons.IH[OF q(1)] Cons.prems q Some Inr
        by (auto simp del: Dfs.simps split: option.splits sum.splits)
    qed
  qed
qed simp

lemma CheckCycle_acyclic:
  assumes wf: "history_wf h N"
  shows "CheckCycle h N =
    Some (if acyclic (edges h) then Inr () else Inl (Crash ''DEADLOCK_DETECTED''))"
proof -
  note spec = CheckCycle_loop_spec[OF dfs_start_inv wf, of "[0..<N]"]
  show ?thesis
  proof (cases "CheckCycle_loop (Suc N) h [0..<N] (dfs_start N)")
    case None
    then show ?thesis using spec by simp
  next
    case (Some r)
    show ?thesis
    proof (cases r)
      case (Inl e)
      then show ?thesis using Some spec by (simp add: CheckCycle_def)
    next
      case (Inr d')
      then have inv: "dfs_inv h N d' []" and all: "\<forall>i<N. seen d' i" using Some spec by auto
      then have "fin d' u" if "u < N" for u using dfs_invD(3)[OF inv, of u] that by simp
      then have "{(u, v). (u, v) \<in> edges h \<and> u < N \<and> fin d' u} = edges h"
        using history_wfD(1)[OF wf] by auto
      then have "acyclic (edges h)" using dfs_invD(5)[OF inv] by (simp add: black_def)
      then show ?thesis using Some Inr by (simp add: CheckCycle_def)
    qed
  qed
qed

section \<open>The invariant of the profiler\<close>

text \<open>Below the top of a stack, every lock was recorded as taken before the one above it.\<close>

fun stack_ok :: "(nat \<times> nat) set \<Rightarrow> nat list \<Rightarrow> bool" where
  "stack_ok E [] \<longleftrightarrow> True"
| "stack_ok E [a] \<longleftrightarrow> True"
| "stack_ok E (b # a # xs) \<longleftrightarrow> (a = b \<or> (a, b) \<in> E) \<and> stack_ok E (a # xs)"

definition prof_inv :: "dead_lock_profiler \<Rightarrow> bool" where
  "prof_inv p \<longleftrightarrow> history_wf (m_lockHistory p) (length (m_nameToId p))
     \<and> acyclic (edges (m_lockHistory p))
     \<and> (\<forall>n i. map_of (m_nameToId p) n = Some i \<longrightarrow> i < length (m_nameToId p))
     \<and> (\<forall>t. \<forall>i\<in>set (LLockStack p t). i < length (m_nameToId p))
     \<and> (\<forall>t. stack_ok (edges (m_lockHistory p)) (LLockStack p t))"

lemma prof_invD:
  assumes "prof_inv p"
  shows "history_wf (m_lockHistory p) (length (m_nameToId p))" "acyclic (edges (m_lockHistory p))"
    "map_of (m_nameToId p) n = Some i \<Longrightarrow> i < length (m_nameToId p)"
    "i \<in> set (LLockStack p t) \<Longrightarrow> i < length (m_nameToId p)"
    "stack_ok (edges (m_lockHistory p)) (LLockStack p t)"
  using assms unfolding prof_inv_def by blast+

lemma stack_ok_tl: "stack_ok E (b # xs) \<Longrightarrow> stack_ok E xs"
  by (cases xs) simp_all

lemma stack_ok_mono: "stack_ok E xs \<Longrightarrow> E \<subseteq> F \<Longrightarrow> stack_ok F xs"
  by (induction E xs rule: stack_ok.induct) auto

lemma stack_ok_reach: "stack_ok E (b # xs) \<Longrightarrow> a \<in> set xs \<Longrightarrow> (a, b) \<in> E\<^sup>*"
proof (induction xs arbitrary: b)
  case (Cons x xs)
  have step: "(x, b) \<in> E\<^sup>*" using Cons.prems(1) by auto
  have "(a, x) \<in> E\<^sup>*" using Cons by (cases "a = x") auto
  then show ?case using step by (rule rtrancl_trans)
qed simp

lemma history_wf_mono: "history_wf h N \<Longrightarrow> N \<le> M \<Longrightarrow> history_wf h M"
  by (fastforce simp: history_wf_def)

lemma find_or_issue_inv:
  assumes inv: "prof_inv p" and eq: "find_or_issue name p = (i, q)"
  shows "prof_inv q" "i < length (m_nameToId q)" "LLockStack q = LLockStack p"
    "m_lockHistory q = m_lockHistory p"
proof -
  note D = prof_invD[OF inv]
  have "prof_inv q \<and> i < length (m_nameToId q) \<and> LLockStack q = LLockStack p
      \<and> m_lockHistory q = m_lockHistory p"
  proof (cases "map_of (m_nameToId p) name")
    case None
    then have q: "q = p\<lparr>m_nameToId := (name, i) # m_nameToId p, m_idToName := (i, name) # m_idToName p\<rparr>"
        "i = length (m_nameToId p)"
      using eq by (auto simp: find_or_issue_def Let_def)
    show ?thesis
      using D history_wf_mono[OF D(1), of "Suc (length (m_nameToId p))"]
      by (auto simp: prof_inv_def q less_SucI split: if_splits)
  next
    case (Some j)
    then show ?thesis using eq inv D(3)[OF Some] by (auto simp: find_or_issue_def)
  qed
  then show "prof_inv q" "i < length (m_nameToId q)" "LLockStack q = LLockStack p"
    "m_lockHistory q = m_lockHistory p" by blast+
qed

lemma edges_insort: "edges (h(u \<mapsto> insort v (history_of h u))) = insert (u, v) (edges h)"
  by (auto simp: edges_iff history_of_def set_insort_key split: if_splits)

lemma edges_same: "edges (h(u \<mapsto> history_of h u)) = edges h"
  by (auto simp: edges_iff history_of_def split: if_splits)

section \<open>PushLock and PopLock keep the invariant\<close>

lemma push_stack_inv:
  assumes inv: "prof_inv p" and i: "i < length (m_nameToId p)"
    and below: "LLockStack p t = [] \<or> hd (LLockStack p t) = i \<or> (hd (LLockStack p t), i) \<in> edges (m_lockHistory p)"
  shows "prof_inv (push_stack t i p)"
proof -
  note D = prof_invD[OF inv]
  have "stack_ok (edges (m_lockHistory p)) (i # LLockStack p t)"
    using D(5)[of t] below by (cases "LLockStack p t") auto
  then show ?thesis using D i by (auto simp: prof_inv_def push_stack_def)
qed

lemma history_change_inv:
  assumes inv: "prof_inv p" and wf: "history_wf h (length (m_nameToId p))"
    and "acyclic (edges h)" and "edges (m_lockHistory p) \<subseteq> edges h"
  shows "prof_inv (p\<lparr>m_lockHistory := h\<rparr>)"
  using assms prof_invD[OF inv] stack_ok_mono[OF prof_invD(5)[OF inv] assms(4)]
  by (auto simp: prof_inv_def)

text \<open>The edge a call of PushLock would add, when it adds one.\<close>

definition new_edge :: "nat \<Rightarrow> lock_name \<Rightarrow> dead_lock_profiler \<Rightarrow> (nat \<times> nat) option" where
  "new_edge t name p =
     (let i = fst (find_or_issue name p) in
      case LLockStack p t of
        [] \<Rightarrow> None
      | prev # _ \<Rightarrow> if i = prev \<or> (prev, i) \<in> edges (m_lockHistory p) then None else Some (prev, i))"

lemma PushLock_outcome:
  assumes inv: "prof_inv p"
  shows "case new_edge t name p of
      None \<Rightarrow> \<exists>p'. PushLock t name p = Some (Inr p') \<and> prof_inv p' \<and> edges (m_lockHistory p') = edges (m_lockHistory p)
    | Some e \<Rightarrow>
        if acyclic (insert e (edges (m_lockHistory p)))
        then \<exists>p'. PushLock t name p = Some (Inr p') \<and> prof_inv p'
               \<and> edges (m_lockHistory p') = insert e (edges (m_lockHistory p))
        else PushLock t name p = Some (Inl (Crash ''DEADLOCK_DETECTED''))"
proof -
  obtain i q where f: "find_or_issue name p = (i, q)" by (cases "find_or_issue name p")
  note F = find_or_issue_inv[OF inv f]
  note D = prof_invD[OF F(1)]
  show ?thesis
  proof (cases "LLockStack p t")
    case Nil
    have "prof_inv (push_stack t i q)" using Nil F by (intro push_stack_inv) auto
    then show ?thesis using Nil f F by (simp add: new_edge_def PushLock_def) (simp add: push_stack_def)
  next
    case (Cons prev rest)
    show ?thesis
    proof (cases "i = prev")
      case True
      have "prof_inv (push_stack t i q)" using Cons True F by (intro push_stack_inv) auto
      then show ?thesis
        using Cons f F True by (simp add: new_edge_def PushLock_def) (simp add: push_stack_def)
    next
      case False
      let ?h = "m_lockHistory q"
      have prev: "prev < length (m_nameToId q)" using D(4)[of prev t] Cons F by simp
      show ?thesis
      proof (cases "(prev, i) \<in> edges ?h")
        case True
        let ?q = "q\<lparr>m_lockHistory := ?h(prev \<mapsto> history_of ?h prev)\<rparr>"
        have "prof_inv ?q"
          using D(1,2) by (intro history_change_inv[OF F(1)]) (simp_all add: edges_same history_wf_def)
        then have "prof_inv (push_stack t i ?q)"
          using F True Cons by (intro push_stack_inv) (simp_all add: edges_same)
        moreover have "PushLock t name p = Some (Inr (push_stack t i ?q))"
          using Cons f F False True by (simp add: PushLock_def edges_iff Let_def)
        moreover have "edges (m_lockHistory (push_stack t i ?q)) = edges (m_lockHistory p)"
          using F by (simp add: push_stack_def edges_same)
        moreover have "new_edge t name p = None" using Cons f F True by (simp add: new_edge_def)
        ultimately show ?thesis by simp
      next
        case new: False
        let ?h' = "?h(prev \<mapsto> insort i (history_of ?h prev))"
        let ?q = "q\<lparr>m_lockHistory := ?h'\<rparr>"
        have wf: "history_wf ?h' (length (m_nameToId q))"
          using D(1) F(2) prev False by (auto simp: history_wf_def edges_insort)
        have edge: "new_edge t name p = Some (prev, i)"
          using Cons f F False new by (simp add: new_edge_def)
        have run: "PushLock t name p =
            (if acyclic (edges ?h') then Some (Inr (push_stack t i ?q)) else Some (Inl (Crash ''DEADLOCK_DETECTED'')))"
          using Cons f F False new CheckCycle_acyclic[OF wf] by (simp add: PushLock_def edges_iff Let_def)
        have ok: "prof_inv (push_stack t i ?q)" if "acyclic (edges ?h')"
        proof (rule push_stack_inv)
          show "prof_inv ?q"
            by (rule history_change_inv[OF F(1) wf that]) (auto simp: edges_insort)
        qed (use F Cons in \<open>auto simp: edges_insort\<close>)
        show ?thesis
          using run edge ok F by (simp add: edges_insort push_stack_def)
      qed
    qed
  qed
qed

lemma PopLock_inv:
  assumes inv: "prof_inv p" and run: "PopLock t name p = Inr p'"
  shows "prof_inv p'"
proof -
  note D = prof_invD[OF inv]
  obtain i rest where st: "LLockStack p t = i # rest" using run by (auto simp: PopLock_def split: list.splits)
  have rest: "stack_ok (edges (m_lockHistory p)) rest" using D(5)[of t] st by (simp add: stack_ok_tl)
  show ?thesis
  proof (cases "map_of (m_nameToId p) name")
    case None
    then have p': "p' = p\<lparr>m_nameToId := (name, 0) # m_nameToId p, LLockStack := (LLockStack p)(t := rest)\<rparr>"
      using run st by (simp add: PopLock_def split: if_splits)
    show ?thesis
      using D rest st history_wf_mono[OF D(1), of "Suc (length (m_nameToId p))"] D(4)[of _ t]
      by (auto simp: prof_inv_def p' less_SucI split: if_splits)
  next
    case (Some j)
    then have p': "p' = p\<lparr>LLockStack := (LLockStack p)(t := rest)\<rparr>"
      using run st by (simp add: PopLock_def split: if_splits)
    show ?thesis using D rest st D(4)[of _ t] by (auto simp: prof_inv_def p')
  qed
qed

lemma profiler_init_inv: "profiler_init p \<Longrightarrow> prof_inv p"
  by (simp add: profiler_init_def new_profiler_def prof_inv_def history_wf_def edges_def acyclic_def)

lemma profiler_step_inv: "prof_inv p \<Longrightarrow> profiler_step p p' \<Longrightarrow> prof_inv p'"
proof (erule profiler_step.cases)
  fix t name q q'
  assume "prof_inv p" "p = q" "p' = q'" "PushLock t name q = Some (Inr q')"
  then show "prof_inv p'"
    using PushLock_outcome[of q t name] by (auto split: option.splits if_splits)
qed (use PopLock_inv in blast)

interpretation profiler_machine: invariant_system profiler_init profiler_step prof_inv
  by unfold_locales (fact profiler_init_inv, fact profiler_step_inv)

section \<open>Properties\<close>

abbreviation two_locks :: lock_history where
  "two_locks \<equiv> [0 \<mapsto> [1], 1 \<mapsto> [0]]"

text \<open>C19: CheckCycle decides acyclicity. For a recorded graph over the issued ids without self
  edges, CheckCycle always returns, with DEADLOCK_DETECTED exactly when the graph has a cycle;
  neither the recursion of Dfs nor the loop that prints the cycle can run for ever or leave its
  arrays.\<close>

theorem CheckCycle_correct:
  assumes "history_wf h lockCount"
  shows "CheckCycle h lockCount =
    Some (if acyclic (edges h) then Inr () else Inl (Crash ''DEADLOCK_DETECTED''))"
  using assms by (rule CheckCycle_acyclic)

theorem CheckCycle_correct_witness:
  "CheckCycle two_locks 2 = Some (Inl (Crash ''DEADLOCK_DETECTED''))"
proof -
  have "history_wf two_locks 2" by (auto simp: history_wf_def edges_def split: if_splits)
  moreover have "(0, 0) \<in> (edges two_locks)\<^sup>+"
    by (rule trancl_into_trancl[OF r_into_trancl, of 0 1]) (simp_all add: edges_def)
  then have "\<not> acyclic (edges two_locks)" by (auto simp: acyclic_def)
  ultimately show ?thesis using CheckCycle_correct[of two_locks 2] by simp
qed

text \<open>Thread 1 takes 7 and then 8, gives both back, and takes 8 again.\<close>

abbreviation prof_at :: "lock_history \<Rightarrow> nat list \<Rightarrow> dead_lock_profiler" where
  "prof_at h st \<equiv> \<lparr>m_nameToId = [(8, 1), (7, 0)], m_idToName = [(1, 8), (0, 7)], m_lockHistory = h,
     LLockStack = (\<lambda>_. [])(1 := st)\<rparr>"

abbreviation after_7_8 :: dead_lock_profiler where
  "after_7_8 \<equiv> prof_at [0 \<mapsto> [1]] [1]"

lemma run_7: "reach profiler_init profiler_step
    \<lparr>m_nameToId = [(7, 0)], m_idToName = [(0, 7)], m_lockHistory = Map.empty, LLockStack = (\<lambda>_. [])(1 := [0])\<rparr>"
  by (rule reach_step[OF reach_init, of _ new_profiler], simp add: profiler_init_def, rule push[of 1 7])
    (simp add: PushLock_def find_or_issue_def new_profiler_def push_stack_def)

lemma check_one_edge: "CheckCycle [0 \<mapsto> [1]] 2 = Some (Inr ())"
proof -
  have "edges [0 \<mapsto> [1]] = {(0, 1)}" by (auto simp: edges_def split: if_splits)
  then show ?thesis
    using CheckCycle_acyclic[of "[0 \<mapsto> [1]]" 2] by (simp add: history_wf_def acyclic_def trancl_insert)
qed

lemma run_7_8: "reach profiler_init profiler_step after_7_8"
proof -
  have a: "reach profiler_init profiler_step (prof_at [0 \<mapsto> [1]] [1, 0])"
    by (rule reach_step[OF run_7], rule push[of 1 8])
      (simp add: PushLock_def find_or_issue_def push_stack_def history_of_def Let_def check_one_edge[simplified] numeral_2_eq_2[symmetric])
  have b: "reach profiler_init profiler_step (prof_at [0 \<mapsto> [1]] [0])"
    by (rule reach_step[OF a], rule pop[of 1 8]) (simp add: PopLock_def)
  have c: "reach profiler_init profiler_step (prof_at [0 \<mapsto> [1]] [])"
    by (rule reach_step[OF b], rule pop[of 1 7]) (simp add: PopLock_def)
  show ?thesis
    by (rule reach_step[OF c], rule push[of 1 8])
      (simp add: PushLock_def find_or_issue_def push_stack_def)
qed

text \<open>PushLock crashes exactly on an inversion. In every reachable state of the profiler a
  call of PushLock returns; it crashes, with DEADLOCK_DETECTED, exactly when the calling thread's
  last lock and the new one make an edge that closes a cycle with the orders recorded so far.\<close>

theorem PushLock_inversion:
  assumes "reach profiler_init profiler_step p"
  shows "(\<exists>r. PushLock t name p = Some r
      \<and> ((\<exists>c. r = Inl c) \<longleftrightarrow>
           (\<exists>a b. new_edge t name p = Some (a, b) \<and> (b, a) \<in> (edges (m_lockHistory p))\<^sup>*))
      \<and> (\<forall>c. r = Inl c \<longrightarrow> c = Crash ''DEADLOCK_DETECTED''))"
proof -
  have inv: "prof_inv p" by (rule profiler_machine.reach_inv[OF assms])
  note ac = prof_invD(2)[OF inv]
  show ?thesis
    using PushLock_outcome[OF inv, of t name] ac
    by (cases "new_edge t name p") (auto simp: acyclic_insert split: if_splits)
qed

theorem PushLock_inversion_witness:
  "PushLock 1 7 after_7_8 = Some (Inl (Crash ''DEADLOCK_DETECTED''))"
proof -
  have "(0, 1) \<in> (edges (m_lockHistory after_7_8))\<^sup>*" by (simp add: edges_def r_into_rtrancl)
  moreover have "new_edge 1 7 after_7_8 = Some (1, 0)"
    by (simp add: new_edge_def find_or_issue_def edges_def)
  ultimately show ?thesis using PushLock_inversion[OF run_7_8, of 1 7] by auto
qed

text \<open>C20: No circular wait under the profiler. Say lock a is held before lock b when some thread
  has b on top of its stack (it holds b, or waits for it, because PushLock runs before the lock is
  taken) and a below it. As long as the profiler has not crashed, this relation on lock names has
  no cycle, whatever the threads and the order of their calls.\<close>

theorem no_circular_wait:
  assumes "reach profiler_init profiler_step p"
  shows "acyclic {(a, b). \<exists>t xs. LLockStack p t = b # xs \<and> a \<in> set xs \<and> a \<noteq> b}"
proof -
  have inv: "prof_inv p" by (rule profiler_machine.reach_inv[OF assms])
  have "{(a, b). \<exists>t xs. LLockStack p t = b # xs \<and> a \<in> set xs \<and> a \<noteq> b} \<subseteq> (edges (m_lockHistory p))\<^sup>+"
  proof clarify
    fix a b t xs assume "LLockStack p t = b # xs" "a \<in> set xs" "a \<noteq> b"
    then show "(a, b) \<in> (edges (m_lockHistory p))\<^sup>+"
      using stack_ok_reach[of _ b xs a] prof_invD(5)[OF inv, of t] by (auto simp: rtrancl_eq_or_trancl)
  qed
  moreover have "acyclic ((edges (m_lockHistory p))\<^sup>+)"
    using prof_invD(2)[OF inv] by (simp add: acyclic_def)
  ultimately show ?thesis by (rule acyclic_subset[rotated])
qed

theorem no_circular_wait_witness:
  "acyclic {(a, b). \<exists>t xs. LLockStack after_7_8 t = b # xs \<and> a \<in> set xs \<and> a \<noteq> b}"
  by (rule no_circular_wait[OF run_7_8])

end
