(* ===== verification/Lock_Queue.thy ===== *)
theory Lock_Queue
  imports Server_Base
begin

text \<open>
  The locked queue (ServerCore/LockQueue.h) and the global queue built on it
  (ServerCore/GlobalQueue.h, GlobalQueue.cpp). The element type T of the template is a shared
  pointer, so an element is an option: None is T(), the null pointer. Every operation holds the
  write lock from its first to its last statement (PopAll takes it again in Pop, which the lock
  allows its owner), so it is one step for the other threads.
\<close>

section \<open>The contract of a queue\<close>

locale fifo =
  fixes empty :: 'q and push :: "'a option \<Rightarrow> 'q \<Rightarrow> 'q" and pop :: "'q \<Rightarrow> 'a option \<times> 'q"
    and content :: "'q \<Rightarrow> 'a option list"
  assumes content_empty: "content empty = []"
    and content_push: "content (push x q) = content q @ [x]"
    and pop_empty: "content q = [] \<Longrightarrow> pop q = (None, q)"
    and pop_first: "content q = x # xs \<Longrightarrow> fst (pop q) = x \<and> content (snd (pop q)) = xs"
begin

lemma content_pushes: "content (fold push xs q) = content q @ xs"
  by (induction xs arbitrary: q) (simp_all add: content_push)

text \<open>As many pops as pushes give the pushed elements back in their order.\<close>

lemma pops_pushes:
  "content q = xs \<Longrightarrow> map (\<lambda>n. fst (pop (((snd \<circ> pop) ^^ n) q))) [0..<length xs] = xs"
proof (induction xs arbitrary: q)
  case (Cons x xs)
  have first: "fst (pop q) = x" "content (snd (pop q)) = xs" using pop_first[OF Cons.prems] by auto
  have "map (\<lambda>n. fst (pop (((snd \<circ> pop) ^^ n) q))) [0..<length (x # xs)]
      = fst (pop q) # map (\<lambda>n. fst (pop (((snd \<circ> pop) ^^ Suc n) q))) [0..<length xs]"
    by (simp add: upt_conv_Cons map_Suc_upt[symmetric] del: upt_Suc funpow.simps)
  also have "\<dots> = x # xs"
    using Cons.IH[OF first(2)] first(1) by (simp add: funpow_Suc_right comp_def del: funpow.simps)
  finally show ?case .
qed simp

end

section \<open>LockQueue\<close>

record 'a lock_queue =
  m_items :: "'a option list"

definition new_lock_queue :: "'a lock_queue" where
  "new_lock_queue = \<lparr>m_items = []\<rparr>"

definition LockQueue_Push :: "'a option \<Rightarrow> 'a lock_queue \<Rightarrow> 'a lock_queue" where
  "LockQueue_Push item q = q\<lparr>m_items := m_items q @ [item]\<rparr>"

definition LockQueue_Pop :: "'a lock_queue \<Rightarrow> 'a option \<times> 'a lock_queue" where
  "LockQueue_Pop q =
     (case m_items q of
        [] \<Rightarrow> (None, q)
      | ret # rest \<Rightarrow> (ret, q\<lparr>m_items := rest\<rparr>))"

text \<open>The loop of PopAll ends at the first null, whether it is an element or the empty queue's.\<close>

function LockQueue_PopAll :: "'a lock_queue \<Rightarrow> 'a list \<times> 'a lock_queue" where
  "LockQueue_PopAll q =
     (case LockQueue_Pop q of
        (None, q') \<Rightarrow> ([], q')
      | (Some item, q') \<Rightarrow> (let (items, q'') = LockQueue_PopAll q' in (item # items, q'')))"
  by pat_completeness auto
termination
  by (relation "measure (\<lambda>q. length (m_items q))")
    (auto simp: LockQueue_Pop_def split: list.splits)

declare LockQueue_PopAll.simps [simp del]

definition LockQueue_Clear :: "'a lock_queue \<Rightarrow> 'a lock_queue" where
  "LockQueue_Clear q = new_lock_queue"

interpretation lq: fifo new_lock_queue LockQueue_Push LockQueue_Pop m_items
  by unfold_locales (auto simp: new_lock_queue_def LockQueue_Push_def LockQueue_Pop_def)

lemma Pop_cons: "m_items q = x # xs \<Longrightarrow> LockQueue_Pop q = (x, q\<lparr>m_items := xs\<rparr>)"
  by (simp add: LockQueue_Pop_def)

text \<open>What PopAll takes and what it leaves.\<close>

lemma PopAll_items:
  "LockQueue_PopAll q =
     (map the (takeWhile (\<lambda>x. x \<noteq> None) (m_items q)),
      q\<lparr>m_items := tl (dropWhile (\<lambda>x. x \<noteq> None) (m_items q))\<rparr>)"
proof (induction q rule: LockQueue_PopAll.induct)
  case (1 q)
  show ?case
  proof (cases "m_items q")
    case Nil
    then show ?thesis by (subst LockQueue_PopAll.simps) (simp add: LockQueue_Pop_def)
  next
    case (Cons x xs)
    then show ?thesis
      using "1.IH"[OF Pop_cons[OF Cons, symmetric]]
      by (subst LockQueue_PopAll.simps) (cases x; simp add: Pop_cons)
  qed
qed

lemma PopAll_all_Some:
  "m_items q = map Some xs \<Longrightarrow> LockQueue_PopAll q = (xs, q\<lparr>m_items := []\<rparr>)"
proof -
  assume q: "m_items q = map Some xs"
  have all: "takeWhile (\<lambda>x. x \<noteq> None) (map Some xs) = map Some xs"
      "dropWhile (\<lambda>x. x \<noteq> None) (map Some xs) = []"
    by (induction xs) auto
  show "LockQueue_PopAll q = (xs, q\<lparr>m_items := []\<rparr>)"
    unfolding PopAll_items q all by (simp add: comp_def)
qed

section \<open>GlobalQueue\<close>

record global_queue =
  m_jobQueues :: "nat lock_queue"

definition GlobalQueue_Push :: "nat \<Rightarrow> global_queue \<Rightarrow> global_queue" where
  "GlobalQueue_Push jobQueue g = g\<lparr>m_jobQueues := LockQueue_Push (Some jobQueue) (m_jobQueues g)\<rparr>"

definition GlobalQueue_Pop :: "global_queue \<Rightarrow> nat option \<times> global_queue" where
  "GlobalQueue_Pop g = (let (r, q) = LockQueue_Pop (m_jobQueues g) in (r, g\<lparr>m_jobQueues := q\<rparr>))"

section \<open>Properties\<close>

text \<open>A LockQueue is first in, first out. After any pushes into an empty queue, as many pops
  return exactly the pushed elements in their order.\<close>

theorem LockQueue_fifo:
  "map (\<lambda>n. fst (LockQueue_Pop (((snd \<circ> LockQueue_Pop) ^^ n) (fold LockQueue_Push xs new_lock_queue)))) [0..<length xs] = xs"
  by (rule lq.pops_pushes) (simp add: lq.content_pushes lq.content_empty)

text \<open>PopAll of a queue without null elements takes every element in order and leaves the
  queue empty; a null element ends it early, and is itself removed and lost.\<close>

theorem PopAll_takes:
  "LockQueue_PopAll (fold LockQueue_Push (map Some xs) new_lock_queue) = (xs, new_lock_queue)
   \<and> LockQueue_PopAll (fold LockQueue_Push (map Some xs @ None # ys) new_lock_queue)
       = (xs, \<lparr>m_items = ys\<rparr>)"
proof
  show "LockQueue_PopAll (fold LockQueue_Push (map Some xs) new_lock_queue) = (xs, new_lock_queue)"
    using PopAll_all_Some[of "fold LockQueue_Push (map Some xs) new_lock_queue" xs]
    by (simp add: lq.content_pushes lq.content_empty new_lock_queue_def)
  have stop: "takeWhile (\<lambda>x. x \<noteq> None) (map Some xs @ None # ys) = map Some xs"
      "dropWhile (\<lambda>x. x \<noteq> None) (map Some xs @ None # ys) = None # ys"
    by (induction xs) auto
  show "LockQueue_PopAll (fold LockQueue_Push (map Some xs @ None # ys) new_lock_queue)
      = (xs, \<lparr>m_items = ys\<rparr>)"
    unfolding PopAll_items lq.content_pushes lq.content_empty append_Nil stop
    by (simp add: comp_def)
qed

end
