(* ===== verification/Job_Queue.thy ===== *)
theory Job_Queue
  imports Lock_Queue
begin

text \<open>
  Job queues (ServerCore/JobQueue.h, JobQueue.cpp) and the worker threads that run them
  (ThreadManager::DoGlobalQueueWork). Push and Execute are cut into the steps other threads can
  see: each atomic access of the job counter, each operation of a locked queue and each job is a
  step, and any number of threads interleave. A job is a value of any type; what it does to the
  queues is to call Push again, which a thread may do between the jobs it runs. The counter and the number
  of jobs Execute took are int32 as in the code: words of 32 bits, read as signed numbers where the code
  compares their order, and an atomic addition or subtraction wraps around. The fields executed, pushed
  and leaked only record what happened and are read by no operation.
\<close>

section \<open>State\<close>

type_synonym i32 = "32 word"

record 'j job_queue =
  m_jobs :: "'j lock_queue"
  m_jobCount :: i32

text \<open>Where a thread is in Push, and where it is in Execute.\<close>

datatype 'j push_pc =
    P_None
  | P_Add (pq: nat) 'j bool
  | P_Queue (pq: nat) 'j i32 bool
  | P_Decide (pq: nat) bool

datatype 'j exec_pc =
    X_None
  | X_Pop nat
  | X_Run nat "'j list" i32
  | X_Tick nat
  | X_Requeue nat

record 'j job_sys =
  queues :: "nat \<Rightarrow> 'j job_queue"
  GGlobalQueue :: global_queue
  push_at :: "u32 \<Rightarrow> 'j push_pc"
  exec_at :: "u32 \<Rightarrow> 'j exec_pc"
  LCurrentJobQueue :: "u32 \<Rightarrow> nat option"
  executed :: "nat \<Rightarrow> 'j list"
  pushed :: "nat \<Rightarrow> 'j list"
  leaked :: "nat \<Rightarrow> nat"

definition new_job_queue :: "'j job_queue" where
  "new_job_queue = \<lparr>m_jobs = new_lock_queue, m_jobCount = 0\<rparr>"

definition job_init :: "'j job_sys \<Rightarrow> bool" where
  "job_init s \<longleftrightarrow> s = \<lparr>queues = (\<lambda>_. new_job_queue), GGlobalQueue = \<lparr>m_jobQueues = new_lock_queue\<rparr>,
     push_at = (\<lambda>_. P_None), exec_at = (\<lambda>_. X_None), LCurrentJobQueue = (\<lambda>_. None),
     executed = (\<lambda>_. []), pushed = (\<lambda>_. []), leaked = (\<lambda>_. 0)\<rparr>"

definition upd_queue :: "nat \<Rightarrow> ('j job_queue \<Rightarrow> 'j job_queue) \<Rightarrow> 'j job_sys \<Rightarrow> 'j job_sys" where
  "upd_queue q f s = s\<lparr>queues := (queues s)(q := f (queues s q))\<rparr>"

definition to_push :: "u32 \<Rightarrow> 'j push_pc \<Rightarrow> 'j job_sys \<Rightarrow> 'j job_sys" where
  "to_push t pc s = s\<lparr>push_at := (push_at s)(t := pc)\<rparr>"

definition to_exec :: "u32 \<Rightarrow> 'j exec_pc \<Rightarrow> 'j job_sys \<Rightarrow> 'j job_sys" where
  "to_exec t pc s = s\<lparr>exec_at := (exec_at s)(t := pc)\<rparr>"

definition set_job_queue :: "u32 \<Rightarrow> nat option \<Rightarrow> 'j job_sys \<Rightarrow> 'j job_sys" where
  "set_job_queue t q s = s\<lparr>LCurrentJobQueue := (LCurrentJobQueue s)(t := q)\<rparr>"

definition push_global :: "nat \<Rightarrow> 'j job_sys \<Rightarrow> 'j job_sys" where
  "push_global q s = s\<lparr>GGlobalQueue := GlobalQueue_Push q (GGlobalQueue s)\<rparr>"

section \<open>Push and Execute\<close>

definition Execute_begin :: "nat \<Rightarrow> u32 \<Rightarrow> 'j job_sys \<Rightarrow> 'j job_sys" where
  "Execute_begin q t s = to_exec t (X_Pop q) (set_job_queue t (Some q) s)"

fun JobQueue_Push :: "'j push_pc \<Rightarrow> u32 \<Rightarrow> 'j job_sys \<Rightarrow> 'j job_sys" where
  "JobQueue_Push (P_Add q job pushOnly) t s =
     (let prevCount = m_jobCount (queues s q) in
      to_push t (P_Queue q job prevCount pushOnly)
        (upd_queue q (\<lambda>k. k\<lparr>m_jobCount := m_jobCount k + 1\<rparr>) s))"
| "JobQueue_Push (P_Queue q job prevCount pushOnly) t s =
     to_push t (if prevCount = 0 then P_Decide q pushOnly else P_None)
       (upd_queue q (\<lambda>k. k\<lparr>m_jobs := LockQueue_Push (Some job) (m_jobs k)\<rparr>)
         (s\<lparr>pushed := (pushed s)(q := pushed s q @ [job])\<rparr>))"
| "JobQueue_Push (P_Decide q pushOnly) t s =
     (if LCurrentJobQueue s t = None \<and> \<not> pushOnly
      then Execute_begin q t (to_push t P_None s)
      else push_global q (to_push t P_None s))"
| "JobQueue_Push P_None t s = s"

text \<open>The loop over the jobs ends at the int32 the size of the vector was cast to, whatever the size.\<close>

fun JobQueue_Execute :: "bool \<Rightarrow> 'j exec_pc \<Rightarrow> u32 \<Rightarrow> 'j job_sys \<Rightarrow> 'j job_sys" where
  "JobQueue_Execute late (X_Pop q) t s =
     (let (jobs, rest) = LockQueue_PopAll (m_jobs (queues s q));
          jobCount = word_of_nat (length jobs) :: i32
      in to_exec t (X_Run q (take (nat (sint jobCount)) jobs) jobCount)
           (upd_queue q (\<lambda>k. k\<lparr>m_jobs := rest\<rparr>) s))"
| "JobQueue_Execute late (X_Run q (job # jobs) jobCount) t s =
     to_exec t (X_Run q jobs jobCount) (s\<lparr>executed := (executed s)(q := executed s q @ [job])\<rparr>)"
| "JobQueue_Execute late (X_Run q [] jobCount) t s =
     (let prevCount = m_jobCount (queues s q);
          s' = upd_queue q (\<lambda>k. k\<lparr>m_jobCount := m_jobCount k - jobCount\<rparr>) s
      in if prevCount = jobCount then to_exec t X_None (set_job_queue t None s')
         else to_exec t (X_Tick q) s')"
| "JobQueue_Execute late (X_Tick q) t s =
     (if late then to_exec t (X_Requeue q) (set_job_queue t None s) else to_exec t (X_Pop q) s)"
| "JobQueue_Execute late (X_Requeue q) t s = to_exec t X_None (push_global q s)"
| "JobQueue_Execute late X_None t s = s"

text \<open>ClearJobs drops the queued jobs and does not touch the counter.\<close>

definition ClearJobs :: "nat \<Rightarrow> 'j job_sys \<Rightarrow> 'j job_sys" where
  "ClearJobs q s =
     upd_queue q (\<lambda>k. k\<lparr>m_jobs := LockQueue_Clear (m_jobs k)\<rparr>)
       (s\<lparr>pushed := (pushed s)(q := take (length (pushed s q) - length (m_items (m_jobs (queues s q)))) (pushed s q)),
          leaked := (leaked s)(q := leaked s q + length (m_items (m_jobs (queues s q))))\<rparr>)"

text \<open>One round of DoGlobalQueueWork: take a queue from the global queue and execute it.\<close>

definition GlobalQueueWork :: "u32 \<Rightarrow> 'j job_sys \<Rightarrow> 'j job_sys" where
  "GlobalQueueWork t s =
     (case GlobalQueue_Pop (GGlobalQueue s) of
        (None, g) \<Rightarrow> s\<lparr>GGlobalQueue := g\<rparr>
      | (Some q, g) \<Rightarrow> Execute_begin q t (s\<lparr>GGlobalQueue := g\<rparr>))"

section \<open>The interleaved threads\<close>

definition in_job :: "'j exec_pc \<Rightarrow> bool" where
  "in_job pc \<longleftrightarrow> pc = X_None \<or> (\<exists>q jobs n. pc = X_Run q jobs n)"

text \<open>
  Nothing in the code stops the counter at the largest int32. The fetch_add of a Push has room when the
  counter is below it. With bounded every fetch_add is required to have room; without it the steps are
  those of the code, and the counter wraps.
\<close>

fun push_room :: "'j push_pc \<Rightarrow> 'j job_sys \<Rightarrow> bool" where
  "push_room (P_Add q job pushOnly) s \<longleftrightarrow> sint (m_jobCount (queues s q)) < 2 ^ 31 - 1"
| "push_room pc s \<longleftrightarrow> True"

inductive job_step :: "bool \<Rightarrow> 'j job_sys \<Rightarrow> 'j job_sys \<Rightarrow> bool" for bounded where
  call_push: "push_at s t = P_None \<Longrightarrow> in_job (exec_at s t) \<Longrightarrow>
     job_step bounded s (to_push t (P_Add q job pushOnly) s)"
| push: "push_at s t \<noteq> P_None \<Longrightarrow> bounded \<longrightarrow> push_room (push_at s t) s \<Longrightarrow>
     job_step bounded s (JobQueue_Push (push_at s t) t s)"
| execute: "push_at s t = P_None \<Longrightarrow> exec_at s t \<noteq> X_None \<Longrightarrow>
     job_step bounded s (JobQueue_Execute late (exec_at s t) t s)"
| global_work: "push_at s t = P_None \<Longrightarrow> exec_at s t = X_None \<Longrightarrow> job_step bounded s (GlobalQueueWork t s)"
| clear: "job_step bounded s (ClearJobs q s)"

end
