(* ===== verification/Job_Queue_Safety.thy ===== *)
theory Job_Queue_Safety
  imports Job_Queue
begin

text \<open>
  At most one thread executes a job queue at a time, its jobs run once each in the order they
  were pushed, and a queue that has work is always in somebody's hands. The invariant counts, for
  every queue, the jobs the counter stands for and the threads and global entries responsible. All this
  holds as long as no fetch_add takes the int32 counter past its largest value, which is what the bounded
  steps require; without that bound it does not, because ClearJobs drops jobs and leaves the counter.
\<close>

section \<open>The counter as a signed number\<close>

lemma sint_zero: "sint (c :: i32) = 0 \<longleftrightarrow> c = 0"
  by (metis sint_0 signed_word_eqI)

lemma sint_inc: "sint (c :: i32) < 2 ^ 31 - 1 \<Longrightarrow> sint (c + 1) = sint c + 1"
  using sint_ge[of c] by (simp add: sint_word_ariths signed_take_bit_int_eq_self)

lemma sint_sub: "0 \<le> sint n \<Longrightarrow> sint n \<le> sint c \<Longrightarrow> sint ((c :: i32) - n) = sint c - sint n"
  using sint_lt[of c] by (simp add: sint_word_ariths signed_take_bit_int_eq_self)

lemma sint_length: "n < 2 ^ 31 \<Longrightarrow> sint (word_of_nat n :: i32) = int n"
  by (simp add: signed_of_nat signed_take_bit_int_eq_self)

lemma sint_below: "sint (c :: i32) < 2 ^ 31"
  using sint_lt[of c] by simp

section \<open>The invariant\<close>

fun pend :: "nat \<Rightarrow> 'j push_pc \<Rightarrow> nat" where
  "pend q (P_Queue q' _ _ _) = (if q' = q then 1 else 0)"
| "pend q _ = 0"

fun batch :: "nat \<Rightarrow> 'j exec_pc \<Rightarrow> nat" where
  "batch q (X_Run q' _ n) = (if q' = q then nat (sint n) else 0)"
| "batch q _ = 0"

fun push_token :: "nat \<Rightarrow> 'j push_pc \<Rightarrow> nat" where
  "push_token q (P_Queue q' _ prev _) = (if q' = q \<and> prev = 0 then 1 else 0)"
| "push_token q (P_Decide q' _) = (if q' = q then 1 else 0)"
| "push_token q _ = 0"

fun exec_queue :: "'j exec_pc \<Rightarrow> nat option" where
  "exec_queue X_None = None"
| "exec_queue (X_Pop q) = Some q"
| "exec_queue (X_Run q _ _) = Some q"
| "exec_queue (X_Tick q) = Some q"
| "exec_queue (X_Requeue q) = Some q"

definition exec_token :: "nat \<Rightarrow> 'j exec_pc \<Rightarrow> nat" where
  "exec_token q pc = (if exec_queue pc = Some q then 1 else 0)"

definition outstanding :: "'j job_sys \<Rightarrow> nat \<Rightarrow> nat" where
  "outstanding s q = (\<Sum>t\<in>UNIV. pend q (push_at s t) + batch q (exec_at s t))"

definition globals :: "'j job_sys \<Rightarrow> nat option list" where
  "globals s = m_items (m_jobQueues (GGlobalQueue s))"

definition tokens :: "'j job_sys \<Rightarrow> nat \<Rightarrow> nat" where
  "tokens s q = (\<Sum>t\<in>UNIV. push_token q (push_at s t) + exec_token q (exec_at s t))
     + count_list (globals s) (Some q)"

definition jobs_of :: "'j job_sys \<Rightarrow> nat \<Rightarrow> 'j list" where
  "jobs_of s q = map the (m_items (m_jobs (queues s q)))"

definition count_of :: "'j job_sys \<Rightarrow> nat \<Rightarrow> int" where
  "count_of s q = sint (m_jobCount (queues s q))"

definition counted :: "'j job_sys \<Rightarrow> nat \<Rightarrow> bool" where
  "counted s q \<longleftrightarrow> count_of s q = int (length (jobs_of s q) + outstanding s q + leaked s q)
     \<and> tokens s q = (if count_of s q = 0 then 0 else 1)
     \<and> None \<notin> set (m_items (m_jobs (queues s q)))"

definition ordered :: "'j job_sys \<Rightarrow> nat \<Rightarrow> bool" where
  "ordered s q \<longleftrightarrow> (\<forall>t js n. exec_at s t = X_Run q js n \<longrightarrow> pushed s q = executed s q @ js @ jobs_of s q)
     \<and> ((\<forall>t js n. exec_at s t \<noteq> X_Run q js n) \<longrightarrow> pushed s q = executed s q @ jobs_of s q)"

definition thread_ok :: "'j job_sys \<Rightarrow> u32 \<Rightarrow> bool" where
  "thread_ok s t \<longleftrightarrow> LCurrentJobQueue s t = (case exec_at s t of X_Requeue q \<Rightarrow> None | pc \<Rightarrow> exec_queue pc)
     \<and> (push_at s t \<noteq> P_None \<longrightarrow> in_job (exec_at s t))
     \<and> (\<forall>q js n. exec_at s t = X_Run q js n \<longrightarrow> int (length js) \<le> sint n)"

definition job_inv :: "'j job_sys \<Rightarrow> bool" where
  "job_inv s \<longleftrightarrow> (\<forall>q. counted s q) \<and> (\<forall>q. ordered s q) \<and> (\<forall>t. thread_ok s t) \<and> None \<notin> set (globals s)"

lemma job_invD:
  assumes "job_inv s"
  shows "counted s q" "ordered s q" "thread_ok s t" "None \<notin> set (globals s)"
  using assms by (auto simp: job_inv_def)

section \<open>Changing one thread\<close>

text \<open>The two sums after thread t moved; every step of the system has this form.\<close>

lemma outstanding_change:
  assumes "push_at s' = (push_at s)(t := p)" "exec_at s' = (exec_at s)(t := e)"
  shows "outstanding s' q + pend q (push_at s t) + batch q (exec_at s t)
       = outstanding s q + pend q p + batch q e"
  using sum_one[of t "\<lambda>u. pend q (push_at s' u) + batch q (exec_at s' u)"
      "\<lambda>u. pend q (push_at s u) + batch q (exec_at s u)"] assms
  by (simp add: outstanding_def)

lemma tokens_change:
  assumes "push_at s' = (push_at s)(t := p)" "exec_at s' = (exec_at s)(t := e)"
  shows "tokens s' q + push_token q (push_at s t) + exec_token q (exec_at s t) + count_list (globals s) (Some q)
       = tokens s q + push_token q p + exec_token q e + count_list (globals s') (Some q)"
  using sum_one[of t "\<lambda>u. push_token q (push_at s' u) + exec_token q (exec_at s' u)"
      "\<lambda>u. push_token q (push_at s u) + exec_token q (exec_at s u)"] assms
  by (simp add: tokens_def)

lemma tokens_ge:
  "push_token q (push_at s t) + exec_token q (exec_at s t) + count_list (globals s) (Some q) \<le> tokens s q"
  unfolding tokens_def
  using member_le_sum[of t UNIV "\<lambda>t. push_token q (push_at s t) + exec_token q (exec_at s t)"] by simp

lemma two_tokens:
  assumes "t \<noteq> u"
  shows "exec_token q (exec_at s t) + exec_token q (exec_at s u) \<le> tokens s q"
proof -
  let ?f = "\<lambda>t. push_token q (push_at s t) + exec_token q (exec_at s t)"
  have "sum ?f {t, u} \<le> sum ?f UNIV" by (rule sum_mono2) auto
  then show ?thesis using assms by (simp add: tokens_def)
qed

lemma batch_outstanding: "batch q (exec_at s t) \<le> outstanding s q"
  unfolding outstanding_def
  using member_le_sum[of t UNIV "\<lambda>t. pend q (push_at s t) + batch q (exec_at s t)"] by simp

text \<open>Only one thread executes a queue.\<close>

lemma one_executor:
  assumes "counted s q" "exec_queue (exec_at s t) = Some q" "exec_queue (exec_at s u) = Some q"
  shows "t = u"
proof (rule ccontr)
  assume "t \<noteq> u"
  from two_tokens[OF this, of q s] assms show False
    by (simp add: counted_def exec_token_def split: if_splits)
qed

lemma job_inv_step:
  assumes inv: "job_inv s"
    and p: "push_at s' = (push_at s)(t := p)" and e: "exec_at s' = (exec_at s)(t := e)"
    and lc: "\<And>u. u \<noteq> t \<Longrightarrow> LCurrentJobQueue s' u = LCurrentJobQueue s u"
    and t: "thread_ok s' t" and gl: "None \<notin> set (globals s')"
    and count: "\<And>q. count_of s' q - count_of s q =
        int (length (jobs_of s' q)) - int (length (jobs_of s q))
        + int (pend q p + batch q e) - int (pend q (push_at s t) + batch q (exec_at s t))
        + int (leaked s' q) - int (leaked s q)"
    and tok: "\<And>q. int (count_list (globals s') (Some q)) + int (push_token q p + exec_token q e)
        - int (count_list (globals s) (Some q)) - int (push_token q (push_at s t) + exec_token q (exec_at s t))
        = (if count_of s' q = 0 then 0 else 1) - (if count_of s q = 0 then 0 else 1)"
    and some: "\<And>q. None \<notin> set (m_items (m_jobs (queues s' q)))"
    and ord: "\<And>q. ordered s' q"
  shows "job_inv s'"
proof -
  have "counted s' q" for q
  proof -
    note c = job_invD(1)[OF inv, of q]
    have "count_of s' q = int (length (jobs_of s' q) + outstanding s' q + leaked s' q)"
      using c outstanding_change[OF p e, of q] count[of q] by (simp add: counted_def)
    moreover have "tokens s' q = (if count_of s' q = 0 then 0 else 1)"
      using c tokens_change[OF p e, of q] tok[of q] by (simp add: counted_def split: if_splits)
    ultimately show ?thesis using some by (simp add: counted_def)
  qed
  moreover have "thread_ok s' u" for u
    using t job_invD(3)[OF inv, of u] p e lc[of u]
    by (cases "u = t") (simp_all add: thread_ok_def)
  ultimately show ?thesis using gl ord by (simp add: job_inv_def)
qed

lemma ordered_keep:
  assumes "ordered s q" and "exec_at s' = (exec_at s)(t := e)"
    and "pushed s' q = pushed s q" "executed s' q = executed s q" "jobs_of s' q = jobs_of s q"
    and "\<And>js n. e = X_Run q js n \<longleftrightarrow> exec_at s t = X_Run q js n"
  shows "ordered s' q"
proof -
  have "exec_at s' u = X_Run q js n \<longleftrightarrow> exec_at s u = X_Run q js n" for u js n
    using assms(2,6) by (cases "u = t") simp_all
  then show ?thesis using assms(1,3-5) by (simp add: ordered_def)
qed

lemma count_zero: "m_jobCount (queues s q) = 0 \<longleftrightarrow> count_of s q = 0"
  by (simp add: count_of_def sint_zero)

lemmas job_defs = upd_queue_def to_push_def to_exec_def set_job_queue_def push_global_def
  GlobalQueue_Push_def LockQueue_Push_def count_of_def sint_zero jobs_of_def globals_def exec_token_def

lemma no_null: "job_inv s \<Longrightarrow> None \<notin> set (m_items (m_jobs (queues s q)))"
  using job_invD(1)[of s q] by (simp add: counted_def)

lemma count_nonneg: "counted s q \<Longrightarrow> 0 \<le> count_of s q"
  by (simp add: counted_def)

section \<open>The steps of Push\<close>

lemma call_push_inv:
  assumes inv: "job_inv s" and "push_at s t = P_None" "in_job (exec_at s t)"
  shows "job_inv (to_push t (P_Add q job po) s)"
proof (rule job_inv_step[OF inv, of _ t "P_Add q job po" "exec_at s t"])
  show "ordered (to_push t (P_Add q job po) s) r" for r
    by (rule ordered_keep[OF job_invD(2)[OF inv], of _ t "exec_at s t"]) (simp_all add: job_defs)
  show "thread_ok (to_push t (P_Add q job po) s) t"
    using job_invD(3)[OF inv, of t] assms(3) by (simp add: thread_ok_def job_defs)
qed (use assms job_invD(1,4)[OF inv] in \<open>simp_all add: job_defs counted_def\<close>)

lemma push_add_inv:
  assumes inv: "job_inv s" and pc: "push_at s t = P_Add q job po" and room: "push_room (push_at s t) s"
  shows "job_inv (JobQueue_Push (push_at s t) t s)" (is "job_inv ?s'")
proof (rule job_inv_step[OF inv, of _ t "P_Queue q job (m_jobCount (queues s q)) po" "exec_at s t"])
  show "ordered ?s' r" for r
    by (rule ordered_keep[OF job_invD(2)[OF inv], of _ t "exec_at s t"]) (simp_all add: pc job_defs)
  show "thread_ok ?s' t"
    using job_invD(3)[OF inv, of t] by (simp add: thread_ok_def pc job_defs)
  show "None \<notin> set (m_items (m_jobs (queues ?s' r)))" for r
    using no_null[OF inv] by (simp add: pc job_defs)
  show "int (count_list (globals ?s') (Some r))
      + int (push_token r (P_Queue q job (m_jobCount (queues s q)) po) + exec_token r (exec_at s t))
      - int (count_list (globals s) (Some r)) - int (push_token r (push_at s t) + exec_token r (exec_at s t))
      = (if count_of ?s' r = 0 then 0 else 1) - (if count_of s r = 0 then 0 else 1)" for r
    using count_nonneg[OF job_invD(1)[OF inv, of q]] room sint_zero[of "m_jobCount (queues s q) + 1"]
    by (simp add: pc job_defs sint_inc)
qed (use job_invD(4)[OF inv] pc sint_inc[of "m_jobCount (queues s q)"] room in \<open>auto simp: job_defs\<close>)

lemma push_queue_inv:
  assumes inv: "job_inv s" and pc: "push_at s t = P_Queue q job prev po"
  shows "job_inv (JobQueue_Push (push_at s t) t s)" (is "job_inv ?s'")
proof (rule job_inv_step[OF inv, of _ t "if prev = 0 then P_Decide q po else P_None" "exec_at s t"])
  show "ordered ?s' r" for r
  proof (cases "r = q")
    case True
    then show ?thesis
      using job_invD(2)[OF inv, of q] by (simp add: ordered_def pc job_defs)
  next
    case False
    then show ?thesis
      by (intro ordered_keep[OF job_invD(2)[OF inv], of _ t "exec_at s t"]) (simp_all add: pc job_defs)
  qed
  show "thread_ok ?s' t"
    using job_invD(3)[OF inv, of t] by (simp add: thread_ok_def pc job_defs)
  show "None \<notin> set (m_items (m_jobs (queues ?s' r)))" for r
    using no_null[OF inv] by (simp add: pc job_defs)
qed (use job_invD(4)[OF inv] pc in \<open>simp_all add: job_defs\<close>)

lemma push_decide_inv:
  assumes inv: "job_inv s" and pc: "push_at s t = P_Decide q po"
  shows "job_inv (JobQueue_Push (push_at s t) t s)" (is "job_inv ?s'")
proof (cases "LCurrentJobQueue s t = None \<and> \<not> po")
  case True
  have idle: "exec_at s t = X_None"
    using job_invD(3)[OF inv, of t] True pc by (auto simp: thread_ok_def in_job_def)
  have s': "?s' = Execute_begin q t (to_push t P_None s)" using True pc by simp
  show ?thesis
    unfolding s'
  proof (rule job_inv_step[OF inv, of _ t P_None "X_Pop q"])
    show "ordered (Execute_begin q t (to_push t P_None s)) r" for r
      by (rule ordered_keep[OF job_invD(2)[OF inv], of _ t "X_Pop q"])
        (simp_all add: idle job_defs Execute_begin_def)
    show "None \<notin> set (m_items (m_jobs (queues (Execute_begin q t (to_push t P_None s)) r)))" for r
      using no_null[OF inv] by (simp add: job_defs Execute_begin_def)
  qed (use job_invD(4)[OF inv] idle pc in \<open>simp_all add: job_defs Execute_begin_def thread_ok_def\<close>)
next
  case False
  have s': "?s' = push_global q (to_push t P_None s)" using False pc by auto
  show ?thesis
    unfolding s'
  proof (rule job_inv_step[OF inv, of _ t P_None "exec_at s t"])
    show "ordered (push_global q (to_push t P_None s)) r" for r
      by (rule ordered_keep[OF job_invD(2)[OF inv], of _ t "exec_at s t"]) (simp_all add: job_defs)
    show "None \<notin> set (m_items (m_jobs (queues (push_global q (to_push t P_None s)) r)))" for r
      using no_null[OF inv] by (simp add: job_defs)
    show "thread_ok (push_global q (to_push t P_None s)) t"
      using job_invD(3)[OF inv, of t] by (simp add: thread_ok_def job_defs)
  qed (use job_invD(4)[OF inv] pc in \<open>simp_all add: job_defs count_list_append\<close>)
qed

section \<open>The steps of Execute\<close>

text \<open>A thread on a queue is its only executor, and the queue's counter is not zero.\<close>

lemma executing:
  assumes inv: "job_inv s" and "exec_queue (exec_at s t) = Some q"
  shows "count_of s q \<noteq> 0" "push_token q (push_at s t) = 0" "count_list (globals s) (Some q) = 0"
    "\<And>u. u \<noteq> t \<Longrightarrow> exec_queue (exec_at s u) \<noteq> Some q"
proof -
  have "exec_token q (exec_at s t) = 1" using assms(2) by (simp add: exec_token_def)
  with tokens_ge[of q s t] job_invD(1)[OF inv, of q]
  show "count_of s q \<noteq> 0" "push_token q (push_at s t) = 0" "count_list (globals s) (Some q) = 0"
    by (auto simp: counted_def split: if_splits)
  show "exec_queue (exec_at s u) \<noteq> Some q" if "u \<noteq> t" for u
    using one_executor[OF job_invD(1)[OF inv] assms(2)] that by blast
qed

lemma only_run:
  assumes inv: "job_inv s" and "exec_queue (exec_at s t) = Some q" and "u \<noteq> t"
  shows "exec_at s u \<noteq> X_Run q js n"
  using executing(4)[OF inv assms(2,3)] by auto

lemma no_run:
  assumes "job_inv s" and "exec_queue (exec_at s t) = Some q" and "\<And>js n. exec_at s t \<noteq> X_Run q js n"
  shows "\<forall>u js n. exec_at s u \<noteq> X_Run q js n"
proof (intro allI)
  fix u js n show "exec_at s u \<noteq> X_Run q js n"
    using only_run[OF assms(1,2), of u] assms(3) by (cases "u = t") auto
qed

lemma ordered_run:
  "ordered s q \<Longrightarrow> exec_at s t = X_Run q js n \<Longrightarrow> pushed s q = executed s q @ js @ jobs_of s q"
  unfolding ordered_def by blast

lemma upd_same: "f x = y \<Longrightarrow> f = f(x := y)"
  by (simp add: fun_upd_idem)

lemma exec_pop_inv:
  assumes inv: "job_inv s" and idle: "push_at s t = P_None" and pc: "exec_at s t = X_Pop q"
  shows "job_inv (JobQueue_Execute late (exec_at s t) t s)" (is "job_inv ?s'")
proof -
  let ?js = "jobs_of s q"
  have "m_items (m_jobs (queues s q)) = map Some ?js"
    using no_null[OF inv, of q] by (auto simp: jobs_of_def intro!: nth_equalityI) (metis not_None_eq nth_mem option.sel)
  note pop = PopAll_all_Some[OF this]
  let ?n = "word_of_nat (length ?js) :: i32"
  have n: "sint ?n = int (length ?js)"
    using job_invD(1)[OF inv, of q] sint_below[of "m_jobCount (queues s q)"]
    by (intro sint_length) (simp add: counted_def count_of_def)
  from pop n have s': "?s' = to_exec t (X_Run q ?js ?n)
      (upd_queue q (\<lambda>k. k\<lparr>m_jobs := (m_jobs (queues s q))\<lparr>m_items := []\<rparr>\<rparr>) s)"
    by (simp add: pc)
  show ?thesis
    unfolding s'
  proof (rule job_inv_step[OF inv, of _ t "push_at s t" "X_Run q ?js ?n"], goal_cases)
    case (9 r)
    show ?case
    proof (cases "r = q")
      case True
      have "\<forall>u js n. exec_at s u \<noteq> X_Run q js n"
        using pc by (intro no_run[OF inv, of t]) simp_all
      then have "pushed s q = executed s q @ ?js" using job_invD(2)[OF inv, of q] by (simp add: ordered_def)
      then show ?thesis
        using True only_run[OF inv, of t q] pc by (auto simp: ordered_def job_defs)
    next
      case False
      then show ?thesis
        by (intro ordered_keep[OF job_invD(2)[OF inv], of _ t "X_Run q ?js ?n"])
          (simp_all add: pc job_defs)
    qed
  next
    case 4
    then show ?case using job_invD(3)[OF inv, of t] n by (simp add: thread_ok_def pc idle job_defs)
  next
    case (8 r)
    then show ?case using no_null[OF inv] by (simp add: job_defs)
  next
    case (6 r)
    then show ?case using pc idle n by (cases "r = q") (simp_all add: job_defs)
  qed (use job_invD(4)[OF inv] pc idle in \<open>simp_all add: job_defs upd_same\<close>)
qed

lemma exec_job_inv:
  assumes inv: "job_inv s" and idle: "push_at s t = P_None" and pc: "exec_at s t = X_Run q (job # js) n"
  shows "job_inv (JobQueue_Execute late (exec_at s t) t s)" (is "job_inv ?s'")
proof (rule job_inv_step[OF inv, of _ t "push_at s t" "X_Run q js n"], goal_cases)
  case (9 r)
  show ?case
  proof (cases "r = q")
    case True
    have "pushed s q = executed s q @ (job # js) @ jobs_of s q"
      using ordered_run[OF job_invD(2)[OF inv] pc] by simp
    then show ?thesis
      using True only_run[OF inv, of t q] pc by (auto simp: ordered_def job_defs)
  next
    case False
    then show ?thesis
      by (intro ordered_keep[OF job_invD(2)[OF inv], of _ t "X_Run q js n"]) (simp_all add: pc job_defs)
  qed
next
  case 4
  then show ?case using job_invD(3)[OF inv, of t] by (simp add: thread_ok_def pc idle job_defs)
next
  case (8 r)
  then show ?case using no_null[OF inv] by (simp add: pc job_defs)
qed (use job_invD(4)[OF inv] pc idle in \<open>simp_all add: job_defs upd_same\<close>)

lemma exec_sub_inv:
  assumes inv: "job_inv s" and idle: "push_at s t = P_None" and pc: "exec_at s t = X_Run q [] n"
  shows "job_inv (JobQueue_Execute late (exec_at s t) t s)" (is "job_inv ?s'")
proof -
  let ?e = "if m_jobCount (queues s q) = n then X_None else X_Tick q"
  have exq: "exec_queue (exec_at s t) = Some q" by (simp add: pc)
  note busy = executing(1)[OF inv exq]
  have n: "0 \<le> sint n" using job_invD(3)[OF inv, of t] pc by (simp add: thread_ok_def)
  have "batch q (exec_at s t) \<le> outstanding s q" by (rule batch_outstanding)
  then have le: "sint n \<le> sint (m_jobCount (queues s q))"
    using job_invD(1)[OF inv, of q] pc by (simp add: counted_def count_of_def)
  show ?thesis
  proof (rule job_inv_step[OF inv, of _ t "push_at s t" ?e], goal_cases)
    case (9 r)
    show ?case
    proof (cases "r = q")
      case True
      have "pushed s q = executed s q @ jobs_of s q"
        using ordered_run[OF job_invD(2)[OF inv] pc] by simp
      then show ?thesis
        using True only_run[OF inv exq] pc by (auto simp: ordered_def job_defs Let_def)
    next
      case False
      then show ?thesis
        by (intro ordered_keep[OF job_invD(2)[OF inv], of _ t ?e]) (simp_all add: pc job_defs Let_def)
    qed
  next
    case 4
    then show ?case using job_invD(3)[OF inv, of t] by (simp add: thread_ok_def pc idle job_defs Let_def)
  next
    case (7 r)
    then show ?case using busy sint_sub[OF n le] by (auto simp: pc idle job_defs Let_def)
  next
    case (8 r)
    then show ?case using no_null[OF inv] by (simp add: pc job_defs Let_def)
  next
    case (6 r)
    then show ?case using pc idle n sint_sub[OF n le] by (auto simp: job_defs Let_def)
  qed (use job_invD(4)[OF inv] pc idle in \<open>simp_all add: job_defs upd_same Let_def\<close>)
qed

lemma exec_tick_inv:
  assumes inv: "job_inv s" and idle: "push_at s t = P_None" and pc: "exec_at s t = X_Tick q"
  shows "job_inv (JobQueue_Execute late (exec_at s t) t s)" (is "job_inv ?s'")
proof (rule job_inv_step[OF inv, of _ t "push_at s t" "if late then X_Requeue q else X_Pop q"], goal_cases)
  case (9 r)
  then show ?case
    by (intro ordered_keep[OF job_invD(2)[OF inv], of _ t "if late then X_Requeue q else X_Pop q"])
      (simp_all add: pc job_defs)
next
  case 4
  then show ?case using job_invD(3)[OF inv, of t] by (simp add: thread_ok_def pc idle job_defs)
next
  case (8 r)
  then show ?case using no_null[OF inv] by (simp add: pc job_defs)
qed (use job_invD(4)[OF inv] pc idle in \<open>simp_all add: job_defs upd_same\<close>)

lemma exec_requeue_inv:
  assumes inv: "job_inv s" and idle: "push_at s t = P_None" and pc: "exec_at s t = X_Requeue q"
  shows "job_inv (JobQueue_Execute late (exec_at s t) t s)" (is "job_inv ?s'")
proof (rule job_inv_step[OF inv, of _ t "push_at s t" X_None], goal_cases)
  case (9 r)
  then show ?case
    by (intro ordered_keep[OF job_invD(2)[OF inv], of _ t X_None]) (simp_all add: pc job_defs)
next
  case 4
  then show ?case using job_invD(3)[OF inv, of t] by (simp add: thread_ok_def pc idle job_defs)
next
  case (8 r)
  then show ?case using no_null[OF inv] by (simp add: pc job_defs)
qed (use job_invD(4)[OF inv] pc idle in \<open>simp_all add: job_defs upd_same\<close>)

lemma global_work_inv:
  assumes inv: "job_inv s" and idle: "push_at s t = P_None" "exec_at s t = X_None"
  shows "job_inv (GlobalQueueWork t s)"
proof (cases "globals s")
  case Nil
  then have "GlobalQueueWork t s = s"
    by (simp add: GlobalQueueWork_def GlobalQueue_Pop_def LockQueue_Pop_def globals_def)
  then show ?thesis using inv by simp
next
  case (Cons g gs)
  then obtain q where g: "g = Some q" using job_invD(4)[OF inv] by (cases g) auto
  let ?s = "s\<lparr>GGlobalQueue := (GGlobalQueue s)\<lparr>m_jobQueues := (m_jobQueues (GGlobalQueue s))\<lparr>m_items := gs\<rparr>\<rparr>\<rparr>"
  have s': "GlobalQueueWork t s = Execute_begin q t ?s"
    using Cons g by (simp add: GlobalQueueWork_def GlobalQueue_Pop_def LockQueue_Pop_def globals_def)
  show ?thesis
    unfolding s'
  proof (rule job_inv_step[OF inv, of _ t "push_at s t" "X_Pop q"], goal_cases)
    case (9 r)
    then show ?case
      by (intro ordered_keep[OF job_invD(2)[OF inv], of _ t "X_Pop q"])
        (simp_all add: idle job_defs Execute_begin_def)
  next
    case (8 r)
    then show ?case using no_null[OF inv] by (simp add: job_defs Execute_begin_def)
  next
    case (7 r)
    then show ?case using Cons g idle by (simp add: job_defs Execute_begin_def)
  qed (use job_invD(4)[OF inv] idle Cons in \<open>simp_all add: job_defs upd_same Execute_begin_def thread_ok_def\<close>)
qed

lemma clear_inv:
  assumes inv: "job_inv s"
  shows "job_inv (ClearJobs q s)" (is "job_inv ?s'")
proof (rule job_inv_step[OF inv, of _ t "push_at s t" "exec_at s t"], goal_cases)
  case (9 r)
  have q: "length (jobs_of s q) = length (m_items (m_jobs (queues s q)))" by (simp add: jobs_of_def)
  show ?case
  proof (cases "r = q")
    case True
    then show ?thesis
      using job_invD(2)[OF inv, of q] q
      by (auto simp: ordered_def ClearJobs_def LockQueue_Clear_def new_lock_queue_def job_defs)
  next
    case False
    then show ?thesis
      by (intro ordered_keep[OF job_invD(2)[OF inv], of _ t "exec_at s t"])
        (simp_all add: ClearJobs_def job_defs)
  qed
next
  case 4
  then show ?case using job_invD(3)[OF inv, of t] by (simp add: thread_ok_def ClearJobs_def job_defs)
next
  case (8 r)
  then show ?case
    using no_null[OF inv] by (simp add: ClearJobs_def LockQueue_Clear_def new_lock_queue_def job_defs)
qed (use job_invD(4)[OF inv] in \<open>simp_all add: ClearJobs_def LockQueue_Clear_def new_lock_queue_def job_defs\<close>)

lemma job_init_inv: "job_init s \<Longrightarrow> job_inv s"
  by (simp add: job_init_def job_inv_def counted_def ordered_def thread_ok_def job_defs tokens_def
      outstanding_def new_job_queue_def new_lock_queue_def)

lemma job_step_inv: "job_step True s s' \<Longrightarrow> job_inv s \<Longrightarrow> job_inv s'"
proof (induction rule: job_step.induct)
  case (push s t)
  then show ?case
    by (cases "push_at s t") (metis push_add_inv push_queue_inv push_decide_inv)+
next
  case (execute s t late)
  show ?case
  proof (cases "exec_at s t")
    case (X_Run q js n)
    then show ?thesis
      using execute exec_sub_inv[of s t q n late] exec_job_inv[of s t q _ _ n late] by (cases js) metis+
  qed (use execute exec_pop_inv[of s t] exec_tick_inv[of s t] exec_requeue_inv[of s t] in metis)+
qed (auto intro: call_push_inv global_work_inv clear_inv)

interpretation job_machine: invariant_system job_init "job_step True" job_inv
  by unfold_locales (fact job_init_inv, erule (1) job_step_inv[rotated])

lemma counted_zero:
  assumes "counted s q" "tokens s q = 0"
  shows "jobs_of s q = [] \<and> leaked s q = 0 \<and> count_of s q = 0"
proof -
  have "count_of s q = 0" using assms by (simp add: counted_def split: if_splits)
  then have "int (length (jobs_of s q) + outstanding s q + leaked s q) = 0"
    using assms by (simp only: counted_def)
  then have "length (jobs_of s q) + outstanding s q + leaked s q = 0" by (simp only: of_nat_eq_0_iff)
  then show ?thesis using \<open>count_of s q = 0\<close> by simp
qed

section \<open>A run of one thread\<close>

text \<open>Thread 1 pushes job 7 on queue 0, executes the queue itself, and someone clears it.\<close>

definition jd_start :: "nat job_sys" where
  "jd_start = \<lparr>queues = (\<lambda>_. new_job_queue), GGlobalQueue = \<lparr>m_jobQueues = new_lock_queue\<rparr>,
     push_at = (\<lambda>_. P_None), exec_at = (\<lambda>_. X_None), LCurrentJobQueue = (\<lambda>_. None),
     executed = (\<lambda>_. []), pushed = (\<lambda>_. []), leaked = (\<lambda>_. 0)\<rparr>"

definition jd_called :: "nat job_sys" where "jd_called = to_push 1 (P_Add 0 7 False) jd_start"
definition jd_added :: "nat job_sys" where "jd_added = JobQueue_Push (P_Add 0 7 False) 1 jd_called"
definition jd_queued :: "nat job_sys" where "jd_queued = JobQueue_Push (P_Queue 0 7 0 False) 1 jd_added"
definition jd_begun :: "nat job_sys" where "jd_begun = JobQueue_Push (P_Decide 0 False) 1 jd_queued"
definition jd_popped :: "nat job_sys" where "jd_popped = JobQueue_Execute False (X_Pop 0) 1 jd_begun"
definition jd_cleared :: "nat job_sys" where "jd_cleared = ClearJobs 0 jd_begun"
definition jd_empty :: "nat job_sys" where "jd_empty = JobQueue_Execute False (X_Pop 0) 1 jd_cleared"

lemmas jd_defs = jd_start_def jd_called_def jd_added_def jd_queued_def jd_begun_def jd_popped_def
  jd_cleared_def jd_empty_def job_defs Execute_begin_def new_job_queue_def new_lock_queue_def
  PopAll_items ClearJobs_def LockQueue_Clear_def

lemma jd_begun_at: "exec_at jd_begun = (\<lambda>_. X_None)(1 := X_Pop 0)" "push_at jd_begun = (\<lambda>_. P_None)"
  by (simp_all add: jd_defs fun_eq_iff)

lemma jd_popped_at:
  "exec_at jd_popped = (\<lambda>_. X_None)(1 := X_Run 0 [7] 1)" "pushed jd_popped 0 = [7]"
  "executed jd_popped 0 = []" "jobs_of jd_popped 0 = []"
  by (simp_all add: jd_defs fun_eq_iff)

lemma jd_empty_at: "exec_at jd_empty 1 = X_Run 0 [] 0" "leaked jd_empty 0 = 1"
  by (simp_all add: jd_defs)

lemma run_begun: "reach job_init (job_step True) jd_begun"
proof -
  have 0: "reach job_init (job_step True) jd_start" by (rule reach_init) (simp add: job_init_def jd_start_def)
  have 1: "reach job_init (job_step True) jd_called"
    unfolding jd_called_def by (rule reach_step[OF 0 call_push]) (simp_all add: jd_start_def in_job_def)
  have 2: "reach job_init (job_step True) jd_added"
    using reach_step[OF 1 push[of jd_called 1]] by (simp add: jd_added_def) (simp add: jd_defs)
  have 3: "reach job_init (job_step True) jd_queued"
    using reach_step[OF 2 push[of jd_added 1]] by (simp add: jd_queued_def) (simp add: jd_defs)
  show ?thesis
    using reach_step[OF 3 push[of jd_queued 1]] by (simp add: jd_begun_def) (simp add: jd_defs)
qed

lemma run_popped: "reach job_init (job_step True) jd_popped"
  unfolding jd_popped_def
  using reach_step[OF run_begun execute[of jd_begun 1 True False]] by (simp add: jd_begun_at)

lemma run_empty: "reach job_init (job_step True) jd_empty"
proof -
  have cl: "reach job_init (job_step True) jd_cleared"
    unfolding jd_cleared_def by (rule reach_step[OF run_begun clear])
  have "exec_at jd_cleared = exec_at jd_begun" "push_at jd_cleared = push_at jd_begun"
    by (simp_all add: jd_cleared_def ClearJobs_def job_defs)
  then show ?thesis
    unfolding jd_empty_def
    using reach_step[OF cl execute[of jd_cleared 1 True False]] by (simp add: jd_begun_at)
qed

section \<open>Without the bound\<close>

lemma unbounded: "reach I (job_step True) s \<Longrightarrow> reach I (job_step False) s"
proof (induction rule: reach.induct)
  case (reach_step s s')
  from reach_step(2) have "job_step False s s'" by cases (auto intro: job_step.intros)
  then show ?case by (rule reach.reach_step[OF reach_step(3)])
qed (rule reach_init)

text \<open>A state in which thread 1 has just begun to execute queue 0 and nobody does anything else.\<close>

definition leaking :: "i32 \<Rightarrow> nat job_sys \<Rightarrow> bool" where
  "leaking c s \<longleftrightarrow> reach job_init (job_step False) s \<and> queues s 0 = \<lparr>m_jobs = new_lock_queue, m_jobCount = c\<rparr>
     \<and> push_at s = (\<lambda>_. P_None) \<and> exec_at s = (\<lambda>_. X_None)(1 := X_Pop 0) \<and> LCurrentJobQueue s 2 = None"

lemma leaking_start: "leaking 1 jd_cleared"
proof -
  have "reach job_init (job_step False) jd_cleared"
    unfolding jd_cleared_def by (rule reach_step[OF unbounded[OF run_begun] clear])
  then show ?thesis by (simp add: leaking_def jd_defs fun_eq_iff)
qed

text \<open>Thread 2 calls Push, up to its fetch_add.\<close>

lemma leaking_add:
  assumes "leaking c s"
  defines "s2 \<equiv> JobQueue_Push (P_Add 0 0 False) 2 (to_push 2 (P_Add 0 0 False) s)"
  shows "reach job_init (job_step False) s2" "push_at s2 = (\<lambda>_. P_None)(2 := P_Queue 0 0 c False)"
    "queues s2 0 = \<lparr>m_jobs = new_lock_queue, m_jobCount = c + 1\<rparr>" "exec_at s2 = exec_at s"
    "LCurrentJobQueue s2 = LCurrentJobQueue s"
proof -
  let ?s = "to_push 2 (P_Add 0 0 False) s"
  have "job_step False s ?s"
    using assms(1) by (intro call_push) (simp_all add: leaking_def in_job_def)
  moreover have "job_step False ?s (JobQueue_Push (push_at ?s 2) 2 ?s)" by (rule push) (simp_all add: to_push_def)
  ultimately show "reach job_init (job_step False) s2"
    using assms(1) by (auto simp: leaking_def s2_def to_push_def intro: reach_step)
qed (use assms(1) in \<open>auto simp: leaking_def s2_def job_defs\<close>)

text \<open>A push whose job is cleared leaves only its count.\<close>

lemma leaking_leak:
  assumes "leaking c s" and "c \<noteq> 0"
  shows "\<exists>s'. leaking (c + 1) s'"
proof -
  note s2 = leaking_add[OF assms(1)]
  let ?s2 = "JobQueue_Push (P_Add 0 0 False) 2 (to_push 2 (P_Add 0 0 False) s)"
  let ?s3 = "JobQueue_Push (P_Queue 0 0 c False) 2 ?s2"
  have "job_step False ?s2 ?s3" using job_step.push[of ?s2 2 False] s2(2) by simp
  then have "reach job_init (job_step False) (ClearJobs 0 ?s3)"
    using s2(1) by (blast intro: reach_step clear)
  then have "leaking (c + 1) (ClearJobs 0 ?s3)"
    using assms s2(2-5) by (simp add: leaking_def ClearJobs_def LockQueue_Clear_def job_defs fun_eq_iff)
  then show ?thesis ..
qed

lemma leaking_wrap: "n < 2 ^ 32 \<Longrightarrow> \<exists>s. leaking (word_of_nat (Suc n)) s"
proof (induction n)
  case 0
  show ?case using leaking_start by auto
next
  case (Suc n)
  then obtain s where s: "leaking (word_of_nat (Suc n)) s" by auto
  have "\<not> 2 ^ LENGTH(32) dvd Suc n"
    using Suc.prems by (intro nat_dvd_not_less) simp_all
  then have "word_of_nat (Suc n) \<noteq> (0 :: i32)" by (simp only: word_of_nat_eq_0_iff not_False_eq_True)
  from leaking_leak[OF s this] show ?case by (simp add: add.commute)
qed

text \<open>In the code the counter can wrap without much memory: whenever a job is pushed and cleared the
  counter stays one higher. After 2^32 such pushes a queue that a thread is executing shows a counter of
  zero, and the next thread that pushes a job executes the queue too.\<close>

theorem ClearJobs_two_executors:
  "\<exists>(s :: nat job_sys) t u. reach job_init (job_step False) s \<and> t \<noteq> u
    \<and> exec_queue (exec_at s t) = Some 0 \<and> exec_queue (exec_at s u) = Some 0"
proof -
  have "Suc (2 ^ 32 - 1) = 2 ^ LENGTH(32)" by simp
  then have "word_of_nat (Suc (2 ^ 32 - 1)) = (0 :: i32)" by (simp only: word_of_nat_eq_0_iff dvd_refl)
  with leaking_wrap[of "2 ^ 32 - 1"] obtain s where h: "leaking 0 s" by (simp only:) auto
  note s2 = leaking_add[OF h]
  let ?s2 = "JobQueue_Push (P_Add 0 0 False) 2 (to_push 2 (P_Add 0 0 False) s)"
  let ?s3 = "JobQueue_Push (P_Queue 0 0 0 False) 2 ?s2"
  let ?s4 = "JobQueue_Push (P_Decide 0 False) 2 ?s3"
  have 3: "job_step False ?s2 ?s3" using job_step.push[of ?s2 2 False] s2(2) by simp
  have pc: "push_at ?s3 2 = P_Decide 0 False" by (simp add: job_defs)
  have "job_step False ?s3 ?s4" using job_step.push[of ?s3 2 False] unfolding pc by simp
  with 3 s2(1) have "reach job_init (job_step False) ?s4" by (blast intro: reach_step)
  moreover have "exec_queue (exec_at ?s4 1) = Some 0" "exec_queue (exec_at ?s4 2) = Some 0"
    using h s2(4,5) by (simp_all add: leaking_def job_defs Execute_begin_def)
  moreover have "(1 :: u32) \<noteq> 2" by simp
  ultimately show ?thesis by blast
qed

section \<open>Properties\<close>

text \<open>C16: One executor per job queue. As long as no Push takes the int32 counter past 2^31 -
  1 (the bounded steps), in every reachable state at most one thread is inside Execute of a given
  queue, and then the queue is not in the global queue either, so no second thread can start
  it.\<close>

theorem single_executor:
  assumes "reach job_init (job_step True) s" and "exec_queue (exec_at s t) = Some q"
  shows "Some q \<notin> set (globals s) \<and> (\<forall>u. u \<noteq> t \<longrightarrow> exec_queue (exec_at s u) \<noteq> Some q)"
  using executing(3,4)[OF job_machine.reach_inv[OF assms(1)] assms(2)] by (simp add: count_list_0_iff)

theorem single_executor_witness:
  "Some 0 \<notin> set (globals jd_begun) \<and> exec_queue (exec_at jd_begun 2) \<noteq> Some 0"
proof -
  have "exec_queue (exec_at jd_begun 1) = Some 0" by (simp add: jd_begun_at)
  from single_executor[OF run_begun this] show ?thesis by simp
qed

text \<open>C17: Jobs run once each, in order. As long as no Push takes the int32 counter past 2^31
  - 1, the jobs of a queue that have run, followed by those the executing thread has taken and not
  yet run, followed by those still queued, are exactly the jobs pushed so far in their
  order.\<close>

theorem jobs_in_order:
  assumes "reach job_init (job_step True) s"
  shows "(exec_at s t = X_Run q js n \<longrightarrow> pushed s q = executed s q @ js @ jobs_of s q)
    \<and> ((\<forall>u js n. exec_at s u \<noteq> X_Run q js n) \<longrightarrow> pushed s q = executed s q @ jobs_of s q)"
  using job_invD(2)[OF job_machine.reach_inv[OF assms], of q] unfolding ordered_def by blast

theorem jobs_in_order_witness: "pushed jd_popped 0 = executed jd_popped 0 @ [7] @ jobs_of jd_popped 0"
  using jobs_in_order[OF run_popped, of 1 0 "[7]" 1] by (simp add: jd_popped_at)

text \<open>C18: No wake-up is lost. As long as no Push takes the int32 counter past 2^31 - 1,
  whenever a queue holds a job, a thread is executing the queue, or the queue waits in the global
  queue, or the thread whose push found the counter at zero has not yet decided which of the two it
  will be.\<close>

theorem no_lost_queue:
  assumes "reach job_init (job_step True) s" and "jobs_of s q \<noteq> []"
  shows "(\<exists>t. exec_queue (exec_at s t) = Some q) \<or> Some q \<in> set (globals s)
    \<or> (\<exists>t. push_token q (push_at s t) = 1)"
proof (rule ccontr)
  assume none: "\<not> ?thesis"
  note c = job_invD(1)[OF job_machine.reach_inv[OF assms(1)], of q]
  have "push_token q (push_at s t) = 0" for t
  proof -
    have "push_token q (push_at s t) \<noteq> 1" using none by blast
    moreover have "push_token q (push_at s t) \<le> 1" by (cases "push_at s t") simp_all
    ultimately show ?thesis by simp
  qed
  then have "tokens s q = 0" using none by (simp add: tokens_def exec_token_def count_list_0_iff)
  then show False using counted_zero[OF c] assms(2) by simp
qed

theorem no_lost_queue_witness:
  "(\<exists>t. exec_queue (exec_at jd_begun t) = Some 0) \<or> Some 0 \<in> set (globals jd_begun)
    \<or> (\<exists>t. push_token 0 (push_at jd_begun t) = 1)"
  by (rule no_lost_queue[OF run_begun]) (simp add: jd_defs)

text \<open>At rest everything is done. When no thread is inside Push or Execute of any queue and the
  global queue is empty, every job ever pushed (and not cleared) has run, and the counter is zero.\<close>

theorem jobs_drained:
  assumes "reach job_init (job_step True) s"
    and "\<And>t. push_at s t = P_None" and "\<And>t. exec_at s t = X_None" and "globals s = []"
  shows "executed s q = pushed s q \<and> jobs_of s q = [] \<and> count_of s q = 0 \<and> leaked s q = 0"
proof -
  note inv = job_machine.reach_inv[OF assms(1)]
  have "tokens s q = 0" using assms by (simp add: tokens_def exec_token_def)
  then show ?thesis
    using counted_zero[OF job_invD(1)[OF inv]] job_invD(2)[OF inv, of q] assms(3)
    by (simp add: ordered_def)
qed

theorem jobs_drained_witness: "executed jd_start 0 = pushed jd_start 0"
  by (rule jobs_drained[OF reach_init, THEN conjunct1])
    (simp_all add: job_init_def jd_start_def globals_def new_lock_queue_def)

text \<open>ClearJobs leaves a queue that is never at rest again. The jobs it drops stay in the
  counter, so from then on some thread or the global queue always holds the queue, and an Execute
  that has run its batch never finds the counter at its batch and goes on to the next round.\<close>

theorem ClearJobs_never_rests:
  assumes "reach job_init (job_step True) s" and "0 < leaked s q"
  shows "0 < tokens s q
    \<and> (push_at s t = P_None \<and> exec_at s t = X_Run q [] n
       \<longrightarrow> exec_at (JobQueue_Execute late (exec_at s t) t s) t = X_Tick q)"
proof -
  note inv = job_machine.reach_inv[OF assms(1)]
  note c = job_invD(1)[OF inv, of q]
  have "m_jobCount (queues s q) \<noteq> n" if "exec_at s t = X_Run q [] n"
  proof -
    have "batch q (exec_at s t) \<le> outstanding s q" by (rule batch_outstanding)
    then show ?thesis using that c assms(2) by (auto simp: counted_def count_of_def)
  qed
  then show ?thesis using c assms(2) by (auto simp: counted_def count_of_def to_exec_def Let_def)
qed

theorem ClearJobs_never_rests_witness:
  "0 < tokens jd_empty 0"
  using ClearJobs_never_rests[OF run_empty, of 0] by (simp add: jd_empty_at)

end
