(* ===== verification/Job_Timer.thy ===== *)
theory Job_Timer
  imports Server_Base "HOL-Library.Multiset"
begin

text \<open>
  The job timer (ServerCore/JobTimer.h, JobTimer.cpp): a priority queue of items ordered by the
  tick they are due at, each with a JobData object from the object pool. Any number of threads call
  Reserve, Distribute and Clear; an exchange of m_distributing lets one thread distribute at a
  time. A job queue is a number and a job a value of any type; a queue that has expired is one its weak_ptr cannot lock.
\<close>

section \<open>The contract of a priority queue\<close>

text \<open>What std::priority_queue promises. Which of several least elements is on top is left open.\<close>

locale prio_queue =
  fixes empty :: "'q" and is_empty :: "'q \<Rightarrow> bool" and push :: "'a \<Rightarrow> 'q \<Rightarrow> 'q"
    and top :: "'q \<Rightarrow> 'a" and pop :: "'q \<Rightarrow> 'q" and items :: "'q \<Rightarrow> 'a multiset"
    and key :: "'a \<Rightarrow> 'k :: linorder" and ok :: "'q \<Rightarrow> bool"
  assumes items_empty: "items empty = {#}" and ok_empty: "ok empty"
    and is_empty: "ok q \<Longrightarrow> is_empty q \<longleftrightarrow> items q = {#}"
    and items_push: "ok q \<Longrightarrow> items (push x q) = items q + {#x#}" and ok_push: "ok q \<Longrightarrow> ok (push x q)"
    and top_in: "ok q \<Longrightarrow> items q \<noteq> {#} \<Longrightarrow> top q \<in># items q"
    and top_least: "ok q \<Longrightarrow> x \<in># items q \<Longrightarrow> key (top q) \<le> key x"
    and items_pop: "ok q \<Longrightarrow> items q \<noteq> {#} \<Longrightarrow> items (pop q) = items q - {#top q#}"
    and ok_pop: "ok q \<Longrightarrow> items q \<noteq> {#} \<Longrightarrow> ok (pop q)"
begin

lemma pop_size: "ok q \<Longrightarrow> \<not> is_empty q \<Longrightarrow> size (items (pop q)) < size (items q)"
  using top_in[of q] by (simp add: is_empty items_pop size_Diff_singleton nonempty_has_size)

lemma pop_split: "ok q \<Longrightarrow> \<not> is_empty q \<Longrightarrow> items q = add_mset (top q) (items (pop q))"
  using top_in[of q] by (simp add: is_empty items_pop)

lemma late_all: "ok q \<Longrightarrow> k < key (top q) \<Longrightarrow> x \<in># items q \<Longrightarrow> k < key x"
  using top_least[of q x] by simp

end

section \<open>State\<close>

record timer_item =
  m_executeTick :: u64
  m_jobData :: nat

record 'j job_data =
  m_owner :: nat
  m_job :: 'j

text \<open>The queue of the timer: items in ascending order of their tick.\<close>

definition pq_push :: "timer_item \<Rightarrow> timer_item list \<Rightarrow> timer_item list" where
  "pq_push x q = insort_key m_executeTick x q"

definition pq_top :: "timer_item list \<Rightarrow> timer_item" where
  "pq_top q = hd q"

definition pq_pop :: "timer_item list \<Rightarrow> timer_item list" where
  "pq_pop q = tl q"

definition pq_empty :: "timer_item list \<Rightarrow> bool" where
  "pq_empty q \<longleftrightarrow> q = []"

interpretation pq: prio_queue "[]" pq_empty pq_push pq_top pq_pop mset m_executeTick
    "\<lambda>q. sorted (map m_executeTick q)"
proof
  fix q :: "timer_item list" and x
  show "x \<in># mset q \<Longrightarrow> sorted (map m_executeTick q) \<Longrightarrow> m_executeTick (pq_top q) \<le> m_executeTick x"
    by (cases q) (auto simp: pq_top_def)
  show "sorted (map m_executeTick q) \<Longrightarrow> mset (pq_push x q) = mset q + {#x#}"
    by (simp add: pq_push_def)
  show "sorted (map m_executeTick q) \<Longrightarrow> mset q \<noteq> {#} \<Longrightarrow> mset (pq_pop q) = mset q - {#pq_top q#}"
    by (cases q) (simp_all add: pq_pop_def pq_top_def)
  show "sorted (map m_executeTick q) \<Longrightarrow> mset q \<noteq> {#} \<Longrightarrow> sorted (map m_executeTick (pq_pop q))"
    by (cases q) (simp_all add: pq_pop_def)
qed (auto simp: pq_empty_def pq_push_def pq_top_def sorted_insort_key)

text \<open>Where a thread is in Distribute.\<close>

datatype dist_pc =
    D_None
  | D_Exchange u64
  | D_Take u64
  | D_Push "timer_item list"
  | D_Store
  | D_Fault fault

record 'j timer_sys =
  tm_items :: "timer_item list"
  m_distributing :: bool
  job_data_pool :: "nat \<Rightarrow> 'j job_data option"
  dist_at :: "u32 \<Rightarrow> dist_pc"
  next_data :: nat
  pushes :: "(nat \<times> 'j) list"

definition timer_init :: "'j timer_sys \<Rightarrow> bool" where
  "timer_init s \<longleftrightarrow> s = \<lparr>tm_items = [], m_distributing = False, job_data_pool = Map.empty,
     dist_at = (\<lambda>_. D_None), next_data = 0, pushes = []\<rparr>"

section \<open>Operations\<close>

text \<open>A JobData object is taken from the pool and given back; giving back twice is a fault.\<close>

definition new_data :: "nat \<Rightarrow> 'j \<Rightarrow> 'j timer_sys \<Rightarrow> nat \<times> 'j timer_sys" where
  "new_data owner job s =
     (next_data s, s\<lparr>job_data_pool := (job_data_pool s)(next_data s \<mapsto> \<lparr>m_owner = owner, m_job = job\<rparr>),
                    next_data := Suc (next_data s)\<rparr>)"

definition delete_data :: "nat \<Rightarrow> 'j timer_sys \<Rightarrow> 'j timer_sys result" where
  "delete_data d s =
     (if job_data_pool s d = None then Inl UseAfterFree
      else Inr (s\<lparr>job_data_pool := (job_data_pool s)(d := None)\<rparr>))"

definition Reserve :: "u64 \<Rightarrow> u64 \<Rightarrow> nat \<Rightarrow> 'j \<Rightarrow> 'j timer_sys \<Rightarrow> 'j timer_sys" where
  "Reserve now tick owner job s =
     (let executeTick = now + tick; (jobData, s1) = new_data owner job s in
      s1\<lparr>tm_items := pq_push \<lparr>m_executeTick = executeTick, m_jobData = jobData\<rparr> (tm_items s1)\<rparr>)"

text \<open>The first loop of Distribute, under the lock: the items that are due, in the order popped.\<close>

function take_due :: "u64 \<Rightarrow> timer_item list \<Rightarrow> timer_item list \<times> timer_item list" where
  "take_due now q =
     (if pq_empty q then ([], q)
      else if now < m_executeTick (pq_top q) then ([], q)
      else let (items, rest) = take_due now (pq_pop q) in (pq_top q # items, rest))"
  by pat_completeness auto
termination
  by (relation "measure (\<lambda>(now, q). length q)") (auto simp: pq_empty_def pq_pop_def)

declare take_due.simps [simp del]

text \<open>The body of the second loop: push the job if the owner still exists, free the JobData.\<close>

definition push_item :: "(nat \<Rightarrow> bool) \<Rightarrow> timer_item \<Rightarrow> 'j timer_sys \<Rightarrow> 'j timer_sys result" where
  "push_item alive item s =
     (case job_data_pool s (m_jobData item) of
        None \<Rightarrow> Inl UseAfterFree
      | Some d \<Rightarrow>
          delete_data (m_jobData item)
            (if alive (m_owner d) then s\<lparr>pushes := pushes s @ [(m_owner d, m_job d)]\<rparr> else s))"

definition to_dist :: "u32 \<Rightarrow> dist_pc \<Rightarrow> 'j timer_sys \<Rightarrow> 'j timer_sys" where
  "to_dist t pc s = s\<lparr>dist_at := (dist_at s)(t := pc)\<rparr>"

fun Distribute :: "(nat \<Rightarrow> bool) \<Rightarrow> dist_pc \<Rightarrow> u32 \<Rightarrow> 'j timer_sys \<Rightarrow> 'j timer_sys" where
  "Distribute alive (D_Exchange now) t s =
     (if m_distributing s then to_dist t D_None s
      else to_dist t (D_Take now) (s\<lparr>m_distributing := True\<rparr>))"
| "Distribute alive (D_Take now) t s =
     (let (items, rest) = take_due now (tm_items s) in to_dist t (D_Push items) (s\<lparr>tm_items := rest\<rparr>))"
| "Distribute alive (D_Push (item # items)) t s =
     (case push_item alive item s of
        Inl e \<Rightarrow> to_dist t (D_Fault e) s
      | Inr s' \<Rightarrow> to_dist t (D_Push items) s')"
| "Distribute alive (D_Push []) t s = to_dist t D_Store s"
| "Distribute alive D_Store t s = to_dist t D_None (s\<lparr>m_distributing := False\<rparr>)"
| "Distribute alive pc t s = s"

function Clear_loop :: "timer_item list \<Rightarrow> 'j timer_sys \<Rightarrow> 'j timer_sys result" where
  "Clear_loop q s =
     (if pq_empty q then Inr (s\<lparr>tm_items := q\<rparr>)
      else rbind (delete_data (m_jobData (pq_top q)) s) (Clear_loop (pq_pop q)))"
  by pat_completeness auto
termination
  by (relation "measure (\<lambda>(q, s). length q)") (auto simp: pq_empty_def pq_pop_def)

declare Clear_loop.simps [simp del]

definition Clear :: "'j timer_sys \<Rightarrow> 'j timer_sys result" where
  "Clear s = Clear_loop (tm_items s) s"

inductive timer_step :: "'j timer_sys \<Rightarrow> 'j timer_sys \<Rightarrow> bool" where
  reserve: "timer_step s (Reserve now tick owner job s)"
| start: "dist_at s t = D_None \<Longrightarrow> timer_step s (to_dist t (D_Exchange now) s)"
| distribute: "timer_step s (Distribute alive (dist_at s t) t s)"
| clear_all: "Clear s = Inr s' \<Longrightarrow> timer_step s s'"

end
