(* ===== verification/Job_Timer_Safety.thy ===== *)
theory Job_Timer_Safety
  imports Job_Timer
begin

text \<open>
  What Distribute takes from the timer, and the ownership of the JobData objects: each belongs to
  exactly one item, queued or in the hands of the one thread that distributes.
\<close>

section \<open>The items that are due\<close>

lemma take_due_stop:
  "pq_empty q \<or> now < m_executeTick (pq_top q) \<Longrightarrow> take_due now q = ([], q)"
  by (subst take_due.simps) auto

lemma take_due_go:
  "\<not> pq_empty q \<Longrightarrow> \<not> now < m_executeTick (pq_top q) \<Longrightarrow> take_due now (pq_pop q) = (items, rest) \<Longrightarrow>
     take_due now q = (pq_top q # items, rest)"
  by (subst take_due.simps) simp

lemma take_due_split: "take_due now q = (items, rest) \<Longrightarrow> q = items @ rest"
proof (induction now q arbitrary: items rest rule: take_due.induct)
  case (1 now q)
  show ?case
  proof (cases "pq_empty q \<or> now < m_executeTick (pq_top q)")
    case True
    then show ?thesis using "1.prems" by (simp add: take_due_stop)
  next
    case False
    obtain is' r where rec: "take_due now (pq_pop q) = (is', r)" by (cases "take_due now (pq_pop q)")
    then have "pq_pop q = is' @ r" using "1.IH" False by blast
    then show ?thesis
      using "1.prems" take_due_go[OF _ _ rec] False
      by (cases q) (auto simp: pq_empty_def pq_pop_def pq_top_def)
  qed
qed

lemma take_due_due: "take_due now q = (items, rest) \<Longrightarrow> i \<in> set items \<Longrightarrow> m_executeTick i \<le> now"
proof (induction now q arbitrary: items rest rule: take_due.induct)
  case (1 now q)
  show ?case
  proof (cases "pq_empty q \<or> now < m_executeTick (pq_top q)")
    case True
    then show ?thesis using "1.prems" by (simp add: take_due_stop)
  next
    case False
    obtain is' r where rec: "take_due now (pq_pop q) = (is', r)" by (cases "take_due now (pq_pop q)")
    then show ?thesis
      using "1.prems" "1.IH"[OF _ _ rec] take_due_go[OF _ _ rec] False by auto
  qed
qed

lemma take_due_rest:
  "sorted (map m_executeTick q) \<Longrightarrow> take_due now q = (items, rest) \<Longrightarrow> i \<in> set rest \<Longrightarrow> now < m_executeTick i"
proof (induction now q arbitrary: items rest rule: take_due.induct)
  case (1 now q)
  show ?case
  proof (cases "pq_empty q \<or> now < m_executeTick (pq_top q)")
    case True
    then have "rest = q" using "1.prems"(2) by (simp add: take_due_stop)
    moreover have "\<not> pq_empty q" using "1.prems"(3) \<open>rest = q\<close> by (auto simp: pq_empty_def)
    ultimately show ?thesis
      using pq.late_all[OF "1.prems"(1), of now i] True "1.prems"(3) by simp
  next
    case False
    obtain is' r where rec: "take_due now (pq_pop q) = (is', r)" by (cases "take_due now (pq_pop q)")
    have "sorted (map m_executeTick (pq_pop q))"
      using pq.ok_pop[OF "1.prems"(1)] False by (simp add: pq_empty_def)
    then show ?thesis
      using "1.prems" "1.IH"[OF _ _ _ rec] take_due_go[OF _ _ rec] False by auto
  qed
qed

section \<open>The invariant\<close>

definition critical :: "dist_pc \<Rightarrow> bool" where
  "critical pc \<longleftrightarrow> (\<exists>now. pc = D_Take now) \<or> (\<exists>items. pc = D_Push items) \<or> pc = D_Store"

fun in_flight :: "dist_pc \<Rightarrow> timer_item list" where
  "in_flight (D_Push items) = items"
| "in_flight _ = []"

definition data_ids :: "timer_item list \<Rightarrow> nat list" where
  "data_ids q = map m_jobData q"

definition timer_inv :: "'j timer_sys \<Rightarrow> bool" where
  "timer_inv s \<longleftrightarrow> sorted (map m_executeTick (tm_items s))
     \<and> (\<forall>t. critical (dist_at s t) \<longrightarrow> m_distributing s)
     \<and> (\<forall>t u. critical (dist_at s t) \<longrightarrow> critical (dist_at s u) \<longrightarrow> t = u)
     \<and> (\<forall>t. distinct (data_ids (in_flight (dist_at s t) @ tm_items s)))
     \<and> dom (job_data_pool s) = set (data_ids (tm_items s)) \<union> (\<Union>t. set (data_ids (in_flight (dist_at s t))))
     \<and> (\<forall>d \<in> dom (job_data_pool s). d < next_data s)
     \<and> (\<forall>t e. dist_at s t \<noteq> D_Fault e)"

lemma timer_invD:
  assumes "timer_inv s"
  shows "sorted (map m_executeTick (tm_items s))"
    "critical (dist_at s t) \<Longrightarrow> m_distributing s"
    "critical (dist_at s t) \<Longrightarrow> critical (dist_at s u) \<Longrightarrow> t = u"
    "distinct (data_ids (in_flight (dist_at s t) @ tm_items s))"
    "dom (job_data_pool s) = set (data_ids (tm_items s)) \<union> (\<Union>t. set (data_ids (in_flight (dist_at s t))))"
    "d \<in> dom (job_data_pool s) \<Longrightarrow> d < next_data s"
    "dist_at s t \<noteq> D_Fault e"
  using assms by (auto simp: timer_inv_def)

lemma in_flight_critical: "in_flight pc \<noteq> [] \<Longrightarrow> critical pc"
  by (cases pc) (auto simp: critical_def)

lemma union_one:
  assumes "\<And>u. u \<noteq> t \<Longrightarrow> F u = {}"
  shows "(\<Union>u. F u) = F t"
proof
  show "(\<Union>u. F u) \<subseteq> F t"
  proof
    fix x assume "x \<in> (\<Union>u. F u)"
    then obtain u where "x \<in> F u" by blast
    then show "x \<in> F t" using assms[of u] by (cases "u = t") auto
  qed
qed blast

text \<open>When a thread is critical, only its own items are in flight.\<close>

lemma flight_of:
  assumes "timer_inv s" "critical (dist_at s t)"
  shows "(\<Union>u. set (data_ids (in_flight (dist_at s u)))) = set (data_ids (in_flight (dist_at s t)))"
proof (rule union_one)
  fix u assume "u \<noteq> t"
  then have "\<not> critical (dist_at s u)" using timer_invD(3)[OF assms(1,2)] by blast
  then show "set (data_ids (in_flight (dist_at s u))) = {}"
    using in_flight_critical by (auto simp: data_ids_def)
qed

text \<open>A step of the distributing thread: its items and the queue's, and the pool.\<close>

lemma critical_step:
  assumes inv: "timer_inv s" and t: "critical (dist_at s t)"
    and at: "dist_at s' = (dist_at s)(t := pc)" and "next_data s' = next_data s"
    and sorted: "sorted (map m_executeTick (tm_items s'))"
    and lock: "critical pc \<Longrightarrow> m_distributing s'"
    and dist: "distinct (data_ids (in_flight pc @ tm_items s'))"
    and sub: "dom (job_data_pool s') \<subseteq> dom (job_data_pool s)"
    and dom: "dom (job_data_pool s') = set (data_ids (tm_items s')) \<union> set (data_ids (in_flight pc))"
    and fault: "\<And>e. pc \<noteq> D_Fault e"
  shows "timer_inv s'"
proof -
  note D = timer_invD[OF inv]
  have others: "\<not> critical (dist_at s u)" if "u \<noteq> t" for u using D(3)[OF t, of u] that by blast
  have none: "in_flight (dist_at s u) = []" if "u \<noteq> t" for u
    using others[OF that] in_flight_critical by blast
  have "(\<Union>u. set (data_ids (in_flight (dist_at s' u)))) = set (data_ids (in_flight pc))"
    using union_one[of t "\<lambda>u. set (data_ids (in_flight (dist_at s' u)))"] none at by (simp add: data_ids_def)
  moreover have "distinct (data_ids (in_flight (dist_at s' u) @ tm_items s'))" for u
    using dist none[of u] at by (cases "u = t") (auto simp: data_ids_def)
  moreover have "critical (dist_at s' u) \<Longrightarrow> u = t" for u
    using others at by (cases "u = t") auto
  moreover have "\<forall>u e. dist_at s' u \<noteq> D_Fault e" using D(7) fault at by simp
  moreover have "\<forall>d\<in>dom (job_data_pool s'). d < next_data s'" using sub D(6) assms(4) by auto
  ultimately show ?thesis
    using sorted lock dom at unfolding timer_inv_def by (metis fun_upd_same)
qed

lemma start_inv:
  assumes inv: "timer_inv s" and "dist_at s t = D_None"
  shows "timer_inv (to_dist t (D_Exchange now) s)"
proof -
  note D = timer_invD[OF inv]
  let ?s = "to_dist t (D_Exchange now) s"
  have same: "in_flight (dist_at ?s u) = in_flight (dist_at s u)" "critical (dist_at ?s u) = critical (dist_at s u)" for u
    using assms(2) by (auto simp: to_dist_def critical_def)
  have "\<forall>u e. dist_at ?s u \<noteq> D_Fault e" using D(7) by (simp add: to_dist_def)
  moreover have "tm_items ?s = tm_items s" "m_distributing ?s = m_distributing s"
    "job_data_pool ?s = job_data_pool s" "next_data ?s = next_data s"
    by (simp_all add: to_dist_def)
  ultimately show ?thesis using D unfolding timer_inv_def same by metis
qed

section \<open>The steps\<close>

lemma new_data_fresh: "timer_inv s \<Longrightarrow> job_data_pool s (next_data s) = None"
  using timer_invD(6)[of s "next_data s"] by auto

lemma reserve_inv:
  assumes inv: "timer_inv s"
  shows "timer_inv (Reserve now tick owner job s)" (is "timer_inv ?s'")
proof -
  note D = timer_invD[OF inv]
  have fresh: "next_data s \<notin> set (data_ids (tm_items s))" "next_data s \<notin> set (data_ids (in_flight (dist_at s t)))" for t
    using new_data_fresh[OF inv] D(5) by auto
  let ?i = "\<lparr>m_executeTick = now + tick, m_jobData = next_data s\<rparr>"
  have items: "tm_items ?s' = pq_push ?i (tm_items s)" and rest: "dist_at ?s' = dist_at s"
    "m_distributing ?s' = m_distributing s" "next_data ?s' = Suc (next_data s)"
    "dom (job_data_pool ?s') = insert (next_data s) (dom (job_data_pool s))"
    by (simp_all add: Reserve_def new_data_def)
  have ids: "set (data_ids (pq_push ?i (tm_items s))) = insert (next_data s) (set (data_ids (tm_items s)))"
    by (simp add: data_ids_def pq_push_def set_insort_key)
  have "mset (data_ids (pq_push ?i (tm_items s))) = add_mset (next_data s) (mset (data_ids (tm_items s)))"
    by (simp add: data_ids_def pq_push_def)
  then have dist: "distinct (data_ids (pq_push ?i (tm_items s))) \<longleftrightarrow> distinct (next_data s # data_ids (tm_items s))"
    by (metis mset.simps(2) mset_eq_imp_distinct_iff)
  have "distinct (data_ids (in_flight (dist_at s t) @ pq_push ?i (tm_items s)))" for t
    using D(4)[of t] fresh fresh(2)[of t] dist ids by (auto simp: data_ids_def)
  then show ?thesis
    using D(1,2,3,6,7) D(5) ids unfolding timer_inv_def items rest
    by (auto simp: pq.ok_push less_Suc_eq)
qed

lemma take_inv:
  assumes inv: "timer_inv s" and pc: "dist_at s t = D_Take now"
  shows "timer_inv (Distribute alive (dist_at s t) t s)"
proof -
  note D = timer_invD[OF inv]
  have cr: "critical (dist_at s t)" using pc by (simp add: critical_def)
  obtain is' r where td: "take_due now (tm_items s) = (is', r)" by (cases "take_due now (tm_items s)")
  note sp = take_due_split[OF td]
  have s': "Distribute alive (dist_at s t) t s = to_dist t (D_Push is') (s\<lparr>tm_items := r\<rparr>)"
    using pc td by simp
  show ?thesis
    unfolding s'
  proof (rule critical_step[OF inv cr, of _ "D_Push is'"])
    show "sorted (map m_executeTick (tm_items (to_dist t (D_Push is') (s\<lparr>tm_items := r\<rparr>))))"
      using D(1) sp by (simp add: to_dist_def sorted_append)
    show "distinct (data_ids (in_flight (D_Push is') @ tm_items (to_dist t (D_Push is') (s\<lparr>tm_items := r\<rparr>))))"
      using D(4)[of t] sp pc by (simp add: to_dist_def)
    show "dom (job_data_pool (to_dist t (D_Push is') (s\<lparr>tm_items := r\<rparr>)))
        = set (data_ids (tm_items (to_dist t (D_Push is') (s\<lparr>tm_items := r\<rparr>)))) \<union> set (data_ids (in_flight (D_Push is')))"
      using D(5) sp pc flight_of[OF inv cr] by (auto simp: to_dist_def data_ids_def)
  qed (use D(2)[OF cr] in \<open>simp_all add: to_dist_def\<close>)
qed

lemma push_item_ok:
  assumes inv: "timer_inv s" and pc: "dist_at s t = D_Push (item # items)"
  obtains s1 where "push_item alive item s = Inr s1"
    "job_data_pool s1 = (job_data_pool s)(m_jobData item := None)" "tm_items s1 = tm_items s"
    "m_distributing s1 = m_distributing s" "next_data s1 = next_data s" "dist_at s1 = dist_at s"
proof -
  have "m_jobData item \<in> set (data_ids (in_flight (dist_at s t)))" by (simp add: pc data_ids_def)
  then have "m_jobData item \<in> dom (job_data_pool s)" using timer_invD(5)[OF inv] by blast
  then obtain d where "job_data_pool s (m_jobData item) = Some d" by blast
  then show ?thesis
    using that by (cases "alive (m_owner d)") (simp_all add: push_item_def delete_data_def)
qed

lemma push_inv:
  assumes inv: "timer_inv s" and pc: "dist_at s t = D_Push (item # items)"
  shows "timer_inv (Distribute alive (dist_at s t) t s)"
proof -
  note D = timer_invD[OF inv]
  have cr: "critical (dist_at s t)" using pc by (simp add: critical_def)
  obtain s1 where s1: "push_item alive item s = Inr s1"
    "job_data_pool s1 = (job_data_pool s)(m_jobData item := None)" "tm_items s1 = tm_items s"
    "m_distributing s1 = m_distributing s" "next_data s1 = next_data s" "dist_at s1 = dist_at s"
    by (rule push_item_ok[OF inv pc])
  have s': "Distribute alive (dist_at s t) t s = to_dist t (D_Push items) s1" using pc s1 by simp
  have dist: "distinct (m_jobData item # data_ids (items @ tm_items s))"
    using D(4)[of t] pc by (simp add: data_ids_def)
  show ?thesis
    unfolding s'
  proof (rule critical_step[OF inv cr, of _ "D_Push items"])
    show "dom (job_data_pool (to_dist t (D_Push items) s1))
        = set (data_ids (tm_items (to_dist t (D_Push items) s1))) \<union> set (data_ids (in_flight (D_Push items)))"
      using D(5) pc flight_of[OF inv cr] dist s1(2,3) by (auto simp: to_dist_def data_ids_def)
    show "distinct (data_ids (in_flight (D_Push items) @ tm_items (to_dist t (D_Push items) s1)))"
      using dist s1(3) by (simp add: to_dist_def)
  qed (use D(1) D(2)[OF cr] s1 in \<open>auto simp: to_dist_def\<close>)
qed

lemma clear_loop_ok:
  assumes "distinct (data_ids q)" and "set (data_ids q) \<subseteq> dom (job_data_pool s)"
  shows "\<exists>s'. Clear_loop q s = Inr s' \<and> tm_items s' = [] \<and> dom (job_data_pool s') = dom (job_data_pool s) - set (data_ids q)
    \<and> dist_at s' = dist_at s \<and> m_distributing s' = m_distributing s \<and> next_data s' = next_data s"
  using assms
proof (induction q arbitrary: s)
  case Nil
  then show ?case by (subst Clear_loop.simps) (simp add: pq_empty_def data_ids_def)
next
  case (Cons i q)
  let ?s = "s\<lparr>job_data_pool := (job_data_pool s)(m_jobData i := None)\<rparr>"
  obtain d where "job_data_pool s (m_jobData i) = Some d" using Cons.prems(2) by (auto simp: data_ids_def)
  then have run: "Clear_loop (i # q) s = Clear_loop q ?s"
    by (subst Clear_loop.simps) (simp add: pq_empty_def pq_top_def pq_pop_def delete_data_def)
  have sub: "set (data_ids q) \<subseteq> dom (job_data_pool ?s)"
  proof -
    have "m_jobData i \<notin> set (data_ids q)" using Cons.prems(1) by (simp add: data_ids_def)
    then show ?thesis using Cons.prems(2) by (simp add: subset_Diff_insert) (simp add: data_ids_def)
  qed
  have "distinct (data_ids q)" using Cons.prems by (simp add: data_ids_def)
  then obtain s' where s': "Clear_loop q ?s = Inr s'" "tm_items s' = []"
      "dom (job_data_pool s') = dom (job_data_pool ?s) - set (data_ids q)"
      "dist_at s' = dist_at ?s" "m_distributing s' = m_distributing ?s" "next_data s' = next_data ?s"
    using Cons.IH[OF _ sub] by blast
  have "dom (job_data_pool s') = dom (job_data_pool s) - set (data_ids (i # q))"
    unfolding s'(3) by (auto simp: data_ids_def split: if_splits)
  with s' run show ?case by simp
qed

lemma clear_ok:
  assumes inv: "timer_inv s"
  obtains s' where "Clear s = Inr s'" "timer_inv s'" "tm_items s' = []"
proof -
  note D = timer_invD[OF inv]
  have "distinct (data_ids (tm_items s))" using D(4) by (simp add: data_ids_def)
  moreover have "set (data_ids (tm_items s)) \<subseteq> dom (job_data_pool s)" using D(5) by blast
  ultimately obtain s' where s': "Clear s = Inr s'" "tm_items s' = []"
    "dom (job_data_pool s') = dom (job_data_pool s) - set (data_ids (tm_items s))"
    "dist_at s' = dist_at s" "m_distributing s' = m_distributing s" "next_data s' = next_data s"
    using clear_loop_ok[of "tm_items s" s] unfolding Clear_def by blast
  have "(\<Union>t. set (data_ids (in_flight (dist_at s t)))) \<inter> set (data_ids (tm_items s)) = {}"
  proof (rule equals0I)
    fix x assume x: "x \<in> (\<Union>t. set (data_ids (in_flight (dist_at s t)))) \<inter> set (data_ids (tm_items s))"
    then obtain t where "x \<in> set (data_ids (in_flight (dist_at s t)))" by blast
    then show False using x D(4)[of t] by (auto simp: data_ids_def)
  qed
  then have "dom (job_data_pool s') = (\<Union>t. set (data_ids (in_flight (dist_at s t))))"
    by (simp only: s'(3) D(5) Un_Diff Diff_triv) simp
  moreover have "distinct (data_ids (in_flight (dist_at s t)))" for t
    using D(4)[of t] by (simp add: data_ids_def)
  moreover have "\<forall>d \<in> dom (job_data_pool s'). d < next_data s'"
    using s'(3,6) D(6) by auto
  ultimately have "timer_inv s'"
    using s' D(2,3,7) by (simp add: timer_inv_def data_ids_def)
  with s' that show thesis by blast
qed

lemma distribute_inv:
  assumes inv: "timer_inv s"
  shows "timer_inv (Distribute alive (dist_at s t) t s)"
proof -
  note D = timer_invD[OF inv]
  show ?thesis
  proof (cases "dist_at s t")
    case (D_Exchange now)
    show ?thesis
    proof (cases "m_distributing s")
      case True
      have nf: "in_flight (dist_at s t) = []" using D_Exchange by simp
      have same: "in_flight (dist_at (to_dist t D_None s) u) = in_flight (dist_at s u)"
        "critical (dist_at (to_dist t D_None s) u) = critical (dist_at s u)" for u
        using D_Exchange by (auto simp: to_dist_def critical_def)
      have "\<forall>u e. dist_at (to_dist t D_None s) u \<noteq> D_Fault e" using D(7) by (simp add: to_dist_def)
      then have "timer_inv (to_dist t D_None s)"
        using D unfolding timer_inv_def same by (simp add: to_dist_def)
      then show ?thesis using D_Exchange True by simp
    next
      case False
      let ?s = "to_dist t (D_Take now) (s\<lparr>m_distributing := True\<rparr>)"
      have none: "\<not> critical (dist_at s u)" for u using D(2) False by blast
      have cr: "critical (dist_at ?s u) \<longleftrightarrow> u = t" for u
        using none by (simp add: to_dist_def) (simp add: critical_def)
      have same: "in_flight (dist_at ?s u) = in_flight (dist_at s u)" for u
        using D_Exchange by (auto simp: to_dist_def)
      have "\<forall>u e. dist_at ?s u \<noteq> D_Fault e" using D(7) by (simp add: to_dist_def)
      then have "timer_inv ?s"
        using D(1,4,5,6) cr unfolding timer_inv_def same by (simp add: to_dist_def)
      then show ?thesis using D_Exchange False by simp
    qed
  next
    case (D_Take now)
    then show ?thesis using take_inv[OF inv] by simp
  next
    case (D_Push items)
    show ?thesis
    proof (cases items)
      case Nil
      then have cr: "critical (dist_at s t)" using D_Push by (simp add: critical_def)
      show ?thesis
        by (rule critical_step[OF inv cr, of _ D_Store])
          (use Nil D_Push D(1,2,4,5) cr flight_of[OF inv cr] in
            \<open>auto simp: to_dist_def data_ids_def critical_def\<close>)
    next
      case (Cons item rest)
      then show ?thesis using push_inv[OF inv, of t item rest alive] D_Push by simp
    qed
  next
    case D_Store
    then have cr: "critical (dist_at s t)" by (simp add: critical_def)
    have dom: "dom (job_data_pool s) = set (data_ids (tm_items s))"
      using D(5) flight_of[OF inv cr] D_Store by (simp add: data_ids_def)
    have "distinct (data_ids (tm_items s))" using D(4)[of t] by (simp add: data_ids_def)
    then show ?thesis
      by (intro critical_step[OF inv cr, of _ D_None])
        (use D_Store D(1) dom in \<open>simp_all add: to_dist_def data_ids_def critical_def\<close>)
  qed (use inv D(7)[of t] in simp_all)
qed

lemma timer_init_inv: "timer_init s \<Longrightarrow> timer_inv s"
  by (simp add: timer_init_def timer_inv_def critical_def data_ids_def)

lemma timer_step_inv: "timer_step s s' \<Longrightarrow> timer_inv s \<Longrightarrow> timer_inv s'"
proof (induction rule: timer_step.induct)
  case (clear_all s s')
  then show ?case by (metis clear_ok sum.inject(2))
qed (auto intro: reserve_inv start_inv distribute_inv)

interpretation timer_machine: invariant_system timer_init timer_step timer_inv
  by unfold_locales (fact timer_init_inv, erule (1) timer_step_inv[rotated])

section \<open>A whole Distribute\<close>

text \<open>The steps of a thread that nobody interrupts: its pushes, in the order of the items.\<close>

fun job_pushes :: "(nat \<Rightarrow> bool) \<Rightarrow> (nat \<Rightarrow> 'j job_data option) \<Rightarrow> timer_item list \<Rightarrow> (nat \<times> 'j) list" where
  "job_pushes alive pool [] = []"
| "job_pushes alive pool (i # is) =
     (case pool (m_jobData i) of
        None \<Rightarrow> job_pushes alive pool is
      | Some d \<Rightarrow> (if alive (m_owner d) then [(m_owner d, m_job d)] else []) @ job_pushes alive pool is)"

definition dist_next :: "(nat \<Rightarrow> bool) \<Rightarrow> u32 \<Rightarrow> 'j timer_sys \<Rightarrow> 'j timer_sys" where
  "dist_next alive t s = Distribute alive (dist_at s t) t s"

lemma job_pushes_cong:
  "(\<And>i. i \<in> set is \<Longrightarrow> pool (m_jobData i) = pool' (m_jobData i)) \<Longrightarrow>
     job_pushes alive pool is = job_pushes alive pool' is"
  by (induction "is") (simp_all split: option.split)

lemma dist_next_inv: "timer_inv s \<Longrightarrow> timer_inv (dist_next alive t s)"
  unfolding dist_next_def by (rule distribute_inv)

lemma run_pushes:
  "timer_inv s \<Longrightarrow> dist_at s t = D_Push items \<Longrightarrow>
     dist_at ((dist_next alive t ^^ length items) s) t = D_Push []
     \<and> tm_items ((dist_next alive t ^^ length items) s) = tm_items s
     \<and> pushes ((dist_next alive t ^^ length items) s) = pushes s @ job_pushes alive (job_data_pool s) items"
proof (induction items arbitrary: s)
  case (Cons i "is")
  let ?s = "dist_next alive t s"
  have in_pool: "m_jobData i \<in> dom (job_data_pool s)"
    using timer_invD(5)[OF Cons.prems(1)] Cons.prems(2)
    by (auto simp: data_ids_def intro!: exI[of _ t])
  then obtain d where d: "job_data_pool s (m_jobData i) = Some d" by blast
  have dist: "m_jobData i \<notin> set (data_ids is)"
    using timer_invD(4)[OF Cons.prems(1), of t] Cons.prems(2) by (simp add: data_ids_def)
  have s': "dist_at ?s t = D_Push is" "tm_items ?s = tm_items s"
    "job_data_pool ?s = (job_data_pool s)(m_jobData i := None)"
    "pushes ?s = pushes s @ (if alive (m_owner d) then [(m_owner d, m_job d)] else [])"
    using Cons.prems(2) d
    by (auto simp: dist_next_def push_item_def delete_data_def to_dist_def)
  have same: "job_pushes alive (job_data_pool ?s) is = job_pushes alive (job_data_pool s) is"
    using dist by (intro job_pushes_cong) (simp add: s'(3), metis data_ids_def image_eqI set_map)
  show ?case
    using Cons.IH[OF dist_next_inv[OF Cons.prems(1)] s'(1), unfolded same] s'(2,4) d
    by (simp add: funpow_Suc_right del: funpow.simps)
qed simp

section \<open>Properties\<close>

abbreviation timer_zero :: "nat timer_sys" where
  "timer_zero \<equiv> \<lparr>tm_items = [], m_distributing = False, job_data_pool = Map.empty,
     dist_at = (\<lambda>_. D_None), next_data = 0, pushes = []\<rparr>"

abbreviation timer_demo :: "nat timer_sys" where
  "timer_demo \<equiv> Reserve 100 5 1 7 timer_zero"

lemma timer_demo_reach: "reach timer_init timer_step timer_demo"
  by (rule reach_step[of timer_init timer_step timer_zero], rule reach_init, simp add: timer_init_def)
    (rule reserve)

abbreviation timer_run :: "nat timer_sys" where
  "timer_run \<equiv> to_dist 1 (D_Exchange 200) timer_demo"

lemma timer_run_reach: "reach timer_init timer_step timer_run"
  by (rule reach_step[OF timer_demo_reach start]) (simp add: Reserve_def new_data_def)

text \<open>C31: Distribute pushes exactly the due jobs. Called in a reachable state in which nobody
  distributes, and not interrupted, Distribute(now) takes the items whose tick has come and leaves
  the later ones; it pushes the job of each taken item whose job queue still exists, in the order
  of their ticks, and returns with the flag cleared.\<close>

theorem Distribute_due:
  assumes "reach timer_init timer_step s" and "dist_at s t = D_Exchange now" and "\<not> m_distributing s"
  shows "\<exists>due late. tm_items s = due @ late
    \<and> sorted (map m_executeTick due) \<and> (\<forall>i\<in>set due. m_executeTick i \<le> now) \<and> (\<forall>i\<in>set late. now < m_executeTick i)
    \<and> (let s' = (dist_next alive t ^^ (length due + 4)) s in
        dist_at s' t = D_None \<and> \<not> m_distributing s' \<and> tm_items s' = late
        \<and> pushes s' = pushes s @ job_pushes alive (job_data_pool s) due)"
proof -
  note inv = timer_machine.reach_inv[OF assms(1)]
  obtain due late where td: "take_due now (tm_items s) = (due, late)" by (cases "take_due now (tm_items s)")
  note split = take_due_split[OF td]
  have srt: "sorted (map m_executeTick due)"
    using timer_invD(1)[OF inv] by (simp add: split sorted_append)
  define s1 where "s1 = dist_next alive t s"
  define s2 where "s2 = dist_next alive t s1"
  define s3 where "s3 = (dist_next alive t ^^ length due) s2"
  have s1: "dist_at s1 t = D_Take now" "tm_items s1 = tm_items s" "pushes s1 = pushes s" "job_data_pool s1 = job_data_pool s"
    using assms(2,3) by (simp_all add: s1_def dist_next_def to_dist_def)
  have s2: "dist_at s2 t = D_Push due" "tm_items s2 = late" "pushes s2 = pushes s" "job_data_pool s2 = job_data_pool s"
    using s1 td by (simp_all add: s2_def dist_next_def to_dist_def)
  have "timer_inv s2" unfolding s2_def s1_def by (intro dist_next_inv inv)
  from run_pushes[OF this s2(1), of alive] s2
  have s3: "dist_at s3 t = D_Push []" "tm_items s3 = late"
    "pushes s3 = pushes s @ job_pushes alive (job_data_pool s) due"
    by (simp_all add: s3_def)
  have "(dist_next alive t ^^ (length due + 4)) s = dist_next alive t (dist_next alive t s3)"
  proof -
    have "length due + 4 = Suc (Suc (length due + Suc (Suc 0)))" by simp
    then show ?thesis by (simp only: funpow.simps funpow_add comp_apply s1_def s2_def s3_def id_apply)
  qed
  moreover have "dist_at (dist_next alive t (dist_next alive t s3)) t = D_None"
    "\<not> m_distributing (dist_next alive t (dist_next alive t s3))"
    "tm_items (dist_next alive t (dist_next alive t s3)) = late"
    "pushes (dist_next alive t (dist_next alive t s3)) = pushes s3"
    using s3 by (simp_all add: dist_next_def to_dist_def)
  ultimately show ?thesis
    using split srt take_due_due[OF td] take_due_rest[OF timer_invD(1)[OF inv] td] s3(3)
    by (intro exI[of _ due] exI[of _ late]) (simp add: Let_def)
qed

theorem Distribute_due_witness:
  "\<exists>due late. tm_items timer_run = due @ late \<and> filter (\<lambda>i. m_executeTick i \<le> 200) late = []"
proof -
  have "dist_at timer_run 1 = D_Exchange 200" "\<not> m_distributing timer_run"
    by (simp_all add: to_dist_def Reserve_def new_data_def)
  from Distribute_due[OF timer_run_reach this, of "\<lambda>_. True"]
  obtain due late where "tm_items timer_run = due @ late" "\<forall>i\<in>set late. 200 < m_executeTick i" by blast
  then show ?thesis by (intro exI[of _ due] exI[of _ late]) (simp add: filter_empty_conv not_le)
qed

text \<open>C30: No JobData is lost or freed twice. In every reachable state the objects in the pool are
  exactly those of the queued items and of the items the distributing thread still has to push; no
  thread ever reads or frees a dead one, Clear never fails, and one thread distributes at a time.\<close>

theorem job_data_owned:
  assumes "reach timer_init timer_step s"
  shows "dom (job_data_pool s) = set (data_ids (tm_items s)) \<union> (\<Union>t. set (data_ids (in_flight (dist_at s t))))
    \<and> (\<forall>t e. dist_at s t \<noteq> D_Fault e)
    \<and> (\<exists>s'. Clear s = Inr s')
    \<and> (\<forall>t u. critical (dist_at s t) \<and> critical (dist_at s u) \<longrightarrow> t = u)"
proof -
  note inv = timer_machine.reach_inv[OF assms]
  have "\<exists>s'. Clear s = Inr s'" using clear_ok[OF inv] by blast
  then show ?thesis using timer_invD(3,5,7)[OF inv] by blast
qed

theorem job_data_owned_witness: "\<exists>s'. Clear timer_run = Inr s'"
  using job_data_owned[OF timer_run_reach] by blast

end
