(* ===== verification/Memory_Pool.thy ===== *)
theory Memory_Pool
  imports Server_Base
begin

text \<open>
  The pooled heap (ServerCore/Memory.h, Memory.cpp, MemoryPool.h, MemoryPool.cpp) in its release
  configuration (no _STOMP). The constructor of Memory is run loop by loop; Allocate and Release
  work on a heap of blocks. What Windows provides is an argument: the size H of a MemoryHeader
  (its base SLIST_ENTRY belongs to the platform) and the address _aligned_malloc returns. The
  interlocked lists of the pools are stacks whose push and pop are single steps.
\<close>

section \<open>The pool table\<close>

definition MAX_ALLOC_SIZE :: nat where "MAX_ALLOC_SIZE = 4096"
definition POOL_COUNT :: nat where "POOL_COUNT = 1024 div 32 + 1024 div 128 + 2048 div 256"

text \<open>A pool is its index in m_pools; an entry of the table nobody has written is None.\<close>

record memory_tables =
  m_pools :: "nat list"
  m_poolTable :: "nat \<Rightarrow> nat option"

record ctor_state = memory_tables +
  cs_size :: nat
  cs_tableIndex :: nat

function fill_table :: "nat \<Rightarrow> nat \<Rightarrow> nat \<Rightarrow> (nat \<Rightarrow> nat option) \<Rightarrow> nat \<times> (nat \<Rightarrow> nat option)" where
  "fill_table pool sz tableIndex table =
     (if tableIndex \<le> sz then fill_table pool sz (Suc tableIndex) (table(tableIndex := Some pool))
      else (tableIndex, table))"
  by pat_completeness auto
termination
  by (relation "measure (\<lambda>(pool, sz, tableIndex, table). Suc sz - tableIndex)") auto

declare fill_table.simps [simp del]

definition add_pool :: "ctor_state \<Rightarrow> ctor_state" where
  "add_pool c =
     (let (i, table) = fill_table (length (m_pools c)) (cs_size c) (cs_tableIndex c) (m_poolTable c) in
      c\<lparr>m_pools := m_pools c @ [cs_size c], m_poolTable := table, cs_tableIndex := i\<rparr>)"

text \<open>The three for loops, with their increment (32, 128, 256) and their bound.\<close>

function pool_loop :: "nat \<Rightarrow> nat \<Rightarrow> ctor_state \<Rightarrow> ctor_state" where
  "pool_loop inc bound c =
     (if inc = 0 \<or> bound < cs_size c then c
      else let c' = add_pool c in pool_loop inc bound (c'\<lparr>cs_size := cs_size c' + inc\<rparr>))"
  by pat_completeness auto
termination
  by (relation "measure (\<lambda>(inc, bound, c). Suc bound - cs_size c)")
    (auto simp: add_pool_def split: prod.splits)

declare pool_loop.simps [simp del]

definition Memory_ctor :: memory_tables where
  "Memory_ctor =
     (let c = \<lparr>m_pools = [], m_poolTable = (\<lambda>_. None), cs_size = 32, cs_tableIndex = 0\<rparr>;
          c = pool_loop 32 1024 c;
          c = pool_loop 128 2048 c;
          c = pool_loop 256 4096 c
      in \<lparr>m_pools = m_pools c, m_poolTable = m_poolTable c\<rparr>)"

section \<open>Blocks, headers and pools\<close>

text \<open>A block the system gave out: its bytes, and the field allocSize of the header in front.\<close>

record block =
  bl_bytes :: nat
  allocSize :: int

record heap =
  blocks :: "nat \<Rightarrow> block option"
  m_header :: "nat \<Rightarrow> nat list"
  m_useCount :: "nat \<Rightarrow> int"
  m_reservedCount :: "nat \<Rightarrow> int"

definition heap_start :: heap where
  "heap_start = \<lparr>blocks = Map.empty, m_header = (\<lambda>_. []), m_useCount = (\<lambda>_. 0), m_reservedCount = (\<lambda>_. 0)\<rparr>"

definition set_allocSize :: "nat \<Rightarrow> int \<Rightarrow> heap \<Rightarrow> heap" where
  "set_allocSize a n h = h\<lparr>blocks := (blocks h)(a := map_option (\<lambda>b. b\<lparr>allocSize := n\<rparr>) (blocks h a))\<rparr>"

definition aligned_malloc :: "nat \<Rightarrow> nat \<Rightarrow> heap \<Rightarrow> nat \<times> heap" where
  "aligned_malloc fresh n h = (fresh, h\<lparr>blocks := (blocks h)(fresh \<mapsto> \<lparr>bl_bytes = n, allocSize = 0\<rparr>)\<rparr>)"

definition AttachHeader :: "nat \<Rightarrow> nat \<Rightarrow> int \<Rightarrow> heap \<Rightarrow> nat \<times> heap" where
  "AttachHeader H a n h = (a + H, set_allocSize a n h)"

definition DetachHeader :: "nat \<Rightarrow> nat \<Rightarrow> nat" where
  "DetachHeader H p = p - H"

definition MemoryPool_Push :: "nat \<Rightarrow> nat \<Rightarrow> heap \<Rightarrow> heap" where
  "MemoryPool_Push pool a h =
     (let h1 = set_allocSize a 0 h in
      h1\<lparr>m_header := (m_header h1)(pool := a # m_header h1 pool),
         m_useCount := (m_useCount h1)(pool := m_useCount h1 pool - 1),
         m_reservedCount := (m_reservedCount h1)(pool := m_reservedCount h1 pool + 1)\<rparr>)"

definition MemoryPool_Pop :: "nat \<Rightarrow> nat \<Rightarrow> nat \<Rightarrow> heap \<Rightarrow> (nat \<times> heap) result" where
  "MemoryPool_Pop sz pool fresh h =
     rbind
       (case m_header h pool of
          [] \<Rightarrow> Inr (aligned_malloc fresh sz h)
        | a # rest \<Rightarrow>
            (case blocks h a of
               None \<Rightarrow> Inl UseAfterFree
             | Some b \<Rightarrow>
                 rbind (ASSERT_CRASH (allocSize b = 0)) (\<lambda>_.
                   Inr (a, h\<lparr>m_header := (m_header h)(pool := rest),
                             m_reservedCount := (m_reservedCount h)(pool := m_reservedCount h pool - 1)\<rparr>))))
       (\<lambda>(a, h1). Inr (a, h1\<lparr>m_useCount := (m_useCount h1)(pool := m_useCount h1 pool + 1)\<rparr>))"

text \<open>The destructor takes the pieces off its list and frees them; freeing twice is a fault.\<close>

definition aligned_free :: "nat \<Rightarrow> heap \<Rightarrow> heap result" where
  "aligned_free a h = (if blocks h a = None then Inl UseAfterFree else Inr (h\<lparr>blocks := (blocks h)(a := None)\<rparr>))"

fun free_loop :: "nat \<Rightarrow> nat list \<Rightarrow> heap \<Rightarrow> heap result" where
  "free_loop pool [] h = Inr h"
| "free_loop pool (memory # rest) h =
     rbind (aligned_free memory (h\<lparr>m_header := (m_header h)(pool := rest)\<rparr>)) (free_loop pool rest)"

definition MemoryPool_dtor :: "nat \<Rightarrow> heap \<Rightarrow> heap result" where
  "MemoryPool_dtor pool h = free_loop pool (m_header h pool) h"

fun delete_pools :: "nat list \<Rightarrow> heap \<Rightarrow> heap result" where
  "delete_pools [] h = Inr h"
| "delete_pools (pool # pools) h = rbind (MemoryPool_dtor pool h) (delete_pools pools)"

definition Memory_dtor :: "memory_tables \<Rightarrow> heap \<Rightarrow> (memory_tables \<times> heap) result" where
  "Memory_dtor m h = rbind (delete_pools [0..<length (m_pools m)] h) (\<lambda>h'. Inr (m\<lparr>m_pools := []\<rparr>, h'))"

section \<open>Allocate and Release\<close>

definition pool_at :: "memory_tables \<Rightarrow> int \<Rightarrow> nat result" where
  "pool_at m n =
     (if n < 0 \<or> int MAX_ALLOC_SIZE < n then Inl OutOfBounds
      else case m_poolTable m (nat n) of None \<Rightarrow> Inl UninitRead | Some p \<Rightarrow> Inr p)"

definition Allocate :: "nat \<Rightarrow> memory_tables \<Rightarrow> int \<Rightarrow> nat \<Rightarrow> heap \<Rightarrow> (nat \<times> heap) result" where
  "Allocate H m sz fresh h =
     (let n = sz + int H in
      if \<not> fits_i32 n then Inl SignedOverflow
      else
        rbind
          (if n > int MAX_ALLOC_SIZE then Inr (aligned_malloc fresh (nat n) h)
           else rbind (pool_at m n) (\<lambda>p. MemoryPool_Pop (m_pools m ! p) p fresh h))
          (\<lambda>(a, h1). Inr (AttachHeader H a n h1)))"

definition Release :: "nat \<Rightarrow> memory_tables \<Rightarrow> nat \<Rightarrow> heap \<Rightarrow> heap result" where
  "Release H m p h =
     (let a = DetachHeader H p in
      case blocks h a of
        None \<Rightarrow> Inl UseAfterFree
      | Some b \<Rightarrow>
          rbind (ASSERT_CRASH (allocSize b > 0)) (\<lambda>_.
            if allocSize b > int MAX_ALLOC_SIZE then Inr (h\<lparr>blocks := (blocks h)(a := None)\<rparr>)
            else rbind (pool_at m (allocSize b)) (\<lambda>pool. Inr (MemoryPool_Push pool a h))))"

text \<open>PoolAllocator, StlAllocator, xnew and xdelete call these two with the global Memory.\<close>

definition PoolAllocator_Alloc :: "nat \<Rightarrow> int \<Rightarrow> nat \<Rightarrow> heap \<Rightarrow> (nat \<times> heap) result" where
  "PoolAllocator_Alloc H sz fresh h = Allocate H Memory_ctor sz fresh h"

definition PoolAllocator_Release :: "nat \<Rightarrow> nat \<Rightarrow> heap \<Rightarrow> heap result" where
  "PoolAllocator_Release H p h = Release H Memory_ctor p h"

section \<open>The heap in use\<close>

text \<open>
  What the platform guarantees of a new block: it overlaps no block that is not freed. The
  callers release only pointers they got and have not released (live below).
\<close>

definition fresh_block :: "heap \<Rightarrow> nat \<Rightarrow> nat \<Rightarrow> bool" where
  "fresh_block h a n \<longleftrightarrow> blocks h a = None
     \<and> (\<forall>x b. blocks h x = Some b \<longrightarrow> a + n \<le> x \<or> x + bl_bytes b \<le> a)"

definition live :: "heap \<Rightarrow> nat \<Rightarrow> bool" where
  "live h a \<longleftrightarrow> (\<exists>b. blocks h a = Some b \<and> allocSize b \<noteq> 0)"

definition heap_init :: "heap \<Rightarrow> bool" where
  "heap_init h \<longleftrightarrow> h = heap_start"

definition malloc_bytes :: "memory_tables \<Rightarrow> int \<Rightarrow> nat" where
  "malloc_bytes m n = (if n > int MAX_ALLOC_SIZE then nat n else m_pools m ! the (m_poolTable m (nat n)))"

inductive heap_step :: "nat \<Rightarrow> heap \<Rightarrow> heap \<Rightarrow> bool" for H :: nat where
  alloc: "0 < H \<Longrightarrow> 0 \<le> sz \<Longrightarrow> fresh_block h fresh (malloc_bytes Memory_ctor (sz + int H)) \<Longrightarrow>
     PoolAllocator_Alloc H sz fresh h = Inr (p, h') \<Longrightarrow> heap_step H h h'"
| release: "live h a \<Longrightarrow> PoolAllocator_Release H (a + H) h = Inr h' \<Longrightarrow> heap_step H h h'"

end
