(* ===== verification/Memory_Pool_Safety.thy ===== *)
theory Memory_Pool_Safety
  imports Memory_Pool
begin

text \<open>
  What the constructor of Memory writes into its table, and the safety of the pooled heap: no
  memory is handed out twice, every piece is large enough, and the counters of the pools are right.
\<close>

section \<open>The table\<close>

definition first_fit :: "nat list \<Rightarrow> nat \<Rightarrow> nat" where
  "first_fit pools k = length (takeWhile (\<lambda>s. s < k) pools)"

definition ctor_ok :: "ctor_state \<Rightarrow> bool" where
  "ctor_ok c \<longleftrightarrow> sorted_wrt (<) (m_pools c) \<and> (\<forall>s\<in>set (m_pools c). s < cs_size c \<and> s < cs_tableIndex c)
     \<and> cs_tableIndex c = (if m_pools c = [] then 0 else Suc (last (m_pools c)))
     \<and> (\<forall>k. m_poolTable c k = (if k < cs_tableIndex c then Some (first_fit (m_pools c) k) else None))"

lemma fill_table_spec:
  "fill_table p sz i tb = (max i (Suc sz), \<lambda>k. if i \<le> k \<and> k \<le> sz then Some p else tb k)"
proof (induction p sz i tb rule: fill_table.induct)
  case (1 p sz i tb)
  show ?case
  proof (cases "i \<le> sz")
    case True
    have "(\<lambda>k. if Suc i \<le> k \<and> k \<le> sz then Some p else (tb(i \<mapsto> p)) k)
        = (\<lambda>k. if i \<le> k \<and> k \<le> sz then Some p else tb k)"
      using True by (auto simp: fun_eq_iff)
    then show ?thesis using "1.IH"[OF True] True by (subst fill_table.simps) (simp only: if_True, simp)
  next
    case False
    then show ?thesis by (subst fill_table.simps) (auto simp: fun_eq_iff max_def)
  qed
qed

lemma first_fit_bigger: "k \<le> s \<Longrightarrow> s \<in> set pools \<Longrightarrow> first_fit (pools @ [t]) k = first_fit pools k"
  by (induction pools) (auto simp: first_fit_def takeWhile_append)

lemma first_fit_new: "(\<forall>s\<in>set pools. s < k) \<Longrightarrow> k \<le> t \<Longrightarrow> first_fit (pools @ [t]) k = length pools"
  by (induction pools) (auto simp: first_fit_def)

lemma add_pool_ok:
  assumes "ctor_ok c"
  shows "ctor_ok ((add_pool c)\<lparr>cs_size := cs_size (add_pool c) + Suc n\<rparr>)"
    "m_pools (add_pool c) = m_pools c @ [cs_size c]" "cs_size (add_pool c) = cs_size c"
proof -
  have idx: "cs_tableIndex c \<le> cs_size c"
    using assms by (cases "m_pools c = []") (auto simp: ctor_ok_def Suc_le_eq)
  have c': "add_pool c = c\<lparr>m_pools := m_pools c @ [cs_size c],
      m_poolTable := (\<lambda>k. if cs_tableIndex c \<le> k \<and> k \<le> cs_size c then Some (length (m_pools c)) else m_poolTable c k),
      cs_tableIndex := Suc (cs_size c)\<rparr>"
    using idx by (simp add: add_pool_def fill_table_spec max_def)
  have "first_fit (m_pools c @ [cs_size c]) k = first_fit (m_pools c) k" if "k < cs_tableIndex c" for k
  proof -
    have "m_pools c \<noteq> []" using that assms by (auto simp: ctor_ok_def)
    moreover have "k \<le> last (m_pools c)" using that assms calculation by (simp add: ctor_ok_def)
    ultimately show ?thesis by (intro first_fit_bigger[of _ "last (m_pools c)"]) simp_all
  qed
  moreover have "first_fit (m_pools c @ [cs_size c]) k = length (m_pools c)"
    if "cs_tableIndex c \<le> k" "k \<le> cs_size c" for k
    using that assms by (intro first_fit_new) (auto simp: ctor_ok_def)
  moreover have "m_poolTable c k = None" if "\<not> k < cs_tableIndex c" for k
    using that assms by (simp add: ctor_ok_def)
  ultimately show "ctor_ok ((add_pool c)\<lparr>cs_size := cs_size (add_pool c) + Suc n\<rparr>)"
    using assms idx by (auto simp: c' ctor_ok_def sorted_wrt_append less_Suc_eq_le)
  show "m_pools (add_pool c) = m_pools c @ [cs_size c]" "cs_size (add_pool c) = cs_size c"
    by (simp_all add: c')
qed

definition loop_sizes :: "nat \<Rightarrow> nat \<Rightarrow> nat \<Rightarrow> nat list" where
  "loop_sizes inc bound s = map (\<lambda>i. s + i * inc) [0..<(bound + inc - s) div inc]"

lemma loop_sizes_step:
  assumes "s \<le> bound" "0 < inc"
  shows "loop_sizes inc bound s = s # loop_sizes inc bound (s + inc)"
proof -
  have "(bound + inc - s) div inc = Suc ((bound + inc - (s + inc)) div inc)"
    using assms div_add_self2[of inc "bound - s"] by simp
  then show ?thesis
    by (simp add: loop_sizes_def upt_conv_Cons map_Suc_upt[symmetric] comp_def add.assoc del: upt_Suc)
qed

lemma pool_loop_ok:
  "ctor_ok c \<Longrightarrow> 0 < inc \<Longrightarrow> ctor_ok (pool_loop inc bound c)
     \<and> m_pools (pool_loop inc bound c) = m_pools c @ loop_sizes inc bound (cs_size c)
     \<and> cs_size (pool_loop inc bound c) = cs_size c + length (loop_sizes inc bound (cs_size c)) * inc"
proof (induction inc bound c rule: pool_loop.induct)
  case (1 inc bound c)
  obtain n where inc: "inc = Suc n" using "1.prems" by (cases inc) auto
  show ?case
  proof (cases "bound < cs_size c")
    case True
    then have "loop_sizes inc bound (cs_size c) = []" using "1.prems" by (simp add: loop_sizes_def)
    then show ?thesis using True "1.prems" by (subst (1 2 3) pool_loop.simps) simp
  next
    case False
    let ?c = "(add_pool c)\<lparr>cs_size := cs_size (add_pool c) + inc\<rparr>"
    note A = add_pool_ok[OF "1.prems"(1)]
    have step: "pool_loop inc bound c = pool_loop inc bound ?c"
      using False "1.prems" by (subst pool_loop.simps) (simp add: Let_def)
    have "ctor_ok ?c" using A(1)[of n] by (simp add: inc)
    then show ?thesis
      using "1.IH"[OF _ refl, of ] False "1.prems"(2) A(2,3) loop_sizes_step[of "cs_size c" bound inc]
      by (simp add: step)
  qed
qed

definition pool_sizes :: "nat list" where
  "pool_sizes = loop_sizes 32 1024 32 @ loop_sizes 128 2048 1056 @ loop_sizes 256 4096 2080"

lemma Memory_ctor_table:
  "m_pools Memory_ctor = pool_sizes"
  "m_poolTable Memory_ctor k = (if k \<le> 3872 then Some (first_fit pool_sizes k) else None)"
  "sorted_wrt (<) pool_sizes"
proof -
  let ?c0 = "\<lparr>m_pools = [], m_poolTable = (\<lambda>_. None), cs_size = 32, cs_tableIndex = 0\<rparr> :: ctor_state"
  have "ctor_ok ?c0" by (simp add: ctor_ok_def)
  note 1 = pool_loop_ok[OF this, of 32 1024]
  then have ok1: "ctor_ok (pool_loop 32 1024 ?c0)" by simp
  note 2 = pool_loop_ok[OF ok1, of 128 2048]
  then have ok2: "ctor_ok (pool_loop 128 2048 (pool_loop 32 1024 ?c0))" by simp
  note 3 = pool_loop_ok[OF ok2, of 256 4096]
  have s1: "cs_size (pool_loop 32 1024 ?c0) = 1056" using 1 by (simp add: loop_sizes_def)
  have s2: "cs_size (pool_loop 128 2048 (pool_loop 32 1024 ?c0)) = 2080"
    using 2 by (simp add: s1) (simp add: loop_sizes_def)
  define c where "c = pool_loop 256 4096 (pool_loop 128 2048 (pool_loop 32 1024 ?c0))"
  have c: "ctor_ok c" "m_pools c = pool_sizes"
    using 1 2 3 by (simp_all add: c_def pool_sizes_def s1 s2)
  have "last pool_sizes = 3872" "pool_sizes \<noteq> []"
    by (simp_all add: pool_sizes_def loop_sizes_def upt_rec_numeral last_append last_map)
  then have idx: "cs_tableIndex c = 3873" using c by (simp add: ctor_ok_def)
  have ctor: "Memory_ctor = \<lparr>m_pools = m_pools c, m_poolTable = m_poolTable c\<rparr>"
    by (simp add: Memory_ctor_def c_def Let_def)
  show "m_pools Memory_ctor = pool_sizes" by (simp add: ctor c)
  show "m_poolTable Memory_ctor k = (if k \<le> 3872 then Some (first_fit pool_sizes k) else None)"
    using c idx by (simp add: ctor ctor_ok_def less_Suc_eq_le)
  show "sorted_wrt (<) pool_sizes" using c by (simp add: ctor_ok_def)
qed

lemma last_pool: "last pool_sizes = 3872" "length pool_sizes = 48" "pool_sizes \<noteq> []"
  by (simp_all add: pool_sizes_def loop_sizes_def upt_rec_numeral last_append last_map)

lemma first_fit_fits:
  assumes "k \<le> 3872"
  shows "first_fit pool_sizes k < length pool_sizes" "k \<le> pool_sizes ! first_fit pool_sizes k"
    "q < first_fit pool_sizes k \<Longrightarrow> pool_sizes ! q < k"
proof -
  have "\<exists>s\<in>set pool_sizes. \<not> s < k"
    using assms last_pool(1,3) last_in_set[OF last_pool(3)] by (intro bexI[of _ "last pool_sizes"]) auto
  then have "takeWhile (\<lambda>s. s < k) pool_sizes \<noteq> pool_sizes"
    by (metis takeWhile_eq_all_conv)
  then have lt: "length (takeWhile (\<lambda>s. s < k) pool_sizes) < length pool_sizes"
    by (metis length_takeWhile_le nat_less_le takeWhile_eq_take take_all_iff order_refl)
  then show "first_fit pool_sizes k < length pool_sizes" by (simp add: first_fit_def)
  show "k \<le> pool_sizes ! first_fit pool_sizes k"
    using nth_length_takeWhile[OF lt] by (simp add: first_fit_def)
  show "pool_sizes ! q < k" if "q < first_fit pool_sizes k"
    using that takeWhile_nth[of q "\<lambda>s. s < k" pool_sizes] set_takeWhileD[of "pool_sizes ! q"]
    by (metis first_fit_def nth_mem)
qed

section \<open>The invariant of the heap\<close>

definition pool_of :: "int \<Rightarrow> nat" where
  "pool_of n = first_fit pool_sizes (nat n)"

definition in_pool :: "heap \<Rightarrow> nat \<Rightarrow> nat \<Rightarrow> bool" where
  "in_pool h p a \<longleftrightarrow> (\<exists>b. blocks h a = Some b \<and> allocSize b \<noteq> 0 \<and> allocSize b \<le> 4096 \<and> pool_of (allocSize b) = p)"

definition block_ok :: "nat \<Rightarrow> block \<Rightarrow> bool" where
  "block_ok H b \<longleftrightarrow> int H \<le> allocSize b \<and> 0 < allocSize b \<and> (allocSize b \<le> 3872 \<or> 4096 < allocSize b)
     \<and> bl_bytes b = (if 4096 < allocSize b then nat (allocSize b) else pool_sizes ! pool_of (allocSize b))"

definition apart :: "heap \<Rightarrow> bool" where
  "apart h \<longleftrightarrow> (\<forall>a b x y. blocks h a = Some b \<longrightarrow> blocks h x = Some y \<longrightarrow> a \<noteq> x \<longrightarrow>
      a + bl_bytes b \<le> x \<or> x + bl_bytes y \<le> a)"

definition free_ok :: "heap \<Rightarrow> bool" where
  "free_ok h \<longleftrightarrow> (\<forall>p. distinct (m_header h p)) \<and> (\<forall>p. \<forall>a\<in>set (m_header h p). p < 48
      \<and> (\<exists>b. blocks h a = Some b \<and> allocSize b = 0 \<and> bl_bytes b = pool_sizes ! p))
     \<and> (\<forall>a b. blocks h a = Some b \<longrightarrow> allocSize b = 0 \<longrightarrow> (\<exists>p. a \<in> set (m_header h p)))"

definition counts_ok :: "heap \<Rightarrow> bool" where
  "counts_ok h \<longleftrightarrow> finite (dom (blocks h))
     \<and> (\<forall>p. m_reservedCount h p = int (length (m_header h p)))
     \<and> (\<forall>p. m_useCount h p = int (card {a. in_pool h p a}))"

definition heap_inv :: "nat \<Rightarrow> heap \<Rightarrow> bool" where
  "heap_inv H h \<longleftrightarrow> apart h \<and> free_ok h \<and> counts_ok h
     \<and> (\<forall>a b. blocks h a = Some b \<longrightarrow> allocSize b \<noteq> 0 \<longrightarrow> block_ok H b)"

lemma heap_invD:
  assumes "heap_inv H h"
  shows "apart h" "free_ok h" "counts_ok h" "blocks h a = Some b \<Longrightarrow> allocSize b \<noteq> 0 \<Longrightarrow> block_ok H b"
  using assms by (auto simp: heap_inv_def)

lemma apartD: "apart h \<Longrightarrow> blocks h a = Some b \<Longrightarrow> blocks h x = Some y \<Longrightarrow> a \<noteq> x \<Longrightarrow>
    a + bl_bytes b \<le> x \<or> x + bl_bytes y \<le> a"
  unfolding apart_def by blast

lemma free_okD:
  assumes "free_ok h"
  shows "distinct (m_header h p)"
    "a \<in> set (m_header h p) \<Longrightarrow> p < 48 \<and> (\<exists>b. blocks h a = Some b \<and> allocSize b = 0 \<and> bl_bytes b = pool_sizes ! p)"
    "blocks h a = Some b \<Longrightarrow> allocSize b = 0 \<Longrightarrow> \<exists>p. a \<in> set (m_header h p)"
  using assms unfolding free_ok_def by blast+

lemma free_okI:
  assumes "\<And>p. distinct (m_header h p)"
    "\<And>a p. a \<in> set (m_header h p) \<Longrightarrow> p < 48 \<and> (\<exists>b. blocks h a = Some b \<and> allocSize b = 0 \<and> bl_bytes b = pool_sizes ! p)"
    "\<And>a b. blocks h a = Some b \<Longrightarrow> allocSize b = 0 \<Longrightarrow> \<exists>p. a \<in> set (m_header h p)"
  shows "free_ok h"
  using assms unfolding free_ok_def by blast

lemma pool_sizes_inj: "p < 48 \<Longrightarrow> q < 48 \<Longrightarrow> pool_sizes ! p = pool_sizes ! q \<Longrightarrow> p = q"
  using Memory_ctor_table(3) last_pool(2) by (metis nth_eq_iff_index_eq strict_sorted_iff)

lemma one_list:
  assumes "free_ok h" "a \<in> set (m_header h p)" "a \<in> set (m_header h q)"
  shows "p = q"
  using free_okD(2)[OF assms(1,2)] free_okD(2)[OF assms(1,3)] by (auto intro: pool_sizes_inj)

lemma pool_at_ok:
  "0 \<le> n \<Longrightarrow> n \<le> 3872 \<Longrightarrow> pool_at Memory_ctor n = Inr (pool_of n)"
  "3872 < n \<Longrightarrow> n \<le> 4096 \<Longrightarrow> pool_at Memory_ctor n = Inl UninitRead"
  by (simp_all add: pool_at_def Memory_ctor_table pool_of_def MAX_ALLOC_SIZE_def)

lemma block_fits: "block_ok H b \<Longrightarrow> nat (allocSize b) \<le> bl_bytes b"
  using first_fit_fits(2)[of "nat (allocSize b)"] by (auto simp: block_ok_def pool_of_def)

lemma in_pool_finite: "counts_ok h \<Longrightarrow> finite {a. in_pool h p a}"
  unfolding counts_ok_def by (rule finite_subset[of _ "dom (blocks h)"]) (auto simp: in_pool_def)

text \<open>Allocating: the block a, which was fresh or on the free list of its pool, becomes live.\<close>

lemma alloc_fresh_inv:
  assumes inv: "heap_inv H h" and fresh: "fresh_block h a (bl_bytes b)" and ok: "block_ok H b"
    and h': "blocks h' = (blocks h)(a \<mapsto> b)" "m_header h' = m_header h" "m_reservedCount h' = m_reservedCount h"
    and use: "m_useCount h' = (if allocSize b \<le> 4096
        then (m_useCount h)(pool_of (allocSize b) := m_useCount h (pool_of (allocSize b)) + 1) else m_useCount h)"
  shows "heap_inv H h'"
proof -
  note D = heap_invD[OF inv]
  have new: "blocks h a = None" using fresh by (simp add: fresh_block_def)
  have nz: "allocSize b \<noteq> 0" using ok by (simp add: block_ok_def)
  have "apart h'"
    using D(1) fresh unfolding apart_def fresh_block_def h' by (auto simp: add.commute)
  moreover have "free_ok h'"
  proof -
    have "a \<notin> set (m_header h p)" for p using free_okD(2)[OF D(2), of a p] new by auto
    then have "blocks h' x = blocks h x" if "x \<in> set (m_header h p)" for x p
      using that by (auto simp: h'(1))
    moreover have "blocks h x = Some y" if "blocks h' x = Some y" "allocSize y = 0" for x y
      using that nz by (auto simp: h'(1) split: if_splits)
    ultimately show ?thesis
      using free_okD[OF D(2)] unfolding free_ok_def h'(2) by metis
  qed
  moreover have "counts_ok h'"
  proof -
    have fin: "finite (dom (blocks h'))" using D(3) by (simp add: counts_ok_def h')
    have set: "{x. in_pool h' p x} = (if allocSize b \<le> 4096 \<and> pool_of (allocSize b) = p
        then insert a {x. in_pool h p x} else {x. in_pool h p x})" for p
      using nz new by (auto simp: in_pool_def h')
    have "a \<notin> {x. in_pool h p x}" for p using new by (simp add: in_pool_def)
    then show ?thesis
      using D(3) fin in_pool_finite[OF D(3)] by (auto simp: counts_ok_def set h'(2,3) use)
  qed
  moreover have "block_ok H y" if "blocks h' x = Some y" "allocSize y \<noteq> 0" for x y
    using that D(4) ok by (auto simp: h' split: if_splits)
  ultimately show ?thesis unfolding heap_inv_def by blast
qed

lemma alloc_reuse_inv:
  assumes inv: "heap_inv H h" and hd: "m_header h p = a # rest" and b: "blocks h a = Some b0"
    and ok: "block_ok H (b0\<lparr>allocSize := n\<rparr>)" "n \<le> 4096" "pool_of n = p"
    and h': "blocks h' = (blocks h)(a \<mapsto> b0\<lparr>allocSize := n\<rparr>)" "m_header h' = (m_header h)(p := rest)"
      "m_reservedCount h' = (m_reservedCount h)(p := m_reservedCount h p - 1)"
      "m_useCount h' = (m_useCount h)(p := m_useCount h p + 1)"
  shows "heap_inv H h'"
proof -
  note D = heap_invD[OF inv] and F = free_okD[OF heap_invD(2)[OF inv]]
  have old: "allocSize b0 = 0" using F(2)[of a p] hd b by simp
  have nz: "n \<noteq> 0" using ok(1) by (simp add: block_ok_def)
  have "apart h'"
    using D(1) b unfolding apart_def h' by (auto split: if_splits)
  moreover have "free_ok h'"
  proof -
    have gone: "a \<notin> set (m_header h' q)" for q
      using one_list[OF D(2), of a p q] hd F(1)[of p] by (auto simp: h')
    have sub: "set (m_header h' q) \<subseteq> set (m_header h q)" "distinct (m_header h' q)" for q
      using hd F(1)[of p] F(1)[of q] by (auto simp: h')
    have "\<exists>q. x \<in> set (m_header h' q)" if y: "blocks h' x = Some y" "allocSize y = 0" for x y
    proof -
      have "x \<noteq> a" "blocks h x = Some y" using y nz by (auto simp: h' split: if_splits)
      then obtain q where "x \<in> set (m_header h q)" using F(3) y(2) by blast
      then show ?thesis using \<open>x \<noteq> a\<close> hd by (intro exI[of _ q]) (auto simp: h')
    qed
    moreover have "q < 48 \<and> (\<exists>y. blocks h' x = Some y \<and> allocSize y = 0 \<and> bl_bytes y = pool_sizes ! q)"
      if "x \<in> set (m_header h' q)" for x q
    proof -
      have "x \<noteq> a" using gone that by blast
      then show ?thesis using F(2)[of x q] sub(1) that by (auto simp: h')
    qed
    ultimately show ?thesis using sub(2) unfolding free_ok_def by blast
  qed
  moreover have "counts_ok h'"
  proof -
    have set: "{x. in_pool h' q x} = (if q = p then insert a {x. in_pool h q x} else {x. in_pool h q x})" for q
      using nz ok(2,3) old b by (auto simp: in_pool_def h')
    have "a \<notin> {x. in_pool h q x}" for q using b old by (simp add: in_pool_def)
    moreover have "finite (dom (blocks h'))" using D(3) by (simp add: counts_ok_def h')
    ultimately show ?thesis
      using D(3) in_pool_finite[OF D(3)] hd by (auto simp: counts_ok_def set h'(2,3,4))
  qed
  moreover have "block_ok H y" if "blocks h' x = Some y" "allocSize y \<noteq> 0" for x y
    using that D(4) ok by (auto simp: h' split: if_splits)
  ultimately show ?thesis unfolding heap_inv_def by blast
qed

text \<open>Releasing: a live block goes back to the system or to the free list of its pool.\<close>

lemma release_big_inv:
  assumes inv: "heap_inv H h" and b: "blocks h a = Some b" "4096 < allocSize b"
  shows "heap_inv H (h\<lparr>blocks := (blocks h)(a := None)\<rparr>)" (is "heap_inv H ?h")
proof -
  note D = heap_invD[OF inv] and F = free_okD[OF heap_invD(2)[OF inv]]
  have notin: "a \<notin> set (m_header h p)" for p using F(2)[of a p] b by auto
  have "apart ?h" using D(1) by (simp add: apart_def)
  moreover have "free_ok ?h"
  proof (rule free_okI)
    fix x p assume x: "x \<in> set (m_header ?h p)"
    then have "x \<noteq> a" using notin[of p] by auto
    then show "p < 48 \<and> (\<exists>b. blocks ?h x = Some b \<and> allocSize b = 0 \<and> bl_bytes b = pool_sizes ! p)"
      using F(2)[of x p] x by simp
  next
    fix x y assume "blocks ?h x = Some y" "allocSize y = 0"
    then show "\<exists>p. x \<in> set (m_header ?h p)" using F(3)[of x y] by (simp split: if_splits)
  qed (simp add: F(1))
  moreover have "in_pool ?h p x = in_pool h p x" for p x using b by (auto simp: in_pool_def)
  then have "counts_ok ?h" using D(3) by (simp add: counts_ok_def)
  moreover have "block_ok H y" if "blocks ?h x = Some y" "allocSize y \<noteq> 0" for x y
    using that D(4) by (auto split: if_splits)
  ultimately show ?thesis unfolding heap_inv_def by blast
qed

lemma release_pool_inv:
  assumes inv: "heap_inv H h" and b: "blocks h a = Some b" "allocSize b \<noteq> 0" "allocSize b \<le> 4096"
  shows "heap_inv H (MemoryPool_Push (pool_of (allocSize b)) a h)" (is "heap_inv H ?h")
proof -
  note D = heap_invD[OF inv] and F = free_okD[OF heap_invD(2)[OF inv]]
  note ok = D(4)[OF b(1,2)]
  let ?p = "pool_of (allocSize b)"
  have p: "?p < 48" "bl_bytes b = pool_sizes ! ?p"
    using ok b(3) first_fit_fits(1)[of "nat (allocSize b)"] last_pool(2) by (auto simp: block_ok_def pool_of_def)
  have bl: "blocks ?h = (blocks h)(a \<mapsto> b\<lparr>allocSize := 0\<rparr>)" and hd: "m_header ?h = (m_header h)(?p := a # m_header h ?p)"
    and cs: "m_useCount ?h = (m_useCount h)(?p := m_useCount h ?p - 1)"
      "m_reservedCount ?h = (m_reservedCount h)(?p := m_reservedCount h ?p + 1)"
    using b by (simp_all add: MemoryPool_Push_def set_allocSize_def)
  have notin: "a \<notin> set (m_header h q)" for q using F(2)[of a q] b by auto
  have "apart ?h" using D(1) b unfolding apart_def bl by (auto split: if_splits)
  moreover have "free_ok ?h"
  proof -
    have "q < 48 \<and> (\<exists>y. blocks ?h x = Some y \<and> allocSize y = 0 \<and> bl_bytes y = pool_sizes ! q)"
      if "x \<in> set (m_header ?h q)" for x q
      using that F(2)[of x q] notin p by (auto simp: bl hd split: if_splits)
    moreover have "\<exists>q. x \<in> set (m_header ?h q)" if y: "blocks ?h x = Some y" "allocSize y = 0" for x y
    proof (cases "x = a")
      case False
      then obtain q where "x \<in> set (m_header h q)" using F(3)[of x y] y by (auto simp: bl)
      then show ?thesis by (intro exI[of _ q]) (auto simp: hd)
    qed (auto simp: hd)
    moreover have "distinct (m_header ?h q)" for q using F(1) notin by (simp add: hd)
    ultimately show ?thesis unfolding free_ok_def by blast
  qed
  moreover have "counts_ok ?h"
  proof -
    have set: "{x. in_pool ?h q x} = (if q = ?p then {x. in_pool h q x} - {a} else {x. in_pool h q x})" for q
      using b by (auto simp: in_pool_def bl)
    have ain: "in_pool h ?p a" using b by (simp add: in_pool_def)
    then have "0 < card {x. in_pool h ?p x}" using in_pool_finite[OF D(3)] card_gt_0_iff by blast
    moreover have "finite (dom (blocks ?h))" using D(3) by (simp add: counts_ok_def bl)
    ultimately show ?thesis
      using D(3) in_pool_finite[OF D(3)] ain
      by (auto simp: counts_ok_def set hd cs card_Diff_singleton of_nat_diff)
  qed
  moreover have "block_ok H y" if "blocks ?h x = Some y" "allocSize y \<noteq> 0" for x y
    using that D(4) by (auto simp: bl split: if_splits)
  ultimately show ?thesis unfolding heap_inv_def by blast
qed

section \<open>Allocate and Release on every branch\<close>

lemma Alloc_cases:
  assumes inv: "heap_inv H h" and sz: "0 \<le> sz" "0 < H" "fits_i32 (sz + int H)"
    and fresh: "fresh_block h fresh (malloc_bytes Memory_ctor (sz + int H))"
  shows "(3872 < sz + int H \<and> sz + int H \<le> 4096 \<and> PoolAllocator_Alloc H sz fresh h = Inl UninitRead)
    \<or> ((sz + int H \<le> 3872 \<or> 4096 < sz + int H) \<and> (\<exists>a h'. PoolAllocator_Alloc H sz fresh h = Inr (a + H, h')
         \<and> heap_inv H h' \<and> \<not> live h a \<and> live h' a
         \<and> (\<exists>b. blocks h' a = Some b \<and> allocSize b = sz + int H)
         \<and> (\<forall>x. x \<noteq> a \<longrightarrow> blocks h' x = blocks h x)))"
proof -
  note D = heap_invD[OF inv]
  let ?n = "sz + int H"
  have pos: "0 < ?n" using sz by simp
  consider "4096 < ?n" | "3872 < ?n" "?n \<le> 4096" | "?n \<le> 3872" by linarith
  then show ?thesis
  proof cases
    case 1
    let ?b = "\<lparr>bl_bytes = nat ?n, allocSize = ?n\<rparr>"
    let ?h = "h\<lparr>blocks := (blocks h)(fresh \<mapsto> ?b)\<rparr>"
    have run: "PoolAllocator_Alloc H sz fresh h = Inr (fresh + H, ?h)"
      using 1 sz by (simp add: PoolAllocator_Alloc_def Allocate_def Let_def aligned_malloc_def AttachHeader_def
          set_allocSize_def MAX_ALLOC_SIZE_def)
    have fr: "fresh_block h fresh (bl_bytes ?b)" using fresh 1 by (simp add: malloc_bytes_def MAX_ALLOC_SIZE_def)
    have "heap_inv H ?h"
      by (rule alloc_fresh_inv[OF inv fr]) (use 1 sz in \<open>simp_all add: block_ok_def\<close>)
    then show ?thesis using run 1 fr pos by (auto simp: live_def fresh_block_def)
  next
    case 2
    then show ?thesis
      using sz by (simp add: PoolAllocator_Alloc_def Allocate_def Let_def pool_at_ok MAX_ALLOC_SIZE_def)
  next
    case 3
    let ?p = "pool_of ?n"
    have pa: "pool_at Memory_ctor ?n = Inr ?p" using 3 sz by (simp add: pool_at_ok)
    have "nat ?n \<le> 3872" using 3 by simp
    then have bytes: "malloc_bytes Memory_ctor ?n = pool_sizes ! ?p"
      using 3 by (simp add: malloc_bytes_def MAX_ALLOC_SIZE_def Memory_ctor_table pool_of_def)
    show ?thesis
    proof (cases "m_header h ?p")
      case Nil
      let ?b = "\<lparr>bl_bytes = pool_sizes ! ?p, allocSize = ?n\<rparr>"
      let ?h = "h\<lparr>blocks := (blocks h)(fresh \<mapsto> ?b), m_useCount := (m_useCount h)(?p := m_useCount h ?p + 1)\<rparr>"
      have run: "PoolAllocator_Alloc H sz fresh h = Inr (fresh + H, ?h)"
        using 3 sz Nil pa by (simp add: PoolAllocator_Alloc_def Allocate_def Let_def aligned_malloc_def
            AttachHeader_def set_allocSize_def MAX_ALLOC_SIZE_def MemoryPool_Pop_def Memory_ctor_table)
      have fr: "fresh_block h fresh (bl_bytes ?b)" using fresh bytes by simp
      have "heap_inv H ?h"
        by (rule alloc_fresh_inv[OF inv fr]) (use 3 sz in \<open>simp_all add: block_ok_def\<close>)
      then show ?thesis using run 3 fr pos by (auto simp: live_def fresh_block_def)
    next
      case (Cons a rest)
      obtain b where b: "blocks h a = Some b" "allocSize b = 0" "bl_bytes b = pool_sizes ! ?p"
        using free_okD(2)[OF D(2), of a ?p] Cons by auto
      let ?h = "h\<lparr>blocks := (blocks h)(a \<mapsto> b\<lparr>allocSize := ?n\<rparr>), m_header := (m_header h)(?p := rest),
          m_useCount := (m_useCount h)(?p := m_useCount h ?p + 1),
          m_reservedCount := (m_reservedCount h)(?p := m_reservedCount h ?p - 1)\<rparr>"
      have run: "PoolAllocator_Alloc H sz fresh h = Inr (a + H, ?h)"
        using 3 sz Cons pa b by (simp add: PoolAllocator_Alloc_def Allocate_def Let_def
            AttachHeader_def set_allocSize_def MAX_ALLOC_SIZE_def MemoryPool_Pop_def Memory_ctor_table)
      have "heap_inv H ?h"
        by (rule alloc_reuse_inv[OF inv Cons b(1), of ?n]) (use 3 sz b in \<open>simp_all add: block_ok_def\<close>)
      then show ?thesis using run 3 b sz pos by (auto simp: live_def)
    qed
  qed
qed

lemma Release_cases:
  assumes inv: "heap_inv H h" and "live h a"
  shows "\<exists>h'. PoolAllocator_Release H (a + H) h = Inr h' \<and> heap_inv H h' \<and> \<not> live h' a
    \<and> (\<exists>e. PoolAllocator_Release H (a + H) h' = Inl e) \<and> (\<forall>x. x \<noteq> a \<longrightarrow> blocks h' x = blocks h x)"
proof -
  obtain b where b: "blocks h a = Some b" "allocSize b \<noteq> 0" using assms(2) by (auto simp: live_def)
  have ok: "block_ok H b" by (rule heap_invD(4)[OF inv b])
  show ?thesis
  proof (cases "4096 < allocSize b")
    case True
    let ?h = "h\<lparr>blocks := (blocks h)(a := None)\<rparr>"
    have "PoolAllocator_Release H (a + H) h = Inr ?h"
      using True b by (simp add: PoolAllocator_Release_def Release_def DetachHeader_def Let_def MAX_ALLOC_SIZE_def)
    moreover have "PoolAllocator_Release H (a + H) ?h = Inl UseAfterFree"
      by (simp add: PoolAllocator_Release_def Release_def DetachHeader_def Let_def)
    ultimately show ?thesis using release_big_inv[OF inv b(1) True] by (auto simp: live_def)
  next
    case False
    let ?h = "MemoryPool_Push (pool_of (allocSize b)) a h"
    have small: "0 < allocSize b" "allocSize b \<le> 3872" using ok False by (auto simp: block_ok_def)
    have run: "PoolAllocator_Release H (a + H) h = Inr ?h"
      using small b by (simp add: PoolAllocator_Release_def Release_def DetachHeader_def Let_def
          MAX_ALLOC_SIZE_def pool_at_ok)
    have bl: "blocks ?h = (blocks h)(a \<mapsto> b\<lparr>allocSize := 0\<rparr>)"
      using b by (simp add: MemoryPool_Push_def set_allocSize_def)
    then have "PoolAllocator_Release H (a + H) ?h = Inl (Crash ''ASSERT_CRASH'')"
      by (simp add: PoolAllocator_Release_def Release_def DetachHeader_def Let_def)
    then show ?thesis using run release_pool_inv[OF inv b] small bl by (auto simp: live_def)
  qed
qed

lemma heap_init_inv: "heap_init h \<Longrightarrow> heap_inv H h"
  by (simp add: heap_init_def heap_start_def heap_inv_def apart_def free_ok_def counts_ok_def in_pool_def)

lemma heap_step_inv: "heap_step H h h' \<Longrightarrow> heap_inv H h \<Longrightarrow> heap_inv H h'"
proof (induction rule: heap_step.induct)
  case (alloc sz h fresh p h')
  have "fits_i32 (sz + int H)"
    using alloc.hyps(4) by (auto simp: PoolAllocator_Alloc_def Allocate_def Let_def split: if_splits)
  from Alloc_cases[OF alloc.prems alloc.hyps(2,1) this alloc.hyps(3)] show ?case
    using alloc.hyps(4) by auto
next
  case (release h a h')
  then show ?case using Release_cases[OF release.prems release.hyps(1)] by auto
qed

interpretation heap_machine: invariant_system heap_init "heap_step H" "heap_inv H" for H
  by unfold_locales (fact heap_init_inv, erule (1) heap_step_inv[rotated])

section \<open>The destructor\<close>

lemma free_loop_frees:
  assumes "distinct as" and "\<And>a. a \<in> set as \<Longrightarrow> blocks h a \<noteq> None" and "m_header h p = as"
  shows "free_loop p as h = Inr (h\<lparr>blocks := (\<lambda>a. if a \<in> set as then None else blocks h a), m_header := (m_header h)(p := [])\<rparr>)"
  using assms
proof (induction as arbitrary: h)
  case Nil
  then have "(m_header h)(p := []) = m_header h" by (simp add: fun_upd_idem)
  then show ?case by simp
next
  case (Cons a as)
  let ?h = "h\<lparr>m_header := (m_header h)(p := as), blocks := (blocks h)(a := None)\<rparr>"
  have "free_loop p as ?h = Inr (?h\<lparr>blocks := (\<lambda>x. if x \<in> set as then None else blocks ?h x), m_header := (m_header ?h)(p := [])\<rparr>)"
    by (rule Cons.IH) (use Cons.prems in auto)
  moreover have "(\<lambda>x. if x \<in> set as then None else blocks ?h x) = (\<lambda>x. if x \<in> set (a # as) then None else blocks h x)" by auto
  ultimately show ?case using Cons.prems(2)[of a] by (auto simp: aligned_free_def fun_eq_iff intro!: heap.equality)
qed

lemma delete_pools_frees:
  assumes "distinct ps" and "\<And>p. distinct (m_header h p)" and "\<And>p a. a \<in> set (m_header h p) \<Longrightarrow> blocks h a \<noteq> None"
    and "\<And>p q a. a \<in> set (m_header h p) \<Longrightarrow> a \<in> set (m_header h q) \<Longrightarrow> p = q"
  shows "\<exists>h'. delete_pools ps h = Inr h' \<and> blocks h' = (\<lambda>a. if \<exists>p \<in> set ps. a \<in> set (m_header h p) then None else blocks h a)"
  using assms
proof (induction ps arbitrary: h)
  case (Cons p ps)
  define h1 where "h1 = h\<lparr>blocks := (\<lambda>a. if a \<in> set (m_header h p) then None else blocks h a), m_header := (m_header h)(p := [])\<rparr>"
  have d: "MemoryPool_dtor p h = Inr h1"
    unfolding MemoryPool_dtor_def h1_def by (rule free_loop_frees) (use Cons.prems in auto)
  have lists: "m_header h1 q = (if q = p then [] else m_header h q)" for q by (simp add: h1_def)
  have "\<exists>h'. delete_pools ps h1 = Inr h' \<and> blocks h' = (\<lambda>a. if \<exists>q \<in> set ps. a \<in> set (m_header h1 q) then None else blocks h1 a)"
  proof (rule Cons.IH)
    fix q a assume q: "a \<in> set (m_header h1 q)"
    then have "a \<notin> set (m_header h p)" using Cons.prems(4)[of a p q] by (auto simp: lists split: if_splits)
    then show "blocks h1 a \<noteq> None" using Cons.prems(3)[of a q] q by (auto simp: h1_def split: if_splits)
  qed (use Cons.prems lists in \<open>auto split: if_splits\<close>)
  then show ?case using d Cons.prems(1) by (auto simp: lists h1_def fun_eq_iff)
qed simp

text \<open>At exit nothing is freed twice and only what nobody released is left.\<close>

theorem destructor_frees:
  assumes "reach heap_init (heap_step H) h"
  shows "\<exists>m' h'. Memory_dtor Memory_ctor h = Inr (m', h') \<and> blocks h' = (\<lambda>a. if live h a then blocks h a else None)"
proof -
  note F = heap_invD(2)[OF heap_machine.reach_inv[OF assms]]
  obtain h' where h': "delete_pools [0..<length (m_pools Memory_ctor)] h = Inr h'"
    "blocks h' = (\<lambda>a. if \<exists>p \<in> set [0..<length (m_pools Memory_ctor)]. a \<in> set (m_header h p) then None else blocks h a)"
    using delete_pools_frees[of "[0..<length (m_pools Memory_ctor)]" h] free_okD(1,2)[OF F] one_list[OF F] by fastforce
  have len: "length (m_pools Memory_ctor) = 48" using Memory_ctor_table last_pool by simp
  have "(\<exists>p \<in> set [0..<48]. a \<in> set (m_header h p)) \<longleftrightarrow> (\<exists>b. blocks h a = Some b \<and> allocSize b = 0)" for a
  proof
    show "\<exists>b. blocks h a = Some b \<and> allocSize b = 0" if "\<exists>p \<in> set [0..<48]. a \<in> set (m_header h p)"
      using that free_okD(2)[OF F] by blast
    assume "\<exists>b. blocks h a = Some b \<and> allocSize b = 0"
    then obtain p where p: "a \<in> set (m_header h p)" using F unfolding free_ok_def by blast
    then have "p < 48" using free_okD(2)[OF F] by blast
    then show "\<exists>p \<in> set [0..<48]. a \<in> set (m_header h p)" using p by auto
  qed
  then have "blocks h' = (\<lambda>a. if live h a then blocks h a else None)" unfolding h'(2) len by (auto simp: live_def fun_eq_iff)
  then show ?thesis using h'(1) by (simp add: Memory_dtor_def)
qed

section \<open>Properties\<close>

text \<open>The pool table. The constructor makes POOL_COUNT pools; every request of at most 3872
  bytes (header included) is sent to the pool with the least piece that is large enough, and the
  224 entries from 3873 to 4096 are never written, although Allocate uses them.\<close>

theorem Memory_table:
  "length (m_pools Memory_ctor) = POOL_COUNT
   \<and> m_poolTable Memory_ctor k = (if k \<le> 3872 then Some (first_fit pool_sizes k) else None)
   \<and> (k \<le> 3872 \<longrightarrow> k \<le> m_pools Memory_ctor ! first_fit pool_sizes k
        \<and> (\<forall>q < first_fit pool_sizes k. m_pools Memory_ctor ! q < k))"
  using first_fit_fits[of k] last_pool(2) by (simp add: Memory_ctor_table POOL_COUNT_def)

theorem Memory_table_witness: "40 \<le> m_pools Memory_ctor ! first_fit pool_sizes 40"
  using Memory_table[of 40] by simp

text \<open>C29: Memory is never handed out twice. Whatever Allocate returns in a reachable heap is
  disjoint, header included, from every piece in use, and from then on it is in use itself.\<close>

theorem Allocate_disjoint:
  assumes "reach heap_init (heap_step H) h" and "0 < H" and "0 \<le> sz"
    and "fresh_block h fresh (malloc_bytes Memory_ctor (sz + int H))"
    and "PoolAllocator_Alloc H sz fresh h = Inr (p, h')"
  shows "live h' (p - H)
    \<and> (\<forall>x b. blocks h x = Some b \<and> allocSize b \<noteq> 0 \<longrightarrow> p + nat sz \<le> x \<or> x + nat (allocSize b) \<le> p - H)"
proof -
  note inv = heap_machine.reach_inv[OF assms(1)]
  have "fits_i32 (sz + int H)"
    using assms(5) by (auto simp: PoolAllocator_Alloc_def Allocate_def Let_def split: if_splits)
  from Alloc_cases[OF inv assms(3,2) this assms(4)] assms(5)
  obtain a where a: "p = a + H" "heap_inv H h'" "\<not> live h a" "live h' a"
    "\<exists>b. blocks h' a = Some b \<and> allocSize b = sz + int H" "\<forall>x. x \<noteq> a \<longrightarrow> blocks h' x = blocks h x"
    by auto
  obtain b where b: "blocks h' a = Some b" "allocSize b = sz + int H" using a(5) by blast
  have sz: "nat (allocSize b) = nat sz + H" using b assms(3) by simp
  have "nat (allocSize b) \<le> bl_bytes b"
    using heap_invD(4)[OF a(2) b(1)] b(2) assms(2,3) by (intro block_fits) auto
  have "p + nat sz \<le> x \<or> x + nat (allocSize y) \<le> a" if y: "blocks h x = Some y" "allocSize y \<noteq> 0" for x y
  proof -
    have "x \<noteq> a" using a(3) y by (auto simp: live_def)
    then have x': "blocks h' x = Some y" using a(6) y by simp
    have "nat (allocSize y) \<le> bl_bytes y" by (rule block_fits[OF heap_invD(4)[OF a(2) x' y(2)]])
    then show ?thesis
      using apartD[OF heap_invD(1)[OF a(2)] b(1) x'] \<open>x \<noteq> a\<close> \<open>nat (allocSize b) \<le> bl_bytes b\<close> sz a(1) by auto
  qed
  then show ?thesis using a(1,4) by auto
qed

lemma heap_start_reach: "reach heap_init (heap_step H) heap_start"
  by (rule reach_init) (simp add: heap_init_def)

lemma alloc_at_start:
  assumes "0 \<le> sz" "sz \<le> 3840"
  shows "PoolAllocator_Alloc 32 sz 4096 heap_start = Inr (4128, heap_start\<lparr>
    blocks := [4096 \<mapsto> \<lparr>bl_bytes = pool_sizes ! pool_of (sz + 32), allocSize = sz + 32\<rparr>],
    m_useCount := (\<lambda>_. 0)(pool_of (sz + 32) := 1)\<rparr>)"
  using assms by (simp add: PoolAllocator_Alloc_def Allocate_def Let_def pool_at_ok MAX_ALLOC_SIZE_def
      MemoryPool_Pop_def aligned_malloc_def AttachHeader_def set_allocSize_def heap_start_def fits_i32_def
      Memory_ctor_table)

theorem Allocate_disjoint_witness:
  "live (snd (projr (PoolAllocator_Alloc 32 8 4096 heap_start))) 4096"
proof -
  have "fresh_block heap_start 4096 n" for n by (simp add: fresh_block_def heap_start_def)
  from Allocate_disjoint[OF heap_start_reach, of 32 8 4096, OF _ _ this alloc_at_start] show ?thesis
    by (simp add: alloc_at_start)
qed

text \<open>Allocate by size. In a reachable heap every request is served except those of 3873 to
  4096 bytes with their header, for which Allocate uses an entry of the table that was never
  written.\<close>

theorem Allocate_by_size:
  assumes "reach heap_init (heap_step H) h" and "0 < H" and "0 \<le> sz" and "fits_i32 (sz + int H)"
    and "fresh_block h fresh (malloc_bytes Memory_ctor (sz + int H))"
  shows "(PoolAllocator_Alloc H sz fresh h = Inl UninitRead \<longleftrightarrow> 3872 < sz + int H \<and> sz + int H \<le> 4096)
    \<and> ((\<exists>x. PoolAllocator_Alloc H sz fresh h = Inr x) \<longleftrightarrow> sz + int H \<le> 3872 \<or> 4096 < sz + int H)"
  using Alloc_cases[OF heap_machine.reach_inv[OF assms(1)] assms(3,2,4,5)] by auto

theorem Allocate_by_size_witness: "PoolAllocator_Alloc 32 4000 4096 heap_start = Inl UninitRead"
proof -
  have "fresh_block heap_start 4096 n" for n by (simp add: fresh_block_def heap_start_def)
  from Allocate_by_size[OF heap_start_reach, of 32 4000 4096, OF _ _ _ this] show ?thesis
    by (simp add: fits_i32_def)
qed

text \<open>Release takes back, and a second Release is caught. Every piece in use of a reachable
  heap can be released; releasing the same pointer again right after is a fault (ASSERT_CRASH on the
  header for a pooled piece, freed memory for a large one), and no other piece is touched.\<close>

theorem Release_once:
  assumes "reach heap_init (heap_step H) h" and "live h a"
  shows "\<exists>h'. PoolAllocator_Release H (a + H) h = Inr h' \<and> \<not> live h' a
    \<and> (\<exists>e. PoolAllocator_Release H (a + H) h' = Inl e) \<and> (\<forall>x. x \<noteq> a \<longrightarrow> blocks h' x = blocks h x)"
  using Release_cases[OF heap_machine.reach_inv[OF assms(1)] assms(2)] by blast

abbreviation one_piece :: heap where
  "one_piece \<equiv> heap_start\<lparr>blocks := [4096 \<mapsto> \<lparr>bl_bytes = pool_sizes ! pool_of 40, allocSize = 40\<rparr>],
    m_useCount := (\<lambda>_. 0)(pool_of 40 := 1)\<rparr>"

lemma one_piece_reach: "reach heap_init (heap_step 32) one_piece"
proof (rule reach_step[OF heap_start_reach])
  have "fresh_block heap_start 4096 n" for n by (simp add: fresh_block_def heap_start_def)
  moreover have "PoolAllocator_Alloc 32 8 4096 heap_start = Inr (4128, one_piece)"
    using alloc_at_start[of 8] by simp
  ultimately show "heap_step 32 heap_start one_piece"
    by (intro heap_step.alloc[where sz = 8 and fresh = 4096 and p = 4128]) simp_all
qed

theorem Release_once_witness: "\<exists>h'. PoolAllocator_Release 32 4128 one_piece = Inr h'"
  using Release_once[OF one_piece_reach, of 4096] by (auto simp: live_def)

text \<open>The counters of a pool. m_useCount is the number of its pieces in use and
  m_reservedCount the number of pieces on its free list.\<close>

theorem pool_counters:
  assumes "reach heap_init (heap_step H) h"
  shows "m_reservedCount h p = int (length (m_header h p)) \<and> m_useCount h p = int (card {a. in_pool h p a})"
  using heap_invD(3)[OF heap_machine.reach_inv[OF assms]] by (simp add: counts_ok_def)

theorem pool_counters_witness: "card {a. in_pool one_piece (pool_of 40) a} = 1"
  using pool_counters[OF one_piece_reach, of "pool_of 40"] by simp

end
