(* ===== verification/Session_IO.thy ===== *)
theory Session_IO
  imports Recv_Buffer Packet_Framing
begin

text \<open>
  Sessions (ServerCore/Session.h, Session.cpp): the overlapped requests a session makes and the
  handlers of their completions. What the operating system answers to a request is an argument: the
  request is accepted (completed or pending), or it fails with an error code. An event whose
  m_owner is set belongs to a request in flight. Callbacks of the application are arguments.
\<close>

section \<open>State\<close>

definition BUFFER_SIZE :: int where "BUFFER_SIZE = 0x10000"

datatype io_answer = IO_Accepted | IO_Failed int

definition WSAECONNABORTED :: int where "WSAECONNABORTED = 10053"
definition WSAECONNRESET :: int where "WSAECONNRESET = 10054"

datatype ServiceType = Server | Client

datatype EventType = Connect | Disconnect | Accept | Recv | Send

text \<open>A send buffer is named by a number; its WriteSize is not needed here.\<close>

record session =
  m_connected :: bool
  m_recvBuffer :: recv_buffer
  m_sendQueue :: "nat list"
  m_sendRegistered :: bool
  m_connectEvent :: bool
  m_disconnectEvent :: bool
  m_recvEvent :: bool
  m_sendEvent :: bool
  m_sendBuffers :: "nat list"

definition new_session :: "session result" where
  "new_session = rbind (RecvBuffer BUFFER_SIZE) (\<lambda>b.
     Inr \<lparr>m_connected = False, m_recvBuffer = b, m_sendQueue = [], m_sendRegistered = False,
          m_connectEvent = False, m_disconnectEvent = False, m_recvEvent = False,
          m_sendEvent = False, m_sendBuffers = []\<rparr>)"

section \<open>Disconnecting\<close>

definition RegisterDisconnect :: "io_answer \<Rightarrow> session \<Rightarrow> bool \<times> session" where
  "RegisterDisconnect io s =
     (let s1 = s\<lparr>m_disconnectEvent := True\<rparr> in
      case io of
        IO_Accepted \<Rightarrow> (True, s1)
      | IO_Failed _ \<Rightarrow> (False, s1\<lparr>m_disconnectEvent := False\<rparr>))"

definition Disconnect :: "io_answer \<Rightarrow> session \<Rightarrow> session" where
  "Disconnect io s =
     (if \<not> m_connected s then s
      else snd (RegisterDisconnect io (s\<lparr>m_connected := False\<rparr>)))"

definition HandleError :: "io_answer \<Rightarrow> int \<Rightarrow> session \<Rightarrow> session" where
  "HandleError io errorCode s =
     (if errorCode = WSAECONNRESET \<or> errorCode = WSAECONNABORTED then Disconnect io s else s)"

section \<open>Connecting\<close>

text \<open>The outcomes of SetReuseAddress and BindAnyAddress are the first two arguments.\<close>

definition RegisterConnect :: "bool \<Rightarrow> bool \<Rightarrow> io_answer \<Rightarrow> ServiceType \<Rightarrow> session \<Rightarrow> bool \<times> session" where
  "RegisterConnect reuse bound io service s =
     (if m_connected s then (False, s)
      else if service \<noteq> Client then (False, s)
      else if \<not> reuse then (False, s)
      else if \<not> bound then (False, s)
      else
        let s1 = s\<lparr>m_connectEvent := True\<rparr> in
        case io of
          IO_Accepted \<Rightarrow> (True, s1)
        | IO_Failed _ \<Rightarrow> (False, s1\<lparr>m_connectEvent := False\<rparr>))"

section \<open>Receiving\<close>

text \<open>The second answer is the one to a DisConnectEx that HandleError may make.\<close>

definition RegisterRecv :: "io_answer \<Rightarrow> io_answer \<Rightarrow> session \<Rightarrow> session result" where
  "RegisterRecv io dio s =
     (if \<not> m_connected s then Inr s
      else
        let s1 = s\<lparr>m_recvEvent := True\<rparr> in
        rbind (WritePos (m_recvBuffer s1)) (\<lambda>_.
          case io of
            IO_Accepted \<Rightarrow> Inr s1
          | IO_Failed errorCode \<Rightarrow> Inr ((HandleError dio errorCode s1)\<lparr>m_recvEvent := False\<rparr>)))"

definition ProcessRecv ::
    "'s packet_callback \<Rightarrow> io_answer \<Rightarrow> io_answer \<Rightarrow> int \<Rightarrow> session \<Rightarrow> 's \<Rightarrow> (session \<times> 's) result option" where
  "ProcessRecv OnRecvPacket io dio numOfBytes s app =
     (let s0 = s\<lparr>m_recvEvent := False\<rparr> in
      if numOfBytes = 0 then Some (Inr (Disconnect dio s0, app))
      else
        let (written, b1) = OnWrite numOfBytes (m_recvBuffer s0); s1 = s0\<lparr>m_recvBuffer := b1\<rparr> in
        if \<not> written then Some (Inr (Disconnect dio s1, app))
        else
          let dataSize = DataSize b1 in
          case ReadPos b1 of
            Inl e \<Rightarrow> Some (Inl e)
          | Inr pos \<Rightarrow>
              (case OnRecv OnRecvPacket (slice pos (nat dataSize) (m_buffer b1)) dataSize app of
                 None \<Rightarrow> None
               | Some (Inl e) \<Rightarrow> Some (Inl e)
               | Some (Inr (processLen, app')) \<Rightarrow>
                   if processLen < 0 \<or> dataSize < processLen then Some (Inr (Disconnect dio s1, app'))
                   else
                     let (read, b2) = OnRead processLen b1; s2 = s1\<lparr>m_recvBuffer := b2\<rparr> in
                     if \<not> read then Some (Inr (Disconnect dio s2, app'))
                     else Some (rbind (Clean b2) (\<lambda>b3.
                            rbind (RegisterRecv io dio (s2\<lparr>m_recvBuffer := b3\<rparr>)) (\<lambda>s3. Inr (s3, app'))))))"

text \<open>The connection is there: the service adds the session, the application is told.\<close>

definition ProcessConnect ::
    "(session \<Rightarrow> 's \<Rightarrow> 's result) \<Rightarrow> io_answer \<Rightarrow> io_answer \<Rightarrow> session \<Rightarrow> 's \<Rightarrow> (session \<times> 's) result" where
  "ProcessConnect AddSession_OnConnected io dio s app =
     (let s1 = s\<lparr>m_connectEvent := False, m_connected := True\<rparr> in
      rbind (AddSession_OnConnected s1 app) (\<lambda>app'.
      rbind (RegisterRecv io dio s1) (\<lambda>s2. Inr (s2, app'))))"

definition ProcessDisconnect :: "('s \<Rightarrow> 's result) \<Rightarrow> session \<Rightarrow> 's \<Rightarrow> (session \<times> 's) result" where
  "ProcessDisconnect OnDisconnected_ReleaseSession s app =
     (let s1 = s\<lparr>m_disconnectEvent := False\<rparr> in
      rbind (OnDisconnected_ReleaseSession app) (\<lambda>app'. Inr (s1, app')))"

section \<open>Sending\<close>

text \<open>
  Send and RegisterSend without interleaving (Session_Send has their atomic steps). An answer
  IO_Failed of WSASend drops the buffers it was given.
\<close>

definition take_queue :: "session \<Rightarrow> session" where
  "take_queue s = s\<lparr>m_sendBuffers := m_sendBuffers s @ m_sendQueue s, m_sendQueue := []\<rparr>"

definition RegisterSend :: "io_answer \<Rightarrow> io_answer \<Rightarrow> session \<Rightarrow> session" where
  "RegisterSend io dio s =
     (if \<not> m_connected s then s
      else
        let s1 = take_queue (s\<lparr>m_sendEvent := True\<rparr>) in
        case io of
          IO_Accepted \<Rightarrow> s1
        | IO_Failed errorCode \<Rightarrow>
            (HandleError dio errorCode s1)\<lparr>m_sendEvent := False, m_sendBuffers := [], m_sendRegistered := False\<rparr>)"

definition Session_Send :: "io_answer \<Rightarrow> io_answer \<Rightarrow> nat \<Rightarrow> session \<Rightarrow> session" where
  "Session_Send io dio sendBuffer s =
     (if \<not> m_connected s then s
      else
        let registerSend = (\<not> m_sendRegistered s);
            s1 = s\<lparr>m_sendQueue := m_sendQueue s @ [sendBuffer], m_sendRegistered := True\<rparr>
        in if registerSend then RegisterSend io dio s1 else s1)"

definition ProcessSend :: "io_answer \<Rightarrow> io_answer \<Rightarrow> int \<Rightarrow> session \<Rightarrow> session" where
  "ProcessSend io dio numOfBytes s =
     (let s1 = s\<lparr>m_sendEvent := False, m_sendBuffers := []\<rparr> in
      if numOfBytes = 0 then Disconnect dio s1
      else if m_sendQueue s1 = [] then s1\<lparr>m_sendRegistered := False\<rparr>
      else RegisterSend io dio s1)"

section \<open>Dispatch\<close>

text \<open>Session::Dispatch; an accept event is ignored here.\<close>

definition Session_Dispatch ::
    "'s packet_callback \<Rightarrow> (session \<Rightarrow> 's \<Rightarrow> 's result) \<Rightarrow> ('s \<Rightarrow> 's result) \<Rightarrow> io_answer \<Rightarrow> io_answer \<Rightarrow>
       EventType \<Rightarrow> int \<Rightarrow> session \<Rightarrow> 's \<Rightarrow> (session \<times> 's) result option" where
  "Session_Dispatch cb onconn ondisc io dio event numOfBytes s app =
     (case event of
        EventType.Connect \<Rightarrow> Some (ProcessConnect onconn io dio s app)
      | EventType.Disconnect \<Rightarrow> Some (ProcessDisconnect ondisc s app)
      | EventType.Recv \<Rightarrow> ProcessRecv cb io dio numOfBytes s app
      | EventType.Send \<Rightarrow> Some (Inr (ProcessSend io dio numOfBytes s, app))
      | EventType.Accept \<Rightarrow> Some (Inr (s, app)))"

end
