(* ===== verification/Session_Send.thy ===== *)
theory Session_Send
  imports Session_IO
begin

text \<open>
  The send path of a session with any number of threads (Session::Send, RegisterSend and
  ProcessSend, ServerCore/Session.cpp), in the steps other threads can see. A thread in ProcessSend
  keeps the session's lock while it registers the next send; the regions that take the lock wait for
  it. The fields queued and calls only record the buffers pushed and the calls of WSASend with their
  answers.
\<close>

section \<open>Threads\<close>

text \<open>The flag of a step of RegisterSend says whether the thread holds the lock around it.\<close>

datatype send_pc =
    S_None
  | S_Check nat
  | S_Push nat
  | RS_Begin bool
  | RS_Take bool
  | RS_Call bool
  | RS_Clear bool
  | RS_Store bool
  | PS_Begin int
  | PS_Lock

record sending =
  sess :: session
  in_flight :: bool
  send_at :: "u32 \<Rightarrow> send_pc"
  lock_of :: "u32 option"
  queued :: "nat list"
  calls :: "(nat list \<times> io_answer) list"

definition go :: "u32 \<Rightarrow> send_pc \<Rightarrow> sending \<Rightarrow> sending" where
  "go t pc s = s\<lparr>send_at := (send_at s)(t := pc)\<rparr>"

definition upd_sess :: "(session \<Rightarrow> session) \<Rightarrow> sending \<Rightarrow> sending" where
  "upd_sess f s = s\<lparr>sess := f (sess s)\<rparr>"

text \<open>RegisterSend returns; the thread that held the lock around it gives it up.\<close>

definition return :: "u32 \<Rightarrow> bool \<Rightarrow> sending \<Rightarrow> sending" where
  "return t held s = go t S_None (if held then s\<lparr>lock_of := None\<rparr> else s)"

section \<open>Steps\<close>

fun Send_step :: "send_pc \<Rightarrow> u32 \<Rightarrow> sending \<Rightarrow> sending" where
  "Send_step (S_Check b) t s = (if \<not> m_connected (sess s) then go t S_None s else go t (S_Push b) s)"
| "Send_step (S_Push b) t s =
     (let registerSend = (\<not> m_sendRegistered (sess s));
          s1 = (upd_sess (\<lambda>k. k\<lparr>m_sendQueue := m_sendQueue k @ [b], m_sendRegistered := True\<rparr>) s)
                 \<lparr>queued := queued s @ [b]\<rparr>
      in if registerSend then go t (RS_Begin False) s1 else go t S_None s1)"
| "Send_step pc t s = s"

fun RegisterSend_step :: "io_answer \<Rightarrow> io_answer \<Rightarrow> send_pc \<Rightarrow> u32 \<Rightarrow> sending \<Rightarrow> sending" where
  "RegisterSend_step io dio (RS_Begin held) t s =
     (if \<not> m_connected (sess s) then return t held s
      else go t (RS_Take held) (upd_sess (\<lambda>k. k\<lparr>m_sendEvent := True\<rparr>) s))"
| "RegisterSend_step io dio (RS_Take held) t s = go t (RS_Call held) (upd_sess take_queue s)"
| "RegisterSend_step io dio (RS_Call held) t s =
     (let s1 = s\<lparr>calls := calls s @ [(m_sendBuffers (sess s), io)]\<rparr> in
      case io of
        IO_Accepted \<Rightarrow> return t held (s1\<lparr>in_flight := True\<rparr>)
      | IO_Failed errorCode \<Rightarrow> go t (RS_Clear held) (upd_sess (HandleError dio errorCode) s1))"
| "RegisterSend_step io dio (RS_Clear held) t s =
     go t (RS_Store held) (upd_sess (\<lambda>k. k\<lparr>m_sendEvent := False, m_sendBuffers := []\<rparr>) s)"
| "RegisterSend_step io dio (RS_Store held) t s =
     return t held (upd_sess (\<lambda>k. k\<lparr>m_sendRegistered := False\<rparr>) s)"
| "RegisterSend_step io dio pc t s = s"

fun ProcessSend_step :: "io_answer \<Rightarrow> send_pc \<Rightarrow> u32 \<Rightarrow> sending \<Rightarrow> sending" where
  "ProcessSend_step dio (PS_Begin numOfBytes) t s =
     (let s1 = upd_sess (\<lambda>k. k\<lparr>m_sendEvent := False, m_sendBuffers := []\<rparr>) s in
      if numOfBytes = 0 then go t S_None (upd_sess (Disconnect dio) s1) else go t PS_Lock s1)"
| "ProcessSend_step dio PS_Lock t s =
     (if m_sendQueue (sess s) = [] then go t S_None (upd_sess (\<lambda>k. k\<lparr>m_sendRegistered := False\<rparr>) s)
      else go t (RS_Begin True) (s\<lparr>lock_of := Some t\<rparr>))"
| "ProcessSend_step dio pc t s = s"

fun needs_lock :: "send_pc \<Rightarrow> bool" where
  "needs_lock (S_Push b) = True"
| "needs_lock (RS_Take held) = (\<not> held)"
| "needs_lock PS_Lock = True"
| "needs_lock _ = False"

definition send_step_of :: "io_answer \<Rightarrow> io_answer \<Rightarrow> send_pc \<Rightarrow> u32 \<Rightarrow> sending \<Rightarrow> sending" where
  "send_step_of io dio pc t s =
     (case pc of
        S_Check _ \<Rightarrow> Send_step pc t s | S_Push _ \<Rightarrow> Send_step pc t s
      | PS_Begin _ \<Rightarrow> ProcessSend_step dio pc t s | PS_Lock \<Rightarrow> ProcessSend_step dio pc t s
      | _ \<Rightarrow> RegisterSend_step io dio pc t s)"

text \<open>
  Any thread may call Send; a send in flight completes on a worker; the other paths of the session
  may disconnect it at any time.
\<close>

inductive session_send_step :: "sending \<Rightarrow> sending \<Rightarrow> bool" where
  call_send: "send_at s t = S_None \<Longrightarrow> session_send_step s (go t (S_Check b) s)"
| run: "send_at s t \<noteq> S_None \<Longrightarrow> needs_lock (send_at s t) \<longrightarrow> lock_of s = None \<Longrightarrow>
     session_send_step s (send_step_of io dio (send_at s t) t s)"
| complete: "in_flight s \<Longrightarrow> send_at s t = S_None \<Longrightarrow>
     session_send_step s (go t (PS_Begin n) (s\<lparr>in_flight := False\<rparr>))"
| disconnected: "session_send_step s (upd_sess (Disconnect dio) s)"

text \<open>It starts when the session has just been connected and nothing was sent.\<close>

definition send_sys_init :: "sending \<Rightarrow> bool" where
  "send_sys_init s \<longleftrightarrow> m_connected (sess s) \<and> m_sendQueue (sess s) = [] \<and> \<not> m_sendRegistered (sess s)
     \<and> m_sendBuffers (sess s) = [] \<and> \<not> in_flight s \<and> send_at s = (\<lambda>_. S_None) \<and> lock_of s = None
     \<and> queued s = [] \<and> calls s = []"

end
