(* ===== verification/Session_Send_Safety.thy ===== *)
theory Session_Send_Safety
  imports Session_Send
begin

text \<open>
  One send at a time, the buffers in the order they were queued, and when a queued buffer can be
  left behind.
\<close>

section \<open>The invariant\<close>

fun send_token :: "send_pc \<Rightarrow> nat" where
  "send_token S_None = 0"
| "send_token (S_Check _) = 0"
| "send_token (S_Push _) = 0"
| "send_token _ = 1"

text \<open>The threads inside RegisterSend or ProcessSend, and the send in flight.\<close>

definition senders :: "sending \<Rightarrow> nat" where
  "senders s = (\<Sum>t\<in>UNIV. send_token (send_at s t)) + (if in_flight s then 1 else 0)"

definition calling :: "sending \<Rightarrow> bool" where
  "calling s \<longleftrightarrow> (\<exists>t held. send_at s t = RS_Call held)"

fun holds_none :: "send_pc \<Rightarrow> bool" where
  "holds_none (RS_Begin _) = True"
| "holds_none (RS_Take _) = True"
| "holds_none (RS_Store _) = True"
| "holds_none PS_Lock = True"
| "holds_none _ = False"

fun failing :: "send_pc \<Rightarrow> bool" where
  "failing (RS_Clear _) = True"
| "failing (RS_Store _) = True"
| "failing _ = False"

definition send_failed :: "sending \<Rightarrow> bool" where
  "send_failed s \<longleftrightarrow> (\<exists>b e. (b, IO_Failed e) \<in> set (calls s))"

definition send_sys_inv :: "sending \<Rightarrow> bool" where
  "send_sys_inv s \<longleftrightarrow> senders s \<le> (if m_sendRegistered (sess s) then 1 else 0)
     \<and> queued s = concat (map fst (calls s)) @ (if calling s then m_sendBuffers (sess s) else []) @ m_sendQueue (sess s)
     \<and> (\<not> m_sendRegistered (sess s) \<longrightarrow> m_sendBuffers (sess s) = [])
     \<and> (\<forall>t. holds_none (send_at s t) \<longrightarrow> m_sendBuffers (sess s) = [])
     \<and> (\<forall>t. failing (send_at s t) \<longrightarrow> send_failed s)
     \<and> (\<not> send_failed s \<longrightarrow> (\<not> m_sendRegistered (sess s) \<longrightarrow> m_sendQueue (sess s) = [])
          \<and> (m_sendRegistered (sess s) \<longrightarrow> m_connected (sess s) \<longrightarrow> senders s = 1))"

lemma senders_change:
  assumes "send_at s' = (send_at s)(t := pc)"
  shows "senders s' + send_token (send_at s t) + (if in_flight s then 1 else 0)
       = senders s + send_token pc + (if in_flight s' then 1 else 0)"
  using sum_one[of t "\<lambda>u. send_token (send_at s' u)" "\<lambda>u. send_token (send_at s u)"] assms
  by (simp add: senders_def)

text \<open>A thread that is the sender is the only one.\<close>

lemma only_sender:
  assumes "senders s \<le> 1" "send_token (send_at s t) = 1"
  shows "\<not> in_flight s" "u \<noteq> t \<Longrightarrow> send_token (send_at s u) = 0" "senders s = 1"
proof -
  have ge: "send_token (send_at s t) \<le> (\<Sum>t\<in>UNIV. send_token (send_at s t))" by (rule member_le_sum) simp_all
  then show "\<not> in_flight s" "senders s = 1" using assms by (auto simp: senders_def split: if_splits)
  assume "u \<noteq> t"
  have "sum (\<lambda>t. send_token (send_at s t)) {t, u} \<le> (\<Sum>t\<in>UNIV. send_token (send_at s t))"
    by (rule sum_mono2) auto
  then show "send_token (send_at s u) = 0" using assms \<open>u \<noteq> t\<close> by (simp add: senders_def split: if_splits)
qed

lemma flying:
  assumes "senders s \<le> 1" "in_flight s"
  shows "send_token (send_at s u) = 0" "senders s = 1"
proof -
  have ge: "send_token (send_at s u) \<le> (\<Sum>t\<in>UNIV. send_token (send_at s t))" by (rule member_le_sum) simp_all
  then show "send_token (send_at s u) = 0" "senders s = 1" using assms by (auto simp: senders_def)
qed

lemma token_cases:
  "holds_none pc \<Longrightarrow> send_token pc = 1" "failing pc \<Longrightarrow> send_token pc = 1"
  "pc = RS_Call held \<Longrightarrow> send_token pc = 1"
  by (cases pc; simp)+

lemma send_sys_invD:
  assumes "send_sys_inv s"
  shows "senders s \<le> (if m_sendRegistered (sess s) then 1 else 0)" "senders s \<le> 1"
    "queued s = concat (map fst (calls s)) @ (if calling s then m_sendBuffers (sess s) else []) @ m_sendQueue (sess s)"
    "\<not> m_sendRegistered (sess s) \<Longrightarrow> m_sendBuffers (sess s) = []"
    "holds_none (send_at s t) \<Longrightarrow> m_sendBuffers (sess s) = []"
    "failing (send_at s t) \<Longrightarrow> send_failed s"
    "\<not> send_failed s \<Longrightarrow> \<not> m_sendRegistered (sess s) \<Longrightarrow> m_sendQueue (sess s) = []"
    "\<not> send_failed s \<Longrightarrow> m_sendRegistered (sess s) \<Longrightarrow> m_connected (sess s) \<Longrightarrow> senders s = 1"
proof -
  show "senders s \<le> 1" using assms by (simp add: send_sys_inv_def split: if_splits)
qed (use assms in \<open>unfold send_sys_inv_def, blast+\<close>)

text \<open>A step after which thread t and the send in flight are all there is of the senders.\<close>

lemma lone_sender:
  assumes others: "\<And>u. u \<noteq> t \<Longrightarrow> send_token (send_at s' u) = 0"
    and pc: "send_at s' t = pc"
    and tok: "send_token pc + (if in_flight s' then 1 else 0) \<le> (if m_sendRegistered (sess s') then 1 else 0 :: nat)"
    and q: "queued s' = concat (map fst (calls s')) @ (if \<exists>h. pc = RS_Call h then m_sendBuffers (sess s') else [])
        @ m_sendQueue (sess s')"
    and bufs: "\<not> m_sendRegistered (sess s') \<or> holds_none pc \<Longrightarrow> m_sendBuffers (sess s') = []"
    and fail: "failing pc \<Longrightarrow> send_failed s'"
    and alive: "\<not> send_failed s' \<Longrightarrow> (\<not> m_sendRegistered (sess s') \<longrightarrow> m_sendQueue (sess s') = [])
        \<and> (m_sendRegistered (sess s') \<longrightarrow> m_connected (sess s') \<longrightarrow> send_token pc + (if in_flight s' then 1 else 0) = 1)"
  shows "send_sys_inv s'"
proof -
  have "(\<Sum>u\<in>UNIV - {t}. send_token (send_at s' u)) = 0" using others by simp
  then have sum: "senders s' = send_token pc + (if in_flight s' then 1 else 0)"
    using pc by (simp add: senders_def sum.remove[of UNIV t])
  have calling: "calling s' \<longleftrightarrow> (\<exists>h. pc = RS_Call h)"
    unfolding calling_def using others pc by (metis send_token.simps(6) zero_neq_one)
  have hn: "u = t" if "holds_none (send_at s' u)" for u
    using others[of u] token_cases(1)[OF that] by (cases "u = t") auto
  have fl: "u = t" if "failing (send_at s' u)" for u
    using others[of u] token_cases(2)[OF that] by (cases "u = t") auto
  show ?thesis
    unfolding send_sys_inv_def sum calling
    using tok q bufs fail alive hn fl pc by metis
qed

text \<open>The step of a thread that is the sender.\<close>

lemma sender_step:
  assumes inv: "send_sys_inv s" and one: "send_token (send_at s t) = 1"
    and at: "send_at s' = (send_at s)(t := pc)"
    and rest: "send_token pc + (if in_flight s' then 1 else 0) \<le> (if m_sendRegistered (sess s') then 1 else 0 :: nat)"
      "queued s' = concat (map fst (calls s')) @ (if \<exists>h. pc = RS_Call h then m_sendBuffers (sess s') else [])
        @ m_sendQueue (sess s')"
      "\<not> m_sendRegistered (sess s') \<or> holds_none pc \<Longrightarrow> m_sendBuffers (sess s') = []"
      "failing pc \<Longrightarrow> send_failed s'"
      "\<not> send_failed s' \<Longrightarrow> (\<not> m_sendRegistered (sess s') \<longrightarrow> m_sendQueue (sess s') = [])
        \<and> (m_sendRegistered (sess s') \<longrightarrow> m_connected (sess s') \<longrightarrow> send_token pc + (if in_flight s' then 1 else 0) = 1)"
  shows "send_sys_inv s'"
proof (rule lone_sender[of t])
  show "send_token (send_at s' u) = 0" if "u \<noteq> t" for u
    using only_sender(2)[OF send_sys_invD(2)[OF inv] one that] at that by simp
  show "send_at s' t = pc" using at by simp
qed (use rest in blast)+

text \<open>A step of a thread that is no sender before or after it.\<close>

lemma other_step:
  assumes inv: "send_sys_inv s" and tok: "send_token (send_at s t) = 0" "send_token pc = 0"
    and at: "send_at s' = (send_at s)(t := pc)" and fl: "in_flight s' = in_flight s" and cl: "calls s' = calls s"
    and q: "queued s' = queued s @ x" "m_sendQueue (sess s') = m_sendQueue (sess s) @ x"
    and same: "m_sendRegistered (sess s') = m_sendRegistered (sess s)" "m_sendBuffers (sess s') = m_sendBuffers (sess s)"
      "m_connected (sess s') = m_connected (sess s)"
    and x: "x \<noteq> [] \<Longrightarrow> m_sendRegistered (sess s)"
  shows "send_sys_inv s'"
proof -
  note D = send_sys_invD[OF inv]
  have snd: "senders s' = senders s" using senders_change[OF at] tok fl by simp
  have call: "calling s' = calling s"
  proof -
    have "send_at s' u = RS_Call h \<longleftrightarrow> send_at s u = RS_Call h" for u h
      using at tok by (cases "u = t") auto
    then show ?thesis by (simp add: calling_def)
  qed
  have hn: "holds_none (send_at s' u) \<Longrightarrow> holds_none (send_at s u)" for u
    using at tok token_cases(1)[of pc] by (cases "u = t") auto
  have fa: "failing (send_at s' u) \<Longrightarrow> failing (send_at s u)" for u
    using at tok token_cases(2)[of pc] by (cases "u = t") auto
  have sf: "send_failed s' = send_failed s" by (simp add: send_failed_def cl)
  show ?thesis
    unfolding send_sys_inv_def snd call sf q same cl
    using D(1,3,4,7,8) D(5)[OF hn] D(6)[OF fa] x by auto
qed

section \<open>Every step\<close>

lemma Disconnect_fields:
  "m_sendQueue (Disconnect io k) = m_sendQueue k" "m_sendRegistered (Disconnect io k) = m_sendRegistered k"
  "m_sendBuffers (Disconnect io k) = m_sendBuffers k" "\<not> m_connected (Disconnect io k)"
  by (cases io; simp add: Disconnect_def RegisterDisconnect_def Let_def)+

lemma HandleError_fields:
  "m_sendQueue (HandleError io e k) = m_sendQueue k" "m_sendRegistered (HandleError io e k) = m_sendRegistered k"
  "m_sendBuffers (HandleError io e k) = m_sendBuffers k"
  by (simp_all add: HandleError_def Disconnect_fields)

lemma go_fields:
  "sess (go t pc s) = sess s" "in_flight (go t pc s) = in_flight s" "calls (go t pc s) = calls s"
  "queued (go t pc s) = queued s" "send_at (go t pc s) = (send_at s)(t := pc)"
  "sess (return t h s) = sess s" "in_flight (return t h s) = in_flight s" "calls (return t h s) = calls s"
  "queued (return t h s) = queued s" "send_at (return t h s) = (send_at s)(t := S_None)"
  "sess (upd_sess f s) = f (sess s)" "in_flight (upd_sess f s) = in_flight s" "calls (upd_sess f s) = calls s"
  "queued (upd_sess f s) = queued s" "send_at (upd_sess f s) = send_at s"
  by (simp_all add: go_def return_def upd_sess_def)

lemmas send_defs = go_fields take_queue_def Let_def

lemma registered_sender:
  assumes "send_sys_inv s" "senders s = 1"
  shows "m_sendRegistered (sess s)"
  using send_sys_invD(1)[OF assms(1)] assms(2) by (simp split: if_splits)

lemma queued_of_sender:
  assumes inv: "send_sys_inv s" and tok: "send_token (send_at s t) = 1"
  shows "queued s = concat (map fst (calls s)) @ (if \<exists>h. send_at s t = RS_Call h then m_sendBuffers (sess s) else [])
      @ m_sendQueue (sess s)"
proof -
  have "calling s \<longleftrightarrow> (\<exists>h. send_at s t = RS_Call h)"
    unfolding calling_def using only_sender(2)[OF send_sys_invD(2)[OF inv] tok]
    by (metis send_token.simps(6) zero_neq_one)
  then show ?thesis using send_sys_invD(3)[OF inv] by simp
qed

lemma register_inv:
  assumes inv: "send_sys_inv s" and pc: "send_token (send_at s t) = 1" and no: "\<And>n. send_at s t \<noteq> PS_Begin n" "send_at s t \<noteq> PS_Lock"
  shows "send_sys_inv (RegisterSend_step io dio (send_at s t) t s)"
proof -
  note D = send_sys_invD[OF inv] and O = only_sender[OF send_sys_invD(2)[OF inv] pc]
  note reg = registered_sender[OF inv O(3)] and q = queued_of_sender[OF inv pc]
  show ?thesis
  proof (cases "send_at s t")
    case (RS_Begin h)
    then have bufs: "m_sendBuffers (sess s) = []" using D(5)[of t] by simp
    show ?thesis
    proof (cases "m_connected (sess s)")
      case True
      show ?thesis
        by (rule sender_step[OF inv pc, of _ "RS_Take h"])
          (use RS_Begin True bufs reg q O in \<open>simp_all add: send_defs send_failed_def\<close>)
    next
      case False
      show ?thesis
        by (rule sender_step[OF inv pc, of _ S_None])
          (use RS_Begin False bufs reg q O in \<open>simp_all add: send_defs send_failed_def\<close>)
    qed
  next
    case (RS_Take h)
    then have bufs: "m_sendBuffers (sess s) = []" using D(5)[of t] by simp
    show ?thesis
      by (rule sender_step[OF inv pc, of _ "RS_Call h"])
        (use RS_Take bufs reg q O in \<open>simp_all add: send_defs send_failed_def\<close>)
  next
    case (RS_Call h)
    show ?thesis
    proof (cases io)
      case IO_Accepted
      show ?thesis
        by (rule sender_step[OF inv pc, of _ S_None])
          (use RS_Call IO_Accepted reg q O in \<open>simp_all add: send_defs send_failed_def\<close>)
    next
      case (IO_Failed e)
      let ?s = "RegisterSend_step io dio (send_at s t) t s"
      have sf: "send_failed ?s" using RS_Call IO_Failed by (auto simp: send_defs send_failed_def)
      show ?thesis
        by (rule sender_step[OF inv pc, of _ "RS_Clear h"])
          (use RS_Call IO_Failed reg q O sf in \<open>simp_all add: send_defs HandleError_fields\<close>)
    qed
  next
    case (RS_Clear h)
    have sf: "send_failed s" using D(6)[of t] RS_Clear by simp
    show ?thesis
      by (rule sender_step[OF inv pc, of _ "RS_Store h"])
        (use RS_Clear sf reg q O in \<open>simp_all add: send_defs send_failed_def\<close>)
  next
    case (RS_Store h)
    have sf: "send_failed s" using D(6)[of t] RS_Store by simp
    have bufs: "m_sendBuffers (sess s) = []" using D(5)[of t] RS_Store by simp
    show ?thesis
      by (rule sender_step[OF inv pc, of _ S_None])
        (use RS_Store sf bufs reg q O in \<open>simp_all add: send_defs send_failed_def\<close>)
  qed (use pc no in simp_all)
qed

lemma process_inv:
  assumes inv: "send_sys_inv s" and at: "send_at s t = PS_Lock \<or> (\<exists>n. send_at s t = PS_Begin n)"
  shows "send_sys_inv (ProcessSend_step dio (send_at s t) t s)"
proof -
  have pc: "send_token (send_at s t) = 1" using at by auto
  note D = send_sys_invD[OF inv] and O = only_sender[OF send_sys_invD(2)[OF inv] pc]
  note reg = registered_sender[OF inv O(3)] and q = queued_of_sender[OF inv pc]
  show ?thesis
  proof (cases "send_at s t = PS_Lock")
    case True
    then have bufs: "m_sendBuffers (sess s) = []" using D(5)[of t] by simp
    show ?thesis
    proof (cases "m_sendQueue (sess s) = []")
      case empty: True
      show ?thesis
        by (rule sender_step[OF inv pc, of _ S_None])
          (use True empty bufs reg q O in \<open>simp_all add: send_defs send_failed_def\<close>)
    next
      case False
      show ?thesis
        by (rule sender_step[OF inv pc, of _ "RS_Begin True"])
          (use True False bufs reg q O in \<open>simp_all add: send_defs send_failed_def\<close>)
    qed
  next
    case False
    then obtain n where n: "send_at s t = PS_Begin n" using at by blast
    show ?thesis
    proof (cases "n = 0")
      case True
      show ?thesis
        by (rule sender_step[OF inv pc, of _ S_None])
          (use n True reg q O in \<open>simp_all add: send_defs send_failed_def Disconnect_fields\<close>)
    next
      case False
      show ?thesis
        by (rule sender_step[OF inv pc, of _ PS_Lock])
          (use n False reg q O in \<open>simp_all add: send_defs send_failed_def\<close>)
    qed
  qed
qed

lemma push_buffer_inv:
  assumes inv: "send_sys_inv s" and pc: "send_at s t = S_Push b"
  shows "send_sys_inv (Send_step (send_at s t) t s)"
proof (cases "m_sendRegistered (sess s)")
  case True
  show ?thesis
    by (rule other_step[OF inv, of t S_None _ "[b]"]) (use pc True in \<open>simp_all add: send_defs Let_def\<close>)
next
  case False
  note D = send_sys_invD[OF inv]
  have zero: "senders s = 0" using D(1) False by simp
  then have tok: "send_token (send_at s u) = 0" and fl: "\<not> in_flight s" for u
    by (auto simp: senders_def split: if_splits)
  have bufs: "m_sendBuffers (sess s) = []" using D(4) False by simp
  have "queued s = concat (map fst (calls s)) @ m_sendQueue (sess s)" using D(3) bufs by simp
  then show ?thesis
    by (intro lone_sender[of t _ "RS_Begin False"])
      (use pc False tok fl bufs in \<open>simp_all add: send_defs Let_def send_failed_def\<close>)
qed

lemma complete_inv:
  assumes inv: "send_sys_inv s" and fl: "in_flight s"
  shows "send_sys_inv (go t (PS_Begin n) (s\<lparr>in_flight := False\<rparr>))"
proof -
  note D = send_sys_invD[OF inv] and F = flying[OF send_sys_invD(2)[OF inv] fl]
  have "\<not> calling s" unfolding calling_def using F(1) by (metis send_token.simps(6) zero_neq_one)
  then have "queued s = concat (map fst (calls s)) @ m_sendQueue (sess s)" using D(3) by simp
  then show ?thesis
    by (intro lone_sender[of t _ "PS_Begin n"])
      (use F registered_sender[OF inv F(2)] in \<open>simp_all add: send_defs send_failed_def\<close>)
qed

lemma disconnected_inv:
  assumes inv: "send_sys_inv s"
  shows "send_sys_inv (upd_sess (Disconnect dio) s)"
proof -
  note D = send_sys_invD[OF inv]
  have same: "senders (upd_sess (Disconnect dio) s) = senders s" "calling (upd_sess (Disconnect dio) s) = calling s"
    "send_failed (upd_sess (Disconnect dio) s) = send_failed s"
    by (simp_all add: senders_def calling_def send_failed_def go_fields)
  show ?thesis
    using inv unfolding send_sys_inv_def same go_fields by (simp add: Disconnect_fields)
qed

lemma send_init_inv: "send_sys_init s \<Longrightarrow> send_sys_inv s"
  by (simp add: send_sys_init_def send_sys_inv_def senders_def calling_def)

lemma session_send_inv: "session_send_step s s' \<Longrightarrow> send_sys_inv s \<Longrightarrow> send_sys_inv s'"
proof (induction rule: session_send_step.induct)
  case (call_send s t b)
  show ?case
    by (rule other_step[OF call_send.prems, of t "S_Check b" _ "[]"])
      (use call_send.hyps in \<open>simp_all add: send_defs\<close>)
next
  case (run s t io dio)
  show ?case
  proof (cases "send_at s t")
    case (S_Check b)
    show ?thesis
    proof (cases "m_connected (sess s)")
      case True
      show ?thesis
        by (rule other_step[OF run.prems, of t "S_Push b" _ "[]"])
          (use S_Check True in \<open>simp_all add: send_step_of_def send_defs\<close>)
    next
      case False
      show ?thesis
        by (rule other_step[OF run.prems, of t S_None _ "[]"])
          (use S_Check False in \<open>simp_all add: send_step_of_def send_defs\<close>)
    qed
  next
    case (S_Push b)
    then show ?thesis using push_buffer_inv[OF run.prems S_Push] by (simp add: send_step_of_def)
  next
    case (PS_Begin n)
    then show ?thesis using process_inv[OF run.prems, of t dio] by (simp add: send_step_of_def)
  next
    case PS_Lock
    then show ?thesis using process_inv[OF run.prems, of t dio] by (simp add: send_step_of_def)
  qed (use run.hyps register_inv[OF run.prems, of t io dio] in \<open>simp_all add: send_step_of_def\<close>)
qed (auto intro: complete_inv disconnected_inv)

interpretation send_path: invariant_system send_sys_init session_send_step send_sys_inv
  by unfold_locales (fact send_init_inv, erule (1) session_send_inv[rotated])

section \<open>A run with two threads\<close>

definition demo_sess :: "nat list \<Rightarrow> bool \<Rightarrow> bool \<Rightarrow> nat list \<Rightarrow> session" where
  "demo_sess q reg ev bufs = \<lparr>m_connected = True, m_recvBuffer = small_buffer, m_sendQueue = q, m_sendRegistered = reg,
     m_connectEvent = False, m_disconnectEvent = False, m_recvEvent = False, m_sendEvent = ev, m_sendBuffers = bufs\<rparr>"

definition demo :: "session \<Rightarrow> send_pc \<Rightarrow> send_pc \<Rightarrow> nat list \<Rightarrow> (nat list \<times> io_answer) list \<Rightarrow> sending" where
  "demo k p1 p2 q cs = \<lparr>sess = k, in_flight = False, send_at = (\<lambda>t. if t = 1 then p1 else if t = 2 then p2 else S_None),
     lock_of = None, queued = q, calls = cs\<rparr>"

lemma demo_step1:
  assumes "reach send_sys_init session_send_step (demo k p1 p2 q cs)" and "p1 \<noteq> S_None"
    and "send_step_of io IO_Accepted p1 1 (demo k p1 p2 q cs) = demo k' p1' p2 q' cs'"
  shows "reach send_sys_init session_send_step (demo k' p1' p2 q' cs')"
  using reach_step[OF assms(1) run[of _ 1 io IO_Accepted]] assms(2,3) by (simp add: demo_def)

lemma demo_step2:
  assumes "reach send_sys_init session_send_step (demo k p1 p2 q cs)" and "p2 \<noteq> S_None"
    and "send_step_of io IO_Accepted p2 2 (demo k p1 p2 q cs) = demo k' p1 p2' q' cs'"
  shows "reach send_sys_init session_send_step (demo k' p1 p2' q' cs')"
  using reach_step[OF assms(1) run[of _ 2 io IO_Accepted]] assms(2,3) by (simp add: demo_def)

lemma demo_simps:
  "sess (demo k p1 p2 q cs) = k" "queued (demo k p1 p2 q cs) = q" "calls (demo k p1 p2 q cs) = cs"
  "go 1 pc (demo k p1 p2 q cs) = demo k pc p2 q cs" "go 2 pc (demo k p1 p2 q cs) = demo k p1 pc q cs"
  "upd_sess f (demo k p1 p2 q cs) = demo (f k) p1 p2 q cs"
  "(demo k p1 p2 q cs)\<lparr>queued := q'\<rparr> = demo k p1 p2 q' cs" "(demo k p1 p2 q cs)\<lparr>calls := cs'\<rparr> = demo k p1 p2 q cs'"
  "return t False x = go t S_None x"
  by (auto simp: demo_def go_def upd_sess_def return_def fun_eq_iff)

lemmas demo_defs = demo_simps demo_sess_def send_step_of_def take_queue_def
  HandleError_def WSAECONNRESET_def WSAECONNABORTED_def Let_def

lemma run_calling:
  "reach send_sys_init session_send_step (demo (demo_sess [] True True [1]) (RS_Call False) S_None [1] [])"
proof -
  let ?R = "reach send_sys_init session_send_step"
  have 0: "?R (demo (demo_sess [] False False []) S_None S_None [] [])"
    by (rule reach_init) (auto simp: send_sys_init_def demo_def demo_sess_def)
  have 1: "?R (demo (demo_sess [] False False []) (S_Check 1) S_None [] [])"
    using reach_step[OF 0 call_send[of _ 1 1]] by (simp add: demo_simps) (simp add: demo_def)
  have 2: "?R (demo (demo_sess [] False False []) (S_Push 1) S_None [] [])"
    by (rule demo_step1[OF 1, of IO_Accepted]) (simp_all add: demo_defs)
  have 3: "?R (demo (demo_sess [1] True False []) (RS_Begin False) S_None [1] [])"
    by (rule demo_step1[OF 2, of IO_Accepted]) (simp_all add: demo_defs)
  have 4: "?R (demo (demo_sess [1] True True []) (RS_Take False) S_None [1] [])"
    by (rule demo_step1[OF 3, of IO_Accepted]) (simp_all add: demo_defs)
  show ?thesis
    by (rule demo_step1[OF 4, of IO_Accepted]) (simp_all add: demo_defs)
qed

lemma run_second:
  "reach send_sys_init session_send_step (demo (demo_sess [2] True True [1]) (RS_Call False) S_None [1, 2] [])"
proof -
  let ?R = "reach send_sys_init session_send_step"
  have 1: "?R (demo (demo_sess [] True True [1]) (RS_Call False) (S_Check 2) [1] [])"
    using reach_step[OF run_calling call_send[of _ 2 2]] by (simp add: demo_simps) (simp add: demo_def)
  have 2: "?R (demo (demo_sess [] True True [1]) (RS_Call False) (S_Push 2) [1] [])"
    by (rule demo_step2[OF 1, of IO_Accepted]) (simp_all add: demo_defs)
  show ?thesis
    by (rule demo_step2[OF 2, of IO_Accepted]) (simp_all add: demo_defs)
qed

section \<open>Properties\<close>

text \<open>C32: One send at a time. In every reachable state at most one thread is inside RegisterSend or
  the completion of a send, and none while a send is in flight, so the session's one send event is
  never used for two requests.\<close>

theorem one_send:
  assumes "reach send_sys_init session_send_step s"
  shows "(\<forall>t u. send_token (send_at s t) = 1 \<and> send_token (send_at s u) = 1 \<longrightarrow> t = u)
    \<and> (in_flight s \<longrightarrow> (\<forall>t. send_token (send_at s t) = 0))"
proof -
  note le = send_sys_invD(2)[OF send_path.reach_inv[OF assms]]
  show ?thesis using only_sender(2)[OF le] flying(1)[OF le] by (metis zero_neq_one)
qed

theorem one_send_witness:
  "send_token (send_at (demo (demo_sess [2] True True [1]) (RS_Call False) S_None [1, 2] []) 2) \<noteq> 1"
proof -
  let ?s = "demo (demo_sess [2] True True [1]) (RS_Call False) S_None [1, 2] []"
  have "send_token (send_at ?s 1) = 1" by (simp add: demo_def)
  then show ?thesis using conjunct1[OF one_send[OF run_second], THEN spec, THEN spec, of 1 2] by fastforce
qed

text \<open>Buffers are sent in order. The buffers given to WSASend call by call, followed by those a
  thread is about to give to it and those still queued, are exactly the buffers Send has queued, in
  their order, each once.\<close>

theorem send_order:
  assumes "reach send_sys_init session_send_step s"
  shows "queued s = concat (map fst (calls s))
    @ (if \<exists>t held. send_at s t = RS_Call held then m_sendBuffers (sess s) else []) @ m_sendQueue (sess s)"
  using send_sys_invD(3)[OF send_path.reach_inv[OF assms]] by (simp add: calling_def)

theorem send_order_witness:
  "queued (demo (demo_sess [2] True True [1]) (RS_Call False) S_None [1, 2] []) = [1] @ [2]"
  using send_order[OF run_second] by (auto simp: demo_def demo_sess_def split: if_splits)

text \<open>C33: Nothing is left behind while WSASend succeeds. As long as no call of WSASend has failed
  and the session is connected, a queued buffer means that a send is in flight or that one thread is
  at work on it.\<close>

theorem send_not_stranded:
  assumes "reach send_sys_init session_send_step s" and "\<not> send_failed s"
    and "m_connected (sess s)" and "m_sendQueue (sess s) \<noteq> []"
  shows "senders s = 1"
  using send_sys_invD(7,8)[OF send_path.reach_inv[OF assms(1)] assms(2)] assms(3,4) by blast

theorem send_not_stranded_witness:
  "senders (demo (demo_sess [2] True True [1]) (RS_Call False) S_None [1, 2] []) = 1"
  by (rule send_not_stranded[OF run_second]) (simp_all add: demo_def demo_sess_def send_failed_def)

text \<open>A failed WSASend can strand a buffer. When WSASend fails with an error other than the two
  that disconnect, a buffer another thread queued during the call stays in the queue of the connected
  session, with no send in flight and no thread at work on it.\<close>

theorem send_stranded:
  "\<exists>s. reach send_sys_init session_send_step s \<and> m_connected (sess s) \<and> m_sendQueue (sess s) \<noteq> []
    \<and> \<not> m_sendRegistered (sess s) \<and> \<not> in_flight s \<and> (\<forall>t. send_at s t = S_None)"
proof -
  let ?R = "reach send_sys_init session_send_step"
  let ?c = "[([1], IO_Failed 10055)]"
  have 1: "?R (demo (demo_sess [2] True True [1]) (RS_Clear False) S_None [1, 2] ?c)"
    by (rule demo_step1[OF run_second, of "IO_Failed 10055"]) (simp_all add: demo_defs)
  have 2: "?R (demo (demo_sess [2] True False []) (RS_Store False) S_None [1, 2] ?c)"
    by (rule demo_step1[OF 1, of IO_Accepted]) (simp_all add: demo_defs)
  have 3: "?R (demo (demo_sess [2] False False []) S_None S_None [1, 2] ?c)"
    by (rule demo_step1[OF 2, of IO_Accepted]) (simp_all add: demo_defs)
  then show ?thesis
    by (intro exI[of _ "demo (demo_sess [2] False False []) S_None S_None [1, 2] ?c"])
      (simp add: demo_def demo_sess_def)
qed

end
