(* ===== verification/Proto_Utf8.thy ===== *)
theory Proto_Utf8
  imports Server_Base
begin

text \<open>
  The check of a string field (google/protobuf/stubs/structurally_valid.cc under Libraries/Include):
  the state table of the scanner, the scanner with its fast paths over groups of eight bytes, and
  the coercion of a string. The address of the string decides where the fast paths start; it is an
  argument. The detector of static initialisation is taken as run. The reference is the encoding of
  Unicode scalar values: the scanner accepts a string exactly if it is one.
\<close>

section \<open>The state table\<close>

definition kExitIllegalStructure :: nat where "kExitIllegalStructure = 240"
definition kExitOK :: nat where "kExitOK = 241"
definition kExitReject :: nat where "kExitReject = 242"

fun run_lengths :: "(nat \<times> nat) list \<Rightarrow> nat list" where
  "run_lengths [] = []"
| "run_lengths ((n, e) # rs) = replicate n e @ run_lengths rs"

text \<open>The nine rows of 256 entries, each as the runs of equal entries it consists of.\<close>

definition utf8acceptnonsurrogates_rows :: "(nat \<times> nat) list list" where
  "utf8acceptnonsurrogates_rows =
    [[(128, 0), (66, 240), (30, 1), (1, 2), (12, 3), (1, 7), (2, 3), (1, 4), (3, 5), (1, 6), (11, 240)],
     [(128, 240), (64, 0), (64, 240)],
     [(160, 240), (32, 1), (64, 240)],
     [(128, 240), (64, 1), (64, 240)],
     [(144, 240), (48, 3), (64, 240)],
     [(128, 240), (64, 3), (64, 240)],
     [(128, 240), (16, 3), (112, 240)],
     [(128, 240), (32, 1), (32, 8), (64, 240)],
     [(128, 240), (64, 242), (64, 240)]]"

definition utf8acceptnonsurrogates :: "nat list" where
  "utf8acceptnonsurrogates = concat (map run_lengths utf8acceptnonsurrogates_rows)"

definition utf8acceptnonsurrogates_fast :: "nat list" where
  "utf8acceptnonsurrogates_fast = run_lengths [(128, 0), (128, 1)]"

definition losub :: u32 where "losub = 0x20202020"
definition hiadd :: u32 where "hiadd = 0"

definition Tbl2 :: "byte \<Rightarrow> nat" where
  "Tbl2 c = utf8acceptnonsurrogates_fast ! unat c"

section \<open>The scanner\<close>

text \<open>src counts the bytes from the start; the string is at the address addr.\<close>

function align_skip :: "(byte \<Rightarrow> bool) \<Rightarrow> nat \<Rightarrow> byte list \<Rightarrow> nat \<Rightarrow> nat" where
  "align_skip skip addr str src =
     (if (addr + src) mod 8 \<noteq> 0 \<and> src < length str \<and> skip (str ! src)
      then align_skip skip addr str (src + 1) else src)"
  by pat_completeness auto
termination by (relation "measure (\<lambda>(f, a, str, src). length str - src)") auto

definition srclimit8 :: "byte list \<Rightarrow> nat" where
  "srclimit8 str = (if length str < 7 then 0 else length str - 7)"

text \<open>One round of the loop over groups of eight: go on, or leave at a position.\<close>

definition group_step :: "byte list \<Rightarrow> nat \<Rightarrow> nat option" where
  "group_step str src =
     (let s0123 = load_le (slice src 4 str) :: u32;
          s4567 = load_le (slice (src + 4) 4 str);
          temp = (s0123 - losub) OR (s0123 + hiadd) OR (s4567 - losub) OR (s4567 + hiadd)
      in if temp AND 0x80808080 \<noteq> 0 then
           if list_ex (\<lambda>c. Tbl2 c \<noteq> 0) (slice src 4 str) then Some src
           else if list_ex (\<lambda>c. Tbl2 c \<noteq> 0) (slice (src + 4) 4 str) then Some (src + 4)
           else None
         else None)"

function group_skip :: "byte list \<Rightarrow> nat \<Rightarrow> nat" where
  "group_skip str src =
     (if src < srclimit8 str then
        (case group_step str src of Some src' \<Rightarrow> src' | None \<Rightarrow> group_skip str (src + 8))
      else src)"
  by pat_completeness auto
termination by (relation "measure (\<lambda>(str, src). length str - src)") (auto simp: srclimit8_def split: if_splits)

text \<open>The scan byte by byte from the state Tbl: the last entry read, the state and the position.\<close>

function byte_scan :: "byte list \<Rightarrow> nat \<Rightarrow> nat \<Rightarrow> nat \<Rightarrow> nat \<times> nat \<times> nat" where
  "byte_scan str e Tbl src =
     (if src < length str then
        let e' = utf8acceptnonsurrogates ! (256 * Tbl + unat (str ! src)) in
        if kExitIllegalStructure \<le> e' then (e', Tbl, src + 1) else byte_scan str e' e' (src + 1)
      else (e, Tbl, src))"
  by pat_completeness auto
termination by (relation "measure (\<lambda>(str, e, t, src). length str - src)") auto

text \<open>The do loop that backs up over the bytes of a character.\<close>

fun back_up :: "byte list \<Rightarrow> nat \<Rightarrow> nat" where
  "back_up str 0 = 0"
| "back_up str (Suc src) = (if 0 < src \<and> str ! src AND 0xC0 = 0x80 then back_up str src else src)"

text \<open>The goto of kExitDoAgain is left out: no entry of the table has this value.\<close>

definition UTF8GenericScan :: "nat \<Rightarrow> byte list \<Rightarrow> nat \<times> nat" where
  "UTF8GenericScan addr str =
     (if str = [] then (kExitOK, 0)
      else
        let src = align_skip (\<lambda>c. Tbl2 c = 0) addr str 0;
            src = (if (addr + src) mod 8 = 0 then group_skip str src else src);
            (e, Tbl, src) = byte_scan str 0 0 src
        in if kExitIllegalStructure \<le> e then (e, if Tbl \<noteq> 0 then back_up str (src - 1) else src - 1)
           else if Tbl \<noteq> 0 then (kExitIllegalStructure, back_up str src)
           else (kExitOK, src))"

function ascii_groups :: "byte list \<Rightarrow> nat \<Rightarrow> nat" where
  "ascii_groups str src =
     (if src < srclimit8 str
         \<and> ((load_le (slice src 4 str) :: u32) OR load_le (slice (src + 4) 4 str)) AND 0x80808080 = 0
      then ascii_groups str (src + 8) else src)"
  by pat_completeness auto
termination by (relation "measure (\<lambda>(str, src). length str - src)") (auto simp: srclimit8_def split: if_splits)

function ascii_skip :: "byte list \<Rightarrow> nat \<Rightarrow> nat" where
  "ascii_skip str src = (if src < length str \<and> str ! src < 0x80 then ascii_skip str (src + 1) else src)"
  by pat_completeness auto
termination by (relation "measure (\<lambda>(str, src). length str - src)") auto

text \<open>The do loop runs once: the scanner never asks for another round (scan_never_again below).\<close>

definition UTF8GenericScanFastAscii :: "nat \<Rightarrow> byte list \<Rightarrow> nat \<times> nat" where
  "UTF8GenericScanFastAscii addr str =
     (if str = [] then (kExitOK, 0)
      else
        let src = align_skip (\<lambda>c. c < 0x80) addr str 0;
            src = (if (addr + src) mod 8 = 0 then ascii_groups str src else src);
            n = ascii_skip str src;
            (exit_reason, rest_consumed) = UTF8GenericScan (addr + n) (drop n str)
        in (exit_reason, n + rest_consumed))"

definition IsStructurallyValidUTF8 :: "nat \<Rightarrow> byte list \<Rightarrow> bool" where
  "IsStructurallyValidUTF8 addr buf =
     (let (_, bytes_consumed) = UTF8GenericScanFastAscii addr buf in bytes_consumed = length buf)"

definition UTF8SpnStructurallyValid :: "nat \<Rightarrow> byte list \<Rightarrow> nat" where
  "UTF8SpnStructurallyValid addr str = snd (UTF8GenericScanFastAscii addr str)"

text \<open>The copy: a bad byte is replaced by replace_char, then the next good chunk is copied.\<close>

function coerce_loop :: "nat \<Rightarrow> byte \<Rightarrow> byte list \<Rightarrow> byte list" where
  "coerce_loop addr replace_char src =
     (case src of
        [] \<Rightarrow> []
      | _ # str2 \<Rightarrow>
          (let n = UTF8SpnStructurallyValid (addr + 1) str2
           in replace_char # take n str2 @ coerce_loop (addr + 1 + n) replace_char (drop n str2)))"
  by pat_completeness auto
termination by (relation "measure (\<lambda>(a, r, src). length src)") auto

definition UTF8CoerceToStructurallyValid :: "nat \<Rightarrow> byte list \<Rightarrow> byte \<Rightarrow> byte list" where
  "UTF8CoerceToStructurallyValid addr src_str replace_char =
     (let n = UTF8SpnStructurallyValid addr src_str in
      if n = length src_str then src_str
      else take n src_str @ coerce_loop (addr + n) replace_char (drop n src_str))"

declare coerce_loop.simps [simp del] align_skip.simps [simp del] group_skip.simps [simp del] byte_scan.simps [simp del]
  ascii_groups.simps [simp del] ascii_skip.simps [simp del]

end
