(* ===== verification/Proto_Wire.thy ===== *)
theory Proto_Wire
  imports Proto_Utf8
begin

text \<open>
  The wire format of the packets, from the protobuf library under Libraries/Include
  (google/protobuf/io/coded_stream.h and .cc, parse_context.h and .cc, wire_format_lite.h,
  wire_format.cc, unknown_field_set.cc, stubs/port.h): varints and sizes, the writers, the readers,
  the fields a parser does not know, and the loop all generated parsers share.

  A reader sees the bytes from its pointer up to the innermost limit and returns its value and the
  number of bytes it moved the pointer; a null pointer is None. The library reads up to 16 bytes past
  a limit and finds it afterwards; here a read past the limit fails at once. The argument depth is
  ParseContext::depth_. A writer returns the bytes it writes. What the position in the
  output and the addresses of strings decide is an argument, the record wire_env.
\<close>

section \<open>Sizes\<close>

text \<open>Bits::Log2FloorNonZero, the loop over the shifts 16, 8, 4, 2, 1 with value and log.\<close>

fun log2_loop :: "nat list \<Rightarrow> u32 \<Rightarrow> nat \<Rightarrow> nat" where
  "log2_loop [] value log = log"
| "log2_loop (i # is) value log =
     (let shift = 2 ^ i; x = drop_bit shift value in
      if x \<noteq> 0 then log2_loop is x (log + shift) else log2_loop is value log)"

definition Log2FloorNonZero :: "u32 \<Rightarrow> int" where
  "Log2FloorNonZero n = (if n = 0 then - 1 else int (log2_loop [4, 3, 2, 1, 0] n 0))"

definition Log2FloorNonZero64 :: "u64 \<Rightarrow> int" where
  "Log2FloorNonZero64 n =
     (let topbits = ucast (drop_bit 32 n) :: u32 in
      if topbits = 0 then Log2FloorNonZero (ucast n) else 32 + Log2FloorNonZero topbits)"

definition VarintSize32 :: "u32 \<Rightarrow> nat" where
  "VarintSize32 value = (let log2value = nat (Log2FloorNonZero (value OR 1)) in (log2value * 9 + 73) div 64)"

definition VarintSize64 :: "u64 \<Rightarrow> nat" where
  "VarintSize64 value = (let log2value = nat (Log2FloorNonZero64 (value OR 1)) in (log2value * 9 + 73) div 64)"

definition VarintSize32SignExtended :: "u32 \<Rightarrow> nat" where
  "VarintSize32SignExtended value = (if sint value < 0 then 10 else VarintSize32 value)"

definition LengthDelimitedSize :: "nat \<Rightarrow> nat" where
  "LengthDelimitedSize len = len + VarintSize32 (word_of_nat len)"

section \<open>Writing\<close>

lemma unat_shift7: "unat (drop_bit 7 (w :: 'a::len word)) = unat w div 128"
proof -
  have "unat (drop_bit 7 w) = drop_bit 7 (unat w)" by (simp only: unat_drop_bit_eq)
  then show ?thesis by (simp only: drop_bit_eq_div) simp
qed

text \<open>The do loop of UnsafeVarint; b is the byte before the pointer, still without its top bit.\<close>

function varint_do :: "byte \<Rightarrow> u64 \<Rightarrow> byte list" where
  "varint_do b value =
     (let value' = drop_bit 7 value in
      (b OR 0x80) # (if value' \<ge> 0x80 then varint_do (ucast value') value' else [ucast value']))"
  by pat_completeness auto
termination
proof (relation "measure (\<lambda>(b, v). unat v)", goal_cases)
  case (2 b v x)
  then have "128 \<le> unat v div 128" by (simp only: word_le_nat_alt unat_shift7) simp
  then show ?case using 2(1) by (simp add: unat_shift7)
qed simp

declare varint_do.simps [simp del]

definition UnsafeVarint :: "u64 \<Rightarrow> byte list" where
  "UnsafeVarint value =
     (if value < 0x80 then [ucast value]
      else
        let value' = drop_bit 7 value in
        if value' < 0x80 then [ucast value OR 0x80, ucast value']
        else (ucast value OR 0x80) # varint_do (ucast value') value')"

text \<open>The instance of UnsafeVarint for a uint32, and the sign extension of an enum's int.\<close>

definition WriteVarint32ToArray :: "u32 \<Rightarrow> byte list" where
  "WriteVarint32ToArray value = UnsafeVarint (ucast value)"

definition WriteVarint32SignExtendedToArray :: "u32 \<Rightarrow> byte list" where
  "WriteVarint32SignExtendedToArray value = UnsafeVarint (word_of_int (sint value))"

function UnsafeWriteSize :: "u32 \<Rightarrow> byte list" where
  "UnsafeWriteSize value =
     (if value \<ge> 0x80 then ucast (value OR 0x80) # UnsafeWriteSize (drop_bit 7 value) else [ucast value])"
  by pat_completeness auto
termination
proof (relation "measure unat", goal_cases)
  case (2 v)
  then have "128 \<le> unat v" by (simp add: word_le_nat_alt)
  then have "unat (drop_bit 7 v) < unat v" unfolding unat_shift7 by simp
  then show ?case by (simp only: in_measure)
qed simp

declare UnsafeWriteSize.simps [simp del]

definition MakeTag :: "u32 \<Rightarrow> u32 \<Rightarrow> u32" where
  "MakeTag field_number type = push_bit 3 field_number OR type"

definition WriteUInt64ToArray :: "u32 \<Rightarrow> u64 \<Rightarrow> byte list" where
  "WriteUInt64ToArray field_number value = WriteVarint32ToArray (MakeTag field_number 0) @ UnsafeVarint value"

definition WriteBoolToArray :: "u32 \<Rightarrow> bool \<Rightarrow> byte list" where
  "WriteBoolToArray field_number value =
     WriteVarint32ToArray (MakeTag field_number 0) @ WriteVarint32ToArray (if value then 1 else 0)"

definition WriteEnumToArray :: "u32 \<Rightarrow> u32 \<Rightarrow> byte list" where
  "WriteEnumToArray field_number value =
     WriteVarint32ToArray (MakeTag field_number 0) @ WriteVarint32SignExtendedToArray value"

definition WriteLengthDelim :: "u32 \<Rightarrow> u32 \<Rightarrow> byte list" where
  "WriteLengthDelim num len = WriteVarint32ToArray (push_bit 3 num OR 2) @ UnsafeWriteSize len"

section \<open>Strings and messages\<close>

text \<open>
  low_space is the comparison of a string's size with the room left in the output buffer,
  string_address where a parsed string is stored.
\<close>

record wire_env =
  low_space :: "u32 \<Rightarrow> byte list \<Rightarrow> bool"
  string_address :: "byte list \<Rightarrow> nat"

definition WriteStringOutline :: "u32 \<Rightarrow> byte list \<Rightarrow> byte list" where
  "WriteStringOutline num s = (let size = word_of_nat (length s) in WriteLengthDelim num size @ take (unat size) s)"

definition WriteStringMaybeAliased :: "wire_env \<Rightarrow> u32 \<Rightarrow> byte list \<Rightarrow> byte list" where
  "WriteStringMaybeAliased L num s =
     (if 128 \<le> length s \<or> low_space L num s then WriteStringOutline num s
      else WriteVarint32ToArray (push_bit 3 num OR 2) @ [word_of_nat (length s)] @ s)"

text \<open>The helper goes on after the first byte, which it completes, with the loop of UnsafeVarint.\<close>

definition WriteVarint32ToArrayOutOfLineHelper :: "byte \<Rightarrow> u32 \<Rightarrow> byte list" where
  "WriteVarint32ToArrayOutOfLineHelper target0 value =
     (let value' = drop_bit 7 value in
      if value' < 0x80 then [target0 OR 0x80, ucast value']
      else (target0 OR 0x80) # varint_do (ucast value') (ucast value'))"

definition WriteVarint32ToArrayOutOfLine :: "u32 \<Rightarrow> byte list" where
  "WriteVarint32ToArrayOutOfLine value =
     (if value < 0x80 then [ucast value] else WriteVarint32ToArrayOutOfLineHelper (ucast value) value)"

definition WriteTagToArray :: "u32 \<Rightarrow> u32 \<Rightarrow> byte list" where
  "WriteTagToArray field_number type = WriteVarint32ToArray (MakeTag field_number type)"

definition WriteFixed32ToArray :: "u32 \<Rightarrow> u32 \<Rightarrow> byte list" where
  "WriteFixed32ToArray field_number value = WriteTagToArray field_number 5 @ store_le 4 value"

definition WriteFixed64ToArray :: "u32 \<Rightarrow> u64 \<Rightarrow> byte list" where
  "WriteFixed64ToArray field_number value = WriteTagToArray field_number 1 @ store_le 8 value"

section \<open>Reading\<close>

text \<open>The loop of the slow readers over the byte indexes left, the same for both widths.\<close>

fun slow_loop :: "nat list \<Rightarrow> byte list \<Rightarrow> 'a::len word \<Rightarrow> ('a word \<times> nat) option" where
  "slow_loop [] p res = None"
| "slow_loop (i # is) p res =
     (if length p \<le> i then None
      else
        let byte = ucast (p ! i); res' = res + push_bit (7 * i) (byte - 1) in
        if unat (p ! i) < 128 then Some (res', i + 1) else slow_loop is p res')"

definition VarintParseSlow64 :: "byte list \<Rightarrow> u32 \<Rightarrow> (u64 \<times> nat) option" where
  "VarintParseSlow64 p res32 = slow_loop [2..<10] p (ucast res32)"

definition ReadTagFallback :: "byte list \<Rightarrow> u32 \<Rightarrow> (u32 \<times> nat) option" where
  "ReadTagFallback p res = slow_loop [2..<5] p res"

text \<open>The loop of ReadSizeFallback leaves with its sum after the last byte it has read.\<close>

fun size_loop :: "nat list \<Rightarrow> byte list \<Rightarrow> u32 \<Rightarrow> ((u32 \<times> nat) + u32) option" where
  "size_loop [] p res = Some (Inr res)"
| "size_loop (i # is) p res =
     (if length p \<le> i then None
      else
        let byte = ucast (p ! i); res' = res + push_bit (7 * i) (byte - 1) in
        if unat (p ! i) < 128 then Some (Inl (res', i + 1)) else size_loop is p res')"

definition ReadSizeFallback :: "byte list \<Rightarrow> u32 \<Rightarrow> (nat \<times> nat) option" where
  "ReadSizeFallback p res =
     (case size_loop [1..<4] p res of
        None \<Rightarrow> None
      | Some (Inl (res', k)) \<Rightarrow> Some (unat res', k)
      | Some (Inr res') \<Rightarrow>
          if length p \<le> 4 \<or> 8 \<le> unat (p ! 4) then None
          else
            let res'' = res' + push_bit 28 (ucast (p ! 4) - 1) in
            if 2 ^ 31 - 1 - 16 < unat res'' then None else Some (unat res'', 5))"

definition VarintParse :: "byte list \<Rightarrow> (u64 \<times> nat) option" where
  "VarintParse p =
     (case p of
        [] \<Rightarrow> None
      | b0 # p1 \<Rightarrow>
          (let res = ucast b0 :: u32 in
           if res AND 0x80 = 0 then Some (ucast res, 1)
           else (case p1 of
                   [] \<Rightarrow> None
                 | b1 # _ \<Rightarrow>
                     (let byte = ucast b1; res' = res + push_bit 7 (byte - 1) in
                      if byte AND 0x80 = 0 then Some (ucast res', 2) else VarintParseSlow64 p res'))))"

definition ReadTag :: "byte list \<Rightarrow> (u32 \<times> nat) option" where
  "ReadTag p =
     (case p of
        [] \<Rightarrow> None
      | b0 # p1 \<Rightarrow>
          (let res = ucast b0 :: u32 in
           if res < 128 then Some (res, 1)
           else (case p1 of
                   [] \<Rightarrow> None
                 | b1 # _ \<Rightarrow>
                     (let second = ucast b1; res' = res + push_bit 7 (second - 1) in
                      if second < 128 then Some (res', 2) else ReadTagFallback p res'))))"

definition ReadSize :: "byte list \<Rightarrow> (nat \<times> nat) option" where
  "ReadSize p =
     (case p of
        [] \<Rightarrow> None
      | b0 # _ \<Rightarrow>
          (let res = ucast b0 :: u32 in
           if res < 128 then Some (unat res, 1) else ReadSizeFallback p res))"

definition ReadString :: "byte list \<Rightarrow> nat \<Rightarrow> byte list option" where
  "ReadString p sz = (if length p < sz then None else Some (take sz p))"

definition InlineGreedyStringParser :: "byte list \<Rightarrow> (byte list \<times> nat) option" where
  "InlineGreedyStringParser p =
     (case ReadSize p of
        None \<Rightarrow> None
      | Some (sz, k) \<Rightarrow> map_option (\<lambda>s. (s, k + sz)) (ReadString (drop k p) sz))"

definition VerifyUTF8 :: "wire_env \<Rightarrow> byte list \<Rightarrow> bool" where
  "VerifyUTF8 L str = IsStructurallyValidUTF8 (string_address L str) str"

lemma slow_loop_pos: "slow_loop is p res = Some (v, k) \<Longrightarrow> 0 < k"
  by (induction "is" p res rule: slow_loop.induct) (auto simp: Let_def split: if_splits)

lemma ReadTag_pos: "ReadTag p = Some (tag, k) \<Longrightarrow> 0 < k"
  by (auto simp: ReadTag_def ReadTagFallback_def Let_def dest: slow_loop_pos split: list.splits if_splits)

text \<open>How a message parser ends: at its limit, or on a tag that ends a group (or 0).\<close>

datatype parse_end = At_limit | At_tag u32

text \<open>
  ReadSizeAndPushLimitAndDepth, the parser of the message up to the new limit, and PopLimit, which
  refuses an end on a tag. A size past the outer limit is found by its next Done.
\<close>

definition ParseMessage ::
    "nat \<Rightarrow> (nat \<Rightarrow> 'm \<Rightarrow> byte list \<Rightarrow> ('m \<times> parse_end) option) \<Rightarrow> 'm \<Rightarrow> byte list \<Rightarrow> ('m \<times> nat) option" where
  "ParseMessage depth InternalParse msg p =
     (case ReadSize p of
        None \<Rightarrow> None
      | Some (sz, k) \<Rightarrow>
          if depth = 0 \<or> length p < k + sz then None
          else (case InternalParse (depth - 1) msg (slice k sz p) of
                  Some (msg', At_limit) \<Rightarrow> Some (msg', k + sz)
                | _ \<Rightarrow> None))"

definition ExpectTag18 :: "byte list \<Rightarrow> bool" where
  "ExpectTag18 p = (p \<noteq> [] \<and> hd p = 18)"

section \<open>Unknown fields\<close>

text \<open>
  A field with its number. A message keeps those it does not know as a list, in the order they came;
  a metadata object without a set and one with an empty set are the same here.
\<close>

datatype UnknownField =
    VarintField u32 u64
  | Fixed32Field u32 u32
  | Fixed64Field u32 u64
  | LengthDelimitedField u32 "byte list"
  | GroupField u32 "UnknownField list"

type_synonym UnknownFieldSet = "UnknownField list"

definition UnknownFieldSet_MergeFrom :: "UnknownFieldSet \<Rightarrow> UnknownFieldSet \<Rightarrow> UnknownFieldSet" where
  "UnknownFieldSet_MergeFrom us other = us @ other"

fun InternalSerializeUnknownFieldsToArray :: "wire_env \<Rightarrow> UnknownFieldSet \<Rightarrow> byte list" where
  "InternalSerializeUnknownFieldsToArray L [] = []"
| "InternalSerializeUnknownFieldsToArray L (VarintField number v # fs) =
     WriteUInt64ToArray number v @ InternalSerializeUnknownFieldsToArray L fs"
| "InternalSerializeUnknownFieldsToArray L (Fixed32Field number v # fs) =
     WriteFixed32ToArray number v @ InternalSerializeUnknownFieldsToArray L fs"
| "InternalSerializeUnknownFieldsToArray L (Fixed64Field number v # fs) =
     WriteFixed64ToArray number v @ InternalSerializeUnknownFieldsToArray L fs"
| "InternalSerializeUnknownFieldsToArray L (LengthDelimitedField number s # fs) =
     WriteStringMaybeAliased L number s @ InternalSerializeUnknownFieldsToArray L fs"
| "InternalSerializeUnknownFieldsToArray L (GroupField number g # fs) =
     WriteTagToArray number 3 @ InternalSerializeUnknownFieldsToArray L g @ WriteTagToArray number 4
     @ InternalSerializeUnknownFieldsToArray L fs"

fun ComputeUnknownFieldsSize :: "UnknownFieldSet \<Rightarrow> nat" where
  "ComputeUnknownFieldsSize [] = 0"
| "ComputeUnknownFieldsSize (VarintField number v # fs) =
     VarintSize32 (MakeTag number 0) + VarintSize64 v + ComputeUnknownFieldsSize fs"
| "ComputeUnknownFieldsSize (Fixed32Field number v # fs) =
     VarintSize32 (MakeTag number 5) + 4 + ComputeUnknownFieldsSize fs"
| "ComputeUnknownFieldsSize (Fixed64Field number v # fs) =
     VarintSize32 (MakeTag number 1) + 8 + ComputeUnknownFieldsSize fs"
| "ComputeUnknownFieldsSize (LengthDelimitedField number s # fs) =
     VarintSize32 (MakeTag number 2) + VarintSize32 (word_of_nat (length s)) + length s
     + ComputeUnknownFieldsSize fs"
| "ComputeUnknownFieldsSize (GroupField number g # fs) =
     VarintSize32 (MakeTag number 3) + ComputeUnknownFieldsSize g + VarintSize32 (MakeTag number 4)
     + ComputeUnknownFieldsSize fs"

text \<open>
  FieldParser with UnknownFieldParserHelper, and WireFormatParser, which parses a group. The caller
  ends at a tag of type 4 (end of a group), so that the fatal branch for it is not reached.
\<close>

function FieldParser :: "nat \<Rightarrow> u32 \<Rightarrow> UnknownFieldSet \<Rightarrow> byte list \<Rightarrow> (UnknownFieldSet \<times> nat) option"
  and WireFormatParser ::
    "nat \<Rightarrow> UnknownFieldSet \<Rightarrow> byte list \<Rightarrow> (UnknownFieldSet \<times> nat \<times> parse_end) option" where
  "FieldParser depth tag unknown p =
     (let number = drop_bit 3 tag in
      if number = 0 then None
      else if tag AND 7 = 0 then
        map_option (\<lambda>(value, k). (unknown @ [VarintField number value], k)) (VarintParse p)
      else if tag AND 7 = 1 then
        (if length p < 8 then None else Some (unknown @ [Fixed64Field number (load_le (take 8 p))], 8))
      else if tag AND 7 = 2 then
        map_option (\<lambda>(s, k). (unknown @ [LengthDelimitedField number s], k)) (InlineGreedyStringParser p)
      else if tag AND 7 = 3 then
        (if depth = 0 then None
         else case WireFormatParser (depth - 1) [] p of
             Some (child, k, At_tag t) \<Rightarrow>
               if t - 1 = number * 8 + 3 then Some (unknown @ [GroupField number child], k) else None
           | _ \<Rightarrow> None)
      else if tag AND 7 = 5 then
        (if length p < 4 then None else Some (unknown @ [Fixed32Field number (load_le (take 4 p))], 4))
      else None)"
| "WireFormatParser depth unknown p =
     (if p = [] then Some (unknown, 0, At_limit)
      else case ReadTag p of
          None \<Rightarrow> None
        | Some (tag, k) \<Rightarrow>
            if length p < k then None
            else if tag = 0 \<or> tag AND 7 = 4 then Some (unknown, k, At_tag tag)
            else (case FieldParser depth tag unknown (drop k p) of
                    None \<Rightarrow> None
                  | Some (unknown', n) \<Rightarrow>
                      if length p < k + n then None
                      else map_option (\<lambda>(u, m, e). (u, k + n + m, e)) (WireFormatParser depth unknown' (drop (k + n) p))))"
  by pat_completeness auto
termination
proof (relation "measures [case_sum (\<lambda>(d, t, u, p). d) (\<lambda>(d, u, p). d),
    case_sum (\<lambda>(d, t, u, p). length p) (\<lambda>(d, u, p). length p)]", goal_cases)
  case (3 d u p x tag k)
  then have "0 < k" by (auto dest: ReadTag_pos)
  then show ?case using 3 by auto
next
  case (4 d u p x tag k y u' n)
  then have "0 < k" by (auto dest: ReadTag_pos)
  then show ?case using 4 by auto
qed simp_all

declare FieldParser.simps [simp del] WireFormatParser.simps [simp del]

definition UnknownFieldParse :: "nat \<Rightarrow> u32 \<Rightarrow> UnknownFieldSet \<Rightarrow> byte list \<Rightarrow> (UnknownFieldSet \<times> nat) option" where
  "UnknownFieldParse depth tag unknown p = FieldParser depth tag unknown p"

section \<open>The loop of a generated parser\<close>

text \<open>
  The loop all generated parsers share. The switch of a message gets the tag and the bytes after it:
  a field it knows, a failed check, or the jump to handle_unusual.
\<close>

datatype 'm field = Field 'm nat | Failure | Unusual

function parse_loop ::
    "nat \<Rightarrow> ('m \<Rightarrow> u32 \<Rightarrow> byte list \<Rightarrow> 'm field) \<Rightarrow> ('m \<Rightarrow> UnknownFieldSet) \<Rightarrow> (UnknownFieldSet \<Rightarrow> 'm \<Rightarrow> 'm) \<Rightarrow>
       'm \<Rightarrow> byte list \<Rightarrow> ('m \<times> parse_end) option" where
  "parse_loop depth switch unknown set_unknown m p =
     (if p = [] then Some (m, At_limit)
      else
        case ReadTag p of
          None \<Rightarrow> None
        | Some (tag, k) \<Rightarrow>
            if length p < k then None
            else
              let p1 = drop k p in
              case switch m tag p1 of
                Failure \<Rightarrow> None
              | Field m' n \<Rightarrow>
                  if length p1 < n then None else parse_loop depth switch unknown set_unknown m' (drop n p1)
              | Unusual \<Rightarrow>
                  if tag = 0 \<or> tag AND 7 = 4 then Some (m, At_tag tag)
                  else (case UnknownFieldParse depth tag (unknown m) p1 of
                          None \<Rightarrow> None
                        | Some (u, n) \<Rightarrow>
                            if length p1 < n then None
                            else parse_loop depth switch unknown set_unknown (set_unknown u m) (drop n p1)))"
  by pat_completeness auto
termination
proof (relation "measure (\<lambda>(d, sw, u, su, m, p). length p)", goal_cases)
  case (2 d sw un su m p x tag k p1 m' n)
  then have "0 < k" "k \<le> length p" by (auto dest: ReadTag_pos)
  then show ?case using 2 by auto
next
  case (3 d sw un su m p x tag k p1 y u n)
  then have "0 < k" "k \<le> length p" by (auto dest: ReadTag_pos)
  then show ?case using 3 by auto
qed simp

declare parse_loop.simps [simp del]

end
