(* ===== verification/Proto_Varint.thy ===== *)
theory Proto_Varint
  imports Proto_Wire
begin

text \<open>
  Varints: the bytes UnsafeVarint writes, their number as VarintSize32 and VarintSize64 compute it
  with a multiplication in place of a division, and the readers that take them back: on any bytes
  they compute the reference decoder vdec, cut off at their number of bytes and at their width.
\<close>

section \<open>The encoding\<close>

definition more_byte :: "nat \<Rightarrow> byte" where
  "more_byte n = word_of_nat (n mod 128 + 128)"

fun venc :: "nat \<Rightarrow> byte list" where
  "venc n = (if n < 128 then [word_of_nat n] else more_byte n # venc (n div 128))"

fun vdec :: "byte list \<Rightarrow> (nat \<times> nat) option" where
  "vdec [] = None"
| "vdec (b # bs) =
     (if unat b < 128 then Some (unat b, 1)
      else map_option (\<lambda>(n, k). (unat b - 128 + 128 * n, Suc k)) (vdec bs))"

declare venc.simps [simp del]

lemma venc_small: "n < 128 \<Longrightarrow> venc n = [word_of_nat n]"
  by (simp add: venc.simps)

lemma venc_step: "128 \<le> n \<Longrightarrow> venc n = more_byte n # venc (n div 128)"
  by (subst venc.simps) simp

lemma venc_nonempty [simp]: "venc n \<noteq> []"
  by (subst venc.simps) simp

lemma unat_more_byte [simp]: "unat (more_byte n) = n mod 128 + 128"
proof -
  have "n mod 128 < 128" by simp
  then have "n mod 128 + 128 < 256" by linarith
  then show ?thesis unfolding more_byte_def by (rule unat_of_byte)
qed

lemma vdec_venc: "vdec (venc n @ rest) = Some (n, length (venc n))"
proof (induction n rule: venc.induct)
  case (1 n)
  show ?case
  proof (cases "n < 128")
    case True
    then show ?thesis by (simp add: venc_small unat_of_byte)
  next
    case False
    then have "vdec (venc (n div 128) @ rest) = Some (n div 128, length (venc (n div 128)))" by (rule 1)
    then show ?thesis using False by (simp add: venc_step)
  qed
qed

section \<open>What is written\<close>

lemma bit_80: "bit (0x80 :: 'a::len word) n \<longleftrightarrow> n = 7 \<and> 7 < LENGTH('a)"
proof -
  have "(0x80 :: 'a word) = 2 ^ 7" by simp
  then have "bit (0x80 :: 'a word) n = bit (2 ^ 7 :: 'a word) n" by (rule arg_cong)
  then show ?thesis unfolding bit_exp_iff possible_bit_word by auto
qed

lemma or_80: "(b :: byte) OR 0x80 = more_byte (unat b)"
proof -
  have "b OR 0x80 = take_bit 7 b OR 0x80"
  proof (rule bit_word_eqI)
    fix n assume "n < LENGTH(8)"
    then have "n = 7 \<or> n < 7" by auto
    then show "bit (b OR 0x80) n \<longleftrightarrow> bit (take_bit 7 b OR 0x80) n"
      unfolding bit_or_iff bit_take_bit_iff bit_80 by auto
  qed
  also have "\<dots> = take_bit 7 b + 0x80"
    by (rule disjunctive_add [symmetric]) (unfold bit_80 bit_take_bit_iff, auto)
  also have "\<dots> = more_byte (unat b)"
  proof -
    have "unat (take_bit 7 b) = take_bit 7 (unat b)" by (simp only: unsigned_take_bit_eq)
    then have t: "unat (take_bit 7 b) = unat b mod 128" by (simp only: take_bit_eq_mod) simp
    have "take_bit 7 b = word_of_nat (unat (take_bit 7 b))" by simp
    then show ?thesis unfolding more_byte_def of_nat_add t by simp
  qed
  finally show ?thesis .
qed

lemma unat_ucast_byte: "unat (ucast (w :: 'a::len word) :: byte) = unat w mod 256"
  by (simp add: unsigned_ucast_eq take_bit_eq_mod)

lemma or_80_ucast: "(ucast (v :: 'a::len word) :: byte) OR 0x80 = more_byte (unat v)"
proof -
  have "unat v mod 256 mod 128 = unat v mod 128" by (simp add: mod_mod_cancel)
  then show ?thesis by (simp only: or_80 unat_ucast_byte more_byte_def)
qed

lemma small_ucast:
  assumes "unat (v :: 'a::len word) < 128"
  shows "(ucast v :: byte) = word_of_nat (unat v)"
proof -
  have "unat (ucast v :: byte) = unat v" unfolding unat_ucast_byte using assms by simp
  moreover have "unat (word_of_nat (unat v) :: byte) = unat v" by (rule unat_of_byte) (use assms in simp)
  ultimately show ?thesis by (simp only: word_unat_eq_iff)
qed

lemma le_80: "(0x80 :: u64) \<le> v \<longleftrightarrow> 128 \<le> unat v"
  by (simp add: word_le_nat_alt)

lemma varint_do_venc: "128 \<le> unat v \<Longrightarrow> varint_do (ucast v) v = venc (unat v)"
proof (induction "ucast v :: byte" v rule: varint_do.induct)
  case (1 v)
  let ?v = "drop_bit 7 v"
  have uv: "unat ?v = unat v div 128" by (rule unat_shift7)
  show ?case
  proof (cases "0x80 \<le> ?v")
    case True
    then have "128 \<le> unat ?v" by (simp only: le_80)
    then have "varint_do (ucast ?v) ?v = venc (unat v div 128)" using 1(1)[OF refl True] uv by simp
    then show ?thesis
      using True 1(2) by (subst varint_do.simps) (simp only: Let_def if_True or_80_ucast venc_step)
  next
    case False
    then have small: "unat v div 128 < 128" by (simp only: le_80 uv not_le)
    then have "(ucast ?v :: byte) = word_of_nat (unat v div 128)" using small_ucast[of ?v] uv by simp
    then show ?thesis
      using False 1(2) small
      by (subst varint_do.simps) (simp only: Let_def if_False or_80_ucast venc_step venc_small[OF small])
  qed
qed

lemma UnsafeVarint_venc: "UnsafeVarint v = venc (unat v)"
proof -
  let ?v = "drop_bit 7 v"
  have uv: "unat ?v = unat v div 128" by (rule unat_shift7)
  consider "unat v < 128" | "128 \<le> unat v" "unat v div 128 < 128" | "128 \<le> unat v" "128 \<le> unat ?v"
    using uv by linarith
  then show ?thesis
  proof cases
    case 1
    then have "v < 0x80" by (simp add: word_less_nat_alt)
    then show ?thesis using small_ucast[OF 1] by (simp add: UnsafeVarint_def venc_small[OF 1])
  next
    case 2
    then have "\<not> v < 0x80" "?v < 0x80" unfolding word_less_nat_alt uv by simp_all
    moreover have "(ucast ?v :: byte) = word_of_nat (unat v div 128)" using small_ucast[of ?v] uv 2 by simp
    ultimately show ?thesis
      unfolding UnsafeVarint_def Let_def using 2
      by (simp only: if_False if_True or_80_ucast venc_step venc_small[OF 2(2)])
  next
    case 3
    then have "\<not> v < 0x80" "\<not> ?v < 0x80" unfolding word_less_nat_alt by simp_all
    moreover have "varint_do (ucast ?v) ?v = venc (unat v div 128)" using varint_do_venc[OF 3(2)] uv by simp
    ultimately show ?thesis
      unfolding UnsafeVarint_def Let_def using 3(1) by (simp only: if_False or_80_ucast venc_step)
  qed
qed

lemma UnsafeWriteSize_venc: "UnsafeWriteSize v = venc (unat v)"
proof (induction v rule: UnsafeWriteSize.induct)
  case (1 v)
  show ?case
  proof (cases "0x80 \<le> v")
    case True
    then have "128 \<le> unat v" by (simp add: word_le_nat_alt)
    moreover have "(ucast (v OR 0x80) :: byte) = more_byte (unat v)"
    proof -
      have "(ucast (v OR 0x80) :: byte) = ucast v OR 0x80"
        by (rule bit_word_eqI) (unfold bit_or_iff bit_ucast_iff bit_80, auto)
      then show ?thesis by (simp only: or_80_ucast)
    qed
    ultimately show ?thesis
      using 1[OF True] True
      by (subst UnsafeWriteSize.simps) (simp only: if_True venc_step unat_shift7)
  next
    case False
    then have "unat v < 128" by (simp add: word_le_nat_alt)
    then show ?thesis using False small_ucast[of v] by (subst UnsafeWriteSize.simps) (simp add: venc_small)
  qed
qed

section \<open>How many bytes\<close>

lemma log2_loop_floor:
  assumes "unat v \<noteq> 0" and "unat v < 2 ^ (2 ^ k)"
  shows "\<exists>r. log2_loop (rev [0..<k]) v log = log + r \<and> 2 ^ r \<le> unat v \<and> unat v < 2 ^ Suc r"
  using assms
proof (induction k arbitrary: v log)
  case 0
  then have "unat v = 1" by simp
  then show ?case by simp
next
  case (Suc k)
  let ?x = "drop_bit (2 ^ k) v"
  have ux: "unat ?x = unat v div 2 ^ (2 ^ k)" by (simp only: unat_drop_bit_eq drop_bit_eq_div[where 'a = nat])
  show ?case
  proof (cases "?x = 0")
    case True
    then have "unat v div 2 ^ (2 ^ k) = 0" using ux by simp
    then have "unat v < 2 ^ (2 ^ k)" by (simp add: div_eq_0_iff)
    then show ?thesis using Suc.IH[OF Suc.prems(1), of log] True by simp
  next
    case False
    then have nz: "unat ?x \<noteq> 0" by (simp add: unat_eq_0)
    have "unat v < 2 ^ (2 ^ k) * 2 ^ (2 ^ k)" using Suc.prems(2) by (simp add: power_add [symmetric] mult_2)
    then have "unat ?x < 2 ^ (2 ^ k)" unfolding ux by (simp add: less_mult_imp_div_less)
    from Suc.IH[OF nz this, of "log + 2 ^ k"] obtain r
      where r: "log2_loop (rev [0..<k]) ?x (log + 2 ^ k) = log + 2 ^ k + r" "2 ^ r \<le> unat ?x" "unat ?x < 2 ^ Suc r"
      by blast
    have "2 ^ (2 ^ k) * 2 ^ r \<le> unat v"
    proof -
      have "2 ^ (2 ^ k) * 2 ^ r \<le> 2 ^ (2 ^ k) * (unat v div 2 ^ (2 ^ k))" using r(2) ux by simp
      also have "\<dots> \<le> unat v" by simp
      finally show ?thesis .
    qed
    moreover have "unat v < 2 ^ (2 ^ k) * 2 ^ Suc r"
      using r(3) unfolding ux by (metis div_less_iff_less_mult mult.commute zero_less_numeral zero_less_power)
    ultimately have "2 ^ (2 ^ k + r) \<le> unat v" "unat v < 2 ^ Suc (2 ^ k + r)" by (simp_all add: power_add)
    then show ?thesis using r(1) False by (intro exI[of _ "2 ^ k + r"]) (simp add: Let_def add.assoc)
  qed
qed

lemma Log2FloorNonZero_floor:
  assumes "unat v \<noteq> 0"
  shows "2 ^ nat (Log2FloorNonZero v) \<le> unat v \<and> unat v < 2 ^ Suc (nat (Log2FloorNonZero v)) \<and> 0 \<le> Log2FloorNonZero v"
proof -
  have l: "[4, 3, 2, 1, 0] = rev [0..<5 :: nat]" by (simp add: upt_rec)
  have "unat v < 2 ^ (2 ^ 5)" using unsigned_less[of v, where 'a = nat] by simp
  from log2_loop_floor[OF assms this, of 0] obtain r
    where "log2_loop [4, 3, 2, 1, 0] v 0 = r" "2 ^ r \<le> unat v" "unat v < 2 ^ Suc r" unfolding l by auto
  moreover have "v \<noteq> 0" using assms by auto
  ultimately show ?thesis by (simp add: Log2FloorNonZero_def)
qed

lemma Log2FloorNonZero64_floor:
  assumes "unat v \<noteq> 0"
  shows "2 ^ nat (Log2FloorNonZero64 v) \<le> unat v \<and> unat v < 2 ^ Suc (nat (Log2FloorNonZero64 v))"
proof -
  let ?top = "ucast (drop_bit 32 v) :: u32"
  have v: "unat v < 2 ^ 64" using unsigned_less[of v, where 'a = nat] by simp
  have "unat (drop_bit 32 v) = unat v div 2 ^ 32" by (simp only: unat_drop_bit_eq drop_bit_eq_div[where 'a = nat])
  moreover have "unat v div 2 ^ 32 < 2 ^ 32" using v by simp
  ultimately have top: "unat ?top = unat v div 2 ^ 32" by (simp add: unsigned_ucast_eq take_bit_nat_eq_self)
  show ?thesis
  proof (cases "?top = 0")
    case True
    then have "unat v < 2 ^ 32" using top by (simp add: div_eq_0_iff)
    then have low: "unat (ucast v :: u32) = unat v" by (simp add: unsigned_ucast_eq take_bit_nat_eq_self)
    then show ?thesis using Log2FloorNonZero_floor[of "ucast v"] True assms by (simp add: Log2FloorNonZero64_def)
  next
    case False
    then have "unat ?top \<noteq> 0" by (simp add: unat_eq_0)
    from Log2FloorNonZero_floor[OF this] obtain r where r: "Log2FloorNonZero ?top = int r"
      "2 ^ r \<le> unat ?top" "unat ?top < 2 ^ Suc r" by (metis nonneg_int_cases nat_int)
    have "2 ^ 32 * 2 ^ r \<le> unat v" using r(2) unfolding top by (simp add: less_eq_div_iff_mult_less_eq mult.commute)
    moreover have "unat v < 2 ^ 32 * 2 ^ Suc r"
      using r(3) unfolding top by (simp add: div_less_iff_less_mult mult.commute)
    ultimately have "2 ^ (32 + r) \<le> unat v" "unat v < 2 ^ Suc (32 + r)" by (simp_all add: power_add)
    moreover have "nat (Log2FloorNonZero64 v) = 32 + r" using False r(1) by (simp add: Log2FloorNonZero64_def nat_add_distrib)
    ultimately show ?thesis by simp
  qed
qed

lemma length_venc_log:
  assumes "2 ^ r \<le> n" and "n < 2 ^ Suc r"
  shows "length (venc n) = r div 7 + 1"
  using assms
proof (induction n arbitrary: r rule: venc.induct)
  case (1 n)
  show ?case
  proof (cases "n < 128")
    case True
    then have "(2 :: nat) ^ r < 2 ^ 7" using 1(2) by simp
    then have "r < 7" by (rule power_less_imp_less_exp[rotated]) simp
    then show ?thesis using True by (simp add: venc_small)
  next
    case False
    have "(2 :: nat) ^ 7 < 2 ^ Suc r" using False 1(3) by simp
    then have "7 \<le> r" by (metis less_Suc_eq_le one_less_numeral_iff power_less_imp_less_exp semiring_norm(76))
    then obtain q where q: "r = 7 + q" using le_Suc_ex by blast
    have "2 ^ q \<le> n div 128" "n div 128 < 2 ^ Suc q"
      using 1(2,3) by (simp_all add: q power_add less_eq_div_iff_mult_less_eq div_less_iff_less_mult mult.commute)
    from 1(1)[OF False this] show ?thesis using False q by (simp add: venc_step)
  qed
qed

lemma length_venc_even: "n div 2 = m div 2 \<Longrightarrow> length (venc n) = length (venc m)"
proof -
  assume h: "n div 2 = m div 2"
  have "n div 128 = n div 2 div 64" "m div 128 = m div 2 div 64" by (simp_all add: div_mult2_eq [symmetric])
  then have "n div 128 = m div 128" using h by simp
  moreover have "k < 128 \<longleftrightarrow> k div 2 < 64" for k :: nat by (simp add: div_less_iff_less_mult)
  then have "n < 128 \<longleftrightarrow> m < 128" using h by metis
  ultimately show ?thesis by (cases "n < 128") (simp_all add: venc_small venc_step)
qed

lemma or_1: "unat ((v :: 'a::len word) OR 1) div 2 = unat v div 2" and or_1_nonzero: "unat (v OR 1) \<noteq> 0"
proof -
  have "drop_bit 1 (v OR 1) = drop_bit 1 v" by (rule bit_word_eqI) (auto simp: bit_simps)
  then have "unat (drop_bit 1 (v OR 1)) = unat (drop_bit 1 v)" by simp
  then show "unat (v OR 1) div 2 = unat v div 2" unfolding unat_drop_bit_eq drop_bit_eq_div[where 'a = nat] by simp
  have "bit (v OR 1) 0" by (simp add: bit_simps)
  then have "v OR 1 \<noteq> 0" by (metis bit_0_eq bot_apply bot_bool_def)
  then show "unat (v OR 1) \<noteq> 0" by (simp add: unat_eq_0)
qed

lemma log_size:
  assumes "k < 64"
  shows "(k * 9 + 73) div 64 = k div 7 + (1 :: nat)"
proof -
  obtain q r where k: "k = 7 * q + r" "r < 7" by (metis mod_less_divisor mult_div_mod_eq zero_less_numeral)
  have "(k * 9 + 73) div 64 = q + 1"
  proof (rule div_nat_eqI)
    have "q \<le> 9" "r \<le> 6" using k assms by auto
    then show "64 * (q + 1) \<le> k * 9 + 73" "k * 9 + 73 < 64 * Suc (q + 1)" unfolding k(1) by simp_all
  qed
  moreover have "k div 7 = q" using k by simp
  ultimately show ?thesis by simp
qed

lemma VarintSize32_venc: "VarintSize32 v = length (venc (unat v))"
proof -
  let ?k = "nat (Log2FloorNonZero (v OR 1))"
  have b: "2 ^ ?k \<le> unat (v OR 1)" "unat (v OR 1) < 2 ^ Suc ?k"
    using Log2FloorNonZero_floor[OF or_1_nonzero, of v] by auto
  have "unat (v OR 1) < 2 ^ 32" using unsigned_less[of "v OR 1", where 'a = nat] by simp
  then have "(2 :: nat) ^ ?k < 2 ^ 32" using b(1) by linarith
  then have "?k < 64" using power_less_imp_less_exp[of "2 :: nat" ?k 32] by simp
  then show ?thesis
    using length_venc_log[OF b] length_venc_even[OF or_1, of v] by (simp add: VarintSize32_def Let_def log_size)
qed

lemma VarintSize64_venc: "VarintSize64 v = length (venc (unat v))"
proof -
  let ?k = "nat (Log2FloorNonZero64 (v OR 1))"
  have b: "2 ^ ?k \<le> unat (v OR 1)" "unat (v OR 1) < 2 ^ Suc ?k"
    using Log2FloorNonZero64_floor[OF or_1_nonzero, of v] by auto
  have "unat (v OR 1) < 2 ^ 64" using unsigned_less[of "v OR 1", where 'a = nat] by simp
  then have "(2 :: nat) ^ ?k < 2 ^ 64" using b(1) by linarith
  then have "?k < 64" using power_less_imp_less_exp[of "2 :: nat" ?k 64] by simp
  then show ?thesis
    using length_venc_log[OF b] length_venc_even[OF or_1, of v] by (simp add: VarintSize64_def Let_def log_size)
qed

section \<open>What the readers take back\<close>

section \<open>What is read\<close>

text \<open>The largest size ReadSize accepts: INT_MAX less kSlopBytes.\<close>

definition max_size :: nat where
  "max_size = 2 ^ 31 - 17"

lemma ucast_byte: "(ucast (b :: byte) :: 'a::len word) = word_of_nat (unat b)"
  by simp

lemma ucast_of_nat:
  assumes "unat (word_of_nat n :: 'a::len word) = n"
  shows "(ucast (word_of_nat n :: 'a word) :: 'b::len word) = word_of_nat n"
  using assms by (metis of_nat_unat)

lemma and_80: "(ucast (b :: byte) :: u32) AND 0x80 = 0 \<longleftrightarrow> unat b < 128"
proof -
  have "(ucast b :: u32) AND 0x80 = 0 \<longleftrightarrow> \<not> bit b 7"
  proof -
    have "(0x80 :: u32) = 2 ^ 7" by simp
    then have "(ucast b :: u32) AND 0x80 = 0 \<longleftrightarrow> \<not> bit (ucast b :: u32) 7"
      by (simp only: and_exp_eq_0_iff_not_bit)
    then show ?thesis by (simp add: bit_ucast_iff)
  qed
  also have "\<dots> \<longleftrightarrow> even (unat b div 2 ^ 7)"     using bit_unsigned_iff[of b 7, where 'a = nat] bit_iff_odd[of "unat b" 7] bit_imp_le_length[of b 7] by auto
  also have "\<dots> \<longleftrightarrow> unat b < 128"
  proof -
    have "unat b < 256" using unsigned_less[of b, where 'a = nat] by simp
    then have "unat b div 128 < 2" by (simp add: div_less_iff_less_mult)
    then have "unat b div 128 = 0 \<or> unat b div 128 = 1" by linarith
    then show ?thesis by (auto simp: div_eq_0_iff)
  qed
  finally show ?thesis .
qed

definition vdec_within :: "nat \<Rightarrow> byte list \<Rightarrow> (nat \<times> nat) option" where
  "vdec_within k p = (case vdec p of None \<Rightarrow> None | Some (n, l) \<Rightarrow> if l \<le> k then Some (n, l) else None)"

lemma vdec_pos: "vdec p = Some (n, l) \<Longrightarrow> 0 < l"
  by (cases p) (auto split: if_splits)

lemma vdec_within_venc: "length (venc n) \<le> k \<Longrightarrow> vdec_within k (venc n @ rest) = Some (n, length (venc n))"
  by (simp add: vdec_within_def vdec_venc)

lemma slow_step:
  assumes "128 \<le> unat b"
  shows "word_of_nat (lo + 2 ^ (7 * i)) + push_bit (7 * i) (ucast b - 1 :: 'a::len word)
    = word_of_nat ((lo + 2 ^ (7 * i) * (unat b - 128)) + 2 ^ (7 * Suc i))"
proof -
  have "lo + 2 ^ (7 * i) * (unat b - 128) + 2 ^ (7 * Suc i) = lo + 2 ^ (7 * i) * unat b"
  proof -
    have "unat b = unat b - 128 + 128" using assms by simp
    then have "2 ^ (7 * i) * unat b = 2 ^ (7 * i) * (unat b - 128) + 2 ^ (7 * i) * 128" by (metis distrib_left)
    then show ?thesis by (simp add: power_add)
  qed
  then have "word_of_nat ((lo + 2 ^ (7 * i) * (unat b - 128)) + 2 ^ (7 * Suc i))
      = (word_of_nat lo + 2 ^ (7 * i) * word_of_nat (unat b) :: 'a word)"
    by (simp only: of_nat_add of_nat_mult of_nat_power of_nat_numeral)
  then show ?thesis by (simp add: push_bit_eq_mult algebra_simps)
qed

lemma slow_last:
  "word_of_nat (lo + 2 ^ (7 * i)) + push_bit (7 * i) (ucast b - 1 :: 'a::len word)
    = word_of_nat (lo + 2 ^ (7 * i) * unat (b :: byte))"
  by (simp add: push_bit_eq_mult algebra_simps)

lemma slow_loop_vdec:
  assumes "i \<le> k"
  shows "slow_loop [i..<k] p (word_of_nat (lo + 2 ^ (7 * i)) :: 'a::len word)
    = (case vdec (drop i p) of None \<Rightarrow> None
       | Some (n, l) \<Rightarrow> if i + l \<le> k then Some (word_of_nat (lo + 2 ^ (7 * i) * n), i + l) else None)"
  using assms
proof (induction "k - i" arbitrary: i lo)
  case 0
  then show ?case by (auto split: option.split dest: vdec_pos)
next
  case (Suc d)
  have u: "[i..<k] = i # [Suc i..<k]" using Suc(2) by (simp add: upt_conv_Cons)
  show ?case
  proof (cases "length p \<le> i")
    case True
    then show ?thesis by (simp add: u)
  next
    case False
    then have d: "drop i p = p ! i # drop (Suc i) p" by (simp add: Cons_nth_drop_Suc)
    show ?thesis
    proof (cases "unat (p ! i) < 128")
      case True
      then show ?thesis
        using False Suc(2) slow_last[of lo i "p ! i", where 'a = 'a]
        by (simp only: u slow_loop.simps d vdec.simps Let_def) simp
    next
      case ge: False
      define lo' where "lo' = lo + 2 ^ (7 * i) * (unat (p ! i) - 128)"
      have "d = k - Suc i" "Suc i \<le> k" using Suc(2) by auto
      note IH = Suc(1)[OF this, of lo']
      have "slow_loop [i..<k] p (word_of_nat (lo + 2 ^ (7 * i)) :: 'a word)
          = slow_loop [Suc i..<k] p (word_of_nat (lo' + 2 ^ (7 * Suc i)))"
        unfolding u slow_loop.simps Let_def lo'_def using False ge slow_step[of "p ! i" lo i, where 'a = 'a]
        by (simp only: if_False not_less) simp
      also have "\<dots> = (case vdec (drop (Suc i) p) of None \<Rightarrow> None
          | Some (n, l) \<Rightarrow> if Suc i + l \<le> k then Some (word_of_nat (lo' + 2 ^ (7 * Suc i) * n), Suc i + l) else None)"
        by (rule IH)
      also have "\<dots> = (case vdec (drop i p) of None \<Rightarrow> None
          | Some (n, l) \<Rightarrow> if i + l \<le> k then Some (word_of_nat (lo + 2 ^ (7 * i) * n), i + l) else None)"
      proof -
        have "lo' + 2 ^ (7 * Suc i) * n = lo + 2 ^ (7 * i) * (unat (p ! i) - 128 + 128 * n)" for n
          by (simp add: lo'_def power_add distrib_left)
        then show ?thesis unfolding d using ge by (simp only: vdec.simps) (simp split: option.split)
      qed
      finally show ?thesis .
    qed
  qed
qed

lemma small_u32: "n < 2 ^ 32 \<Longrightarrow> unat (word_of_nat n :: u32) = n"
  by (simp add: unsigned_of_nat take_bit_nat_eq_self)

text \<open>The readers look at the first two bytes themselves.\<close>

lemma two_bytes_u32:
  assumes "128 \<le> unat (b0 :: byte)"
  shows "(ucast b0 :: u32) + push_bit 7 (ucast b1 - 1) = word_of_nat (unat b0 - 128 + 128 * unat (b1 :: byte))"
  using slow_last[of "unat b0 - 128" 1 b1, where 'a = 32] assms by simp

lemma two_bytes_more:
  assumes "128 \<le> unat b1"
  shows "a + 128 * unat b1 = (a + 128 * (unat b1 - 128)) + 2 ^ (7 * 2)"
  using assms by simp

lemma drop_two: "drop 2 (x # y # zs) = zs"
  by simp

lemma vdec_two:
  assumes "128 \<le> unat b0"
  shows "vdec (b0 # b1 # p2) = (if unat b1 < 128 then Some (unat b0 - 128 + 128 * unat b1, 2)
    else map_option (\<lambda>(n, l). (unat b0 - 128 + 128 * (unat b1 - 128) + 2 ^ (7 * 2) * n, 2 + l)) (vdec p2))"
  using assms by (auto simp: map_option_case algebra_simps split: option.split)

lemma VarintParse_vdec: "VarintParse p = map_option (apfst word_of_nat) (vdec_within 10 p)"
proof (cases p)
  case Nil
  then show ?thesis by (simp add: VarintParse_def vdec_within_def)
next
  case p: (Cons b0 p1)
  show ?thesis
  proof (cases "unat b0 < 128")
    case True
    have "unat b0 < 2 ^ 32" using True by simp
    then have "(ucast (ucast b0 :: u32) :: u64) = word_of_nat (unat b0)"
      by (simp only: ucast_byte[of b0] ucast_of_nat[OF small_u32])
    then show ?thesis
      unfolding VarintParse_def p Let_def using True by (simp add: and_80 vdec_within_def del: of_nat_unat)
  next
    case False
    then have ge: "128 \<le> unat b0" by simp
    show ?thesis
    proof (cases p1)
      case Nil
      then show ?thesis unfolding VarintParse_def p Let_def using ge by (simp add: and_80 vdec_within_def)
    next
      case p1: (Cons b1 p2)
      let ?n = "unat b0 - 128 + 128 * unat b1"
      note r = two_bytes_u32[OF ge, of b1]
      have lt: "?n < 2 ^ 32" using byte_less[of b0] byte_less[of b1] by simp
      note uc = ucast_of_nat[OF small_u32[OF lt], where 'b = 64]
      show ?thesis
      proof (cases "unat b1 < 128")
        case True
        then show ?thesis
          unfolding VarintParse_def p p1 Let_def vdec_within_def vdec_two[OF ge] list.case and_80 r uc
          using ge by simp
      next
        case False
        then have m: "?n = (unat b0 - 128 + 128 * (unat b1 - 128)) + 2 ^ (7 * 2)" by (intro two_bytes_more) simp
        have le: "2 \<le> (10 :: nat)" by simp
        have "VarintParse p = slow_loop [2..<10] p (word_of_nat ?n)"
          unfolding VarintParse_def p p1 Let_def list.case and_80 r VarintParseSlow64_def uc
          using ge False by simp
        also have "\<dots> = map_option (apfst word_of_nat) (vdec_within 10 p)"
          unfolding m slow_loop_vdec[OF le, where 'a = 64] using False
          unfolding vdec_within_def p p1 vdec_two[OF ge]
          by (simp only: drop_two if_False) (auto split: option.split)
        finally show ?thesis .
      qed
    qed
  qed
qed

lemma ReadTag_vdec: "ReadTag p = map_option (apfst word_of_nat) (vdec_within 5 p)"
proof (cases p)
  case Nil
  then show ?thesis by (simp add: ReadTag_def vdec_within_def)
next
  case p: (Cons b0 p1)
  have u: "unat (ucast b :: u32) = unat b" for b :: byte
    by (simp add: unsigned_ucast_eq take_bit_nat_eq_self order_less_trans[OF byte_less])
  then have lt: "(ucast b :: u32) < 128 \<longleftrightarrow> unat b < 128" for b :: byte
    unfolding word_less_nat_alt by simp
  show ?thesis
  proof (cases "unat b0 < 128")
    case True
    then show ?thesis
      unfolding ReadTag_def p Let_def by (simp add: lt vdec_within_def)
  next
    case False
    then have ge: "128 \<le> unat b0" by simp
    show ?thesis
    proof (cases p1)
      case Nil
      then show ?thesis unfolding ReadTag_def p Let_def using ge by (simp add: lt vdec_within_def)
    next
      case p1: (Cons b1 p2)
      let ?n = "unat b0 - 128 + 128 * unat b1"
      note r = two_bytes_u32[OF ge, of b1]
      show ?thesis
      proof (cases "unat b1 < 128")
        case True
        then show ?thesis
          unfolding ReadTag_def p p1 Let_def vdec_within_def vdec_two[OF ge] list.case lt r
          using ge by simp
      next
        case False
        then have m: "?n = (unat b0 - 128 + 128 * (unat b1 - 128)) + 2 ^ (7 * 2)" by (intro two_bytes_more) simp
        have le: "2 \<le> (5 :: nat)" by simp
        have "ReadTag p = slow_loop [2..<5] p (word_of_nat ?n)"
          unfolding ReadTag_def p p1 Let_def list.case lt r ReadTagFallback_def
          using ge False by simp
        also have "\<dots> = map_option (apfst word_of_nat) (vdec_within 5 p)"
          unfolding m slow_loop_vdec[OF le, where 'a = 32] using False
          unfolding vdec_within_def p p1 vdec_two[OF ge]
          by (simp only: drop_two if_False) (auto split: option.split)
        finally show ?thesis .
      qed
    qed
  qed
qed

text \<open>The first j bytes of an encoding that goes on after them.\<close>

fun digits :: "nat \<Rightarrow> byte list \<Rightarrow> nat" where
  "digits 0 p = 0"
| "digits (Suc j) p = unat (hd p) - 128 + 128 * digits j (tl p)"

fun goes_on :: "nat \<Rightarrow> byte list \<Rightarrow> bool" where
  "goes_on 0 p \<longleftrightarrow> True"
| "goes_on (Suc j) p \<longleftrightarrow> p \<noteq> [] \<and> 128 \<le> unat (hd p) \<and> goes_on j (tl p)"

lemma vdec_goes_on:
  "goes_on j p \<Longrightarrow> vdec p = map_option (\<lambda>(n, l). (digits j p + 128 ^ j * n, j + l)) (vdec (drop j p))"
proof (induction j arbitrary: p)
  case 0
  then show ?case by (cases "vdec p") auto
next
  case (Suc j)
  then obtain b q where p: "p = b # q" "128 \<le> unat b" "goes_on j q" by (cases p) auto
  then show ?case using Suc(1)[OF p(3)] by (cases "vdec (drop j q)") (auto simp: algebra_simps)
qed

lemma digits_less: "digits j p < 128 ^ j"
proof (induction j arbitrary: p)
  case (Suc j)
  have "unat (hd p) - 128 < 128" using byte_less[of "hd p"] by simp
  moreover have "128 * digits j (tl p) + 128 \<le> 128 * 128 ^ j" using Suc[of "tl p"] by simp
  ultimately show ?case by simp
qed simp

lemma size_loop_vdec:
  assumes "i \<le> k"
  shows "size_loop [i..<k] p (word_of_nat (lo + 2 ^ (7 * i)))
    = (if goes_on (k - i) (drop i p)
       then Some (Inr (word_of_nat (lo + 2 ^ (7 * i) * digits (k - i) (drop i p) + 2 ^ (7 * k))))
       else case vdec (drop i p) of None \<Rightarrow> None
       | Some (n, l) \<Rightarrow> Some (Inl (word_of_nat (lo + 2 ^ (7 * i) * n), i + l)))"
  using assms
proof (induction "k - i" arbitrary: i lo)
  case 0
  then show ?case by simp
next
  case (Suc d)
  have u: "[i..<k] = i # [Suc i..<k]" using Suc(2) by (simp add: upt_conv_Cons)
  have ki: "k - i = Suc (k - Suc i)" using Suc(2) by simp
  show ?case
  proof (cases "length p \<le> i")
    case True
    then show ?thesis by (simp add: u ki)
  next
    case False
    then have d: "drop i p = p ! i # drop (Suc i) p" by (simp add: Cons_nth_drop_Suc)
    show ?thesis
    proof (cases "unat (p ! i) < 128")
      case True
      then show ?thesis
        using False slow_last[of lo i "p ! i", where 'a = 32]
        by (simp only: u size_loop.simps d vdec.simps Let_def ki goes_on.simps list.sel) simp
    next
      case ge: False
      define lo' where "lo' = lo + 2 ^ (7 * i) * (unat (p ! i) - 128)"
      have "d = k - Suc i" "Suc i \<le> k" using Suc(2) by auto
      note IH = Suc(1)[OF this, of lo']
      have "size_loop [i..<k] p (word_of_nat (lo + 2 ^ (7 * i)))
          = size_loop [Suc i..<k] p (word_of_nat (lo' + 2 ^ (7 * Suc i)))"
        unfolding u size_loop.simps Let_def lo'_def using False ge slow_step[of "p ! i" lo i, where 'a = 32]
        by (simp only: if_False not_less) simp
      moreover have "lo' + 2 ^ (7 * Suc i) * n = lo + 2 ^ (7 * i) * (unat (p ! i) - 128 + 128 * n)" for n
        by (simp add: lo'_def power_add distrib_left)
      ultimately show ?thesis
        using ge unfolding IH d ki
        by (simp only: vdec.simps goes_on.simps digits.simps list.sel) (auto split: option.split)
    qed
  qed
qed

lemma stops_within:
  "\<not> goes_on j p \<Longrightarrow> vdec p = Some (n, l) \<Longrightarrow> l \<le> j \<and> n < 128 ^ j"
proof (induction j arbitrary: p n l)
  case (Suc j)
  then obtain b q where p: "p = b # q" by (cases p) auto
  show ?case
  proof (cases "unat b < 128")
    case True
    have "(128 :: nat) \<le> 128 ^ Suc j" by simp
    moreover have "n = unat b" "l = 1" using True Suc p by auto
    ultimately show ?thesis using True by linarith
  next
    case False
    then obtain n' l' where v: "vdec q = Some (n', l')" "n = unat b - 128 + 128 * n'" "l = Suc l'"
      using Suc(3) p by auto
    have "l' \<le> j" "n' < 128 ^ j" using Suc(1)[OF _ v(1)] Suc(2) p False by auto
    moreover have "unat b - 128 < 128" using byte_less[of b] by simp
    moreover have "128 * n' + 128 \<le> 128 * 128 ^ j" using \<open>n' < 128 ^ j\<close> by simp
    ultimately show ?thesis using v by simp
  qed
qed simp

lemma ReadSize_vdec:
  "ReadSize p = (case vdec_within 5 p of None \<Rightarrow> None
     | Some (n, l) \<Rightarrow> if n \<le> max_size then Some (n, l) else None)"
proof (cases "p = [] \<or> unat (p ! 0) < 128")
  case True
  have "unat (ucast b :: u32) = unat b" for b :: byte
    by (simp add: unsigned_ucast_eq take_bit_nat_eq_self order_less_trans[OF byte_less])
  then show ?thesis using True
    by (cases p) (auto simp: ReadSize_def vdec_within_def word_less_nat_alt max_size_def)
next
  case False
  then obtain b0 q where p: "p = b0 # q" and ge: "128 \<le> unat b0" by (cases p) auto
  have "unat (ucast b0 :: u32) = unat b0"
    by (simp add: unsigned_ucast_eq take_bit_nat_eq_self order_less_trans[OF byte_less])
  then have "\<not> (ucast b0 :: u32) < 128" using ge by (simp add: word_less_nat_alt)
  then have rs: "ReadSize p = ReadSizeFallback p (ucast b0)" by (simp add: ReadSize_def p)
  define lo where "lo = unat b0 - 128"
  have lo: "lo < 128" using byte_less[of b0] by (simp add: lo_def)
  have "unat b0 = lo + 2 ^ (7 * 1)" using ge by (simp add: lo_def)
  then have b0: "(ucast b0 :: u32) = word_of_nat (lo + 2 ^ (7 * 1))" by (simp only: ucast_byte)
  have le: "1 \<le> (4 :: nat)" by simp
  have d: "drop 1 p = q" "4 - 1 = (3 :: nat)" using p by simp_all
  note sl = size_loop_vdec[OF le, of p lo, unfolded d, folded b0]
  show ?thesis
  proof (cases "goes_on 3 q")
    case False
    have v: "vdec p = map_option (\<lambda>(n, l). (lo + 128 * n, Suc l)) (vdec q)" using ge by (simp add: p lo_def)
    have "ReadSizeFallback p (ucast b0) = (case vdec q of None \<Rightarrow> None
        | Some (n, l) \<Rightarrow> Some (unat (word_of_nat (lo + 2 ^ (7 * 1) * n) :: u32), 1 + l))"
      unfolding ReadSizeFallback_def sl if_not_P[OF False] by (auto split: option.split)
    moreover have "l \<le> 3 \<and> n < 128 ^ 3" if "vdec q = Some (n, l)" for n l
      by (rule stops_within[OF False that])
    moreover have "unat (word_of_nat (lo + 2 ^ (7 * 1) * n) :: u32) = lo + 128 * n \<and> lo + 128 * n \<le> max_size"
      if "n < 128 ^ 3" for n
      using lo that small_u32[of "lo + 2 ^ (7 * 1) * n"] by (simp add: max_size_def)
    ultimately show ?thesis unfolding rs vdec_within_def v by (auto split: option.split)
  next
    case True
    define hi where "hi = lo + 128 * digits 3 q"
    have hi: "hi < 2 ^ 28" using lo digits_less[of 3 q] by (simp add: hi_def)
    have v: "vdec p = map_option (\<lambda>(n, l). (hi + 2 ^ 28 * n, 4 + l)) (vdec (drop 3 q))"
      using ge by (simp add: p lo_def hi_def vdec_goes_on[OF True]) (cases "vdec (drop 3 q)"; auto simp: algebra_simps)
    have fb: "ReadSizeFallback p (ucast b0) = (if length p \<le> 4 \<or> 8 \<le> unat (p ! 4) then None
        else let res'' = word_of_nat (hi + 2 ^ 28) + push_bit 28 (ucast (p ! 4) - 1) :: u32 in
          if 2 ^ 31 - 1 - 16 < unat res'' then None else Some (unat res'', 5))"
      unfolding ReadSizeFallback_def sl if_P[OF True] hi_def by simp
    show ?thesis
    proof (cases "length p \<le> 4")
      case True
      then have "drop 3 q = []" using p by simp
      then show ?thesis unfolding rs fb using True v by (simp add: vdec_within_def)
    next
      case len: False
      then have d3: "drop 3 q = p ! 4 # drop 4 q" using p by (simp add: Cons_nth_drop_Suc numeral_eq_Suc)
      show ?thesis
      proof (cases "unat (p ! 4) < 8")
        case True
        have n: "vdec p = Some (hi + 2 ^ 28 * unat (p ! 4), 5)" using True by (simp add: v d3)
        define w where "w = word_of_nat (hi + 2 ^ 28) + (push_bit 28 (ucast (p ! 4) - 1) :: u32)"
        have "w = word_of_nat (hi + 2 ^ (7 * 4)) + push_bit (7 * 4) (ucast (p ! 4) - 1)" by (simp add: w_def)
        also have "\<dots> = word_of_nat (hi + 2 ^ 28 * unat (p ! 4))" by (subst slow_last) simp
        finally have "unat w = hi + 2 ^ 28 * unat (p ! 4)"
        proof -
          assume "w = word_of_nat (hi + 2 ^ 28 * unat (p ! 4))"
          then show ?thesis using small_u32[of "hi + 2 ^ 28 * unat (p ! 4)"] hi True by simp
        qed
        then show ?thesis
          unfolding rs fb vdec_within_def n Let_def w_def[symmetric] using len True by (simp add: max_size_def)
      next
        case False
        then have "ReadSize p = None" unfolding rs fb by simp
        moreover have "vdec_within 5 p = None \<or> (\<exists>n. vdec_within 5 p = Some (n, 5) \<and> max_size < n)"
        proof (cases "unat (p ! 4) < 128")
          case True
          have "vdec p = Some (hi + 2 ^ 28 * unat (p ! 4), 5)" using True by (simp add: v d3)
          then show ?thesis using False by (simp add: vdec_within_def max_size_def)
        next
          case False
          then have "5 < l" if "vdec p = Some (n, l)" for n l
            using that unfolding v d3 by (auto dest: vdec_pos)
          then show ?thesis by (auto simp: vdec_within_def split: option.split)
        qed
        ultimately show ?thesis by auto
      qed
    qed
  qed
qed

section \<open>Reading what was written\<close>

lemma length_venc_le: "n < 128 ^ k \<Longrightarrow> 0 < k \<Longrightarrow> length (venc n) \<le> k"
proof (induction k arbitrary: n)
  case (Suc k)
  show ?case
  proof (cases "n < 128")
    case True
    then show ?thesis by (simp add: venc_small)
  next
    case False
    then have "k \<noteq> 0" using Suc(2) by (cases k) auto
    moreover have "n div 128 < 128 ^ k" using Suc(2) by (simp add: div_less_iff_less_mult mult.commute)
    ultimately show ?thesis using Suc(1)[of "n div 128"] False by (simp add: venc_step)
  qed
qed simp

lemma length_venc_pos [simp]: "0 < length (venc n)"
  by simp

lemma VarintParse_venc:
  assumes "n < 2 ^ 64"
  shows "VarintParse (venc n @ rest) = Some (word_of_nat n, length (venc n))"
proof -
  have "n < 128 ^ 10" using assms by simp
  then have "length (venc n) \<le> 10" by (rule length_venc_le) simp
  then show ?thesis by (simp add: VarintParse_vdec vdec_within_venc)
qed

lemma ReadTag_venc: "ReadTag (venc (unat t) @ rest) = Some (t, length (venc (unat t)))"
proof -
  have "unat t < 128 ^ 5" using unsigned_less[of t, where 'a = nat] by simp
  then have "length (venc (unat t)) \<le> 5" by (rule length_venc_le) simp
  then show ?thesis by (simp add: ReadTag_vdec vdec_within_venc)
qed

lemma ReadTag_small: "unat b < 128 \<Longrightarrow> ReadTag (b # rest) = Some (ucast b, 1)"
  by (simp add: ReadTag_vdec vdec_within_def)

lemma ReadSize_venc:
  assumes "n \<le> max_size"
  shows "ReadSize (venc n @ rest) = Some (n, length (venc n))"
proof -
  have "n < 128 ^ 5" using assms by (simp add: max_size_def)
  then have "length (venc n) \<le> 5" by (rule length_venc_le) simp
  then show ?thesis using assms by (simp add: ReadSize_vdec vdec_within_venc)
qed

lemma InlineGreedyStringParser_venc:
  "length s \<le> max_size \<Longrightarrow>
     InlineGreedyStringParser (venc (length s) @ s @ rest) = Some (s, length (venc (length s)) + length s)"
  by (simp add: InlineGreedyStringParser_def ReadSize_venc ReadString_def)

lemma max_size_u32: "n \<le> max_size \<Longrightarrow> unat (word_of_nat n :: u32) = n"
  by (rule small_u32) (simp add: max_size_def)

lemma WriteVarint32ToArray_venc: "WriteVarint32ToArray v = venc (unat v)"
  by (simp add: WriteVarint32ToArray_def UnsafeVarint_venc unsigned_ucast_eq take_bit_nat_eq_self
      order_less_trans[OF unsigned_less[where 'a = nat]])

lemma ucast_u64: "unat (ucast (v :: u32) :: u64) = unat v"
  by (simp add: unsigned_ucast_eq take_bit_nat_eq_self order_less_trans[OF unsigned_less[where 'a = nat]])

lemma WriteVarint32ToArrayOutOfLine_venc: "WriteVarint32ToArrayOutOfLine v = venc (unat v)"
proof (cases "v < 0x80")
  case True
  then have "unat v < 128" by (simp add: word_less_nat_alt)
  then show ?thesis using True small_ucast[of v] by (simp add: WriteVarint32ToArrayOutOfLine_def venc_small)
next
  case False
  then have v: "128 \<le> unat v" by (simp add: word_less_nat_alt)
  let ?v = "drop_bit 7 v"
  have uv: "unat ?v = unat v div 128" by (rule unat_shift7)
  show ?thesis
  proof (cases "?v < 0x80")
    case True
    then have s: "unat v div 128 < 128" unfolding word_less_nat_alt uv by simp
    then have "(ucast ?v :: byte) = word_of_nat (unat v div 128)" using small_ucast[of ?v] uv by simp
    then show ?thesis
      unfolding WriteVarint32ToArrayOutOfLine_def WriteVarint32ToArrayOutOfLineHelper_def Let_def
      using False True v by (simp only: if_False if_True or_80_ucast venc_step venc_small[OF s])
  next
    case ge: False
    then have "128 \<le> unat (ucast ?v :: u64)" unfolding ucast_u64 word_less_nat_alt by simp
    note d = varint_do_venc[OF this]
    have "(ucast (ucast ?v :: u64) :: byte) = ucast ?v"
      by (simp only: word_unat_eq_iff unat_ucast_byte ucast_u64)
    then have "varint_do (ucast ?v) (ucast ?v) = venc (unat v div 128)" using d unfolding ucast_u64 uv by simp
    then show ?thesis
      unfolding WriteVarint32ToArrayOutOfLine_def WriteVarint32ToArrayOutOfLineHelper_def Let_def
      using False ge v by (simp only: if_False or_80_ucast venc_step)
  qed
qed

lemma WriteStringMaybeAliased_venc:
  assumes "length s \<le> max_size"
  shows "WriteStringMaybeAliased L num s = venc (unat (push_bit 3 num OR 2)) @ venc (length s) @ s"
proof (cases "128 \<le> length s \<or> low_space L num s")
  case True
  then show ?thesis
    using max_size_u32[OF assms]
    by (simp add: WriteStringMaybeAliased_def WriteStringOutline_def WriteLengthDelim_def
        WriteVarint32ToArray_venc UnsafeWriteSize_venc)
next
  case False
  then show ?thesis by (simp add: WriteStringMaybeAliased_def WriteVarint32ToArray_venc venc_small)
qed

lemma LengthDelimitedSize_venc: "n \<le> max_size \<Longrightarrow> LengthDelimitedSize n = length (venc n) + n"
  by (simp add: LengthDelimitedSize_def VarintSize32_venc max_size_u32)

end
