(* ===== verification/Proto_Unknown.thy ===== *)
theory Proto_Unknown
  imports Proto_Varint
begin

text \<open>
  Unknown fields survive: what the serializer writes for a set of them, the parser of groups and the
  loop of a generated parser read back, and ComputeUnknownFieldsSize counts its bytes.
\<close>

section \<open>Tags\<close>

definition number_ok :: "u32 \<Rightarrow> bool" where
  "number_ok n \<longleftrightarrow> n \<noteq> 0 \<and> unat n < 2 ^ 29"

lemma bits_small: "unat (w :: u32) < 2 ^ k \<Longrightarrow> k \<le> i \<Longrightarrow> \<not> bit w i"
proof
  assume lt: "unat w < 2 ^ k" and k: "k \<le> i" and b: "bit w i"
  have "take_bit k w = w"
  proof -
    have "unat (take_bit k w) = unat w" using lt by (simp add: unsigned_take_bit_eq take_bit_nat_eq_self)
    then show ?thesis by (simp only: word_unat_eq_iff)
  qed
  then have "bit (take_bit k w) i" using b by simp
  then show False using k by (simp add: bit_take_bit_iff)
qed

lemma tag_number:
  assumes "unat n < 2 ^ 29" and "unat t < 8"
  shows "drop_bit 3 (MakeTag n t) = n"
proof (rule bit_word_eqI)
  fix i
  have "\<not> bit t (i + 3)" using bits_small[of t 3] assms(2) by simp
  moreover have "i < 29" if "bit n i" using bits_small[OF assms(1), of i] that by (meson not_less)
  ultimately show "bit (drop_bit 3 (MakeTag n t)) i \<longleftrightarrow> bit n i"
    by (auto simp: MakeTag_def bit_drop_bit_eq bit_or_iff bit_push_bit_iff add.commute)
qed

lemma tag_type:
  assumes "unat t < 8"
  shows "MakeTag n t AND 7 = t"
proof (rule bit_word_eqI)
  fix i
  have m: "(7 :: u32) = mask 3" by (simp add: mask_eq_exp_minus_1)
  have "i < 3" if "bit t i" using bits_small[of t 3 i] assms that by (cases "3 \<le> i") simp_all
  then show "bit (MakeTag n t AND 7) i \<longleftrightarrow> bit t i"
    unfolding m by (auto simp: MakeTag_def bit_and_iff bit_or_iff bit_push_bit_iff bit_mask_iff)
qed

lemma MakeTag_sum:
  assumes "unat t < 8"
  shows "MakeTag n t = n * 8 + t"
proof -
  have "\<not> bit (push_bit 3 n) i \<or> \<not> bit t i" for i
    using bits_small[of t 3 i] assms by (auto simp: bit_push_bit_iff)
  then have "push_bit 3 n OR t = push_bit 3 n + t" by (intro disjunctive_add [symmetric]) blast
  then show ?thesis by (simp add: MakeTag_def push_bit_eq_mult mult.commute)
qed

section \<open>Well formed sets\<close>

text \<open>Field numbers in range, strings of a size ReadSize accepts, groups within the depth left.\<close>

fun fields_ok :: "nat \<Rightarrow> UnknownFieldSet \<Rightarrow> bool" where
  "fields_ok d [] \<longleftrightarrow> True"
| "fields_ok d (VarintField n v # fs) \<longleftrightarrow> number_ok n \<and> fields_ok d fs"
| "fields_ok d (Fixed32Field n v # fs) \<longleftrightarrow> number_ok n \<and> fields_ok d fs"
| "fields_ok d (Fixed64Field n w # fs) \<longleftrightarrow> number_ok n \<and> fields_ok d fs"
| "fields_ok d (LengthDelimitedField n s # fs) \<longleftrightarrow> number_ok n \<and> length s \<le> max_size \<and> fields_ok d fs"
| "fields_ok d (GroupField n g # fs) \<longleftrightarrow> number_ok n \<and> 0 < d \<and> fields_ok (d - 1) g \<and> fields_ok d fs"

text \<open>A field on the wire: its tag and the bytes after it.\<close>

fun unknown_number :: "UnknownField \<Rightarrow> u32" where
  "unknown_number (VarintField n v) = n"
| "unknown_number (Fixed32Field n w) = n"
| "unknown_number (Fixed64Field n x) = n"
| "unknown_number (LengthDelimitedField n s) = n"
| "unknown_number (GroupField n g) = n"

fun field_type :: "UnknownField \<Rightarrow> u32" where
  "field_type (VarintField n v) = 0"
| "field_type (Fixed32Field n w) = 5"
| "field_type (Fixed64Field n x) = 1"
| "field_type (LengthDelimitedField n s) = 2"
| "field_type (GroupField n g) = 3"

definition field_tag :: "UnknownField \<Rightarrow> u32" where
  "field_tag f = MakeTag (unknown_number f) (field_type f)"

fun field_body :: "wire_env \<Rightarrow> UnknownField \<Rightarrow> byte list" where
  "field_body L (VarintField n v) = venc (unat v)"
| "field_body L (Fixed32Field n w) = store_le 4 w"
| "field_body L (Fixed64Field n x) = store_le 8 x"
| "field_body L (LengthDelimitedField n s) = venc (length s) @ s"
| "field_body L (GroupField n g) = InternalSerializeUnknownFieldsToArray L g @ venc (unat (MakeTag n 4))"

lemma serialize_field:
  assumes "fields_ok d (f # fs)"
  shows "InternalSerializeUnknownFieldsToArray L (f # fs)
    = venc (unat (field_tag f)) @ field_body L f @ InternalSerializeUnknownFieldsToArray L fs"
  using assms
  by (cases f)
    (simp_all add: field_tag_def WriteUInt64ToArray_def WriteFixed32ToArray_def WriteFixed64ToArray_def
      WriteTagToArray_def WriteVarint32ToArray_venc UnsafeVarint_venc WriteStringMaybeAliased_venc MakeTag_def)

lemma fields_ok_Cons:
  assumes "fields_ok d (f # fs)"
  shows "number_ok (unknown_number f)" and "fields_ok d fs"
  using assms by (cases f; simp)+

lemma type_small: "unat (field_type f) < 8"
  by (cases f) simp_all

lemma field_tag_parts:
  assumes "number_ok (unknown_number f)"
  shows "drop_bit 3 (field_tag f) = unknown_number f" and "field_tag f AND 7 = field_type f"
    and "field_tag f \<noteq> 0" and "field_tag f AND 7 \<noteq> 4"
proof -
  show d: "drop_bit 3 (field_tag f) = unknown_number f"
    using assms type_small by (simp add: field_tag_def number_ok_def tag_number)
  show t: "field_tag f AND 7 = field_type f" by (simp add: field_tag_def tag_type type_small)
  show "field_tag f \<noteq> 0"
  proof
    assume "field_tag f = 0"
    then show False using d assms by (simp add: number_ok_def)
  qed
  show "field_tag f AND 7 \<noteq> 4" unfolding t by (cases f) simp_all
qed

section \<open>Reading them back\<close>

lemma end_tag:
  assumes "number_ok n"
  shows "MakeTag n 4 AND 7 = 4" and "MakeTag n 4 - 1 = n * 8 + 3"
proof -
  have "unat (4 :: u32) < 8" by simp
  from tag_type[OF this] MakeTag_sum[OF this]
  show "MakeTag n 4 AND 7 = 4" "MakeTag n 4 - 1 = n * 8 + 3" by simp_all
qed

lemma WireFormatParser_end:
  assumes "number_ok n"
  shows "WireFormatParser d u (venc (unat (MakeTag n 4)) @ rest)
    = Some (u, length (venc (unat (MakeTag n 4))), At_tag (MakeTag n 4))"
  using ReadTag_venc[of "MakeTag n 4" rest] end_tag(1)[OF assms] by (subst WireFormatParser.simps) simp

lemma unat_u64: "unat (v :: u64) < 2 ^ 64"
  using unsigned_less[of v, where 'a = nat] by simp

lemma parse_group:
  assumes n: "number_ok n" and d: "0 < d"
    and g: "\<And>u rest. WireFormatParser (d - 1) u (InternalSerializeUnknownFieldsToArray L g @ rest)
      = map_option (\<lambda>(u', m, e). (u', length (InternalSerializeUnknownFieldsToArray L g) + m, e))
          (WireFormatParser (d - 1) (u @ g) rest)"
  shows "FieldParser d (field_tag (GroupField n g)) u (field_body L (GroupField n g) @ rest)
    = Some (u @ [GroupField n g], length (field_body L (GroupField n g)))"
proof -
  let ?f = "GroupField n g"
  have "number_ok (unknown_number ?f)" using n by simp
  note t = field_tag_parts[OF this]
  have e: "MakeTag n 4 = 4 + n * 8" by (subst MakeTag_sum) simp_all
  have w: "WireFormatParser (d - 1) [] (InternalSerializeUnknownFieldsToArray L g @ venc (unat (MakeTag n 4)) @ rest)
      = Some (g, length (field_body L ?f), At_tag (MakeTag n 4))"
    unfolding g by (simp add: WireFormatParser_end[OF n])
  show ?thesis
    using d n by (subst FieldParser.simps)
      (simp add: Let_def t(1,2) number_ok_def w[unfolded One_nat_def, simplified] e[THEN eqTrueI])
qed

lemma parse_plain:
  assumes "fields_ok d [f]" and "\<And>n g. f \<noteq> GroupField n g"
  shows "FieldParser d (field_tag f) u (field_body L f @ rest) = Some (u @ [f], length (field_body L f))"
proof -
  have n: "number_ok (unknown_number f)" using fields_ok_Cons[OF assms(1)] by blast
  note t = field_tag_parts[OF n]
  have "FieldParser d (field_tag f) u p = (if field_type f = 0 then
        map_option (\<lambda>(value, k). (u @ [VarintField (unknown_number f) value], k)) (VarintParse p)
      else if field_type f = 1 then
        (if length p < 8 then None else Some (u @ [Fixed64Field (unknown_number f) (load_le (take 8 p))], 8))
      else if field_type f = 2 then
        map_option (\<lambda>(s, k). (u @ [LengthDelimitedField (unknown_number f) s], k)) (InlineGreedyStringParser p)
      else if length p < 4 then None else Some (u @ [Fixed32Field (unknown_number f) (load_le (take 4 p))], 4))" for p
    using assms(2) n unfolding FieldParser.simps[of d "field_tag f"] Let_def t(1,2) number_ok_def
    by (cases f) (simp_all, blast)
  then show ?thesis
    using assms
    by (cases f) (simp_all add: VarintParse_venc[OF unat_u64] load_store_le InlineGreedyStringParser_venc, blast)
qed

lemma parse_fields_step:
  assumes ok: "fields_ok d (f # fs)"
    and f: "\<And>u rest. FieldParser d (field_tag f) u (field_body L f @ rest) = Some (u @ [f], length (field_body L f))"
  shows "WireFormatParser d u (InternalSerializeUnknownFieldsToArray L (f # fs) @ rest)
    = map_option (\<lambda>(u', m, e). (u', length (venc (unat (field_tag f)) @ field_body L f) + m, e))
        (WireFormatParser d (u @ [f]) (InternalSerializeUnknownFieldsToArray L fs @ rest))"
proof -
  note t = field_tag_parts[OF fields_ok_Cons(1)[OF ok]]
  let ?p = "field_body L f @ InternalSerializeUnknownFieldsToArray L fs @ rest"
  show ?thesis
    unfolding serialize_field[OF ok]
    using ReadTag_venc[of "field_tag f" ?p] t(3,4) f
    by (subst WireFormatParser.simps) (simp add: add.assoc)
qed

lemma parse_fields_Cons:
  assumes ok: "fields_ok d (f # fs)"
    and f: "\<And>u rest. FieldParser d (field_tag f) u (field_body L f @ rest) = Some (u @ [f], length (field_body L f))"
    and fs: "\<And>u. WireFormatParser d u (InternalSerializeUnknownFieldsToArray L fs @ rest)
      = map_option (\<lambda>(u', m, e). (u', length (InternalSerializeUnknownFieldsToArray L fs) + m, e))
          (WireFormatParser d (u @ fs) rest)"
  shows "WireFormatParser d u (InternalSerializeUnknownFieldsToArray L (f # fs) @ rest)
    = map_option (\<lambda>(u', m, e). (u', length (InternalSerializeUnknownFieldsToArray L (f # fs)) + m, e))
        (WireFormatParser d (u @ f # fs) rest)"
  unfolding parse_fields_step[OF ok f] unfolding fs unfolding serialize_field[OF ok]
  by (cases "WireFormatParser d (u @ f # fs) rest") auto

lemma WireFormatParser_fields:
  "fields_ok d fs \<Longrightarrow> WireFormatParser d u (InternalSerializeUnknownFieldsToArray L fs @ rest)
    = map_option (\<lambda>(u', m, e). (u', length (InternalSerializeUnknownFieldsToArray L fs) + m, e))
        (WireFormatParser d (u @ fs) rest)"
proof (induction d fs arbitrary: u rest rule: fields_ok.induct)
  case (1 d)
  then show ?case by (cases "WireFormatParser d u rest") auto
next
  case (2 d n v fs)
  show ?case by (rule parse_fields_Cons[OF 2(2) parse_plain 2(1)]) (use 2(2) in simp_all)
next
  case (3 d n v fs)
  show ?case by (rule parse_fields_Cons[OF 3(2) parse_plain 3(1)]) (use 3(2) in simp_all)
next
  case (4 d n v fs)
  show ?case by (rule parse_fields_Cons[OF 4(2) parse_plain 4(1)]) (use 4(2) in simp_all)
next
  case (5 d n s fs)
  show ?case by (rule parse_fields_Cons[OF 5(2) parse_plain 5(1)]) (use 5(2) in simp_all)
next
  case (6 d n g fs)
  then have n: "number_ok n" "0 < d" "fields_ok (d - 1) g" "fields_ok d fs" by simp_all
  show ?case by (rule parse_fields_Cons[OF 6(3) parse_group[OF n(1,2) 6(1)[OF n(3)]] 6(2)[OF n(4)]])
qed

text \<open>The set alone: parsed as a group's content up to its limit, and counted.\<close>

lemma FieldParser_field:
  assumes "fields_ok d [f]"
  shows "FieldParser d (field_tag f) u (field_body L f @ rest) = Some (u @ [f], length (field_body L f))"
proof (cases "\<exists>n g. f = GroupField n g")
  case True
  then show ?thesis using parse_group[OF _ _ WireFormatParser_fields] assms by auto
next
  case False
  then show ?thesis using parse_plain[OF assms] by blast
qed

lemma fields_ok_one: "fields_ok d (f # fs) \<Longrightarrow> fields_ok d [f]"
  by (cases f) simp_all

lemma unknown_fields_size:
  "fields_ok d fs \<Longrightarrow> ComputeUnknownFieldsSize fs = length (InternalSerializeUnknownFieldsToArray L fs)"
proof (induction d fs rule: fields_ok.induct)
qed (simp_all add: VarintSize32_venc VarintSize64_venc WriteUInt64ToArray_def WriteFixed32ToArray_def
    WriteFixed64ToArray_def WriteTagToArray_def WriteVarint32ToArray_venc UnsafeVarint_venc
    WriteStringMaybeAliased_venc max_size_u32 MakeTag_def)

section \<open>In the loop of a generated parser\<close>

text \<open>A message has the set as one of its components; a set of fields its switch does not know.\<close>

definition foreign :: "u32 set \<Rightarrow> UnknownFieldSet \<Rightarrow> bool" where
  "foreign known fs \<longleftrightarrow> (\<forall>f\<in>set fs. unknown_number f \<notin> known)"

lemma parse_loop_unknown:
  assumes "fields_ok d fs" and "foreign known fs"
    and un: "\<And>u m. un (su u m) = u" and su: "\<And>u v m. su u (su v m) = su u m" and id: "\<And>m. su (un m) m = m"
    and sw: "\<And>m tag p. drop_bit 3 tag \<notin> known \<Longrightarrow> sw m tag p = Unusual"
  shows "parse_loop d sw un su m (InternalSerializeUnknownFieldsToArray L fs @ rest)
    = parse_loop d sw un su (su (un m @ fs) m) rest"
  using assms(1,2)
proof (induction fs arbitrary: m)
  case Nil
  then show ?case by (simp add: id)
next
  case (Cons f fs)
  have n: "number_ok (unknown_number f)" "fields_ok d fs" using fields_ok_Cons[OF Cons(2)] by blast+
  note t = field_tag_parts[OF n(1)]
  have "sw m (field_tag f) p = Unusual" for p
    using Cons(3) t(1) by (intro sw) (simp add: foreign_def)
  moreover have "UnknownFieldParse d (field_tag f) (un m) (field_body L f @ rest)
      = Some (un m @ [f], length (field_body L f))" for rest
    unfolding UnknownFieldParse_def by (rule FieldParser_field[OF fields_ok_one[OF Cons(2)]])
  ultimately have "parse_loop d sw un su m (InternalSerializeUnknownFieldsToArray L (f # fs) @ rest)
      = parse_loop d sw un su (su (un m @ [f]) m) (InternalSerializeUnknownFieldsToArray L fs @ rest)"
    unfolding serialize_field[OF Cons(2)]
    using ReadTag_venc[of "field_tag f" "field_body L f @ InternalSerializeUnknownFieldsToArray L fs @ rest"] t(3,4)
    by (subst parse_loop.simps) (simp add: Let_def)
  also have "\<dots> = parse_loop d sw un su (su (un m @ f # fs) m) rest"
    using Cons(1)[OF n(2), of "su (un m @ [f]) m"] Cons(3) by (simp add: foreign_def un su)
  finally show ?case .
qed

end
