(* ===== verification/Proto_Messages.thy ===== *)
theory Proto_Messages
  imports Proto_Unknown
begin

text \<open>
  The messages protoc generated for the server and the client (Struct.pb.cc, Protocol.pb.cc): the
  fields of every message and its Clear, MergeFrom, CopyFrom, _InternalParse, _InternalSerialize and
  ByteSizeLong. A string is its bytes; an enum field keeps any int32 as proto3 does; ByteSizeLong
  stores the size it computed in the message, where InternalWriteMessage of a field reads it. The
  checks of a string while it is written only log, so they are left out; CopyFrom is between two
  objects. Of the arenas and of the reflection of the generated code nothing is modelled.
\<close>

section \<open>Enum.proto\<close>

definition PLAYER_TYPE_NONE :: u32 where "PLAYER_TYPE_NONE = 0"
definition PLAYER_TYPE_KNIGHT :: u32 where "PLAYER_TYPE_KNIGHT = 1"
definition PLAYER_TYPE_MAGE :: u32 where "PLAYER_TYPE_MAGE = 2"
definition PLAYER_TYPE_ARCHER :: u32 where "PLAYER_TYPE_ARCHER = 3"

section \<open>Fields shared by the messages\<close>

text \<open>The cases of the switches: a varint into a field, a checked string into a field.\<close>

definition varint_field :: "byte \<Rightarrow> u32 \<Rightarrow> (u64 \<Rightarrow> 'm) \<Rightarrow> byte list \<Rightarrow> 'm field" where
  "varint_field expected tag upd p =
     (if (ucast tag :: byte) = expected then
        (case VarintParse p of None \<Rightarrow> Failure | Some (val, k) \<Rightarrow> Field (upd val) k)
      else Unusual)"

definition string_field :: "wire_env \<Rightarrow> byte \<Rightarrow> u32 \<Rightarrow> (byte list \<Rightarrow> 'm) \<Rightarrow> byte list \<Rightarrow> 'm field" where
  "string_field L expected tag upd p =
     (if (ucast tag :: byte) = expected then
        (case InlineGreedyStringParser p of
           None \<Rightarrow> Failure
         | Some (str, k) \<Rightarrow> if \<not> VerifyUTF8 L str then Failure else Field (upd str) k)
      else Unusual)"

text \<open>The end of every serializer, and of every ByteSizeLong: ToCachedSize and SetCachedSize.\<close>

definition unknown_tail :: "wire_env \<Rightarrow> UnknownFieldSet \<Rightarrow> byte list" where
  "unknown_tail L u = (if u \<noteq> [] then InternalSerializeUnknownFieldsToArray L u else [])"

definition final_size :: "UnknownFieldSet \<Rightarrow> nat \<Rightarrow> nat" where
  "final_size u total_size = (if u \<noteq> [] then total_size + ComputeUnknownFieldsSize u else total_size)"

definition InternalWriteMessage :: "u32 \<Rightarrow> u32 \<Rightarrow> byte list \<Rightarrow> byte list" where
  "InternalWriteMessage field_number cached_size body =
     WriteVarint32ToArray (MakeTag field_number 2) @ WriteVarint32ToArrayOutOfLine cached_size @ body"

section \<open>Struct.proto: Player\<close>

record Player =
  pl_id :: u64
  pl_name :: "byte list"
  pl_playertype :: u32
  pl_unknown :: UnknownFieldSet
  pl_cached_size :: u32

definition Player_new :: "Player" where
  "Player_new = \<lparr>pl_id = 0, pl_name = [], pl_playertype = 0, pl_unknown = [], pl_cached_size = 0\<rparr>"

definition Player_Clear :: "Player \<Rightarrow> Player" where
  "Player_Clear m = m\<lparr>pl_name := [], pl_id := 0, pl_playertype := 0, pl_unknown := []\<rparr>"

definition Player_MergeFrom :: "Player \<Rightarrow> Player \<Rightarrow> Player" where
  "Player_MergeFrom m from =
     (let m0 = m\<lparr>pl_unknown := UnknownFieldSet_MergeFrom (pl_unknown m) (pl_unknown from)\<rparr>;
          m1 = (if pl_name from \<noteq> [] then m0\<lparr>pl_name := pl_name from\<rparr> else m0);
          m2 = (if pl_id from \<noteq> 0 then m1\<lparr>pl_id := pl_id from\<rparr> else m1);
          m3 = (if pl_playertype from \<noteq> 0 then m2\<lparr>pl_playertype := pl_playertype from\<rparr> else m2)
      in m3)"

definition Player_CopyFrom :: "Player \<Rightarrow> Player \<Rightarrow> Player" where
  "Player_CopyFrom m from = Player_MergeFrom (Player_Clear m) from"

definition Player_switch :: "wire_env \<Rightarrow> Player \<Rightarrow> u32 \<Rightarrow> byte list \<Rightarrow> Player field" where
  "Player_switch L m tag p =
     (if drop_bit 3 tag = 1 then varint_field 8 tag (\<lambda>val. m\<lparr>pl_id := val\<rparr>) p
      else if drop_bit 3 tag = 2 then string_field L 18 tag (\<lambda>str. m\<lparr>pl_name := str\<rparr>) p
      else if drop_bit 3 tag = 3 then varint_field 24 tag (\<lambda>val. m\<lparr>pl_playertype := ucast val\<rparr>) p
      else Unusual)"

definition Player_InternalParse :: "wire_env \<Rightarrow> nat \<Rightarrow> Player \<Rightarrow> byte list \<Rightarrow> (Player \<times> parse_end) option" where
  "Player_InternalParse L depth = parse_loop depth (Player_switch L) pl_unknown (\<lambda>u. pl_unknown_update (\<lambda>_. u))"

definition Player_InternalSerialize :: "wire_env \<Rightarrow> Player \<Rightarrow> byte list" where
  "Player_InternalSerialize L m =
     (if pl_id m \<noteq> 0 then WriteUInt64ToArray 1 (pl_id m) else [])
     @ (if pl_name m \<noteq> [] then WriteStringMaybeAliased L 2 (pl_name m) else [])
     @ (if pl_playertype m \<noteq> 0 then WriteEnumToArray 3 (pl_playertype m) else [])
     @ unknown_tail L (pl_unknown m)"

definition Player_ByteSizeLong :: "Player \<Rightarrow> nat \<times> Player" where
  "Player_ByteSizeLong m =
     (let total_size = (if pl_name m \<noteq> [] then 1 + LengthDelimitedSize (length (pl_name m)) else 0)
            + (if pl_id m \<noteq> 0 then 1 + VarintSize64 (pl_id m) else 0)
            + (if pl_playertype m \<noteq> 0 then 1 + VarintSize32SignExtended (pl_playertype m) else 0);
          total_size = final_size (pl_unknown m) total_size
      in (total_size, m\<lparr>pl_cached_size := word_of_nat total_size\<rparr>))"

section \<open>C_LOGIN\<close>

record C_LOGIN =
  cl_unknown :: UnknownFieldSet
  cl_cached_size :: u32

definition C_LOGIN_new :: "C_LOGIN" where
  "C_LOGIN_new = \<lparr>cl_unknown = [], cl_cached_size = 0\<rparr>"

definition C_LOGIN_Clear :: "C_LOGIN \<Rightarrow> C_LOGIN" where
  "C_LOGIN_Clear m = m\<lparr>cl_unknown := []\<rparr>"

definition C_LOGIN_MergeFrom :: "C_LOGIN \<Rightarrow> C_LOGIN \<Rightarrow> C_LOGIN" where
  "C_LOGIN_MergeFrom m from =
     (let m0 = m\<lparr>cl_unknown := UnknownFieldSet_MergeFrom (cl_unknown m) (cl_unknown from)\<rparr>
      in m0)"

definition C_LOGIN_CopyFrom :: "C_LOGIN \<Rightarrow> C_LOGIN \<Rightarrow> C_LOGIN" where
  "C_LOGIN_CopyFrom m from = C_LOGIN_MergeFrom (C_LOGIN_Clear m) from"

definition C_LOGIN_switch :: "wire_env \<Rightarrow> C_LOGIN \<Rightarrow> u32 \<Rightarrow> byte list \<Rightarrow> C_LOGIN field" where
  "C_LOGIN_switch L m tag p =
     Unusual"

definition C_LOGIN_InternalParse :: "wire_env \<Rightarrow> nat \<Rightarrow> C_LOGIN \<Rightarrow> byte list \<Rightarrow> (C_LOGIN \<times> parse_end) option" where
  "C_LOGIN_InternalParse L depth = parse_loop depth (C_LOGIN_switch L) cl_unknown (\<lambda>u. cl_unknown_update (\<lambda>_. u))"

definition C_LOGIN_InternalSerialize :: "wire_env \<Rightarrow> C_LOGIN \<Rightarrow> byte list" where
  "C_LOGIN_InternalSerialize L m =
     unknown_tail L (cl_unknown m)"

definition C_LOGIN_ByteSizeLong :: "C_LOGIN \<Rightarrow> nat \<times> C_LOGIN" where
  "C_LOGIN_ByteSizeLong m =
     (let total_size = 0;
          total_size = final_size (cl_unknown m) total_size
      in (total_size, m\<lparr>cl_cached_size := word_of_nat total_size\<rparr>))"

section \<open>S_LOGIN\<close>

record S_LOGIN =
  sl_success :: bool
  sl_players :: "Player list"
  sl_unknown :: UnknownFieldSet
  sl_cached_size :: u32

definition S_LOGIN_new :: "S_LOGIN" where
  "S_LOGIN_new = \<lparr>sl_success = False, sl_players = [], sl_unknown = [], sl_cached_size = 0\<rparr>"

definition S_LOGIN_Clear :: "S_LOGIN \<Rightarrow> S_LOGIN" where
  "S_LOGIN_Clear m = m\<lparr>sl_players := [], sl_success := False, sl_unknown := []\<rparr>"

definition S_LOGIN_MergeFrom :: "S_LOGIN \<Rightarrow> S_LOGIN \<Rightarrow> S_LOGIN" where
  "S_LOGIN_MergeFrom m from =
     (let m0 = m\<lparr>sl_unknown := UnknownFieldSet_MergeFrom (sl_unknown m) (sl_unknown from)\<rparr>;
          m1 = m0\<lparr>sl_players := sl_players m0 @ map (Player_MergeFrom (Player_new)) (sl_players from)\<rparr>;
          m2 = (if sl_success from then m1\<lparr>sl_success := sl_success from\<rparr> else m1)
      in m2)"

definition S_LOGIN_CopyFrom :: "S_LOGIN \<Rightarrow> S_LOGIN \<Rightarrow> S_LOGIN" where
  "S_LOGIN_CopyFrom m from = S_LOGIN_MergeFrom (S_LOGIN_Clear m) from"

text \<open>The do loop over consecutive players: DataAvailable and the next tag decide.\<close>

function S_LOGIN_players :: "wire_env \<Rightarrow> nat \<Rightarrow> S_LOGIN \<Rightarrow> byte list \<Rightarrow> (S_LOGIN \<times> nat) option" where
  "S_LOGIN_players L depth m p =
     (case ParseMessage depth (Player_InternalParse L) (Player_new) p of
        None \<Rightarrow> None
      | Some (player, k) \<Rightarrow>
          let m' = m\<lparr>sl_players := sl_players m @ [player]\<rparr>; rest = drop k p in
          if rest = [] then Some (m', k)
          else if ExpectTag18 rest then map_option (apsnd ((+) (k + 1))) (S_LOGIN_players L depth m' (tl rest))
          else Some (m', k))"
  by pat_completeness auto
termination
  by (relation "measure (\<lambda>(L, d, m, p). length p)") auto

declare S_LOGIN_players.simps [simp del]

definition S_LOGIN_switch :: "wire_env \<Rightarrow> nat \<Rightarrow> S_LOGIN \<Rightarrow> u32 \<Rightarrow> byte list \<Rightarrow> S_LOGIN field" where
  "S_LOGIN_switch L depth m tag p =
     (if drop_bit 3 tag = 1 then varint_field 8 tag (\<lambda>val. m\<lparr>sl_success := val \<noteq> 0\<rparr>) p
      else if drop_bit 3 tag = 2 then (if (ucast tag :: byte) = 18 then
             (case S_LOGIN_players L depth m p of None \<Rightarrow> Failure | Some (m', k) \<Rightarrow> Field m' k)
           else Unusual)
      else Unusual)"

definition S_LOGIN_InternalParse :: "wire_env \<Rightarrow> nat \<Rightarrow> S_LOGIN \<Rightarrow> byte list \<Rightarrow> (S_LOGIN \<times> parse_end) option" where
  "S_LOGIN_InternalParse L depth = parse_loop depth (S_LOGIN_switch L depth) sl_unknown (\<lambda>u. sl_unknown_update (\<lambda>_. u))"

definition S_LOGIN_InternalSerialize :: "wire_env \<Rightarrow> S_LOGIN \<Rightarrow> byte list" where
  "S_LOGIN_InternalSerialize L m =
     (if sl_success m then WriteBoolToArray 1 (sl_success m) else [])
     @ concat (map (\<lambda>pl. InternalWriteMessage 2 (pl_cached_size pl) (Player_InternalSerialize L pl)) (sl_players m))
     @ unknown_tail L (sl_unknown m)"

definition S_LOGIN_ByteSizeLong :: "S_LOGIN \<Rightarrow> nat \<times> S_LOGIN" where
  "S_LOGIN_ByteSizeLong m =
     (let sized = map (Player_ByteSizeLong) (sl_players m);
          total_size = length (sl_players m) + (\<Sum>x\<leftarrow>sized. LengthDelimitedSize (fst x));
          total_size = (if sl_success m then total_size + 1 + 1 else total_size);
          total_size = final_size (sl_unknown m) total_size
      in (total_size, m\<lparr>sl_players := map snd sized, sl_cached_size := word_of_nat total_size\<rparr>))"

section \<open>C_ENTER_GAME\<close>

record C_ENTER_GAME =
  ce_playerindex :: u64
  ce_unknown :: UnknownFieldSet
  ce_cached_size :: u32

definition C_ENTER_GAME_new :: "C_ENTER_GAME" where
  "C_ENTER_GAME_new = \<lparr>ce_playerindex = 0, ce_unknown = [], ce_cached_size = 0\<rparr>"

definition C_ENTER_GAME_Clear :: "C_ENTER_GAME \<Rightarrow> C_ENTER_GAME" where
  "C_ENTER_GAME_Clear m = m\<lparr>ce_playerindex := 0, ce_unknown := []\<rparr>"

definition C_ENTER_GAME_MergeFrom :: "C_ENTER_GAME \<Rightarrow> C_ENTER_GAME \<Rightarrow> C_ENTER_GAME" where
  "C_ENTER_GAME_MergeFrom m from =
     (let m0 = m\<lparr>ce_unknown := UnknownFieldSet_MergeFrom (ce_unknown m) (ce_unknown from)\<rparr>;
          m1 = (if ce_playerindex from \<noteq> 0 then m0\<lparr>ce_playerindex := ce_playerindex from\<rparr> else m0)
      in m1)"

definition C_ENTER_GAME_CopyFrom :: "C_ENTER_GAME \<Rightarrow> C_ENTER_GAME \<Rightarrow> C_ENTER_GAME" where
  "C_ENTER_GAME_CopyFrom m from = C_ENTER_GAME_MergeFrom (C_ENTER_GAME_Clear m) from"

definition C_ENTER_GAME_switch :: "wire_env \<Rightarrow> C_ENTER_GAME \<Rightarrow> u32 \<Rightarrow> byte list \<Rightarrow> C_ENTER_GAME field" where
  "C_ENTER_GAME_switch L m tag p =
     (if drop_bit 3 tag = 1 then varint_field 8 tag (\<lambda>val. m\<lparr>ce_playerindex := val\<rparr>) p
      else Unusual)"

definition C_ENTER_GAME_InternalParse :: "wire_env \<Rightarrow> nat \<Rightarrow> C_ENTER_GAME \<Rightarrow> byte list \<Rightarrow> (C_ENTER_GAME \<times> parse_end) option" where
  "C_ENTER_GAME_InternalParse L depth = parse_loop depth (C_ENTER_GAME_switch L) ce_unknown (\<lambda>u. ce_unknown_update (\<lambda>_. u))"

definition C_ENTER_GAME_InternalSerialize :: "wire_env \<Rightarrow> C_ENTER_GAME \<Rightarrow> byte list" where
  "C_ENTER_GAME_InternalSerialize L m =
     (if ce_playerindex m \<noteq> 0 then WriteUInt64ToArray 1 (ce_playerindex m) else [])
     @ unknown_tail L (ce_unknown m)"

definition C_ENTER_GAME_ByteSizeLong :: "C_ENTER_GAME \<Rightarrow> nat \<times> C_ENTER_GAME" where
  "C_ENTER_GAME_ByteSizeLong m =
     (let total_size = (if ce_playerindex m \<noteq> 0 then 1 + VarintSize64 (ce_playerindex m) else 0);
          total_size = final_size (ce_unknown m) total_size
      in (total_size, m\<lparr>ce_cached_size := word_of_nat total_size\<rparr>))"

section \<open>S_ENTER_GAME\<close>

record S_ENTER_GAME =
  se_success :: bool
  se_unknown :: UnknownFieldSet
  se_cached_size :: u32

definition S_ENTER_GAME_new :: "S_ENTER_GAME" where
  "S_ENTER_GAME_new = \<lparr>se_success = False, se_unknown = [], se_cached_size = 0\<rparr>"

definition S_ENTER_GAME_Clear :: "S_ENTER_GAME \<Rightarrow> S_ENTER_GAME" where
  "S_ENTER_GAME_Clear m = m\<lparr>se_success := False, se_unknown := []\<rparr>"

definition S_ENTER_GAME_MergeFrom :: "S_ENTER_GAME \<Rightarrow> S_ENTER_GAME \<Rightarrow> S_ENTER_GAME" where
  "S_ENTER_GAME_MergeFrom m from =
     (let m0 = m\<lparr>se_unknown := UnknownFieldSet_MergeFrom (se_unknown m) (se_unknown from)\<rparr>;
          m1 = (if se_success from then m0\<lparr>se_success := se_success from\<rparr> else m0)
      in m1)"

definition S_ENTER_GAME_CopyFrom :: "S_ENTER_GAME \<Rightarrow> S_ENTER_GAME \<Rightarrow> S_ENTER_GAME" where
  "S_ENTER_GAME_CopyFrom m from = S_ENTER_GAME_MergeFrom (S_ENTER_GAME_Clear m) from"

definition S_ENTER_GAME_switch :: "wire_env \<Rightarrow> S_ENTER_GAME \<Rightarrow> u32 \<Rightarrow> byte list \<Rightarrow> S_ENTER_GAME field" where
  "S_ENTER_GAME_switch L m tag p =
     (if drop_bit 3 tag = 1 then varint_field 8 tag (\<lambda>val. m\<lparr>se_success := val \<noteq> 0\<rparr>) p
      else Unusual)"

definition S_ENTER_GAME_InternalParse :: "wire_env \<Rightarrow> nat \<Rightarrow> S_ENTER_GAME \<Rightarrow> byte list \<Rightarrow> (S_ENTER_GAME \<times> parse_end) option" where
  "S_ENTER_GAME_InternalParse L depth = parse_loop depth (S_ENTER_GAME_switch L) se_unknown (\<lambda>u. se_unknown_update (\<lambda>_. u))"

definition S_ENTER_GAME_InternalSerialize :: "wire_env \<Rightarrow> S_ENTER_GAME \<Rightarrow> byte list" where
  "S_ENTER_GAME_InternalSerialize L m =
     (if se_success m then WriteBoolToArray 1 (se_success m) else [])
     @ unknown_tail L (se_unknown m)"

definition S_ENTER_GAME_ByteSizeLong :: "S_ENTER_GAME \<Rightarrow> nat \<times> S_ENTER_GAME" where
  "S_ENTER_GAME_ByteSizeLong m =
     (let total_size = (if se_success m then 1 + 1 else 0);
          total_size = final_size (se_unknown m) total_size
      in (total_size, m\<lparr>se_cached_size := word_of_nat total_size\<rparr>))"

section \<open>C_CHAT\<close>

record C_CHAT =
  cc_msg :: "byte list"
  cc_unknown :: UnknownFieldSet
  cc_cached_size :: u32

definition C_CHAT_new :: "C_CHAT" where
  "C_CHAT_new = \<lparr>cc_msg = [], cc_unknown = [], cc_cached_size = 0\<rparr>"

definition C_CHAT_Clear :: "C_CHAT \<Rightarrow> C_CHAT" where
  "C_CHAT_Clear m = m\<lparr>cc_msg := [], cc_unknown := []\<rparr>"

definition C_CHAT_MergeFrom :: "C_CHAT \<Rightarrow> C_CHAT \<Rightarrow> C_CHAT" where
  "C_CHAT_MergeFrom m from =
     (let m0 = m\<lparr>cc_unknown := UnknownFieldSet_MergeFrom (cc_unknown m) (cc_unknown from)\<rparr>;
          m1 = (if cc_msg from \<noteq> [] then m0\<lparr>cc_msg := cc_msg from\<rparr> else m0)
      in m1)"

definition C_CHAT_CopyFrom :: "C_CHAT \<Rightarrow> C_CHAT \<Rightarrow> C_CHAT" where
  "C_CHAT_CopyFrom m from = C_CHAT_MergeFrom (C_CHAT_Clear m) from"

definition C_CHAT_switch :: "wire_env \<Rightarrow> C_CHAT \<Rightarrow> u32 \<Rightarrow> byte list \<Rightarrow> C_CHAT field" where
  "C_CHAT_switch L m tag p =
     (if drop_bit 3 tag = 1 then string_field L 10 tag (\<lambda>str. m\<lparr>cc_msg := str\<rparr>) p
      else Unusual)"

definition C_CHAT_InternalParse :: "wire_env \<Rightarrow> nat \<Rightarrow> C_CHAT \<Rightarrow> byte list \<Rightarrow> (C_CHAT \<times> parse_end) option" where
  "C_CHAT_InternalParse L depth = parse_loop depth (C_CHAT_switch L) cc_unknown (\<lambda>u. cc_unknown_update (\<lambda>_. u))"

definition C_CHAT_InternalSerialize :: "wire_env \<Rightarrow> C_CHAT \<Rightarrow> byte list" where
  "C_CHAT_InternalSerialize L m =
     (if cc_msg m \<noteq> [] then WriteStringMaybeAliased L 1 (cc_msg m) else [])
     @ unknown_tail L (cc_unknown m)"

definition C_CHAT_ByteSizeLong :: "C_CHAT \<Rightarrow> nat \<times> C_CHAT" where
  "C_CHAT_ByteSizeLong m =
     (let total_size = (if cc_msg m \<noteq> [] then 1 + LengthDelimitedSize (length (cc_msg m)) else 0);
          total_size = final_size (cc_unknown m) total_size
      in (total_size, m\<lparr>cc_cached_size := word_of_nat total_size\<rparr>))"

section \<open>S_CHAT\<close>

record S_CHAT =
  sc_playerid :: u64
  sc_msg :: "byte list"
  sc_unknown :: UnknownFieldSet
  sc_cached_size :: u32

definition S_CHAT_new :: "S_CHAT" where
  "S_CHAT_new = \<lparr>sc_playerid = 0, sc_msg = [], sc_unknown = [], sc_cached_size = 0\<rparr>"

definition S_CHAT_Clear :: "S_CHAT \<Rightarrow> S_CHAT" where
  "S_CHAT_Clear m = m\<lparr>sc_msg := [], sc_playerid := 0, sc_unknown := []\<rparr>"

definition S_CHAT_MergeFrom :: "S_CHAT \<Rightarrow> S_CHAT \<Rightarrow> S_CHAT" where
  "S_CHAT_MergeFrom m from =
     (let m0 = m\<lparr>sc_unknown := UnknownFieldSet_MergeFrom (sc_unknown m) (sc_unknown from)\<rparr>;
          m1 = (if sc_msg from \<noteq> [] then m0\<lparr>sc_msg := sc_msg from\<rparr> else m0);
          m2 = (if sc_playerid from \<noteq> 0 then m1\<lparr>sc_playerid := sc_playerid from\<rparr> else m1)
      in m2)"

definition S_CHAT_CopyFrom :: "S_CHAT \<Rightarrow> S_CHAT \<Rightarrow> S_CHAT" where
  "S_CHAT_CopyFrom m from = S_CHAT_MergeFrom (S_CHAT_Clear m) from"

definition S_CHAT_switch :: "wire_env \<Rightarrow> S_CHAT \<Rightarrow> u32 \<Rightarrow> byte list \<Rightarrow> S_CHAT field" where
  "S_CHAT_switch L m tag p =
     (if drop_bit 3 tag = 1 then varint_field 8 tag (\<lambda>val. m\<lparr>sc_playerid := val\<rparr>) p
      else if drop_bit 3 tag = 2 then string_field L 18 tag (\<lambda>str. m\<lparr>sc_msg := str\<rparr>) p
      else Unusual)"

definition S_CHAT_InternalParse :: "wire_env \<Rightarrow> nat \<Rightarrow> S_CHAT \<Rightarrow> byte list \<Rightarrow> (S_CHAT \<times> parse_end) option" where
  "S_CHAT_InternalParse L depth = parse_loop depth (S_CHAT_switch L) sc_unknown (\<lambda>u. sc_unknown_update (\<lambda>_. u))"

definition S_CHAT_InternalSerialize :: "wire_env \<Rightarrow> S_CHAT \<Rightarrow> byte list" where
  "S_CHAT_InternalSerialize L m =
     (if sc_playerid m \<noteq> 0 then WriteUInt64ToArray 1 (sc_playerid m) else [])
     @ (if sc_msg m \<noteq> [] then WriteStringMaybeAliased L 2 (sc_msg m) else [])
     @ unknown_tail L (sc_unknown m)"

definition S_CHAT_ByteSizeLong :: "S_CHAT \<Rightarrow> nat \<times> S_CHAT" where
  "S_CHAT_ByteSizeLong m =
     (let total_size = (if sc_msg m \<noteq> [] then 1 + LengthDelimitedSize (length (sc_msg m)) else 0)
            + (if sc_playerid m \<noteq> 0 then 1 + VarintSize64 (sc_playerid m) else 0);
          total_size = final_size (sc_unknown m) total_size
      in (total_size, m\<lparr>sc_cached_size := word_of_nat total_size\<rparr>))"

end
