(* ===== verification/Proto_Utf8_Spec.thy ===== *)
theory Proto_Utf8_Spec
  imports Proto_Utf8 "HOL-Library.Sublist"
begin

text \<open>
  What the scanner of Proto_Utf8 computes. A string is well formed if it is the encoding of a
  sequence of Unicode scalar values; the scanner consumes the longest well formed prefix, whatever
  the address and whichever of its fast paths run.
\<close>

section \<open>The reference\<close>

definition scalar_value :: "nat \<Rightarrow> bool" where
  "scalar_value c \<longleftrightarrow> c < 0xD800 \<or> 0xE000 \<le> c \<and> c < 0x110000"

definition encode :: "nat \<Rightarrow> byte list" where
  "encode c = map word_of_nat
     (if c < 0x80 then [c]
      else if c < 0x800 then [0xC0 + c div 64, 0x80 + c mod 64]
      else if c < 0x10000 then [0xE0 + c div 4096, 0x80 + c div 64 mod 64, 0x80 + c mod 64]
      else [0xF0 + c div 262144, 0x80 + c div 4096 mod 64, 0x80 + c div 64 mod 64, 0x80 + c mod 64])"

definition encode_all :: "nat list \<Rightarrow> byte list" where
  "encode_all cs = concat (map encode cs)"

definition well_formed :: "byte list \<Rightarrow> bool" where
  "well_formed s \<longleftrightarrow> (\<exists>cs. list_all scalar_value cs \<and> s = encode_all cs)"

section \<open>The table as a function\<close>

lemma nth_concat_rows:
  assumes "\<forall>r\<in>set rows. length r = n" and "i < length rows" and "j < n"
  shows "concat rows ! (n * i + j) = rows ! i ! j"
  using assms
proof (induction rows arbitrary: i)
  case (Cons r rows)
  then show ?case by (cases i) (auto simp: nth_append)
qed simp

fun run_nth :: "(nat \<times> nat) list \<Rightarrow> nat \<Rightarrow> nat" where
  "run_nth [] i = 0"
| "run_nth ((n, e) # rs) i = (if i < n then e else run_nth rs (i - n))"

lemma nth_run_lengths: "i < length (run_lengths rs) \<Longrightarrow> run_lengths rs ! i = run_nth rs i"
  by (induction rs arbitrary: i rule: run_lengths.induct) (auto simp: nth_append)

definition entry :: "nat \<Rightarrow> byte \<Rightarrow> nat" where
  "entry s b = utf8acceptnonsurrogates ! (256 * s + unat b)"

lemma rows_length: "r \<in> set utf8acceptnonsurrogates_rows \<Longrightarrow> length (run_lengths r) = 256"
  by (auto simp: utf8acceptnonsurrogates_rows_def)

lemma entry_row: "s < 9 \<Longrightarrow> entry s b = run_nth (utf8acceptnonsurrogates_rows ! s) (unat b)"
proof -
  assume s: "s < 9"
  have n: "length utf8acceptnonsurrogates_rows = 9" by (simp add: utf8acceptnonsurrogates_rows_def)
  have "entry s b = map run_lengths utf8acceptnonsurrogates_rows ! s ! unat b"
    unfolding entry_def utf8acceptnonsurrogates_def
    by (rule nth_concat_rows) (use rows_length byte_less s n in auto)
  also have "\<dots> = run_nth (utf8acceptnonsurrogates_rows ! s) (unat b)"
    using s n by (simp add: nth_run_lengths rows_length byte_less)
  finally show ?thesis .
qed

lemma entry_rows:
  "entry 0 b = (let c = unat b in if c < 128 then 0 else if c < 194 then 240 else if c < 224 then 1
     else if c = 224 then 2 else if c = 237 then 7 else if c < 240 then 3 else if c = 240 then 4
     else if c < 244 then 5 else if c = 244 then 6 else 240)"
  "entry (Suc 0) b = (if 128 \<le> unat b \<and> unat b < 192 then 0 else 240)"
  "entry 2 b = (if 160 \<le> unat b \<and> unat b < 192 then 1 else 240)"
  "entry 3 b = (if 128 \<le> unat b \<and> unat b < 192 then 1 else 240)"
  "entry 4 b = (if 144 \<le> unat b \<and> unat b < 192 then 3 else 240)"
  "entry 5 b = (if 128 \<le> unat b \<and> unat b < 192 then 3 else 240)"
  "entry 6 b = (if 128 \<le> unat b \<and> unat b < 144 then 3 else 240)"
  "entry 7 b = (if 128 \<le> unat b \<and> unat b < 160 then 1 else if 160 \<le> unat b \<and> unat b < 192 then 8 else 240)"
  "entry 8 b = (if 128 \<le> unat b \<and> unat b < 192 then 242 else 240)"
  using byte_less[of b]
  by (simp_all add: entry_row, auto simp: utf8acceptnonsurrogates_rows_def Let_def)

section \<open>The bytes after the first of a character\<close>

definition trailing :: "byte \<Rightarrow> bool" where
  "trailing b \<longleftrightarrow> 128 \<le> unat b \<and> unat b < 192"

lemma and_C0: "b AND 0xC0 = 0x80 \<longleftrightarrow> trailing b"
proof -
  have c: "(0xC0 :: byte) = push_bit 6 (mask 2)" by (simp add: push_bit_eq_mult mask_eq_exp_minus_1)
  have "b AND 0xC0 = push_bit 6 (drop_bit 6 b)"
    unfolding c by (rule bit_word_eqI) (auto simp: bit_simps)
  moreover have "unat (push_bit 6 (drop_bit 6 b)) = unat b div 64 * 64"
  proof -
    have "unat (drop_bit 6 b) = unat b div 64"
    proof -
      have "unat (drop_bit 6 b) = drop_bit 6 (unat b)" by (simp only: unat_drop_bit_eq)
      then show ?thesis by (simp only: drop_bit_eq_div) simp
    qed
    moreover have "unat b div 64 * 64 < 256" using byte_less[of b] by simp
    ultimately show ?thesis
      by (simp only: push_bit_eq_mult unat_word_ariths) (simp add: take_bit_nat_eq_self)
  qed
  ultimately have "b AND 0xC0 = 0x80 \<longleftrightarrow> unat b div 64 * 64 = 128" by (simp only: word_unat_eq_iff) simp
  also have "\<dots> \<longleftrightarrow> trailing b" by (auto simp: trailing_def)
  finally show ?thesis .
qed

lemma trail_entry: "entry s b < 240 \<Longrightarrow> s \<noteq> 0 \<Longrightarrow> s < 9 \<Longrightarrow> trailing b \<and> entry s b < 9"
proof -
  assume "entry s b < 240" "s \<noteq> 0" "s < 9"
  moreover from this have "s = 1 \<or> s = 2 \<or> s = 3 \<or> s = 4 \<or> s = 5 \<or> s = 6 \<or> s = 7 \<or> s = 8" by auto
  ultimately show ?thesis by (auto simp: entry_rows trailing_def split: if_splits)
qed

lemma exit_entry: "240 \<le> entry s b \<Longrightarrow> s < 9 \<Longrightarrow> entry s b \<in> {240, 242}"
proof -
  assume "240 \<le> entry s b" "s < 9"
  moreover from this have
    "s = 0 \<or> s = Suc 0 \<or> s = 2 \<or> s = 3 \<or> s = 4 \<or> s = 5 \<or> s = 6 \<or> s = 7 \<or> s = 8" by auto
  ultimately show ?thesis by (auto simp: entry_rows Let_def split: if_splits)
qed

text \<open>The words that lead from a state back to the first.\<close>

fun completes :: "nat \<Rightarrow> byte list \<Rightarrow> bool" where
  "completes s [] \<longleftrightarrow> s = 0"
| "completes s (b # w) \<longleftrightarrow> s \<noteq> 0 \<and> entry s b < 240 \<and> completes (entry s b) w"

text \<open>
  A scan that ends inside a character: nothing at p completes it, and only trailing bytes lie
  between p and the end of the scan.
\<close>

definition stops_inside :: "byte list \<Rightarrow> nat \<Rightarrow> nat \<Rightarrow> bool" where
  "stops_inside str s p \<longleftrightarrow> (\<exists>e T q k. byte_scan str s s p = (e, T, q) \<and> T \<noteq> 0
     \<and> (if 240 \<le> e then q - 1 else q) = p + k \<and> (\<forall>i<k. trailing (str ! (p + i)))
     \<and> e \<in> {240, 242} \<union> {..<9}) \<and> (\<forall>w. completes s w \<longrightarrow> \<not> prefix w (drop p str))"

lemma byte_scan_step:
  assumes "p < length str" and "entry s (str ! p) < 240"
  shows "byte_scan str e s p = byte_scan str (entry s (str ! p)) (entry s (str ! p)) (Suc p)"
  using assms by (subst byte_scan.simps) (simp add: Let_def kExitIllegalStructure_def entry_def)

lemma byte_scan_exit:
  assumes "p < length str" and "240 \<le> entry s (str ! p)"
  shows "byte_scan str e s p = (entry s (str ! p), s, Suc p)"
  using assms by (subst byte_scan.simps) (simp add: Let_def kExitIllegalStructure_def entry_def)

lemma byte_scan_end: "length str \<le> p \<Longrightarrow> byte_scan str e s p = (e, s, p)"
  by (subst byte_scan.simps) simp

lemma trail_scan:
  assumes "s \<noteq> 0" and "s < 9" and "p \<le> length str"
  shows "(\<exists>w. completes s w \<and> prefix w (drop p str) \<and> byte_scan str s s p = byte_scan str 0 0 (p + length w))
    \<or> stops_inside str s p"
  using assms
proof (induction "length str - p" arbitrary: s p)
  case 0
  then have "byte_scan str s s p = (s, s, p)" by (simp add: byte_scan_end)
  then show ?case using 0 by (auto simp: stops_inside_def)
next
  case (Suc n)
  let ?s = "entry s (str ! p)"
  have p: "p < length str" using Suc by auto
  have d: "drop p str = str ! p # drop (Suc p) str" using p by (simp add: Cons_nth_drop_Suc)
  show ?case
  proof (cases "?s < 240")
    case False
    moreover have "\<not> prefix w (drop p str)" if "completes s w" for w
      using that False Suc(3) unfolding d by (cases w) auto
    ultimately show ?thesis using byte_scan_exit[OF p, of s s] exit_entry[of s "str ! p"] Suc(3,4)
      by (auto simp: stops_inside_def intro: exI[of _ 0])
  next
    case True
    note t = trail_entry[OF True Suc(3,4)]
    note st = byte_scan_step[OF p True, of s]
    show ?thesis
    proof (cases "?s = 0")
      case z: True
      then have "completes s [str ! p]" using True Suc(3) by simp
      moreover have "prefix [str ! p] (drop p str)" using d by simp
      ultimately show ?thesis using st z by (intro disjI1 exI[of _ "[str ! p]"]) simp
    next
      case nz: False
      have "n = length str - Suc p" "Suc p \<le> length str" using Suc(2) p by auto
      from Suc(1)[OF this(1) nz _ this(2)] t
      consider w where "completes ?s w" "prefix w (drop (Suc p) str)"
          "byte_scan str ?s ?s (Suc p) = byte_scan str 0 0 (Suc p + length w)"
        | "stops_inside str ?s (Suc p)" by blast
      then show ?thesis
      proof cases
        case 1
        then show ?thesis using True Suc(3) d st by (intro disjI1 exI[of _ "str ! p # w"]) simp
      next
        case 2
        then obtain e T q k where *: "byte_scan str ?s ?s (Suc p) = (e, T, q)" "T \<noteq> 0"
          "(if 240 \<le> e then q - 1 else q) = Suc p + k" "\<forall>i<k. trailing (str ! (Suc p + i))"
          "e \<in> {240, 242} \<union> {..<9}" "\<And>w. completes ?s w \<Longrightarrow> \<not> prefix w (drop (Suc p) str)"
          unfolding stops_inside_def by blast
        have "\<not> prefix w (drop p str)" if "completes s w" for w
          using that *(6) Suc(3) unfolding d by (cases w) auto
        moreover have "trailing (str ! (p + i))" if "i < Suc k" for i using that t *(4) by (cases i) auto
        moreover have "byte_scan str s s p = (e, T, q)" using * st by simp
        moreover have "(if 240 \<le> e then q - 1 else q) = p + Suc k" using *(3) by simp
        ultimately show ?thesis using *(2,5) unfolding stops_inside_def by blast
      qed
    qed
  qed
qed

text \<open>A character is a first byte that leaves the first state, completed; these are the encodings.\<close>

definition character :: "byte list \<Rightarrow> bool" where
  "character w \<longleftrightarrow> (\<exists>b v. w = b # v \<and> entry 0 b < 240 \<and> completes (entry 0 b) v)"

lemma completes_1: "completes (Suc 0) w \<longleftrightarrow> (\<exists>a. w = [a] \<and> trailing a)"
  by (cases w) (auto simp: entry_rows trailing_def split: if_splits elim: completes.elims)

lemma completes_3: "completes 3 w \<longleftrightarrow> (\<exists>a b. w = [a, b] \<and> trailing a \<and> trailing b)"
  by (cases w) (auto simp: entry_rows trailing_def completes_1 split: if_splits)

lemma completes_rows:
  "completes 2 w \<longleftrightarrow> (\<exists>a b. w = [a, b] \<and> 160 \<le> unat a \<and> unat a < 192 \<and> trailing b)"
  "completes 7 w \<longleftrightarrow> (\<exists>a b. w = [a, b] \<and> 128 \<le> unat a \<and> unat a < 160 \<and> trailing b)"
  "completes 4 w \<longleftrightarrow> (\<exists>a b c. w = [a, b, c] \<and> 144 \<le> unat a \<and> unat a < 192 \<and> trailing b \<and> trailing c)"
  "completes 5 w \<longleftrightarrow> (\<exists>a b c. w = [a, b, c] \<and> trailing a \<and> trailing b \<and> trailing c)"
  "completes 6 w \<longleftrightarrow> (\<exists>a b c. w = [a, b, c] \<and> 128 \<le> unat a \<and> unat a < 144 \<and> trailing b \<and> trailing c)"
proof -
  have 8: "\<not> completes 8 v" for v by (cases v) (auto simp: entry_rows split: if_splits)
  show "completes 2 w \<longleftrightarrow> (\<exists>a b. w = [a, b] \<and> 160 \<le> unat a \<and> unat a < 192 \<and> trailing b)"
    by (cases w) (auto simp: entry_rows completes_1 split: if_splits)
  show "completes 7 w \<longleftrightarrow> (\<exists>a b. w = [a, b] \<and> 128 \<le> unat a \<and> unat a < 160 \<and> trailing b)"
    by (cases w) (auto simp: entry_rows completes_1 8 split: if_splits)
  show "completes 4 w \<longleftrightarrow> (\<exists>a b c. w = [a, b, c] \<and> 144 \<le> unat a \<and> unat a < 192 \<and> trailing b \<and> trailing c)"
    by (cases w) (auto simp: entry_rows completes_3 split: if_splits)
  show "completes 5 w \<longleftrightarrow> (\<exists>a b c. w = [a, b, c] \<and> trailing a \<and> trailing b \<and> trailing c)"
    by (cases w) (auto simp: entry_rows completes_3 trailing_def split: if_splits)
  show "completes 6 w \<longleftrightarrow> (\<exists>a b c. w = [a, b, c] \<and> 128 \<le> unat a \<and> unat a < 144 \<and> trailing b \<and> trailing c)"
    by (cases w) (auto simp: entry_rows completes_3 split: if_splits)
qed

lemma bytes_of_nats: "map unat w = ns \<Longrightarrow> w = map word_of_nat ns" for w :: "byte list"
  by (auto simp: comp_def)

lemma digits_64: "y < 64 \<Longrightarrow> (x * 64 + y) div 64 = (x :: nat) \<and> (x * 64 + y) mod 64 = y"
  by simp

lemma div_64_twice: "c div 4096 = c div 64 div (64 :: nat)" "c div 262144 = c div 64 div 64 div (64 :: nat)"
  by (simp_all add: div_mult2_eq[symmetric])

lemma trailingE:
  assumes "trailing a"
  obtains y where "unat a = 0x80 + y" and "y < 64"
  using assms that[of "unat a - 128"] by (auto simp: trailing_def)

lemma encode_2:
  assumes "unat b = 0xC0 + x" and "trailing a" and "2 \<le> x" and "x < 32"
  shows "\<exists>c. scalar_value c \<and> [b, a] = encode c"
proof -
  obtain y where y: "unat a = 0x80 + y" "y < 64" using assms(2) by (rule trailingE)
  let ?c = "x * 64 + y"
  have r: "\<not> ?c < 0x80" "?c < 0x800" using assms y by simp_all
  have "scalar_value ?c" using r by (simp add: scalar_value_def)
  moreover have "[b, a] = encode ?c"
    unfolding encode_def using r assms y digits_64[OF y(2), of x] by (intro bytes_of_nats) simp
  ultimately show ?thesis by blast
qed

lemma encode_3:
  assumes "unat b = 0xE0 + x" and "trailing a" and "trailing a'"
    and "x < 16" and "x = 0 \<longrightarrow> 160 \<le> unat a" and "x = 13 \<longrightarrow> unat a < 160"
  shows "\<exists>c. scalar_value c \<and> [b, a, a'] = encode c"
proof -
  obtain y z where y: "unat a = 0x80 + y" "y < 64" and z: "unat a' = 0x80 + z" "z < 64"
    using assms(2,3) by (metis trailingE)
  let ?c = "(x * 64 + y) * 64 + z"
  have r: "\<not> ?c < 0x800" using assms(5) y by (cases "x = 0") simp_all
  have r': "?c < 0x10000" using assms(4) y z by simp
  have "scalar_value ?c"
    unfolding scalar_value_def using assms(6) y z r' by (cases "x < 13"; cases "x = 13") simp_all
  moreover have "[b, a, a'] = encode ?c"
    unfolding encode_def div_64_twice
    using r r' assms(1) y z digits_64[OF y(2), of x] digits_64[OF z(2), of "x * 64 + y"]
    by (intro bytes_of_nats) simp
  ultimately show ?thesis by blast
qed

lemma encode_4:
  assumes "unat b = 0xF0 + x" and "trailing a" and "trailing a'" and "trailing a''"
    and "x < 5" and "x = 0 \<longrightarrow> 144 \<le> unat a" and "x = 4 \<longrightarrow> unat a < 144"
  shows "\<exists>c. scalar_value c \<and> [b, a, a', a''] = encode c"
proof -
  obtain y z u where y: "unat a = 0x80 + y" "y < 64" and z: "unat a' = 0x80 + z" "z < 64"
    and u: "unat a'' = 0x80 + u" "u < 64"
    using assms(2,3,4) by (metis trailingE)
  let ?c = "((x * 64 + y) * 64 + z) * 64 + u"
  have r: "\<not> ?c < 0x10000" using assms(6) y by (cases "x = 0") simp_all
  have "scalar_value ?c"
    unfolding scalar_value_def using assms(5,7) y z u r by (cases "x < 4"; cases "x = 4") simp_all
  moreover have "[b, a, a', a''] = encode ?c"
    unfolding encode_def div_64_twice
    using r assms(1) y z u digits_64[OF y(2), of x] digits_64[OF z(2), of "x * 64 + y"]
      digits_64[OF u(2), of "(x * 64 + y) * 64 + z"]
    by (intro bytes_of_nats) simp
  ultimately show ?thesis by blast
qed

lemma character_encoding:
  assumes "character w"
  shows "\<exists>c. scalar_value c \<and> w = encode c"
proof -
  obtain b v where w: "w = b # v" and e: "entry 0 b < 240" and v: "completes (entry 0 b) v"
    using assms by (auto simp: character_def)
  have one: "\<exists>c. scalar_value c \<and> [b] = encode c" if "unat b < 128"
    using that by (intro exI[of _ "unat b"]) (simp add: scalar_value_def encode_def)
  consider "unat b < 128" "v = []" | "194 \<le> unat b" "unat b < 224" "completes (Suc 0) v"
    | "unat b = 224" "completes 2 v" | "unat b = 237" "completes 7 v"
    | "225 \<le> unat b" "unat b < 240" "unat b \<noteq> 237" "completes 3 v" | "unat b = 240" "completes 4 v"
    | "241 \<le> unat b" "unat b < 244" "completes 5 v" | "unat b = 244" "completes 6 v"
    using e v by (cases v) (auto simp: entry_rows Let_def split: if_splits)
  then show ?thesis
  proof cases
    case 1
    then show ?thesis using one by (simp add: w)
  next
    case 2
    then show ?thesis
      by (auto simp: w completes_1 intro!: encode_2[of b "unat b - 192"])
  next
    case 3
    then show ?thesis by (auto simp: w completes_rows trailing_def intro!: encode_3[of b 0])
  next
    case 4
    then show ?thesis by (auto simp: w completes_rows trailing_def intro!: encode_3[of b 13])
  next
    case 5
    then show ?thesis by (auto simp: w completes_3 intro!: encode_3[of b "unat b - 224"])
  next
    case 6
    then show ?thesis by (auto simp: w completes_rows trailing_def intro!: encode_4[of b 0])
  next
    case 7
    then show ?thesis by (auto simp: w completes_rows trailing_def intro!: encode_4[of b "unat b - 240"])
  next
    case 8
    then show ?thesis by (auto simp: w completes_rows trailing_def intro!: encode_4[of b 4])
  qed
qed

declare completes.simps [simp del]

lemma character_2: "unat b = 0xC0 + l \<Longrightarrow> 2 \<le> l \<Longrightarrow> l < 32 \<Longrightarrow> trailing a \<Longrightarrow> character [b, a]"
  by (simp add: character_def entry_rows completes_1)

lemma character_3:
  assumes "unat b = 0xE0 + l" and "l < 16" and "trailing a" and "trailing a'"
    and "l = 0 \<Longrightarrow> 160 \<le> unat a" and "l = 13 \<Longrightarrow> unat a < 160"
  shows "character [b, a, a']"
  using assms
  by (cases "l = 0"; cases "l = 13") (simp_all add: character_def entry_rows completes_rows completes_3 trailing_def)

lemma character_4:
  assumes "unat b = 0xF0 + l" and "l < 5" and "trailing a" and "trailing a'" and "trailing a''"
    and "l = 0 \<Longrightarrow> 144 \<le> unat a" and "l = 4 \<Longrightarrow> unat a < 144"
  shows "character [b, a, a', a'']"
  using assms
  by (cases "l = 0"; cases "l = 4") (simp_all add: character_def entry_rows completes_rows trailing_def)

definition trail_byte :: "nat \<Rightarrow> byte" where
  "trail_byte y = word_of_nat (0x80 + y)"

lemma trail_byte: "y < 64 \<Longrightarrow> trailing (trail_byte y)" "y < 64 \<Longrightarrow> unat (trail_byte y) = 0x80 + y"
proof -
  show "unat (trail_byte y) = 0x80 + y" if "y < 64"
    unfolding trail_byte_def by (rule unat_of_byte) (use that in simp)
  then show "trailing (trail_byte y)" if "y < 64" using that by (simp add: trailing_def)
qed

lemma encoding_character:
  assumes "scalar_value c"
  shows "character (encode c)"
proof -
  define z y x where "z = c mod 64" and "y = c div 64 mod 64" and "x = c div 64 div 64 mod 64"
  have lt: "z < 64" "y < 64" "x < 64" by (simp_all add: z_def y_def x_def)
  note tr = trail_byte[OF lt(1)] trail_byte[OF lt(2)] trail_byte[OF lt(3)]
  consider "c < 0x80" | "0x80 \<le> c" "c < 0x800" | "0x800 \<le> c" "c < 0x10000" | "0x10000 \<le> c" by linarith
  then show ?thesis
  proof cases
    case 1
    then show ?thesis by (simp add: character_def encode_def entry_rows unat_of_byte Let_def completes.simps)
  next
    case 2
    define l where "l = c div 64"
    have l: "2 \<le> l" "l < 32" using 2 by (auto simp: l_def less_eq_div_iff_mult_less_eq div_less_iff_less_mult)
    have "encode c = [word_of_nat (0xC0 + l), trail_byte z]"
      using 2 by (simp only: encode_def z_def l_def trail_byte_def) simp
    moreover have "unat (word_of_nat (0xC0 + l) :: byte) = 0xC0 + l" by (rule unat_of_byte) (use l in simp)
    ultimately show ?thesis using character_2 l tr(1) by metis
  next
    case 3
    define l where "l = c div 64 div 64"
    have c: "c = (l * 64 + y) * 64 + z" by (simp add: l_def y_def z_def)
    have l: "l < 16" using 3 lt unfolding c by simp
    have e: "encode c = [word_of_nat (0xE0 + l), trail_byte y, trail_byte z]"
      using 3 by (simp only: encode_def z_def y_def l_def div_64_twice trail_byte_def) simp
    have y: "l = 0 \<Longrightarrow> 160 \<le> unat (trail_byte y)" using 3(1) lt tr(4) unfolding c by simp
    have y': "l = 13 \<Longrightarrow> unat (trail_byte y) < 160" using assms lt 3(2) tr(4) unfolding scalar_value_def c by auto
    have "unat (word_of_nat (0xE0 + l) :: byte) = 0xE0 + l" by (rule unat_of_byte) (use l in simp)
    from character_3[OF this l tr(3,1) y y'] show ?thesis unfolding e .
  next
    case 4
    define l where "l = c div 64 div 64 div 64"
    have c: "c = ((l * 64 + x) * 64 + y) * 64 + z" by (simp add: l_def x_def y_def z_def)
    have l: "l < 5" using assms 4 lt unfolding c scalar_value_def by auto
    have e: "encode c = [word_of_nat (0xF0 + l), trail_byte x, trail_byte y, trail_byte z]"
      using 4 by (simp only: encode_def z_def y_def x_def l_def div_64_twice trail_byte_def) simp
    have x: "l = 0 \<Longrightarrow> 144 \<le> unat (trail_byte x)" using 4(1) lt tr(6) unfolding c by simp
    have x': "l = 4 \<Longrightarrow> unat (trail_byte x) < 144" using assms lt 4(1) tr(6) unfolding scalar_value_def c by auto
    have "unat (word_of_nat (0xF0 + l) :: byte) = 0xF0 + l" by (rule unat_of_byte) (use l in simp)
    from character_4[OF this l tr(5,3,1) x x'] show ?thesis unfolding e .
  qed
qed

lemma character_iff: "character w \<longleftrightarrow> (\<exists>c. scalar_value c \<and> w = encode c)"
  using character_encoding encoding_character by blast

section \<open>The scan from a first byte\<close>

definition scan_end :: "byte list \<Rightarrow> nat \<times> nat \<times> nat \<Rightarrow> nat \<times> nat" where
  "scan_end str r = (let (e, Tbl, src) = r in
     if 240 \<le> e then (e, if Tbl \<noteq> 0 then back_up str (src - 1) else src - 1)
     else if Tbl \<noteq> 0 then (240, back_up str src) else (241, src))"

lemma back_up_inside:
  assumes "\<not> trailing (str ! p)" and "\<forall>i<k. trailing (str ! (Suc p + i))"
  shows "back_up str (Suc p + k) = p"
  using assms
proof (induction k)
  case 0
  then show ?case by (simp add: and_C0)
next
  case (Suc k)
  then have "trailing (str ! Suc (p + k))" by auto
  then show ?case using Suc by (simp add: and_C0)
qed

lemma first_entry: "entry 0 b < 240 \<Longrightarrow> entry 0 b < 9 \<and> (entry 0 b \<noteq> 0 \<longrightarrow> \<not> trailing b)"
  by (auto simp: entry_rows trailing_def Let_def split: if_splits)

text \<open>At a first byte the scan passes a character, or it ends and backs up to this byte.\<close>

lemma char_scan:
  assumes "p < length str"
  shows "(\<exists>w. character w \<and> prefix w (drop p str) \<and> byte_scan str 0 0 p = byte_scan str 0 0 (p + length w))
    \<or> (\<exists>e\<in>{240, 242}. scan_end str (byte_scan str 0 0 p) = (e, p)) \<and> (\<forall>w. character w \<longrightarrow> \<not> prefix w (drop p str))"
proof -
  let ?b = "str ! p"
  have d: "drop p str = ?b # drop (Suc p) str" using assms by (simp add: Cons_nth_drop_Suc)
  show ?thesis
  proof (cases "entry 0 ?b < 240")
    case False
    then have "\<not> prefix w (drop p str)" if "character w" for w
      using that unfolding d character_def by auto
    then show ?thesis
      using byte_scan_exit[OF assms, of 0 0] False exit_entry[of 0 ?b] by (auto simp: scan_end_def)
  next
    case True
    note f = first_entry[OF True]
    note st = byte_scan_step[OF assms True, of 0]
    show ?thesis
    proof (cases "entry 0 ?b = 0")
      case z: True
      then have "character [?b]" by (simp add: character_def completes.simps)
      then show ?thesis using st z d by (intro disjI1 exI[of _ "[?b]"]) simp
    next
      case nz: False
      have "Suc p \<le> length str" using assms by simp
      from trail_scan[OF nz _ this] f
      consider w where "completes (entry 0 ?b) w" "prefix w (drop (Suc p) str)"
          "byte_scan str (entry 0 ?b) (entry 0 ?b) (Suc p) = byte_scan str 0 0 (Suc p + length w)"
        | "stops_inside str (entry 0 ?b) (Suc p)" by blast
      then show ?thesis
      proof cases
        case 1
        then have "character (?b # w)" using True by (auto simp: character_def)
        then show ?thesis using 1 st d by (intro disjI1 exI[of _ "?b # w"]) simp
      next
        case 2
        then obtain e T q k where *: "byte_scan str (entry 0 ?b) (entry 0 ?b) (Suc p) = (e, T, q)" "T \<noteq> 0"
          "(if 240 \<le> e then q - 1 else q) = Suc p + k" "\<forall>i<k. trailing (str ! (Suc p + i))"
          "e \<in> {240, 242} \<union> {..<9}" "\<And>w. completes (entry 0 ?b) w \<Longrightarrow> \<not> prefix w (drop (Suc p) str)"
          unfolding stops_inside_def by blast
        have b: "back_up str (Suc p + k) = p" using back_up_inside f nz *(4) by blast
        have "\<not> prefix w (drop p str)" if "character w" for w
          using that *(6) unfolding d character_def by auto
        moreover have "\<exists>e\<in>{240, 242}. scan_end str (byte_scan str 0 0 p) = (e, p)"
          unfolding st *(1) scan_end_def using *(2,3,5) b by (cases "240 \<le> e") auto
        ultimately show ?thesis by blast
      qed
    qed
  qed
qed

text \<open>So it consumes characters as long as there is one.\<close>

lemma scan_characters:
  assumes "p \<le> length str"
  shows "\<exists>cs r e. list_all scalar_value cs \<and> drop p str = encode_all cs @ r
    \<and> (\<forall>w. character w \<longrightarrow> \<not> prefix w r) \<and> e \<in> {240, 241, 242} \<and> (e = 241 \<longleftrightarrow> r = [])
    \<and> scan_end str (byte_scan str 0 0 p) = (e, p + length (encode_all cs))"
  using assms
proof (induction "length str - p" arbitrary: p rule: less_induct)
  case less
  show ?case
  proof (cases "p < length str")
    case False
    then have "byte_scan str 0 0 p = (0, 0, p)" by (simp add: byte_scan_end)
    moreover have "\<not> prefix w []" if "character w" for w using that by (auto simp: character_def)
    ultimately show ?thesis
      using False by (intro exI[of _ "[]"] exI[of _ "241"]) (simp add: encode_all_def scan_end_def)
  next
    case True
    from char_scan[OF True] show ?thesis
    proof (elim disjE exE conjE bexE)
      fix w assume w: "character w" "prefix w (drop p str)" "byte_scan str 0 0 p = byte_scan str 0 0 (p + length w)"
      then obtain c where c: "scalar_value c" "w = encode c" using character_encoding by blast
      have "0 < length w" using w(1) by (auto simp: character_def)
      moreover have "p + length w \<le> length str" using prefix_length_le[OF w(2)] True by simp
      ultimately have lt: "length str - (p + length w) < length str - p" "p + length w \<le> length str"
        using True by linarith+
      obtain cs r e where *: "list_all scalar_value cs" "drop (p + length w) str = encode_all cs @ r"
        "\<forall>w. character w \<longrightarrow> \<not> prefix w r" "e \<in> {240, 241, 242}" "e = 241 \<longleftrightarrow> r = []"
        "scan_end str (byte_scan str 0 0 (p + length w)) = (e, p + length w + length (encode_all cs))"
        using less(1)[OF lt] by blast
      have "drop p str = w @ drop (p + length w) str"
        using w(2) by (metis prefix_def append_eq_conv_conj drop_drop add.commute)
      then have "drop p str = encode_all (c # cs) @ r" using *(2) c by (simp add: encode_all_def)
      then show ?thesis
        using * c w(3) by (intro exI[of _ "c # cs"] exI[of _ r] exI[of _ e]) (simp add: encode_all_def)
    next
      fix e assume e: "e \<in> {240, 242}" "scan_end str (byte_scan str 0 0 p) = (e, p)"
        and "\<forall>w. character w \<longrightarrow> \<not> prefix w (drop p str)"
      then show ?thesis
        using True by (intro exI[of _ "[]"] exI[of _ "drop p str"] exI[of _ e]) (auto simp: encode_all_def)
    qed
  qed
qed

section \<open>The longest well formed prefix\<close>

lemma completes_unique: "completes s w \<Longrightarrow> completes s v \<Longrightarrow> prefix w v \<Longrightarrow> w = v"
proof (induction w arbitrary: s v)
  case (Cons b w)
  then show ?case by (cases v) (auto simp: completes.simps)
next
  case Nil
  then show ?case by (cases v) (auto simp: completes.simps)
qed

lemma character_unique: "character w \<Longrightarrow> character v \<Longrightarrow> prefix w v \<Longrightarrow> w = v"
  unfolding character_def using completes_unique by fastforce

lemma encode_all_simps [simp]: "encode_all [] = []" "encode_all (c # cs) = encode c @ encode_all cs"
  by (simp_all add: encode_all_def)

lemma encodings_shorter:
  assumes "list_all scalar_value ds" and "list_all scalar_value cs" and "\<forall>w. character w \<longrightarrow> \<not> prefix w r"
    and "prefix (encode_all ds) (encode_all cs @ r)"
  shows "prefix (encode_all ds) (encode_all cs)"
  using assms
proof (induction ds arbitrary: cs)
  case (Cons d ds)
  have d: "character (encode d)" using Cons(2) encoding_character by simp
  show ?case
  proof (cases cs)
    case Nil
    then have "prefix (encode d) r" using Cons(5) by (auto simp: prefix_def)
    then show ?thesis using Cons(4) d by blast
  next
    case (Cons c cs')
    have c: "character (encode c)" using Cons.prems(2) Cons encoding_character by simp
    have "prefix (encode d) (encode c @ encode_all cs' @ r)" using Cons.prems(4) Cons by (auto simp: prefix_def)
    then have "prefix (encode d) (encode c) \<or> prefix (encode c) (encode d)"
      by (metis prefix_def prefix_same_cases)
    then have "encode d = encode c" using character_unique c d by metis
    then show ?thesis using Cons.prems Cons Cons.IH[of cs'] by simp
  qed
qed simp

definition longest_prefix :: "byte list \<Rightarrow> nat \<Rightarrow> bool" where
  "longest_prefix s n \<longleftrightarrow> n \<le> length s \<and> well_formed (take n s)
     \<and> (\<forall>m\<le>length s. well_formed (take m s) \<longrightarrow> m \<le> n)"

lemma longest_prefixI:
  assumes "list_all scalar_value cs" and "s = encode_all cs @ r" and "\<forall>w. character w \<longrightarrow> \<not> prefix w r"
  shows "longest_prefix s (length (encode_all cs))"
  unfolding longest_prefix_def
proof (intro conjI allI impI)
  show "well_formed (take (length (encode_all cs)) s)" using assms by (auto simp: well_formed_def)
  fix m assume m: "m \<le> length s" "well_formed (take m s)"
  then obtain ds where ds: "list_all scalar_value ds" "take m s = encode_all ds" by (auto simp: well_formed_def)
  then have "prefix (encode_all ds) (encode_all cs @ r)" by (metis assms(2) take_is_prefix)
  from prefix_length_le[OF encodings_shorter[OF ds(1) assms(1,3) this]] show "m \<le> length (encode_all cs)"
    using ds(2) m(1) by (metis length_take min.absorb2)
qed (use assms in simp)

section \<open>The fast paths\<close>

lemma align_skip_range:
  assumes "src \<le> length str"
  shows "src \<le> align_skip f addr str src" and "align_skip f addr str src \<le> length str"
    and "\<forall>i. src \<le> i \<and> i < align_skip f addr str src \<longrightarrow> f (str ! i)"
proof -
  have "src \<le> align_skip f addr str src \<and> align_skip f addr str src \<le> length str
    \<and> (\<forall>i. src \<le> i \<and> i < align_skip f addr str src \<longrightarrow> f (str ! i))"
    using assms
  proof (induction f addr str src rule: align_skip.induct)
    case (1 f addr str src)
    show ?case
    proof (cases "(addr + src) mod 8 \<noteq> 0 \<and> src < length str \<and> f (str ! src)")
      case True
      then have "align_skip f addr str src = align_skip f addr str (src + 1)" by (subst align_skip.simps) simp
      moreover have "i = src \<or> src + 1 \<le> i" if "src \<le> i" for i using that by auto
      ultimately show ?thesis using 1 True by (simp, metis)
    next
      case False
      then have "align_skip f addr str src = src" by (subst align_skip.simps) (simp only: if_False)
      then show ?thesis using 1(2) by (auto simp: not_less)
    qed
  qed
  then show "src \<le> align_skip f addr str src" "align_skip f addr str src \<le> length str"
    "\<forall>i. src \<le> i \<and> i < align_skip f addr str src \<longrightarrow> f (str ! i)" by blast+
qed

lemma ascii_skip_range:
  "src \<le> length str \<Longrightarrow> src \<le> ascii_skip str src \<and> ascii_skip str src \<le> length str
     \<and> (\<forall>i. src \<le> i \<and> i < ascii_skip str src \<longrightarrow> str ! i < 0x80)"
proof (induction str src rule: ascii_skip.induct)
  case (1 str src)
  show ?case
  proof (cases "src < length str \<and> str ! src < 0x80")
    case True
    then have "ascii_skip str src = ascii_skip str (src + 1)" by (subst ascii_skip.simps) simp
    moreover have "i = src \<or> src + 1 \<le> i" if "src \<le> i" for i using that by auto
    ultimately show ?thesis using 1 True by (simp, metis)
  next
    case False
    then have "ascii_skip str src = src" by (subst ascii_skip.simps) (simp only: if_False)
    then show ?thesis using 1(2) by (auto simp: not_less)
  qed
qed

lemma Tbl2_ascii: "Tbl2 c = 0 \<longleftrightarrow> c < 0x80"
proof -
  have "Tbl2 c = run_nth [(128, 0), (128, 1)] (unat c)"
    unfolding Tbl2_def utf8acceptnonsurrogates_fast_def by (rule nth_run_lengths) (use byte_less in simp)
  moreover have "unat c - 128 < 128" using byte_less[of c] by linarith
  ultimately show ?thesis by (auto simp: word_less_nat_alt)
qed

lemma high_bits:
  assumes "(load_le bs :: u32) AND 0x80808080 = 0" and "length bs = 4" and "i < 4"
  shows "bs ! i < 0x80"
proof -
  have "i = 0 \<or> i = 1 \<or> i = 2 \<or> i = 3" using assms(3) by auto
  then have b: "bit (0x80808080 :: u32) (8 * i + 7)" by auto
  have "\<not> bit ((load_le bs :: u32) AND 0x80808080) (8 * i + 7)" using assms(1) by simp
  then have "\<not> bit (load_le bs :: u32) (8 * i + 7)" using b by (simp add: bit_and_iff)
  then have "\<not> bit (bs ! i) 7" using assms(2,3) by (simp add: bit_load_le)
  then show ?thesis by (simp add: bit_7 word_less_nat_alt)
qed

lemma and_of_or: "(x OR y) AND m = 0 \<longleftrightarrow> x AND m = 0 \<and> y AND m = (0 :: 'a::len word)"
  by (metis bit.conj_disj_distrib2 or_eq_0_iff)

lemma slice_range:
  assumes "\<forall>c\<in>set (slice src k str). P c" and "src + k \<le> length str" and "src \<le> i" and "i < src + k"
  shows "P (str ! i)"
proof -
  have "slice src k str ! (i - src) = str ! i" using assms by (simp add: slice_def)
  then show ?thesis using assms nth_mem[of "i - src" "slice src k str"] by simp
qed

lemma set_slice_4:
  assumes "\<And>i. i < 4 \<Longrightarrow> bs ! i < (0x80 :: byte)" and "length bs = 4"
  shows "\<forall>c\<in>set bs. c < 0x80"
  using assms by (auto simp: in_set_conv_nth)

lemma group_step_ascii:
  assumes "src + 8 \<le> length str"
  shows "group_step str src = Some src' \<Longrightarrow>
      src \<le> src' \<and> src' \<le> length str \<and> (\<forall>i. src \<le> i \<and> i < src' \<longrightarrow> str ! i < 0x80)"
    and "group_step str src = None \<Longrightarrow> \<forall>i. src \<le> i \<and> i < src + 8 \<longrightarrow> str ! i < 0x80"
proof -
  have l: "length (slice src 4 str) = 4" "length (slice (src + 4) 4 str) = 4" using assms by simp_all
  have first: "\<forall>i. src \<le> i \<and> i < src + 4 \<longrightarrow> str ! i < 0x80" if "\<forall>c\<in>set (slice src 4 str). c < 0x80"
    using slice_range[OF that] assms by simp
  have second: "\<forall>i. src + 4 \<le> i \<and> i < src + 4 + 4 \<longrightarrow> str ! i < 0x80" if "\<forall>c\<in>set (slice (src + 4) 4 str). c < 0x80"
    using slice_range[OF that] assms by simp
  have split: "i < src + 4 \<or> src + 4 \<le> i" for i by auto
  {
    assume "group_step str src = Some src'"
    then have "src' = src \<or> src' = src + 4 \<and> (\<forall>c\<in>set (slice src 4 str). c < 0x80)"
      by (auto simp: group_step_def Let_def list_ex_iff Tbl2_ascii split: if_splits)
    then show "src \<le> src' \<and> src' \<le> length str \<and> (\<forall>i. src \<le> i \<and> i < src' \<longrightarrow> str ! i < 0x80)"
      using first assms by auto
  }
  assume "group_step str src = None"
  then have "(\<forall>c\<in>set (slice src 4 str). c < 0x80) \<and> (\<forall>c\<in>set (slice (src + 4) 4 str). c < 0x80)
      \<or> ((load_le (slice src 4 str) :: u32) - losub OR (load_le (slice src 4 str) + hiadd) OR
         (load_le (slice (src + 4) 4 str) - losub) OR (load_le (slice (src + 4) 4 str) + hiadd)) AND 0x80808080 = 0"
    unfolding group_step_def Let_def list_ex_iff Tbl2_ascii
    by (auto split: if_splits)
  then have "(\<forall>c\<in>set (slice src 4 str). c < 0x80) \<and> (\<forall>c\<in>set (slice (src + 4) 4 str). c < 0x80)"
  proof
    assume "((load_le (slice src 4 str) :: u32) - losub OR (load_le (slice src 4 str) + hiadd) OR
         (load_le (slice (src + 4) 4 str) - losub) OR (load_le (slice (src + 4) 4 str) + hiadd)) AND 0x80808080 = 0"
    then have "(load_le (slice src 4 str) :: u32) AND 0x80808080 = 0"
      "(load_le (slice (src + 4) 4 str) :: u32) AND 0x80808080 = 0"
      unfolding and_of_or hiadd_def by simp_all
    then show ?thesis using set_slice_4 high_bits l by meson
  qed
  then show "\<forall>i. src \<le> i \<and> i < src + 8 \<longrightarrow> str ! i < 0x80"
    using first second split by (metis add.assoc numeral_Bit0)
qed

lemma ascii_groups_range:
  "src \<le> length str \<Longrightarrow> src \<le> ascii_groups str src \<and> ascii_groups str src \<le> length str
     \<and> (\<forall>i. src \<le> i \<and> i < ascii_groups str src \<longrightarrow> str ! i < 0x80)"
proof (induction str src rule: ascii_groups.induct)
  case (1 str src)
  show ?case
  proof (cases "src < srclimit8 str
      \<and> ((load_le (slice src 4 str) :: u32) OR load_le (slice (src + 4) 4 str)) AND 0x80808080 = 0")
    case True
    then have st: "ascii_groups str src = ascii_groups str (src + 8)" by (subst ascii_groups.simps) (rule if_P)
    have l8: "src + 8 \<le> length str" using True by (auto simp: srclimit8_def split: if_splits)
    have "load_le (slice src 4 str) AND (0x80808080 :: u32) = 0" "load_le (slice (src + 4) 4 str) AND (0x80808080 :: u32) = 0"
      using True unfolding and_of_or by simp_all
    then have "\<forall>c\<in>set (slice src 4 str). c < 0x80" "\<forall>c\<in>set (slice (src + 4) 4 str). c < 0x80"
      using set_slice_4[of "slice src 4 str"] set_slice_4[of "slice (src + 4) 4 str"] high_bits l8 by simp_all
    then have "\<forall>i. src \<le> i \<and> i < src + 4 \<longrightarrow> str ! i < 0x80" "\<forall>i. src + 4 \<le> i \<and> i < src + 4 + 4 \<longrightarrow> str ! i < 0x80"
      using slice_range[of src 4 str "\<lambda>c. c < 0x80"] slice_range[of "src + 4" 4 str "\<lambda>c. c < 0x80"] l8 by auto
    moreover have "i < src + 4 \<or> src + 4 \<le> i \<and> i < src + 4 + 4 \<or> src + 8 \<le> i" for i by auto
    ultimately show ?thesis using 1(1)[OF True l8] unfolding st by (meson add_leD1 le_trans)
  next
    case False
    then have "ascii_groups str src = src" by (subst ascii_groups.simps) (simp only: if_False)
    then show ?thesis using 1(2) by (auto simp: not_less)
  qed
qed

lemma group_skip_range:
  "src \<le> length str \<Longrightarrow> src \<le> group_skip str src \<and> group_skip str src \<le> length str
     \<and> (\<forall>i. src \<le> i \<and> i < group_skip str src \<longrightarrow> str ! i < 0x80)"
proof (induction str src rule: group_skip.induct)
  case (1 str src)
  show ?case
  proof (cases "src < srclimit8 str")
    case True
    then have l8: "src + 8 \<le> length str" by (auto simp: srclimit8_def split: if_splits)
    show ?thesis
    proof (cases "group_step str src")
      case None
      then have st: "group_skip str src = group_skip str (src + 8)" using True by (subst group_skip.simps) simp
      have "i < src + 8 \<or> src + 8 \<le> i" for i by auto
      then show ?thesis using group_step_ascii(2)[OF l8 None] 1(1)[OF True None l8] unfolding st by (meson add_leD1 le_trans)
    next
      case (Some src')
      then have "group_skip str src = src'" using True by (subst group_skip.simps) simp
      then show ?thesis using group_step_ascii(1)[OF l8 Some] by simp
    qed
  next
    case False
    then have "group_skip str src = src" by (subst group_skip.simps) (simp only: if_False)
    then show ?thesis using 1(2) by (auto simp: not_less)
  qed
qed

text \<open>Skipping ASCII bytes keeps the scan in its first state.\<close>

lemma byte_scan_ascii:
  assumes "p \<le> n" and "n \<le> length str" and "\<forall>i. p \<le> i \<and> i < n \<longrightarrow> str ! i < 0x80"
  shows "byte_scan str 0 0 p = byte_scan str 0 0 n"
  using assms
proof (induction rule: inc_induct)
  case (step m)
  then have "entry 0 (str ! m) = 0" by (simp add: entry_rows word_less_nat_alt Let_def)
  then show ?case using byte_scan_step[of m str 0 0] step by simp
qed simp

lemma UTF8GenericScan_scan_end: "UTF8GenericScan addr str = scan_end str (byte_scan str 0 0 0)"
proof (cases "str = []")
  case True
  then show ?thesis by (simp add: UTF8GenericScan_def byte_scan_end scan_end_def kExitOK_def)
next
  case False
  define a where "a = align_skip (\<lambda>c. Tbl2 c = 0) addr str 0"
  define g where "g = (if (addr + a) mod 8 = 0 then group_skip str a else a)"
  have a: "a \<le> length str" "\<forall>i. 0 \<le> i \<and> i < a \<longrightarrow> str ! i < 0x80"
    using align_skip_range[of 0 str "\<lambda>c. Tbl2 c = 0" addr] by (auto simp: a_def Tbl2_ascii)
  have "a \<le> g \<and> g \<le> length str \<and> (\<forall>i. a \<le> i \<and> i < g \<longrightarrow> str ! i < 0x80)"
    using group_skip_range[OF a(1)] a(1) by (auto simp: g_def)
  then have "byte_scan str 0 0 0 = byte_scan str 0 0 g"
    using byte_scan_ascii[of 0 a str] byte_scan_ascii[of a g str] a by simp
  then show ?thesis
    using False unfolding UTF8GenericScan_def a_def[symmetric] g_def[symmetric] Let_def
    by (simp add: scan_end_def kExitIllegalStructure_def kExitOK_def split: prod.split)
qed

text \<open>The exit reasons of the scan: kExitDoAgain is none of them.\<close>

lemma scan_never_again: "fst (UTF8GenericScan addr str) \<in> {kExitIllegalStructure, kExitOK, kExitReject}"
  using scan_characters[of 0 str]
  by (auto simp: UTF8GenericScan_scan_end kExitIllegalStructure_def kExitOK_def kExitReject_def)

lemma ascii_encoding:
  assumes "\<forall>i<n. s ! i < (0x80 :: byte)" and "n \<le> length s"
  shows "list_all scalar_value (map unat (take n s)) \<and> encode_all (map unat (take n s)) = take n s"
  using assms
proof (induction n arbitrary: s)
  case (Suc n)
  then obtain b s' where s: "s = b # s'" by (cases s) auto
  then have "b < 0x80" "\<forall>i<n. s' ! i < 0x80" "n \<le> length s'" using Suc by force+
  then show ?case using Suc(1)[of s'] s
    by (simp add: scalar_value_def encode_def word_less_nat_alt)
qed simp

lemma FastAscii_longest:
  "longest_prefix s (snd (UTF8GenericScanFastAscii addr s))"
proof (cases "s = []")
  case True
  have "\<not> prefix w []" if "character w" for w using that by (auto simp: character_def)
  then show ?thesis
    using longest_prefixI[of "[]" s "[]"] True by (simp add: UTF8GenericScanFastAscii_def)
next
  case False
  define a where "a = align_skip (\<lambda>c. c < 0x80) addr s 0"
  define g where "g = (if (addr + a) mod 8 = 0 then ascii_groups s a else a)"
  define n where "n = ascii_skip s g"
  have a: "a \<le> length s" "\<forall>i. i < a \<longrightarrow> s ! i < 0x80"
    using align_skip_range[of 0 s "\<lambda>c. c < 0x80" addr] by (auto simp: a_def)
  have g: "a \<le> g \<and> g \<le> length s \<and> (\<forall>i. a \<le> i \<and> i < g \<longrightarrow> s ! i < 0x80)"
    using ascii_groups_range[OF a(1)] a(1) by (auto simp: g_def)
  have n: "g \<le> n \<and> n \<le> length s \<and> (\<forall>i. g \<le> i \<and> i < n \<longrightarrow> s ! i < 0x80)"
    using ascii_skip_range[of g s] g by (auto simp: n_def)
  have "\<forall>i<n. s ! i < 0x80" using a(2) g n by (meson not_less)
  note asc = ascii_encoding[OF this]
  obtain cs r e where *: "list_all scalar_value cs" "drop n s = encode_all cs @ r" "\<forall>w. character w \<longrightarrow> \<not> prefix w r"
    "scan_end (drop n s) (byte_scan (drop n s) 0 0 0) = (e, length (encode_all cs))"
    using scan_characters[of 0 "drop n s"] by auto
  have "snd (UTF8GenericScanFastAscii addr s) = n + length (encode_all cs)"
    using False *(4) unfolding UTF8GenericScanFastAscii_def a_def[symmetric] g_def[symmetric] n_def[symmetric] Let_def
    by (simp add: UTF8GenericScan_scan_end)
  moreover have "length (encode_all (map unat (take n s) @ cs)) = n + length (encode_all cs)"
    using asc n by (simp add: encode_all_def)
  moreover have "s = encode_all (map unat (take n s) @ cs) @ r"
    using asc n *(2) by (simp add: encode_all_def) (metis append_take_drop_id)
  ultimately show ?thesis
    using longest_prefixI[of "map unat (take n s) @ cs" s r] asc n *(1,3) by simp
qed

lemma UTF8SpnStructurallyValid_longest: "longest_prefix s (UTF8SpnStructurallyValid addr s)"
  unfolding UTF8SpnStructurallyValid_def by (rule FastAscii_longest)

lemma IsStructurallyValidUTF8_iff: "IsStructurallyValidUTF8 addr s \<longleftrightarrow> well_formed s"
  using FastAscii_longest[of s addr]
  by (auto simp: IsStructurallyValidUTF8_def longest_prefix_def split: prod.splits)

section \<open>Coercion\<close>

lemma well_formed_append: "well_formed a \<Longrightarrow> well_formed b \<Longrightarrow> well_formed (a @ b)"
  unfolding well_formed_def by (metis encode_all_def concat_append list_all_append map_append)

lemma well_formed_ascii: "c < 0x80 \<Longrightarrow> well_formed [c]"
  unfolding well_formed_def using ascii_encoding[of 1 "[c]"] by (intro exI[of _ "[unat c]"]) simp

lemma spn_le: "UTF8SpnStructurallyValid addr s \<le> length s"
  and spn_well_formed: "well_formed (take (UTF8SpnStructurallyValid addr s) s)"
  using UTF8SpnStructurallyValid_longest[of s addr] by (auto simp: longest_prefix_def)

lemma coerce_loop_ok:
  "c < 0x80 \<Longrightarrow> well_formed (coerce_loop addr c src) \<and> length (coerce_loop addr c src) = length src"
proof (induction addr c src rule: coerce_loop.induct)
  case (1 addr c src)
  show ?case
  proof (cases src)
    case Nil
    have "well_formed []" unfolding well_formed_def by (rule exI[of _ "[]"]) simp
    then show ?thesis using Nil by (simp add: coerce_loop.simps)
  next
    case (Cons b str2)
    let ?n = "UTF8SpnStructurallyValid (addr + 1) str2"
    have st: "coerce_loop addr c src = [c] @ take ?n str2 @ coerce_loop (addr + 1 + ?n) c (drop ?n str2)"
      using Cons by (subst coerce_loop.simps) (simp add: Let_def)
    note IH = 1(1)[OF Cons refl 1(2)]
    have "well_formed ([c] @ take ?n str2 @ coerce_loop (addr + 1 + ?n) c (drop ?n str2))"
      using IH 1(2) by (intro well_formed_append well_formed_ascii spn_well_formed) blast+
    then show ?thesis unfolding st using IH spn_le[of "addr + 1" str2] Cons by simp
  qed
qed

lemma coerce_ok:
  assumes "c < 0x80"
  shows "well_formed (UTF8CoerceToStructurallyValid addr s c)"
    and "length (UTF8CoerceToStructurallyValid addr s c) = length s"
  using coerce_loop_ok[OF assms] spn_le[of addr s] spn_well_formed[of addr s]
  by (auto simp: UTF8CoerceToStructurallyValid_def Let_def intro!: well_formed_append split: if_splits)

end
