(* ===== verification/Proto_Roundtrip.thy ===== *)
theory Proto_Roundtrip
  imports Proto_Messages Proto_Utf8_Spec
begin

text \<open>
  What the generated messages promise: the bytes a serializer writes are as many as ByteSizeLong
  said, and a parser that reads them merges the message into the one it parses. The locale
  wire_message is that contract; the templates of the packet handlers rest on it, and every message
  of the protocol interprets it.
\<close>

section \<open>The contract\<close>

text \<open>content is the message without its cached sizes.\<close>

locale wire_message =
  fixes new_m :: "'m"
    and parse :: "'m \<Rightarrow> byte list \<Rightarrow> ('m \<times> parse_end) option"
    and serialize :: "'m \<Rightarrow> byte list"
    and byte_size :: "'m \<Rightarrow> nat \<times> 'm"
    and merge :: "'m \<Rightarrow> 'm \<Rightarrow> 'm"
    and valid :: "'m \<Rightarrow> bool"
    and content :: "'m \<Rightarrow> 'd"
  assumes size_law: "valid m \<Longrightarrow> length (serialize (snd (byte_size m))) = fst (byte_size m)"
    and parse_law: "valid m \<Longrightarrow> parse m0 (serialize (snd (byte_size m))) = Some (merge m0 m, At_limit)"
    and merge_new: "content (merge new_m m) = content m"
    and content_sized: "content (snd (byte_size m)) = content m"
    and size_again: "byte_size (snd (byte_size m)) = byte_size m"
begin

lemma roundtrip:
  assumes "valid m"
  shows "\<exists>m'. parse new_m (serialize (snd (byte_size m))) = Some (m', At_limit) \<and> content m' = content m"
  using parse_law[OF assms] merge_new by blast

end

section \<open>Fields\<close>

lemma tag_byte: "unat t < 128 \<Longrightarrow> WriteVarint32ToArray t = [ucast t]"
  by (simp add: WriteVarint32ToArray_def UnsafeVarint_venc unsigned_ucast_eq take_bit_nat_eq_self venc_small)

lemma parse_loop_end: "parse_loop d sw un su m [] = Some (m, At_limit)"
  by (simp add: parse_loop.simps)

lemma parse_loop_field:
  assumes "unat b < 128" and "sw m (ucast b) (body @ rest) = Field m' (length body)"
  shows "parse_loop d sw un su m (b # body @ rest) = parse_loop d sw un su m' rest"
  using assms by (subst parse_loop.simps) (simp add: ReadTag_small Let_def)

lemma ucast_up_down: "(ucast (ucast (e :: byte) :: u32) :: byte) = e"
proof -
  have lt: "unat e < 256" using unsigned_less[of e, where 'a = nat] by simp
  then have "unat (ucast e :: u32) = unat e" by (simp add: unsigned_ucast_eq take_bit_nat_eq_self)
  then have "unat (ucast (ucast e :: u32) :: byte) = unat e"
    unfolding unat_ucast_byte using lt by simp
  then show ?thesis by (simp only: word_unat_eq_iff)
qed

lemma varint_field_venc:
  "n < 2 ^ 64 \<Longrightarrow> varint_field e (ucast e) upd (venc n @ rest) = Field (upd (word_of_nat n)) (length (venc n))"
  by (simp add: varint_field_def ucast_up_down VarintParse_venc)

definition string_ok :: "byte list \<Rightarrow> bool" where
  "string_ok s \<longleftrightarrow> well_formed s \<and> length s \<le> max_size"

lemma string_field_venc:
  "string_ok s \<Longrightarrow>
     string_field L e (ucast e) upd ((venc (length s) @ s) @ rest) = Field (upd s) (length (venc (length s) @ s))"
  by (simp add: string_field_def ucast_up_down string_ok_def InlineGreedyStringParser_venc VerifyUTF8_def
      IsStructurallyValidUTF8_iff)

text \<open>An enum's value is written as the varint of its sign extension.\<close>

definition enum64 :: "u32 \<Rightarrow> u64" where
  "enum64 v = word_of_int (sint v)"

lemma uint_enum64: "uint (enum64 v) = sint v mod 2 ^ 64"
  unfolding enum64_def by (subst uint_word_of_int) simp

lemma enum64_back: "ucast (enum64 v) = v"
proof -
  have "uint (ucast (enum64 v) :: u32) = uint (enum64 v) mod 2 ^ 32"
    by (simp only: unsigned_ucast_eq take_bit_eq_mod) simp
  also have "\<dots> = sint v mod 2 ^ 32" unfolding uint_enum64 by (simp add: mod_mod_cancel)
  also have "\<dots> = uint (word_of_int (sint v) :: u32)" by (subst uint_word_of_int) simp
  also have "(word_of_int (sint v) :: u32) = v" by simp
  finally show ?thesis by (simp only: word_uint_eq_iff)
qed

lemma enum_size: "VarintSize32SignExtended v = length (venc (unat (enum64 v)))"
proof (cases "sint v < 0")
  case True
  have r: "- (2 ^ 31) \<le> sint v" using sint_ge[of v] by simp
  have "uint (enum64 v) = sint v + 2 ^ 64"
  proof -
    have "sint v mod 2 ^ 64 = (sint v + 2 ^ 64) mod 2 ^ 64" by simp
    also have "\<dots> = sint v + 2 ^ 64" using True r by (intro mod_pos_pos_trivial) auto
    finally show ?thesis unfolding uint_enum64 .
  qed
  then have "int (unat (enum64 v)) = sint v + 2 ^ 64" by simp
  then have u: "unat (enum64 v) = nat (sint v + 2 ^ 64)" by linarith
  have "2 ^ 63 \<le> unat (enum64 v)" unfolding u using r by simp
  moreover have "unat (enum64 v) < 2 ^ Suc 63" unfolding u using True r by simp
  ultimately have "length (venc (unat (enum64 v))) = 63 div 7 + 1" by (rule length_venc_log)
  then show ?thesis using True by (simp add: VarintSize32SignExtended_def)
next
  case False
  have "sint v < 2 ^ 31" using sint_lt[of v] by simp
  then have "uint (enum64 v) = sint v" using False
    unfolding uint_enum64 by simp
  moreover have "uint v = sint v"
  proof -
    have "uint (word_of_int (sint v) :: u32) = sint v mod 2 ^ 32" by (subst uint_word_of_int) simp
    moreover have "sint v mod 2 ^ 32 = sint v" using False sint_lt[of v] by (intro mod_pos_pos_trivial) simp_all
    ultimately show ?thesis by simp
  qed
  ultimately have "unat (enum64 v) = unat v" by (metis unat_eq_nat_uint)
  then show ?thesis using False by (simp add: VarintSize32SignExtended_def VarintSize32_venc)
qed

text \<open>The bytes of a field, as a tag byte and a varint or a length and a string.\<close>

lemma write_fields:
  "WriteUInt64ToArray 1 v = 8 # venc (unat v)"
  "WriteBoolToArray 1 True = [8, 1]"
  "WriteEnumToArray 3 w = 24 # venc (unat (enum64 w))"
  by (simp_all add: WriteUInt64ToArray_def WriteBoolToArray_def WriteEnumToArray_def MakeTag_def tag_byte
      UnsafeVarint_venc WriteVarint32SignExtendedToArray_def enum64_def)

lemma write_string:
  assumes "length s \<le> max_size"
  shows "WriteStringMaybeAliased L 1 s = 10 # venc (length s) @ s"
    and "WriteStringMaybeAliased L 2 s = 18 # venc (length s) @ s"
  using WriteStringMaybeAliased_venc[OF assms] by (simp_all add: venc_small)

text \<open>One step of a parser over a field of each kind; the premise is the row of its switch.\<close>

lemma parse_varint:
  assumes "unat b < 128" and "\<And>p. sw m (ucast b) p = varint_field b (ucast b) upd p"
  shows "parse_loop d sw un su m (b # venc (unat (v :: u64)) @ rest) = parse_loop d sw un su (upd v) rest"
  using parse_loop_field[OF assms(1), of sw m "venc (unat v)" rest "upd v"] assms(2)
    varint_field_venc[OF unat_u64, of b upd v rest] by simp

lemma parse_string:
  assumes "unat b < 128" and "string_ok s" and "\<And>p. sw m (ucast b) p = string_field L b (ucast b) upd p"
  shows "parse_loop d sw un su m (b # venc (length s) @ s @ rest) = parse_loop d sw un su (upd s) rest"
  using parse_loop_field[OF assms(1), of sw m "venc (length s) @ s" rest "upd s"] assms(3)
    string_field_venc[OF assms(2), of L b upd rest] by simp

text \<open>The unknown fields at the end of a message.\<close>

definition unknown_ok :: "nat \<Rightarrow> u32 set \<Rightarrow> UnknownFieldSet \<Rightarrow> bool" where
  "unknown_ok d known u \<longleftrightarrow> fields_ok d u \<and> foreign known u"

lemma unknown_tail_eq: "unknown_tail L u = InternalSerializeUnknownFieldsToArray L u"
  by (simp add: unknown_tail_def)

lemma final_size_eq:
  "unknown_ok d known u \<Longrightarrow> final_size u n = n + length (unknown_tail L u)"
  using unknown_fields_size[of d u L] by (simp add: final_size_def unknown_tail_eq unknown_ok_def)

lemma parse_tail:
  assumes "unknown_ok d known u"
    and "\<And>u m. un (su u m) = u" and "\<And>u v m. su u (su v m) = su u m" and "\<And>m. su (un m) m = m"
    and "\<And>m tag p. drop_bit 3 tag \<notin> known \<Longrightarrow> sw m tag p = Unusual"
  shows "parse_loop d sw un su m (unknown_tail L u) = Some (su (un m @ u) m, At_limit)"
  using parse_loop_unknown[of d u known un su sw m L "[]"] assms
  by (simp add: unknown_ok_def unknown_tail_eq parse_loop_end)

text \<open>Such fields do not start with the tag of a player, so that the loop over players ends before them.\<close>

lemma venc_head: "hd (venc n) = 18 \<Longrightarrow> n = 18"
proof -
  assume h: "hd (venc n) = 18"
  have "n < 128"
  proof (rule ccontr)
    assume "\<not> n < 128"
    then have "unat (hd (venc n)) = n mod 128 + 128" by (simp add: venc_step)
    then show False using h by simp
  qed
  then have "unat (hd (venc n)) = n" by (simp add: venc_small unat_of_byte)
  then show "n = 18" using h by simp
qed

lemma foreign_tail:
  assumes "fields_ok d u \<and> foreign known u" and "2 \<in> known"
  shows "\<not> ExpectTag18 (unknown_tail L u)"
proof (cases u)
  case Nil
  then show ?thesis by (simp add: unknown_tail_def ExpectTag18_def)
next
  case (Cons f fs)
  have ok: "fields_ok d (f # fs)" and n: "unknown_number f \<noteq> 2"
    using assms Cons by (auto simp: foreign_def)
  note t = field_tag_parts(1)[OF fields_ok_Cons(1)[OF ok]]
  have "unat (field_tag f) \<noteq> 18"
  proof
    assume "unat (field_tag f) = 18"
    then have "field_tag f = 18" by (simp add: word_unat_eq_iff)
    then show False using t n by simp
  qed
  then have "hd (venc (unat (field_tag f))) \<noteq> 18" using venc_head by blast
  then show ?thesis
    unfolding unknown_tail_eq Cons serialize_field[OF ok] ExpectTag18_def by (simp add: hd_append)
qed

section \<open>Player\<close>

definition Player_valid :: "nat \<Rightarrow> Player \<Rightarrow> bool" where
  "Player_valid d m \<longleftrightarrow> string_ok (pl_name m) \<and> unknown_ok d {1, 2, 3} (pl_unknown m)
     \<and> fst (Player_ByteSizeLong m) \<le> max_size"

definition Player_content :: "Player \<Rightarrow> Player" where
  "Player_content m = m\<lparr>pl_cached_size := 0\<rparr>"

lemma Player_size:
  assumes "Player_valid d m"
  shows "length (Player_InternalSerialize L m) = fst (Player_ByteSizeLong m)"
  using assms final_size_eq[of d "{1, 2, 3}" "pl_unknown m" _ L]
  by (auto simp: Player_InternalSerialize_def Player_ByteSizeLong_def Player_valid_def string_ok_def Let_def
      write_fields write_string VarintSize64_venc enum_size LengthDelimitedSize_venc)

lemma Player_switch_rows:
  "Player_switch L m 8 p = varint_field 8 8 (\<lambda>val. m\<lparr>pl_id := val\<rparr>) p"
  "Player_switch L m 18 p = string_field L 18 18 (\<lambda>str. m\<lparr>pl_name := str\<rparr>) p"
  "Player_switch L m 24 p = varint_field 24 24 (\<lambda>val. m\<lparr>pl_playertype := ucast val\<rparr>) p"
  "drop_bit 3 tag \<notin> {1, 2, 3} \<Longrightarrow> Player_switch L m tag p = Unusual"
  by (simp_all add: Player_switch_def)

lemma Player_parse_merge:
  assumes v: "Player_valid d m"
  shows "Player_InternalParse L d m0 (Player_InternalSerialize L m) = Some (Player_MergeFrom m0 m, At_limit)"
proof -
  let ?P = "parse_loop d (Player_switch L) pl_unknown (\<lambda>u. pl_unknown_update (\<lambda>_. u))"
  have id: "?P k ((if pl_id m \<noteq> 0 then WriteUInt64ToArray 1 (pl_id m) else []) @ r)
      = ?P (if pl_id m \<noteq> 0 then k\<lparr>pl_id := pl_id m\<rparr> else k) r" for k r
    by (simp add: write_fields parse_varint[where upd = "\<lambda>val. k\<lparr>pl_id := val\<rparr>"] Player_switch_rows)
  have name: "?P k ((if pl_name m \<noteq> [] then WriteStringMaybeAliased L 2 (pl_name m) else []) @ r)
      = ?P (if pl_name m \<noteq> [] then k\<lparr>pl_name := pl_name m\<rparr> else k) r" for k r
    using v by (auto simp: Player_valid_def string_ok_def write_string Player_switch_rows
        parse_string[where upd = "\<lambda>str. k\<lparr>pl_name := str\<rparr>" and L = L])
  have type: "?P k ((if pl_playertype m \<noteq> 0 then WriteEnumToArray 3 (pl_playertype m) else []) @ r)
      = ?P (if pl_playertype m \<noteq> 0 then k\<lparr>pl_playertype := pl_playertype m\<rparr> else k) r" for k r
    by (simp add: write_fields Player_switch_rows enum64_back
        parse_varint[where upd = "\<lambda>val. k\<lparr>pl_playertype := ucast val\<rparr>"])
  have tail: "?P k (unknown_tail L (pl_unknown m))
      = Some (k\<lparr>pl_unknown := pl_unknown k @ pl_unknown m\<rparr>, At_limit)" for k
    by (rule parse_tail[where known = "{1, 2, 3}"]) (use v in \<open>simp_all add: Player_valid_def Player_switch_rows\<close>)
  show ?thesis
    unfolding Player_InternalParse_def Player_InternalSerialize_def id name type tail
    by (simp add: Player_MergeFrom_def UnknownFieldSet_MergeFrom_def Let_def)
qed

section \<open>S_LOGIN\<close>

definition S_LOGIN_valid :: "nat \<Rightarrow> S_LOGIN \<Rightarrow> bool" where
  "S_LOGIN_valid d m \<longleftrightarrow> 0 < d \<and> (\<forall>pl\<in>set (sl_players m). Player_valid (d - 1) pl)
     \<and> unknown_ok d {1, 2} (sl_unknown m)"

definition S_LOGIN_content :: "S_LOGIN \<Rightarrow> S_LOGIN" where
  "S_LOGIN_content m = m\<lparr>sl_cached_size := 0, sl_players := map Player_content (sl_players m)\<rparr>"

text \<open>A player inside the message: its length and its bytes, after the tag.\<close>

definition player_body :: "wire_env \<Rightarrow> Player \<Rightarrow> byte list" where
  "player_body L pl = venc (length (Player_InternalSerialize L pl)) @ Player_InternalSerialize L pl"

lemma sized_player:
  "Player_InternalSerialize L (snd (Player_ByteSizeLong pl)) = Player_InternalSerialize L pl"
  "pl_cached_size (snd (Player_ByteSizeLong pl)) = word_of_nat (fst (Player_ByteSizeLong pl))"
  "Player_content (snd (Player_ByteSizeLong pl)) = Player_content pl"
  "Player_ByteSizeLong (snd (Player_ByteSizeLong pl)) = Player_ByteSizeLong pl"
  by (simp_all add: Player_InternalSerialize_def Player_ByteSizeLong_def Player_content_def Let_def)

lemma write_player:
  assumes "Player_valid d pl"
  shows "InternalWriteMessage 2 (pl_cached_size (snd (Player_ByteSizeLong pl)))
      (Player_InternalSerialize L (snd (Player_ByteSizeLong pl))) = 18 # player_body L pl"
proof -
  have "fst (Player_ByteSizeLong pl) \<le> max_size" using assms by (simp add: Player_valid_def)
  then show ?thesis
    using Player_size[OF assms, of L] max_size_u32
    by (simp add: InternalWriteMessage_def sized_player WriteVarint32ToArrayOutOfLine_venc player_body_def
        MakeTag_def tag_byte)
qed

lemma parse_player:
  assumes "Player_valid (d - 1) pl" and "0 < d"
  shows "ParseMessage d (Player_InternalParse L) m (player_body L pl @ rest)
    = Some (Player_MergeFrom m pl, length (player_body L pl))"
proof -
  have "length (Player_InternalSerialize L pl) \<le> max_size"
    using assms(1) Player_size[OF assms(1), of L] by (simp add: Player_valid_def)
  from ReadSize_venc[OF this, of "Player_InternalSerialize L pl @ rest"] show ?thesis
    using assms(2) Player_parse_merge[OF assms(1)] by (simp add: ParseMessage_def player_body_def slice_def)
qed

lemma player_body_nonempty [simp]: "player_body L pl \<noteq> []"
  by (simp add: player_body_def)

lemma parse_players:
  assumes "0 < d" and "\<forall>q\<in>set (pl # ps). Player_valid (d - 1) q" and "\<not> ExpectTag18 r"
  shows "S_LOGIN_players L d m (player_body L pl @ concat (map (\<lambda>q. 18 # player_body L q) ps) @ r)
    = Some (m\<lparr>sl_players := sl_players m @ map (Player_MergeFrom Player_new) (pl # ps)\<rparr>,
        length (player_body L pl @ concat (map (\<lambda>q. 18 # player_body L q) ps)))"
  using assms(2)
proof (induction ps arbitrary: pl m)
  case Nil
  then have "Player_valid (d - 1) pl" by simp
  then show ?case
    using parse_player[OF _ assms(1), of pl L Player_new r] assms(3) by (subst S_LOGIN_players.simps) (simp add: Let_def)
next
  case (Cons q qs)
  let ?rest = "concat (map (\<lambda>q. 18 # player_body L q) (q # qs)) @ r"
  have "Player_valid (d - 1) pl" using Cons.prems by simp
  note here = parse_player[OF this assms(1), of L Player_new ?rest]
  show ?case
    using Cons.IH[of q "m\<lparr>sl_players := sl_players m @ [Player_MergeFrom Player_new pl]\<rparr>"] Cons.prems here
    by (subst S_LOGIN_players.simps) (simp add: Let_def ExpectTag18_def)
qed

lemma S_LOGIN_switch_rows:
  "S_LOGIN_switch L d m 8 p = varint_field 8 8 (\<lambda>val. m\<lparr>sl_success := val \<noteq> 0\<rparr>) p"
  "S_LOGIN_switch L d m 18 p = (case S_LOGIN_players L d m p of None \<Rightarrow> Failure | Some (m', k) \<Rightarrow> Field m' k)"
  "drop_bit 3 tag \<notin> {1, 2} \<Longrightarrow> S_LOGIN_switch L d m tag p = Unusual"
  by (simp_all add: S_LOGIN_switch_def)

lemma S_LOGIN_bytes:
  assumes "S_LOGIN_valid d m"
  shows "S_LOGIN_InternalSerialize L (snd (S_LOGIN_ByteSizeLong m))
    = (if sl_success m then [8, 1] else []) @ concat (map (\<lambda>q. 18 # player_body L q) (sl_players m))
      @ unknown_tail L (sl_unknown m)"
proof -
  have "concat (map ((\<lambda>pl. InternalWriteMessage 2 (pl_cached_size pl) (Player_InternalSerialize L pl)) \<circ>
      (\<lambda>x. snd (Player_ByteSizeLong x))) (sl_players m)) = concat (map (\<lambda>q. 18 # player_body L q) (sl_players m))"
    using assms write_player
    by (intro arg_cong[where f = concat] map_cong) (auto simp: S_LOGIN_valid_def)
  then show ?thesis
    using assms
    by (simp add: S_LOGIN_InternalSerialize_def S_LOGIN_ByteSizeLong_def Let_def write_fields comp_def)
qed

lemma S_LOGIN_size:
  assumes "S_LOGIN_valid d m"
  shows "length (S_LOGIN_InternalSerialize L (snd (S_LOGIN_ByteSizeLong m))) = fst (S_LOGIN_ByteSizeLong m)"
proof -
  have "length (concat (map (\<lambda>q. 18 # player_body L q) ps))
      = length ps + (\<Sum>x\<leftarrow>map Player_ByteSizeLong ps. LengthDelimitedSize (fst x))"
    if "\<forall>q\<in>set ps. Player_valid (d - 1) q" for ps
    using that
  proof (induction ps)
    case (Cons q qs)
    then have v: "Player_valid (d - 1) q" by simp
    then have "fst (Player_ByteSizeLong q) \<le> max_size" by (simp add: Player_valid_def)
    then have "length (player_body L q) = LengthDelimitedSize (fst (Player_ByteSizeLong q))"
      using Player_size[OF v, of L] by (simp add: player_body_def LengthDelimitedSize_venc)
    then show ?case using Cons by simp
  qed simp
  then show ?thesis
    using assms final_size_eq[of d "{1, 2}" "sl_unknown m" _ L] unfolding S_LOGIN_bytes[OF assms]
    by (simp add: S_LOGIN_ByteSizeLong_def S_LOGIN_valid_def Let_def)
qed

lemma S_LOGIN_parse_merge:
  assumes v: "S_LOGIN_valid d m"
  shows "S_LOGIN_InternalParse L d m0 (S_LOGIN_InternalSerialize L (snd (S_LOGIN_ByteSizeLong m)))
    = Some (S_LOGIN_MergeFrom m0 m, At_limit)"
proof -
  let ?P = "parse_loop d (S_LOGIN_switch L d) sl_unknown (\<lambda>u. sl_unknown_update (\<lambda>_. u))"
  let ?t = "unknown_tail L (sl_unknown m)"
  have one: "venc (Suc 0) = [1]" by (simp add: venc_small)
  have success: "?P k ((if sl_success m then [8, 1] else []) @ r)
      = ?P (if sl_success m then k\<lparr>sl_success := True\<rparr> else k) r" for k r
    using parse_varint[where b = 8 and upd = "\<lambda>val. k\<lparr>sl_success := val \<noteq> 0\<rparr>" and v = 1, of
        "S_LOGIN_switch L d" k d sl_unknown "\<lambda>u. sl_unknown_update (\<lambda>_. u)" r]
    by (simp add: S_LOGIN_switch_rows one)
  have tail: "?P k ?t = Some (k\<lparr>sl_unknown := sl_unknown k @ sl_unknown m\<rparr>, At_limit)" for k
    by (rule parse_tail[where known = "{1, 2}"]) (use v in \<open>simp_all add: S_LOGIN_valid_def S_LOGIN_switch_rows\<close>)
  have players: "?P k (concat (map (\<lambda>q. 18 # player_body L q) ps) @ r)
      = ?P (k\<lparr>sl_players := sl_players k @ map (Player_MergeFrom Player_new) ps\<rparr>) r"
    if "\<forall>q\<in>set ps. Player_valid (d - 1) q" and "\<not> ExpectTag18 r" for k ps r
  proof (cases ps)
    case (Cons q qs)
    let ?body = "player_body L q @ concat (map (\<lambda>q. 18 # player_body L q) qs)"
    let ?k = "k\<lparr>sl_players := sl_players k @ map (Player_MergeFrom Player_new) ps\<rparr>"
    have "0 < d" using v by (simp add: S_LOGIN_valid_def)
    then have "S_LOGIN_switch L d k (ucast (18 :: byte)) (?body @ r) = Field ?k (length ?body)"
      using parse_players[of d q qs r L k] that Cons by (simp add: S_LOGIN_switch_rows)
    from parse_loop_field[where sw = "S_LOGIN_switch L d", OF _ this] show ?thesis
      using Cons by simp
  qed simp
  have "\<not> ExpectTag18 ?t" by (rule foreign_tail[of d _ "{1, 2}"]) (use v in \<open>simp_all add: S_LOGIN_valid_def unknown_ok_def\<close>)
  then show ?thesis
    using v players
    unfolding S_LOGIN_InternalParse_def S_LOGIN_bytes[OF v] success
    by (simp add: S_LOGIN_valid_def S_LOGIN_MergeFrom_def UnknownFieldSet_MergeFrom_def tail Let_def)
qed

section \<open>The messages with one or two plain fields\<close>

definition C_LOGIN_valid :: "nat \<Rightarrow> C_LOGIN \<Rightarrow> bool" where
  "C_LOGIN_valid d m \<longleftrightarrow> unknown_ok d {} (cl_unknown m)"

definition C_LOGIN_content :: "C_LOGIN \<Rightarrow> C_LOGIN" where
  "C_LOGIN_content m = m\<lparr>cl_cached_size := 0\<rparr>"

definition C_ENTER_GAME_valid :: "nat \<Rightarrow> C_ENTER_GAME \<Rightarrow> bool" where
  "C_ENTER_GAME_valid d m \<longleftrightarrow> unknown_ok d {1} (ce_unknown m)"

definition C_ENTER_GAME_content :: "C_ENTER_GAME \<Rightarrow> C_ENTER_GAME" where
  "C_ENTER_GAME_content m = m\<lparr>ce_cached_size := 0\<rparr>"

definition S_ENTER_GAME_valid :: "nat \<Rightarrow> S_ENTER_GAME \<Rightarrow> bool" where
  "S_ENTER_GAME_valid d m \<longleftrightarrow> unknown_ok d {1} (se_unknown m)"

definition S_ENTER_GAME_content :: "S_ENTER_GAME \<Rightarrow> S_ENTER_GAME" where
  "S_ENTER_GAME_content m = m\<lparr>se_cached_size := 0\<rparr>"

definition C_CHAT_valid :: "nat \<Rightarrow> C_CHAT \<Rightarrow> bool" where
  "C_CHAT_valid d m \<longleftrightarrow> string_ok (cc_msg m) \<and> unknown_ok d {1} (cc_unknown m)"

definition C_CHAT_content :: "C_CHAT \<Rightarrow> C_CHAT" where
  "C_CHAT_content m = m\<lparr>cc_cached_size := 0\<rparr>"

definition S_CHAT_valid :: "nat \<Rightarrow> S_CHAT \<Rightarrow> bool" where
  "S_CHAT_valid d m \<longleftrightarrow> string_ok (sc_msg m) \<and> unknown_ok d {1, 2} (sc_unknown m)"

definition S_CHAT_content :: "S_CHAT \<Rightarrow> S_CHAT" where
  "S_CHAT_content m = m\<lparr>sc_cached_size := 0\<rparr>"

lemmas valid_defs = C_LOGIN_valid_def C_ENTER_GAME_valid_def S_ENTER_GAME_valid_def C_CHAT_valid_def S_CHAT_valid_def
lemmas serialize_defs = C_LOGIN_InternalSerialize_def C_ENTER_GAME_InternalSerialize_def S_ENTER_GAME_InternalSerialize_def C_CHAT_InternalSerialize_def S_CHAT_InternalSerialize_def
lemmas size_defs = C_LOGIN_ByteSizeLong_def C_ENTER_GAME_ByteSizeLong_def S_ENTER_GAME_ByteSizeLong_def C_CHAT_ByteSizeLong_def S_CHAT_ByteSizeLong_def
lemmas merge_defs = Player_MergeFrom_def S_LOGIN_MergeFrom_def C_LOGIN_MergeFrom_def C_ENTER_GAME_MergeFrom_def S_ENTER_GAME_MergeFrom_def C_CHAT_MergeFrom_def S_CHAT_MergeFrom_def UnknownFieldSet_MergeFrom_def
lemmas new_defs = Player_new_def S_LOGIN_new_def C_LOGIN_new_def C_ENTER_GAME_new_def S_ENTER_GAME_new_def C_CHAT_new_def S_CHAT_new_def
lemmas content_defs = Player_content_def S_LOGIN_content_def C_LOGIN_content_def C_ENTER_GAME_content_def S_ENTER_GAME_content_def C_CHAT_content_def S_CHAT_content_def

lemma C_LOGIN_parse_merge:
  assumes v: "C_LOGIN_valid d m"
  shows "C_LOGIN_InternalParse L d m0 (C_LOGIN_InternalSerialize L m) = Some (C_LOGIN_MergeFrom m0 m, At_limit)"
proof -
  let ?P = "parse_loop d (C_LOGIN_switch L) cl_unknown (\<lambda>u. cl_unknown_update (\<lambda>_. u))"
  have tail: "?P k (unknown_tail L (cl_unknown m))
      = Some (k\<lparr>cl_unknown := cl_unknown k @ cl_unknown m\<rparr>, At_limit)" for k
    by (rule parse_tail[where known = "{}"]) (use v in \<open>simp_all add: valid_defs C_LOGIN_switch_def\<close>)
  show ?thesis
    unfolding C_LOGIN_InternalParse_def C_LOGIN_InternalSerialize_def  tail
    by (simp add: C_LOGIN_MergeFrom_def UnknownFieldSet_MergeFrom_def Let_def)
qed

lemma C_ENTER_GAME_parse_merge:
  assumes v: "C_ENTER_GAME_valid d m"
  shows "C_ENTER_GAME_InternalParse L d m0 (C_ENTER_GAME_InternalSerialize L m) = Some (C_ENTER_GAME_MergeFrom m0 m, At_limit)"
proof -
  let ?P = "parse_loop d (C_ENTER_GAME_switch L) ce_unknown (\<lambda>u. ce_unknown_update (\<lambda>_. u))"
  have playerindex: "?P k ((if ce_playerindex m \<noteq> 0 then WriteUInt64ToArray 1 (ce_playerindex m) else []) @ r)
      = ?P (if ce_playerindex m \<noteq> 0 then k\<lparr>ce_playerindex := ce_playerindex m\<rparr> else k) r" for k r
    by (simp add: write_fields parse_varint[where upd = "\<lambda>val. k\<lparr>ce_playerindex := val\<rparr>"] C_ENTER_GAME_switch_def)
  have tail: "?P k (unknown_tail L (ce_unknown m))
      = Some (k\<lparr>ce_unknown := ce_unknown k @ ce_unknown m\<rparr>, At_limit)" for k
    by (rule parse_tail[where known = "{1}"]) (use v in \<open>simp_all add: valid_defs C_ENTER_GAME_switch_def\<close>)
  show ?thesis
    unfolding C_ENTER_GAME_InternalParse_def C_ENTER_GAME_InternalSerialize_def playerindex tail
    by (simp add: C_ENTER_GAME_MergeFrom_def UnknownFieldSet_MergeFrom_def Let_def)
qed

lemma S_ENTER_GAME_parse_merge:
  assumes v: "S_ENTER_GAME_valid d m"
  shows "S_ENTER_GAME_InternalParse L d m0 (S_ENTER_GAME_InternalSerialize L m) = Some (S_ENTER_GAME_MergeFrom m0 m, At_limit)"
proof -
  let ?P = "parse_loop d (S_ENTER_GAME_switch L) se_unknown (\<lambda>u. se_unknown_update (\<lambda>_. u))"
  have one: "venc (Suc 0) = [1]" by (simp add: venc_small)
  have success: "?P k ((if se_success m then WriteBoolToArray 1 (se_success m) else []) @ r)
      = ?P (if se_success m then k\<lparr>se_success := True\<rparr> else k) r" for k r
    using parse_varint[where b = 8 and upd = "\<lambda>val. k\<lparr>se_success := val \<noteq> 0\<rparr>" and v = 1, of
        "S_ENTER_GAME_switch L" k d se_unknown "\<lambda>u. se_unknown_update (\<lambda>_. u)" r]
    by (simp add: S_ENTER_GAME_switch_def one write_fields)
  have tail: "?P k (unknown_tail L (se_unknown m))
      = Some (k\<lparr>se_unknown := se_unknown k @ se_unknown m\<rparr>, At_limit)" for k
    by (rule parse_tail[where known = "{1}"]) (use v in \<open>simp_all add: valid_defs S_ENTER_GAME_switch_def\<close>)
  show ?thesis
    unfolding S_ENTER_GAME_InternalParse_def S_ENTER_GAME_InternalSerialize_def success tail
    by (simp add: S_ENTER_GAME_MergeFrom_def UnknownFieldSet_MergeFrom_def Let_def)
qed

lemma C_CHAT_parse_merge:
  assumes v: "C_CHAT_valid d m"
  shows "C_CHAT_InternalParse L d m0 (C_CHAT_InternalSerialize L m) = Some (C_CHAT_MergeFrom m0 m, At_limit)"
proof -
  let ?P = "parse_loop d (C_CHAT_switch L) cc_unknown (\<lambda>u. cc_unknown_update (\<lambda>_. u))"
  have msg: "?P k ((if cc_msg m \<noteq> [] then WriteStringMaybeAliased L 1 (cc_msg m) else []) @ r)
      = ?P (if cc_msg m \<noteq> [] then k\<lparr>cc_msg := cc_msg m\<rparr> else k) r" for k r
    using v by (auto simp: valid_defs string_ok_def write_string C_CHAT_switch_def
        parse_string[where upd = "\<lambda>str. k\<lparr>cc_msg := str\<rparr>" and L = L])
  have tail: "?P k (unknown_tail L (cc_unknown m))
      = Some (k\<lparr>cc_unknown := cc_unknown k @ cc_unknown m\<rparr>, At_limit)" for k
    by (rule parse_tail[where known = "{1}"]) (use v in \<open>simp_all add: valid_defs C_CHAT_switch_def\<close>)
  show ?thesis
    unfolding C_CHAT_InternalParse_def C_CHAT_InternalSerialize_def msg tail
    by (simp add: C_CHAT_MergeFrom_def UnknownFieldSet_MergeFrom_def Let_def)
qed

lemma S_CHAT_parse_merge:
  assumes v: "S_CHAT_valid d m"
  shows "S_CHAT_InternalParse L d m0 (S_CHAT_InternalSerialize L m) = Some (S_CHAT_MergeFrom m0 m, At_limit)"
proof -
  let ?P = "parse_loop d (S_CHAT_switch L) sc_unknown (\<lambda>u. sc_unknown_update (\<lambda>_. u))"
  have playerid: "?P k ((if sc_playerid m \<noteq> 0 then WriteUInt64ToArray 1 (sc_playerid m) else []) @ r)
      = ?P (if sc_playerid m \<noteq> 0 then k\<lparr>sc_playerid := sc_playerid m\<rparr> else k) r" for k r
    by (simp add: write_fields parse_varint[where upd = "\<lambda>val. k\<lparr>sc_playerid := val\<rparr>"] S_CHAT_switch_def)
  have msg: "?P k ((if sc_msg m \<noteq> [] then WriteStringMaybeAliased L 2 (sc_msg m) else []) @ r)
      = ?P (if sc_msg m \<noteq> [] then k\<lparr>sc_msg := sc_msg m\<rparr> else k) r" for k r
    using v by (auto simp: valid_defs string_ok_def write_string S_CHAT_switch_def
        parse_string[where upd = "\<lambda>str. k\<lparr>sc_msg := str\<rparr>" and L = L])
  have tail: "?P k (unknown_tail L (sc_unknown m))
      = Some (k\<lparr>sc_unknown := sc_unknown k @ sc_unknown m\<rparr>, At_limit)" for k
    by (rule parse_tail[where known = "{1, 2}"]) (use v in \<open>simp_all add: valid_defs S_CHAT_switch_def\<close>)
  show ?thesis
    unfolding S_CHAT_InternalParse_def S_CHAT_InternalSerialize_def playerid msg tail
    by (simp add: S_CHAT_MergeFrom_def UnknownFieldSet_MergeFrom_def Let_def)
qed

lemma sized_plain:
  "C_LOGIN_InternalSerialize L (snd (C_LOGIN_ByteSizeLong m1)) = C_LOGIN_InternalSerialize L m1"
  "C_ENTER_GAME_InternalSerialize L (snd (C_ENTER_GAME_ByteSizeLong m2)) = C_ENTER_GAME_InternalSerialize L m2"
  "S_ENTER_GAME_InternalSerialize L (snd (S_ENTER_GAME_ByteSizeLong m3)) = S_ENTER_GAME_InternalSerialize L m3"
  "C_CHAT_InternalSerialize L (snd (C_CHAT_ByteSizeLong m4)) = C_CHAT_InternalSerialize L m4"
  "S_CHAT_InternalSerialize L (snd (S_CHAT_ByteSizeLong m5)) = S_CHAT_InternalSerialize L m5"
  by (simp_all add: serialize_defs size_defs Let_def)

lemma C_LOGIN_size:
  assumes "C_LOGIN_valid d m"
  shows "length (C_LOGIN_InternalSerialize L m) = fst (C_LOGIN_ByteSizeLong m)"
  using assms final_size_eq[of d "{}" "cl_unknown m" _ L]
  by (auto simp: C_LOGIN_InternalSerialize_def C_LOGIN_ByteSizeLong_def valid_defs string_ok_def Let_def
      write_fields write_string VarintSize64_venc LengthDelimitedSize_venc)

lemma C_ENTER_GAME_size:
  assumes "C_ENTER_GAME_valid d m"
  shows "length (C_ENTER_GAME_InternalSerialize L m) = fst (C_ENTER_GAME_ByteSizeLong m)"
  using assms final_size_eq[of d "{1}" "ce_unknown m" _ L]
  by (auto simp: C_ENTER_GAME_InternalSerialize_def C_ENTER_GAME_ByteSizeLong_def valid_defs string_ok_def Let_def
      write_fields write_string VarintSize64_venc LengthDelimitedSize_venc)

lemma S_ENTER_GAME_size:
  assumes "S_ENTER_GAME_valid d m"
  shows "length (S_ENTER_GAME_InternalSerialize L m) = fst (S_ENTER_GAME_ByteSizeLong m)"
  using assms final_size_eq[of d "{1}" "se_unknown m" _ L]
  by (auto simp: S_ENTER_GAME_InternalSerialize_def S_ENTER_GAME_ByteSizeLong_def valid_defs string_ok_def Let_def
      write_fields write_string VarintSize64_venc LengthDelimitedSize_venc)

lemma C_CHAT_size:
  assumes "C_CHAT_valid d m"
  shows "length (C_CHAT_InternalSerialize L m) = fst (C_CHAT_ByteSizeLong m)"
  using assms final_size_eq[of d "{1}" "cc_unknown m" _ L]
  by (auto simp: C_CHAT_InternalSerialize_def C_CHAT_ByteSizeLong_def valid_defs string_ok_def Let_def
      write_fields write_string VarintSize64_venc LengthDelimitedSize_venc)

lemma S_CHAT_size:
  assumes "S_CHAT_valid d m"
  shows "length (S_CHAT_InternalSerialize L m) = fst (S_CHAT_ByteSizeLong m)"
  using assms final_size_eq[of d "{1, 2}" "sc_unknown m" _ L]
  by (auto simp: S_CHAT_InternalSerialize_def S_CHAT_ByteSizeLong_def valid_defs string_ok_def Let_def
      write_fields write_string VarintSize64_venc LengthDelimitedSize_venc)

section \<open>Interpretations\<close>

text \<open>The parser is the one ParseFromArray starts, with a depth of 100.\<close>

interpretation Player: wire_message Player_new "Player_InternalParse L 100" "Player_InternalSerialize L"
  Player_ByteSizeLong Player_MergeFrom "Player_valid 100" Player_content for L
proof (unfold_locales, goal_cases)
  case (3 m)
  show ?case by (simp add: merge_defs new_defs content_defs Let_def)
qed (simp_all add: sized_player Player_size Player_parse_merge)

interpretation S_LOGIN: wire_message S_LOGIN_new "S_LOGIN_InternalParse L 100" "S_LOGIN_InternalSerialize L"
  S_LOGIN_ByteSizeLong S_LOGIN_MergeFrom "S_LOGIN_valid 100" S_LOGIN_content for L
proof (unfold_locales, goal_cases)
  case (3 m)
  show ?case
    using Player.merge_new
    by (simp add: S_LOGIN_MergeFrom_def S_LOGIN_new_def S_LOGIN_content_def UnknownFieldSet_MergeFrom_def Let_def)
next
  case (4 m)
  show ?case by (simp add: S_LOGIN_content_def S_LOGIN_ByteSizeLong_def Let_def sized_player)
next
  case (5 m)
  show ?case by (simp add: S_LOGIN_ByteSizeLong_def Let_def sized_player comp_def)
qed (simp_all add: S_LOGIN_size S_LOGIN_parse_merge)

interpretation C_LOGIN: wire_message C_LOGIN_new "C_LOGIN_InternalParse L 100" "C_LOGIN_InternalSerialize L"
  C_LOGIN_ByteSizeLong C_LOGIN_MergeFrom "C_LOGIN_valid 100" C_LOGIN_content for L
proof (unfold_locales, goal_cases)
  case (3 m)
  show ?case by (simp add: merge_defs new_defs content_defs Let_def)
qed (simp_all add: sized_plain C_LOGIN_size C_LOGIN_parse_merge, simp_all add: size_defs content_defs Let_def)

interpretation C_ENTER_GAME: wire_message C_ENTER_GAME_new "C_ENTER_GAME_InternalParse L 100" "C_ENTER_GAME_InternalSerialize L"
  C_ENTER_GAME_ByteSizeLong C_ENTER_GAME_MergeFrom "C_ENTER_GAME_valid 100" C_ENTER_GAME_content for L
proof (unfold_locales, goal_cases)
  case (3 m)
  show ?case by (simp add: merge_defs new_defs content_defs Let_def)
qed (simp_all add: sized_plain C_ENTER_GAME_size C_ENTER_GAME_parse_merge, simp_all add: size_defs content_defs Let_def)

interpretation S_ENTER_GAME: wire_message S_ENTER_GAME_new "S_ENTER_GAME_InternalParse L 100" "S_ENTER_GAME_InternalSerialize L"
  S_ENTER_GAME_ByteSizeLong S_ENTER_GAME_MergeFrom "S_ENTER_GAME_valid 100" S_ENTER_GAME_content for L
proof (unfold_locales, goal_cases)
  case (3 m)
  show ?case by (simp add: merge_defs new_defs content_defs Let_def)
qed (simp_all add: sized_plain S_ENTER_GAME_size S_ENTER_GAME_parse_merge, simp_all add: size_defs content_defs Let_def)

interpretation C_CHAT: wire_message C_CHAT_new "C_CHAT_InternalParse L 100" "C_CHAT_InternalSerialize L"
  C_CHAT_ByteSizeLong C_CHAT_MergeFrom "C_CHAT_valid 100" C_CHAT_content for L
proof (unfold_locales, goal_cases)
  case (3 m)
  show ?case by (simp add: merge_defs new_defs content_defs Let_def)
qed (simp_all add: sized_plain C_CHAT_size C_CHAT_parse_merge, simp_all add: size_defs content_defs Let_def)

interpretation S_CHAT: wire_message S_CHAT_new "S_CHAT_InternalParse L 100" "S_CHAT_InternalSerialize L"
  S_CHAT_ByteSizeLong S_CHAT_MergeFrom "S_CHAT_valid 100" S_CHAT_content for L
proof (unfold_locales, goal_cases)
  case (3 m)
  show ?case by (simp add: merge_defs new_defs content_defs Let_def)
qed (simp_all add: sized_plain S_CHAT_size S_CHAT_parse_merge, simp_all add: size_defs content_defs Let_def)

section \<open>What a parser yields\<close>

lemma parse_loop_preserves:
  assumes "\<And>m tag p m' n. Q m \<Longrightarrow> sw m tag p = Field m' n \<Longrightarrow> Q m'" and "\<And>u m. Q m \<Longrightarrow> Q (su u m)"
  shows "parse_loop d sw un su m p = Some (m', e) \<Longrightarrow> Q m \<Longrightarrow> Q m'"
  using assms
proof (induction d sw un su m p rule: parse_loop.induct)
  case (1 d sw un su m p)
  show ?case
  proof (cases "p = []")
    case True
    then show ?thesis using 1(3,4) by (simp add: parse_loop.simps)
  next
    case False
    from 1(3) False obtain tag k where r: "ReadTag p = Some (tag, k)" "k \<le> length p"
      by (subst (asm) parse_loop.simps) (auto split: option.splits prod.splits if_splits)
    let ?p1 = "drop k p"
    have st: "parse_loop d sw un su m p = (case sw m tag ?p1 of
        Failure \<Rightarrow> None
      | Field m' n \<Rightarrow> if length ?p1 < n then None else parse_loop d sw un su m' (drop n ?p1)
      | Unusual \<Rightarrow>
          if tag = 0 \<or> tag AND 7 = 4 then Some (m, At_tag tag)
          else (case UnknownFieldParse d tag (un m) ?p1 of
                  None \<Rightarrow> None
                | Some (u, n) \<Rightarrow>
                    if length ?p1 < n then None else parse_loop d sw un su (su u m) (drop n ?p1)))"
      using False r by (subst parse_loop.simps) (simp add: Let_def)
    have kp: "\<not> length p < k" using r(2) by simp
    show ?thesis
    proof (cases "sw m tag ?p1")
      case (Field m1 n)
      then have "\<not> length ?p1 < n" "parse_loop d sw un su m1 (drop n ?p1) = Some (m', e)"
        using 1(3) st by (auto split: if_splits)
      moreover have "Q m1" using 1(5)[OF 1(4) Field] .
      ultimately show ?thesis using 1(1)[OF False r(1) refl kp refl Field] 1(5,6) by blast
    next
      case Unusual
      show ?thesis
      proof (cases "tag = 0 \<or> tag AND 7 = 4")
        case True
        then show ?thesis using 1(3,4) st Unusual by simp
      next
        case tag: False
        then obtain u n where u: "UnknownFieldParse d tag (un m) ?p1 = Some (u, n)" "\<not> length ?p1 < n"
          "parse_loop d sw un su (su u m) (drop n ?p1) = Some (m', e)"
          using 1(3) st Unusual by (auto split: option.splits if_splits)
        show ?thesis using 1(2)[OF False r(1) refl kp refl Unusual tag u(1) refl u(2)] u(3) 1(4-6) by blast
      qed
    qed (use 1(3) st in simp)
  qed
qed

lemma ReadSize_bound: "ReadSize p = Some (n, k) \<Longrightarrow> n \<le> max_size"
  by (auto simp: ReadSize_vdec split: option.splits if_splits)

lemma string_field_ok:
  assumes "string_field L e tag upd p = Field m' n"
  shows "\<exists>s. string_ok s \<and> m' = upd s"
proof -
  obtain s k where s: "InlineGreedyStringParser p = Some (s, k)" "VerifyUTF8 L s" "m' = upd s"
    using assms by (auto simp: string_field_def split: if_splits option.splits)
  have "length s \<le> max_size"
    using s(1) ReadSize_bound by (auto simp: InlineGreedyStringParser_def ReadString_def split: option.splits if_splits)
  then show ?thesis
    using s(2,3) by (auto simp: string_ok_def VerifyUTF8_def IsStructurallyValidUTF8_iff)
qed

lemma varint_field_upd: "varint_field e tag upd p = Field m' n \<Longrightarrow> \<exists>v. m' = upd v"
  by (auto simp: varint_field_def split: if_splits option.splits)

lemma C_CHAT_parse_ok:
  assumes "C_CHAT_InternalParse L d m0 p = Some (m, e)" and "string_ok (cc_msg m0)"
  shows "string_ok (cc_msg m)"
proof (rule parse_loop_preserves[where Q = "\<lambda>m. string_ok (cc_msg m)"])
  show "parse_loop d (C_CHAT_switch L) cc_unknown (\<lambda>u. cc_unknown_update (\<lambda>_. u)) m0 p = Some (m, e)"
    using assms(1) by (simp add: C_CHAT_InternalParse_def)
  show "string_ok (cc_msg m')" if "string_ok (cc_msg m)" "C_CHAT_switch L m tag p = Field m' n" for m tag p m' n
    using that by (auto simp: C_CHAT_switch_def dest!: string_field_ok varint_field_upd split: if_splits)
qed (use assms(2) in simp_all)

lemma S_CHAT_parse_ok:
  assumes "S_CHAT_InternalParse L d m0 p = Some (m, e)" and "string_ok (sc_msg m0)"
  shows "string_ok (sc_msg m)"
proof (rule parse_loop_preserves[where Q = "\<lambda>m. string_ok (sc_msg m)"])
  show "parse_loop d (S_CHAT_switch L) sc_unknown (\<lambda>u. sc_unknown_update (\<lambda>_. u)) m0 p = Some (m, e)"
    using assms(1) by (simp add: S_CHAT_InternalParse_def)
  show "string_ok (sc_msg m')" if "string_ok (sc_msg m)" "S_CHAT_switch L m tag p = Field m' n" for m tag p m' n
    using that by (auto simp: S_CHAT_switch_def dest!: string_field_ok varint_field_upd split: if_splits)
qed (use assms(2) in simp_all)

lemma Player_parse_ok:
  assumes "Player_InternalParse L d m0 p = Some (m, e)" and "string_ok (pl_name m0)"
  shows "string_ok (pl_name m)"
proof (rule parse_loop_preserves[where Q = "\<lambda>m. string_ok (pl_name m)"])
  show "parse_loop d (Player_switch L) pl_unknown (\<lambda>u. pl_unknown_update (\<lambda>_. u)) m0 p = Some (m, e)"
    using assms(1) by (simp add: Player_InternalParse_def)
  show "string_ok (pl_name m')" if "string_ok (pl_name m)" "Player_switch L m tag p = Field m' n" for m tag p m' n
    using that by (auto simp: Player_switch_def dest!: string_field_ok varint_field_upd split: if_splits)
qed (use assms(2) in simp_all)

lemma string_ok_Nil [simp]: "string_ok []"
  unfolding string_ok_def well_formed_def by (auto intro: exI[of _ "[]"])

end
