(* ===== verification/Proto_Properties.thy ===== *)
theory Proto_Properties
  imports Proto_Roundtrip
begin

text \<open>
  The properties of the message library as its users see them: varints, the check and the repair of
  strings, the round trip of a nested message with fields its reader does not know, and what a parser
  guarantees about any bytes.
\<close>

section \<open>The players of a parsed login\<close>

definition names_ok :: "S_LOGIN \<Rightarrow> bool" where
  "names_ok m \<longleftrightarrow> list_all (\<lambda>pl. string_ok (pl_name pl)) (sl_players m)"

lemma ParseMessage_player:
  assumes "ParseMessage d (Player_InternalParse L) Player_new p = Some (pl, k)"
  shows "string_ok (pl_name pl)"
proof -
  obtain e b where "Player_InternalParse L (d - 1) Player_new b = Some (pl, e)"
    using assms by (auto simp: ParseMessage_def split: option.splits prod.splits if_splits parse_end.splits)
  then show ?thesis by (rule Player_parse_ok) (simp add: Player_new_def)
qed

lemma S_LOGIN_players_ok: "S_LOGIN_players L d m p = Some (m', k) \<Longrightarrow> names_ok m \<Longrightarrow> names_ok m'"
proof (induction L d m p arbitrary: m' k rule: S_LOGIN_players.induct)
  case (1 L d m p)
  obtain pl j where pm: "ParseMessage d (Player_InternalParse L) Player_new p = Some (pl, j)"
    using 1(2) by (subst (asm) S_LOGIN_players.simps) (auto split: option.splits)
  let ?m = "m\<lparr>sl_players := sl_players m @ [pl]\<rparr>"
  have ok: "names_ok ?m" using 1(3) ParseMessage_player[OF pm] by (simp add: names_ok_def)
  show ?case
  proof (cases "drop j p \<noteq> [] \<and> ExpectTag18 (drop j p)")
    case True
    then have more: "drop j p \<noteq> []" "ExpectTag18 (drop j p)" by blast+
    then obtain k' where "S_LOGIN_players L d ?m (tl (drop j p)) = Some (m', k')"
      using 1(2) pm by (subst (asm) S_LOGIN_players.simps) (auto simp: Let_def split: if_splits)
    from 1(1)[OF pm refl refl refl more this ok] show ?thesis .
  next
    case False
    then have "m' = ?m" using 1(2) pm by (subst (asm) S_LOGIN_players.simps) (auto simp: Let_def split: if_splits)
    then show ?thesis using ok by simp
  qed
qed

lemma S_LOGIN_parse_ok:
  assumes "S_LOGIN_InternalParse L d m0 p = Some (m, e)" and "names_ok m0"
  shows "names_ok m"
proof (rule parse_loop_preserves[where Q = names_ok])
  show "parse_loop d (S_LOGIN_switch L d) sl_unknown (\<lambda>u. sl_unknown_update (\<lambda>_. u)) m0 p = Some (m, e)"
    using assms(1) by (simp add: S_LOGIN_InternalParse_def)
  show "names_ok m'" if "names_ok m" "S_LOGIN_switch L d m tag p = Field m' n" for m tag p m' n
    using that by (auto simp: S_LOGIN_switch_def names_ok_def dest!: varint_field_upd S_LOGIN_players_ok[unfolded names_ok_def]
        split: if_splits option.splits)
qed (use assms(2) in \<open>simp_all add: names_ok_def\<close>)

section \<open>Properties\<close>

text \<open>C26: The varint readers against one reference. On any bytes, VarintParse, ReadTag and ReadSize
  with their unrolled first bytes, their subtraction of the continuation bits and their slow paths
  compute the reference decoder of base 128 digits, cut off at ten bytes, at five bytes, and at five
  bytes and the largest size.\<close>

theorem varint_decoding:
  "VarintParse p = map_option (apfst word_of_nat) (vdec_within 10 p)
    \<and> ReadTag p = map_option (apfst word_of_nat) (vdec_within 5 p)
    \<and> ReadSize p = (case vdec_within 5 p of None \<Rightarrow> None
        | Some (n, l) \<Rightarrow> if n \<le> max_size then Some (n, l) else None)"
  by (intro conjI VarintParse_vdec ReadTag_vdec ReadSize_vdec)

text \<open>C27: The writers and the sizes. A varint is written as its base 128 digits and read back
  whatever follows it, and the two size functions, which multiply by 9 and divide by 64, give the
  number of bytes written.\<close>

theorem varint_roundtrip:
  "VarintParse (UnsafeVarint v @ rest) = Some (v, VarintSize64 v)
    \<and> length (UnsafeVarint v) = VarintSize64 v
    \<and> ReadTag (WriteVarint32ToArray t @ rest) = Some (t, VarintSize32 t)
    \<and> length (WriteVarint32ToArray t) = VarintSize32 t"
  using VarintParse_venc[of "unat v" rest] ReadTag_venc[of t rest] unsigned_less[of v, where 'a = nat]
  by (simp add: UnsafeVarint_venc WriteVarint32ToArray_venc VarintSize64_venc VarintSize32_venc)

text \<open>C24: The check of a string is exact. The scanner with its state table, its fast paths over
  groups of eight bytes and its backing up accepts exactly the encodings of sequences of Unicode
  scalar values (no surrogate, nothing above 10FFFF, no overlong form) wherever the string lies in
  memory, and the span it reports is the longest well formed prefix.\<close>

theorem utf8_check_exact:
  "(IsStructurallyValidUTF8 addr s \<longleftrightarrow> well_formed s) \<and> longest_prefix s (UTF8SpnStructurallyValid addr s)"
  by (intro conjI IsStructurallyValidUTF8_iff UTF8SpnStructurallyValid_longest)

text \<open>The repair of a string. With an ASCII replacement UTF8CoerceToStructurallyValid returns
  well formed UTF-8 of the same length, and a well formed string unchanged.\<close>

theorem coerced_well_formed:
  assumes "replace_char < 0x80"
  shows "well_formed (UTF8CoerceToStructurallyValid addr s replace_char)
    \<and> length (UTF8CoerceToStructurallyValid addr s replace_char) = length s
    \<and> (UTF8CoerceToStructurallyValid addr s replace_char = s \<or> \<not> IsStructurallyValidUTF8 addr s)"
  using coerce_ok[OF assms, of addr s]
  by (auto simp: UTF8CoerceToStructurallyValid_def UTF8SpnStructurallyValid_def IsStructurallyValidUTF8_def split_beta Let_def)

theorem coerced_well_formed_witness:
  "well_formed (UTF8CoerceToStructurallyValid 0 [0x61, 0xED, 0xA0, 0x80] 0x20)
    \<and> length (UTF8CoerceToStructurallyValid 0 [0x61, 0xED, 0xA0, 0x80] 0x20) = 4"
  using coerced_well_formed[of "0x20" 0 "[0x61, 0xED, 0xA0, 0x80]"] by simp

text \<open>C25: A login reply through the wire. For a message whose names are well formed, whose players
  and unknown fields nest at most as deep as the recursion limit allows: the serializer writes exactly
  as many bytes as ByteSizeLong said, and the parser that reads them merges the message into the one it
  has, players and fields it does not know included.\<close>

theorem login_roundtrip:
  assumes "S_LOGIN_valid 100 m"
  shows "length (S_LOGIN_InternalSerialize L (snd (S_LOGIN_ByteSizeLong m))) = fst (S_LOGIN_ByteSizeLong m)
    \<and> S_LOGIN_InternalParse L 100 m0 (S_LOGIN_InternalSerialize L (snd (S_LOGIN_ByteSizeLong m)))
        = Some (S_LOGIN_MergeFrom m0 m, At_limit)"
  by (intro conjI S_LOGIN.size_law S_LOGIN.parse_law assms)

text \<open>A reply with one player, and a group with a string in it that the reader does not know.\<close>

abbreviation rich_login :: S_LOGIN where
  "rich_login \<equiv> S_LOGIN_new\<lparr>sl_success := True, sl_players := [Player_new\<lparr>pl_id := 300, pl_name := [0xC3, 0xA9]\<rparr>],
     sl_unknown := [GroupField 7 [LengthDelimitedField 8 [1, 2], Fixed64Field 9 5]]\<rparr>"

lemma rich_login_valid: "S_LOGIN_valid 100 rich_login"
proof -
  have "well_formed [0xC3, 0xA9]"
    unfolding well_formed_def
    by (intro exI[of _ "[0xE9]"]) (simp add: scalar_value_def encode_all_def encode_def)
  then have "string_ok [0xC3, 0xA9]" by (simp add: string_ok_def max_size_def)
  moreover have "number_ok 7" "number_ok 8" "number_ok 9" by (simp_all add: number_ok_def)
  moreover have "fst (Player_ByteSizeLong (Player_new\<lparr>pl_id := 300, pl_name := [0xC3, 0xA9]\<rparr>)) \<le> max_size"
    by (simp add: Player_ByteSizeLong_def Player_new_def final_size_def Let_def LengthDelimitedSize_venc max_size_def
        VarintSize64_venc venc_step venc_small)
  ultimately show ?thesis
    by (simp add: S_LOGIN_valid_def S_LOGIN_new_def Player_valid_def Player_new_def unknown_ok_def foreign_def max_size_def)
qed

theorem login_roundtrip_witness:
  "S_LOGIN_InternalParse \<lparr>low_space = \<lambda>_ _. False, string_address = \<lambda>_. 0\<rparr> 100 S_LOGIN_new
      (S_LOGIN_InternalSerialize \<lparr>low_space = \<lambda>_ _. False, string_address = \<lambda>_. 0\<rparr> (snd (S_LOGIN_ByteSizeLong rich_login)))
     = Some (S_LOGIN_MergeFrom S_LOGIN_new rich_login, At_limit)"
  using login_roundtrip[OF rich_login_valid] by blast

text \<open>C28: What a parser yields. Whatever bytes a S_LOGIN parser accepts, at any depth, every player it
  holds afterwards has a name of well formed UTF-8 that is no longer than the largest size.\<close>

theorem parsed_names:
  assumes "S_LOGIN_InternalParse L d m0 p = Some (m, e)" and "sl_players m0 = []"
  shows "list_all (\<lambda>pl. well_formed (pl_name pl) \<and> length (pl_name pl) \<le> max_size) (sl_players m)"
  using S_LOGIN_parse_ok[OF assms(1)] assms(2) by (simp add: names_ok_def string_ok_def conj_commute)

theorem parsed_names_witness:
  "list_all (\<lambda>pl. well_formed (pl_name pl) \<and> length (pl_name pl) \<le> max_size)
     (sl_players (S_LOGIN_MergeFrom S_LOGIN_new rich_login))"
  by (rule parsed_names[where L = "\<lparr>low_space = \<lambda>_ _. False, string_address = \<lambda>_. 0\<rparr>",
        OF S_LOGIN.parse_law[OF rich_login_valid]]) (simp add: S_LOGIN_new_def)

end
