(* ===== verification/Packet_Handler.thy ===== *)
theory Packet_Handler
  imports Packet_Framing Send_Buffer_Safety Proto_Roundtrip
begin

text \<open>
  Packets that carry messages: the packet ids, the table of handlers and the two templates
  MakeSendBuffer and HandlePacket, which GameServer/ClientPacketHandler.h and
  DummyClient/ServerPacketHandler.h share word for word, with SerializeToArray and ParseFromArray of
  the protobuf library (message_lite.cc). A template takes the functions of its message type as
  arguments.
\<close>

section \<open>Packet ids\<close>

definition PKT_C_LOGIN :: u16 where "PKT_C_LOGIN = 1000"
definition PKT_S_LOGIN :: u16 where "PKT_S_LOGIN = 1001"
definition PKT_C_ENTER_GAME :: u16 where "PKT_C_ENTER_GAME = 1002"
definition PKT_S_ENTER_GAME :: u16 where "PKT_S_ENTER_GAME = 1003"
definition PKT_C_CHAT :: u16 where "PKT_C_CHAT = 1004"
definition PKT_S_CHAT :: u16 where "PKT_S_CHAT = 1005"

lemmas packet_ids = PKT_C_LOGIN_def PKT_S_LOGIN_def PKT_C_ENTER_GAME_def PKT_S_ENTER_GAME_def
  PKT_C_CHAT_def PKT_S_CHAT_def

definition UINT16_MAX :: nat where "UINT16_MAX = 65535"

section \<open>Reading a packet\<close>

text \<open>
  The table of handlers: GPacketHandler has UINT16_MAX entries; Init fills it with Handle_INVALID
  and then sets the entries of the messages. None stands for an empty std::function.
\<close>

type_synonym 'w handler = "byte list \<Rightarrow> int \<Rightarrow> 'w \<Rightarrow> (bool \<times> 'w) result"
type_synonym 'w handler_table = "'w handler option list"

definition Handle_INVALID :: "'w handler" where
  "Handle_INVALID buffer len w = Inr (False, w)"

fun Init_loop :: "nat \<Rightarrow> 'w handler_table \<Rightarrow> 'w handler_table" where
  "Init_loop 0 table = table"
| "Init_loop (Suc i) table = (Init_loop i table)[i := Some Handle_INVALID]"

fun Init_entries :: "(u16 \<times> 'w handler) list \<Rightarrow> 'w handler_table \<Rightarrow> 'w handler_table" where
  "Init_entries [] table = table"
| "Init_entries ((pktId, f) # es) table = Init_entries es (table[unat pktId := Some f])"

definition Handler_Init :: "(u16 \<times> 'w handler) list \<Rightarrow> 'w handler_table" where
  "Handler_Init entries = Init_entries entries (Init_loop UINT16_MAX (replicate UINT16_MAX None))"

definition HandlePacket :: "'w handler_table \<Rightarrow> 'w handler" where
  "HandlePacket table buffer len w =
     (let header = read_header buffer in
      if UINT16_MAX \<le> unat (hd_id header) then Inl OutOfBounds
      else case table ! unat (hd_id header) of
          None \<Rightarrow> Inl NullDeref
        | Some f \<Rightarrow> f buffer len w)"

text \<open>
  ParseFromArray clears the message and merges the array into it: the parser of the message runs with
  the default recursion limit over all of the array, and must have ended at its limit.
\<close>

definition MergeFromImpl :: "(nat \<Rightarrow> 'm \<Rightarrow> byte list \<Rightarrow> ('m \<times> parse_end) option) \<Rightarrow> 'm \<Rightarrow> byte list \<Rightarrow> 'm option" where
  "MergeFromImpl parse msg input =
     (case parse 100 msg input of Some (m, At_limit) \<Rightarrow> Some m | _ \<Rightarrow> None)"

definition ParseFromArray ::
    "(nat \<Rightarrow> 'm \<Rightarrow> byte list \<Rightarrow> ('m \<times> parse_end) option) \<Rightarrow> ('m \<Rightarrow> 'm) \<Rightarrow> 'm \<Rightarrow> byte list \<Rightarrow> int \<Rightarrow> 'm option result" where
  "ParseFromArray parse clear msg data len =
     (if len < 0 \<or> int (length data) < len then Inl OutOfBounds
      else Inr (MergeFromImpl parse (clear msg) (take (nat len) data)))"

definition HandlePacket_as ::
    "(nat \<Rightarrow> 'm \<Rightarrow> byte list \<Rightarrow> ('m \<times> parse_end) option) \<Rightarrow> ('m \<Rightarrow> 'm) \<Rightarrow> 'm \<Rightarrow>
       ('m \<Rightarrow> 'w \<Rightarrow> (bool \<times> 'w) result) \<Rightarrow> 'w handler" where
  "HandlePacket_as parse clear pkt func buffer len w =
     rbind (ParseFromArray parse clear pkt (drop sizeof_PacketHeader buffer) (len - int sizeof_PacketHeader))
       (\<lambda>r. case r of None \<Rightarrow> Inr (False, w) | Some pkt' \<Rightarrow> func pkt' w)"

section \<open>Making a packet\<close>

text \<open>A write at an offset of the memory Buffer() points to.\<close>

definition SendBuffer_write :: "nat \<Rightarrow> nat \<Rightarrow> byte list \<Rightarrow> send_state \<Rightarrow> send_state result" where
  "SendBuffer_write i off bs s =
     (case buffers s i of
        None \<Rightarrow> Inl UseAfterFree
      | Some b \<Rightarrow>
          if length (c_buffer (chunks s (b_owner b))) < unat (b_offset b) + off + length bs
          then Inl OutOfBounds
          else Inr (upd_chunk (b_owner b)
                 (\<lambda>k. k\<lparr>c_buffer := overwrite (c_buffer k) (unat (b_offset b) + off) bs\<rparr>) s))"

definition INT_MAX :: nat where "INT_MAX = 2 ^ 31 - 1"

definition SerializePartialToArray ::
    "('m \<Rightarrow> nat \<times> 'm) \<Rightarrow> ('m \<Rightarrow> byte list) \<Rightarrow> 'm \<Rightarrow> nat \<Rightarrow> byte list option" where
  "SerializePartialToArray ByteSizeLong InternalSerialize msg sz =
     (let (byte_size, msg') = ByteSizeLong msg in
      if INT_MAX < byte_size then None
      else if sz < byte_size then None
      else Some (InternalSerialize msg'))"

definition MakeSendBuffer ::
    "('m \<Rightarrow> nat \<times> 'm) \<Rightarrow> ('m \<Rightarrow> byte list) \<Rightarrow> nat \<Rightarrow> 'm \<Rightarrow> u16 \<Rightarrow> send_state \<Rightarrow> (nat \<times> send_state) result" where
  "MakeSendBuffer ByteSizeLong InternalSerialize t pkt pktId s =
     (let (len, pkt') = ByteSizeLong pkt;
          dataSize = word_of_nat len :: u16;
          packetSize = dataSize + word_of_nat sizeof_PacketHeader in
      rbind (Manager_Open t (ucast packetSize) s) (\<lambda>(opened, s1).
        case opened of
          None \<Rightarrow> Inl NullDeref
        | Some sendBuffer \<Rightarrow>
            rbind (SendBuffer_write sendBuffer 0 (header_bytes \<lparr>hd_size = packetSize, hd_id = pktId\<rparr>) s1) (\<lambda>s2.
              let written = SerializePartialToArray ByteSizeLong InternalSerialize pkt' (unat dataSize) in
              rbind (case written of
                       None \<Rightarrow> Inr s2
                     | Some bs \<Rightarrow> SendBuffer_write sendBuffer sizeof_PacketHeader bs s2) (\<lambda>s3.
              rbind (ASSERT_CRASH (written \<noteq> None)) (\<lambda>_.
              rbind (SendBuffer_Close sendBuffer (ucast packetSize) s3) (\<lambda>s4. Inr (sendBuffer, s4)))))))"

section \<open>The buffer of a packet\<close>

lemma overwrite_twice:
  assumes "n + length xs + length ys \<le> length m"
  shows "overwrite (overwrite m n xs) (n + length xs) ys = overwrite m n (xs @ ys)"
  using assms by (simp add: overwrite_def ac_simps)

lemma write_0: "SendBuffer_write i 0 bs s = SendBuffer_store i bs s"
  by (simp add: SendBuffer_write_def SendBuffer_store_def split: option.split)

lemma write_behind:
  assumes "SendBuffer_store i xs s = Inr s1" and "SendBuffer_store i (xs @ ys) s = Inr s2"
  shows "SendBuffer_write i (length xs) ys s1 = Inr s2"
  using assms
  by (auto simp: SendBuffer_write_def SendBuffer_store_def upd_chunk_def overwrite_twice add.assoc
      split: option.splits if_splits)

text \<open>Opening, writing a whole packet and closing: the packet is the buffer's content.\<close>

lemma packet_buffer:
  assumes inv: "send_inv None (s, p)" and idle: "p t = None" and sz: "sz \<le> 6000"
    and len: "length (hdr @ body) = unat sz"
  shows "\<exists>i s1 s2 s3 s4. Manager_Open t sz s = Inr (Some i, s1) \<and> SendBuffer_write i 0 hdr s1 = Inr s2
    \<and> SendBuffer_write i (length hdr) body s2 = Inr s3 \<and> SendBuffer_Close i sz s3 = Inr s4
    \<and> buffer_bytes s4 i = Some (hdr @ body) \<and> send_inv None (s4, p)
    \<and> (\<forall>j. j \<noteq> i \<longrightarrow> buffer_bytes s4 j = buffer_bytes s j) \<and> buffers s i = None"
proof -
  obtain i s1 b where o: "Manager_Open t sz s = Inr (Some i, s1)" "send_inv None (s1, p(t := Some i))"
    "buffers s i = None" "\<forall>j. j \<noteq> i \<longrightarrow> buffer_bytes s1 j = buffer_bytes s j" "buffers s1 i = Some b"
    "b_allocSize b = sz"
    using Manager_Open_ok[OF inv idle sz] by blast
  note D = send_invD[OF o(2)]
  have own: "(p(t := Some i)) t = Some i" by simp
  have room: "unat (b_offset b) + unat sz \<le> 6000" and op: "c_open (chunks s1 (b_owner b))"
    using D(5) own o(5,6) by (auto elim!: pend_invD)
  have l6: "length (c_buffer (chunks s1 (b_owner b))) = 6000" using D(4) by (simp add: region_inv_def)
  define s2 where "s2 = upd_chunk (b_owner b) (\<lambda>k. k\<lparr>c_buffer := overwrite (c_buffer k) (unat (b_offset b)) hdr\<rparr>) s1"
  define s3 where "s3 = upd_chunk (b_owner b)
      (\<lambda>k. k\<lparr>c_buffer := overwrite (c_buffer k) (unat (b_offset b)) (hdr @ body)\<rparr>) s1"
  have st2: "SendBuffer_store i hdr s1 = Inr s2" and st3: "SendBuffer_store i (hdr @ body) s1 = Inr s3"
    using o(5) room len l6 by (simp_all add: SendBuffer_store_def s2_def s3_def)
  have inv3: "send_inv None (s3, p(t := Some i))" by (rule store_inv[OF o(2) st3])
  have b3: "buffers s3 i = Some b" "c_open (chunks s3 (b_owner b))" using o(5) op by (simp_all add: s3_def upd_chunk_def)
  have cl: "SendBuffer_Close i sz s3 = Inr (closed_state i b sz s3)"
    by (rule SendBuffer_Close_eq) (use b3 o(6) in simp_all)
  have "slice (unat (b_offset b)) (unat sz) (c_buffer (chunks s3 (b_owner b))) = hdr @ body"
    using slice_overwrite_same[of "unat (b_offset b)" "c_buffer (chunks s1 (b_owner b))" "hdr @ body"] room l6 len
    by (simp add: s3_def upd_chunk_def)
  then have "buffer_bytes (closed_state i b sz s3) i = Some (hdr @ body)"
    by (simp add: buffer_bytes_def closed_state_def)
  moreover have "send_inv None (closed_state i b sz s3, p)"
  proof -
    have "(p(t := Some i))(t := None) = p" using idle by auto
    then show ?thesis using close_inv[OF inv3 own cl] by (simp only:)
  qed
  moreover have "buffer_bytes (closed_state i b sz s3) j = buffer_bytes s j" if "j \<noteq> i" for j
    using close_bytes[OF inv3 cl that] store_bytes[OF o(2) own st3 that] o(4) that by simp
  ultimately show ?thesis
    using o(1,3) st2 write_behind[OF st2 st3] cl by (auto simp: write_0)
qed

section \<open>The table\<close>

lemma length_Init_loop [simp]: "length (Init_loop n table) = length table"
  by (induction n) simp_all

lemma length_Init_entries [simp]: "length (Init_entries es table) = length table"
  by (induction es table rule: Init_entries.induct) simp_all

lemma Init_loop_nth: "i < n \<Longrightarrow> n \<le> length table \<Longrightarrow> Init_loop n table ! i = Some Handle_INVALID"
  by (induction n) (auto simp: nth_list_update)

text \<open>The last entry for an id is the one that stays; a table lookup as a function.\<close>

fun last_entry :: "(u16 \<times> 'w handler) list \<Rightarrow> u16 \<Rightarrow> 'w handler \<Rightarrow> 'w handler" where
  "last_entry [] pktId f = f"
| "last_entry ((k, g) # es) pktId f = last_entry es pktId (if k = pktId then g else f)"

lemma Init_entries_nth:
  "unat pktId < length table \<Longrightarrow> table ! unat pktId = Some f \<Longrightarrow>
     Init_entries es table ! unat pktId = Some (last_entry es pktId f)"
proof (induction es table arbitrary: f rule: Init_entries.induct)
  case (2 k g es table)
  then show ?case by (auto simp: nth_list_update word_unat_eq_iff)
qed simp

lemma HandlePacket_table:
  assumes "unat (hd_id (read_header buffer)) < UINT16_MAX"
  shows "HandlePacket (Handler_Init es) buffer len w
    = last_entry es (hd_id (read_header buffer)) Handle_INVALID buffer len w"
proof -
  let ?id = "hd_id (read_header buffer)"
  let ?t = "Init_loop UINT16_MAX (replicate UINT16_MAX None)"
  have l: "length ?t = UINT16_MAX" by (simp only: length_Init_loop length_replicate)
  have "?t ! unat ?id = Some Handle_INVALID" by (rule Init_loop_nth) (simp_all only: length_replicate assms order_refl)
  from Init_entries_nth[OF _ this, of es] assms
  have "Init_entries es ?t ! unat ?id = Some (last_entry es ?id Handle_INVALID)" by (simp only: l)
  then show ?thesis
    using assms unfolding HandlePacket_def Handler_Init_def Let_def by (simp only: not_le[symmetric] if_False option.case)
qed

lemma HandlePacket_last_id:
  "hd_id (read_header buffer) = 65535 \<Longrightarrow> HandlePacket table buffer len w = Inl OutOfBounds"
  by (simp add: HandlePacket_def UINT16_MAX_def Let_def)

lemma HandlePacket_Inr:
  assumes "HandlePacket (Handler_Init es) buffer len w = Inr r"
  shows "last_entry es (hd_id (read_header buffer)) Handle_INVALID buffer len w = Inr r"
proof -
  let ?id = "hd_id (read_header buffer)"
  have "?id \<noteq> 65535" using assms HandlePacket_last_id[of buffer "Handler_Init es"] by auto
  then have "unat ?id < UINT16_MAX"
    unfolding UINT16_MAX_def using unsigned_less[of ?id, where 'a = nat] by (auto simp: word_unat_eq_iff)
  from HandlePacket_table[OF this, of es len w] show ?thesis using assms by simp
qed

section \<open>A message through a packet\<close>

definition packet_bytes :: "u16 \<Rightarrow> byte list \<Rightarrow> byte list" where
  "packet_bytes pktId body =
     header_bytes \<lparr>hd_size = word_of_nat (length body + sizeof_PacketHeader), hd_id = pktId\<rparr> @ body"

context wire_message
begin

lemma make_packet:
  assumes inv: "send_inv None (s, p)" and idle: "p t = None" and v: "valid pkt" and sz: "fst (byte_size pkt) \<le> 5996"
  shows "\<exists>i s'. MakeSendBuffer byte_size serialize t pkt pktId s = Inr (i, s')
    \<and> buffer_bytes s' i = Some (packet_bytes pktId (serialize (snd (byte_size pkt))))
    \<and> send_inv None (s', p) \<and> (\<forall>j. j \<noteq> i \<longrightarrow> buffer_bytes s' j = buffer_bytes s j) \<and> buffers s i = None"
proof -
  define n where "n = fst (byte_size pkt)"
  define body where "body = serialize (snd (byte_size pkt))"
  define ps :: u16 where "ps = word_of_nat n + word_of_nat sizeof_PacketHeader"
  define hdr where "hdr = header_bytes \<lparr>hd_size = ps, hd_id = pktId\<rparr>"
  have n: "n \<le> 5996" "length body = n" using sz size_law[OF v] by (simp_all add: n_def body_def)
  have d: "unat (word_of_nat n :: u16) = n" using n(1) by (simp add: unsigned_of_nat take_bit_nat_eq_self)
  have ps: "ps = word_of_nat (n + 4)" by (simp add: ps_def sizeof_PacketHeader_def)
  have psz: "unat (ucast ps :: u32) = n + 4"
  proof -
    have u: "unat ps = n + 4" unfolding ps using n(1) by (simp add: unsigned_of_nat take_bit_nat_eq_self del: of_nat_add)
    have "unat (ucast ps :: u32) = take_bit 32 (unat ps)" by (simp only: unsigned_ucast_eq) simp
    then show ?thesis unfolding u using n(1) by (simp add: take_bit_nat_eq_self)
  qed
  have "(ucast ps :: u32) \<le> 6000" unfolding word_le_nat_alt psz using n(1) by simp
  moreover have len: "length (hdr @ body) = unat (ucast ps :: u32)"
    unfolding psz by (simp add: hdr_def n(2) sizeof_PacketHeader_def)
  ultimately obtain i s1 s2 s3 s4 where o: "Manager_Open t (ucast ps) s = Inr (Some i, s1)"
    "SendBuffer_write i 0 hdr s1 = Inr s2" "SendBuffer_write i (length hdr) body s2 = Inr s3"
    "SendBuffer_Close i (ucast ps) s3 = Inr s4" "buffer_bytes s4 i = Some (hdr @ body)" "send_inv None (s4, p)"
    "\<forall>j. j \<noteq> i \<longrightarrow> buffer_bytes s4 j = buffer_bytes s j" "buffers s i = None"
    using packet_buffer[OF inv idle] by blast
  have w: "SerializePartialToArray byte_size serialize (snd (byte_size pkt)) (unat (word_of_nat n :: u16)) = Some body"
    unfolding SerializePartialToArray_def size_again d using n(1)
    by (simp add: body_def n_def INT_MAX_def split_beta)
  have hl: "length hdr = sizeof_PacketHeader" by (simp add: hdr_def)
  have "MakeSendBuffer byte_size serialize t pkt pktId s = Inr (i, s4)"
    unfolding MakeSendBuffer_def split_beta n_def[symmetric] Let_def ps_def[symmetric] o(1) rbind_simps prod.sel option.case
      hdr_def[symmetric] o(2) w
    using o(3,4) hl by simp
  moreover have "hdr @ body = packet_bytes pktId body"
    by (simp add: packet_bytes_def hdr_def ps_def n(2))
  ultimately show ?thesis using o(5,6,7,8) unfolding body_def by auto
qed

lemma make_too_big:
  assumes inv: "send_inv None (s, p)" and idle: "p t = None" and v: "valid pkt" and sz: "5996 < fst (byte_size pkt)"
  shows "\<exists>e. MakeSendBuffer byte_size serialize t pkt pktId s = Inl e"
proof (rule ccontr)
  assume "\<nexists>e. MakeSendBuffer byte_size serialize t pkt pktId s = Inl e"
  then obtain r where r: "MakeSendBuffer byte_size serialize t pkt pktId s = Inr r"
    by (cases "MakeSendBuffer byte_size serialize t pkt pktId s") auto
  define n where "n = fst (byte_size pkt)"
  define ps :: u16 where "ps = word_of_nat n + word_of_nat sizeof_PacketHeader"
  let ?w = "SerializePartialToArray byte_size serialize (snd (byte_size pkt)) (unat (word_of_nat n :: u16))"
  obtain i s1 s2 s3 where o: "Manager_Open t (ucast ps) s = Inr (Some i, s1)"
    and b: "(case ?w of None \<Rightarrow> Inr s2 | Some bs \<Rightarrow> SendBuffer_write i sizeof_PacketHeader bs s2) = Inr s3" "?w \<noteq> None"
    and w2: "SendBuffer_write i 0 (header_bytes \<lparr>hd_size = ps, hd_id = pktId\<rparr>) s1 = Inr s2"
    using r unfolding MakeSendBuffer_def split_beta n_def[symmetric] Let_def ps_def[symmetric] rbind_eq_Inr
    by (auto simp: rbind_eq_Inr split: option.splits if_splits)
  obtain bs where bs: "?w = Some bs" using b(2) by auto
  have "n \<le> unat (word_of_nat n :: u16)" and bs': "bs = serialize (snd (byte_size pkt))"
    using bs by (auto simp: SerializePartialToArray_def size_again n_def split_beta split: if_splits)
  then have n16: "n < 65536" using unsigned_less[of "word_of_nat n :: u16", where 'a = nat] by simp
  have small: "(ucast ps :: u32) \<le> 6000"
    using Manager_Open_small[OF inv idle o] .
  obtain i' s' bu where "Manager_Open t (ucast ps) s = Inr (Some i', s')" "send_inv None (s', p(t := Some i'))"
    using Manager_Open_ok[OF inv idle small] by blast
  then have i1: "send_inv None (s1, p(t := Some i))" using o by simp
  have l6: "length (c_buffer (chunks s1 c)) = 6000" for c
    using send_invD(4)[OF i1] by (simp add: region_inv_def)
  have "length (c_buffer (chunks s2 c)) = 6000" for c
    using w2 l6 by (auto simp: SendBuffer_write_def upd_chunk_def split: option.splits if_splits)
  then have "length bs \<le> 6000 - 4"
    using b(1) bs by (auto simp: SendBuffer_write_def sizeof_PacketHeader_def split: option.splits if_splits)
  then show False using size_law[OF v] sz bs' by simp
qed

lemma make_result:
  assumes inv: "send_inv None (s, p)" and idle: "p t = None" and v: "valid pkt"
    and r: "MakeSendBuffer byte_size serialize t pkt pktId s = Inr (i, s')"
  shows "fst (byte_size pkt) \<le> 5996"
    and "buffer_bytes s' i = Some (packet_bytes pktId (serialize (snd (byte_size pkt))))"
    and "send_inv None (s', p)" and "\<forall>j. j \<noteq> i \<longrightarrow> buffer_bytes s' j = buffer_bytes s j" and "buffers s i = None"
proof -
  show sz: "fst (byte_size pkt) \<le> 5996"
    using make_too_big[OF inv idle v, of pktId] r by (cases "fst (byte_size pkt) \<le> 5996") auto
  show "buffer_bytes s' i = Some (packet_bytes pktId (serialize (snd (byte_size pkt))))"
    "send_inv None (s', p)" "\<forall>j. j \<noteq> i \<longrightarrow> buffer_bytes s' j = buffer_bytes s j" "buffers s i = None"
    using make_packet[OF inv idle v sz, of pktId] r by auto
qed

lemma handle_packet:
  assumes v: "valid pkt" and P: "P 100 = parse" and c: "clear new_m = new_m"
    and len: "length (serialize (snd (byte_size pkt))) \<le> 65531"
  shows "\<exists>m. content m = content pkt
    \<and> HandlePacket_as P clear new_m func (packet_bytes pktId (serialize (snd (byte_size pkt))) @ rest)
        (int (length (packet_bytes pktId (serialize (snd (byte_size pkt)))))) w = func m w"
proof -
  obtain m where m: "parse new_m (serialize (snd (byte_size pkt))) = Some (m, At_limit)" "content m = content pkt"
    using roundtrip[OF v] by blast
  have "HandlePacket_as P clear new_m func (packet_bytes pktId (serialize (snd (byte_size pkt))) @ rest)
      (int (length (packet_bytes pktId (serialize (snd (byte_size pkt)))))) w = func m w"
    by (simp add: HandlePacket_as_def ParseFromArray_def MergeFromImpl_def packet_bytes_def P c m(1)
        sizeof_PacketHeader_def)
  then show ?thesis using m(2) by blast
qed

end

end
