(* ===== verification/Game_World.thy ===== *)
theory Game_World
  imports Packet_Handler
begin

text \<open>
  The game server on top of ServerCore (GameServer/): players, the room with its job queue, the
  managers, the sessions and the packet handlers. A shared_ptr to a Player is the player itself, since
  no field of a player changes after it was shared; a session and a room are numbers. What a handler
  does through Session::Send is the list of calls sends; what it does through JobQueue::DoAsync is the
  queue r_jobs of the room, whose jobs run one after the other in the order of their push (the
  component Job_Queue). A handler is one step here and so is a job of a room: handlers of one session
  follow each other as its receives do, handlers of different sessions share only the managers, under
  their locks, and the queues of the rooms. The console output is left out.
\<close>

section \<open>Players and rooms\<close>

record game_player =
  g_playerId :: u64
  g_name :: "byte list"
  g_type :: u32
  g_ownerSession :: nat

datatype room_job = Enter_job game_player | Leave_job game_player | Broadcast_job nat

text \<open>std::map keeps its entries in the order of their keys; operator [] with an assignment, and erase.\<close>

fun map_assign :: "'k::linorder \<Rightarrow> 'v \<Rightarrow> ('k \<times> 'v) list \<Rightarrow> ('k \<times> 'v) list" where
  "map_assign k v [] = [(k, v)]"
| "map_assign k v ((k', v') # xs) =
     (if k < k' then (k, v) # (k', v') # xs
      else if k = k' then (k, v) # xs
      else (k', v') # map_assign k v xs)"

fun map_erase :: "'k::linorder \<Rightarrow> ('k \<times> 'v) list \<Rightarrow> ('k \<times> 'v) list" where
  "map_erase k [] = []"
| "map_erase k ((k', v') # xs) = (if k = k' then xs else (k', v') # map_erase k xs)"

record room =
  r_players :: "(u64 \<times> game_player) list"
  r_jobs :: "room_job list"

record game_session =
  gs_players :: "game_player list"
  gs_currentPlayer :: "game_player option"
  gs_room :: "nat option"

text \<open>A Set is the list of its elements; a room that the manager holds stays alive.\<close>

record world =
  idGenerator :: u64
  sessions :: "nat \<Rightarrow> game_session"
  m_sessions :: "nat list"
  rooms :: "nat \<Rightarrow> room"
  m_rooms :: "nat list"
  sends :: "(nat \<times> nat) list"
  w_send :: send_state

definition upd_session :: "nat \<Rightarrow> (game_session \<Rightarrow> game_session) \<Rightarrow> world \<Rightarrow> world" where
  "upd_session sid f w = w\<lparr>sessions := (sessions w)(sid := f (sessions w sid))\<rparr>"

definition upd_room :: "nat \<Rightarrow> (room \<Rightarrow> room) \<Rightarrow> world \<Rightarrow> world" where
  "upd_room r f w = w\<lparr>rooms := (rooms w)(r := f (rooms w r))\<rparr>"

definition Send_call :: "nat \<Rightarrow> nat \<Rightarrow> world \<Rightarrow> world" where
  "Send_call sid sendBuffer w = w\<lparr>sends := sends w @ [(sid, sendBuffer)]\<rparr>"

definition Room_DoAsync :: "nat \<Rightarrow> room_job \<Rightarrow> world \<Rightarrow> world" where
  "Room_DoAsync r job = upd_room r (\<lambda>rm. rm\<lparr>r_jobs := r_jobs rm @ [job]\<rparr>)"

definition Room_Enter :: "nat \<Rightarrow> game_player \<Rightarrow> world \<Rightarrow> world" where
  "Room_Enter r player = upd_room r (\<lambda>rm. rm\<lparr>r_players := map_assign (g_playerId player) player (r_players rm)\<rparr>)"

definition Room_Leave :: "nat \<Rightarrow> game_player \<Rightarrow> world \<Rightarrow> world" where
  "Room_Leave r player = upd_room r (\<lambda>rm. rm\<lparr>r_players := map_erase (g_playerId player) (r_players rm)\<rparr>)"

fun Broadcast_loop :: "(u64 \<times> game_player) list \<Rightarrow> nat \<Rightarrow> world \<Rightarrow> world" where
  "Broadcast_loop [] sendBuffer w = w"
| "Broadcast_loop ((k, p) # ps) sendBuffer w =
     Broadcast_loop ps sendBuffer (Send_call (g_ownerSession p) sendBuffer w)"

definition Room_Broadcast :: "nat \<Rightarrow> nat \<Rightarrow> world \<Rightarrow> world" where
  "Room_Broadcast r sendBuffer w = Broadcast_loop (r_players (rooms w r)) sendBuffer w"

text \<open>One job of the room's queue.\<close>

fun run_job :: "nat \<Rightarrow> room_job \<Rightarrow> world \<Rightarrow> world" where
  "run_job r (Enter_job p) w = Room_Enter r p w"
| "run_job r (Leave_job p) w = Room_Leave r p w"
| "run_job r (Broadcast_job b) w = Room_Broadcast r b w"

definition Room_Execute :: "nat \<Rightarrow> world \<Rightarrow> world" where
  "Room_Execute r w =
     (case r_jobs (rooms w r) of
        [] \<Rightarrow> w
      | job # jobs \<Rightarrow> run_job r job (upd_room r (\<lambda>rm. rm\<lparr>r_jobs := jobs\<rparr>) w))"

section \<open>The managers\<close>

definition RoomManager_Add :: "nat \<Rightarrow> world \<Rightarrow> world" where
  "RoomManager_Add r w = w\<lparr>m_rooms := List.insert r (m_rooms w)\<rparr>"

definition RoomManager_Remove :: "nat \<Rightarrow> world \<Rightarrow> world" where
  "RoomManager_Remove r w = w\<lparr>m_rooms := removeAll r (m_rooms w)\<rparr>"

text \<open>*m_rooms.begin(): undefined for an empty set.\<close>

definition GetRoom :: "world \<Rightarrow> nat result" where
  "GetRoom w = (case m_rooms w of [] \<Rightarrow> Inl OutOfBounds | r # _ \<Rightarrow> Inr r)"

definition SessionManager_Add :: "nat \<Rightarrow> world \<Rightarrow> world" where
  "SessionManager_Add sid w = w\<lparr>m_sessions := List.insert sid (m_sessions w)\<rparr>"

definition SessionManager_Remove :: "nat \<Rightarrow> world \<Rightarrow> world" where
  "SessionManager_Remove sid w = w\<lparr>m_sessions := removeAll sid (m_sessions w)\<rparr>"

definition SessionManager_Broadcast :: "nat \<Rightarrow> world \<Rightarrow> world" where
  "SessionManager_Broadcast sendBuffer w = foldl (\<lambda>w sid. Send_call sid sendBuffer w) w (m_sessions w)"

section \<open>Packet handlers\<close>

definition utf8_literal :: "string \<Rightarrow> byte list" where
  "utf8_literal s = map of_char s"

text \<open>
  Login: two players are added to the reply (add_players, set_name, set_playertype) and to the
  session; the reply's players get no id.
\<close>

definition login_player :: "byte list \<Rightarrow> u32 \<Rightarrow> Player" where
  "login_player name type = Player_new\<lparr>pl_name := name, pl_playertype := type\<rparr>"

definition add_player :: "nat \<Rightarrow> Player \<Rightarrow> world \<Rightarrow> world" where
  "add_player sid player w =
     (let playerRef = \<lparr>g_playerId = idGenerator w, g_name = pl_name player, g_type = pl_playertype player,
                       g_ownerSession = sid\<rparr>
      in upd_session sid (\<lambda>s. s\<lparr>gs_players := gs_players s @ [playerRef]\<rparr>)
           (w\<lparr>idGenerator := idGenerator w + 1\<rparr>))"

definition loginPkt :: S_LOGIN where
  "loginPkt = S_LOGIN_new\<lparr>sl_success := True,
     sl_players := [login_player (utf8_literal ''TempName1'') PLAYER_TYPE_KNIGHT,
                    login_player (utf8_literal ''TempName2'') PLAYER_TYPE_MAGE]\<rparr>"

text \<open>The MakeSendBuffer overloads of ClientPacketHandler; t is the thread.\<close>

definition with_buffer ::
    "(send_state \<Rightarrow> (nat \<times> send_state) result) \<Rightarrow> world \<Rightarrow> (nat \<times> world) result" where
  "with_buffer mk w = rbind (mk (w_send w)) (\<lambda>(b, s). Inr (b, w\<lparr>w_send := s\<rparr>))"

definition Make_S_LOGIN :: "wire_env \<Rightarrow> nat \<Rightarrow> S_LOGIN \<Rightarrow> world \<Rightarrow> (nat \<times> world) result" where
  "Make_S_LOGIN L t pkt =
     with_buffer (MakeSendBuffer S_LOGIN_ByteSizeLong (S_LOGIN_InternalSerialize L) t pkt PKT_S_LOGIN)"

definition Make_S_ENTER_GAME :: "wire_env \<Rightarrow> nat \<Rightarrow> S_ENTER_GAME \<Rightarrow> world \<Rightarrow> (nat \<times> world) result" where
  "Make_S_ENTER_GAME L t pkt =
     with_buffer (MakeSendBuffer S_ENTER_GAME_ByteSizeLong (S_ENTER_GAME_InternalSerialize L) t pkt PKT_S_ENTER_GAME)"

definition Make_S_CHAT :: "wire_env \<Rightarrow> nat \<Rightarrow> S_CHAT \<Rightarrow> world \<Rightarrow> (nat \<times> world) result" where
  "Make_S_CHAT L t pkt =
     with_buffer (MakeSendBuffer S_CHAT_ByteSizeLong (S_CHAT_InternalSerialize L) t pkt PKT_S_CHAT)"

definition Handle_C_LOGIN :: "wire_env \<Rightarrow> nat \<Rightarrow> nat \<Rightarrow> C_LOGIN \<Rightarrow> world \<Rightarrow> (bool \<times> world) result" where
  "Handle_C_LOGIN L t sid pkt w =
     (let w1 = add_player sid (sl_players loginPkt ! 0) w;
          w2 = add_player sid (sl_players loginPkt ! 1) w1
      in rbind (Make_S_LOGIN L t loginPkt w2) (\<lambda>(sendBuffer, w3). Inr (True, Send_call sid sendBuffer w3)))"

definition Handle_C_ENTER_GAME :: "wire_env \<Rightarrow> nat \<Rightarrow> nat \<Rightarrow> C_ENTER_GAME \<Rightarrow> world \<Rightarrow> (bool \<times> world) result" where
  "Handle_C_ENTER_GAME L t sid pkt w =
     (let index = ce_playerindex pkt; players = gs_players (sessions w sid) in
      if length players \<le> unat index then Inl OutOfBounds
      else
        let player = players ! unat index; w1 = upd_session sid (\<lambda>s. s\<lparr>gs_currentPlayer := Some player\<rparr>) w in
        rbind (GetRoom w1) (\<lambda>r.
        let w2 = upd_session sid (\<lambda>s. s\<lparr>gs_room := Some r\<rparr>) w1 in
        rbind (GetRoom w2) (\<lambda>r'.
        let w3 = Room_DoAsync r' (Enter_job player) w2; enterGamePkt = S_ENTER_GAME_new\<lparr>se_success := True\<rparr> in
        rbind (Make_S_ENTER_GAME L t enterGamePkt w3) (\<lambda>(sendBuffer, w4).
          Inr (True, Send_call (g_ownerSession player) sendBuffer w4)))))"

definition Handle_C_CHAT :: "wire_env \<Rightarrow> nat \<Rightarrow> nat \<Rightarrow> C_CHAT \<Rightarrow> world \<Rightarrow> (bool \<times> world) result" where
  "Handle_C_CHAT L t sid pkt w =
     (let chatPkt = S_CHAT_new\<lparr>sc_msg := cc_msg pkt\<rparr> in
      rbind (Make_S_CHAT L t chatPkt w) (\<lambda>(sendBuffer, w1).
      rbind (GetRoom w1) (\<lambda>r. Inr (True, Room_DoAsync r (Broadcast_job sendBuffer) w1))))"

text \<open>The entries ClientPacketHandler::Init sets, for the session and the thread they run in.\<close>

definition server_entries :: "wire_env \<Rightarrow> nat \<Rightarrow> nat \<Rightarrow> (u16 \<times> world handler) list" where
  "server_entries L t sid =
     [(PKT_C_LOGIN, HandlePacket_as (C_LOGIN_InternalParse L) C_LOGIN_Clear C_LOGIN_new (Handle_C_LOGIN L t sid)),
      (PKT_C_ENTER_GAME,
        HandlePacket_as (C_ENTER_GAME_InternalParse L) C_ENTER_GAME_Clear C_ENTER_GAME_new (Handle_C_ENTER_GAME L t sid)),
      (PKT_C_CHAT, HandlePacket_as (C_CHAT_InternalParse L) C_CHAT_Clear C_CHAT_new (Handle_C_CHAT L t sid))]"

section \<open>Sessions\<close>

definition OnConnected :: "nat \<Rightarrow> world \<Rightarrow> world" where
  "OnConnected sid = SessionManager_Add sid"

definition OnDisconnected :: "nat \<Rightarrow> world \<Rightarrow> world" where
  "OnDisconnected sid w =
     (let w1 = SessionManager_Remove sid w; s = sessions w1 sid;
          w2 = (case gs_currentPlayer s of
                  None \<Rightarrow> w1
                | Some player \<Rightarrow>
                    (case gs_room s of None \<Rightarrow> w1 | Some r \<Rightarrow> Room_DoAsync r (Leave_job player) w1))
      in upd_session sid (\<lambda>s. s\<lparr>gs_currentPlayer := None, gs_players := []\<rparr>) w2)"

text \<open>The result of the handler is not looked at.\<close>

definition OnRecvPacket :: "wire_env \<Rightarrow> nat \<Rightarrow> nat \<Rightarrow> world packet_callback" where
  "OnRecvPacket L t sid buffer len w =
     rbind (HandlePacket (Handler_Init (server_entries L t sid)) buffer (int (unat len)) w) (\<lambda>(_, w'). Inr w')"

section \<open>The start of the server\<close>

text \<open>main makes one room and adds it; a new session has no players and no room.\<close>

definition new_room :: room where
  "new_room = \<lparr>r_players = [], r_jobs = []\<rparr>"

definition new_game_session :: game_session where
  "new_game_session = \<lparr>gs_players = [], gs_currentPlayer = None, gs_room = None\<rparr>"

definition server_start :: "send_state \<Rightarrow> world" where
  "server_start s0 = RoomManager_Add 0
     \<lparr>idGenerator = 1, sessions = (\<lambda>_. new_game_session), m_sessions = [], rooms = (\<lambda>_. new_room), m_rooms = [],
      sends = [], w_send = s0\<rparr>"

end
