(* ===== verification/Game_Safety.thy ===== *)
theory Game_Safety
  imports Game_World
begin

text \<open>
  What the game server keeps true: a room's players are indexed by their own ids in ascending order,
  a session owns its players and its current player is one of them, player ids are unique as long as
  the generator has not wrapped, and the send buffers stay well formed. Then what a packet does, from
  the received bytes to the calls of Send.
\<close>

section \<open>The ordered map\<close>

text \<open>The contract of a std::map as the room uses it, and its implementation by ordered lists.\<close>

locale ordered_map =
  fixes put :: "'k::linorder \<Rightarrow> 'v \<Rightarrow> 'm \<Rightarrow> 'm" and del :: "'k \<Rightarrow> 'm \<Rightarrow> 'm"
    and entries :: "'m \<Rightarrow> ('k \<times> 'v) list" and ok :: "'m \<Rightarrow> bool"
  assumes ok_sorted: "ok m \<Longrightarrow> sorted_wrt (<) (map fst (entries m))"
    and put_ok: "ok m \<Longrightarrow> ok (put k v m)"
    and del_ok: "ok m \<Longrightarrow> ok (del k m)"
    and put_entries: "ok m \<Longrightarrow> map_of (entries (put k v m)) = (map_of (entries m))(k \<mapsto> v)"
    and del_entries: "ok m \<Longrightarrow> map_of (entries (del k m)) = (map_of (entries m))(k := None)"
begin

lemma put_set: "ok m \<Longrightarrow> set (entries (put k v m)) = insert (k, v) {(k', v') \<in> set (entries m). k' \<noteq> k}"
proof -
  assume m: "ok m"
  have d: "distinct (map fst (entries x))" if "ok x" for x
    using ok_sorted[OF that] by (simp add: strict_sorted_iff)
  have mem: "(a, b) \<in> set (entries x) \<longleftrightarrow> map_of (entries x) a = Some b" if "ok x" for a b x
    using map_of_eq_Some_iff[OF d[OF that], of a b] by blast
  show ?thesis by (auto simp: mem[OF m] mem[OF put_ok[OF m]] put_entries[OF m] split: if_splits)
qed

lemma del_set: "ok m \<Longrightarrow> set (entries (del k m)) = {(k', v') \<in> set (entries m). k' \<noteq> k}"
proof -
  assume m: "ok m"
  have d: "distinct (map fst (entries x))" if "ok x" for x
    using ok_sorted[OF that] by (simp add: strict_sorted_iff)
  have mem: "(a, b) \<in> set (entries x) \<longleftrightarrow> map_of (entries x) a = Some b" if "ok x" for a b x
    using map_of_eq_Some_iff[OF d[OF that], of a b] by blast
  show ?thesis by (auto simp: mem[OF m] mem[OF del_ok[OF m]] del_entries[OF m] split: if_splits)
qed

end

definition keys_sorted :: "('k::linorder \<times> 'v) list \<Rightarrow> bool" where
  "keys_sorted xs \<longleftrightarrow> sorted_wrt (<) (map fst xs)"

lemma keys_map_assign: "fst ` set (map_assign k v xs) = insert k (fst ` set xs)"
  by (induction k v xs rule: map_assign.induct) auto

lemma keys_map_erase: "fst ` set (map_erase k xs) \<subseteq> fst ` set xs"
  by (induction k xs rule: map_erase.induct) auto

lemma map_assign_sorted: "keys_sorted xs \<Longrightarrow> keys_sorted (map_assign k v xs)"
proof (induction k v xs rule: map_assign.induct)
  case (2 k v k' v' xs)
  then show ?case using keys_map_assign[of k v xs] by (auto simp: keys_sorted_def)
qed (simp add: keys_sorted_def)

lemma map_erase_sorted: "keys_sorted xs \<Longrightarrow> keys_sorted (map_erase k xs)"
proof (induction k xs rule: map_erase.induct)
  case (2 k k' v' xs)
  moreover have "k' < a" if "a \<in> fst ` set (map_erase k xs)" "\<forall>x\<in>set xs. k' < fst x" for a
  proof -
    have "a \<in> fst ` set xs" using that(1) keys_map_erase[of k xs] by blast
    then show ?thesis using that(2) by auto
  qed
  ultimately show ?case by (auto simp: keys_sorted_def)
qed (simp add: keys_sorted_def)

lemma map_of_above: "\<forall>x\<in>fst ` set xs. k < x \<Longrightarrow> map_of xs k = (None :: 'v option)" for k :: "'k::linorder"
  by (induction xs) auto

lemma map_of_assign: "keys_sorted xs \<Longrightarrow> map_of (map_assign k v xs) = (map_of xs)(k \<mapsto> v)"
proof (induction k v xs rule: map_assign.induct)
  case (2 k v k' v' xs)
  then show ?case by (auto simp: keys_sorted_def fun_eq_iff)
qed simp

lemma map_of_erase: "keys_sorted xs \<Longrightarrow> map_of (map_erase k xs) = (map_of xs)(k := None)"
proof (induction k xs rule: map_erase.induct)
  case (2 k k' v' xs)
  then show ?case
    using map_of_above[of xs k'] by (auto simp: keys_sorted_def fun_eq_iff)
qed simp

interpretation room_map: ordered_map map_assign map_erase "\<lambda>xs. xs" keys_sorted
  by unfold_locales
    (simp_all add: map_assign_sorted map_erase_sorted map_of_assign map_of_erase, simp add: keys_sorted_def)

section \<open>The steps of the server\<close>

text \<open>
  The machine of the handlers: each rule is one callback, one handler or one job as the code has it, with
  any message its parser can have yielded, so that the text of a chat is well formed (C_CHAT_parse_ok).
  The second component counts the logins. It is the frame of the invariants, not a specification; what
  the server promises is stated without the handlers in Game_Contract.
\<close>

type_synonym game_sys = "world \<times> nat"

inductive game_step :: "wire_env \<Rightarrow> game_sys \<Rightarrow> game_sys \<Rightarrow> bool" for L :: wire_env where
  step_connect: "game_step L (w, n) (OnConnected sid w, n)"
| step_disconnect: "game_step L (w, n) (OnDisconnected sid w, n)"
| step_login: "Handle_C_LOGIN L t sid pkt w = Inr (b, w') \<Longrightarrow> game_step L (w, n) (w', Suc n)"
| step_enter: "Handle_C_ENTER_GAME L t sid pkt w = Inr (b, w') \<Longrightarrow> game_step L (w, n) (w', n)"
| step_chat: "string_ok (cc_msg pkt) \<Longrightarrow> Handle_C_CHAT L t sid pkt w = Inr (b, w') \<Longrightarrow> game_step L (w, n) (w', n)"
| step_execute: "game_step L (w, n) (Room_Execute r w, n)"

definition game_init :: "game_sys \<Rightarrow> bool" where
  "game_init x \<longleftrightarrow> x = (server_start send_init, 0)"

section \<open>Rooms and sessions\<close>

definition room_ok :: "room \<Rightarrow> bool" where
  "room_ok rm \<longleftrightarrow> keys_sorted (r_players rm) \<and> (\<forall>(k, p)\<in>set (r_players rm). k = g_playerId p)"

definition session_ok :: "nat \<Rightarrow> game_session \<Rightarrow> bool" where
  "session_ok sid s \<longleftrightarrow> (\<forall>p\<in>set (gs_players s). g_ownerSession p = sid)
     \<and> (\<forall>p. gs_currentPlayer s = Some p \<longrightarrow> p \<in> set (gs_players s) \<and> gs_room s \<noteq> None)"

definition shape_inv :: "world \<Rightarrow> bool" where
  "shape_inv w \<longleftrightarrow> (\<forall>r. room_ok (rooms w r)) \<and> (\<forall>sid. session_ok sid (sessions w sid)) \<and> m_rooms w = [0]"

lemma shape_invD:
  assumes "shape_inv w"
  shows "room_ok (rooms w r)" and "session_ok sid (sessions w sid)" and "m_rooms w = [0]"
  using assms by (simp_all add: shape_inv_def)

text \<open>Which parts of the world the operations leave alone.\<close>

lemma Send_call_simps [simp]:
  "rooms (Send_call sid b w) = rooms w" "sessions (Send_call sid b w) = sessions w"
  "m_rooms (Send_call sid b w) = m_rooms w" "idGenerator (Send_call sid b w) = idGenerator w"
  "w_send (Send_call sid b w) = w_send w" "m_sessions (Send_call sid b w) = m_sessions w"
  "sends (Send_call sid b w) = sends w @ [(sid, b)]"
  by (simp_all add: Send_call_def)

lemma Broadcast_loop_eq: "Broadcast_loop ps b w = w\<lparr>sends := sends w @ map (\<lambda>(k, p). (g_ownerSession p, b)) ps\<rparr>"
proof (induction ps b w rule: Broadcast_loop.induct)
  case (2 k p ps b w)
  then show ?case by (simp add: Send_call_def)
qed simp

lemma Room_Broadcast_eq:
  "Room_Broadcast r b w = w\<lparr>sends := sends w @ map (\<lambda>(k, p). (g_ownerSession p, b)) (r_players (rooms w r))\<rparr>"
  by (simp add: Room_Broadcast_def Broadcast_loop_eq)

lemma with_buffer_Inr: "with_buffer mk w = Inr (b, w') \<longleftrightarrow> (\<exists>s. mk (w_send w) = Inr (b, s) \<and> w' = w\<lparr>w_send := s\<rparr>)"
  by (auto simp: with_buffer_def rbind_eq_Inr)

lemma GetRoom_Inr: "GetRoom w = Inr r \<longleftrightarrow> (\<exists>rs. m_rooms w = r # rs)"
  by (auto simp: GetRoom_def split: list.splits)

lemmas make_defs = Make_S_LOGIN_def Make_S_ENTER_GAME_def Make_S_CHAT_def

text \<open>The world after each handler, as far as rooms and sessions go.\<close>

definition enter_world :: "nat \<Rightarrow> game_player \<Rightarrow> nat \<Rightarrow> world \<Rightarrow> world" where
  "enter_world sid player r w =
     Room_DoAsync r (Enter_job player)
       (upd_session sid (\<lambda>s. s\<lparr>gs_currentPlayer := Some player, gs_room := Some r\<rparr>) w)"

lemma Handle_C_ENTER_GAME_Inr:
  assumes "Handle_C_ENTER_GAME L t sid pkt w = Inr (b, w')"
  shows "\<exists>player r i s. unat (ce_playerindex pkt) < length (gs_players (sessions w sid))
    \<and> player = gs_players (sessions w sid) ! unat (ce_playerindex pkt) \<and> GetRoom w = Inr r
    \<and> MakeSendBuffer S_ENTER_GAME_ByteSizeLong (S_ENTER_GAME_InternalSerialize L) t
        (S_ENTER_GAME_new\<lparr>se_success := True\<rparr>) PKT_S_ENTER_GAME (w_send w) = Inr (i, s)
    \<and> w' = Send_call (g_ownerSession player) i ((enter_world sid player r w)\<lparr>w_send := s\<rparr>)"
  using assms
  by (auto simp: Handle_C_ENTER_GAME_def Let_def rbind_eq_Inr make_defs with_buffer_Inr enter_world_def
      Room_DoAsync_def upd_room_def upd_session_def GetRoom_Inr split: if_splits)

lemma Handle_C_CHAT_Inr:
  assumes "Handle_C_CHAT L t sid pkt w = Inr (b, w')"
  shows "\<exists>r i s. GetRoom w = Inr r
    \<and> MakeSendBuffer S_CHAT_ByteSizeLong (S_CHAT_InternalSerialize L) t
        (S_CHAT_new\<lparr>sc_msg := cc_msg pkt\<rparr>) PKT_S_CHAT (w_send w) = Inr (i, s)
    \<and> w' = Room_DoAsync r (Broadcast_job i) (w\<lparr>w_send := s\<rparr>)"
  using assms
  by (auto simp: Handle_C_CHAT_def Let_def rbind_eq_Inr make_defs with_buffer_Inr GetRoom_Inr)

definition login_world :: "nat \<Rightarrow> world \<Rightarrow> world" where
  "login_world sid w = add_player sid (sl_players loginPkt ! 1) (add_player sid (sl_players loginPkt ! 0) w)"

lemma Handle_C_LOGIN_Inr:
  assumes "Handle_C_LOGIN L t sid pkt w = Inr (b, w')"
  shows "\<exists>i s. MakeSendBuffer S_LOGIN_ByteSizeLong (S_LOGIN_InternalSerialize L) t loginPkt PKT_S_LOGIN (w_send w) = Inr (i, s)
    \<and> w' = Send_call sid i ((login_world sid w)\<lparr>w_send := s\<rparr>)"
  using assms
  by (auto simp: Handle_C_LOGIN_def Let_def rbind_eq_Inr make_defs with_buffer_Inr login_world_def add_player_def
      upd_session_def)

lemma login_world_simps:
  "rooms (login_world sid w) = rooms w" "m_rooms (login_world sid w) = m_rooms w"
  "idGenerator (login_world sid w) = idGenerator w + 2" "w_send (login_world sid w) = w_send w"
  "m_sessions (login_world sid w) = m_sessions w" "sends (login_world sid w) = sends w"
  "sessions (login_world sid w) = (sessions w)(sid := (sessions w sid)\<lparr>gs_players := gs_players (sessions w sid) @
     [\<lparr>g_playerId = idGenerator w, g_name = utf8_literal ''TempName1'', g_type = PLAYER_TYPE_KNIGHT, g_ownerSession = sid\<rparr>,
      \<lparr>g_playerId = idGenerator w + 1, g_name = utf8_literal ''TempName2'', g_type = PLAYER_TYPE_MAGE, g_ownerSession = sid\<rparr>]\<rparr>)"
  by (simp_all add: login_world_def add_player_def upd_session_def loginPkt_def login_player_def Let_def)

section \<open>The invariant\<close>

lemma room_ok_enter: "room_ok rm \<Longrightarrow> room_ok (rm\<lparr>r_players := map_assign (g_playerId p) p (r_players rm)\<rparr>)"
  by (auto simp: room_ok_def map_assign_sorted room_map.put_set)

lemma room_ok_leave: "room_ok rm \<Longrightarrow> room_ok (rm\<lparr>r_players := map_erase k (r_players rm)\<rparr>)"
  by (auto simp: room_ok_def map_erase_sorted room_map.del_set)

lemma shape_room: "shape_inv w \<Longrightarrow> room_ok (f (rooms w r)) \<Longrightarrow> shape_inv (upd_room r f w)"
  by (simp add: shape_inv_def upd_room_def)

lemma shape_job: "shape_inv w \<Longrightarrow> shape_inv (run_job r job w)"
proof (cases job)
  case (Broadcast_job b)
  assume "shape_inv w"
  then show ?thesis using Broadcast_job by (simp add: Room_Broadcast_eq shape_inv_def)
qed (auto simp: Room_Enter_def Room_Leave_def intro!: shape_room room_ok_enter room_ok_leave dest: shape_invD)

lemma shape_execute:
  assumes "shape_inv w"
  shows "shape_inv (Room_Execute r w)"
proof -
  have "shape_inv (upd_room r (\<lambda>rm. rm\<lparr>r_jobs := jobs\<rparr>) w)" for jobs
    using shape_invD(1)[OF assms, of r] by (intro shape_room[OF assms]) (simp add: room_ok_def)
  then show ?thesis using assms by (auto simp: Room_Execute_def shape_job split: list.split)
qed

lemma shape_async: "shape_inv w \<Longrightarrow> shape_inv (Room_DoAsync r job w)"
  by (simp add: Room_DoAsync_def upd_room_def shape_inv_def room_ok_def)

lemma shape_send: "shape_inv (w\<lparr>w_send := s\<rparr>) \<longleftrightarrow> shape_inv w" "shape_inv (Send_call sid b w) \<longleftrightarrow> shape_inv w"
  by (simp_all add: shape_inv_def)

lemma shape_session: "shape_inv w \<Longrightarrow> session_ok sid (f (sessions w sid)) \<Longrightarrow> shape_inv (upd_session sid f w)"
  by (simp add: shape_inv_def upd_session_def)

lemma shape_disconnect: "shape_inv w \<Longrightarrow> shape_inv (OnDisconnected sid w)"
  unfolding OnDisconnected_def Let_def
  by (rule shape_session)
    (auto simp: SessionManager_Remove_def session_ok_def shape_inv_def Room_DoAsync_def upd_room_def room_ok_def
      split: option.splits)

lemma shape_login: "shape_inv w \<Longrightarrow> shape_inv (login_world sid w)"
  by (auto simp: shape_inv_def login_world_simps session_ok_def)

lemma shape_enter:
  assumes "shape_inv w" and "player \<in> set (gs_players (sessions w sid))"
  shows "shape_inv (enter_world sid player r w)"
  unfolding enter_world_def
  using shape_invD(2)[OF assms(1), of sid] assms
  by (intro shape_async shape_session) (auto simp: session_ok_def)

lemma shape_step:
  assumes "shape_inv (fst x)" and "game_step L x y"
  shows "shape_inv (fst y)"
  using assms(2,1)
proof (cases rule: game_step.cases)
  case (step_connect w n sid)
  then show ?thesis using assms by (simp add: OnConnected_def SessionManager_Add_def shape_inv_def)
next
  case (step_login t sid pkt w b w' n)
  then show ?thesis using Handle_C_LOGIN_Inr[OF step_login(3)] assms by (auto simp: shape_send shape_login)
next
  case (step_enter t sid pkt w b w' n)
  then show ?thesis using Handle_C_ENTER_GAME_Inr[OF step_enter(3)] assms by (auto simp: shape_send intro!: shape_enter)
next
  case (step_chat t sid pkt w b w' n)
  then show ?thesis using Handle_C_CHAT_Inr[OF step_chat(4)] assms by (auto simp: shape_send intro!: shape_async)
qed (use assms in \<open>simp_all add: shape_disconnect shape_execute\<close>)

text \<open>
  The send buffers, with no buffer open between the steps; what Send was called with, and what waits
  to be broadcast, is a buffer that holds one whole packet.
\<close>

definition whole_packet :: "world \<Rightarrow> nat \<Rightarrow> bool" where
  "whole_packet w b \<longleftrightarrow> (\<exists>pktId body. length body \<le> 5996
     \<and> buffer_bytes (w_send w) b = Some (packet_bytes pktId body))"

definition buffers_inv :: "world \<Rightarrow> bool" where
  "buffers_inv w \<longleftrightarrow> send_inv None (w_send w, \<lambda>_. None)
     \<and> (\<forall>(sid, b)\<in>set (sends w). whole_packet w b)
     \<and> (\<forall>r b. Broadcast_job b \<in> set (r_jobs (rooms w r)) \<longrightarrow> whole_packet w b)"

lemma buffer_bytes_Some: "buffer_bytes s b = Some bs \<Longrightarrow> buffers s b \<noteq> None"
  by (cases "buffers s b") (auto simp: buffer_bytes_def)

text \<open>A message that could be made into a packet: the earlier buffers keep their packets.\<close>

definition made :: "world \<Rightarrow> nat \<Rightarrow> send_state \<Rightarrow> bool" where
  "made w i s \<longleftrightarrow> send_inv None (s, \<lambda>_. None) \<and> whole_packet (w\<lparr>w_send := s\<rparr>) i
     \<and> (\<forall>b. whole_packet w b \<longrightarrow> whole_packet (w\<lparr>w_send := s\<rparr>) b)"

context wire_message
begin

lemma made_packet:
  assumes inv: "send_inv None (w_send w, \<lambda>_. None)" and v: "valid pkt"
    and mk: "MakeSendBuffer byte_size serialize t pkt pktId (w_send w) = Inr (i, s)"
  shows "made w i s"
proof -
  note r = make_result[OF inv _ v mk]
  have "length (serialize (snd (byte_size pkt))) \<le> 5996" using size_law[OF v] r(1) by simp
  then have "whole_packet (w\<lparr>w_send := s\<rparr>) i" using r(2) by (auto simp: whole_packet_def)
  moreover have "whole_packet (w\<lparr>w_send := s\<rparr>) b" if "whole_packet w b" for b
  proof -
    have "b \<noteq> i" using that r(5) by (auto simp: whole_packet_def dest!: buffer_bytes_Some)
    then show ?thesis using that r(4) by (simp add: whole_packet_def)
  qed
  ultimately show ?thesis using r(3) by (simp add: made_def)
qed

end

lemma well_formed_all_ascii: "\<forall>b\<in>set s. b < 0x80 \<Longrightarrow> well_formed s"
  unfolding well_formed_def using ascii_encoding[of "length s" s] by (intro exI[of _ "map unat s"]) simp

lemma names: "string_ok (utf8_literal ''TempName1'')" "string_ok (utf8_literal ''TempName2'')"
  "length (utf8_literal ''TempName1'') = 9" "length (utf8_literal ''TempName2'') = 9"
  by (auto simp: string_ok_def utf8_literal_def max_size_def intro!: well_formed_all_ascii)

lemma login_player_size:
  assumes "length nm = 9" and "ty = 1 \<or> ty = 2"
  shows "fst (Player_ByteSizeLong (login_player nm ty)) = 13"
proof -
  have v: "VarintSize32 9 = 1" "VarintSize32 1 = 1" "VarintSize32 2 = 1" by (simp_all add: VarintSize32_venc venc_small)
  have "VarintSize32SignExtended ty = 1" using assms(2) v by (auto simp: VarintSize32SignExtended_def)
  then show ?thesis
    using assms v by (auto simp: Player_ByteSizeLong_def login_player_def Player_new_def final_size_def Let_def
        LengthDelimitedSize_def)
qed

lemma loginPkt_valid: "S_LOGIN_valid 100 loginPkt"
  using login_player_size names
  by (auto simp: S_LOGIN_valid_def loginPkt_def Player_valid_def unknown_ok_def foreign_def PLAYER_TYPE_KNIGHT_def
      PLAYER_TYPE_MAGE_def max_size_def S_LOGIN_new_def login_player_def Player_new_def)

lemma loginPkt_size: "fst (S_LOGIN_ByteSizeLong loginPkt) = 32"
proof -
  have "LengthDelimitedSize 13 = 14" by (simp add: LengthDelimitedSize_def VarintSize32_venc venc_small)
  then show ?thesis
    using login_player_size names
    by (simp add: S_LOGIN_ByteSizeLong_def loginPkt_def S_LOGIN_new_def final_size_def Let_def PLAYER_TYPE_KNIGHT_def
        PLAYER_TYPE_MAGE_def)
qed

lemma chatPkt_valid: "string_ok msg \<Longrightarrow> S_CHAT_valid 100 (S_CHAT_new\<lparr>sc_msg := msg\<rparr>)"
  by (simp add: valid_defs new_defs unknown_ok_def foreign_def)

lemma enterPkt_valid: "S_ENTER_GAME_valid 100 (S_ENTER_GAME_new\<lparr>se_success := b\<rparr>)"
  by (simp add: valid_defs new_defs unknown_ok_def foreign_def)

text \<open>Only the buffers, the calls of Send and the jobs matter.\<close>

lemma buffers_inv_frame:
  assumes "buffers_inv w" and "made w i s" and "w_send w' = s"
    and "set (sends w') \<subseteq> set (sends w) \<union> UNIV \<times> {i}"
    and "\<And>r. set (r_jobs (rooms w' r)) \<subseteq> set (r_jobs (rooms w r)) \<union> {Broadcast_job i} \<union> range Enter_job \<union> range Leave_job"
  shows "buffers_inv w'"
proof -
  have eq: "whole_packet w' b \<longleftrightarrow> whole_packet (w\<lparr>w_send := s\<rparr>) b" for b
    using assms(3) by (simp add: whole_packet_def)
  have "whole_packet w' b" if "(sid, b) \<in> set (sends w')" for sid b
    using that assms(1,2,4) unfolding eq buffers_inv_def made_def by fastforce
  moreover have "whole_packet w' b" if "Broadcast_job b \<in> set (r_jobs (rooms w' r))" for r b
    using that assms(1,2) assms(5)[of r] unfolding eq buffers_inv_def made_def by fastforce
  ultimately show ?thesis using assms(2,3) by (auto simp: buffers_inv_def made_def)
qed

lemma buffers_inv_same:
  assumes "buffers_inv w" and "w_send w' = w_send w"
    and "\<And>sid b. (sid, b) \<in> set (sends w') \<Longrightarrow> (sid, b) \<in> set (sends w) \<or> whole_packet w b"
    and "\<And>r. set (r_jobs (rooms w' r)) \<subseteq> set (r_jobs (rooms w r)) \<union> range Enter_job \<union> range Leave_job"
  shows "buffers_inv w'"
proof -
  have eq: "whole_packet w' b \<longleftrightarrow> whole_packet w b" for b using assms(2) by (simp add: whole_packet_def)
  have "whole_packet w' b" if "(sid, b) \<in> set (sends w')" for sid b
    using assms(3)[OF that] assms(1) unfolding eq buffers_inv_def by fastforce
  moreover have "whole_packet w' b" if "Broadcast_job b \<in> set (r_jobs (rooms w' r))" for r b
    using that assms(1) assms(4)[of r] unfolding eq buffers_inv_def by fastforce
  ultimately show ?thesis using assms(1,2) by (auto simp: buffers_inv_def)
qed

lemma buffers_job:
  assumes "buffers_inv w" and "r_jobs (rooms w r) = job # jobs"
  shows "buffers_inv (Room_Execute r w)"
proof (rule buffers_inv_same[OF assms(1)])
  have wp: "whole_packet w b" if "job = Broadcast_job b" for b
  proof -
    have "Broadcast_job b \<in> set (r_jobs (rooms w r))" using assms(2) that by simp
    then show ?thesis using assms(1) unfolding buffers_inv_def by blast
  qed
  show "w_send (Room_Execute r w) = w_send w"
    using assms(2) by (cases job) (simp_all add: Room_Execute_def Room_Enter_def Room_Leave_def Room_Broadcast_eq upd_room_def)
  show "(sid, b) \<in> set (sends w) \<or> whole_packet w b" if "(sid, b) \<in> set (sends (Room_Execute r w))" for sid b
    using that assms(2) wp
    by (cases job) (auto simp: Room_Execute_def Room_Enter_def Room_Leave_def Room_Broadcast_eq upd_room_def)
  show "set (r_jobs (rooms (Room_Execute r w) r')) \<subseteq> set (r_jobs (rooms w r')) \<union> range Enter_job \<union> range Leave_job" for r'
    using assms(2) by (cases job) (auto simp: Room_Execute_def Room_Enter_def Room_Leave_def Room_Broadcast_eq upd_room_def)
qed

lemma buffers_step:
  assumes "buffers_inv (fst x)" and "game_step L x y"
  shows "buffers_inv (fst y)"
  using assms(2,1)
proof (cases rule: game_step.cases)
  case (step_connect w n sid)
  then have "buffers_inv w" using assms(1) by simp
  then have "buffers_inv (OnConnected sid w)"
    by (rule buffers_inv_same) (auto simp: OnConnected_def SessionManager_Add_def)
  then show ?thesis using step_connect by simp
next
  case (step_disconnect w n sid)
  then have "buffers_inv w" using assms(1) by simp
  then have "buffers_inv (OnDisconnected sid w)"
    by (rule buffers_inv_same)
      (auto simp: OnDisconnected_def SessionManager_Remove_def Let_def upd_session_def Room_DoAsync_def upd_room_def
        split: option.splits if_splits)
  then show ?thesis using step_disconnect by simp
next
  case (step_login t sid pkt w b w' n)
  then obtain i s where mk: "MakeSendBuffer S_LOGIN_ByteSizeLong (S_LOGIN_InternalSerialize L) t loginPkt PKT_S_LOGIN (w_send w) = Inr (i, s)"
    and w': "w' = Send_call sid i ((login_world sid w)\<lparr>w_send := s\<rparr>)" using Handle_C_LOGIN_Inr by blast
  have inv: "buffers_inv w" using step_login assms(1) by simp
  then have "made w i s" using S_LOGIN.made_packet[OF _ loginPkt_valid mk] by (simp add: buffers_inv_def)
  have "buffers_inv w'"
    by (rule buffers_inv_frame[OF inv \<open>made w i s\<close>]) (auto simp: w' login_world_simps Send_call_def)
  then show ?thesis using step_login by simp
next
  case (step_enter t sid pkt w b w' n)
  obtain player r i s where mk: "MakeSendBuffer S_ENTER_GAME_ByteSizeLong (S_ENTER_GAME_InternalSerialize L) t
      (S_ENTER_GAME_new\<lparr>se_success := True\<rparr>) PKT_S_ENTER_GAME (w_send w) = Inr (i, s)"
    and w': "w' = Send_call (g_ownerSession player) i ((enter_world sid player r w)\<lparr>w_send := s\<rparr>)"
    using Handle_C_ENTER_GAME_Inr[OF step_enter(3)] by blast
  have inv: "buffers_inv w" using step_enter assms(1) by simp
  then have "made w i s" using S_ENTER_GAME.made_packet[OF _ enterPkt_valid mk] by (simp add: buffers_inv_def)
  have "sends w' = sends w @ [(sid, i)] \<or> sends w' = sends w @ [(g_ownerSession player, i)]"
    by (simp add: w' enter_world_def Room_DoAsync_def upd_room_def upd_session_def)
  then have "buffers_inv w'"
    by (intro buffers_inv_frame[OF inv \<open>made w i s\<close>])
      (auto simp: w' enter_world_def Room_DoAsync_def upd_room_def upd_session_def Send_call_def)
  then show ?thesis using step_enter by simp
next
  case (step_chat pkt t sid w b w' n)
  obtain r i s where mk: "MakeSendBuffer S_CHAT_ByteSizeLong (S_CHAT_InternalSerialize L) t
      (S_CHAT_new\<lparr>sc_msg := cc_msg pkt\<rparr>) PKT_S_CHAT (w_send w) = Inr (i, s)"
    and w': "w' = Room_DoAsync r (Broadcast_job i) (w\<lparr>w_send := s\<rparr>)"
    using Handle_C_CHAT_Inr[OF step_chat(4)] by blast
  have inv: "buffers_inv w" using step_chat assms(1) by simp
  then have "made w i s" using S_CHAT.made_packet[OF _ chatPkt_valid[OF step_chat(3)] mk] by (simp add: buffers_inv_def)
  have "buffers_inv w'"
    by (rule buffers_inv_frame[OF inv \<open>made w i s\<close>]) (auto simp: w' Room_DoAsync_def upd_room_def)
  then show ?thesis using step_chat by simp
next
  case (step_execute w n r)
  then show ?thesis
    using assms(1) buffers_job[of w r] by (cases "r_jobs (rooms w r)") (simp_all add: Room_Execute_def)
qed

text \<open>Player ids: the generator counts from 1 in steps of two per login.\<close>

definition all_ids :: "world \<Rightarrow> nat \<Rightarrow> u64 list" where
  "all_ids w sid = map g_playerId (gs_players (sessions w sid))"

definition ids_unique :: "world \<Rightarrow> bool" where
  "ids_unique w \<longleftrightarrow> (\<forall>sid. distinct (all_ids w sid))
     \<and> (\<forall>sid sid'. sid \<noteq> sid' \<longrightarrow> set (all_ids w sid) \<inter> set (all_ids w sid') = {})"

definition player_ids_inv :: "game_sys \<Rightarrow> bool" where
  "player_ids_inv x \<longleftrightarrow> (case x of (w, n) \<Rightarrow> 2 * n + 1 < 2 ^ 64 \<longrightarrow>
     unat (idGenerator w) = 2 * n + 1 \<and> (\<forall>sid. \<forall>k\<in>set (all_ids w sid). unat k < 2 * n + 1) \<and> ids_unique w)"

lemma ids_login:
  assumes "player_ids_inv (w, n)" and "idGenerator w' = idGenerator w + 2"
    and "\<And>s. all_ids w' s = (if s = sid then all_ids w sid @ [idGenerator w, idGenerator w + 1] else all_ids w s)"
  shows "player_ids_inv (w', Suc n)"
  unfolding player_ids_inv_def prod.case
proof (intro impI)
  assume lt: "2 * Suc n + 1 < 2 ^ 64"
  then have old: "unat (idGenerator w) = 2 * n + 1" "\<And>sid k. k \<in> set (all_ids w sid) \<Longrightarrow> unat k < 2 * n + 1" "ids_unique w"
    using assms(1) by (auto simp: player_ids_inv_def)
  have g: "unat (idGenerator w + 1) = 2 * n + 2" "unat (idGenerator w + 2) = 2 * n + 3"
    using lt old(1) by (simp_all add: unat_word_ariths take_bit_nat_eq_self)
  have fresh: "idGenerator w \<notin> set (all_ids w s)" "idGenerator w + 1 \<notin> set (all_ids w s)" for s
    using old(1) old(2)[of _ s] g(1) by force+
  have "idGenerator w \<noteq> idGenerator w + 1" by simp
  then have "ids_unique w'" using old(3) fresh by (auto simp: ids_unique_def assms(3))
  moreover have "unat k < 2 * Suc n + 1" if "k \<in> set (all_ids w' s)" for k s
    using that old(1) old(2)[of k s] old(2)[of k sid] g(1) by (auto simp: assms(3) split: if_splits)
  ultimately show "unat (idGenerator w') = 2 * Suc n + 1 \<and> (\<forall>sid. \<forall>k\<in>set (all_ids w' sid). unat k < 2 * Suc n + 1)
      \<and> ids_unique w'"
    using g(2) assms(2) by simp
qed

lemma ids_fewer:
  assumes "player_ids_inv (w, n)" and "idGenerator w' = idGenerator w"
    and "\<And>s. all_ids w' s = all_ids w s \<or> all_ids w' s = []"
  shows "player_ids_inv (w', n)"
proof -
  have sub: "set (all_ids w' s) \<subseteq> set (all_ids w s)" for s using assms(3)[of s] by auto
  have "distinct (all_ids w' s)" if "ids_unique w" for s
    using that assms(3)[of s] by (auto simp: ids_unique_def)
  then have "ids_unique w \<Longrightarrow> ids_unique w'" using sub unfolding ids_unique_def by blast
  then show ?thesis using assms(1,2) sub by (fastforce simp: player_ids_inv_def)
qed

lemma ids_step:
  assumes "player_ids_inv x" and "game_step L x y"
  shows "player_ids_inv y"
  using assms(2,1)
proof (cases rule: game_step.cases)
  case (step_connect w n sid)
  then show ?thesis using assms(1) ids_fewer[of w n "OnConnected sid w"]
    by (simp add: OnConnected_def SessionManager_Add_def all_ids_def)
next
  case (step_disconnect w n sid)
  then show ?thesis using assms(1) ids_fewer[of w n "OnDisconnected sid w"]
    by (auto simp: OnDisconnected_def SessionManager_Remove_def Let_def upd_session_def Room_DoAsync_def upd_room_def
        all_ids_def split: option.splits)
next
  case (step_login t sid pkt w b w' n)
  obtain i s where w': "w' = Send_call sid i ((login_world sid w)\<lparr>w_send := s\<rparr>)"
    using Handle_C_LOGIN_Inr[OF step_login(3)] by blast
  then show ?thesis using step_login assms(1) ids_login[of w n w' sid] by (simp add: login_world_simps all_ids_def)
next
  case (step_enter t sid pkt w b w' n)
  obtain player r i s where w': "w' = Send_call (g_ownerSession player) i ((enter_world sid player r w)\<lparr>w_send := s\<rparr>)"
    using Handle_C_ENTER_GAME_Inr[OF step_enter(3)] by blast
  then show ?thesis using step_enter assms(1) ids_fewer[of w n w']
    by (auto simp: enter_world_def Room_DoAsync_def upd_room_def upd_session_def all_ids_def)
next
  case (step_chat pkt t sid w b w' n)
  obtain r i s where w': "w' = Room_DoAsync r (Broadcast_job i) (w\<lparr>w_send := s\<rparr>)"
    using Handle_C_CHAT_Inr[OF step_chat(4)] by blast
  then show ?thesis using step_chat assms(1) ids_fewer[of w n w']
    by (auto simp: Room_DoAsync_def upd_room_def all_ids_def)
next
  case (step_execute w n r)
  have "sessions (Room_Execute r w) = sessions w" "idGenerator (Room_Execute r w) = idGenerator w"
    by (cases "r_jobs (rooms w r)"; cases "hd (r_jobs (rooms w r))";
        simp add: Room_Execute_def Room_Enter_def Room_Leave_def Room_Broadcast_eq upd_room_def)+
  then show ?thesis using step_execute assms(1) ids_fewer[of w n "Room_Execute r w"] by (simp add: all_ids_def)
qed

section \<open>The invariant of the server\<close>

definition game_inv :: "game_sys \<Rightarrow> bool" where
  "game_inv x \<longleftrightarrow> shape_inv (fst x) \<and> buffers_inv (fst x) \<and> player_ids_inv x"

lemma send_buffers_init: "send_inv None (send_init, \<lambda>_. None)"
  by (auto simp: send_inv_def send_init_def inv_defs tls_set_def buf_set_def new_chunk_def)

lemma game_init_inv: "game_init x \<Longrightarrow> game_inv x"
  by (auto simp: game_init_def game_inv_def server_start_def RoomManager_Add_def shape_inv_def room_ok_def
      keys_sorted_def new_room_def session_ok_def new_game_session_def buffers_inv_def send_buffers_init player_ids_inv_def
      ids_unique_def all_ids_def)

interpretation game: invariant_system game_init "game_step L" game_inv for L
  by unfold_locales
    (rule game_init_inv, assumption, unfold game_inv_def, blast intro: shape_step buffers_step ids_step)

end
