(* ===== verification/Game_Properties.thy ===== *)
theory Game_Properties
  imports Game_Safety
begin

text \<open>
  What a received packet does to the game server, from its bytes to the calls of Send, and what holds
  in every state that connections, packets, jobs and disconnections can make.
\<close>

section \<open>Which step a packet is\<close>

lemma packet_bytes_header:
  "read_header (packet_bytes pktId body @ rest) = \<lparr>hd_size = word_of_nat (length body + sizeof_PacketHeader), hd_id = pktId\<rparr>"
  by (simp add: packet_bytes_def read_header_bytes)

lemma length_packet_bytes [simp]: "length (packet_bytes pktId body) = length body + 4"
  by (simp add: packet_bytes_def sizeof_PacketHeader_def)

lemma packet_wf:
  assumes "length body \<le> 65531"
  shows "wf_frame (packet_bytes pktId body)"
proof -
  have "read_header (packet_bytes pktId body) = \<lparr>hd_size = word_of_nat (length body + sizeof_PacketHeader), hd_id = pktId\<rparr>"
    using packet_bytes_header[of pktId body "[]"] by simp
  then have "frame_len (packet_bytes pktId body) = length body + 4"
    using assms by (simp add: frame_len_def sizeof_PacketHeader_def unsigned_of_nat take_bit_nat_eq_self del: of_nat_add)
  then show ?thesis by (simp add: wf_frame_def)
qed

lemma packet_frame:
  assumes "length body \<le> 65531"
  shows "split_frames (packet_bytes pktId body) = ([packet_bytes pktId body], [])"
  using split_frames_wf[of "[packet_bytes pktId body]" "[]"] packet_wf[OF assms] by (simp add: incomplete_def)

lemma table_bytes:
  assumes "unat pktId < UINT16_MAX" and "length body \<le> 65531"
  shows "HandlePacket (Handler_Init es) (packet_bytes pktId body @ rest) (int (unat (word_of_nat (length body + 4) :: u16))) w
    = last_entry es pktId Handle_INVALID (packet_bytes pktId body @ rest) (int (length (packet_bytes pktId body))) w"
proof -
  have "unat (word_of_nat (length body + 4) :: u16) = length (packet_bytes pktId body)"
    using assms(2) by (simp add: unsigned_of_nat take_bit_nat_eq_self del: of_nat_add)
  moreover have "hd_id (read_header (packet_bytes pktId body @ rest)) = pktId" by (simp add: packet_bytes_header)
  ultimately show ?thesis using HandlePacket_table[of "packet_bytes pktId body @ rest" es] assms(1) by simp
qed

lemma server_entry:
  assumes "hd_id (read_header buffer) = PKT_C_LOGIN \<or> hd_id (read_header buffer) = PKT_C_ENTER_GAME
    \<or> hd_id (read_header buffer) = PKT_C_CHAT"
  shows "HandlePacket (Handler_Init (server_entries L t sid)) buffer len w
    = last_entry (server_entries L t sid) (hd_id (read_header buffer)) Handle_INVALID buffer len w"
  by (rule HandlePacket_table) (use assms in \<open>auto simp: packet_ids UINT16_MAX_def\<close>)

lemma entry_of:
  "last_entry (server_entries L t sid) PKT_C_LOGIN f
     = HandlePacket_as (C_LOGIN_InternalParse L) C_LOGIN_Clear C_LOGIN_new (Handle_C_LOGIN L t sid)"
  "last_entry (server_entries L t sid) PKT_C_ENTER_GAME f
     = HandlePacket_as (C_ENTER_GAME_InternalParse L) C_ENTER_GAME_Clear C_ENTER_GAME_new (Handle_C_ENTER_GAME L t sid)"
  "last_entry (server_entries L t sid) PKT_C_CHAT f
     = HandlePacket_as (C_CHAT_InternalParse L) C_CHAT_Clear C_CHAT_new (Handle_C_CHAT L t sid)"
  "pktId \<notin> {PKT_C_LOGIN, PKT_C_ENTER_GAME, PKT_C_CHAT} \<Longrightarrow> last_entry (server_entries L t sid) pktId f = f"
  by (auto simp: server_entries_def packet_ids)

lemma HandlePacket_as_Inr:
  assumes "HandlePacket_as parse clear pkt func buffer len w = Inr (b, w')"
  shows "w' = w \<or> (\<exists>m k. parse 100 (clear pkt) k = Some (m, At_limit) \<and> func m w = Inr (b, w'))"
  using assms
  by (auto simp: HandlePacket_as_def ParseFromArray_def MergeFromImpl_def rbind_eq_Inr
      split: if_splits option.splits prod.splits parse_end.splits)

lemma packet_cases:
  assumes "OnRecvPacket L t sid buffer len w = Inr w'"
  shows "w' = w \<or> (\<exists>m b. Handle_C_LOGIN L t sid m w = Inr (b, w')) \<or> (\<exists>m b. Handle_C_ENTER_GAME L t sid m w = Inr (b, w'))
    \<or> (\<exists>m b. string_ok (cc_msg m) \<and> Handle_C_CHAT L t sid m w = Inr (b, w'))"
proof -
  let ?id = "hd_id (read_header buffer)"
  obtain b where h: "HandlePacket (Handler_Init (server_entries L t sid)) buffer (int (unat len)) w = Inr (b, w')"
    using assms by (auto simp: OnRecvPacket_def rbind_eq_Inr)
  note e = HandlePacket_Inr[OF h]
  consider "?id = PKT_C_LOGIN" | "?id = PKT_C_ENTER_GAME" | "?id = PKT_C_CHAT"
    | "?id \<notin> {PKT_C_LOGIN, PKT_C_ENTER_GAME, PKT_C_CHAT}" by blast
  then show ?thesis
  proof cases
    case 1
    then show ?thesis using e HandlePacket_as_Inr by (metis entry_of(1))
  next
    case 2
    then show ?thesis using e HandlePacket_as_Inr by (metis entry_of(2))
  next
    case 3
    then have "HandlePacket_as (C_CHAT_InternalParse L) C_CHAT_Clear C_CHAT_new (Handle_C_CHAT L t sid)
        buffer (int (unat len)) w = Inr (b, w')"
      using e by (simp add: entry_of)
    from HandlePacket_as_Inr[OF this] show ?thesis
    proof
      assume "\<exists>m k. C_CHAT_InternalParse L 100 (C_CHAT_Clear C_CHAT_new) k = Some (m, At_limit)
          \<and> Handle_C_CHAT L t sid m w = Inr (b, w')"
      then obtain m k where m: "C_CHAT_InternalParse L 100 (C_CHAT_Clear C_CHAT_new) k = Some (m, At_limit)"
        "Handle_C_CHAT L t sid m w = Inr (b, w')" by blast
      have "string_ok (cc_msg m)" by (rule C_CHAT_parse_ok[OF m(1)]) (simp add: C_CHAT_Clear_def)
      then show ?thesis using m(2) by blast
    qed simp
  next
    case 4
    then show ?thesis using e by (simp add: entry_of Handle_INVALID_def)
  qed
qed

lemma packet_step:
  assumes "OnRecvPacket L t sid buffer len w = Inr w'"
  shows "w' = w \<or> (\<exists>k. game_step L (w, n) (w', k))"
  using packet_cases[OF assms] step_login step_enter step_chat by metis

lemma packet_sessions:
  assumes "OnRecvPacket L t sid buffer len w = Inr w'"
  shows "m_sessions w' = m_sessions w"
  using packet_cases[OF assms]
  by (auto dest!: Handle_C_LOGIN_Inr Handle_C_ENTER_GAME_Inr Handle_C_CHAT_Inr
      simp: login_world_simps enter_world_def Room_DoAsync_def upd_room_def upd_session_def)

section \<open>Packets from bytes to handlers\<close>

text \<open>A serialized message that reaches the table is parsed back and handed to its handler.\<close>

context wire_message
begin

lemma table_packet:
  assumes "valid pkt" and "P 100 = parse" and "clear new_m = new_m" and "body = serialize (snd (byte_size pkt))"
    and "length body \<le> 65531" and "unat pktId < UINT16_MAX"
    and e: "last_entry es pktId Handle_INVALID = HandlePacket_as P clear new_m func"
  obtains m where "content m = content pkt"
    "HandlePacket (Handler_Init es) (packet_bytes pktId body @ rest) (int (unat (word_of_nat (length body + 4) :: u16))) w = func m w"
proof -
  obtain m where "content m = content pkt" "HandlePacket_as P clear new_m func (packet_bytes pktId body @ rest)
      (int (length (packet_bytes pktId body))) w = func m w"
    using handle_packet[where P = P and clear = clear and func = func and pktId = pktId and rest = rest and w = w,
        OF assms(1-3)] assms(4,5) by blast
  then show ?thesis using that unfolding table_bytes[OF assms(6,5)] e by blast
qed

end

lemma clear_new:
  "C_LOGIN_Clear C_LOGIN_new = C_LOGIN_new" "C_ENTER_GAME_Clear C_ENTER_GAME_new = C_ENTER_GAME_new"
  "C_CHAT_Clear C_CHAT_new = C_CHAT_new"
  by (simp_all add: C_LOGIN_Clear_def C_LOGIN_new_def C_ENTER_GAME_Clear_def C_ENTER_GAME_new_def C_CHAT_Clear_def C_CHAT_new_def)

lemma server_ids:
  "unat PKT_C_LOGIN < UINT16_MAX" "unat PKT_C_ENTER_GAME < UINT16_MAX" "unat PKT_C_CHAT < UINT16_MAX"
  by (simp_all add: packet_ids UINT16_MAX_def)

lemma content_fields:
  "C_ENTER_GAME_content m = C_ENTER_GAME_content pkt \<Longrightarrow> ce_playerindex m = ce_playerindex pkt"
  "C_CHAT_content c = C_CHAT_content cpkt \<Longrightarrow> cc_msg c = cc_msg cpkt"
  by (auto simp: C_ENTER_GAME_content_def C_CHAT_content_def dest: arg_cong[where f = ce_playerindex] arg_cong[where f = cc_msg])

lemma login_packet:
  assumes "C_LOGIN_valid 100 pkt" and "length (C_LOGIN_InternalSerialize L pkt) \<le> 65531"
  shows "\<exists>m. OnRecvPacket L t sid (packet_bytes PKT_C_LOGIN (C_LOGIN_InternalSerialize L pkt) @ rest)
      (word_of_nat (length (C_LOGIN_InternalSerialize L pkt) + 4)) w
    = rbind (Handle_C_LOGIN L t sid m w) (\<lambda>(_, w'). Inr w')"
  unfolding OnRecvPacket_def
  by (rule C_LOGIN.table_packet[where L = L and rest = rest and w = w, unfolded sized_plain,
        OF assms(1) refl clear_new(1) refl assms(2) server_ids(1) entry_of(1)[of L t sid]]) auto

lemma enter_packet:
  assumes "C_ENTER_GAME_valid 100 pkt" and "length (C_ENTER_GAME_InternalSerialize L pkt) \<le> 65531"
  shows "\<exists>m. ce_playerindex m = ce_playerindex pkt
    \<and> OnRecvPacket L t sid (packet_bytes PKT_C_ENTER_GAME (C_ENTER_GAME_InternalSerialize L pkt) @ rest)
        (word_of_nat (length (C_ENTER_GAME_InternalSerialize L pkt) + 4)) w
      = rbind (Handle_C_ENTER_GAME L t sid m w) (\<lambda>(_, w'). Inr w')"
  unfolding OnRecvPacket_def
  by (rule C_ENTER_GAME.table_packet[where L = L and rest = rest and w = w, unfolded sized_plain,
        OF assms(1) refl clear_new(2) refl assms(2) server_ids(2) entry_of(2)[of L t sid]]) (auto dest: content_fields)

lemma chat_packet:
  assumes "C_CHAT_valid 100 pkt" and "length (C_CHAT_InternalSerialize L pkt) \<le> 65531"
  shows "\<exists>m. cc_msg m = cc_msg pkt
    \<and> OnRecvPacket L t sid (packet_bytes PKT_C_CHAT (C_CHAT_InternalSerialize L pkt) @ rest)
        (word_of_nat (length (C_CHAT_InternalSerialize L pkt) + 4)) w
      = rbind (Handle_C_CHAT L t sid m w) (\<lambda>(_, w'). Inr w')"
  unfolding OnRecvPacket_def
  by (rule C_CHAT.table_packet[where L = L and rest = rest and w = w, unfolded sized_plain,
        OF assms(1) refl clear_new(3) refl assms(2) server_ids(3) entry_of(3)[of L t sid]]) (auto dest: content_fields)

section \<open>Handlers that succeed\<close>

lemma game_invD:
  assumes "game_inv (w, n)"
  shows "m_rooms w = [0]" and "send_inv None (w_send w, \<lambda>_. None)" and "GetRoom w = Inr 0"
    and "shape_inv w" and "buffers_inv w" and "player_ids_inv (w, n)"
  using assms by (auto simp: game_inv_def shape_inv_def buffers_inv_def GetRoom_def)

lemma login_succeeds:
  assumes "game_inv (w, n)"
  shows "\<exists>i s. Handle_C_LOGIN L t sid pkt w = Inr (True, Send_call sid i ((login_world sid w)\<lparr>w_send := s\<rparr>))"
proof -
  have "fst (S_LOGIN_ByteSizeLong loginPkt) \<le> 5996" by (simp add: loginPkt_size)
  from S_LOGIN.make_packet[OF game_invD(2)[OF assms] refl loginPkt_valid this, of L t PKT_S_LOGIN]
  obtain i s where "MakeSendBuffer S_LOGIN_ByteSizeLong (S_LOGIN_InternalSerialize L) t loginPkt PKT_S_LOGIN (w_send w) = Inr (i, s)"
    by blast
  then show ?thesis
    by (auto simp: Handle_C_LOGIN_def Let_def make_defs with_buffer_def login_world_def add_player_def upd_session_def)
qed

lemma enter_succeeds:
  assumes "game_inv (w, n)" and "unat (ce_playerindex pkt) < length (gs_players (sessions w sid))"
  shows "\<exists>i s. Handle_C_ENTER_GAME L t sid pkt w
    = Inr (True, Send_call (g_ownerSession (gs_players (sessions w sid) ! unat (ce_playerindex pkt))) i
        ((enter_world sid (gs_players (sessions w sid) ! unat (ce_playerindex pkt)) 0 w)\<lparr>w_send := s\<rparr>))"
proof -
  have "fst (S_ENTER_GAME_ByteSizeLong (S_ENTER_GAME_new\<lparr>se_success := True\<rparr>)) \<le> 5996"
    by (simp add: S_ENTER_GAME_ByteSizeLong_def S_ENTER_GAME_new_def final_size_def Let_def)
  from S_ENTER_GAME.make_packet[OF game_invD(2)[OF assms(1)] refl enterPkt_valid this, of L t PKT_S_ENTER_GAME]
  obtain i s where mk: "MakeSendBuffer S_ENTER_GAME_ByteSizeLong (S_ENTER_GAME_InternalSerialize L) t
      (S_ENTER_GAME_new\<lparr>se_success := True\<rparr>) PKT_S_ENTER_GAME (w_send w) = Inr (i, s)"
    by blast
  have "GetRoom (upd_session sid f w) = Inr 0" "GetRoom (upd_session sid g (upd_session sid f w)) = Inr 0" for f g
    using game_invD(1)[OF assms(1)] by (simp_all add: GetRoom_def upd_session_def)
  with mk assms(2) show ?thesis
    by (auto simp: Handle_C_ENTER_GAME_def Let_def make_defs with_buffer_def enter_world_def Room_DoAsync_def
        upd_room_def upd_session_def)
qed

lemma chat_handler:
  assumes "game_inv (w, n)" and "string_ok (cc_msg pkt)"
  shows "(\<exists>w'. Handle_C_CHAT L t sid pkt w = Inr (True, w'))
      \<longleftrightarrow> fst (S_CHAT_ByteSizeLong (S_CHAT_new\<lparr>sc_msg := cc_msg pkt\<rparr>)) \<le> 5996"
    and "Handle_C_CHAT L t sid pkt w = Inr (b, w') \<Longrightarrow> b = True"
proof -
  let ?pkt = "S_CHAT_new\<lparr>sc_msg := cc_msg pkt\<rparr>"
  let ?mk = "MakeSendBuffer S_CHAT_ByteSizeLong (S_CHAT_InternalSerialize L) t ?pkt PKT_S_CHAT (w_send w)"
  have h: "Handle_C_CHAT L t sid pkt w
      = rbind ?mk (\<lambda>(i, s). Inr (True, Room_DoAsync 0 (Broadcast_job i) (w\<lparr>w_send := s\<rparr>)))"
    using game_invD(1)[OF assms(1)]
    by (cases ?mk) (auto simp: Handle_C_CHAT_def Let_def make_defs with_buffer_def GetRoom_def)
  show "(\<exists>w'. Handle_C_CHAT L t sid pkt w = Inr (True, w')) \<longleftrightarrow> fst (S_CHAT_ByteSizeLong ?pkt) \<le> 5996"
    using S_CHAT.make_packet[OF game_invD(2)[OF assms(1)] refl chatPkt_valid[OF assms(2)], of L t PKT_S_CHAT]
      S_CHAT.make_too_big[OF game_invD(2)[OF assms(1)] refl chatPkt_valid[OF assms(2)], of L t PKT_S_CHAT]
    unfolding h by (cases "fst (S_CHAT_ByteSizeLong ?pkt) \<le> 5996") auto
  show "Handle_C_CHAT L t sid pkt w = Inr (b, w') \<Longrightarrow> b = True"
    unfolding h by (auto simp: rbind_eq_Inr)
qed

lemma chat_in_room:
  assumes inv: "game_inv (w, n)"
    and "C_CHAT_valid 100 pkt" and "length (C_CHAT_InternalSerialize L pkt) \<le> 65531"
    and "fst (S_CHAT_ByteSizeLong (S_CHAT_new\<lparr>sc_msg := cc_msg pkt\<rparr>)) \<le> 5996"
  shows "\<exists>w' i body m. OnRecvPacket L t sid (packet_bytes PKT_C_CHAT (C_CHAT_InternalSerialize L pkt) @ rest)
        (word_of_nat (length (C_CHAT_InternalSerialize L pkt) + 4)) w = Inr w'
    \<and> r_jobs (rooms w' 0) = r_jobs (rooms w 0) @ [Broadcast_job i]
    \<and> sends w' = sends w \<and> sessions w' = sessions w
    \<and> buffer_bytes (w_send w') i = Some (packet_bytes PKT_S_CHAT body)
    \<and> S_CHAT_InternalParse L 100 S_CHAT_new body = Some (m, At_limit)
    \<and> sc_msg m = cc_msg pkt \<and> sc_playerid m = 0"
proof -
  let ?pkt = "S_CHAT_new\<lparr>sc_msg := cc_msg pkt\<rparr>"
  have ok: "string_ok (cc_msg pkt)" using assms(2) by (simp add: C_CHAT_valid_def)
  obtain c where c: "cc_msg c = cc_msg pkt"
    "OnRecvPacket L t sid (packet_bytes PKT_C_CHAT (C_CHAT_InternalSerialize L pkt) @ rest)
       (word_of_nat (length (C_CHAT_InternalSerialize L pkt) + 4)) w = rbind (Handle_C_CHAT L t sid c w) (\<lambda>(_, w'). Inr w')"
    using chat_packet[OF assms(2,3)] by blast
  obtain w' where w': "Handle_C_CHAT L t sid c w = Inr (True, w')"
    using chat_handler(1)[OF inv, of c L t sid] ok assms(4) c(1) by auto
  obtain r i s where r: "GetRoom w = Inr r"
    and mk: "MakeSendBuffer S_CHAT_ByteSizeLong (S_CHAT_InternalSerialize L) t ?pkt PKT_S_CHAT (w_send w) = Inr (i, s)"
    and eq: "w' = Room_DoAsync r (Broadcast_job i) (w\<lparr>w_send := s\<rparr>)"
    using Handle_C_CHAT_Inr[OF w'] unfolding c(1) by blast
  have "r = 0" using r game_invD(3)[OF inv] by simp
  note v = chatPkt_valid[OF ok]
  note res = S_CHAT.make_result[OF game_invD(2)[OF inv] refl v mk]
  obtain m where m: "S_CHAT_InternalParse L 100 S_CHAT_new (S_CHAT_InternalSerialize L (snd (S_CHAT_ByteSizeLong ?pkt))) = Some (m, At_limit)"
    "S_CHAT_content m = S_CHAT_content ?pkt"
    using S_CHAT.roundtrip[OF v, of L] by blast
  have "sc_msg m = cc_msg pkt" "sc_playerid m = 0"
    using arg_cong[OF m(2), of sc_msg] arg_cong[OF m(2), of sc_playerid] by (simp_all add: S_CHAT_content_def S_CHAT_new_def)
  moreover have "r_jobs (rooms w' 0) = r_jobs (rooms w 0) @ [Broadcast_job i]" "sends w' = sends w"
    "sessions w' = sessions w" "w_send w' = s"
    by (simp_all add: eq \<open>r = 0\<close> Room_DoAsync_def upd_room_def)
  ultimately show ?thesis using c(2) w' res(2) m(1) by auto
qed

section \<open>States for the witnesses\<close>

abbreviation test_env :: wire_env where
  "test_env \<equiv> \<lparr>low_space = \<lambda>_ _. False, string_address = \<lambda>_. 0\<rparr>"

lemma start_reach: "reach game_init (game_step L) (server_start send_init, 0)"
  by (rule reach_init) (simp add: game_init_def)

text \<open>A server after one login of session 0.\<close>

lemma logged_in:
  "\<exists>i s. reach game_init (game_step L) (Send_call 0 i ((login_world 0 (server_start send_init))\<lparr>w_send := s\<rparr>), 1)"
proof -
  obtain i s where "Handle_C_LOGIN L 0 0 C_LOGIN_new (server_start send_init)
      = Inr (True, Send_call 0 i ((login_world 0 (server_start send_init))\<lparr>w_send := s\<rparr>))"
    using login_succeeds[OF game.reach_inv[OF start_reach]] by blast
  from reach_step[OF start_reach[of L] step_login[OF this]] show ?thesis by auto
qed

lemma start_world_simps [simp]:
  "rooms (server_start s0) = (\<lambda>_. new_room)" "sessions (server_start s0) = (\<lambda>_. new_game_session)"
  "sends (server_start s0) = []" "idGenerator (server_start s0) = 1" "m_sessions (server_start s0) = []"
  by (simp_all add: server_start_def RoomManager_Add_def)

text \<open>A chat with a text of n letters.\<close>

abbreviation long_chat :: "nat \<Rightarrow> C_CHAT" where
  "long_chat n \<equiv> C_CHAT_new\<lparr>cc_msg := replicate n 0x61\<rparr>"

lemma long_chat_valid: "n \<le> max_size \<Longrightarrow> C_CHAT_valid 100 (long_chat n)"
  by (simp add: valid_defs C_CHAT_new_def unknown_ok_def foreign_def string_ok_def well_formed_all_ascii)

lemma long_chat_sizes:
  assumes "0 < n" "n \<le> max_size"
  shows "length (C_CHAT_InternalSerialize L (long_chat n)) = 1 + (length (venc n) + n)"
    and "fst (S_CHAT_ByteSizeLong (S_CHAT_new\<lparr>sc_msg := replicate n 0x61\<rparr>)) = 1 + (length (venc n) + n)"
proof -
  have "length (C_CHAT_InternalSerialize L (long_chat n)) = fst (C_CHAT_ByteSizeLong (long_chat n))"
    using C_CHAT.size_law[OF long_chat_valid[OF assms(2)], of L] by (simp only: sized_plain)
  then show "length (C_CHAT_InternalSerialize L (long_chat n)) = 1 + (length (venc n) + n)"
    using assms by (simp add: size_defs new_defs final_size_def Let_def LengthDelimitedSize_venc)
  show "fst (S_CHAT_ByteSizeLong (S_CHAT_new\<lparr>sc_msg := replicate n 0x61\<rparr>)) = 1 + (length (venc n) + n)"
    using assms by (simp add: size_defs new_defs final_size_def Let_def LengthDelimitedSize_venc)
qed

text \<open>Entering the game as a step, and a session whose player is in the room.\<close>

lemma enter_reach:
  assumes "reach game_init (game_step L) (w, n)" and "unat (k :: u64) < length (gs_players (sessions w sid))"
  shows "\<exists>w'. reach game_init (game_step L) (w', n)
    \<and> sessions w' = (sessions w)(sid := (sessions w sid)
        \<lparr>gs_currentPlayer := Some (gs_players (sessions w sid) ! unat k), gs_room := Some 0\<rparr>)
    \<and> rooms w' = (rooms w)(0 := (rooms w 0)\<lparr>r_jobs := r_jobs (rooms w 0) @ [Enter_job (gs_players (sessions w sid) ! unat k)]\<rparr>)
    \<and> m_sessions w' = m_sessions w"
proof -
  let ?p = "gs_players (sessions w sid) ! unat k"
  obtain i s where "Handle_C_ENTER_GAME L 0 sid (C_ENTER_GAME_new\<lparr>ce_playerindex := k\<rparr>) w
      = Inr (True, Send_call (g_ownerSession ?p) i ((enter_world sid ?p 0 w)\<lparr>w_send := s\<rparr>))"
    using enter_succeeds[OF game.reach_inv[OF assms(1)], of "C_ENTER_GAME_new\<lparr>ce_playerindex := k\<rparr>" sid L 0] assms(2)
    by auto
  from reach_step[OF assms(1) step_enter[OF this]] show ?thesis
    by (rule_tac x = "Send_call (g_ownerSession ?p) i ((enter_world sid ?p 0 w)\<lparr>w_send := s\<rparr>)" in exI)
      (simp add: enter_world_def Room_DoAsync_def upd_room_def upd_session_def)
qed

lemma chat_reach:
  assumes "reach game_init (game_step L) (w, n)"
  shows "\<exists>w' i. reach game_init (game_step L) (w', n) \<and> sessions w' = sessions w
    \<and> rooms w' = (rooms w)(0 := (rooms w 0)\<lparr>r_jobs := r_jobs (rooms w 0) @ [Broadcast_job i]\<rparr>)"
proof -
  note inv = game.reach_inv[OF assms]
  have ok: "string_ok (cc_msg C_CHAT_new)" by (simp add: C_CHAT_new_def)
  have "fst (S_CHAT_ByteSizeLong (S_CHAT_new\<lparr>sc_msg := cc_msg C_CHAT_new\<rparr>)) \<le> 5996"
    by (simp add: size_defs new_defs final_size_def Let_def)
  then obtain w' where w': "Handle_C_CHAT L 0 0 C_CHAT_new w = Inr (True, w')"
    using chat_handler(1)[OF inv ok] by blast
  obtain r i s where "GetRoom w = Inr r" "w' = Room_DoAsync r (Broadcast_job i) (w\<lparr>w_send := s\<rparr>)"
    using Handle_C_CHAT_Inr[OF w'] by blast
  then have "sessions w' = sessions w"
    "rooms w' = (rooms w)(0 := (rooms w 0)\<lparr>r_jobs := r_jobs (rooms w 0) @ [Broadcast_job i]\<rparr>)"
    using game_invD(3)[OF inv] by (simp_all add: Room_DoAsync_def upd_room_def)
  with reach_step[OF assms step_chat[OF ok w']] show ?thesis by blast
qed

abbreviation player1 :: game_player where
  "player1 \<equiv> \<lparr>g_playerId = 1, g_name = utf8_literal ''TempName1'', g_type = PLAYER_TYPE_KNIGHT, g_ownerSession = 0\<rparr>"

abbreviation player2 :: game_player where
  "player2 \<equiv> \<lparr>g_playerId = 2, g_name = utf8_literal ''TempName2'', g_type = PLAYER_TYPE_MAGE, g_ownerSession = 0\<rparr>"

lemma entered:
  "\<exists>w. reach game_init (game_step L) (w, 1) \<and> gs_players (sessions w 0) = [player1, player2]
    \<and> r_players (rooms w 0) = [(1, player1)] \<and> r_jobs (rooms w 0) = [] \<and> m_sessions w = []"
proof -
  obtain i s where r: "reach game_init (game_step L)
      (Send_call 0 i ((login_world 0 (server_start send_init))\<lparr>w_send := s\<rparr>), 1)"
    using logged_in by blast
  define w1 where "w1 = Send_call 0 i ((login_world 0 (server_start send_init))\<lparr>w_send := s\<rparr>)"
  have w1: "gs_players (sessions w1 0) = [player1, player2]" "rooms w1 = (\<lambda>_. new_room)" "m_sessions w1 = []"
    by (simp_all add: w1_def login_world_simps new_game_session_def)
  obtain w2 where w2: "reach game_init (game_step L) (w2, 1)"
    "sessions w2 = (sessions w1)(0 := (sessions w1 0)\<lparr>gs_currentPlayer := Some player1, gs_room := Some 0\<rparr>)"
    "rooms w2 = (rooms w1)(0 := (rooms w1 0)\<lparr>r_jobs := r_jobs (rooms w1 0) @ [Enter_job player1]\<rparr>)" "m_sessions w2 = []"
    using enter_reach[OF r[folded w1_def], of 0 0] w1 by auto
  have "reach game_init (game_step L) (Room_Execute 0 w2, 1)" by (rule reach_step[OF w2(1) step_execute])
  moreover have "gs_players (sessions (Room_Execute 0 w2) 0) = [player1, player2]"
    "r_players (rooms (Room_Execute 0 w2) 0) = [(1, player1)]" "r_jobs (rooms (Room_Execute 0 w2) 0) = []"
    "m_sessions (Room_Execute 0 w2) = []"
    using w1 w2 by (simp_all add: Room_Execute_def Room_Enter_def upd_room_def new_room_def)
  ultimately show ?thesis by blast
qed

section \<open>Properties\<close>

text \<open>A chat from the wire to the room. In every reachable state of the server a C_CHAT packet
  whose text fits in a send buffer with its header makes OnRecvPacket return with one more job in the
  queue of the room: to broadcast a buffer that holds a whole S_CHAT packet, from which a client's
  parser gets the same text (and no player id). Nothing else is sent and no session changes.\<close>

theorem chat_reaches_room:
  assumes "reach game_init (game_step L) (w, n)"
    and "C_CHAT_valid 100 pkt" and "length (C_CHAT_InternalSerialize L pkt) \<le> 65531"
    and "fst (S_CHAT_ByteSizeLong (S_CHAT_new\<lparr>sc_msg := cc_msg pkt\<rparr>)) \<le> 5996"
  shows "\<exists>w' i body m. OnRecvPacket L t sid (packet_bytes PKT_C_CHAT (C_CHAT_InternalSerialize L pkt) @ rest)
        (word_of_nat (length (C_CHAT_InternalSerialize L pkt) + 4)) w = Inr w'
    \<and> r_jobs (rooms w' 0) = r_jobs (rooms w 0) @ [Broadcast_job i]
    \<and> sends w' = sends w \<and> sessions w' = sessions w
    \<and> buffer_bytes (w_send w') i = Some (packet_bytes PKT_S_CHAT body)
    \<and> S_CHAT_InternalParse L 100 S_CHAT_new body = Some (m, At_limit)
    \<and> sc_msg m = cc_msg pkt \<and> sc_playerid m = 0"
  by (rule chat_in_room[OF game.reach_inv[OF assms(1)] assms(2-4)])

theorem chat_reaches_room_witness:
  "\<exists>w' i body m. OnRecvPacket test_env 0 0 (packet_bytes PKT_C_CHAT (C_CHAT_InternalSerialize test_env (long_chat 5)) @ [])
        (word_of_nat (length (C_CHAT_InternalSerialize test_env (long_chat 5)) + 4)) (server_start send_init) = Inr w'
    \<and> r_jobs (rooms w' 0) = [Broadcast_job i]
    \<and> buffer_bytes (w_send w') i = Some (packet_bytes PKT_S_CHAT body)
    \<and> S_CHAT_InternalParse test_env 100 S_CHAT_new body = Some (m, At_limit) \<and> sc_msg m = [0x61, 0x61, 0x61, 0x61, 0x61]"
proof -
  define n :: nat where "n = 5"
  have n: "n \<le> max_size" "length (venc n) = 1" "0 < n" "n = 5"
    by (simp_all add: n_def max_size_def venc_small)
  have "length (C_CHAT_InternalSerialize test_env (long_chat n)) \<le> 65531"
    "fst (S_CHAT_ByteSizeLong (S_CHAT_new\<lparr>sc_msg := cc_msg (long_chat n)\<rparr>)) \<le> 5996"
    using long_chat_sizes[OF n(3,1)] n by simp_all
  from chat_reaches_room[OF start_reach long_chat_valid[OF n(1)] this, of 0 0 "[]"]
  obtain w' i body m where *: "OnRecvPacket test_env 0 0
        (packet_bytes PKT_C_CHAT (C_CHAT_InternalSerialize test_env (long_chat n)) @ [])
        (word_of_nat (length (C_CHAT_InternalSerialize test_env (long_chat n)) + 4)) (server_start send_init) = Inr w'"
    "r_jobs (rooms w' 0) = r_jobs (rooms (server_start send_init) 0) @ [Broadcast_job i]"
    "buffer_bytes (w_send w') i = Some (packet_bytes PKT_S_CHAT body)"
    "S_CHAT_InternalParse test_env 100 S_CHAT_new body = Some (m, At_limit)" "sc_msg m = cc_msg (long_chat n)"
    by blast
  have "r_jobs (rooms w' 0) = [Broadcast_job i]" using *(2) by (simp add: new_room_def)
  moreover have "sc_msg m = [0x61, 0x61, 0x61, 0x61, 0x61]" using *(5) by (simp add: n_def eval_nat_numeral)
  ultimately show ?thesis using *(1,3,4) unfolding n_def by blast
qed

text \<open>C40: The size of a chat decides. In every reachable state a C_CHAT packet is handled exactly
  if the reply takes at most 5996 bytes; every longer text crashes the server.\<close>

theorem chat_size_limit:
  assumes "reach game_init (game_step L) (w, n)"
    and "C_CHAT_valid 100 pkt" and "length (C_CHAT_InternalSerialize L pkt) \<le> 65531"
  shows "(\<exists>w'. OnRecvPacket L t sid (packet_bytes PKT_C_CHAT (C_CHAT_InternalSerialize L pkt) @ rest)
        (word_of_nat (length (C_CHAT_InternalSerialize L pkt) + 4)) w = Inr w')
    \<longleftrightarrow> fst (S_CHAT_ByteSizeLong (S_CHAT_new\<lparr>sc_msg := cc_msg pkt\<rparr>)) \<le> 5996"
proof -
  note inv = game.reach_inv[OF assms(1)]
  obtain c where c: "cc_msg c = cc_msg pkt"
    "OnRecvPacket L t sid (packet_bytes PKT_C_CHAT (C_CHAT_InternalSerialize L pkt) @ rest)
       (word_of_nat (length (C_CHAT_InternalSerialize L pkt) + 4)) w = rbind (Handle_C_CHAT L t sid c w) (\<lambda>(_, w'). Inr w')"
    using chat_packet[OF assms(2,3)] by blast
  have ok: "string_ok (cc_msg c)" using assms(2) by (simp add: C_CHAT_valid_def c(1))
  show ?thesis
    using chat_handler[OF inv ok, of L t sid] unfolding c by (auto simp: rbind_eq_Inr)
qed

theorem chat_size_limit_witness:
  "\<not> (\<exists>w'. OnRecvPacket test_env 0 0 (packet_bytes PKT_C_CHAT (C_CHAT_InternalSerialize test_env (long_chat 6000)) @ [])
        (word_of_nat (length (C_CHAT_InternalSerialize test_env (long_chat 6000)) + 4)) (server_start send_init) = Inr w')"
proof -
  define n :: nat where "n = 6000"
  have n: "n \<le> max_size" "length (venc n) \<le> 2" "5996 < n" "n \<le> 6000" "0 < n"
    by (simp_all add: n_def max_size_def length_venc_le)
  have "length (C_CHAT_InternalSerialize test_env (long_chat n)) \<le> 65531"
    unfolding long_chat_sizes(1)[OF n(5,1)] using n by simp
  from chat_size_limit[OF start_reach long_chat_valid[OF n(1)] this, of 0 0 "[]"]
  have "\<not> (\<exists>w'. OnRecvPacket test_env 0 0 (packet_bytes PKT_C_CHAT (C_CHAT_InternalSerialize test_env (long_chat n)) @ [])
      (word_of_nat (length (C_CHAT_InternalSerialize test_env (long_chat n)) + 4)) (server_start send_init) = Inr w')"
    using long_chat_sizes(2)[OF n(5,1)] n(3) by simp
  then show ?thesis unfolding n_def .
qed

text \<open>Entering by index. In every reachable state a C_ENTER_GAME packet is handled exactly if
  the session has a player at the index of the packet; every other index, and any index before the
  login, reads past the end of m_players.\<close>

theorem enter_by_index:
  assumes "reach game_init (game_step L) (w, n)"
    and "C_ENTER_GAME_valid 100 pkt" and "length (C_ENTER_GAME_InternalSerialize L pkt) \<le> 65531"
  shows "(\<exists>w'. OnRecvPacket L t sid (packet_bytes PKT_C_ENTER_GAME (C_ENTER_GAME_InternalSerialize L pkt) @ rest)
        (word_of_nat (length (C_ENTER_GAME_InternalSerialize L pkt) + 4)) w = Inr w')
    \<longleftrightarrow> unat (ce_playerindex pkt) < length (gs_players (sessions w sid))"
proof -
  note inv = game.reach_inv[OF assms(1)]
  obtain c where c: "ce_playerindex c = ce_playerindex pkt"
    "OnRecvPacket L t sid (packet_bytes PKT_C_ENTER_GAME (C_ENTER_GAME_InternalSerialize L pkt) @ rest)
       (word_of_nat (length (C_ENTER_GAME_InternalSerialize L pkt) + 4)) w
     = rbind (Handle_C_ENTER_GAME L t sid c w) (\<lambda>(_, w'). Inr w')"
    using enter_packet[OF assms(2,3)] by blast
  show ?thesis
  proof (cases "unat (ce_playerindex c) < length (gs_players (sessions w sid))")
    case True
    then show ?thesis using enter_succeeds[OF inv True, of L t] unfolding c by auto
  next
    case False
    then have "Handle_C_ENTER_GAME L t sid c w = Inl OutOfBounds" by (simp add: Handle_C_ENTER_GAME_def Let_def)
    then show ?thesis using False unfolding c by simp
  qed
qed

lemma empty_enter: "C_ENTER_GAME_valid 100 C_ENTER_GAME_new" "C_ENTER_GAME_InternalSerialize L C_ENTER_GAME_new = []"
  by (simp_all add: valid_defs serialize_defs new_defs unknown_ok_def foreign_def unknown_tail_def)

theorem enter_by_index_witness:
  "\<not> (\<exists>w'. OnRecvPacket test_env 0 0 (packet_bytes PKT_C_ENTER_GAME [] @ []) (word_of_nat (0 + 4))
        (server_start send_init) = Inr w')"
  using enter_by_index[OF start_reach empty_enter(1), of test_env 0 0 "[]"]
  by (simp add: empty_enter(2) new_game_session_def)

text \<open>Only whole packets are sent. In every reachable state each buffer Send was called with
  holds exactly one packet: a header whose size field counts the header and the body, then the
  body.\<close>

theorem whole_packets_sent:
  assumes "reach game_init (game_step L) (w, n)" and "(sid, b) \<in> set (sends w)"
  shows "\<exists>pktId body. length body \<le> 5996
    \<and> buffer_bytes (w_send w) b
      = Some (header_bytes \<lparr>hd_size = word_of_nat (length body + sizeof_PacketHeader), hd_id = pktId\<rparr> @ body)"
  using game_invD(5)[OF game.reach_inv[OF assms(1)]] assms(2)
  unfolding buffers_inv_def whole_packet_def packet_bytes_def by blast

theorem whole_packets_sent_witness:
  "\<exists>(w :: world) i pktId body. sends w = [(0, i)]
    \<and> buffer_bytes (w_send w) i
      = Some (header_bytes \<lparr>hd_size = word_of_nat (length body + sizeof_PacketHeader), hd_id = pktId\<rparr> @ body)"
proof -
  obtain i s where r: "reach game_init (game_step test_env)
      (Send_call 0 i ((login_world 0 (server_start send_init))\<lparr>w_send := s\<rparr>), 1)"
    using logged_in by blast
  let ?w = "Send_call 0 i ((login_world 0 (server_start send_init))\<lparr>w_send := s\<rparr>)"
  have one: "sends ?w = [(0, i)]" by (simp add: login_world_simps)
  then have "(0, i) \<in> set (sends ?w)" by simp
  from whole_packets_sent[OF r this] one show ?thesis by blast
qed

text \<open>C35: Player ids are unique. As long as the generator has not wrapped (fewer than 2^63 logins),
  no two players of a reachable state, of one session or of two, have the same id.\<close>

theorem player_ids_unique:
  assumes "reach game_init (game_step L) (w, n)" and "2 * n + 1 < 2 ^ 64"
  shows "(\<forall>sid. distinct (map g_playerId (gs_players (sessions w sid))))
    \<and> (\<forall>sid sid'. sid \<noteq> sid' \<longrightarrow>
        set (map g_playerId (gs_players (sessions w sid))) \<inter> set (map g_playerId (gs_players (sessions w sid'))) = {})"
  using game_invD(6)[OF game.reach_inv[OF assms(1)]] assms(2)
  by (simp add: player_ids_inv_def ids_unique_def all_ids_def)

theorem player_ids_unique_witness:
  "\<exists>w. reach game_init (game_step test_env) (w, 1) \<and> map g_playerId (gs_players (sessions w 0)) = [1, 2]
    \<and> distinct (map g_playerId (gs_players (sessions w 0)))"
proof -
  obtain i s where r: "reach game_init (game_step test_env)
      (Send_call 0 i ((login_world 0 (server_start send_init))\<lparr>w_send := s\<rparr>), 1)"
    using logged_in by blast
  let ?w = "Send_call 0 i ((login_world 0 (server_start send_init))\<lparr>w_send := s\<rparr>)"
  have "map g_playerId (gs_players (sessions ?w 0)) = [1, 2]" by (simp add: login_world_simps new_game_session_def)
  then show ?thesis using player_ids_unique[OF r] r by auto
qed

text \<open>What a broadcast does. In every reachable state, running the broadcast in front of a
  room's queue calls Send on the sessions of the room's players, once for each player, in ascending
  order of their ids, and leaves the players and the other jobs alone.\<close>

theorem broadcast_delivers:
  assumes "reach game_init (game_step L) (w, n)" and "r_jobs (rooms w r) = Broadcast_job b # jobs"
  shows "\<exists>ps. set (r_players (rooms w r)) = (\<lambda>p. (g_playerId p, p)) ` set ps
    \<and> sorted_wrt (<) (map g_playerId ps)
    \<and> sends (Room_Execute r w) = sends w @ map (\<lambda>p. (g_ownerSession p, b)) ps
    \<and> r_players (rooms (Room_Execute r w) r) = r_players (rooms w r)
    \<and> r_jobs (rooms (Room_Execute r w) r) = jobs"
proof (intro exI conjI)
  let ?ps = "map snd (r_players (rooms w r))"
  have ok: "room_ok (rooms w r)" using game_invD(4)[OF game.reach_inv[OF assms(1)]] by (rule shape_invD)
  have key: "fst e = g_playerId (snd e)" if "e \<in> set (r_players (rooms w r))" for e
    using ok that by (auto simp: room_ok_def)
  then have ids: "map g_playerId ?ps = map fst (r_players (rooms w r))" by simp
  show "sorted_wrt (<) (map g_playerId ?ps)" unfolding ids using ok by (simp add: room_ok_def keys_sorted_def)
  show "set (r_players (rooms w r)) = (\<lambda>p. (g_playerId p, p)) ` set ?ps"
    using key by (force simp: image_image)
  show "sends (Room_Execute r w) = sends w @ map (\<lambda>p. (g_ownerSession p, b)) ?ps"
    using assms(2) by (simp add: Room_Execute_def Room_Broadcast_eq upd_room_def split_beta comp_def)
  show "r_players (rooms (Room_Execute r w) r) = r_players (rooms w r)" "r_jobs (rooms (Room_Execute r w) r) = jobs"
    using assms(2) by (simp_all add: Room_Execute_def Room_Broadcast_eq upd_room_def)
qed

theorem broadcast_delivers_witness:
  "\<exists>(w :: world) b. r_players (rooms w 0) = [(1, player1)] \<and> r_jobs (rooms w 0) = [Broadcast_job b]
    \<and> sends (Room_Execute 0 w) = sends w @ [(0, b)]"
proof -
  obtain w where w: "reach game_init (game_step test_env) (w, 1)" "r_players (rooms w 0) = [(1, player1)]"
    "r_jobs (rooms w 0) = []"
    using entered by blast
  obtain w' b where w': "reach game_init (game_step test_env) (w', 1)"
    "rooms w' = (rooms w)(0 := (rooms w 0)\<lparr>r_jobs := r_jobs (rooms w 0) @ [Broadcast_job b]\<rparr>)"
    using chat_reach[OF w(1)] by blast
  have q: "r_jobs (rooms w' 0) = [Broadcast_job b]" "r_players (rooms w' 0) = [(1, player1)]"
    using w w'(2) by simp_all
  obtain ps where ps: "set (r_players (rooms w' 0)) = (\<lambda>p. (g_playerId p, p)) ` set ps"
    "sorted_wrt (<) (map g_playerId ps)" "sends (Room_Execute 0 w') = sends w' @ map (\<lambda>p. (g_ownerSession p, b)) ps"
    using broadcast_delivers[OF w'(1) q(1)] by blast
  have "distinct ps" using ps(2) by (metis strict_sorted_iff distinct_map)
  moreover have "set ps = {player1}" using ps(1) q(2) by (auto simp: image_iff set_eq_iff)
  ultimately have "ps = [player1]" by (cases ps) (auto simp: subset_singleton_iff)
  then show ?thesis using ps(3) q by auto
qed

text \<open>A player that stays behind. A client that enters the game twice, with both of its players,
  leaves the first one in the room for good: there is a reachable state in which the room's queue is
  empty and the room still holds a player whose session is disconnected and owns no players.\<close>

theorem stale_player:
  "\<exists>w k p. reach game_init (game_step L) (w, 1) \<and> r_jobs (rooms w 0) = [] \<and> (k, p) \<in> set (r_players (rooms w 0))
    \<and> g_ownerSession p \<notin> set (m_sessions w) \<and> gs_players (sessions w (g_ownerSession p)) = []"
proof -
  obtain w where w: "reach game_init (game_step L) (w, 1)" "gs_players (sessions w 0) = [player1, player2]"
    "r_players (rooms w 0) = [(1, player1)]" "r_jobs (rooms w 0) = []" "m_sessions w = []"
    using entered by blast
  obtain w2 where w2: "reach game_init (game_step L) (w2, 1)"
    "sessions w2 = (sessions w)(0 := (sessions w 0)\<lparr>gs_currentPlayer := Some player2, gs_room := Some 0\<rparr>)"
    "rooms w2 = (rooms w)(0 := (rooms w 0)\<lparr>r_jobs := r_jobs (rooms w 0) @ [Enter_job player2]\<rparr>)" "m_sessions w2 = []"
    using enter_reach[OF w(1), of 1 0] w by auto
  define w3 where "w3 = OnDisconnected 0 w2"
  have r3: "reach game_init (game_step L) (w3, 1)" unfolding w3_def by (rule reach_step[OF w2(1) step_disconnect])
  define w5 where "w5 = Room_Execute 0 (Room_Execute 0 w3)"
  have "reach game_init (game_step L) (w5, 1)"
    unfolding w5_def by (rule reach_step[OF reach_step[OF r3 step_execute] step_execute])
  moreover have "gs_players (sessions w5 0) = []" "r_jobs (rooms w5 0) = []" "(1, player1) \<in> set (r_players (rooms w5 0))"
    "m_sessions w5 = []"
    using w w2 by (simp_all add: w5_def w3_def OnDisconnected_def SessionManager_Remove_def Let_def Room_DoAsync_def
        upd_room_def upd_session_def Room_Execute_def Room_Enter_def Room_Leave_def)
  moreover have "g_ownerSession player1 = 0" by simp
  ultimately show ?thesis by (metis empty_iff list.set(1))
qed

end
