(* ===== verification/Net_Service.thy ===== *)
theory Net_Service
  imports Session_IO
begin

text \<open>
  Services, the listener and the dispatch of completions (ServerCore/Service.h and .cpp, Listener.h
  and .cpp, IocpCore.cpp). A session is a number; a Set of sessions is the list of its elements. What
  the operating system answers (the socket calls, AcceptEx, GetQueuedCompletionStatus) is an argument.
  The application is a state of its own with the callbacks of its sessions. Operations run one at a
  time here; the send path has its own machine with atomic steps (Session_Send).
\<close>

section \<open>State\<close>

text \<open>An accept event: whether its AcceptEx is in flight, and the session it will fill. Its m_owner is
  the listener from the start on.\<close>

record accept_event =
  ae_pending :: bool
  ae_session :: "nat option"

record net =
  n_type :: ServiceType
  n_factory :: bool
  n_maxSessionCount :: int
  n_sessionCount :: int
  n_sessions :: "nat list"
  n_next :: nat
  n_sess :: "nat \<Rightarrow> session"
  n_socket :: bool
  n_acceptEvents :: "accept_event list"

definition upd_net_session :: "nat \<Rightarrow> (session \<Rightarrow> session) \<Rightarrow> net \<Rightarrow> net" where
  "upd_net_session sid f n = n\<lparr>n_sess := (n_sess n)(sid := f (n_sess n sid))\<rparr>"

definition set_accept :: "nat \<Rightarrow> accept_event \<Rightarrow> net \<Rightarrow> net" where
  "set_accept i e n = n\<lparr>n_acceptEvents := (n_acceptEvents n)[i := e]\<rparr>"

definition CanStart :: "net \<Rightarrow> bool" where
  "CanStart n = n_factory n"

text \<open>A session under construction does not exist for any list yet; its slot is n_next.\<close>

definition new_service :: "ServiceType \<Rightarrow> bool \<Rightarrow> int \<Rightarrow> session \<Rightarrow> net" where
  "new_service type factory maxSessionCount blank =
     \<lparr>n_type = type, n_factory = factory, n_maxSessionCount = maxSessionCount, n_sessionCount = 0, n_sessions = [],
      n_next = 0, n_sess = (\<lambda>_. blank), n_socket = False, n_acceptEvents = []\<rparr>"

section \<open>Service\<close>

text \<open>The factory makes a session; the answer of IocpCore::Register is the argument. Calling an empty
  function throws.\<close>

definition CreateSession :: "bool \<Rightarrow> net \<Rightarrow> (nat option \<times> net) result" where
  "CreateSession registered n =
     (if \<not> n_factory n then Inl (Crash ''bad_function_call'')
      else rbind new_session (\<lambda>session.
        let n' = n\<lparr>n_sess := (n_sess n)(n_next n := session), n_next := n_next n + 1\<rparr> in
        Inr (if \<not> registered then None else Some (n_next n), n')))"

definition AddSession :: "nat \<Rightarrow> net \<Rightarrow> net" where
  "AddSession sid n = n\<lparr>n_sessionCount := n_sessionCount n + 1, n_sessions := List.insert sid (n_sessions n)\<rparr>"

definition ReleaseSession :: "nat \<Rightarrow> net \<Rightarrow> net result" where
  "ReleaseSession sid n =
     rbind (ASSERT_CRASH (sid \<in> set (n_sessions n)))
       (\<lambda>_. Inr (n\<lparr>n_sessions := remove1 sid (n_sessions n), n_sessionCount := n_sessionCount n - 1\<rparr>))"

fun Broadcast_to :: "(nat \<Rightarrow> io_answer \<times> io_answer) \<Rightarrow> nat \<Rightarrow> nat list \<Rightarrow> net \<Rightarrow> net" where
  "Broadcast_to io sendBuffer [] n = n"
| "Broadcast_to io sendBuffer (sid # sids) n =
     Broadcast_to io sendBuffer sids (upd_net_session sid (Session_Send (fst (io sid)) (snd (io sid)) sendBuffer) n)"

definition Service_Broadcast :: "(nat \<Rightarrow> io_answer \<times> io_answer) \<Rightarrow> nat \<Rightarrow> net \<Rightarrow> net" where
  "Service_Broadcast io sendBuffer n = Broadcast_to io sendBuffer (n_sessions n) n"

section \<open>Listener\<close>

text \<open>
  RegisterAccept calls itself again whenever AcceptEx fails with something else than WSA_IO_PENDING.
  The answers to its attempts come as a list, each of them whether the new session could be
  registered and what AcceptEx answered; None is a call that all the answers did not bring to an end.
\<close>

fun RegisterAccept :: "(bool \<times> io_answer) list \<Rightarrow> nat \<Rightarrow> net \<Rightarrow> net result option" where
  "RegisterAccept [] i n = None"
| "RegisterAccept ((registered, io) # as) i n =
     (case CreateSession registered n of
        Inl e \<Rightarrow> Some (Inl e)
      | Inr (session, n1) \<Rightarrow>
          let n2 = set_accept i \<lparr>ae_pending = False, ae_session = session\<rparr> n1 in
          (case session of
             None \<Rightarrow> Some (Inl NullDeref)
           | Some sid \<Rightarrow>
               (case WritePos (m_recvBuffer (n_sess n2 sid)) of
                  Inl e \<Rightarrow> Some (Inl e)
                | Inr _ \<Rightarrow>
                    (case io of
                       IO_Accepted \<Rightarrow> Some (Inr (set_accept i \<lparr>ae_pending = True, ae_session = session\<rparr> n2))
                     | IO_Failed _ \<Rightarrow> RegisterAccept as i n2))))"

text \<open>The loop of StartAccept over the accept events still to make.\<close>

fun accept_loop :: "(nat \<Rightarrow> (bool \<times> io_answer) list) \<Rightarrow> nat \<Rightarrow> net \<Rightarrow> net result option" where
  "accept_loop answers 0 n = Some (Inr n)"
| "accept_loop answers (Suc k) n =
     (let i = length (n_acceptEvents n);
          n1 = n\<lparr>n_acceptEvents := n_acceptEvents n @ [\<lparr>ae_pending = False, ae_session = None\<rparr>]\<rparr>
      in case RegisterAccept (answers i) i n1 of
           None \<Rightarrow> None
         | Some (Inl e) \<Rightarrow> Some (Inl e)
         | Some (Inr n2) \<Rightarrow> accept_loop answers k n2)"

text \<open>The outcomes of CreateSocket, Register, SetReuseAddress, SetLinger, Bind and Listen.\<close>

record listen_answers =
  la_created :: bool
  la_registered :: bool
  la_reuse :: bool
  la_linger :: bool
  la_bound :: bool
  la_listening :: bool

definition StartAccept ::
    "listen_answers \<Rightarrow> (nat \<Rightarrow> (bool \<times> io_answer) list) \<Rightarrow> net \<Rightarrow> (bool \<times> net) result option" where
  "StartAccept la answers n =
     (if \<not> la_created la then Some (Inr (False, n\<lparr>n_socket := False\<rparr>))
      else
        let n1 = n\<lparr>n_socket := True\<rparr> in
        if \<not> la_registered la then Some (Inr (False, n1))
        else if \<not> la_reuse la then Some (Inr (False, n1))
        else if \<not> la_linger la then Some (Inr (False, n1))
        else if \<not> la_bound la then Some (Inr (False, n1))
        else if \<not> la_listening la then Some (Inr (False, n1))
        else map_option (\<lambda>r. rbind r (\<lambda>n2. Inr (True, n2))) (accept_loop answers (nat (n_maxSessionCount n1)) n1))"

definition Listener_CloseSocket :: "net \<Rightarrow> net" where
  "Listener_CloseSocket n = n\<lparr>n_socket := False\<rparr>"

section \<open>The callbacks of the application\<close>

record 'a app_calls =
  on_connected :: "nat \<Rightarrow> 'a \<Rightarrow> 'a result"
  on_disconnected :: "nat \<Rightarrow> 'a \<Rightarrow> 'a result"
  on_recv_packet :: "nat \<Rightarrow> 'a packet_callback"

text \<open>What the handlers of a session do with the service and the application.\<close>

definition connect_calls :: "'a app_calls \<Rightarrow> nat \<Rightarrow> session \<Rightarrow> net \<times> 'a \<Rightarrow> (net \<times> 'a) result" where
  "connect_calls A sid s na =
     (let n = AddSession sid (fst na) in rbind (on_connected A sid (snd na)) (\<lambda>a. Inr (n, a)))"

definition disconnect_calls :: "'a app_calls \<Rightarrow> nat \<Rightarrow> net \<times> 'a \<Rightarrow> (net \<times> 'a) result" where
  "disconnect_calls A sid na =
     rbind (on_disconnected A sid (snd na)) (\<lambda>a. rbind (ReleaseSession sid (fst na)) (\<lambda>n. Inr (n, a)))"

definition recv_call :: "'a app_calls \<Rightarrow> nat \<Rightarrow> (net \<times> 'a) packet_callback" where
  "recv_call A sid buffer len na = rbind (on_recv_packet A sid buffer len (snd na)) (\<lambda>a. Inr (fst na, a))"

definition store_session :: "nat \<Rightarrow> session \<times> net \<times> 'a \<Rightarrow> net \<times> 'a" where
  "store_session sid r = (case r of (s, n, a) \<Rightarrow> (upd_net_session sid (\<lambda>_. s) n, a))"

section \<open>Accepting\<close>

text \<open>The answers a completed accept needs: SetUpdateAcceptSocket, getpeername, the request of the
  first receive, and those of the next accept.\<close>

record accept_answers =
  aa_updated :: bool
  aa_peername :: bool
  aa_recv :: io_answer
  aa_disconnect :: io_answer
  aa_next :: "(bool \<times> io_answer) list"

definition reregister :: "(bool \<times> io_answer) list \<Rightarrow> nat \<Rightarrow> net \<times> 'a \<Rightarrow> (net \<times> 'a) result option" where
  "reregister as i na = map_option (\<lambda>r. rbind r (\<lambda>n. Inr (n, snd na))) (RegisterAccept as i (fst na))"

definition ProcessAccept :: "'a app_calls \<Rightarrow> accept_answers \<Rightarrow> nat \<Rightarrow> net \<times> 'a \<Rightarrow> (net \<times> 'a) result option" where
  "ProcessAccept A aa i na =
     (case ae_session (n_acceptEvents (fst na) ! i) of
        None \<Rightarrow> Some (Inl NullDeref)
      | Some sid \<Rightarrow>
          if \<not> aa_updated aa then reregister (aa_next aa) i na
          else if \<not> aa_peername aa then reregister (aa_next aa) i na
          else
            (case ProcessConnect (connect_calls A sid) (aa_recv aa) (aa_disconnect aa) (n_sess (fst na) sid) na of
               Inl e \<Rightarrow> Some (Inl e)
             | Inr r \<Rightarrow> reregister (aa_next aa) i (store_session sid r)))"

definition Listener_Dispatch ::
    "'a app_calls \<Rightarrow> accept_answers \<Rightarrow> EventType \<Rightarrow> nat \<Rightarrow> net \<times> 'a \<Rightarrow> (net \<times> 'a) result option" where
  "Listener_Dispatch A aa event i na =
     (if event \<noteq> EventType.Accept then Some (Inl (Crash ''ASSERT_CRASH'')) else ProcessAccept A aa i na)"

section \<open>Dispatch\<close>

text \<open>An event is one of a session or one of the listener; its m_owner is who dispatches it.\<close>

datatype iocp_event = Session_event nat EventType | Accept_event nat

text \<open>What GetQueuedCompletionStatus says: a completion, a completion of a request that failed, the
  time ran out, or a failure without an event.\<close>

datatype completion = Completed iocp_event int | Completed_error iocp_event int | Timed_out | Port_error

record dispatch_answers =
  da_io :: io_answer
  da_disconnect :: io_answer
  da_accept :: accept_answers

definition dispatch_event ::
    "'a app_calls \<Rightarrow> dispatch_answers \<Rightarrow> iocp_event \<Rightarrow> int \<Rightarrow> net \<times> 'a \<Rightarrow> (net \<times> 'a) result option" where
  "dispatch_event A da ev numOfBytes na =
     (case ev of
        Session_event sid type \<Rightarrow>
          map_option (\<lambda>r. rbind r (\<lambda>x. Inr (store_session sid x)))
            (Session_Dispatch (recv_call A sid) (connect_calls A sid) (disconnect_calls A sid)
               (da_io da) (da_disconnect da) type numOfBytes (n_sess (fst na) sid) na)
      | Accept_event i \<Rightarrow> Listener_Dispatch A (da_accept da) EventType.Accept i na)"

definition IocpCore_Dispatch ::
    "'a app_calls \<Rightarrow> dispatch_answers \<Rightarrow> completion \<Rightarrow> net \<times> 'a \<Rightarrow> (bool \<times> net \<times> 'a) result option" where
  "IocpCore_Dispatch A da c na =
     (case c of
        Completed ev numOfBytes \<Rightarrow> map_option (\<lambda>r. rbind r (\<lambda>x. Inr (True, x))) (dispatch_event A da ev numOfBytes na)
      | Completed_error ev numOfBytes \<Rightarrow>
          map_option (\<lambda>r. rbind r (\<lambda>x. Inr (True, x))) (dispatch_event A da ev numOfBytes na)
      | Timed_out \<Rightarrow> Some (Inr (False, na))
      | Port_error \<Rightarrow> Some (Inl NullDeref))"

section \<open>Starting\<close>

definition ServerService_Start ::
    "listen_answers \<Rightarrow> (nat \<Rightarrow> (bool \<times> io_answer) list) \<Rightarrow> net \<Rightarrow> (bool \<times> net) result option" where
  "ServerService_Start la answers n =
     (if \<not> CanStart n then Some (Inr (False, n)) else StartAccept la answers n)"

text \<open>ClientService::Start: the answers for each session are those of Register, of the two calls of
  RegisterConnect before ConnectEx, and of ConnectEx.\<close>

fun connect_loop :: "(bool \<times> bool \<times> bool \<times> io_answer) list \<Rightarrow> net \<Rightarrow> (bool \<times> net) result" where
  "connect_loop [] n = Inr (True, n)"
| "connect_loop ((registered, reuse, bound, io) # as) n =
     rbind (CreateSession registered n) (\<lambda>(session, n1).
       case session of
         None \<Rightarrow> Inl NullDeref
       | Some sid \<Rightarrow>
           let (connecting, s) = RegisterConnect reuse bound io (n_type n1) (n_sess n1 sid);
               n2 = upd_net_session sid (\<lambda>_. s) n1
           in if \<not> connecting then Inr (False, n2) else connect_loop as n2)"

definition ClientService_Start :: "(nat \<Rightarrow> bool \<times> bool \<times> bool \<times> io_answer) \<Rightarrow> net \<Rightarrow> (bool \<times> net) result" where
  "ClientService_Start answers n =
     (if \<not> CanStart n then Inr (False, n)
      else connect_loop (map answers [0..<nat (n_maxSessionCount n)]) n)"

end
