(* ===== verification/Net_Safety.thy ===== *)
theory Net_Safety
  imports Net_Service
begin

text \<open>
  What a server keeps true while it accepts, receives, sends and disconnects: the count of sessions is
  the size of their set, a session is released exactly once, and every accept event has a request in
  flight for a session of its own. Operations are steps; the application takes steps of its own.
\<close>

section \<open>What an operation does to a connection\<close>

text \<open>A session operation keeps the connection and its disconnect event, or drops the connection.\<close>

definition link_step :: "session \<Rightarrow> session \<Rightarrow> bool" where
  "link_step s s' \<longleftrightarrow> m_connectEvent s' = m_connectEvent s
     \<and> (m_connected s' = m_connected s \<and> m_disconnectEvent s' = m_disconnectEvent s
        \<or> m_connected s \<and> \<not> m_connected s')"

lemma link_refl [simp]: "link_step s s"
  by (simp add: link_step_def)

lemma link_trans: "link_step s t \<Longrightarrow> link_step t u \<Longrightarrow> link_step s u"
  by (auto simp: link_step_def)

lemma link_cong:
  "m_connected t = m_connected s \<Longrightarrow> m_disconnectEvent t = m_disconnectEvent s \<Longrightarrow> m_connectEvent t = m_connectEvent s
     \<Longrightarrow> link_step s t"
  by (simp add: link_step_def)

lemma link_Disconnect: "link_step s (Disconnect io s)"
  by (auto simp: link_step_def Disconnect_def RegisterDisconnect_def Let_def split: io_answer.split)

lemma link_HandleError: "link_step s (HandleError io e s)"
  by (simp add: HandleError_def link_Disconnect)

lemma link_RegisterRecv: "RegisterRecv io dio s = Inr s' \<Longrightarrow> link_step s s'"
  unfolding RegisterRecv_def
  by (auto simp: Let_def rbind_eq_Inr HandleError_def Disconnect_def RegisterDisconnect_def link_step_def
      split: if_splits io_answer.splits)

lemma link_ProcessRecv:
  assumes "ProcessRecv cb io dio k s app = Some (Inr (s', app'))"
  shows "link_step s s'"
proof -
  have D: "link_step s (Disconnect dio t)"
    if "m_connected t = m_connected s" "m_disconnectEvent t = m_disconnectEvent s" "m_connectEvent t = m_connectEvent s" for t
    using link_trans[OF link_cong[OF that] link_Disconnect] .
  have R: "link_step s s'" if "RegisterRecv io dio t = Inr s'"
    "m_connected t = m_connected s" "m_disconnectEvent t = m_disconnectEvent s" "m_connectEvent t = m_connectEvent s" for t
    using link_trans[OF link_cong[OF that(2-4)] link_RegisterRecv[OF that(1)]] .
  show ?thesis
    using assms unfolding ProcessRecv_def Let_def
    by (auto simp: rbind_eq_Inr split: if_splits prod.splits sum.splits option.splits intro!: D R)
qed

lemma link_RegisterSend: "link_step s (RegisterSend io dio s)"
  by (auto simp: RegisterSend_def take_queue_def HandleError_def Disconnect_def RegisterDisconnect_def link_step_def Let_def
      split: io_answer.split)

lemma link_Send: "link_step s (Session_Send io dio b s)"
  using link_trans[OF link_cong link_RegisterSend]
  by (auto simp: Session_Send_def Let_def link_cong)

lemma link_ProcessSend: "link_step s (ProcessSend io dio k s)"
  using link_trans[OF link_cong link_RegisterSend] link_trans[OF link_cong link_Disconnect]
  by (auto simp: ProcessSend_def Let_def link_cong)

lemma ProcessConnect_Inr:
  assumes "ProcessConnect (connect_calls A sid) io dio s (n, a) = Inr (s', n', a')"
  shows "n' = AddSession sid n \<and> on_connected A sid a = Inr a'
    \<and> link_step (s\<lparr>m_connectEvent := False, m_connected := True\<rparr>) s'"
  using assms by (auto simp: ProcessConnect_def connect_calls_def Let_def rbind_eq_Inr dest: link_RegisterRecv)

section \<open>The machine\<close>

fun event_pending :: "iocp_event \<Rightarrow> net \<Rightarrow> bool" where
  "event_pending (Session_event sid EventType.Connect) n = m_connectEvent (n_sess n sid)"
| "event_pending (Session_event sid EventType.Disconnect) n = m_disconnectEvent (n_sess n sid)"
| "event_pending (Session_event sid EventType.Recv) n = m_recvEvent (n_sess n sid)"
| "event_pending (Session_event sid EventType.Send) n = m_sendEvent (n_sess n sid)"
| "event_pending (Session_event sid EventType.Accept) n = False"
| "event_pending (Accept_event i) n = (i < length (n_acceptEvents n) \<and> ae_pending (n_acceptEvents n ! i))"

text \<open>The worker threads may use different callbacks, those of the set AS. While a receive is in flight
  the socket stores bytes in the buffer it was given.\<close>

inductive net_step :: "'a app_calls set \<Rightarrow> ('a \<Rightarrow> 'a \<Rightarrow> bool) \<Rightarrow> net \<times> 'a \<Rightarrow> net \<times> 'a \<Rightarrow> bool"
  for AS :: "'a app_calls set" and Q :: "'a \<Rightarrow> 'a \<Rightarrow> bool" where
  net_complete: "A \<in> AS \<Longrightarrow> event_pending ev n \<Longrightarrow>
     IocpCore_Dispatch A da (Completed ev k) (n, a) = Some (Inr (b, x)) \<Longrightarrow> net_step AS Q (n, a) x"
| net_failed: "A \<in> AS \<Longrightarrow> event_pending ev n \<Longrightarrow>
     IocpCore_Dispatch A da (Completed_error ev k) (n, a) = Some (Inr (b, x)) \<Longrightarrow> net_step AS Q (n, a) x"
| net_timeout: "A \<in> AS \<Longrightarrow> IocpCore_Dispatch A da Timed_out (n, a) = Some (Inr (b, x)) \<Longrightarrow> net_step AS Q (n, a) x"
| net_store: "m_recvEvent (n_sess n sid) \<Longrightarrow> int (length bs) \<le> FreeSize (m_recvBuffer (n_sess n sid)) \<Longrightarrow>
     net_step AS Q (n, a) (upd_net_session sid (\<lambda>s. s\<lparr>m_recvBuffer := socket_store bs (m_recvBuffer s)\<rparr>) n, a)"
| net_send: "net_step AS Q (n, a) (upd_net_session sid (Session_Send io dio sendBuffer) n, a)"
| net_broadcast: "net_step AS Q (n, a) (Service_Broadcast answers sendBuffer n, a)"
| net_disconnect: "net_step AS Q (n, a) (upd_net_session sid (Disconnect io) n, a)"
| net_app: "Q a a' \<Longrightarrow> net_step AS Q (n, a) (n, a')"

text \<open>A server whose Start has returned true; maxSessionCount is the number of accept events.\<close>

definition server_init :: "('a \<Rightarrow> bool) \<Rightarrow> net \<times> 'a \<Rightarrow> bool" where
  "server_init I x \<longleftrightarrow> I (snd x) \<and> (\<exists>la answers mx blank. new_session = Inr blank
     \<and> ServerService_Start la answers (new_service Server True mx blank) = Some (Inr (True, fst x)))"

section \<open>The invariant\<close>

definition session_linked :: "nat set \<Rightarrow> nat \<Rightarrow> session \<Rightarrow> bool" where
  "session_linked S sid s \<longleftrightarrow> (m_connected s \<longrightarrow> sid \<in> S) \<and> (m_disconnectEvent s \<longrightarrow> sid \<in> S \<and> \<not> m_connected s)
     \<and> \<not> m_connectEvent s"

definition sessions_ok :: "net \<Rightarrow> bool" where
  "sessions_ok n \<longleftrightarrow> distinct (n_sessions n) \<and> n_sessionCount n = int (length (n_sessions n))
     \<and> (\<forall>sid\<in>set (n_sessions n). sid < n_next n) \<and> (\<forall>sid. session_linked (set (n_sessions n)) sid (n_sess n sid))"

definition accept_ok :: "net \<Rightarrow> accept_event \<Rightarrow> bool" where
  "accept_ok n e \<longleftrightarrow> ae_pending e \<and> (\<exists>sid. ae_session e = Some sid \<and> sid < n_next n \<and> sid \<notin> set (n_sessions n))"

definition accepts_ok :: "net \<Rightarrow> bool" where
  "accepts_ok n \<longleftrightarrow> distinct (map ae_session (n_acceptEvents n)) \<and> (\<forall>e\<in>set (n_acceptEvents n). accept_ok n e)"

definition net_inv :: "net \<Rightarrow> bool" where
  "net_inv n \<longleftrightarrow> sessions_ok n \<and> accepts_ok n"

lemma session_linked_step: "session_linked S sid s \<Longrightarrow> link_step s s' \<Longrightarrow> session_linked S sid s'"
  by (auto simp: session_linked_def link_step_def)

lemma session_linked_mono: "session_linked S sid s \<Longrightarrow> S \<subseteq> T \<Longrightarrow> session_linked T sid s"
  by (auto simp: session_linked_def)

lemma new_session_idle: "new_session = Inr s \<Longrightarrow> session_linked S sid s"
  by (auto simp: new_session_def rbind_eq_Inr session_linked_def)

lemma upd_session_ok:
  assumes "net_inv n" and "\<And>s. link_step s (f s)"
  shows "net_inv (upd_net_session sid f n)"
  using assms session_linked_step[OF _ assms(2)]
  by (auto simp: net_inv_def sessions_ok_def accepts_ok_def accept_ok_def upd_net_session_def)

lemma broadcast_ok: "net_inv n \<Longrightarrow> net_inv (Broadcast_to io b sids n)"
  by (induction io b sids n rule: Broadcast_to.induct) (simp_all add: upd_session_ok link_Send)

text \<open>While one accept event is being set up the others are in order.\<close>

definition others_ok :: "nat \<Rightarrow> net \<Rightarrow> bool" where
  "others_ok i n \<longleftrightarrow> i < length (n_acceptEvents n)
     \<and> (\<forall>j<length (n_acceptEvents n). j \<noteq> i \<longrightarrow> accept_ok n (n_acceptEvents n ! j))
     \<and> (\<forall>j<length (n_acceptEvents n). \<forall>k<length (n_acceptEvents n). j \<noteq> i \<longrightarrow> k \<noteq> i \<longrightarrow> j \<noteq> k \<longrightarrow>
          ae_session (n_acceptEvents n ! j) \<noteq> ae_session (n_acceptEvents n ! k))"

lemma CreateSession_ok:
  assumes "CreateSession r n = Inr (o', n')" and "sessions_ok n"
  shows "sessions_ok n' \<and> n_sessions n' = n_sessions n \<and> n_acceptEvents n' = n_acceptEvents n
    \<and> n_next n' = n_next n + 1 \<and> (o' = Some (n_next n) \<or> o' = None)"
proof -
  obtain x where x: "new_session = Inr x" "n' = n\<lparr>n_sess := (n_sess n)(n_next n := x), n_next := n_next n + 1\<rparr>"
    "o' = Some (n_next n) \<or> o' = None"
    using assms(1) by (auto simp: CreateSession_def rbind_eq_Inr Let_def split: if_splits)
  have "sid < Suc (n_next n)" if "sid \<in> set (n_sessions n)" for sid
    using assms(2) that by (auto simp: sessions_ok_def intro: less_SucI)
  then have "sessions_ok n'" using assms(2) new_session_idle[OF x(1)] by (simp add: x(2) sessions_ok_def)
  then show ?thesis using x(2,3) by simp
qed

lemma RegisterAccept_ok:
  assumes "RegisterAccept as i n = Some (Inr n')" and "sessions_ok n" and "others_ok i n"
  shows "net_inv n' \<and> n_sessions n' = n_sessions n \<and> length (n_acceptEvents n') = length (n_acceptEvents n)"
  using assms
proof (induction as i n arbitrary: n' rule: RegisterAccept.induct)
  case (2 registered io as i n)
  obtain o' n1 where c: "CreateSession registered n = Inr (o', n1)"
    using 2(2) by (auto split: sum.splits)
  obtain sid where sid: "o' = Some sid" using 2(2) c by (auto simp: Let_def split: option.splits)
  define n2 where "n2 = set_accept i \<lparr>ae_pending = False, ae_session = Some sid\<rparr> n1"
  note ok = CreateSession_ok[OF c 2(3)]
  have new: "sid = n_next n" using ok sid by simp
  have n2: "sessions_ok n2" "n_sessions n2 = n_sessions n" "n_next n2 = n_next n + 1"
    "n_acceptEvents n2 = (n_acceptEvents n)[i := \<lparr>ae_pending = False, ae_session = Some sid\<rparr>]"
    using ok by (auto simp: n2_def set_accept_def sessions_ok_def)
  have acc: "accept_ok n2 e" if "accept_ok n e" for e using that n2(2,3) by (auto simp: accept_ok_def)
  have others: "others_ok i n2"
    using 2(4) acc by (auto simp: others_ok_def n2(4))
  obtain k where w: "WritePos (m_recvBuffer (n_sess n2 sid)) = Inr k"
    using 2(2) c sid by (auto simp: Let_def n2_def split: sum.splits)
  show ?case
  proof (cases io)
    case IO_Accepted
    then have n': "n' = set_accept i \<lparr>ae_pending = True, ae_session = Some sid\<rparr> n2"
      using 2(2) c sid w by (simp add: Let_def n2_def)
    have len: "i < length (n_acceptEvents n)" using 2(4) by (simp add: others_ok_def)
    have ev: "n_acceptEvents n' = (n_acceptEvents n)[i := \<lparr>ae_pending = True, ae_session = Some sid\<rparr>]"
      by (simp add: n' set_accept_def n2(4))
    have same: "n_sessions n' = n_sessions n" "n_next n' = n_next n + 1" "n_sess n' = n_sess n2"
      "n_sessionCount n' = n_sessionCount n2"
      by (simp_all add: n' set_accept_def n2)
    have fresh: "sid \<notin> set (n_sessions n)" using 2(3) new by (auto simp: sessions_ok_def)
    have one: "accept_ok n' (n_acceptEvents n' ! j)" if "j < length (n_acceptEvents n')" for j
      using that 2(4) fresh new same len by (auto simp: ev others_ok_def accept_ok_def nth_list_update)
    have ses: "ae_session (n_acceptEvents n' ! j) \<noteq> ae_session (n_acceptEvents n' ! k)"
      if "j < length (n_acceptEvents n')" "k < length (n_acceptEvents n')" "j \<noteq> k" for j k
    proof -
      have lt: "ae_session (n_acceptEvents n ! m) \<noteq> Some sid" if "m < length (n_acceptEvents n)" "m \<noteq> i" for m
        using 2(4) that new by (auto simp: others_ok_def accept_ok_def)
      show ?thesis
        using that 2(4) lt[of j] lt[of k] by (auto simp: ev nth_list_update others_ok_def)
    qed
    have "distinct (map ae_session (n_acceptEvents n'))" using ses by (simp add: distinct_conv_nth)
    moreover have "\<forall>e\<in>set (n_acceptEvents n'). accept_ok n' e" using one by (auto simp: in_set_conv_nth)
    moreover have "sessions_ok n'" using n2(1) same by (simp add: sessions_ok_def n2)
    ultimately show ?thesis using same ev by (simp add: net_inv_def accepts_ok_def)
  next
    case (IO_Failed e)
    then have "RegisterAccept as i n2 = Some (Inr n')" using 2(2) c sid w by (simp add: Let_def n2_def)
    from 2(1)[OF c[unfolded sid] refl n2_def refl w IO_Failed this n2(1) others]
    show ?thesis using n2 by simp
  qed
qed simp

section \<open>Every step keeps the invariant\<close>

lemma others_okI: "net_inv n \<Longrightarrow> i < length (n_acceptEvents n) \<Longrightarrow> others_ok i n"
  by (auto simp: net_inv_def accepts_ok_def others_ok_def distinct_conv_nth)

lemma ProcessRecv_preserves:
  assumes "ProcessRecv cb io dio k s app = Some (Inr (s', app'))" and "P app"
    and "\<And>here k s s'. P s \<Longrightarrow> cb here k s = Inr s' \<Longrightarrow> P s'"
  shows "P app'"
proof -
  have "app' = app \<or> (\<exists>m len q. OnRecv cb m len app = Some (Inr (q, app')))"
    using assms(1) unfolding ProcessRecv_def Let_def
    by (auto simp: rbind_eq_Inr split: if_splits prod.splits sum.splits option.splits)
  then show ?thesis
  proof
    assume "\<exists>m len q. OnRecv cb m len app = Some (Inr (q, app'))"
    then obtain m len q where r: "OnRecv cb m len app = Some (Inr (q, app'))" by blast
    show ?thesis by (rule OnRecv_preserves[where P = P, OF r assms(2)]) (rule assms(3))
  qed (use assms(2) in simp)
qed

lemma store_ok:
  assumes "net_inv n" and "link_step (n_sess n sid) s'"
  shows "net_inv (upd_net_session sid (\<lambda>_. s') n)"
  using assms session_linked_step[OF _ assms(2)]
  by (auto simp: net_inv_def sessions_ok_def accepts_ok_def accept_ok_def upd_net_session_def)

lemma release_ok:
  assumes inv: "net_inv n" and "m_disconnectEvent (n_sess n sid)" and r: "ReleaseSession sid n = Inr n'"
  shows "net_inv (upd_net_session sid (\<lambda>_. (n_sess n sid)\<lparr>m_disconnectEvent := False\<rparr>) n')"
proof -
  let ?s = "(n_sess n sid)\<lparr>m_disconnectEvent := False\<rparr>"
  have S: "sessions_ok n" and A: "accepts_ok n" using inv by (simp_all add: net_inv_def)
  have link: "session_linked (set (n_sessions n)) k (n_sess n k)" for k using S by (simp add: sessions_ok_def)
  have mem: "sid \<in> set (n_sessions n)" and off: "\<not> m_connected (n_sess n sid)"
    using link[of sid] assms(2) by (auto simp: session_linked_def)
  have n': "n' = n\<lparr>n_sessions := remove1 sid (n_sessions n), n_sessionCount := n_sessionCount n - 1\<rparr>"
    using r mem by (simp add: ReleaseSession_def)
  have d: "distinct (n_sessions n)" using S by (simp add: sessions_ok_def)
  have "session_linked (set (n_sessions n) - {sid}) k (if k = sid then ?s else n_sess n k)" for k
    using link[of k] off by (auto simp: session_linked_def)
  moreover have "length (remove1 sid (n_sessions n)) + 1 = length (n_sessions n)"
    using mem length_pos_if_in_set[OF mem] by (simp add: length_remove1)
  then have "int (length (remove1 sid (n_sessions n))) = n_sessionCount n - 1"
    using S by (simp add: sessions_ok_def)
  ultimately have "sessions_ok (upd_net_session sid (\<lambda>_. ?s) n')"
    using S d by (auto simp: sessions_ok_def n' upd_net_session_def)
  moreover have "accepts_ok (upd_net_session sid (\<lambda>_. ?s) n')"
    using A by (auto simp: accepts_ok_def accept_ok_def n' upd_net_session_def dest: notin_set_remove1)
  ultimately show ?thesis by (simp add: net_inv_def)
qed

lemma session_event_ok:
  assumes inv: "net_inv n" and ev: "event_pending (Session_event sid type) n"
    and d: "Session_Dispatch (recv_call A sid) (connect_calls A sid) (disconnect_calls A sid) io dio type k (n_sess n sid) (n, a)
      = Some (Inr r)"
  shows "net_inv (fst (store_session sid r))"
proof -
  obtain s' n' a' where r: "r = (s', n', a')" by (cases r) auto
  have link: "session_linked (set (n_sessions n)) sid (n_sess n sid)" using inv by (simp add: net_inv_def sessions_ok_def)
  show ?thesis
  proof (cases type)
    case Connect
    then show ?thesis using ev link by (simp add: session_linked_def)
  next
    case Disconnect
    then obtain a'' where "on_disconnected A sid a = Inr a''" "ReleaseSession sid n = Inr n'"
      "s' = (n_sess n sid)\<lparr>m_disconnectEvent := False\<rparr>"
      using d r by (auto simp: Session_Dispatch_def ProcessDisconnect_def disconnect_calls_def rbind_eq_Inr Let_def)
    then show ?thesis using release_ok[OF inv] ev Disconnect by (simp add: r store_session_def)
  next
    case Accept
    then show ?thesis using ev by simp
  next
    case Recv
    then have p: "ProcessRecv (recv_call A sid) io dio k (n_sess n sid) (n, a) = Some (Inr (s', n', a'))"
      using d r by (simp add: Session_Dispatch_def)
    have "fst (n', a') = n"
      by (rule ProcessRecv_preserves[where P = "\<lambda>na. fst na = n", OF p]) (auto simp: recv_call_def rbind_eq_Inr)
    then show ?thesis using store_ok[OF inv link_ProcessRecv[OF p]] by (simp add: r store_session_def)
  next
    case Send
    then show ?thesis using d r store_ok[OF inv link_ProcessSend] by (auto simp: Session_Dispatch_def store_session_def)
  qed
qed

lemma connected_ok:
  assumes inv: "net_inv n" and i: "i < length (n_acceptEvents n)" "ae_session (n_acceptEvents n ! i) = Some sid"
    and l: "link_step ((n_sess n sid)\<lparr>m_connectEvent := False, m_connected := True\<rparr>) s'"
  shows "sessions_ok (upd_net_session sid (\<lambda>_. s') (AddSession sid n))
    \<and> others_ok i (upd_net_session sid (\<lambda>_. s') (AddSession sid n))"
proof -
  have S: "sessions_ok n" and A: "accepts_ok n" using inv by (simp_all add: net_inv_def)
  have new: "sid < n_next n" "sid \<notin> set (n_sessions n)"
    using A i by (auto simp: accepts_ok_def accept_ok_def dest!: nth_mem)
  have link: "session_linked (set (n_sessions n)) k (n_sess n k)" for k using S by (simp add: sessions_ok_def)
  have "session_linked (insert sid (set (n_sessions n))) sid ((n_sess n sid)\<lparr>m_connectEvent := False, m_connected := True\<rparr>)"
    using link[of sid] new(2) by (auto simp: session_linked_def)
  from session_linked_step[OF this l] have "session_linked (insert sid (set (n_sessions n))) sid s'" .
  moreover have "session_linked (insert sid (set (n_sessions n))) k (n_sess n k)" for k
    by (rule session_linked_mono[OF link]) blast
  ultimately have "sessions_ok (upd_net_session sid (\<lambda>_. s') (AddSession sid n))"
    using S new by (auto simp: sessions_ok_def AddSession_def upd_net_session_def)
  moreover have "others_ok i (upd_net_session sid (\<lambda>_. s') (AddSession sid n))"
  proof -
    have o: "others_ok i n" by (rule others_okI[OF inv i(1)])
    have "ae_session (n_acceptEvents n ! j) \<noteq> Some sid" if "j < length (n_acceptEvents n)" "j \<noteq> i" for j
      using A i that unfolding accepts_ok_def distinct_conv_nth by (metis length_map nth_map)
    then have "accept_ok (upd_net_session sid (\<lambda>_. s') (AddSession sid n)) (n_acceptEvents n ! j)"
      if "j < length (n_acceptEvents n)" "j \<noteq> i" for j
      using o that by (fastforce simp: others_ok_def accept_ok_def AddSession_def upd_net_session_def)
    then show ?thesis using o by (simp add: others_ok_def AddSession_def upd_net_session_def)
  qed
  ultimately show ?thesis by simp
qed

lemma accept_event_ok:
  assumes inv: "net_inv n" and i: "i < length (n_acceptEvents n)"
    and p: "ProcessAccept A aa i (n, a) = Some (Inr x)"
  shows "net_inv (fst x) \<and> length (n_acceptEvents (fst x)) = length (n_acceptEvents n)"
proof -
  have again: "net_inv (fst y) \<and> length (n_acceptEvents (fst y)) = length (n_acceptEvents m)"
    if r: "reregister as i (m, b) = Some (Inr y)" "sessions_ok m" "others_ok i m" for as m b y
  proof -
    obtain m' where "RegisterAccept as i m = Some (Inr m')" "y = (m', b)"
      using r(1) by (auto simp: reregister_def rbind_eq_Inr)
    then show ?thesis using RegisterAccept_ok[of as i m m'] r(2,3) by simp
  qed
  have S: "sessions_ok n" "others_ok i n" using inv others_okI[OF inv i] by (simp_all add: net_inv_def)
  obtain sid where sid: "ae_session (n_acceptEvents n ! i) = Some sid"
    using p by (auto simp: ProcessAccept_def split: option.splits)
  show ?thesis
  proof (cases "aa_updated aa \<and> aa_peername aa")
    case True
    then obtain s' n' a' where c: "ProcessConnect (connect_calls A sid) (aa_recv aa) (aa_disconnect aa) (n_sess n sid) (n, a)
        = Inr (s', n', a')" and r: "reregister (aa_next aa) i (store_session sid (s', n', a')) = Some (Inr x)"
      using p sid by (auto simp: ProcessAccept_def split: sum.splits)
    have n': "n' = AddSession sid n" and l: "link_step ((n_sess n sid)\<lparr>m_connectEvent := False, m_connected := True\<rparr>) s'"
      using ProcessConnect_Inr[OF c] by blast+
    let ?m = "upd_net_session sid (\<lambda>_. s') (AddSession sid n)"
    have "reregister (aa_next aa) i (?m, a') = Some (Inr x)" using r by (simp add: store_session_def n')
    from again[OF this] connected_ok[OF inv i sid l] show ?thesis
      by (simp add: upd_net_session_def AddSession_def)
  next
    case False
    then have "reregister (aa_next aa) i (n, a) = Some (Inr x)"
      using p sid by (auto simp: ProcessAccept_def split: if_splits)
    from again[OF this S] show ?thesis .
  qed
qed

lemma dispatch_ok:
  assumes inv: "net_inv n" and ev: "event_pending ev n" and d: "dispatch_event A da ev k (n, a) = Some (Inr x)"
  shows "net_inv (fst x)"
proof (cases ev)
  case (Session_event sid type)
  then obtain r where r: "Session_Dispatch (recv_call A sid) (connect_calls A sid) (disconnect_calls A sid)
      (da_io da) (da_disconnect da) type k (n_sess n sid) (n, a) = Some (Inr r)" and x: "x = store_session sid r"
    using d by (auto simp: dispatch_event_def rbind_eq_Inr)
  have "event_pending (Session_event sid type) n" using ev Session_event by simp
  from session_event_ok[OF inv this r] show ?thesis by (simp only: x)
next
  case (Accept_event i)
  then have "i < length (n_acceptEvents n)" "ProcessAccept A (da_accept da) i (n, a) = Some (Inr x)"
    using ev d by (simp_all add: dispatch_event_def Listener_Dispatch_def)
  from accept_event_ok[OF inv this] show ?thesis by simp
qed

text \<open>The number of accept events and its limit do not change.\<close>

definition net_shape :: "net \<Rightarrow> nat \<times> int" where
  "net_shape n = (length (n_acceptEvents n), n_maxSessionCount n)"

lemma shape_simps [simp]:
  "net_shape (upd_net_session sid f n) = net_shape n" "net_shape (AddSession sid n) = net_shape n"
  "net_shape (set_accept i e n) = net_shape n"
  by (simp_all add: net_shape_def upd_net_session_def AddSession_def set_accept_def)

lemma shape_Release: "ReleaseSession sid n = Inr n' \<Longrightarrow> net_shape n' = net_shape n"
  by (auto simp: ReleaseSession_def net_shape_def split: if_splits)

lemma shape_Create: "CreateSession r n = Inr (o', n') \<Longrightarrow> net_shape n' = net_shape n"
  by (auto simp: CreateSession_def net_shape_def rbind_eq_Inr Let_def split: if_splits)

lemma shape_RegisterAccept: "RegisterAccept as i n = Some (Inr n') \<Longrightarrow> net_shape n' = net_shape n"
proof (induction as i n arbitrary: n' rule: RegisterAccept.induct)
  case (2 registered io as i n)
  obtain o' n1 where c: "CreateSession registered n = Inr (o', n1)" using 2(2) by (auto split: sum.splits)
  obtain sid where sid: "o' = Some sid" using 2(2) c by (auto simp: Let_def split: option.splits)
  define n2 where "n2 = set_accept i \<lparr>ae_pending = False, ae_session = Some sid\<rparr> n1"
  have n2: "net_shape n2 = net_shape n" using shape_Create[OF c] by (simp add: n2_def)
  obtain k where w: "WritePos (m_recvBuffer (n_sess n2 sid)) = Inr k"
    using 2(2) c sid by (auto simp: Let_def n2_def split: sum.splits)
  show ?case
  proof (cases io)
    case IO_Accepted
    then have "n' = set_accept i \<lparr>ae_pending = True, ae_session = Some sid\<rparr> n2"
      using 2(2) c sid w by (simp add: Let_def n2_def)
    then show ?thesis using n2 by simp
  next
    case (IO_Failed e)
    then have "RegisterAccept as i n2 = Some (Inr n')" using 2(2) c sid w by (simp add: Let_def n2_def)
    from 2(1)[OF c[unfolded sid] refl n2_def refl w IO_Failed this] show ?thesis using n2 by simp
  qed
qed simp

lemma shape_broadcast: "net_shape (Broadcast_to io b sids n) = net_shape n"
  by (induction io b sids n rule: Broadcast_to.induct) simp_all

lemma shape_session_event:
  assumes d: "Session_Dispatch (recv_call A sid) (connect_calls A sid) (disconnect_calls A sid) io dio type k s (n, a)
      = Some (Inr r)"
  shows "net_shape (fst (store_session sid r)) = net_shape n"
proof -
  obtain s' n' a' where r: "r = (s', n', a')" by (cases r) auto
  have "net_shape n' = net_shape n"
  proof (cases type)
    case Recv
    then have p: "ProcessRecv (recv_call A sid) io dio k s (n, a) = Some (Inr (s', n', a'))"
      using d r by (simp add: Session_Dispatch_def)
    have "fst (n', a') = n"
      by (rule ProcessRecv_preserves[where P = "\<lambda>na. fst na = n", OF p]) (auto simp: recv_call_def rbind_eq_Inr)
    then show ?thesis by simp
  qed (use d r in \<open>auto simp: Session_Dispatch_def ProcessConnect_def connect_calls_def ProcessDisconnect_def disconnect_calls_def
        Let_def rbind_eq_Inr dest: shape_Release\<close>)
  then show ?thesis by (simp add: r store_session_def)
qed

lemma shape_accept:
  assumes "ProcessAccept A aa i (n, a) = Some (Inr x)"
  shows "net_shape (fst x) = net_shape n"
  using assms
  by (auto simp: ProcessAccept_def reregister_def rbind_eq_Inr store_session_def
      dest!: shape_RegisterAccept ProcessConnect_Inr split: option.splits if_splits sum.splits)

lemma shape_dispatch: "dispatch_event A da ev k (n, a) = Some (Inr x) \<Longrightarrow> net_shape (fst x) = net_shape n"
  by (cases ev)
    (auto simp: dispatch_event_def Listener_Dispatch_def rbind_eq_Inr dest!: shape_accept dest: shape_session_event)

section \<open>The server's invariant\<close>

definition server_inv :: "net \<times> 'a \<Rightarrow> bool" where
  "server_inv x \<longleftrightarrow> net_inv (fst x) \<and> length (n_acceptEvents (fst x)) = nat (n_maxSessionCount (fst x))"

lemma server_inv_keep:
  "server_inv x \<Longrightarrow> net_inv (fst y) \<Longrightarrow> net_shape (fst y) = net_shape (fst x) \<Longrightarrow> server_inv y"
  by (simp add: server_inv_def net_shape_def)

lemma dispatch_completed:
  "IocpCore_Dispatch A da (Completed ev k) na = Some (Inr (b, x)) \<Longrightarrow> dispatch_event A da ev k na = Some (Inr x)"
  "IocpCore_Dispatch A da (Completed_error ev k) na = Some (Inr (b, x)) \<Longrightarrow> dispatch_event A da ev k na = Some (Inr x)"
  by (auto simp: IocpCore_Dispatch_def rbind_eq_Inr)

lemma server_step_inv:
  assumes inv: "server_inv x" and "net_step AS Q x y"
  shows "server_inv y"
  using assms(2)
proof (cases rule: net_step.cases)
  case (net_complete A ev n da k a b)
  note d = dispatch_completed(1)[OF net_complete(4)]
  show ?thesis
    using dispatch_ok[OF _ net_complete(3) d] shape_dispatch[OF d] inv net_complete(1)
    by (intro server_inv_keep[OF inv]) (simp_all add: server_inv_def)
next
  case (net_failed A ev n da k a b)
  note d = dispatch_completed(2)[OF net_failed(4)]
  show ?thesis
    using dispatch_ok[OF _ net_failed(3) d] shape_dispatch[OF d] inv net_failed(1)
    by (intro server_inv_keep[OF inv]) (simp_all add: server_inv_def)
next
  case (net_store n sid bs a)
  then show ?thesis using inv
    by (intro server_inv_keep[OF inv]) (simp_all add: server_inv_def upd_session_ok link_cong)
next
  case (net_send n a sid io dio b)
  then show ?thesis using inv
    by (intro server_inv_keep[OF inv]) (simp_all add: server_inv_def upd_session_ok link_Send)
next
  case (net_broadcast n a answers b)
  then show ?thesis using inv
    by (intro server_inv_keep[OF inv]) (simp_all add: server_inv_def Service_Broadcast_def broadcast_ok shape_broadcast)
next
  case (net_disconnect n a sid io)
  then show ?thesis using inv
    by (intro server_inv_keep[OF inv]) (simp_all add: server_inv_def upd_session_ok link_Disconnect)
qed (use inv in \<open>auto simp: IocpCore_Dispatch_def server_inv_def\<close>)

lemma accept_loop_ok:
  "accept_loop answers k n = Some (Inr n') \<Longrightarrow> net_inv n \<Longrightarrow> net_inv n'
     \<and> length (n_acceptEvents n') = length (n_acceptEvents n) + k \<and> n_maxSessionCount n' = n_maxSessionCount n
     \<and> n_sessions n' = n_sessions n"
proof (induction answers k n arbitrary: n' rule: accept_loop.induct)
  case (2 answers k n)
  let ?i = "length (n_acceptEvents n)"
  define n1 where "n1 = n\<lparr>n_acceptEvents := n_acceptEvents n @ [\<lparr>ae_pending = False, ae_session = None\<rparr>]\<rparr>"
  obtain n2 where n2: "RegisterAccept (answers ?i) ?i n1 = Some (Inr n2)" "accept_loop answers k n2 = Some (Inr n')"
    using 2(2) by (auto simp: Let_def n1_def split: option.splits sum.splits)
  have "sessions_ok n1" using 2(3) by (simp add: n1_def net_inv_def sessions_ok_def)
  moreover have "others_ok ?i n1"
    using 2(3) by (auto simp: n1_def net_inv_def accepts_ok_def others_ok_def accept_ok_def nth_append distinct_conv_nth)
  ultimately have "net_inv n2" "length (n_acceptEvents n2) = length (n_acceptEvents n1)" "n_sessions n2 = n_sessions n1"
    using RegisterAccept_ok[OF n2(1)] by blast+
  moreover have "n_maxSessionCount n2 = n_maxSessionCount n"
    using shape_RegisterAccept[OF n2(1)] by (simp add: net_shape_def n1_def)
  ultimately show ?case
    using 2(1)[OF refl n1_def[unfolded n1_def] n2(1)[unfolded n1_def] refl n2(2)] by (simp add: n1_def)
qed simp

lemma server_started:
  assumes "server_init I x"
  shows "server_inv x \<and> n_sessions (fst x) = []"
proof -
  obtain la answers mx blank where b: "new_session = Inr blank"
    and st: "ServerService_Start la answers (new_service Server True mx blank) = Some (Inr (True, fst x))"
    using assms by (auto simp: server_init_def)
  let ?n = "(new_service Server True mx blank)\<lparr>n_socket := True\<rparr>"
  have "accept_loop answers (nat mx) ?n = Some (Inr (fst x))"
    using st by (auto simp: ServerService_Start_def StartAccept_def CanStart_def new_service_def Let_def rbind_eq_Inr
        split: if_splits)
  moreover have "net_inv ?n"
    using new_session_idle[OF b] by (simp add: net_inv_def sessions_ok_def accepts_ok_def new_service_def)
  ultimately show ?thesis
    using accept_loop_ok[of answers "nat mx" ?n "fst x"] by (simp add: server_inv_def new_service_def)
qed

lemma server_init_inv: "server_init I x \<Longrightarrow> server_inv x"
  and server_init_sessions: "server_init I x \<Longrightarrow> n_sessions (fst x) = []"
  using server_started by blast+

interpretation net_server: invariant_system "server_init I" "net_step AS Q" server_inv for I AS Q
  by unfold_locales (rule server_init_inv, assumption, rule server_step_inv)

end
