(* ===== verification/Session_Recv.thy ===== *)
theory Session_Recv
  imports Session_IO
begin

text \<open>
  The receive path of a packet session end to end: the bytes the peer sent, cut into receives in
  any way, reach the application as the packets they contain, in order and each once.
\<close>

section \<open>Handlers of single packets\<close>

text \<open>A handler that sees only the bytes of its own packet, as a callback of OnRecv.\<close>

definition packet_cb :: "(byte list \<Rightarrow> 's \<Rightarrow> 's result) \<Rightarrow> 's packet_callback" where
  "packet_cb h here n s = h (take (unat n) here) s"

fun handle_all :: "(byte list \<Rightarrow> 's \<Rightarrow> 's result) \<Rightarrow> byte list list \<Rightarrow> 's \<Rightarrow> 's result" where
  "handle_all h [] s = Inr s"
| "handle_all h (f # fs) s = rbind (h f s) (handle_all h fs)"

lemma handle_all_append: "handle_all h (fs @ gs) s = rbind (handle_all h fs s) (handle_all h gs)"
  by (induction fs arbitrary: s) (auto simp: rbind_def split: sum.splits)

lemma split_frames_len: "split_frames m = (fs, r) \<Longrightarrow> f \<in> set fs \<Longrightarrow> length f < 65536"
proof (induction m arbitrary: fs r rule: split_frames.induct)
  case (1 m)
  show ?case
  proof (cases "incomplete m \<or> stuck m")
    case True
    then show ?thesis using "1.prems" by (simp add: split_frames_stop)
  next
    case False
    obtain fs' r' where rec: "split_frames (drop (frame_len m) m) = (fs', r')"
      by (cases "split_frames (drop (frame_len m) m)")
    have "f = take (frame_len m) m \<or> f \<in> set fs'"
      using "1.prems" False split_frames_step[of m] rec by auto
    moreover have "\<not> (length m < 4 \<or> length m < frame_len m \<or> frame_len m = 0)"
      using False by (auto simp: incomplete_def stuck_def)
    ultimately show ?thesis
      using "1.IH"[OF _ rec] frame_len_bound[of m] by auto
  qed
qed

lemma deliver_packets:
  "(\<And>f. f \<in> set fs \<Longrightarrow> length f < 65536) \<Longrightarrow> deliver (packet_cb h) fs r s = handle_all h fs s"
proof (induction fs arbitrary: s)
  case (Cons f fs)
  have "unat (word_of_nat (length f) :: u16) = length f"
    using Cons.prems[of f] by (simp add: unsigned_of_nat take_bit_nat_eq_self)
  then show ?case using Cons by (simp add: packet_cb_def rbind_def split: sum.splits)
qed simp

section \<open>One receive\<close>

definition data_of :: "session \<Rightarrow> byte list" where
  "data_of s = rb_data (m_recvBuffer s)"

definition recv_store :: "byte list \<Rightarrow> session \<Rightarrow> session" where
  "recv_store bs s = s\<lparr>m_recvBuffer := socket_store bs (m_recvBuffer s)\<rparr>"

text \<open>A connected session that waits for bytes.\<close>

definition receiving :: "session \<Rightarrow> bool" where
  "receiving s \<longleftrightarrow> m_connected s \<and> rb_inv (m_recvBuffer s) \<and> m_bufferSize (m_recvBuffer s) = BUFFER_SIZE
     \<and> BUFFER_SIZE \<le> FreeSize (m_recvBuffer s) \<and> incomplete (data_of s)"

lemma socket_store_fields:
  "m_bufferSize (socket_store bs b) = m_bufferSize b" "FreeSize (socket_store bs b) = FreeSize b"
  by (simp_all add: socket_store_def FreeSize_def)

lemma OnWrite_fields: "OnWrite n b = (ok, b') \<Longrightarrow> m_bufferSize b' = m_bufferSize b"
  by (auto simp: OnWrite_def split: if_splits)

lemma OnRead_fields: "OnRead n b = (ok, b') \<Longrightarrow> m_bufferSize b' = m_bufferSize b"
  by (auto simp: OnRead_def split: if_splits)

lemma receive_any:
  assumes rc: "receiving s" and bs: "bs \<noteq> []" "int (length bs) \<le> FreeSize (m_recvBuffer s)"
    and fr: "split_frames (data_of s @ bs) = (fs, r)" "\<not> stuck r"
    and ok: "deliver cb fs r app = Inr app'"
  shows "\<exists>s'. ProcessRecv cb IO_Accepted dio (int (length bs)) (recv_store bs s) app = Some (Inr (s', app'))
    \<and> receiving s' \<and> data_of s' = r \<and> m_recvEvent s'"
proof -
  let ?b0 = "m_recvBuffer s"
  have inv0: "rb_inv ?b0" using rc by (simp add: receiving_def)
  obtain ok1 b1 where w: "OnWrite (int (length bs)) (socket_store bs ?b0) = (ok1, b1)" by fastforce
  have w1: "ok1" "rb_data b1 = data_of s @ bs" and inv1: "rb_inv b1"
    using OnWrite_data[OF inv0 bs(2) w] OnWrite_inv[OF socket_store_inv[OF inv0 bs(2)] _ w]
    by (simp_all add: data_of_def)
  have size1: "m_bufferSize b1 = BUFFER_SIZE"
    using OnWrite_fields[OF w] rc by (simp add: socket_store_fields receiving_def)
  have len1: "DataSize b1 = int (length (data_of s @ bs))" using rb_inv_length[OF inv1] w1(2) by simp
  have pos1: "ReadPos b1 = Inr (nat (m_readPos b1))"
  proof (rule ReadPos_ok[OF inv1])
    show "0 < DataSize b1" using bs(1) len1 by (cases bs) auto
  qed
  have mem: "slice (nat (m_readPos b1)) (nat (DataSize b1)) (m_buffer b1) = data_of s @ bs"
    using w1(2) by (simp add: rb_data_def)
  have small: "length (data_of s @ bs) < 2 ^ 31"
    using rb_inv_fits[OF inv1] len1 by (simp add: fits_i32_def)
  have cat: "data_of s @ bs = concat fs @ r" using split_frames_concat[OF fr(1)] by simp
  have recv: "OnRecv cb (data_of s @ bs) (int (length (data_of s @ bs))) app
      = Some (Inr (int (length (concat fs)), app'))"
    using OnRecv_deliver[OF fr small, of cb app] ok by simp
  let ?n = "int (length (concat fs))"
  have n: "0 \<le> ?n" "?n \<le> DataSize b1" using len1 cat by simp_all
  obtain ok2 b2 where rd: "OnRead ?n b1 = (ok2, b2)" by fastforce
  have ok2: "ok2" using rd n by (simp add: OnRead_def split: if_splits)
  have inv2: "rb_inv b2" by (rule OnRead_inv[OF inv1 n(1) rd])
  have data2: "rb_data b2 = r" using OnRead_data[OF inv1 n(1)] rd ok2 w1(2) cat by simp
  have size2: "m_bufferSize b2 = BUFFER_SIZE" using OnRead_fields[OF rd] size1 by simp
  have inc: "incomplete r" using split_frames_rest[OF fr(1)] fr(2) by blast
  have lt: "DataSize b2 < m_bufferSize b2"
    using rb_inv_length[OF inv2] data2 incomplete_short[OF inc] size2 by (simp add: BUFFER_SIZE_def)
  obtain b3 where cl: "Clean b2 = Inr b3" using Clean_Inr[OF inv2 small_rest_no_overlap[OF inv2 lt]] by blast
  have inv3: "rb_inv b3" "rb_data b3 = r" "m_bufferSize b3 = BUFFER_SIZE"
    using Clean_inv_data[OF inv2 cl] data2 size2 by auto
  have "DataSize b2 \<le> m_capacity b2 - m_bufferSize b2"
    using inv2 lt by (simp add: rb_inv_def BUFFER_COUNT_def DataSize_def)
  then have free: "BUFFER_SIZE \<le> FreeSize b3" using Clean_free[OF inv2 cl] size2 by simp
  then have wp: "WritePos b3 = Inr (nat (m_writePos b3))"
    by (intro WritePos_ok[OF inv3(1)]) (simp add: BUFFER_SIZE_def)
  let ?s' = "(recv_store bs s)\<lparr>m_recvBuffer := b3, m_recvEvent := True\<rparr>"
  have "ProcessRecv cb IO_Accepted dio (int (length bs)) (recv_store bs s) app = Some (Inr (?s', app'))"
    using bs(1) w w1(1) pos1 mem recv len1 n rd ok2 cl wp rc
    by (simp add: ProcessRecv_def Let_def recv_store_def RegisterRecv_def receiving_def)
  then show ?thesis using rc inv3 free inc by (auto simp: receiving_def recv_store_def data_of_def)
qed

lemma receive_step:
  assumes "receiving s" and "bs \<noteq> []" "int (length bs) \<le> FreeSize (m_recvBuffer s)"
    and fr: "split_frames (data_of s @ bs) = (fs, r)" "\<not> stuck r"
    and "handle_all h fs app = Inr app'"
  shows "\<exists>s'. ProcessRecv (packet_cb h) IO_Accepted dio (int (length bs)) (recv_store bs s) app = Some (Inr (s', app'))
    \<and> receiving s' \<and> data_of s' = r \<and> m_recvEvent s'"
  by (rule receive_any[OF assms(1-3) fr]) (use assms(6) split_frames_len[OF fr(1)] in \<open>simp add: deliver_packets\<close>)

section \<open>Many receives\<close>

fun recv_all :: "'s packet_callback \<Rightarrow> io_answer \<Rightarrow> byte list list \<Rightarrow> session \<Rightarrow> 's \<Rightarrow> (session \<times> 's) result option" where
  "recv_all cb dio [] s app = Some (Inr (s, app))"
| "recv_all cb dio (c # cs) s app =
     (case ProcessRecv cb IO_Accepted dio (int (length c)) (recv_store c s) app of
        None \<Rightarrow> None
      | Some (Inl e) \<Rightarrow> Some (Inl e)
      | Some (Inr (s', app')) \<Rightarrow> recv_all cb dio cs s' app')"

lemma stuck_append: "stuck r \<Longrightarrow> stuck (r @ k)"
  by (auto simp: stuck_def frame_len_append)

lemma not_stuck_prefix:
  assumes "\<not> stuck (snd (split_frames (m @ k)))"
  shows "\<not> stuck (snd (split_frames m))"
proof
  assume st: "stuck (snd (split_frames m))"
  have "split_frames (m @ k) = (fst (split_frames m) @ fst (split_frames (snd (split_frames m) @ k)),
      snd (split_frames (snd (split_frames m) @ k)))"
    by (rule split_frames_append) simp
  then show False
    using assms stuck_append[OF st, of k] split_frames_stop[of "snd (split_frames m) @ k"] by simp
qed

lemma recv_all_stream:
  assumes "receiving s" and "\<forall>c\<in>set cs. c \<noteq> [] \<and> int (length c) \<le> BUFFER_SIZE"
    and "split_frames (data_of s @ concat cs) = (fs, r)" and "\<not> stuck r"
    and "handle_all h fs app = Inr app'"
  shows "\<exists>s'. recv_all (packet_cb h) dio cs s app = Some (Inr (s', app')) \<and> receiving s' \<and> data_of s' = r"
  using assms
proof (induction cs arbitrary: s app fs)
  case Nil
  have "split_frames (data_of s) = ([], data_of s)"
    using Nil.prems(1) by (simp add: receiving_def split_frames_stop)
  then show ?case using Nil.prems by simp
next
  case (Cons c cs)
  obtain fs1 r1 where f1: "split_frames (data_of s @ c) = (fs1, r1)" by fastforce
  have whole: "split_frames ((data_of s @ c) @ concat cs) = (fs, r)" using Cons.prems(3) by simp
  have st1: "\<not> stuck r1"
    using not_stuck_prefix[of "data_of s @ c" "concat cs"] whole f1 Cons.prems(4) by simp
  obtain fs2 where f2: "split_frames (r1 @ concat cs) = (fs2, r)" "fs = fs1 @ fs2"
    using split_frames_append[OF f1, of "concat cs"] whole by (cases "split_frames (r1 @ concat cs)") auto
  obtain app1 where a1: "handle_all h fs1 app = Inr app1" and a2: "handle_all h fs2 app1 = Inr app'"
    using Cons.prems(5) f2(2) by (auto simp: handle_all_append rbind_eq_Inr)
  have c: "c \<noteq> []" "int (length c) \<le> FreeSize (m_recvBuffer s)"
    using Cons.prems(1,2) by (auto simp: receiving_def)
  obtain s1 where s1: "ProcessRecv (packet_cb h) IO_Accepted dio (int (length c)) (recv_store c s) app = Some (Inr (s1, app1))"
    "receiving s1" "data_of s1 = r1"
    using receive_step[OF Cons.prems(1) c f1 st1 a1, of dio] by blast
  show ?case
    using Cons.IH[OF s1(2) _ _ Cons.prems(4) a2] Cons.prems(2) f2(1) s1 by simp
qed

section \<open>A connected session\<close>

definition conn_session :: session where
  "conn_session = \<lparr>m_connected = True, m_recvBuffer = projr (RecvBuffer BUFFER_SIZE), m_sendQueue = [],
     m_sendRegistered = False, m_connectEvent = False, m_disconnectEvent = False, m_recvEvent = True,
     m_sendEvent = False, m_sendBuffers = []\<rparr>"

lemma fresh_buffer:
  assumes "RecvBuffer BUFFER_SIZE = Inr b"
  shows "rb_inv b" "rb_data b = []" "m_bufferSize b = BUFFER_SIZE" "BUFFER_SIZE \<le> FreeSize b"
  using RecvBuffer_inv[OF assms] assms
  by (auto simp: RecvBuffer_def Let_def FreeSize_def BUFFER_SIZE_def BUFFER_COUNT_def split: if_splits)

lemma RecvBuffer_ok: "\<exists>b. RecvBuffer BUFFER_SIZE = Inr b"
  by (simp add: RecvBuffer_def Let_def BUFFER_SIZE_def BUFFER_COUNT_def fits_i32_def)

lemma conn_session_receiving: "receiving conn_session" "data_of conn_session = []"
proof -
  obtain b where b: "RecvBuffer BUFFER_SIZE = Inr b" using RecvBuffer_ok by blast
  show "receiving conn_session" "data_of conn_session = []"
    using fresh_buffer[OF b] b by (simp_all add: receiving_def data_of_def conn_session_def incomplete_def)
qed

lemma connected_receiving:
  assumes "new_session = Inr s" and "ProcessConnect f IO_Accepted dio s app = Inr (s', app')"
  shows "receiving s' \<and> data_of s' = [] \<and> m_recvEvent s'"
proof -
  obtain b where b: "RecvBuffer BUFFER_SIZE = Inr b" using RecvBuffer_ok by blast
  note F = fresh_buffer[OF b]
  have "WritePos b = Inr (nat (m_writePos b))"
    using F(4) by (intro WritePos_ok[OF F(1)]) (simp add: BUFFER_SIZE_def)
  then show ?thesis
    using assms b F
    by (auto simp: new_session_def ProcessConnect_def RegisterRecv_def rbind_eq_Inr receiving_def data_of_def
        incomplete_def Let_def)
qed

section \<open>Properties\<close>

text \<open>C11: The receive path delivers the stream. A connected packet session with an empty buffer,
  fed a byte stream in receives of any sizes up to BUFFER_SIZE, hands the application exactly the
  complete packets of the stream, in order, each once, wherever the cuts fall; it stays connected
  with the incomplete rest in its buffer and room for the next receive. It assumes that the stream
  holds no header with a zero size and that the application accepts its packets.\<close>

theorem session_stream:
  assumes "receiving s" and "data_of s = []"
    and "\<forall>c\<in>set chunks. c \<noteq> [] \<and> int (length c) \<le> BUFFER_SIZE"
    and "\<not> stuck (snd (split_frames (concat chunks)))"
    and "handle_all h (fst (split_frames (concat chunks))) app = Inr app'"
  shows "\<exists>s'. recv_all (packet_cb h) dio chunks s app = Some (Inr (s', app'))
    \<and> receiving s' \<and> data_of s' = snd (split_frames (concat chunks))"
  using recv_all_stream[OF assms(1,3) _ assms(4,5), where dio = dio] assms(2)
  by simp

text \<open>One receive. A session that waits for bytes takes any receive of one byte up to its free
  space: the handler runs on the packets completed by it, the session stays connected and asks for
  the next receive, and no step of the path leaves its buffer or copies overlapping bytes.\<close>

theorem session_receive:
  assumes "receiving s" and "bs \<noteq> []" and "int (length bs) \<le> FreeSize (m_recvBuffer s)"
    and "\<not> stuck (snd (split_frames (data_of s @ bs)))"
    and "handle_all h (fst (split_frames (data_of s @ bs))) app = Inr app'"
  shows "\<exists>s'. ProcessRecv (packet_cb h) IO_Accepted dio (int (length bs)) (recv_store bs s) app = Some (Inr (s', app'))
    \<and> receiving s' \<and> m_recvEvent s' \<and> data_of s' = snd (split_frames (data_of s @ bs))"
  using receive_step[OF assms(1-3) prod.collapse[symmetric] assms(4,5), where dio = dio] by blast

theorem session_stream_witness:
  "\<exists>s'. recv_all (packet_cb (\<lambda>f log. Inr (log @ [f]))) IO_Accepted [[5, 0, 1], [0, 42, 4, 0, 2], [0, 9]] conn_session []
      = Some (Inr (s', [[5, 0, 1, 0, 42], [4, 0, 2, 0]])) \<and> data_of s' = [9]"
proof -
  have cat: "concat [[5, 0, 1], [0, 42, 4, 0, 2], [0, 9]] = two_packets" by simp
  show ?thesis
    using session_stream[OF conn_session_receiving, where chunks = "[[5, 0, 1], [0, 42, 4, 0, 2], [0, 9]]"
        and h = "\<lambda>f log. Inr (log @ [f])" and app = "[]" and app' = "[[5, 0, 1, 0, 42], [4, 0, 2, 0]]" and dio = IO_Accepted]
    unfolding cat two_packets_split by (auto simp: BUFFER_SIZE_def stuck_def)
qed

theorem session_receive_witness:
  "\<exists>s'. ProcessRecv (packet_cb (\<lambda>f log. Inr (log @ [f]))) IO_Accepted IO_Accepted 10 (recv_store two_packets conn_session) []
      = Some (Inr (s', [[5, 0, 1, 0, 42], [4, 0, 2, 0]])) \<and> data_of s' = [9]"
proof -
  have "int (length two_packets) \<le> FreeSize (m_recvBuffer conn_session)"
    using conn_session_receiving(1) by (simp add: receiving_def BUFFER_SIZE_def)
  from session_receive[OF conn_session_receiving(1) _ this, where h = "\<lambda>f log. Inr (log @ [f])" and app = "[]"
      and app' = "[[5, 0, 1, 0, 42], [4, 0, 2, 0]]" and dio = IO_Accepted]
  show ?thesis
    unfolding conn_session_receiving(2) append_Nil two_packets_split by (auto simp: stuck_def)
qed

text \<open>How a connection ends on the receive side. A receive of zero bytes, or one larger than
  the free space, disconnects the session without running the callback: it
  is no longer connected, a disconnect request is in flight if the system accepts it, and no further
  receive is requested.\<close>

theorem session_recv_end:
  assumes "m_connected s"
    and "numOfBytes = 0 \<or> FreeSize (m_recvBuffer s) < numOfBytes"
  shows "\<exists>s'. ProcessRecv cb io dio numOfBytes s app = Some (Inr (s', app))
    \<and> \<not> m_connected s' \<and> \<not> m_recvEvent s' \<and> (m_disconnectEvent s' \<longleftrightarrow> dio = IO_Accepted)"
  using assms
  by (cases dio)
    (auto simp: ProcessRecv_def Disconnect_def RegisterDisconnect_def OnWrite_def Let_def)

theorem session_recv_end_witness:
  "\<exists>s'. ProcessRecv (\<lambda>_ _ s. Inr s) IO_Accepted IO_Accepted 0 conn_session () = Some (Inr (s', ()))
    \<and> \<not> m_connected s'"
  using session_recv_end[of conn_session 0 "\<lambda>_ _ s. Inr s" IO_Accepted IO_Accepted "()"]
  by (auto simp: conn_session_def)

end
