(* ===== verification/Net_Properties.thy ===== *)
theory Net_Properties
  imports Net_Safety Session_Recv
begin

text \<open>
  The properties of a service and its listener: the session count, the single release of a session,
  the accepts in flight, when RegisterAccept returns, and two things the code does not prevent.
\<close>

section \<open>New sessions\<close>

lemma new_session_ready: "\<exists>s k. new_session = Inr s \<and> WritePos (m_recvBuffer s) = Inr k"
proof -
  obtain b where b: "RecvBuffer BUFFER_SIZE = Inr b" using RecvBuffer_ok by blast
  have "WritePos b = Inr (nat (m_writePos b))"
    using fresh_buffer[OF b] by (intro WritePos_ok) (simp_all add: BUFFER_SIZE_def)
  then show ?thesis using b by (simp add: new_session_def)
qed

text \<open>One attempt of RegisterAccept.\<close>

definition attempted :: "nat \<Rightarrow> net \<Rightarrow> session \<Rightarrow> net" where
  "attempted i n s = set_accept i \<lparr>ae_pending = False, ae_session = Some (n_next n)\<rparr>
     (n\<lparr>n_sess := (n_sess n)(n_next n := s), n_next := n_next n + 1\<rparr>)"

lemma RegisterAccept_step:
  assumes "n_factory n" and "new_session = Inr s" and "WritePos (m_recvBuffer s) = Inr k"
  shows "RegisterAccept ((registered, io) # as) i n =
    (if \<not> registered then Some (Inl NullDeref)
     else case io of
         IO_Accepted \<Rightarrow> Some (Inr (set_accept i \<lparr>ae_pending = True, ae_session = Some (n_next n)\<rparr> (attempted i n s)))
       | IO_Failed _ \<Rightarrow> RegisterAccept as i (attempted i n s))"
proof -
  have c: "CreateSession r n = Inr (if \<not> r then None else Some (n_next n),
      n\<lparr>n_sess := (n_sess n)(n_next n := s), n_next := n_next n + 1\<rparr>)" for r
    by (simp add: CreateSession_def assms(1,2) Let_def)
  show ?thesis
    by (cases registered; cases io) (simp_all add: c assms(3) Let_def attempted_def set_accept_def)
qed

lemma attempted_simps [simp]:
  "n_factory (attempted i n s) = n_factory n" "n_next (attempted i n s) = n_next n + 1"
  "n_sessions (attempted i n s) = n_sessions n"
  by (simp_all add: attempted_def set_accept_def)

lemma RegisterAccept_None:
  "n_factory n \<Longrightarrow> RegisterAccept as i n = None \<longleftrightarrow> list_all (\<lambda>(registered, io). registered \<and> io \<noteq> IO_Accepted) as"
proof (induction as arbitrary: n)
  case (Cons a as)
  obtain s k where s: "new_session = Inr s" "WritePos (m_recvBuffer s) = Inr k" using new_session_ready by blast
  obtain registered io where a: "a = (registered, io)" by (cases a)
  show ?case
    using Cons.IH[of "attempted i n s"] Cons.prems
    by (simp add: a RegisterAccept_step[OF Cons.prems s] del: RegisterAccept.simps split: io_answer.split)
qed simp

lemma RegisterAccept_failures:
  assumes "n_factory n"
  shows "\<exists>n'. RegisterAccept (replicate f (True, IO_Failed e) @ [(True, IO_Accepted)]) i n = Some (Inr n')
    \<and> n_next n' = n_next n + f + 1 \<and> n_sessions n' = n_sessions n"
  using assms
proof (induction f arbitrary: n)
  case 0
  obtain s k where s: "new_session = Inr s" "WritePos (m_recvBuffer s) = Inr k" using new_session_ready by blast
  show ?case using RegisterAccept_step[OF 0 s] by (simp add: set_accept_def del: RegisterAccept.simps)
next
  case (Suc f)
  obtain s k where s: "new_session = Inr s" "WritePos (m_recvBuffer s) = Inr k" using new_session_ready by blast
  have fac: "n_factory (attempted i n s)" using Suc.prems by simp
  show ?case
    using Suc.IH[OF fac] RegisterAccept_step[OF Suc.prems s, of True "IO_Failed e"]
    by (simp del: RegisterAccept.simps)
qed

section \<open>A server of one accept event\<close>

abbreviation no_calls :: "unit app_calls" where
  "no_calls \<equiv> \<lparr>on_connected = \<lambda>_ a. Inr a, on_disconnected = \<lambda>_ a. Inr a, on_recv_packet = \<lambda>_ _ _ a. Inr a\<rparr>"

abbreviation all_ok :: listen_answers where
  "all_ok \<equiv> \<lparr>la_created = True, la_registered = True, la_reuse = True, la_linger = True, la_bound = True, la_listening = True\<rparr>"

abbreviation accepting :: dispatch_answers where
  "accepting \<equiv> \<lparr>da_io = IO_Accepted, da_disconnect = IO_Accepted,
     da_accept = \<lparr>aa_updated = True, aa_peername = True, aa_recv = IO_Accepted, aa_disconnect = IO_Accepted,
       aa_next = [(True, IO_Accepted)]\<rparr>\<rparr>"

abbreviation unit_server :: "net \<times> unit \<Rightarrow> bool" where
  "unit_server \<equiv> server_init (\<lambda>_. True)"

abbreviation unit_step :: "net \<times> unit \<Rightarrow> net \<times> unit \<Rightarrow> bool" where
  "unit_step \<equiv> net_step {no_calls} (\<lambda>_ _. False)"

text \<open>The session of accept event 0 is a new one.\<close>

definition accept_ready :: "net \<Rightarrow> bool" where
  "accept_ready n \<longleftrightarrow> (\<exists>sid. ae_session (n_acceptEvents n ! 0) = Some sid \<and> new_session = Inr (n_sess n sid))"

lemma accept_again:
  assumes "n_factory n" and "0 < length (n_acceptEvents n)"
  shows "\<exists>n'. RegisterAccept [(True, IO_Accepted)] 0 n = Some (Inr n') \<and> accept_ready n'
    \<and> n_sessions n' = n_sessions n \<and> n_factory n' \<and> n_maxSessionCount n' = n_maxSessionCount n
    \<and> (\<forall>k<n_next n. n_sess n' k = n_sess n k)"
proof -
  obtain s k where s: "new_session = Inr s" "WritePos (m_recvBuffer s) = Inr k" using new_session_ready by blast
  let ?n' = "set_accept 0 \<lparr>ae_pending = True, ae_session = Some (n_next n)\<rparr> (attempted 0 n s)"
  have "RegisterAccept [(True, IO_Accepted)] 0 n = Some (Inr ?n')"
    using RegisterAccept_step[OF assms(1) s, of True IO_Accepted] by (simp del: RegisterAccept.simps)
  moreover have "accept_ready ?n'"
    using assms(2) s(1) by (simp add: accept_ready_def attempted_def set_accept_def)
  moreover have "n_sessions ?n' = n_sessions n" "n_factory ?n'" "n_maxSessionCount ?n' = n_maxSessionCount n"
    "\<forall>k<n_next n. n_sess ?n' k = n_sess n k"
    using assms(1) by (simp_all add: attempted_def set_accept_def)
  ultimately show ?thesis by blast
qed

lemma server_up:
  assumes "I a"
  shows "\<exists>n. server_init I (n, a) \<and> n_maxSessionCount n = 1 \<and> n_factory n \<and> accept_ready n \<and> n_sessions n = []"
proof -
  obtain s k where s: "new_session = Inr s" "WritePos (m_recvBuffer s) = Inr k" using new_session_ready by blast
  define n0 where "n0 = (new_service Server True 1 s)\<lparr>n_socket := True\<rparr>"
  define n1 where "n1 = n0\<lparr>n_acceptEvents := n_acceptEvents n0 @ [\<lparr>ae_pending = False, ae_session = None\<rparr>]\<rparr>"
  have n1: "n_factory n1" "0 < length (n_acceptEvents n1)" "n_sessions n1 = []" "n_maxSessionCount n1 = 1"
    by (simp_all add: n1_def n0_def new_service_def)
  obtain n2 where n2: "RegisterAccept [(True, IO_Accepted)] 0 n1 = Some (Inr n2)" "accept_ready n2"
    "n_sessions n2 = []" "n_factory n2" "n_maxSessionCount n2 = 1"
    using accept_again[OF n1(1,2)] n1(3,4) by auto
  have "length (n_acceptEvents n0) = 0" by (simp add: n0_def new_service_def)
  then have "accept_loop (\<lambda>_. [(True, IO_Accepted)]) 1 n0 = Some (Inr n2)"
    unfolding One_nat_def accept_loop.simps Let_def using n2(1) by (simp only: n1_def option.case sum.case)
  then have "ServerService_Start all_ok (\<lambda>_. [(True, IO_Accepted)]) (new_service Server True 1 s) = Some (Inr (True, n2))"
    by (simp add: ServerService_Start_def StartAccept_def CanStart_def new_service_def n0_def Let_def)
  then have "server_init I (n2, a)"
    unfolding server_init_def prod.sel by (intro conjI exI) (rule assms, rule s(1), assumption)
  then show ?thesis using n2 by blast
qed

text \<open>A client comes: the session of accept event 0 is connected, and the event waits again.\<close>

lemma accept_client:
  assumes inv: "server_inv (n, a)" and mx: "n_maxSessionCount n = 1" and fac: "n_factory n" and rdy: "accept_ready n"
    and on: "\<And>sid. on_connected A sid a = Inr (f sid)"
  shows "\<exists>n' sid. event_pending (Accept_event 0) n
    \<and> IocpCore_Dispatch A accepting (Completed (Accept_event 0) 0) (n, a) = Some (Inr (True, n', f sid))
    \<and> n_maxSessionCount n' = 1 \<and> n_factory n' \<and> accept_ready n'
    \<and> n_sessions n' = sid # n_sessions n \<and> sid \<notin> set (n_sessions n)
    \<and> new_session = Inr (n_sess n sid)
    \<and> n_sess n' sid = (n_sess n sid)\<lparr>m_connectEvent := False, m_connected := True, m_recvEvent := True\<rparr>"
proof -
  have ni: "net_inv n" and len: "length (n_acceptEvents n) = 1" using inv mx by (simp_all add: server_inv_def)
  have "n_acceptEvents n ! 0 \<in> set (n_acceptEvents n)" using len by (intro nth_mem) simp
  then have ok: "accept_ok n (n_acceptEvents n ! 0)" using ni by (simp add: net_inv_def accepts_ok_def)
  obtain sid where sid: "ae_session (n_acceptEvents n ! 0) = Some sid" "new_session = Inr (n_sess n sid)"
    using rdy by (auto simp: accept_ready_def)
  obtain k where k: "WritePos (m_recvBuffer (n_sess n sid)) = Inr k" using new_session_ready by (metis sid(2) sum.inject(2))
  define s' where "s' = (n_sess n sid)\<lparr>m_connectEvent := False, m_connected := True, m_recvEvent := True\<rparr>"
  define m where "m = upd_net_session sid (\<lambda>_. s') (AddSession sid n)"
  have c: "ProcessConnect (connect_calls A sid) IO_Accepted IO_Accepted (n_sess n sid) (n, a) = Inr (s', AddSession sid n, f sid)"
    using k on by (simp add: ProcessConnect_def connect_calls_def RegisterRecv_def Let_def s'_def)
  have m: "n_factory m" "0 < length (n_acceptEvents m)" "n_maxSessionCount m = 1" "n_sessions m = List.insert sid (n_sessions n)"
    using mx fac len by (simp_all add: m_def upd_net_session_def AddSession_def)
  obtain n' where n': "RegisterAccept [(True, IO_Accepted)] 0 m = Some (Inr n')" "accept_ready n'"
    "n_sessions n' = List.insert sid (n_sessions n)" "n_factory n'" "n_maxSessionCount n' = 1"
    "\<forall>k<n_next m. n_sess n' k = n_sess m k"
    using accept_again[OF m(1,2)] m(3,4) by auto
  have lt: "sid < n_next m" and new: "sid \<notin> set (n_sessions n)"
    using ok sid(1) by (simp_all add: accept_ok_def m_def upd_net_session_def AddSession_def)
  have "n_sess n' sid = s'" using n'(6) lt by (simp add: m_def upd_net_session_def)
  moreover have "IocpCore_Dispatch A accepting (Completed (Accept_event 0) 0) (n, a) = Some (Inr (True, n', f sid))"
    using sid(1) c n'(1)
    by (simp add: IocpCore_Dispatch_def dispatch_event_def Listener_Dispatch_def ProcessAccept_def reregister_def
        store_session_def m_def del: RegisterAccept.simps)
  moreover have "event_pending (Accept_event 0) n" using ok len by (simp add: accept_ok_def)
  moreover have "n_sessions n' = sid # n_sessions n" using n'(3) new by simp
  ultimately show ?thesis using n'(2,4,5) new sid(2) unfolding s'_def by blast
qed

lemma one_accept:
  "\<exists>n. reach unit_server unit_step (n, ()) \<and> n_maxSessionCount n = 1 \<and> n_factory n \<and> accept_ready n \<and> n_sessions n = []"
  using server_up[of "\<lambda>_. True" "()"] reach_init[of unit_server] by blast

lemma accept_one:
  assumes "reach unit_server unit_step (n, ())" and "n_maxSessionCount n = 1" and "n_factory n" and "accept_ready n"
  shows "\<exists>n' sid. reach unit_server unit_step (n', ()) \<and> n_maxSessionCount n' = 1 \<and> n_factory n' \<and> accept_ready n'
    \<and> n_sessions n' = sid # n_sessions n \<and> sid \<notin> set (n_sessions n) \<and> m_connected (n_sess n' sid)"
proof -
  have "on_connected no_calls sid () = Inr ()" for sid by simp
  from accept_client[OF net_server.reach_inv[OF assms(1)] assms(2-4), of no_calls "\<lambda>_. ()", OF this]
  obtain n' sid where n': "event_pending (Accept_event 0) n"
    "IocpCore_Dispatch no_calls accepting (Completed (Accept_event 0) 0) (n, ()) = Some (Inr (True, n', ()))"
    "n_maxSessionCount n' = 1" "n_factory n'" "accept_ready n'" "n_sessions n' = sid # n_sessions n"
    "sid \<notin> set (n_sessions n)" "m_connected (n_sess n' sid)" by auto
  have "unit_step (n, ()) (n', ())" using net_complete[OF singletonI n'(1,2)] .
  from reach_step[OF assms(1) this] n' show ?thesis by blast
qed

lemma many_sessions:
  "\<exists>n. reach unit_server unit_step (n, ()) \<and> n_maxSessionCount n = 1 \<and> n_factory n \<and> accept_ready n \<and> length (n_sessions n) = k"
proof (induction k)
  case 0
  then show ?case using one_accept by auto
next
  case (Suc k)
  then show ?case using accept_one by (metis length_Cons)
qed

lemma one_session:
  "\<exists>n sid. reach unit_server unit_step (n, ()) \<and> n_sessions n = [sid] \<and> m_connected (n_sess n sid)"
proof -
  obtain n where "reach unit_server unit_step (n, ())" "n_maxSessionCount n = 1" "n_factory n" "accept_ready n" "n_sessions n = []"
    using one_accept by blast
  from accept_one[OF this(1-4)] this(5) show ?thesis by auto
qed

lemma one_disconnecting:
  "\<exists>n sid. reach unit_server unit_step (n, ()) \<and> n_sessions n = [sid] \<and> event_pending (Session_event sid EventType.Disconnect) n"
proof -
  obtain n sid where n: "reach unit_server unit_step (n, ())" "n_sessions n = [sid]" "m_connected (n_sess n sid)"
    using one_session by blast
  from reach_step[OF n(1) net_disconnect[of "{no_calls}" _ n "()" sid IO_Accepted]] n(2,3) show ?thesis
    by (intro exI[of _ "upd_net_session sid (Disconnect IO_Accepted) n"])
      (simp add: upd_net_session_def Disconnect_def RegisterDisconnect_def Let_def)
qed

section \<open>A session that is not released\<close>

text \<open>Once a session is disconnected without a request in flight it stays in the set.\<close>

definition stranded :: "nat \<Rightarrow> net \<Rightarrow> bool" where
  "stranded sid n \<longleftrightarrow> sid \<in> set (n_sessions n) \<and> \<not> m_connected (n_sess n sid) \<and> \<not> m_disconnectEvent (n_sess n sid)"

lemma stranded_upd:
  assumes "stranded sid n" and "\<And>s. s = n_sess n k \<Longrightarrow> link_step s (f s)"
  shows "stranded sid (upd_net_session k f n)"
  using assms(1) assms(2)[OF refl] by (auto simp: stranded_def upd_net_session_def link_step_def)

lemma stranded_broadcast: "stranded sid n \<Longrightarrow> stranded sid (Broadcast_to io b sids n)"
  by (induction io b sids n rule: Broadcast_to.induct) (simp_all add: stranded_upd link_Send)

lemma stranded_RegisterAccept:
  "RegisterAccept as i n = Some (Inr n') \<Longrightarrow> stranded sid n \<Longrightarrow> sid < n_next n \<Longrightarrow> stranded sid n'"
proof (induction as arbitrary: n)
  case (Cons a as)
  obtain registered io where a: "a = (registered, io)" by (cases a)
  obtain s k where s: "new_session = Inr s" "WritePos (m_recvBuffer s) = Inr k" using new_session_ready by blast
  have fac: "n_factory n" by (rule ccontr) (use Cons.prems(1) in \<open>simp add: a CreateSession_def\<close>)
  have st: "stranded sid (attempted i n s)" "sid < n_next (attempted i n s)"
    using Cons.prems(2,3) by (simp_all add: stranded_def attempted_def set_accept_def)
  note r = Cons.prems(1)[unfolded a RegisterAccept_step[OF fac s]]
  show ?case
  proof (cases io)
    case IO_Accepted
    then have "n' = set_accept i \<lparr>ae_pending = True, ae_session = Some (n_next n)\<rparr> (attempted i n s)"
      using r by (simp split: if_splits)
    then show ?thesis using st(1) by (simp add: stranded_def set_accept_def)
  next
    case (IO_Failed e)
    then have "RegisterAccept as i (attempted i n s) = Some (Inr n')" using r by (simp split: if_splits)
    from Cons.IH[OF this st] show ?thesis .
  qed
qed simp

lemma stranded_session_event:
  assumes st: "stranded sid n" and inv: "net_inv n" and ev: "event_pending (Session_event k type) n"
    and d: "Session_Dispatch (recv_call A k) (connect_calls A k) (disconnect_calls A k) io dio type b (n_sess n k) (n, a)
      = Some (Inr r)"
  shows "stranded sid (fst (store_session k r))"
proof -
  obtain s' n' a' where r: "r = (s', n', a')" by (cases r) auto
  have store: "stranded sid (upd_net_session k (\<lambda>_. s') n)" if "link_step (n_sess n k) s'"
    by (rule stranded_upd[OF st]) (use that in simp)
  show ?thesis
  proof (cases type)
    case Connect
    then show ?thesis using ev inv by (simp add: net_inv_def sessions_ok_def session_linked_def)
  next
    case Disconnect
    then have k: "k \<noteq> sid" using ev st by (auto simp: stranded_def)
    have "ReleaseSession k n = Inr n'"
      using d r Disconnect by (auto simp: Session_Dispatch_def ProcessDisconnect_def disconnect_calls_def rbind_eq_Inr Let_def)
    then have "stranded sid n'"
      using st k by (auto simp: ReleaseSession_def stranded_def in_set_remove1 split: if_splits)
    then show ?thesis using k by (simp add: r store_session_def stranded_def upd_net_session_def)
  next
    case Accept
    then show ?thesis using ev by simp
  next
    case Recv
    then have p: "ProcessRecv (recv_call A k) io dio b (n_sess n k) (n, a) = Some (Inr (s', n', a'))"
      using d r by (simp add: Session_Dispatch_def)
    have "fst (n', a') = n"
      by (rule ProcessRecv_preserves[where P = "\<lambda>na. fst na = n", OF p]) (auto simp: recv_call_def rbind_eq_Inr)
    then show ?thesis using store[OF link_ProcessRecv[OF p]] by (simp add: r store_session_def)
  next
    case Send
    then show ?thesis using d r store link_ProcessSend by (auto simp: Session_Dispatch_def store_session_def)
  qed
qed

lemma stranded_accept:
  assumes st: "stranded sid n" and inv: "net_inv n" and i: "i < length (n_acceptEvents n)"
    and p: "ProcessAccept A aa i (n, a) = Some (Inr x)"
  shows "stranded sid (fst x)"
proof -
  have lt: "sid < n_next n" using st inv by (simp add: stranded_def net_inv_def sessions_ok_def)
  have again: "stranded sid (fst y)" if "reregister as i (m, b) = Some (Inr y)" "stranded sid m" "n_next m = n_next n" for as m b y
    using that(1) stranded_RegisterAccept[OF _ that(2)] lt that(3) by (auto simp: reregister_def rbind_eq_Inr)
  have "n_acceptEvents n ! i \<in> set (n_acceptEvents n)" using i by simp
  then have "accept_ok n (n_acceptEvents n ! i)" using inv by (simp add: net_inv_def accepts_ok_def)
  then obtain k where k: "ae_session (n_acceptEvents n ! i) = Some k" "k \<notin> set (n_sessions n)" by (auto simp: accept_ok_def)
  have ne: "k \<noteq> sid" using k(2) st by (auto simp: stranded_def)
  show ?thesis
  proof (cases "aa_updated aa \<and> aa_peername aa")
    case True
    then obtain s' n' a' where c: "ProcessConnect (connect_calls A k) (aa_recv aa) (aa_disconnect aa) (n_sess n k) (n, a)
        = Inr (s', n', a')" and r: "reregister (aa_next aa) i (store_session k (s', n', a')) = Some (Inr x)"
      using p k by (auto simp: ProcessAccept_def split: sum.splits)
    have "n' = AddSession k n" using ProcessConnect_Inr[OF c] by blast
    then have "reregister (aa_next aa) i (upd_net_session k (\<lambda>_. s') (AddSession k n), a') = Some (Inr x)"
      using r by (simp add: store_session_def)
    from again[OF this] show ?thesis using st ne by (simp add: stranded_def upd_net_session_def AddSession_def)
  next
    case False
    then have "reregister (aa_next aa) i (n, a) = Some (Inr x)"
      using p k by (auto simp: ProcessAccept_def split: if_splits)
    from again[OF this st] show ?thesis by simp
  qed
qed

lemma stranded_dispatch:
  assumes st: "stranded sid n" and inv: "net_inv n" and ev: "event_pending ev n"
    and d: "dispatch_event A da ev k (n, a) = Some (Inr x)"
  shows "stranded sid (fst x)"
proof (cases ev)
  case (Session_event j type)
  then obtain r where r: "Session_Dispatch (recv_call A j) (connect_calls A j) (disconnect_calls A j)
      (da_io da) (da_disconnect da) type k (n_sess n j) (n, a) = Some (Inr r)" and x: "x = store_session j r"
    using d by (auto simp: dispatch_event_def rbind_eq_Inr)
  have "event_pending (Session_event j type) n" using ev Session_event by simp
  from stranded_session_event[OF st inv this r] show ?thesis by (simp only: x)
next
  case (Accept_event i)
  then have "i < length (n_acceptEvents n)" "ProcessAccept A (da_accept da) i (n, a) = Some (Inr x)"
    using ev d by (simp_all add: dispatch_event_def Listener_Dispatch_def)
  from stranded_accept[OF st inv this] show ?thesis .
qed

lemma stranded_step:
  assumes "server_inv x" and st: "stranded sid (fst x)" and "net_step AS Q x y"
  shows "stranded sid (fst y)"
  using assms(3,2)
proof (cases rule: net_step.cases)
  case (net_complete A ev n da k a b)
  then show ?thesis
    using stranded_dispatch[OF _ _ net_complete(3) dispatch_completed(1)[OF net_complete(4)]] assms(1) st
    by (simp add: server_inv_def)
next
  case (net_failed A ev n da k a b)
  then show ?thesis
    using stranded_dispatch[OF _ _ net_failed(3) dispatch_completed(2)[OF net_failed(4)]] assms(1) st
    by (simp add: server_inv_def)
qed (auto simp: IocpCore_Dispatch_def Service_Broadcast_def stranded_broadcast link_Send link_Disconnect link_cong
      intro!: stranded_upd)

lemma stranded_run:
  "(net_step AS Q)\<^sup>*\<^sup>* x y \<Longrightarrow> server_inv x \<Longrightarrow> stranded sid (fst x) \<Longrightarrow> stranded sid (fst y)"
proof (induction rule: rtranclp_induct)
  case (step y z)
  then show ?case using stranded_step[OF net_server.run_inv[OF step(1)]] by blast
qed simp

section \<open>Properties\<close>

text \<open>The session count. In every reachable state of a server m_sessionCount is the number of
  sessions in the set, and every connected session is in it.\<close>

theorem sessions_counted:
  assumes "reach (server_init I) (net_step AS Q) (n, a)"
  shows "n_sessionCount n = int (card (set (n_sessions n))) \<and> {sid. m_connected (n_sess n sid)} \<subseteq> set (n_sessions n)"
  using net_server.reach_inv[OF assms]
  by (auto simp: server_inv_def net_inv_def sessions_ok_def session_linked_def distinct_card)

theorem sessions_counted_witness:
  "\<exists>n :: net. length (n_sessions n) = 1 \<and> n_sessionCount n = int (card (set (n_sessions n)))"
  using many_sessions[of 1] sessions_counted[where I = "\<lambda>_. True" and AS = "{no_calls}" and Q = "\<lambda>_ _. False"] by blast

text \<open>A session is released once. Whenever a disconnect event completes in a reachable state,
  the ASSERT_CRASH of ReleaseSession holds: the completion is handled unless the application's
  callback fails, and afterwards the session is not in the set.\<close>

theorem released_once:
  assumes "reach (server_init I) (net_step AS Q) (n, a)"
    and "event_pending (Session_event sid EventType.Disconnect) n" and "on_disconnected A sid a = Inr a'"
  shows "\<exists>x. IocpCore_Dispatch A da (Completed (Session_event sid EventType.Disconnect) k) (n, a) = Some (Inr (True, x))
    \<and> snd x = a' \<and> sid \<notin> set (n_sessions (fst x)) \<and> n_sessionCount (fst x) = n_sessionCount n - 1"
proof -
  have inv: "sessions_ok n" using net_server.reach_inv[OF assms(1)] by (simp add: server_inv_def net_inv_def)
  have mem: "sid \<in> set (n_sessions n)" "distinct (n_sessions n)"
    using inv assms(2) by (auto simp: sessions_ok_def session_linked_def)
  then show ?thesis
    using assms(3)
    by (simp add: IocpCore_Dispatch_def dispatch_event_def Session_Dispatch_def ProcessDisconnect_def disconnect_calls_def
        ReleaseSession_def store_session_def upd_net_session_def Let_def)
qed

theorem released_once_witness:
  "\<exists>n sid x. event_pending (Session_event sid EventType.Disconnect) n
    \<and> IocpCore_Dispatch no_calls accepting (Completed (Session_event sid EventType.Disconnect) 0) (n, ()) = Some (Inr (True, x))
    \<and> sid \<notin> set (n_sessions (fst x))"
proof -
  obtain n sid where n: "reach unit_server unit_step (n, ())" "event_pending (Session_event sid EventType.Disconnect) n"
    using one_disconnecting by blast
  have "on_disconnected no_calls sid () = Inr ()" by simp
  from released_once[OF n this, of accepting 0] n(2) show ?thesis by blast
qed

text \<open>C37: The server keeps accepting. In every reachable state all m_maxSessionCount accept events
  have their request in flight, each for a session of its own that is not in the set.\<close>

theorem accepts_in_flight:
  assumes "reach (server_init I) (net_step AS Q) (n, a)"
  shows "length (n_acceptEvents n) = nat (n_maxSessionCount n) \<and> list_all ae_pending (n_acceptEvents n)
    \<and> distinct (map ae_session (n_acceptEvents n))
    \<and> set (map ae_session (n_acceptEvents n)) \<subseteq> Some ` ({..<n_next n} - set (n_sessions n))"
  using net_server.reach_inv[OF assms]
  by (auto simp: server_inv_def net_inv_def accepts_ok_def accept_ok_def list_all_iff)

theorem accepts_in_flight_witness:
  "\<exists>n :: net. n_maxSessionCount n = 1 \<and> length (n_sessions n) = 3 \<and> list_all ae_pending (n_acceptEvents n)"
proof -
  obtain n where n: "reach unit_server unit_step (n, ())" "n_maxSessionCount n = 1" "length (n_sessions n) = 3"
    using many_sessions[of 3] by blast
  from accepts_in_flight[OF n(1)] n(2,3) show ?thesis by blast
qed

text \<open>When RegisterAccept returns. It calls itself again for every AcceptEx that fails, with no
  bound: on a sequence of answers it has not returned exactly if every session could be registered and
  no AcceptEx was accepted, and after k failures it has made k + 1 sessions.\<close>

theorem RegisterAccept_returns:
  assumes "n_factory n"
  shows "(RegisterAccept as i n = None \<longleftrightarrow> list_all (\<lambda>(registered, io). registered \<and> io \<noteq> IO_Accepted) as)
    \<and> (\<exists>n'. RegisterAccept (replicate k (True, IO_Failed e) @ [(True, IO_Accepted)]) i n = Some (Inr n')
        \<and> n_next n' = n_next n + k + 1 \<and> n_sessions n' = n_sessions n)"
  by (intro conjI RegisterAccept_None RegisterAccept_failures assms)

theorem RegisterAccept_returns_witness:
  "RegisterAccept [(True, IO_Failed 10055), (True, IO_Failed 10055)] 0 (new_service Server True 1 conn_session) = None"
proof -
  have "n_factory (new_service Server True 1 conn_session)" by (simp add: new_service_def)
  from RegisterAccept_returns[OF this, of "[(True, IO_Failed 10055), (True, IO_Failed 10055)]" 0] show ?thesis by simp
qed

text \<open>The limit of sessions is not enforced. m_maxSessionCount bounds the accepts in flight, not
  the sessions: a server started with 1 reaches states with any number of connected clients in its
  set.\<close>

theorem session_limit_not_enforced:
  "\<exists>n. reach unit_server unit_step (n, ()) \<and> n_maxSessionCount n = 1 \<and> n_sessionCount n = int k \<and> length (n_sessions n) = k"
proof -
  obtain n where n: "reach unit_server unit_step (n, ())" "n_maxSessionCount n = 1" "length (n_sessions n) = k"
    using many_sessions by blast
  then show ?thesis using net_server.reach_inv[OF n(1)] by (auto simp: server_inv_def net_inv_def sessions_ok_def)
qed

text \<open>A failed disconnect request loses the session. If DisConnectEx fails for a connected session
  of a reachable state, no later step of the server, of whatever kind, removes the session from the set
  or connects it again.\<close>

theorem failed_disconnect_stays:
  assumes "reach (server_init I) (net_step AS Q) (n, a)" and "m_connected (n_sess n sid)"
    and "(net_step AS Q)\<^sup>*\<^sup>* (upd_net_session sid (Disconnect (IO_Failed e)) n, a) (n', a')"
  shows "sid \<in> set (n_sessions n') \<and> \<not> m_connected (n_sess n' sid) \<and> \<not> m_disconnectEvent (n_sess n' sid)"
proof -
  note inv = net_server.reach_inv[OF assms(1)]
  let ?x = "(upd_net_session sid (Disconnect (IO_Failed e)) n, a)"
  have "sid \<in> set (n_sessions n)" "\<not> m_disconnectEvent (n_sess n sid)"
    using inv assms(2) by (auto simp: server_inv_def net_inv_def sessions_ok_def session_linked_def)
  then have "stranded sid (fst ?x)"
    using assms(2) by (simp add: stranded_def upd_net_session_def Disconnect_def RegisterDisconnect_def Let_def)
  moreover have "server_inv ?x" using net_server.step_inv[OF inv net_disconnect] .
  ultimately have "stranded sid (fst (n', a'))" using stranded_run[OF assms(3)] by blast
  then show ?thesis by (simp add: stranded_def)
qed

theorem failed_disconnect_stays_witness:
  "\<exists>n sid. reach unit_server unit_step (n, ()) \<and> m_connected (n_sess n sid)
    \<and> sid \<in> set (n_sessions (upd_net_session sid (Disconnect (IO_Failed 10055)) n))"
proof -
  obtain n sid where n: "reach unit_server unit_step (n, ())" "m_connected (n_sess n sid)" using one_session by blast
  from failed_disconnect_stays[OF n(1,2) rtranclp.rtrancl_refl, of 10055] n show ?thesis by blast
qed

end
