(* ===== verification/Game_Server.thy ===== *)
theory Game_Server
  imports Game_Properties Net_Properties
begin

text \<open>
  The whole server (GameServer/GameServer.cpp): the service, its listener and its sessions with the
  game as their application. A step is a completion any worker thread dispatches, bytes that arrive, a
  call of the session's interface, or a job of a room. Whatever the clients send and the operating
  system answers, the invariants of both layers hold, and the sessions the game knows are those of the
  service.
\<close>

section \<open>The game as the application of the service\<close>

text \<open>The virtual functions of GameSession, for the thread t that runs them.\<close>

definition game_calls :: "wire_env \<Rightarrow> nat \<Rightarrow> world app_calls" where
  "game_calls L t = \<lparr>on_connected = (\<lambda>sid w. Inr (OnConnected sid w)),
     on_disconnected = (\<lambda>sid w. Inr (OnDisconnected sid w)), on_recv_packet = (\<lambda>sid. OnRecvPacket L t sid)\<rparr>"

definition game_jobs :: "world \<Rightarrow> world \<Rightarrow> bool" where
  "game_jobs w w' \<longleftrightarrow> (\<exists>r. w' = Room_Execute r w)"

definition game_server_init :: "net \<times> world \<Rightarrow> bool" where
  "game_server_init = server_init (\<lambda>w. w = server_start send_init)"

definition game_server_step :: "wire_env \<Rightarrow> net \<times> world \<Rightarrow> net \<times> world \<Rightarrow> bool" where
  "game_server_step L = net_step (range (game_calls L)) game_jobs"

section \<open>The game's side of a step\<close>

text \<open>What the callbacks of a session keep of the game, and of its set of sessions.\<close>

definition game_ok :: "net \<times> world \<Rightarrow> bool" where
  "game_ok x \<longleftrightarrow> (\<exists>k. game_inv (snd x, k)) \<and> set (m_sessions (snd x)) = set (n_sessions (fst x))
     \<and> distinct (n_sessions (fst x))"

lemma game_step_keeps: "game_inv (w, k) \<Longrightarrow> game_step L (w, k) (w', k') \<Longrightarrow> \<exists>k. game_inv (w', k)"
  using game.step_inv by blast

lemma game_ok_packet:
  assumes "game_ok x" and "OnRecvPacket L t sid buffer len (snd x) = Inr w'"
  shows "game_ok (fst x, w')"
proof -
  obtain k where k: "game_inv (snd x, k)" using assms(1) by (auto simp: game_ok_def)
  have "\<exists>k. game_inv (w', k)" using packet_step[OF assms(2), of k] k game_step_keeps by metis
  then show ?thesis using assms packet_sessions[OF assms(2)] by (simp add: game_ok_def)
qed

lemma game_ok_recv:
  assumes "game_ok (n, w)" and "ProcessRecv (recv_call (game_calls L t) sid) io dio k s (n, w) = Some (Inr (s', x))"
  shows "game_ok x"
proof (rule ProcessRecv_preserves[where P = game_ok, OF assms(2,1)])
  fix here and k :: u16 and x y :: "net \<times> world"
  assume x: "game_ok x" and "recv_call (game_calls L t) sid here k x = Inr y"
  then obtain w' where w': "OnRecvPacket L t sid here k (snd x) = Inr w'" "y = (fst x, w')"
    by (auto simp: recv_call_def game_calls_def rbind_eq_Inr)
  show "game_ok y" using game_ok_packet[OF x w'(1)] w'(2) by simp
qed

lemma game_ok_net:
  assumes "game_ok (n, w)" and "n_sessions n' = n_sessions n"
  shows "game_ok (n', w)"
  using assms by (simp add: game_ok_def)

lemma game_ok_connect:
  assumes "game_ok (n, w)"
  shows "game_ok (AddSession sid n, OnConnected sid w)"
proof -
  obtain k where k: "game_inv (w, k)" using assms by (auto simp: game_ok_def)
  have "\<exists>k. game_inv (OnConnected sid w, k)" using game_step_keeps[OF k step_connect] .
  moreover have "set (m_sessions (OnConnected sid w)) = set (n_sessions (AddSession sid n))"
    using assms by (simp add: game_ok_def OnConnected_def SessionManager_Add_def AddSession_def)
  ultimately show ?thesis using assms by (simp add: game_ok_def AddSession_def)
qed

lemma OnDisconnected_sessions: "m_sessions (OnDisconnected sid w) = removeAll sid (m_sessions w)"
  by (cases "gs_currentPlayer (sessions w sid)"; cases "gs_room (sessions w sid)")
    (simp_all add: OnDisconnected_def SessionManager_Remove_def Let_def upd_session_def Room_DoAsync_def upd_room_def)

lemma game_ok_disconnect:
  assumes "game_ok (n, w)" and "ReleaseSession sid n = Inr n'"
  shows "game_ok (n', OnDisconnected sid w)"
proof -
  obtain k where k: "game_inv (w, k)" using assms(1) by (auto simp: game_ok_def)
  have "\<exists>k. game_inv (OnDisconnected sid w, k)" using game_step_keeps[OF k step_disconnect] .
  moreover have n': "n_sessions n' = remove1 sid (n_sessions n)"
    using assms(2) by (auto simp: ReleaseSession_def split: if_splits)
  have "set (m_sessions (OnDisconnected sid w)) = set (n_sessions n')"
    using assms(1) by (simp add: n' OnDisconnected_sessions game_ok_def set_remove1_eq)
  ultimately show ?thesis using assms(1) by (simp add: game_ok_def n')
qed

lemma sessions_RegisterAccept: "RegisterAccept as i n = Some (Inr n') \<Longrightarrow> n_sessions n' = n_sessions n"
proof (induction as arbitrary: n)
  case (Cons a as)
  obtain registered io where a: "a = (registered, io)" by (cases a)
  obtain s k where s: "new_session = Inr s" "WritePos (m_recvBuffer s) = Inr k" using new_session_ready by blast
  have fac: "n_factory n" by (rule ccontr) (use Cons.prems in \<open>simp add: a CreateSession_def\<close>)
  note r = Cons.prems[unfolded a RegisterAccept_step[OF fac s]]
  show ?case
  proof (cases io)
    case IO_Accepted
    then show ?thesis using r by (auto simp: set_accept_def attempted_def split: if_splits)
  next
    case (IO_Failed e)
    then show ?thesis using r Cons.IH[of "attempted i n s"] by (simp split: if_splits)
  qed
qed simp

lemma game_ok_store: "game_ok (n, w) \<Longrightarrow> game_ok (store_session sid (s, n, w))"
  by (simp add: store_session_def game_ok_def upd_net_session_def)

lemma game_ok_reregister: "game_ok x \<Longrightarrow> reregister as i x = Some (Inr y) \<Longrightarrow> game_ok y"
  using sessions_RegisterAccept by (cases x) (auto simp: reregister_def rbind_eq_Inr intro: game_ok_net)

lemma game_ok_accept:
  assumes "game_ok (n, w)" and "ProcessAccept (game_calls L t) aa i (n, w) = Some (Inr x)"
  shows "game_ok x"
proof -
  obtain sid where sid: "ae_session (n_acceptEvents n ! i) = Some sid"
    using assms(2) by (auto simp: ProcessAccept_def split: option.splits)
  show ?thesis
  proof (cases "aa_updated aa \<and> aa_peername aa")
    case True
    then obtain s' n' w' where c: "ProcessConnect (connect_calls (game_calls L t) sid) (aa_recv aa) (aa_disconnect aa)
        (n_sess n sid) (n, w) = Inr (s', n', w')"
      and r: "reregister (aa_next aa) i (store_session sid (s', n', w')) = Some (Inr x)"
      using assms(2) sid by (auto simp: ProcessAccept_def split: sum.splits)
    have "n' = AddSession sid n" "w' = OnConnected sid w"
      using ProcessConnect_Inr[OF c] by (auto simp: game_calls_def)
    then have "game_ok (n', w')" using game_ok_connect[OF assms(1)] by simp
    then show ?thesis using game_ok_reregister[OF game_ok_store r] by blast
  next
    case False
    then have "reregister (aa_next aa) i (n, w) = Some (Inr x)"
      using assms(2) sid by (auto simp: ProcessAccept_def split: if_splits)
    then show ?thesis by (rule game_ok_reregister[OF assms(1)])
  qed
qed

lemma game_ok_session_event:
  assumes ok: "game_ok (n, w)"
    and d: "Session_Dispatch (recv_call (game_calls L t) sid) (connect_calls (game_calls L t) sid)
      (disconnect_calls (game_calls L t) sid) io dio type k s (n, w) = Some (Inr (s', x))"
  shows "game_ok x"
proof (cases type)
  case Connect
  obtain n' w' where x: "x = (n', w')" by (cases x)
  have "ProcessConnect (connect_calls (game_calls L t) sid) io dio s (n, w) = Inr (s', n', w')"
    using d Connect by (simp add: Session_Dispatch_def x)
  from ProcessConnect_Inr[OF this] show ?thesis
    using game_ok_connect[OF ok, of sid] by (simp add: x game_calls_def)
next
  case Disconnect
  then obtain n' where "ReleaseSession sid n = Inr n'" "x = (n', OnDisconnected sid w)"
    using d by (auto simp: Session_Dispatch_def ProcessDisconnect_def disconnect_calls_def game_calls_def rbind_eq_Inr Let_def)
  then show ?thesis using game_ok_disconnect[OF ok] by simp
next
  case Recv
  then show ?thesis using d game_ok_recv[OF ok] by (simp add: Session_Dispatch_def)
qed (use d ok in \<open>auto simp: Session_Dispatch_def\<close>)

lemma game_ok_dispatch:
  assumes ok: "game_ok (n, w)" and d: "dispatch_event (game_calls L t) da ev k (n, w) = Some (Inr x)"
  shows "game_ok x"
proof (cases ev)
  case (Session_event sid type)
  then obtain s' y where r: "Session_Dispatch (recv_call (game_calls L t) sid) (connect_calls (game_calls L t) sid)
      (disconnect_calls (game_calls L t) sid) (da_io da) (da_disconnect da) type k (n_sess n sid) (n, w) = Some (Inr (s', y))"
    and x: "x = store_session sid (s', y)"
    using d by (auto simp: dispatch_event_def rbind_eq_Inr)
  then show ?thesis using game_ok_session_event[OF ok r] game_ok_store by (cases y) simp
next
  case (Accept_event i)
  then show ?thesis using game_ok_accept[OF ok] d by (auto simp: dispatch_event_def Listener_Dispatch_def)
qed

lemma sessions_broadcast: "n_sessions (Broadcast_to io b sids n) = n_sessions n"
  by (induction io b sids n rule: Broadcast_to.induct) (simp_all add: upd_net_session_def)

lemma game_ok_step:
  assumes "game_ok x" and "game_server_step L x y"
  shows "game_ok y"
  using assms(2) unfolding game_server_step_def
proof (cases rule: net_step.cases)
  case (net_complete A ev n da k a b)
  then show ?thesis using game_ok_dispatch dispatch_completed(1)[OF net_complete(4)] assms(1) by blast
next
  case (net_failed A ev n da k a b)
  then show ?thesis using game_ok_dispatch dispatch_completed(2)[OF net_failed(4)] assms(1) by blast
next
  case (net_app a a' n)
  then obtain r k where "a' = Room_Execute r a" "game_inv (a, k)" using assms(1) by (auto simp: game_jobs_def game_ok_def)
  moreover have "m_sessions (Room_Execute r a) = m_sessions a"
    by (cases "r_jobs (rooms a r)"; cases "hd (r_jobs (rooms a r))";
        simp add: Room_Execute_def Room_Enter_def Room_Leave_def Room_Broadcast_eq upd_room_def)
  ultimately show ?thesis using assms(1) net_app game_step_keeps[OF _ step_execute] by (simp add: game_ok_def)
qed (use assms(1) in \<open>auto simp: IocpCore_Dispatch_def Service_Broadcast_def sessions_broadcast upd_net_session_def
      intro: game_ok_net\<close>)

lemma game_ok_start: "game_server_init x \<Longrightarrow> game_ok x"
proof -
  assume "game_server_init x"
  then have i: "server_init (\<lambda>w. w = server_start send_init) x" by (simp add: game_server_init_def)
  have "snd x = server_start send_init" using i by (simp add: server_init_def)
  moreover note server_init_sessions[OF i]
  ultimately show ?thesis
    using game.init_inv[of "(server_start send_init, 0)"] by (auto simp: game_ok_def game_init_def)
qed

interpretation game_server: invariant_system game_server_init "game_server_step L" game_ok for L
  by unfold_locales (rule game_ok_start, assumption, rule game_ok_step)

section \<open>A packet through the socket\<close>

lemma receive_packet:
  assumes rc: "receiving (n_sess n sid)" "data_of (n_sess n sid) = []"
    and len: "length body \<le> 65531" and fit: "int (length body + 4) \<le> FreeSize (m_recvBuffer (n_sess n sid))"
    and h: "OnRecvPacket L t sid (packet_bytes pktId body @ []) (word_of_nat (length body + 4)) w = Inr w'"
  shows "\<exists>s'. IocpCore_Dispatch (game_calls L t) \<lparr>da_io = IO_Accepted, da_disconnect = dio, da_accept = aa\<rparr>
      (Completed (Session_event sid EventType.Recv) (int (length body + 4)))
      (upd_net_session sid (recv_store (packet_bytes pktId body)) n, w)
    = Some (Inr (True, upd_net_session sid (\<lambda>_. s') n, w')) \<and> receiving s' \<and> data_of s' = [] \<and> m_recvEvent s'"
proof -
  let ?bs = "packet_bytes pktId body" and ?s = "n_sess n sid"
  let ?n = "upd_net_session sid (recv_store ?bs) n"
  let ?cb = "recv_call (game_calls L t) sid"
  have len4: "length ?bs = length body + 4" by simp
  have ne: "?bs \<noteq> []" using len4 by (metis add_is_0 list.size(3) zero_neq_numeral)
  have "OnRecvPacket L t sid ?bs (word_of_nat (length ?bs)) w = Inr w'" using h by (simp only: append_Nil2 len4)
  then have d: "deliver ?cb [?bs] [] (?n, w) = Inr (?n, w')"
    by (simp add: recv_call_def game_calls_def del: length_packet_bytes)
  have "split_frames (data_of ?s @ ?bs) = ([?bs], [])" using packet_frame[OF len] rc(2) by simp
  moreover have "\<not> stuck []" by (simp add: stuck_def)
  ultimately obtain s' where s': "ProcessRecv ?cb IO_Accepted dio (int (length ?bs)) (recv_store ?bs ?s) (?n, w)
      = Some (Inr (s', ?n, w'))" "receiving s'" "data_of s' = []" "m_recvEvent s'"
    using receive_any[OF rc(1) ne _ _ _ d, of dio] fit by (simp only: len4) blast
  have "upd_net_session sid (\<lambda>_. s') ?n = upd_net_session sid (\<lambda>_. s') n" by (simp add: upd_net_session_def)
  moreover have "n_sess ?n sid = recv_store ?bs ?s" by (simp add: upd_net_session_def)
  ultimately have "IocpCore_Dispatch (game_calls L t) \<lparr>da_io = IO_Accepted, da_disconnect = dio, da_accept = aa\<rparr>
      (Completed (Session_event sid EventType.Recv) (int (length ?bs))) (?n, w) = Some (Inr (True, upd_net_session sid (\<lambda>_. s') n, w'))"
    using s'(1) by (simp add: IocpCore_Dispatch_def dispatch_event_def Session_Dispatch_def store_session_def del: length_packet_bytes)
  then show ?thesis using s'(2-4) by (auto simp only: len4)
qed

text \<open>A server with one client that has just connected.\<close>

lemma game_one_session:
  "\<exists>n sid. reach game_server_init (game_server_step L) (n, OnConnected sid (server_start send_init))
    \<and> n_sessions n = [sid] \<and> m_recvEvent (n_sess n sid) \<and> receiving (n_sess n sid) \<and> data_of (n_sess n sid) = []"
proof -
  let ?I = "\<lambda>w. w = server_start send_init" and ?w = "server_start send_init" and ?A = "game_calls L 0"
  obtain n where n: "server_init ?I (n, ?w)" "n_maxSessionCount n = 1" "n_factory n" "accept_ready n" "n_sessions n = []"
    using server_up[of ?I ?w] by blast
  have "on_connected ?A sid ?w = Inr (OnConnected sid ?w)" for sid by (simp add: game_calls_def)
  from accept_client[OF server_init_inv[OF n(1)] n(2-4), of ?A "\<lambda>sid. OnConnected sid ?w", OF this]
  obtain n' sid where n': "event_pending (Accept_event 0) n"
    "IocpCore_Dispatch ?A accepting (Completed (Accept_event 0) 0) (n, ?w) = Some (Inr (True, n', OnConnected sid ?w))"
    "n_sessions n' = sid # n_sessions n" "new_session = Inr (n_sess n sid)"
    "n_sess n' sid = (n_sess n sid)\<lparr>m_connectEvent := False, m_connected := True, m_recvEvent := True\<rparr>"
    by blast
  have "game_server_step L (n, ?w) (n', OnConnected sid ?w)"
    unfolding game_server_step_def by (rule net_complete[OF _ n'(1,2)]) simp
  moreover have "reach game_server_init (game_server_step L) (n, ?w)"
    by (rule reach_init) (simp add: game_server_init_def n(1))
  ultimately have "reach game_server_init (game_server_step L) (n', OnConnected sid ?w)" by (rule reach_step[rotated])
  moreover have "receiving (n_sess n' sid) \<and> data_of (n_sess n' sid) = []"
  proof -
    obtain b where b: "RecvBuffer BUFFER_SIZE = Inr b" using RecvBuffer_ok by blast
    have "Inr (n_sess n sid) = new_session" using n'(4) by (rule sym)
    then have "m_recvBuffer (n_sess n sid) = b" using b by (simp add: new_session_def)
    then show ?thesis using fresh_buffer[OF b] by (simp add: n'(5) receiving_def data_of_def incomplete_def)
  qed
  moreover have "n_sessions n' = [sid]" "m_recvEvent (n_sess n' sid)" using n'(3,5) n(5) by simp_all
  ultimately show ?thesis by blast
qed

section \<open>Properties\<close>

text \<open>C10: Both layers agree. In every reachable state of the whole server the sessions of the game's
  manager are those of the service, and the game's invariant holds for some number of logins.\<close>

theorem sessions_agree:
  assumes "reach game_server_init (game_server_step L) (n, w)"
  shows "set (m_sessions w) = set (n_sessions n) \<and> n_sessionCount n = int (card (set (m_sessions w)))
    \<and> {sid. m_connected (n_sess n sid)} \<subseteq> set (m_sessions w)"
proof -
  have g: "game_ok (n, w)" by (rule game_server.reach_inv[OF assms])
  have "server_inv (n, w)"
    using net_server.reach_inv[of "\<lambda>w. w = server_start send_init"] assms
    unfolding game_server_init_def game_server_step_def by blast
  then show ?thesis
    using g by (auto simp: game_ok_def server_inv_def net_inv_def sessions_ok_def session_linked_def distinct_card)
qed

theorem sessions_agree_witness:
  "\<exists>(n :: net) sid. n_sessions n = [sid] \<and> set (m_sessions (OnConnected sid (server_start send_init))) = {sid} \<and> n_sessionCount n = 1"
proof -
  obtain n sid where n: "reach game_server_init (game_server_step test_env) (n, OnConnected sid (server_start send_init))"
    "n_sessions n = [sid]"
    using game_one_session by blast
  from sessions_agree[OF n(1)] n(2)
  have "set (m_sessions (OnConnected sid (server_start send_init))) = {sid}" "n_sessionCount n = 1" by simp_all
  with n(2) show ?thesis by blast
qed

text \<open>C8: Everything the server sends is a packet. Whatever bytes arrive, in whatever cuts, and
  whatever the operating system answers, each buffer Send was called with in a reachable state of the
  whole server holds exactly one packet: a header whose size field counts the header and the body, and
  the body.\<close>

theorem server_sends_packets:
  assumes "reach game_server_init (game_server_step L) (n, w)" and "(sid, b) \<in> set (sends w)"
  shows "\<exists>pktId body. length body \<le> 5996
    \<and> buffer_bytes (w_send w) b
      = Some (header_bytes \<lparr>hd_size = word_of_nat (length body + sizeof_PacketHeader), hd_id = pktId\<rparr> @ body)"
proof -
  obtain k where "game_inv (w, k)" using game_server.reach_inv[OF assms(1)] by (auto simp: game_ok_def)
  from game_invD(5)[OF this] assms(2) show ?thesis
    unfolding buffers_inv_def whole_packet_def packet_bytes_def by blast
qed

theorem server_sends_packets_witness:
  "\<exists>(w :: world) sid b pktId body. sends w = [(sid, b)] \<and> length body \<le> 5996
    \<and> buffer_bytes (w_send w) b
      = Some (header_bytes \<lparr>hd_size = word_of_nat (length body + sizeof_PacketHeader), hd_id = pktId\<rparr> @ body)"
proof -
  obtain n sid where n: "reach game_server_init (game_server_step test_env) (n, OnConnected sid (server_start send_init))"
    "m_recvEvent (n_sess n sid)" "receiving (n_sess n sid)" "data_of (n_sess n sid) = []"
    using game_one_session by blast
  let ?w = "OnConnected sid (server_start send_init)"
  obtain k where inv: "game_inv (?w, k)" using game_server.reach_inv[OF n(1)] by (auto simp: game_ok_def)
  have v: "C_LOGIN_valid 100 C_LOGIN_new" "C_LOGIN_InternalSerialize test_env C_LOGIN_new = []"
    by (simp_all add: valid_defs serialize_defs new_defs unknown_ok_def foreign_def unknown_tail_def)
  obtain m where m: "OnRecvPacket test_env 0 sid (packet_bytes PKT_C_LOGIN [] @ []) (word_of_nat (length ([] :: byte list) + 4)) ?w
      = rbind (Handle_C_LOGIN test_env 0 sid m ?w) (\<lambda>(_, w'). Inr w')"
    using login_packet[OF v(1), of test_env 0 sid "[]" ?w] unfolding v(2) by auto
  obtain i s where "Handle_C_LOGIN test_env 0 sid m ?w = Inr (True, Send_call sid i ((login_world sid ?w)\<lparr>w_send := s\<rparr>))"
    using login_succeeds[OF inv, of test_env 0 sid m] by blast
  with m have w': "OnRecvPacket test_env 0 sid (packet_bytes PKT_C_LOGIN [] @ []) (word_of_nat (length ([] :: byte list) + 4)) ?w
      = Inr (Send_call sid i ((login_world sid ?w)\<lparr>w_send := s\<rparr>))" by simp
  let ?w' = "Send_call sid i ((login_world sid ?w)\<lparr>w_send := s\<rparr>)"
  have fit: "int (length ([] :: byte list) + 4) \<le> FreeSize (m_recvBuffer (n_sess n sid))"
    using n(3) by (simp add: receiving_def BUFFER_SIZE_def)
  let ?n = "upd_net_session sid (recv_store (packet_bytes PKT_C_LOGIN [])) n"
  have "game_server_step test_env (n, ?w) (?n, ?w)"
    using net_store[of n sid "packet_bytes PKT_C_LOGIN []" "range (game_calls test_env)" game_jobs ?w, OF n(2)] fit
    unfolding game_server_step_def recv_store_def[abs_def] by simp
  from reach_step[OF n(1) this] have r1: "reach game_server_init (game_server_step test_env) (?n, ?w)" .
  obtain s' where s': "IocpCore_Dispatch (game_calls test_env 0) \<lparr>da_io = IO_Accepted, da_disconnect = IO_Accepted, da_accept = da_accept accepting\<rparr>
      (Completed (Session_event sid EventType.Recv) (int (length ([] :: byte list) + 4))) (?n, ?w)
    = Some (Inr (True, upd_net_session sid (\<lambda>_. s') n, ?w'))"
    using receive_packet[OF n(3,4) _ fit w'] by (metis list.size(3) zero_le)
  have "event_pending (Session_event sid EventType.Recv) ?n" using n(2) by (simp add: upd_net_session_def recv_store_def)
  from net_complete[OF _ this s', of "range (game_calls test_env)" game_jobs]
  have "game_server_step test_env (?n, ?w) (upd_net_session sid (\<lambda>_. s') n, ?w')" unfolding game_server_step_def by simp
  from reach_step[OF r1 this] have "reach game_server_init (game_server_step test_env) (upd_net_session sid (\<lambda>_. s') n, ?w')" .
  moreover have one: "sends ?w' = [(sid, i)]" by (simp add: login_world_simps OnConnected_def SessionManager_Add_def)
  moreover from one have "(sid, i) \<in> set (sends ?w')" by simp
  ultimately show ?thesis using server_sends_packets[of test_env "upd_net_session sid (\<lambda>_. s') n" ?w' sid i] by blast
qed

text \<open>C5: A chat from the socket to the room. In every reachable state of the server in which a session
  waits for a packet, the completion of a receive that stored the bytes of a C_CHAT packet whose text
  fits makes the dispatcher return true with one more job in the room's queue, to broadcast a packet a
  client's parser reads the same text from; the session waits for the next packet, and the other
  sessions are as before.\<close>

theorem chat_end_to_end:
  assumes "reach game_server_init (game_server_step L) (n, w)"
    and "m_recvEvent (n_sess n sid)" and "receiving (n_sess n sid)" and "data_of (n_sess n sid) = []"
    and "C_CHAT_valid 100 pkt" and "length (C_CHAT_InternalSerialize L pkt) \<le> 65531"
    and "fst (S_CHAT_ByteSizeLong (S_CHAT_new\<lparr>sc_msg := cc_msg pkt\<rparr>)) \<le> 5996"
  shows "\<exists>s' w' i body m. IocpCore_Dispatch (game_calls L t) \<lparr>da_io = IO_Accepted, da_disconnect = dio, da_accept = aa\<rparr>
        (Completed (Session_event sid EventType.Recv) (int (length (C_CHAT_InternalSerialize L pkt) + 4)))
        (upd_net_session sid (recv_store (packet_bytes PKT_C_CHAT (C_CHAT_InternalSerialize L pkt))) n, w)
      = Some (Inr (True, upd_net_session sid (\<lambda>_. s') n, w'))
    \<and> m_recvEvent s' \<and> receiving s' \<and> data_of s' = []
    \<and> r_jobs (rooms w' 0) = r_jobs (rooms w 0) @ [Broadcast_job i]
    \<and> buffer_bytes (w_send w') i = Some (packet_bytes PKT_S_CHAT body)
    \<and> S_CHAT_InternalParse L 100 S_CHAT_new body = Some (m, At_limit) \<and> sc_msg m = cc_msg pkt"
proof -
  obtain k where inv: "game_inv (w, k)" using game_server.reach_inv[OF assms(1)] by (auto simp: game_ok_def)
  obtain w' i body m where w': "OnRecvPacket L t sid (packet_bytes PKT_C_CHAT (C_CHAT_InternalSerialize L pkt) @ [])
        (word_of_nat (length (C_CHAT_InternalSerialize L pkt) + 4)) w = Inr w'"
    "r_jobs (rooms w' 0) = r_jobs (rooms w 0) @ [Broadcast_job i]"
    "buffer_bytes (w_send w') i = Some (packet_bytes PKT_S_CHAT body)"
    "S_CHAT_InternalParse L 100 S_CHAT_new body = Some (m, At_limit)" "sc_msg m = cc_msg pkt"
    using chat_in_room[OF inv assms(5-7), of t sid "[]"] by blast
  have "int (length (C_CHAT_InternalSerialize L pkt) + 4) \<le> FreeSize (m_recvBuffer (n_sess n sid))"
    using assms(3,6) by (simp add: receiving_def BUFFER_SIZE_def)
  from receive_packet[OF assms(3,4,6) this w'(1), of dio aa] w'(2-5) show ?thesis by blast
qed

theorem chat_end_to_end_witness:
  "\<exists>n sid s' w' i body m. IocpCore_Dispatch (game_calls test_env 0)
        \<lparr>da_io = IO_Accepted, da_disconnect = IO_Accepted, da_accept = da_accept accepting\<rparr>
        (Completed (Session_event sid EventType.Recv) (int (length (C_CHAT_InternalSerialize test_env (long_chat 5)) + 4)))
        (upd_net_session sid (recv_store (packet_bytes PKT_C_CHAT (C_CHAT_InternalSerialize test_env (long_chat 5)))) n,
         OnConnected sid (server_start send_init))
      = Some (Inr (True, upd_net_session sid (\<lambda>_. s') n, w'))
    \<and> r_jobs (rooms w' 0) = [Broadcast_job i] \<and> buffer_bytes (w_send w') i = Some (packet_bytes PKT_S_CHAT body)
    \<and> S_CHAT_InternalParse test_env 100 S_CHAT_new body = Some (m, At_limit) \<and> sc_msg m = cc_msg (long_chat 5)"
proof -
  define k :: nat where "k = 5"
  have k: "k \<le> max_size" "length (venc k) = 1" "0 < k" "k = 5" by (simp_all add: k_def max_size_def venc_small)
  have z: "length (C_CHAT_InternalSerialize test_env (long_chat k)) \<le> 65531"
    "fst (S_CHAT_ByteSizeLong (S_CHAT_new\<lparr>sc_msg := cc_msg (long_chat k)\<rparr>)) \<le> 5996"
    using long_chat_sizes[OF k(3,1)] k by simp_all
  obtain n sid where n: "reach game_server_init (game_server_step test_env) (n, OnConnected sid (server_start send_init))"
    "m_recvEvent (n_sess n sid)" "receiving (n_sess n sid)" "data_of (n_sess n sid) = []"
    using game_one_session by blast
  have "r_jobs (rooms (OnConnected sid (server_start send_init)) 0) = []"
    by (simp add: OnConnected_def SessionManager_Add_def new_room_def)
  with chat_end_to_end[OF n long_chat_valid[OF k(1)] z, of 0 IO_Accepted "da_accept accepting"]
  show ?thesis unfolding k_def by (metis append_Nil)
qed

end
