(* ===== verification/Dummy_Client.thy ===== *)
theory Dummy_Client
  imports Game_Server
begin

text \<open>
  The client (DummyClient/ServerPacketHandler.h and .cpp, DummyClient.cpp) and what it does together
  with the game server. Its table of handlers, its templates and its messages are the copies of the
  server's files; the entries, the overloads of MakeSendBuffer and the handlers are its own. What it
  prints is a list of texts; what it does through Session::Send is a list of calls.
\<close>

section \<open>The client's state and packets\<close>

record client_world =
  d_send :: send_state
  d_sends :: "(nat \<times> nat) list"
  d_cout :: "byte list list"

definition Client_Send :: "nat \<Rightarrow> nat \<Rightarrow> client_world \<Rightarrow> client_world" where
  "Client_Send sid sendBuffer c = c\<lparr>d_sends := d_sends c @ [(sid, sendBuffer)]\<rparr>"

definition client_buffer ::
    "(send_state \<Rightarrow> (nat \<times> send_state) result) \<Rightarrow> client_world \<Rightarrow> (nat \<times> client_world) result" where
  "client_buffer mk c = rbind (mk (d_send c)) (\<lambda>(b, s). Inr (b, c\<lparr>d_send := s\<rparr>))"

definition Make_C_LOGIN :: "wire_env \<Rightarrow> nat \<Rightarrow> C_LOGIN \<Rightarrow> client_world \<Rightarrow> (nat \<times> client_world) result" where
  "Make_C_LOGIN L t pkt =
     client_buffer (MakeSendBuffer C_LOGIN_ByteSizeLong (C_LOGIN_InternalSerialize L) t pkt PKT_C_LOGIN)"

definition Make_C_ENTER_GAME :: "wire_env \<Rightarrow> nat \<Rightarrow> C_ENTER_GAME \<Rightarrow> client_world \<Rightarrow> (nat \<times> client_world) result" where
  "Make_C_ENTER_GAME L t pkt =
     client_buffer (MakeSendBuffer C_ENTER_GAME_ByteSizeLong (C_ENTER_GAME_InternalSerialize L) t pkt PKT_C_ENTER_GAME)"

definition Make_C_CHAT :: "wire_env \<Rightarrow> nat \<Rightarrow> C_CHAT \<Rightarrow> client_world \<Rightarrow> (nat \<times> client_world) result" where
  "Make_C_CHAT L t pkt =
     client_buffer (MakeSendBuffer C_CHAT_ByteSizeLong (C_CHAT_InternalSerialize L) t pkt PKT_C_CHAT)"

lemmas client_make_defs = Make_C_LOGIN_def Make_C_ENTER_GAME_def Make_C_CHAT_def client_buffer_def

section \<open>Handlers\<close>

definition enterGamePkt :: C_ENTER_GAME where
  "enterGamePkt = C_ENTER_GAME_new\<lparr>ce_playerindex := 0\<rparr>"

definition Handle_S_LOGIN :: "wire_env \<Rightarrow> nat \<Rightarrow> nat \<Rightarrow> S_LOGIN \<Rightarrow> client_world \<Rightarrow> (bool \<times> client_world) result" where
  "Handle_S_LOGIN L t sid pkt c =
     (if \<not> sl_success pkt then Inr (True, c)
      else rbind (Make_C_ENTER_GAME L t enterGamePkt c) (\<lambda>(sendBuffer, c').
             Inr (True, Client_Send sid sendBuffer c')))"

definition Handle_S_ENTER_GAME :: "S_ENTER_GAME \<Rightarrow> client_world \<Rightarrow> (bool \<times> client_world) result" where
  "Handle_S_ENTER_GAME pkt c = Inr (True, c)"

definition Handle_S_CHAT :: "S_CHAT \<Rightarrow> client_world \<Rightarrow> (bool \<times> client_world) result" where
  "Handle_S_CHAT pkt c = Inr (True, c\<lparr>d_cout := d_cout c @ [sc_msg pkt]\<rparr>)"

definition client_entries :: "wire_env \<Rightarrow> nat \<Rightarrow> nat \<Rightarrow> (u16 \<times> client_world handler) list" where
  "client_entries L t sid =
     [(PKT_S_LOGIN, HandlePacket_as (S_LOGIN_InternalParse L) S_LOGIN_Clear S_LOGIN_new (Handle_S_LOGIN L t sid)),
      (PKT_S_ENTER_GAME,
        HandlePacket_as (S_ENTER_GAME_InternalParse L) S_ENTER_GAME_Clear S_ENTER_GAME_new Handle_S_ENTER_GAME),
      (PKT_S_CHAT, HandlePacket_as (S_CHAT_InternalParse L) S_CHAT_Clear S_CHAT_new Handle_S_CHAT)]"

definition Client_HandlePacket :: "wire_env \<Rightarrow> nat \<Rightarrow> nat \<Rightarrow> client_world handler" where
  "Client_HandlePacket L t sid = HandlePacket (Handler_Init (client_entries L t sid))"

section \<open>The session and main\<close>

definition Client_OnConnected :: "wire_env \<Rightarrow> nat \<Rightarrow> nat \<Rightarrow> client_world \<Rightarrow> client_world result" where
  "Client_OnConnected L t sid c =
     rbind (Make_C_LOGIN L t C_LOGIN_new c) (\<lambda>(sendBuffer, c'). Inr (Client_Send sid sendBuffer c'))"

definition Client_OnRecvPacket :: "wire_env \<Rightarrow> nat \<Rightarrow> nat \<Rightarrow> client_world packet_callback" where
  "Client_OnRecvPacket L t sid buffer len c =
     rbind (Client_HandlePacket L t sid buffer (int (unat len)) c) (\<lambda>(_, c'). Inr c')"

definition client_calls :: "wire_env \<Rightarrow> nat \<Rightarrow> client_world app_calls" where
  "client_calls L t = \<lparr>on_connected = Client_OnConnected L t, on_disconnected = (\<lambda>sid c. Inr c),
     on_recv_packet = Client_OnRecvPacket L t\<rparr>"

text \<open>The rest of main after the service has started: the chat is made into a buffer once, and each
  turn of the loop sends that buffer to all sessions of the service.\<close>

definition main_chat :: "wire_env \<Rightarrow> nat \<Rightarrow> client_world \<Rightarrow> (nat \<times> client_world) result" where
  "main_chat L t c = Make_C_CHAT L t (C_CHAT_new\<lparr>cc_msg := utf8_literal ''Hello World !''\<rparr>) c"

definition main_turn :: "nat list \<Rightarrow> nat \<Rightarrow> client_world \<Rightarrow> client_world" where
  "main_turn sids sendBuffer c = foldl (\<lambda>c sid. Client_Send sid sendBuffer c) c sids"

section \<open>What a client may do\<close>

definition client_start :: client_world where
  "client_start = \<lparr>d_send = send_init, d_sends = [], d_cout = []\<rparr>"

inductive client_step :: "wire_env \<Rightarrow> client_world \<Rightarrow> client_world \<Rightarrow> bool" for L :: wire_env where
  client_connected: "Client_OnConnected L t sid c = Inr c' \<Longrightarrow> client_step L c c'"
| client_received: "Client_OnRecvPacket L t sid buffer len c = Inr c' \<Longrightarrow> client_step L c c'"
| client_chat: "main_chat L t c = Inr (i, c') \<Longrightarrow> client_step L c (main_turn sids i c')"

text \<open>The bytes of a C_LOGIN, C_ENTER_GAME or C_CHAT packet that the server's parsers accept.\<close>

definition client_packet :: "wire_env \<Rightarrow> byte list \<Rightarrow> bool" where
  "client_packet L bs \<longleftrightarrow>
     (\<exists>m. C_LOGIN_valid 100 m \<and> bs = packet_bytes PKT_C_LOGIN (C_LOGIN_InternalSerialize L m))
     \<or> (\<exists>m. C_ENTER_GAME_valid 100 m \<and> bs = packet_bytes PKT_C_ENTER_GAME (C_ENTER_GAME_InternalSerialize L m))
     \<or> (\<exists>m. C_CHAT_valid 100 m \<and> bs = packet_bytes PKT_C_CHAT (C_CHAT_InternalSerialize L m))"

definition client_inv :: "wire_env \<Rightarrow> client_world \<Rightarrow> bool" where
  "client_inv L c \<longleftrightarrow> send_inv None (d_send c, \<lambda>_. None)
     \<and> (\<forall>(sid, b)\<in>set (d_sends c). \<exists>bs. buffer_bytes (d_send c) b = Some bs \<and> client_packet L bs)"

lemma client_messages:
  "C_LOGIN_valid 100 C_LOGIN_new" "C_ENTER_GAME_valid 100 enterGamePkt"
  "C_CHAT_valid 100 (C_CHAT_new\<lparr>cc_msg := utf8_literal ''Hello World !''\<rparr>)"
  "fst (C_LOGIN_ByteSizeLong C_LOGIN_new) \<le> 5996" "fst (C_ENTER_GAME_ByteSizeLong enterGamePkt) \<le> 5996"
  "fst (C_CHAT_ByteSizeLong (C_CHAT_new\<lparr>cc_msg := utf8_literal ''Hello World !''\<rparr>)) \<le> 5996"
  by (simp_all add: valid_defs new_defs unknown_ok_def foreign_def enterGamePkt_def utf8_literal_def size_defs final_size_def
      Let_def string_ok_def max_size_def well_formed_all_ascii LengthDelimitedSize_venc venc_small)

text \<open>A packet that was made is one more buffer; the earlier ones keep their bytes.\<close>

lemma client_made:
  assumes "client_inv L c" and "send_inv None (s, \<lambda>_. None)" and "buffer_bytes s i = Some bs" and "client_packet L bs"
    and "\<forall>j. j \<noteq> i \<longrightarrow> buffer_bytes s j = buffer_bytes (d_send c) j" and "buffers (d_send c) i = None"
    and "d_send c' = s" and "set (d_sends c') \<subseteq> set (d_sends c) \<union> UNIV \<times> {i}"
  shows "client_inv L c'"
proof -
  have "b \<noteq> i" if "(sid, b) \<in> set (d_sends c)" for sid b
    using assms(1,6) that buffer_bytes_Some[of "d_send c" b] by (fastforce simp: client_inv_def)
  then show ?thesis using assms unfolding client_inv_def by (fastforce simp: subset_iff)
qed

lemma main_turn_simps:
  "d_send (main_turn sids i c) = d_send c" "d_sends (main_turn sids i c) = d_sends c @ map (\<lambda>sid. (sid, i)) sids"
  by (induction sids arbitrary: c) (simp_all add: main_turn_def Client_Send_def)

section \<open>Packets the client gets\<close>

lemma client_entry_of:
  "last_entry (client_entries L t sid) PKT_S_LOGIN f
     = HandlePacket_as (S_LOGIN_InternalParse L) S_LOGIN_Clear S_LOGIN_new (Handle_S_LOGIN L t sid)"
  "last_entry (client_entries L t sid) PKT_S_ENTER_GAME f
     = HandlePacket_as (S_ENTER_GAME_InternalParse L) S_ENTER_GAME_Clear S_ENTER_GAME_new Handle_S_ENTER_GAME"
  "last_entry (client_entries L t sid) PKT_S_CHAT f
     = HandlePacket_as (S_CHAT_InternalParse L) S_CHAT_Clear S_CHAT_new Handle_S_CHAT"
  "pktId \<notin> {PKT_S_LOGIN, PKT_S_ENTER_GAME, PKT_S_CHAT} \<Longrightarrow> last_entry (client_entries L t sid) pktId f = f"
  by (auto simp: client_entries_def packet_ids)

lemma client_ids: "unat PKT_S_LOGIN < UINT16_MAX" "unat PKT_S_ENTER_GAME < UINT16_MAX" "unat PKT_S_CHAT < UINT16_MAX"
  by (simp_all add: packet_ids UINT16_MAX_def)

lemma client_login_packet:
  assumes "S_LOGIN_valid 100 pkt" and "fst (S_LOGIN_ByteSizeLong pkt) \<le> 5996" and "sl_success pkt"
    and "body = S_LOGIN_InternalSerialize L (snd (S_LOGIN_ByteSizeLong pkt))"
  shows "\<exists>m. sl_success m \<and> Client_OnRecvPacket L t sid (packet_bytes PKT_S_LOGIN body @ rest) (word_of_nat (length body + 4)) c
    = rbind (Handle_S_LOGIN L t sid m c) (\<lambda>(_, c'). Inr c')"
proof -
  have len: "length body \<le> 65531" using S_LOGIN.size_law[OF assms(1), of L] assms(2,4) by simp
  have clear: "S_LOGIN_Clear S_LOGIN_new = S_LOGIN_new" by (simp add: S_LOGIN_Clear_def S_LOGIN_new_def)
  obtain m where m: "S_LOGIN_content m = S_LOGIN_content pkt"
    "HandlePacket (Handler_Init (client_entries L t sid)) (packet_bytes PKT_S_LOGIN body @ rest)
       (int (unat (word_of_nat (length body + 4) :: u16))) c = Handle_S_LOGIN L t sid m c"
    by (rule S_LOGIN.table_packet[where rest = rest and w = c, OF assms(1) refl clear assms(4) len client_ids(1)
      client_entry_of(1)[of L t sid]])
  have "sl_success m = sl_success pkt" using arg_cong[OF m(1), of sl_success] by (simp add: S_LOGIN_content_def)
  then show ?thesis unfolding Client_OnRecvPacket_def Client_HandlePacket_def m(2) using assms(3) by blast
qed

lemma client_enter_packet:
  assumes "S_ENTER_GAME_valid 100 pkt" and "fst (S_ENTER_GAME_ByteSizeLong pkt) \<le> 5996"
    and "body = S_ENTER_GAME_InternalSerialize L (snd (S_ENTER_GAME_ByteSizeLong pkt))"
  shows "Client_OnRecvPacket L t sid (packet_bytes PKT_S_ENTER_GAME body @ rest) (word_of_nat (length body + 4)) c = Inr c"
proof -
  have len: "length body \<le> 65531" using S_ENTER_GAME.size_law[OF assms(1), of L] assms(2,3) by simp
  have clear: "S_ENTER_GAME_Clear S_ENTER_GAME_new = S_ENTER_GAME_new" by (simp add: S_ENTER_GAME_Clear_def S_ENTER_GAME_new_def)
  show ?thesis
    unfolding Client_OnRecvPacket_def Client_HandlePacket_def
    by (rule S_ENTER_GAME.table_packet[where rest = rest and w = c, OF assms(1) refl clear assms(3) len client_ids(2)
      client_entry_of(2)[of L t sid]]) (auto simp: Handle_S_ENTER_GAME_def)
qed

lemma client_chat_packet:
  assumes "S_CHAT_valid 100 pkt" and "fst (S_CHAT_ByteSizeLong pkt) \<le> 5996"
    and "body = S_CHAT_InternalSerialize L (snd (S_CHAT_ByteSizeLong pkt))"
  shows "Client_OnRecvPacket L t sid (packet_bytes PKT_S_CHAT body @ rest) (word_of_nat (length body + 4)) c
    = Inr (c\<lparr>d_cout := d_cout c @ [sc_msg pkt]\<rparr>)"
proof -
  have len: "length body \<le> 65531" using S_CHAT.size_law[OF assms(1), of L] assms(2,3) by simp
  have clear: "S_CHAT_Clear S_CHAT_new = S_CHAT_new" by (simp add: S_CHAT_Clear_def S_CHAT_new_def)
  obtain m where m: "S_CHAT_content m = S_CHAT_content pkt"
    "HandlePacket (Handler_Init (client_entries L t sid)) (packet_bytes PKT_S_CHAT body @ rest)
       (int (unat (word_of_nat (length body + 4) :: u16))) c = Handle_S_CHAT m c"
    by (rule S_CHAT.table_packet[where rest = rest and w = c, OF assms(1) refl clear assms(3) len client_ids(3)
      client_entry_of(3)[of L t sid]])
  have "sc_msg m = sc_msg pkt" using arg_cong[OF m(1), of sc_msg] by (simp add: S_CHAT_content_def)
  then show ?thesis unfolding Client_OnRecvPacket_def Client_HandlePacket_def m(2) by (simp add: Handle_S_CHAT_def)
qed

section \<open>What the client sends\<close>

lemma client_login_sent:
  assumes "client_inv L c"
  shows "\<exists>i c'. Client_OnConnected L t sid c = Inr c' \<and> d_sends c' = d_sends c @ [(sid, i)] \<and> client_inv L c'
    \<and> buffer_bytes (d_send c') i = Some (packet_bytes PKT_C_LOGIN (C_LOGIN_InternalSerialize L C_LOGIN_new))"
proof -
  have s: "send_inv None (d_send c, \<lambda>_. None)" using assms by (simp add: client_inv_def)
  from C_LOGIN.make_packet[OF s refl client_messages(1,4), of L t PKT_C_LOGIN] obtain i s' where m:
    "MakeSendBuffer C_LOGIN_ByteSizeLong (C_LOGIN_InternalSerialize L) t C_LOGIN_new PKT_C_LOGIN (d_send c) = Inr (i, s')"
    "buffer_bytes s' i = Some (packet_bytes PKT_C_LOGIN (C_LOGIN_InternalSerialize L C_LOGIN_new))"
    "send_inv None (s', \<lambda>_. None)" "\<forall>j. j \<noteq> i \<longrightarrow> buffer_bytes s' j = buffer_bytes (d_send c) j" "buffers (d_send c) i = None"
    unfolding sized_plain by blast
  have "client_inv L (Client_Send sid i (c\<lparr>d_send := s'\<rparr>))"
    by (rule client_made[OF assms m(3,2) _ m(4,5)])
      (use client_messages(1) in \<open>auto simp: client_packet_def Client_Send_def\<close>)
  with m show ?thesis by (auto simp: Client_OnConnected_def client_make_defs Client_Send_def)
qed

lemma client_enter_sent:
  assumes "client_inv L c" and "sl_success m"
  shows "\<exists>i c'. Handle_S_LOGIN L t sid m c = Inr (True, c') \<and> d_sends c' = d_sends c @ [(sid, i)] \<and> client_inv L c'
    \<and> buffer_bytes (d_send c') i = Some (packet_bytes PKT_C_ENTER_GAME (C_ENTER_GAME_InternalSerialize L enterGamePkt))"
proof -
  have s: "send_inv None (d_send c, \<lambda>_. None)" using assms by (simp add: client_inv_def)
  from C_ENTER_GAME.make_packet[OF s refl client_messages(2,5), of L t PKT_C_ENTER_GAME] obtain i s' where m:
    "MakeSendBuffer C_ENTER_GAME_ByteSizeLong (C_ENTER_GAME_InternalSerialize L) t enterGamePkt PKT_C_ENTER_GAME (d_send c) = Inr (i, s')"
    "buffer_bytes s' i = Some (packet_bytes PKT_C_ENTER_GAME (C_ENTER_GAME_InternalSerialize L enterGamePkt))"
    "send_inv None (s', \<lambda>_. None)" "\<forall>j. j \<noteq> i \<longrightarrow> buffer_bytes s' j = buffer_bytes (d_send c) j" "buffers (d_send c) i = None"
    unfolding sized_plain by blast
  have "client_inv L (Client_Send sid i (c\<lparr>d_send := s'\<rparr>))"
    by (rule client_made[OF assms(1) m(3,2) _ m(4,5)])
      (use client_messages(2) in \<open>auto simp: client_packet_def Client_Send_def\<close>)
  with m assms(2) show ?thesis by (auto simp: Handle_S_LOGIN_def client_make_defs Client_Send_def)
qed

lemma client_chat_made:
  assumes "client_inv L c" and "main_chat L t c = Inr (i, c')"
  shows "client_inv L (main_turn sids i c')"
proof -
  let ?pkt = "C_CHAT_new\<lparr>cc_msg := utf8_literal ''Hello World !''\<rparr>"
  have s: "send_inv None (d_send c, \<lambda>_. None)" using assms by (simp add: client_inv_def)
  obtain s' where m: "MakeSendBuffer C_CHAT_ByteSizeLong (C_CHAT_InternalSerialize L) t ?pkt PKT_C_CHAT (d_send c) = Inr (i, s')"
    and c': "c' = c\<lparr>d_send := s'\<rparr>"
    using assms(2) by (auto simp: main_chat_def client_make_defs rbind_eq_Inr)
  note r = C_CHAT.make_result[OF s refl client_messages(3) m, unfolded sized_plain]
  show ?thesis
    by (rule client_made[OF assms(1) r(3,2) _ r(4,5)])
      (use client_messages(3) in \<open>auto simp: client_packet_def main_turn_simps c'\<close>)
qed

section \<open>The client's invariant\<close>

lemma client_packet_cases:
  assumes "Client_OnRecvPacket L t sid buffer len c = Inr c'"
  shows "c' = c \<or> (\<exists>m b. Handle_S_LOGIN L t sid m c = Inr (b, c')) \<or> (\<exists>m :: S_CHAT. c' = c\<lparr>d_cout := d_cout c @ [sc_msg m]\<rparr>)"
proof -
  let ?id = "hd_id (read_header buffer)"
  obtain b where h: "HandlePacket (Handler_Init (client_entries L t sid)) buffer (int (unat len)) c = Inr (b, c')"
    using assms by (auto simp: Client_OnRecvPacket_def Client_HandlePacket_def rbind_eq_Inr)
  note e = HandlePacket_Inr[OF h]
  consider "?id = PKT_S_LOGIN" | "?id = PKT_S_ENTER_GAME" | "?id = PKT_S_CHAT"
    | "?id \<notin> {PKT_S_LOGIN, PKT_S_ENTER_GAME, PKT_S_CHAT}" by blast
  then show ?thesis
  proof cases
    case 1
    then show ?thesis using e HandlePacket_as_Inr by (metis client_entry_of(1))
  next
    case 2
    then have "HandlePacket_as (S_ENTER_GAME_InternalParse L) S_ENTER_GAME_Clear S_ENTER_GAME_new Handle_S_ENTER_GAME
        buffer (int (unat len)) c = Inr (b, c')" using e by (simp add: client_entry_of)
    from HandlePacket_as_Inr[OF this] show ?thesis by (auto simp: Handle_S_ENTER_GAME_def)
  next
    case 3
    then have "HandlePacket_as (S_CHAT_InternalParse L) S_CHAT_Clear S_CHAT_new Handle_S_CHAT
        buffer (int (unat len)) c = Inr (b, c')" using e by (simp add: client_entry_of)
    from HandlePacket_as_Inr[OF this] show ?thesis unfolding Handle_S_CHAT_def by blast
  next
    case 4
    then show ?thesis using e by (simp add: client_entry_of Handle_INVALID_def)
  qed
qed

lemma client_step_inv: "client_inv L c \<Longrightarrow> client_step L c c' \<Longrightarrow> client_inv L c'"
proof (erule client_step.cases)
  fix t sid d d' assume "client_inv L c" "c = d" "c' = d'" "Client_OnConnected L t sid d = Inr d'"
  then show "client_inv L c'" using client_login_sent[of L c t sid] by auto
next
  fix t sid buffer len d d'
  assume inv: "client_inv L c" and eq: "c = d" "c' = d'" and r: "Client_OnRecvPacket L t sid buffer len d = Inr d'"
  from client_packet_cases[OF r] eq consider "c' = c" | m b where "Handle_S_LOGIN L t sid m c = Inr (b, c')"
    | m :: S_CHAT where "c' = c\<lparr>d_cout := d_cout c @ [sc_msg m]\<rparr>" by blast
  then show "client_inv L c'"
  proof cases
    case (2 m b)
    then show ?thesis using inv client_enter_sent[OF inv, of m t sid] by (cases "sl_success m") (auto simp: Handle_S_LOGIN_def)
  next
    case (3 m)
    then show ?thesis using inv by (simp add: client_inv_def)
  qed (use inv in simp)
next
  fix t d i d' sids assume "client_inv L c" "c = d" "c' = main_turn sids i d'" "main_chat L t d = Inr (i, d')"
  then show "client_inv L c'" using client_chat_made by simp
qed

interpretation client: invariant_system "\<lambda>c. c = client_start" "client_step L" "client_inv L" for L
proof
  show "\<And>c. c = client_start \<Longrightarrow> client_inv L c" by (simp add: client_inv_def client_start_def send_buffers_init)
qed (rule client_step_inv)

section \<open>Client and server\<close>

text \<open>The server's answers with their bytes.\<close>

lemma login_answer:
  assumes "game_inv (w, n)" and "C_LOGIN_valid 100 pkt" and "length (C_LOGIN_InternalSerialize L pkt) \<le> 65531"
  shows "\<exists>i s. OnRecvPacket L t sid (packet_bytes PKT_C_LOGIN (C_LOGIN_InternalSerialize L pkt) @ rest)
        (word_of_nat (length (C_LOGIN_InternalSerialize L pkt) + 4)) w = Inr (Send_call sid i ((login_world sid w)\<lparr>w_send := s\<rparr>))
    \<and> buffer_bytes s i = Some (packet_bytes PKT_S_LOGIN (S_LOGIN_InternalSerialize L (snd (S_LOGIN_ByteSizeLong loginPkt))))
    \<and> game_inv (Send_call sid i ((login_world sid w)\<lparr>w_send := s\<rparr>), Suc n)"
proof -
  obtain m where m: "OnRecvPacket L t sid (packet_bytes PKT_C_LOGIN (C_LOGIN_InternalSerialize L pkt) @ rest)
      (word_of_nat (length (C_LOGIN_InternalSerialize L pkt) + 4)) w = rbind (Handle_C_LOGIN L t sid m w) (\<lambda>(_, w'). Inr w')"
    using login_packet[OF assms(2,3)] by blast
  obtain i s where h: "Handle_C_LOGIN L t sid m w = Inr (True, Send_call sid i ((login_world sid w)\<lparr>w_send := s\<rparr>))"
    using login_succeeds[OF assms(1)] by blast
  obtain i' s' where mk: "MakeSendBuffer S_LOGIN_ByteSizeLong (S_LOGIN_InternalSerialize L) t loginPkt PKT_S_LOGIN (w_send w) = Inr (i', s')"
    "Send_call sid i ((login_world sid w)\<lparr>w_send := s\<rparr>) = Send_call sid i' ((login_world sid w)\<lparr>w_send := s'\<rparr>)"
    using Handle_C_LOGIN_Inr[OF h] by blast
  from arg_cong[OF mk(2), of w_send] arg_cong[OF mk(2), of sends] have "s' = s" "i' = i" by (simp_all add: Send_call_def)
  with S_LOGIN.make_result(2)[OF game_invD(2)[OF assms(1)] refl loginPkt_valid mk(1)] m h game.step_inv[OF assms(1) step_login[OF h]]
  show ?thesis by auto
qed

lemma enter_answer:
  assumes "game_inv (w, n)" and "C_ENTER_GAME_valid 100 pkt" and "length (C_ENTER_GAME_InternalSerialize L pkt) \<le> 65531"
    and "unat (ce_playerindex pkt) < length (gs_players (sessions w sid))"
    and "player = gs_players (sessions w sid) ! unat (ce_playerindex pkt)"
  shows "\<exists>i s. OnRecvPacket L t sid (packet_bytes PKT_C_ENTER_GAME (C_ENTER_GAME_InternalSerialize L pkt) @ rest)
        (word_of_nat (length (C_ENTER_GAME_InternalSerialize L pkt) + 4)) w
      = Inr (Send_call sid i ((enter_world sid player 0 w)\<lparr>w_send := s\<rparr>))
    \<and> buffer_bytes s i = Some (packet_bytes PKT_S_ENTER_GAME (S_ENTER_GAME_InternalSerialize L (S_ENTER_GAME_new\<lparr>se_success := True\<rparr>)))"
proof -
  obtain m where m: "ce_playerindex m = ce_playerindex pkt"
    "OnRecvPacket L t sid (packet_bytes PKT_C_ENTER_GAME (C_ENTER_GAME_InternalSerialize L pkt) @ rest)
      (word_of_nat (length (C_ENTER_GAME_InternalSerialize L pkt) + 4)) w
      = rbind (Handle_C_ENTER_GAME L t sid m w) (\<lambda>(_, w'). Inr w')"
    using enter_packet[OF assms(2,3)] by blast
  have "session_ok sid (sessions w sid)" using game_invD(4)[OF assms(1)] shape_invD(2) by blast
  then have own: "g_ownerSession player = sid" using assms(4,5) by (simp add: session_ok_def)
  obtain i s where h: "Handle_C_ENTER_GAME L t sid m w = Inr (True, Send_call sid i ((enter_world sid player 0 w)\<lparr>w_send := s\<rparr>))"
    using enter_succeeds[OF assms(1), of m sid L t] assms(4,5) own unfolding m(1) by auto
  obtain r' i' s' where mk: "MakeSendBuffer S_ENTER_GAME_ByteSizeLong (S_ENTER_GAME_InternalSerialize L) t
      (S_ENTER_GAME_new\<lparr>se_success := True\<rparr>) PKT_S_ENTER_GAME (w_send w) = Inr (i', s')"
    "Send_call sid i ((enter_world sid player 0 w)\<lparr>w_send := s\<rparr>) = Send_call sid i' ((enter_world sid player r' w)\<lparr>w_send := s'\<rparr>)"
    using Handle_C_ENTER_GAME_Inr[OF h] own assms(5) unfolding m(1) by metis
  have "sends (enter_world sid player r w) = sends w" for r
    by (simp add: enter_world_def Room_DoAsync_def upd_room_def upd_session_def)
  with arg_cong[OF mk(2), of w_send] arg_cong[OF mk(2), of sends] have "s' = s" "i' = i" by (simp_all add: Send_call_def)
  with S_ENTER_GAME.make_result(2)[OF game_invD(2)[OF assms(1)] refl enterPkt_valid mk(1)] m h show ?thesis
    by (auto simp: sized_plain)
qed

lemma chat_answer:
  assumes "game_inv (w, n)" and "C_CHAT_valid 100 pkt" and "length (C_CHAT_InternalSerialize L pkt) \<le> 65531"
    and "fst (S_CHAT_ByteSizeLong (S_CHAT_new\<lparr>sc_msg := cc_msg pkt\<rparr>)) \<le> 5996"
  shows "\<exists>i w'. OnRecvPacket L t sid (packet_bytes PKT_C_CHAT (C_CHAT_InternalSerialize L pkt) @ rest)
        (word_of_nat (length (C_CHAT_InternalSerialize L pkt) + 4)) w = Inr w'
    \<and> r_jobs (rooms w' 0) = r_jobs (rooms w 0) @ [Broadcast_job i]
    \<and> buffer_bytes (w_send w') i
        = Some (packet_bytes PKT_S_CHAT (S_CHAT_InternalSerialize L (snd (S_CHAT_ByteSizeLong (S_CHAT_new\<lparr>sc_msg := cc_msg pkt\<rparr>)))))"
proof -
  have ok: "string_ok (cc_msg pkt)" using assms(2) by (simp add: C_CHAT_valid_def)
  obtain c where c: "cc_msg c = cc_msg pkt"
    "OnRecvPacket L t sid (packet_bytes PKT_C_CHAT (C_CHAT_InternalSerialize L pkt) @ rest)
       (word_of_nat (length (C_CHAT_InternalSerialize L pkt) + 4)) w = rbind (Handle_C_CHAT L t sid c w) (\<lambda>(_, w'). Inr w')"
    using chat_packet[OF assms(2,3)] by blast
  obtain w' where w': "Handle_C_CHAT L t sid c w = Inr (True, w')"
    using chat_handler(1)[OF assms(1), of c L t sid] ok assms(4) c(1) by auto
  obtain r i s where r: "GetRoom w = Inr r" "w' = Room_DoAsync r (Broadcast_job i) (w\<lparr>w_send := s\<rparr>)"
    and mk: "MakeSendBuffer S_CHAT_ByteSizeLong (S_CHAT_InternalSerialize L) t (S_CHAT_new\<lparr>sc_msg := cc_msg pkt\<rparr>) PKT_S_CHAT (w_send w) = Inr (i, s)"
    using Handle_C_CHAT_Inr[OF w'] unfolding c(1) by blast
  have "r_jobs (rooms w' 0) = r_jobs (rooms w 0) @ [Broadcast_job i]" "w_send w' = s"
    using r game_invD(3)[OF assms(1)] by (simp_all add: Room_DoAsync_def upd_room_def)
  with S_CHAT.make_result(2)[OF game_invD(2)[OF assms(1)] refl chatPkt_valid[OF ok] mk] c(2) w' show ?thesis by auto
qed

lemma client_bodies:
  "length (C_LOGIN_InternalSerialize L C_LOGIN_new) \<le> 65531" "length (C_ENTER_GAME_InternalSerialize L enterGamePkt) \<le> 65531"
  "length (C_CHAT_InternalSerialize L (C_CHAT_new\<lparr>cc_msg := utf8_literal ''Hello World !''\<rparr>)) \<le> 65531"
  using C_LOGIN.size_law[OF client_messages(1), of L] C_ENTER_GAME.size_law[OF client_messages(2), of L]
    C_CHAT.size_law[OF client_messages(3), of L] client_messages(4-6)
  unfolding sized_plain by linarith+

lemma server_replies:
  "fst (S_LOGIN_ByteSizeLong loginPkt) \<le> 5996" "sl_success loginPkt"
  "fst (S_ENTER_GAME_ByteSizeLong (S_ENTER_GAME_new\<lparr>se_success := True\<rparr>)) \<le> 5996"
  by (simp_all add: loginPkt_size) (simp_all add: loginPkt_def S_ENTER_GAME_ByteSizeLong_def S_ENTER_GAME_new_def final_size_def Let_def)

section \<open>Properties\<close>

text \<open>C3: The login, from the connection to the room. In every reachable state of a server and of a
  client, what the client sends when it is connected makes the server answer with players; on that
  answer the client asks to enter with its first player; the server takes the player of this session
  into the queue of the room and answers; and the client takes this answer too. Each side reads what
  the other has written byte for byte.\<close>

theorem login_handshake:
  assumes "reach game_init (game_step L) (w, n)" and "reach (\<lambda>c. c = client_start) (client_step L) c"
  shows "\<exists>c1 w1 c2 w2 i1 b1 i2 b2 i3 b3 i4 b4 player.
      Client_OnConnected L u cs c = Inr c1 \<and> d_sends c1 = d_sends c @ [(cs, i1)] \<and> buffer_bytes (d_send c1) i1 = Some b1
    \<and> OnRecvPacket L t sid b1 (word_of_nat (length b1)) w = Inr w1
    \<and> sends w1 = sends w @ [(sid, i2)] \<and> buffer_bytes (w_send w1) i2 = Some b2
    \<and> Client_OnRecvPacket L u cs b2 (word_of_nat (length b2)) c1 = Inr c2
    \<and> d_sends c2 = d_sends c1 @ [(cs, i3)] \<and> buffer_bytes (d_send c2) i3 = Some b3
    \<and> OnRecvPacket L t sid b3 (word_of_nat (length b3)) w1 = Inr w2
    \<and> r_jobs (rooms w2 0) = r_jobs (rooms w 0) @ [Enter_job player] \<and> g_ownerSession player = sid
    \<and> sends w2 = sends w1 @ [(sid, i4)] \<and> buffer_bytes (w_send w2) i4 = Some b4
    \<and> Client_OnRecvPacket L u cs b4 (word_of_nat (length b4)) c2 = Inr c2"
proof -
  note inv = game.reach_inv[OF assms(1)] and cinv = client.reach_inv[OF assms(2)]
  obtain i1 c1 where c1: "Client_OnConnected L u cs c = Inr c1" "d_sends c1 = d_sends c @ [(cs, i1)]" "client_inv L c1"
    "buffer_bytes (d_send c1) i1 = Some (packet_bytes PKT_C_LOGIN (C_LOGIN_InternalSerialize L C_LOGIN_new))"
    using client_login_sent[OF cinv] by blast
  obtain i2 s where w1: "OnRecvPacket L t sid (packet_bytes PKT_C_LOGIN (C_LOGIN_InternalSerialize L C_LOGIN_new) @ [])
        (word_of_nat (length (C_LOGIN_InternalSerialize L C_LOGIN_new) + 4)) w = Inr (Send_call sid i2 ((login_world sid w)\<lparr>w_send := s\<rparr>))"
    "buffer_bytes s i2 = Some (packet_bytes PKT_S_LOGIN (S_LOGIN_InternalSerialize L (snd (S_LOGIN_ByteSizeLong loginPkt))))"
    "game_inv (Send_call sid i2 ((login_world sid w)\<lparr>w_send := s\<rparr>), Suc n)"
    using login_answer[OF inv client_messages(1) client_bodies(1)] by blast
  let ?w1 = "Send_call sid i2 ((login_world sid w)\<lparr>w_send := s\<rparr>)"
  obtain m where m: "sl_success m" "Client_OnRecvPacket L u cs (packet_bytes PKT_S_LOGIN (S_LOGIN_InternalSerialize L (snd (S_LOGIN_ByteSizeLong loginPkt))) @ [])
      (word_of_nat (length (S_LOGIN_InternalSerialize L (snd (S_LOGIN_ByteSizeLong loginPkt))) + 4)) c1
      = rbind (Handle_S_LOGIN L u cs m c1) (\<lambda>(_, c'). Inr c')"
    using client_login_packet[OF loginPkt_valid server_replies(1,2) refl] by blast
  obtain i3 c2 where c2: "Handle_S_LOGIN L u cs m c1 = Inr (True, c2)" "d_sends c2 = d_sends c1 @ [(cs, i3)]"
    "buffer_bytes (d_send c2) i3 = Some (packet_bytes PKT_C_ENTER_GAME (C_ENTER_GAME_InternalSerialize L enterGamePkt))"
    using client_enter_sent[OF c1(3) m(1)] by blast
  define player where "player = gs_players (sessions ?w1 sid) ! unat (ce_playerindex enterGamePkt)"
  have k: "unat (ce_playerindex enterGamePkt) < length (gs_players (sessions ?w1 sid))"
    by (simp add: enterGamePkt_def login_world_simps)
  have own: "g_ownerSession player = sid"
    using shape_invD(2)[OF game_invD(4)[OF w1(3)], of sid] k by (simp add: session_ok_def player_def)
  obtain i4 s' where w2: "OnRecvPacket L t sid (packet_bytes PKT_C_ENTER_GAME (C_ENTER_GAME_InternalSerialize L enterGamePkt) @ [])
        (word_of_nat (length (C_ENTER_GAME_InternalSerialize L enterGamePkt) + 4)) ?w1 = Inr (Send_call sid i4 ((enter_world sid player 0 ?w1)\<lparr>w_send := s'\<rparr>))"
    "buffer_bytes s' i4 = Some (packet_bytes PKT_S_ENTER_GAME (S_ENTER_GAME_InternalSerialize L (S_ENTER_GAME_new\<lparr>se_success := True\<rparr>)))"
    using enter_answer[OF w1(3) client_messages(2) client_bodies(2) k player_def] by blast
  let ?w2 = "Send_call sid i4 ((enter_world sid player 0 ?w1)\<lparr>w_send := s'\<rparr>)"
  have c3: "Client_OnRecvPacket L u cs (packet_bytes PKT_S_ENTER_GAME (S_ENTER_GAME_InternalSerialize L (S_ENTER_GAME_new\<lparr>se_success := True\<rparr>)) @ [])
      (word_of_nat (length (S_ENTER_GAME_InternalSerialize L (S_ENTER_GAME_new\<lparr>se_success := True\<rparr>)) + 4)) c2 = Inr c2"
    by (rule client_enter_packet[OF enterPkt_valid server_replies(3)]) (simp only: sized_plain)
  have j: "sends ?w1 = sends w @ [(sid, i2)]" "buffer_bytes (w_send ?w1) i2 = buffer_bytes s i2"
    "sends ?w2 = sends ?w1 @ [(sid, i4)]" "buffer_bytes (w_send ?w2) i4 = buffer_bytes s' i4"
    "r_jobs (rooms ?w2 0) = r_jobs (rooms w 0) @ [Enter_job player]"
    by (simp_all add: login_world_simps enter_world_def Room_DoAsync_def upd_room_def upd_session_def)
  show ?thesis
    apply (rule exI[of _ c1], rule exI[of _ ?w1], rule exI[of _ c2], rule exI[of _ ?w2])
    using c1(1,2,4) w1(1,2) m(2) c2 w2 c3 j own
    unfolding append_Nil2 length_packet_bytes[symmetric] by auto
qed

theorem login_handshake_witness:
  "\<exists>c1 w1 i1 b1 i2. Client_OnConnected test_env 0 0 client_start = Inr c1 \<and> d_sends c1 = [(0, i1)]
    \<and> buffer_bytes (d_send c1) i1 = Some b1
    \<and> OnRecvPacket test_env 0 0 b1 (word_of_nat (length b1)) (server_start send_init) = Inr w1 \<and> sends w1 = [(0, i2)]"
proof -
  have "reach (\<lambda>c. c = client_start) (client_step test_env) client_start" by (rule reach_init) simp
  from login_handshake[OF start_reach this, of 0 0 0 0] show ?thesis
    unfolding start_world_simps by (auto simp: client_start_def)
qed

text \<open>The chat, from one client to the text another prints. In every reachable state of a server and
  of a client, the buffer main makes for its chat can be made; the server takes its bytes from any
  session, puts a broadcast into the queue of the room, and any client that receives the bytes of that
  broadcast prints exactly the text and does nothing else.\<close>

theorem chat_printed:
  assumes "reach game_init (game_step L) (w, n)" and "reach (\<lambda>c. c = client_start) (client_step L) c"
  shows "\<exists>i c' b w' k b'. main_chat L u c = Inr (i, c') \<and> buffer_bytes (d_send c') i = Some b
    \<and> OnRecvPacket L t sid b (word_of_nat (length b)) w = Inr w'
    \<and> r_jobs (rooms w' 0) = r_jobs (rooms w 0) @ [Broadcast_job k] \<and> buffer_bytes (w_send w') k = Some b'
    \<and> Client_OnRecvPacket L v cs b' (word_of_nat (length b')) d = Inr (d\<lparr>d_cout := d_cout d @ [utf8_literal ''Hello World !'']\<rparr>)"
proof -
  note inv = game.reach_inv[OF assms(1)] and cinv = client.reach_inv[OF assms(2)]
  define pkt where "pkt = C_CHAT_new\<lparr>cc_msg := utf8_literal ''Hello World !''\<rparr>"
  note v = client_messages(3)[folded pkt_def] and sz = client_messages(6)[folded pkt_def]
  have s: "send_inv None (d_send c, \<lambda>_. None)" using cinv by (simp add: client_inv_def)
  obtain i s' where m: "MakeSendBuffer C_CHAT_ByteSizeLong (C_CHAT_InternalSerialize L) u pkt PKT_C_CHAT (d_send c) = Inr (i, s')"
    "buffer_bytes s' i = Some (packet_bytes PKT_C_CHAT (C_CHAT_InternalSerialize L pkt))"
    using C_CHAT.make_packet[OF s refl v sz, of L u PKT_C_CHAT] unfolding sized_plain by blast
  define reply where "reply = S_CHAT_new\<lparr>sc_msg := cc_msg pkt\<rparr>"
  have r: "S_CHAT_valid 100 reply" "sc_msg reply = utf8_literal ''Hello World !''"
    using chatPkt_valid[of "cc_msg pkt"] v by (simp_all add: reply_def C_CHAT_valid_def) (simp add: pkt_def)
  have rz: "fst (S_CHAT_ByteSizeLong reply) \<le> 5996"
    by (simp add: reply_def pkt_def size_defs new_defs final_size_def Let_def utf8_literal_def LengthDelimitedSize_venc venc_small max_size_def)
  obtain k w' where a: "OnRecvPacket L t sid (packet_bytes PKT_C_CHAT (C_CHAT_InternalSerialize L pkt) @ [])
      (word_of_nat (length (C_CHAT_InternalSerialize L pkt) + 4)) w = Inr w'"
    "r_jobs (rooms w' 0) = r_jobs (rooms w 0) @ [Broadcast_job k]"
    "buffer_bytes (w_send w') k = Some (packet_bytes PKT_S_CHAT (S_CHAT_InternalSerialize L (snd (S_CHAT_ByteSizeLong reply))))"
    using chat_answer[OF inv v client_bodies(3)[folded pkt_def] rz[unfolded reply_def]] unfolding reply_def by blast
  have "main_chat L u c = Inr (i, c\<lparr>d_send := s'\<rparr>)" using m(1) by (simp add: main_chat_def client_make_defs pkt_def)
  moreover have "Client_OnRecvPacket L v cs (packet_bytes PKT_S_CHAT (S_CHAT_InternalSerialize L (snd (S_CHAT_ByteSizeLong reply))) @ [])
      (word_of_nat (length (S_CHAT_InternalSerialize L (snd (S_CHAT_ByteSizeLong reply))) + 4)) d
      = Inr (d\<lparr>d_cout := d_cout d @ [utf8_literal ''Hello World !'']\<rparr>)"
    using client_chat_packet[OF r(1) rz refl] unfolding r(2) by blast
  ultimately show ?thesis using m(2) a unfolding append_Nil2 length_packet_bytes[symmetric] by force
qed

theorem chat_printed_witness:
  "\<exists>i c' b w' k. main_chat test_env 0 client_start = Inr (i, c') \<and> buffer_bytes (d_send c') i = Some b
    \<and> OnRecvPacket test_env 0 0 b (word_of_nat (length b)) (server_start send_init) = Inr w'
    \<and> r_jobs (rooms w' 0) = [Broadcast_job k]"
proof -
  have "reach (\<lambda>c. c = client_start) (client_step test_env) client_start" by (rule reach_init) simp
  from chat_printed[OF start_reach this, of 0 0 0 0 0 client_start] show ?thesis
    unfolding start_world_simps by (auto simp: new_room_def)
qed

end
