(* ===== verification/Game_Worker.thy ===== *)
theory Game_Worker
  imports Game_Properties Job_Queue_Safety Job_Timer_Safety
begin

text \<open>
  The worker threads of the server (GameServer/GameServer.cpp, ServerCore/ThreadManager.cpp). Each
  runs the loop of DoWorkerJob: it sets its deadline, dispatches a completion, distributes the jobs of
  the timer that are due and executes queues of the global queue until the deadline. The game, the job
  queues of its rooms, the global queue and the job timer are one state here, and the threads
  interleave at every atomic access of Push and Execute, at every job, and inside the handlers that
  call DoAsync, which are cut at that call. What the other threads see of a handler is its part before
  the call, the steps of Push (which may execute the queue at once), and its part after.
\<close>

section \<open>State\<close>

text \<open>What a job does: a member function of a room, or one of main's callbacks that print a line.\<close>

datatype closure = Room_job room_job | Print_line

datatype worker_phase = W_Top | W_Dispatch | W_Timer | W_Global

datatype handler_rest = No_rest | Enter_rest nat | Disconnect_rest nat

record worker_sys =
  wk_jobs :: "closure job_sys"
  wk_timer :: "closure timer_sys"
  wk_world :: world
  LEndTickCount :: "u32 \<Rightarrow> u64"
  wk_phase :: "u32 \<Rightarrow> worker_phase"
  wk_rest :: "u32 \<Rightarrow> handler_rest"

definition WORKER_TICK :: u64 where "WORKER_TICK = 64"

definition idle :: "worker_sys \<Rightarrow> u32 \<Rightarrow> bool" where
  "idle s t \<longleftrightarrow> push_at (wk_jobs s) t = P_None \<and> exec_at (wk_jobs s) t = X_None"

definition wk_ready :: "worker_sys \<Rightarrow> u32 \<Rightarrow> worker_phase \<Rightarrow> bool" where
  "wk_ready s t ph \<longleftrightarrow> idle s t \<and> wk_rest s t = No_rest \<and> wk_phase s t = ph"

definition to_phase :: "u32 \<Rightarrow> worker_phase \<Rightarrow> worker_sys \<Rightarrow> worker_sys" where
  "to_phase t ph s = s\<lparr>wk_phase := (wk_phase s)(t := ph)\<rparr>"

definition set_rest :: "u32 \<Rightarrow> handler_rest \<Rightarrow> worker_sys \<Rightarrow> worker_sys" where
  "set_rest t hr s = s\<lparr>wk_rest := (wk_rest s)(t := hr)\<rparr>"

text \<open>DoAsync makes the job and calls Push with it.\<close>

definition DoAsync :: "u32 \<Rightarrow> nat \<Rightarrow> closure \<Rightarrow> worker_sys \<Rightarrow> worker_sys" where
  "DoAsync t q job s = s\<lparr>wk_jobs := to_push t (P_Add q job False) (wk_jobs s)\<rparr>"

section \<open>The handlers, cut at DoAsync\<close>

definition Enter_before :: "nat \<Rightarrow> C_ENTER_GAME \<Rightarrow> world \<Rightarrow> ((nat \<times> game_player) \<times> world) result" where
  "Enter_before sid pkt w =
     (let index = ce_playerindex pkt; players = gs_players (sessions w sid) in
      if length players \<le> unat index then Inl OutOfBounds
      else
        let player = players ! unat index; w1 = upd_session sid (\<lambda>s. s\<lparr>gs_currentPlayer := Some player\<rparr>) w in
        rbind (GetRoom w1) (\<lambda>r.
        let w2 = upd_session sid (\<lambda>s. s\<lparr>gs_room := Some r\<rparr>) w1 in
        rbind (GetRoom w2) (\<lambda>r'. Inr ((r', player), w2))))"

text \<open>The end of the handler reads the member m_currentPlayer again.\<close>

definition Enter_after :: "wire_env \<Rightarrow> u32 \<Rightarrow> nat \<Rightarrow> world \<Rightarrow> world result" where
  "Enter_after L t sid w =
     (let enterGamePkt = S_ENTER_GAME_new\<lparr>se_success := True\<rparr> in
      rbind (Make_S_ENTER_GAME L (unat t) enterGamePkt w) (\<lambda>(sendBuffer, w1).
        case gs_currentPlayer (sessions w1 sid) of
          None \<Rightarrow> Inl NullDeref
        | Some player \<Rightarrow> Inr (Send_call (g_ownerSession player) sendBuffer w1)))"

definition Chat_before :: "wire_env \<Rightarrow> u32 \<Rightarrow> C_CHAT \<Rightarrow> world \<Rightarrow> ((nat \<times> nat) \<times> world) result" where
  "Chat_before L t pkt w =
     (let chatPkt = S_CHAT_new\<lparr>sc_msg := cc_msg pkt\<rparr> in
      rbind (Make_S_CHAT L (unat t) chatPkt w) (\<lambda>(sendBuffer, w1).
      rbind (GetRoom w1) (\<lambda>r. Inr ((r, sendBuffer), w1))))"

definition Disconnected_before :: "nat \<Rightarrow> world \<Rightarrow> (nat \<times> game_player) option \<times> world" where
  "Disconnected_before sid w =
     (let w1 = SessionManager_Remove sid w; s = sessions w1 sid in
      (case gs_currentPlayer s of
         None \<Rightarrow> None
       | Some player \<Rightarrow> (case gs_room s of None \<Rightarrow> None | Some r \<Rightarrow> Some (r, player)), w1))"

definition Disconnected_after :: "nat \<Rightarrow> world \<Rightarrow> world" where
  "Disconnected_after sid w = upd_session sid (\<lambda>s. s\<lparr>gs_currentPlayer := None, gs_players := []\<rparr>) w"

fun handler_after :: "wire_env \<Rightarrow> u32 \<Rightarrow> handler_rest \<Rightarrow> world \<Rightarrow> world result" where
  "handler_after L t No_rest w = Inr w"
| "handler_after L t (Enter_rest sid) w = Enter_after L t sid w"
| "handler_after L t (Disconnect_rest sid) w = Inr (Disconnected_after sid w)"

section \<open>The loop of a worker\<close>

definition worker_deadline :: "u64 \<Rightarrow> u32 \<Rightarrow> worker_sys \<Rightarrow> worker_sys" where
  "worker_deadline now t s = to_phase t W_Dispatch (s\<lparr>LEndTickCount := (LEndTickCount s)(t := now + WORKER_TICK)\<rparr>)"

definition DistributeReservedJobs :: "u64 \<Rightarrow> u32 \<Rightarrow> worker_sys \<Rightarrow> worker_sys" where
  "DistributeReservedJobs now t s = to_phase t W_Timer (s\<lparr>wk_timer := to_dist t (D_Exchange now) (wk_timer s)\<rparr>)"

text \<open>A step of JobTimer::Distribute; a job it hands to its owner is pushed by this thread.\<close>

definition distribute_turn :: "(nat \<Rightarrow> bool) \<Rightarrow> u32 \<Rightarrow> worker_sys \<Rightarrow> worker_sys" where
  "distribute_turn alive t s =
     (if dist_at (wk_timer s) t = D_None then to_phase t W_Global s
      else
        let tm = Distribute alive (dist_at (wk_timer s) t) t (wk_timer s);
            s' = s\<lparr>wk_timer := tm\<rparr>
        in case drop (length (pushes (wk_timer s))) (pushes tm) of
             [] \<Rightarrow> s'
           | (owner, job) # _ \<Rightarrow> DoAsync t owner job s')"

text \<open>One round of the loop of DoGlobalQueueWork.\<close>

definition DoGlobalQueueWork :: "u64 \<Rightarrow> u32 \<Rightarrow> worker_sys \<Rightarrow> worker_sys" where
  "DoGlobalQueueWork now t s =
     (if LEndTickCount s t < now then to_phase t W_Top s
      else
        let s' = s\<lparr>wk_jobs := GlobalQueueWork t (wk_jobs s)\<rparr> in
        if fst (GlobalQueue_Pop (GGlobalQueue (wk_jobs s))) = None then to_phase t W_Top s' else s')"

text \<open>Execute of a queue: its steps, with what a job does to the game.\<close>

fun run_closure :: "closure exec_pc \<Rightarrow> world \<Rightarrow> world" where
  "run_closure (X_Run r (Room_job job # jobs) n) w = run_job r job w"
| "run_closure pc w = w"

definition execute_turn :: "u64 \<Rightarrow> u32 \<Rightarrow> worker_sys \<Rightarrow> worker_sys" where
  "execute_turn now t s =
     s\<lparr>wk_jobs := JobQueue_Execute (LEndTickCount s t \<le> now) (exec_at (wk_jobs s) t) t (wk_jobs s),
       wk_world := run_closure (exec_at (wk_jobs s) t) (wk_world s)\<rparr>"

definition push_turn :: "u32 \<Rightarrow> worker_sys \<Rightarrow> worker_sys" where
  "push_turn t s = s\<lparr>wk_jobs := JobQueue_Push (push_at (wk_jobs s) t) t (wk_jobs s)\<rparr>"

definition start_disconnected :: "u32 \<Rightarrow> nat \<Rightarrow> worker_sys \<Rightarrow> worker_sys" where
  "start_disconnected t sid s =
     (let (leave, w) = Disconnected_before sid (wk_world s);
          s' = set_rest t (Disconnect_rest sid) (s\<lparr>wk_world := w\<rparr>)
      in case leave of None \<Rightarrow> s' | Some (r, player) \<Rightarrow> DoAsync t r (Room_job (Leave_job player)) s')"

text \<open>main reserves three timers for its room before the workers start.\<close>

definition main_timer :: "u64 \<Rightarrow> u64 \<Rightarrow> u64 \<Rightarrow> closure timer_sys \<Rightarrow> closure timer_sys" where
  "main_timer n1 n2 n3 tm =
     Reserve n3 3000 0 Print_line (Reserve n2 2000 0 Print_line (Reserve n1 1000 0 Print_line tm))"

definition worker_init :: "worker_sys \<Rightarrow> bool" where
  "worker_init s \<longleftrightarrow> job_init (wk_jobs s) \<and> (\<exists>n1 n2 n3 tm. timer_init tm \<and> wk_timer s = main_timer n1 n2 n3 tm)
     \<and> wk_world s = server_start send_init \<and> LEndTickCount s = (\<lambda>_. 0) \<and> wk_phase s = (\<lambda>_. W_Top) \<and> wk_rest s = (\<lambda>_. No_rest)"

text \<open>What thread t does in its loop without a completion: the loop itself, the steps of Push and Execute,
  and the end of a handler. A Push adds to the int32 counter of its queue only below 2^31 - 1; no worker
  calls ClearJobs, so the counter is the number of jobs alive.\<close>

inductive loop_step :: "wire_env \<Rightarrow> u32 \<Rightarrow> worker_sys \<Rightarrow> worker_sys \<Rightarrow> bool" for L t where
  lp_top: "wk_ready s t W_Top \<Longrightarrow> loop_step L t s (worker_deadline now t s)"
| lp_after: "idle s t \<Longrightarrow> handler_after L t (wk_rest s t) (wk_world s) = Inr w \<Longrightarrow>
    loop_step L t s (set_rest t No_rest (s\<lparr>wk_world := w\<rparr>))"
| lp_timer_begin: "wk_ready s t W_Dispatch \<Longrightarrow> loop_step L t s (DistributeReservedJobs now t s)"
| lp_distribute: "wk_ready s t W_Timer \<Longrightarrow> loop_step L t s (distribute_turn alive t s)"
| lp_global: "wk_ready s t W_Global \<Longrightarrow> loop_step L t s (DoGlobalQueueWork now t s)"
| lp_push: "push_at (wk_jobs s) t \<noteq> P_None \<Longrightarrow> push_room (push_at (wk_jobs s) t) (wk_jobs s) \<Longrightarrow> loop_step L t s (push_turn t s)"
| lp_execute: "push_at (wk_jobs s) t = P_None \<Longrightarrow> exec_at (wk_jobs s) t \<noteq> X_None \<Longrightarrow>
    loop_step L t s (execute_turn now t s)"

text \<open>Or it dispatches the completion of an accept or of a disconnect, or a packet of a receive.\<close>

inductive worker_step :: "wire_env \<Rightarrow> worker_sys \<Rightarrow> worker_sys \<Rightarrow> bool" for L where
  wk_loop: "loop_step L t s s' \<Longrightarrow> worker_step L s s'"
| wk_connected: "wk_ready s t W_Dispatch \<Longrightarrow> worker_step L s (s\<lparr>wk_world := OnConnected sid (wk_world s)\<rparr>)"
| wk_login: "wk_ready s t W_Dispatch \<Longrightarrow> Handle_C_LOGIN L (unat t) sid lpkt (wk_world s) = Inr (b, w) \<Longrightarrow>
    worker_step L s (s\<lparr>wk_world := w\<rparr>)"
| wk_enter: "wk_ready s t W_Dispatch \<Longrightarrow> Enter_before sid epkt (wk_world s) = Inr ((r, player), w) \<Longrightarrow>
    worker_step L s (DoAsync t r (Room_job (Enter_job player)) (set_rest t (Enter_rest sid) (s\<lparr>wk_world := w\<rparr>)))"
| wk_chat: "wk_ready s t W_Dispatch \<Longrightarrow> Chat_before L t cpkt (wk_world s) = Inr ((r, sendBuffer), w) \<Longrightarrow>
    worker_step L s (DoAsync t r (Room_job (Broadcast_job sendBuffer)) (s\<lparr>wk_world := w\<rparr>))"
| wk_disconnected: "wk_ready s t W_Dispatch \<Longrightarrow> worker_step L s (start_disconnected t sid s)"

lemmas wk_top = wk_loop[OF lp_top]
lemmas wk_after = wk_loop[OF lp_after]
lemmas wk_timer_begin = wk_loop[OF lp_timer_begin]
lemmas wk_push = wk_loop[OF lp_push]
lemmas wk_execute = wk_loop[OF lp_execute]

section \<open>The parts are the handlers\<close>

lemma Enter_parts:
  "Handle_C_ENTER_GAME L (unat t) sid pkt w =
     rbind (Enter_before sid pkt w) (\<lambda>((r, player), w1).
       rbind (Enter_after L t sid (Room_DoAsync r (Enter_job player) w1)) (\<lambda>w2. Inr (True, w2)))"
proof -
  have "rbind (Make_S_ENTER_GAME L (unat t) pkt' w1) (\<lambda>(b, w2). Inr (True, Send_call (g_ownerSession p) b w2))
    = rbind (rbind (Make_S_ENTER_GAME L (unat t) pkt' w1) (\<lambda>(b, w2).
        case gs_currentPlayer (sessions w2 sid) of None \<Rightarrow> Inl NullDeref
        | Some player \<Rightarrow> Inr (Send_call (g_ownerSession player) b w2))) (\<lambda>w2. Inr (True, w2))"
    if "gs_currentPlayer (sessions w1 sid) = Some p" for p w1 pkt'
    using that by (auto simp: make_defs with_buffer_def rbind_def split: sum.splits)
  then show ?thesis
    by (auto simp: Handle_C_ENTER_GAME_def Enter_before_def Enter_after_def Let_def upd_session_def GetRoom_def
        Room_DoAsync_def upd_room_def split: list.splits)
qed

lemma Chat_parts:
  "Handle_C_CHAT L (unat t) sid pkt w =
     rbind (Chat_before L t pkt w) (\<lambda>((r, b), w1). Inr (True, Room_DoAsync r (Broadcast_job b) w1))"
  by (auto simp: Handle_C_CHAT_def Chat_before_def Let_def rbind_def split: sum.splits)

lemma Disconnected_parts:
  "OnDisconnected sid w = (case Disconnected_before sid w of
     (None, w1) \<Rightarrow> Disconnected_after sid w1
   | (Some (r, player), w1) \<Rightarrow> Disconnected_after sid (Room_DoAsync r (Leave_job player) w1))"
  by (simp add: OnDisconnected_def Disconnected_before_def Disconnected_after_def Let_def split: option.split)

end
