(* ===== verification/Game_Traffic.thy ===== *)
theory Game_Traffic
  imports Game_Worker Session_Recv
begin

text \<open>
  The traffic of the clients through the worker threads: the receive path of the sessions
  (ServerCore/Session.cpp) and the loop of the workers (GameServer/GameServer.cpp) in one machine, from
  the bytes that arrive to the jobs of the rooms. A completed receive is dispatched by any worker; its
  loop over the packets stops at every packet, inside every handler at DoAsync, and at every step of
  Push and Execute, while the other workers go on. The set of the service and the accept events are in
  Net_Service, the send path in Session_Send: here a send that fails is a disconnect at any time.
\<close>

section \<open>ProcessRecv, cut at OnRecv\<close>

datatype recv_cut = Recv_ends session | Recv_packets session "byte list" int

definition Recv_before :: "io_answer \<Rightarrow> int \<Rightarrow> session \<Rightarrow> recv_cut result" where
  "Recv_before dio numOfBytes s =
     (let s0 = s\<lparr>m_recvEvent := False\<rparr> in
      if numOfBytes = 0 then Inr (Recv_ends (Session_IO.Disconnect dio s0))
      else
        let (written, b1) = OnWrite numOfBytes (m_recvBuffer s0); s1 = s0\<lparr>m_recvBuffer := b1\<rparr> in
        if \<not> written then Inr (Recv_ends (Session_IO.Disconnect dio s1))
        else rbind (ReadPos b1) (\<lambda>pos.
          Inr (Recv_packets s1 (slice pos (nat (DataSize b1)) (m_buffer b1)) (DataSize b1))))"

definition Recv_after :: "io_answer \<Rightarrow> io_answer \<Rightarrow> int \<Rightarrow> int \<Rightarrow> session \<Rightarrow> session result" where
  "Recv_after io dio dataSize processLen s =
     (if processLen < 0 \<or> dataSize < processLen then Inr (Session_IO.Disconnect dio s)
      else
        let (read, b2) = OnRead processLen (m_recvBuffer s); s2 = s\<lparr>m_recvBuffer := b2\<rparr> in
        if \<not> read then Inr (Session_IO.Disconnect dio s2)
        else rbind (Clean b2) (\<lambda>b3. RegisterRecv io dio (s2\<lparr>m_recvBuffer := b3\<rparr>)))"

lemma Recv_parts:
  "ProcessRecv cb io dio n s app =
     (case Recv_before dio n s of
        Inl e \<Rightarrow> Some (Inl e)
      | Inr (Recv_ends s') \<Rightarrow> Some (Inr (s', app))
      | Inr (Recv_packets s1 buffer dataSize) \<Rightarrow>
          (case OnRecv cb buffer dataSize app of
             None \<Rightarrow> None
           | Some (Inl e) \<Rightarrow> Some (Inl e)
           | Some (Inr (processLen, app')) \<Rightarrow>
               Some (rbind (Recv_after io dio dataSize processLen s1) (\<lambda>s'. Inr (s', app')))))"
  by (auto simp: ProcessRecv_def Recv_before_def Recv_after_def Let_def rbind_assoc rbind_def
      split: prod.split option.split sum.split)

section \<open>A packet, up to DoAsync\<close>

definition Login_start :: "wire_env \<Rightarrow> u32 \<Rightarrow> nat \<Rightarrow> C_LOGIN \<Rightarrow> worker_sys \<Rightarrow> (bool \<times> worker_sys) result" where
  "Login_start L t sid pkt s =
     rbind (Handle_C_LOGIN L (unat t) sid pkt (wk_world s)) (\<lambda>(b, w). Inr (b, s\<lparr>wk_world := w\<rparr>))"

definition Enter_start :: "u32 \<Rightarrow> nat \<Rightarrow> C_ENTER_GAME \<Rightarrow> worker_sys \<Rightarrow> (bool \<times> worker_sys) result" where
  "Enter_start t sid pkt s =
     rbind (Enter_before sid pkt (wk_world s)) (\<lambda>((r, player), w).
       Inr (True, DoAsync t r (Room_job (Enter_job player)) (set_rest t (Enter_rest sid) (s\<lparr>wk_world := w\<rparr>))))"

definition Chat_start :: "wire_env \<Rightarrow> u32 \<Rightarrow> C_CHAT \<Rightarrow> worker_sys \<Rightarrow> (bool \<times> worker_sys) result" where
  "Chat_start L t pkt s =
     rbind (Chat_before L t pkt (wk_world s)) (\<lambda>((r, sendBuffer), w).
       Inr (True, DoAsync t r (Room_job (Broadcast_job sendBuffer)) (s\<lparr>wk_world := w\<rparr>)))"

definition worker_entries :: "wire_env \<Rightarrow> u32 \<Rightarrow> nat \<Rightarrow> (u16 \<times> worker_sys handler) list" where
  "worker_entries L t sid =
     [(PKT_C_LOGIN, HandlePacket_as (C_LOGIN_InternalParse L) C_LOGIN_Clear C_LOGIN_new (Login_start L t sid)),
      (PKT_C_ENTER_GAME,
        HandlePacket_as (C_ENTER_GAME_InternalParse L) C_ENTER_GAME_Clear C_ENTER_GAME_new (Enter_start t sid)),
      (PKT_C_CHAT, HandlePacket_as (C_CHAT_InternalParse L) C_CHAT_Clear C_CHAT_new (Chat_start L t))]"

definition packet_start :: "wire_env \<Rightarrow> u32 \<Rightarrow> nat \<Rightarrow> worker_sys packet_callback" where
  "packet_start L t sid buffer len s =
     rbind (HandlePacket (Handler_Init (worker_entries L t sid)) buffer (int (unat len)) s) (\<lambda>(_, s'). Inr s')"

section \<open>State\<close>

text \<open>Where a worker is in Dispatch: not there yet in this round, inside OnRecv of a session with the
  bytes it was given, their number and processLen, or done.\<close>

datatype dispatch_pc = C_None | C_Recv nat "byte list" int int | C_Done

text \<open>The last three fields only record what happened: the bytes received from each session, the packets
  handled with the job each asked for, and the jobs of each room with the session whose packet it was.\<close>

type_synonym packet_entry = "nat \<times> byte list \<times> (nat \<times> closure) option"

record traffic =
  tr_work :: worker_sys
  tr_sess :: "nat \<Rightarrow> session"
  tr_next :: nat
  tr_at :: "u32 \<Rightarrow> dispatch_pc"
  tr_stream :: "nat \<Rightarrow> byte list"
  tr_log :: "packet_entry list"
  tr_pushed :: "nat \<Rightarrow> (nat option \<times> closure) list"

definition tr_session :: "nat \<Rightarrow> session \<Rightarrow> traffic \<Rightarrow> traffic" where
  "tr_session sid s x = x\<lparr>tr_sess := (tr_sess x)(sid := s)\<rparr>"

definition tr_to :: "u32 \<Rightarrow> dispatch_pc \<Rightarrow> traffic \<Rightarrow> traffic" where
  "tr_to t pc x = x\<lparr>tr_at := (tr_at x)(t := pc)\<rparr>"

fun recv_session :: "dispatch_pc \<Rightarrow> nat option" where
  "recv_session (C_Recv sid buffer len processLen) = Some sid"
| "recv_session pc = None"

section \<open>Steps\<close>

definition recv_begin :: "u32 \<Rightarrow> nat \<Rightarrow> byte list \<Rightarrow> recv_cut \<Rightarrow> traffic \<Rightarrow> traffic" where
  "recv_begin t sid bs c x =
     (let y = x\<lparr>tr_stream := (tr_stream x)(sid := tr_stream x sid @ bs)\<rparr> in
      case c of
        Recv_ends s \<Rightarrow> tr_to t C_Done (tr_session sid s y)
      | Recv_packets s buffer dataSize \<Rightarrow> tr_to t (C_Recv sid buffer dataSize 0) (tr_session sid s y))"

text \<open>One round of the loop of OnRecv; at its end the rest of ProcessRecv.\<close>

definition asked_job :: "u32 \<Rightarrow> worker_sys \<Rightarrow> (nat \<times> closure) option" where
  "asked_job t s = (case push_at (wk_jobs s) t of P_Add r job pushOnly \<Rightarrow> Some (r, job) | _ \<Rightarrow> None)"

definition recv_turn :: "wire_env \<Rightarrow> io_answer \<Rightarrow> io_answer \<Rightarrow> u32 \<Rightarrow> traffic \<Rightarrow> traffic result" where
  "recv_turn L io dio t x =
     (case tr_at x t of
        C_Recv sid buffer len processLen \<Rightarrow>
          let dataSize = len - processLen; here = drop (nat processLen) buffer; header = read_header here in
          if to_size_t dataSize < int sizeof_PacketHeader \<or> dataSize < uint (hd_size header)
          then rbind (Recv_after io dio len processLen (tr_sess x sid)) (\<lambda>s. Inr (tr_to t C_Done (tr_session sid s x)))
          else rbind (packet_start L t sid here (hd_size header) (tr_work x)) (\<lambda>s.
            Inr (tr_to t (C_Recv sid buffer len (processLen + uint (hd_size header)))
              (x\<lparr>tr_work := s, tr_log := tr_log x @ [(sid, take (unat (hd_size header)) here, asked_job t s)]\<rparr>)))
      | _ \<Rightarrow> Inr x)"

text \<open>A step of the worker's loop. Leaving W_Dispatch ends the dispatch of the round.\<close>

definition loop_turn :: "u32 \<Rightarrow> worker_sys \<Rightarrow> traffic \<Rightarrow> traffic" where
  "loop_turn t s x =
     (let tag = recv_session (tr_at x t);
          new = (\<lambda>r. drop (length (pushed (wk_jobs (tr_work x)) r)) (pushed (wk_jobs s) r)) in
      (if wk_phase s t = W_Dispatch then x else tr_to t C_None x)
        \<lparr>tr_work := s, tr_pushed := (\<lambda>r. tr_pushed x r @ map (Pair tag) (new r))\<rparr>)"

definition traffic_init :: "traffic \<Rightarrow> bool" where
  "traffic_init x \<longleftrightarrow> worker_init (tr_work x) \<and> (\<exists>s. new_session = Inr s \<and> tr_sess x = (\<lambda>_. s)) \<and> tr_next x = 0
     \<and> tr_at x = (\<lambda>_. C_None) \<and> tr_stream x = (\<lambda>_. []) \<and> tr_log x = [] \<and> tr_pushed x = (\<lambda>_. [])"

definition dispatching :: "traffic \<Rightarrow> u32 \<Rightarrow> bool" where
  "dispatching x t \<longleftrightarrow> wk_ready (tr_work x) t W_Dispatch \<and> tr_at x t = C_None"

inductive traffic_step :: "wire_env \<Rightarrow> traffic \<Rightarrow> traffic \<Rightarrow> bool" for L where
  tr_accept: "dispatching x t \<Longrightarrow> new_session = Inr s \<Longrightarrow>
     ProcessConnect (\<lambda>_ w. Inr (OnConnected (tr_next x) w)) io dio s (wk_world (tr_work x)) = Inr (s', w) \<Longrightarrow>
     traffic_step L x (tr_to t C_Done (tr_session (tr_next x) s'
       (x\<lparr>tr_next := tr_next x + 1, tr_work := (tr_work x)\<lparr>wk_world := w\<rparr>\<rparr>)))"
| tr_receive: "dispatching x t \<Longrightarrow> m_recvEvent (tr_sess x sid) \<Longrightarrow>
     int (length bs) \<le> FreeSize (m_recvBuffer (tr_sess x sid)) \<Longrightarrow>
     Recv_before dio (int (length bs)) (recv_store bs (tr_sess x sid)) = Inr c \<Longrightarrow>
     traffic_step L x (recv_begin t sid bs c x)"
| tr_packet: "wk_ready (tr_work x) t W_Dispatch \<Longrightarrow> recv_turn L io dio t x = Inr y \<Longrightarrow> traffic_step L x y"
| tr_send_failed: "traffic_step L x (tr_session sid (Session_IO.Disconnect dio (tr_sess x sid)) x)"
| tr_disconnected: "dispatching x t \<Longrightarrow> m_disconnectEvent (tr_sess x sid) \<Longrightarrow>
     traffic_step L x (tr_to t C_Done (tr_session sid ((tr_sess x sid)\<lparr>m_disconnectEvent := False\<rparr>)
       (x\<lparr>tr_work := start_disconnected t sid (tr_work x)\<rparr>)))"
| tr_loop: "loop_step L t (tr_work x) s \<Longrightarrow>
     (wk_ready (tr_work x) t W_Dispatch \<longrightarrow> recv_session (tr_at x t) = None) \<Longrightarrow> traffic_step L x (loop_turn t s x)"

end
