(* ===== verification/Game_Worker_Safety.thy ===== *)
theory Game_Worker_Safety
  imports Game_Worker "HOL-Library.Sublist"
begin

text \<open>
  What the worker threads do together: the job queues and the timer inside the server are runs of
  their own machines, a room is what its jobs make of it one after the other although it has no lock,
  and everybody in a room hears its broadcasts in the same order. Then what the threads can do to a
  session whose handler is still running.
\<close>

section \<open>The components inside the server\<close>

lemma leaked_push: "leaked (JobQueue_Push pc t s) = leaked s"
  by (cases pc) (simp_all add: job_defs Execute_begin_def Let_def)

lemma leaked_execute: "leaked (JobQueue_Execute late pc t s) = leaked s"
  by (cases "(late, pc, t, s)" rule: JobQueue_Execute.cases) (simp_all add: job_defs Let_def split: prod.split)

lemma leaked_global: "leaked (GlobalQueueWork t s) = leaked s"
  by (simp add: GlobalQueueWork_def job_defs Execute_begin_def split: prod.split option.split)

lemma executed_push: "executed (JobQueue_Push pc t s) = executed s"
  by (cases pc) (simp_all add: job_defs Execute_begin_def Let_def)

lemma executed_global: "executed (GlobalQueueWork t s) = executed s"
  by (simp add: GlobalQueueWork_def job_defs Execute_begin_def split: prod.split option.split)

fun job_run :: "'j exec_pc \<Rightarrow> nat \<Rightarrow> 'j list" where
  "job_run (X_Run q (job # jobs) n) r = (if r = q then [job] else [])"
| "job_run pc r = []"

lemma executed_execute: "executed (JobQueue_Execute late pc t s) r = executed s r @ job_run pc r"
  by (cases "(late, pc, t, s)" rule: JobQueue_Execute.cases) (simp_all add: job_defs Let_def split: prod.split)

text \<open>A job as a function on the players of its room.\<close>

fun room_apply :: "(u64 \<times> game_player) list \<Rightarrow> closure \<Rightarrow> (u64 \<times> game_player) list" where
  "room_apply ps (Room_job (Enter_job p)) = map_assign (g_playerId p) p ps"
| "room_apply ps (Room_job (Leave_job p)) = map_erase (g_playerId p) ps"
| "room_apply ps (Room_job (Broadcast_job b)) = ps"
| "room_apply ps Print_line = ps"

definition players_of :: "worker_sys \<Rightarrow> nat \<Rightarrow> (u64 \<times> game_player) list" where
  "players_of s r = r_players (rooms (wk_world s) r)"

lemma room_apply_sorted: "keys_sorted ps \<Longrightarrow> keys_sorted (room_apply ps c)"
  by (cases "(ps, c)" rule: room_apply.cases) (simp_all add: map_assign_sorted map_erase_sorted)

lemma players_run_closure:
  "r_players (rooms (run_closure pc w) r) = foldl room_apply (r_players (rooms w r)) (job_run pc r)"
proof (cases "(pc, w)" rule: run_closure.cases)
  case (1 q job jobs n w')
  then show ?thesis by (cases job) (simp_all add: Room_Enter_def Room_Leave_def Room_Broadcast_eq upd_room_def)
qed simp_all

section \<open>What the parts of the handlers leave alone\<close>

lemma rooms_Enter_before: "Enter_before sid pkt w = Inr (x, w') \<Longrightarrow> rooms w' = rooms w \<and> sends w' = sends w"
  by (auto simp: Enter_before_def Let_def rbind_eq_Inr upd_session_def split: if_splits)

lemma rooms_Chat_before: "Chat_before L t pkt w = Inr (x, w') \<Longrightarrow> rooms w' = rooms w \<and> sends w' = sends w"
  by (auto simp: Chat_before_def Let_def rbind_eq_Inr make_defs with_buffer_Inr)

lemma rooms_Enter_after:
  "Enter_after L t sid w = Inr w' \<Longrightarrow> rooms w' = rooms w \<and> (\<exists>b. sends w' = sends w @ b)"
  by (auto simp: Enter_after_def Let_def rbind_eq_Inr make_defs with_buffer_Inr Send_call_def split: option.splits)

lemma rooms_after:
  "handler_after L t hr w = Inr w' \<Longrightarrow> rooms w' = rooms w \<and> (\<exists>b. sends w' = sends w @ b)"
  by (cases hr) (auto simp: Disconnected_after_def upd_session_def dest: rooms_Enter_after)

lemma rooms_login:
  "Handle_C_LOGIN L t sid pkt w = Inr (b, w') \<Longrightarrow> rooms w' = rooms w \<and> (\<exists>b. sends w' = sends w @ b)"
  using Handle_C_LOGIN_Inr[of L t sid pkt w b w'] by (auto simp: Send_call_def login_world_simps)

lemma rooms_Disconnected_before:
  "Disconnected_before sid w = (x, w') \<Longrightarrow> rooms w' = rooms w \<and> sends w' = sends w"
  by (auto simp: Disconnected_before_def Let_def SessionManager_Remove_def)

section \<open>One step of a worker\<close>

text \<open>
  Either a thread executes a step of a queue and the game changes by the job it runs, or no job runs,
  the rooms stay as they are and calls of Send are added.
\<close>

definition room_step :: "worker_sys \<Rightarrow> worker_sys \<Rightarrow> bool" where
  "room_step s s' \<longleftrightarrow> (\<exists>pc. (\<forall>r. executed (wk_jobs s') r = executed (wk_jobs s) r @ job_run pc r)
       \<and> wk_world s' = run_closure pc (wk_world s))
     \<or> executed (wk_jobs s') = executed (wk_jobs s) \<and> rooms (wk_world s') = rooms (wk_world s)
       \<and> (\<exists>b. sends (wk_world s') = sends (wk_world s) @ b)"

definition part_step :: "worker_sys \<Rightarrow> worker_sys \<Rightarrow> bool" where
  "part_step s s' \<longleftrightarrow> (job_step True)\<^sup>*\<^sup>* (wk_jobs s) (wk_jobs s') \<and> timer_step\<^sup>*\<^sup>* (wk_timer s) (wk_timer s')
     \<and> leaked (wk_jobs s') = leaked (wk_jobs s) \<and> room_step s s'"

lemmas worker_defs = worker_deadline_def DistributeReservedJobs_def to_phase_def set_rest_def push_turn_def execute_turn_def
  DoAsync_def

lemma part_step_world:
  assumes "wk_jobs s' = wk_jobs s" "wk_timer s' = wk_timer s" "rooms (wk_world s') = rooms (wk_world s)"
    "\<exists>b. sends (wk_world s') = sends (wk_world s) @ b"
  shows "part_step s s'"
  using assms by (simp add: part_step_def room_step_def)

lemma part_step_DoAsync:
  assumes "part_step s s'" "wk_jobs s' = wk_jobs s" "idle s t"
  shows "part_step s (DoAsync t q job s')"
proof -
  have "job_step True (wk_jobs s) (to_push t (P_Add q job False) (wk_jobs s))"
    using assms(3) by (intro call_push) (simp_all add: idle_def in_job_def)
  moreover have "executed (to_push t (P_Add q job False) (wk_jobs s)) = executed (wk_jobs s)"
    "leaked (to_push t (P_Add q job False) (wk_jobs s)) = leaked (wk_jobs s)" by (simp_all add: job_defs)
  ultimately show ?thesis using assms(1,2) by (auto simp: part_step_def room_step_def DoAsync_def)
qed

lemma part_step_jobs:
  assumes "job_step True (wk_jobs s) (wk_jobs s')" "wk_timer s' = wk_timer s" "wk_world s' = wk_world s"
    "leaked (wk_jobs s') = leaked (wk_jobs s)" "executed (wk_jobs s') = executed (wk_jobs s)"
  shows "part_step s s'"
  using assms by (auto simp: part_step_def room_step_def)

lemma part_step_distribute:
  assumes "wk_ready s t W_Timer"
  shows "part_step s (distribute_turn alive t s)"
proof (cases "dist_at (wk_timer s) t = D_None")
  case True
  then show ?thesis by (intro part_step_world) (simp_all add: distribute_turn_def to_phase_def)
next
  case False
  let ?tm = "Distribute alive (dist_at (wk_timer s) t) t (wk_timer s)"
  have "timer_step (wk_timer s) ?tm" by (rule timer_step.distribute)
  then have tm: "part_step s (s\<lparr>wk_timer := ?tm\<rparr>)" by (auto simp: part_step_def room_step_def)
  show ?thesis
  proof (cases "drop (length (pushes (wk_timer s))) (pushes ?tm)")
    case Nil
    then show ?thesis using False tm by (simp add: distribute_turn_def Let_def)
  next
    case (Cons x xs)
    then show ?thesis using False part_step_DoAsync[OF tm] assms
      by (cases x) (simp add: distribute_turn_def Let_def wk_ready_def)
  qed
qed

lemma part_step_global:
  assumes "wk_ready s t W_Global"
  shows "part_step s (DoGlobalQueueWork now t s)"
proof (cases "LEndTickCount s t < now")
  case True
  then show ?thesis by (intro part_step_world) (simp_all add: DoGlobalQueueWork_def to_phase_def)
next
  case False
  have "job_step True (wk_jobs s) (GlobalQueueWork t (wk_jobs s))"
    using assms by (intro global_work) (simp_all add: wk_ready_def idle_def)
  then show ?thesis
    using False by (intro part_step_jobs)
      (simp_all add: DoGlobalQueueWork_def Let_def to_phase_def leaked_global executed_global)
qed

lemma part_step_disconnected:
  assumes "wk_ready s t W_Dispatch"
  shows "part_step s (start_disconnected t sid s)"
proof -
  obtain x w where x: "Disconnected_before sid (wk_world s) = (x, w)" by (cases "Disconnected_before sid (wk_world s)")
  let ?s = "set_rest t (Disconnect_rest sid) (s\<lparr>wk_world := w\<rparr>)"
  have p: "part_step s ?s"
    using rooms_Disconnected_before[OF x] by (intro part_step_world) (simp_all add: set_rest_def)
  show ?thesis
  proof (cases x)
    case None
    then show ?thesis using p by (simp add: start_disconnected_def x)
  next
    case (Some y)
    have "part_step s (DoAsync t (fst y) (Room_job (Leave_job (snd y))) ?s)"
      using assms by (intro part_step_DoAsync[OF p]) (simp_all add: set_rest_def wk_ready_def)
    then show ?thesis by (cases y) (simp add: start_disconnected_def x Some)
  qed
qed

text \<open>A thread is inside Distribute only while it distributes.\<close>

definition timers_at_rest :: "worker_sys \<Rightarrow> bool" where
  "timers_at_rest s \<longleftrightarrow> (\<forall>t. wk_phase s t \<noteq> W_Timer \<longrightarrow> dist_at (wk_timer s) t = D_None)"

lemma dist_at_Distribute:
  assumes "u \<noteq> t"
  shows "dist_at (Distribute alive pc t s) u = dist_at s u"
proof -
  have push: "dist_at s' = dist_at s" if "push_item alive item s = Inr s'" for item s'
    using that by (auto simp: push_item_def delete_data_def split: option.splits if_splits)
  show ?thesis
    using assms by (cases "(alive, pc, t, s)" rule: Distribute.cases)
      (auto simp: to_dist_def Let_def push split: prod.split sum.split)
qed

lemma rest_DoAsync: "timers_at_rest (DoAsync t q job s) = timers_at_rest s"
  by (simp add: timers_at_rest_def DoAsync_def)

lemma rest_keep: "timers_at_rest s \<Longrightarrow> wk_timer s' = wk_timer s \<Longrightarrow>
    (\<And>u. wk_phase s' u = wk_phase s u \<or> dist_at (wk_timer s) u = D_None \<or> wk_phase s' u = W_Timer) \<Longrightarrow> timers_at_rest s'"
  unfolding timers_at_rest_def by metis

lemma rest_distribute:
  assumes "timers_at_rest s" and "wk_phase s t = W_Timer"
  shows "timers_at_rest (distribute_turn alive t s)"
proof (cases "dist_at (wk_timer s) t = D_None")
  case True
  then show ?thesis using assms(1) by (simp add: distribute_turn_def to_phase_def timers_at_rest_def)
next
  case False
  let ?s = "s\<lparr>wk_timer := Distribute alive (dist_at (wk_timer s) t) t (wk_timer s)\<rparr>"
  have "timers_at_rest ?s"
    unfolding timers_at_rest_def
  proof (intro allI impI)
    fix u assume u: "wk_phase ?s u \<noteq> W_Timer"
    then have "u \<noteq> t" using assms(2) by auto
    then show "dist_at (wk_timer ?s) u = D_None"
      using u assms(1) by (simp add: dist_at_Distribute timers_at_rest_def)
  qed
  then show ?thesis
    using False rest_DoAsync by (auto simp: distribute_turn_def Let_def split: list.split)
qed

lemma rest_disconnected: "timers_at_rest s \<Longrightarrow> timers_at_rest (start_disconnected t sid s)"
  by (auto simp: start_disconnected_def DoAsync_def set_rest_def timers_at_rest_def Let_def split: prod.split option.split)

lemma loop_rest: "loop_step L t s s' \<Longrightarrow> timers_at_rest s \<Longrightarrow> timers_at_rest s'"
proof (induction rule: loop_step.induct)
  case (lp_distribute s alive)
  then show ?case by (simp add: rest_distribute wk_ready_def)
next
  case (lp_timer_begin s now)
  then show ?case by (auto simp: timers_at_rest_def DistributeReservedJobs_def to_phase_def to_dist_def)
next
  case (lp_global s now)
  then show ?case
    by (auto simp: timers_at_rest_def DoGlobalQueueWork_def Let_def to_phase_def wk_ready_def)
qed (auto simp: timers_at_rest_def worker_deadline_def to_phase_def set_rest_def push_turn_def execute_turn_def wk_ready_def)

lemma worker_rest: "worker_step L s s' \<Longrightarrow> timers_at_rest s \<Longrightarrow> timers_at_rest s'"
proof (induction rule: worker_step.induct)
  case (wk_disconnected s t sid)
  then show ?case by (simp add: rest_disconnected)
next
  case (wk_loop t s s')
  then show ?case by (rule loop_rest)
qed (auto simp: DoAsync_def timers_at_rest_def set_rest_def)

lemma loop_part_step: "loop_step L t s s' \<Longrightarrow> timers_at_rest s \<Longrightarrow> part_step s s'"
proof (induction rule: loop_step.induct)
  case (lp_timer_begin s now)
  then have "timer_step (wk_timer s) (to_dist t (D_Exchange now) (wk_timer s))"
    by (intro timer_step.start) (simp add: timers_at_rest_def wk_ready_def)
  then show ?case by (auto simp: part_step_def room_step_def DistributeReservedJobs_def to_phase_def)
next
  case (lp_push s)
  then show ?case
    using job_step.push[of "wk_jobs s" t True] by (intro part_step_jobs) (simp_all add: push_turn_def leaked_push executed_push)
next
  case (lp_execute s now)
  let ?late = "LEndTickCount s t \<le> now"
  have "job_step True (wk_jobs s) (JobQueue_Execute ?late (exec_at (wk_jobs s) t) t (wk_jobs s))"
    using lp_execute(1,2) by (rule job_step.execute)
  then show ?case
    by (auto simp: part_step_def room_step_def execute_turn_def leaked_execute executed_execute)
qed (auto intro!: part_step_world part_step_distribute part_step_global simp: worker_defs dest: rooms_after)

lemma worker_part_step: "worker_step L s s' \<Longrightarrow> timers_at_rest s \<Longrightarrow> part_step s s'"
proof (induction rule: worker_step.induct)
  case (wk_enter s t sid epkt r player w)
  have "part_step s (set_rest t (Enter_rest sid) (s\<lparr>wk_world := w\<rparr>))"
    using rooms_Enter_before[OF wk_enter(2)] by (intro part_step_world) (simp_all add: set_rest_def)
  then show ?case using wk_enter(1) by (intro part_step_DoAsync) (simp_all add: set_rest_def wk_ready_def)
next
  case (wk_chat s t cpkt r b w)
  have "part_step s (s\<lparr>wk_world := w\<rparr>)" using rooms_Chat_before[OF wk_chat(2)] by (intro part_step_world) simp_all
  then show ?case using wk_chat(1) by (intro part_step_DoAsync) (simp_all add: wk_ready_def)
next
  case (wk_loop t s s')
  then show ?case by (rule loop_part_step)
qed (auto intro!: part_step_world part_step_disconnected
      simp: OnConnected_def SessionManager_Add_def dest: rooms_login)

section \<open>The invariant\<close>

definition worker_inv :: "worker_sys \<Rightarrow> bool" where
  "worker_inv s \<longleftrightarrow> reach job_init (job_step True) (wk_jobs s) \<and> reach timer_init timer_step (wk_timer s)
     \<and> leaked (wk_jobs s) = (\<lambda>_. 0) \<and> timers_at_rest s
     \<and> (\<forall>r. players_of s r = foldl room_apply [] (executed (wk_jobs s) r) \<and> keys_sorted (players_of s r))"

lemma worker_invD:
  assumes "worker_inv s"
  shows "reach job_init (job_step True) (wk_jobs s)" "reach timer_init timer_step (wk_timer s)"
    "leaked (wk_jobs s) = (\<lambda>_. 0)" "timers_at_rest s"
    "players_of s r = foldl room_apply [] (executed (wk_jobs s) r)" "keys_sorted (players_of s r)"
  using assms unfolding worker_inv_def by blast+

lemma foldl_room_sorted: "keys_sorted ps \<Longrightarrow> keys_sorted (foldl room_apply ps js)"
  by (induction js arbitrary: ps) (simp_all add: room_apply_sorted)

lemma room_step_players:
  assumes "room_step s s'"
  shows "\<exists>js. executed (wk_jobs s') r = executed (wk_jobs s) r @ js \<and> players_of s' r = foldl room_apply (players_of s r) js"
  using assms unfolding room_step_def
proof
  assume "\<exists>pc. (\<forall>r. executed (wk_jobs s') r = executed (wk_jobs s) r @ job_run pc r) \<and> wk_world s' = run_closure pc (wk_world s)"
  then show ?thesis by (auto simp: players_of_def players_run_closure)
qed (auto simp: players_of_def)

lemma worker_inv_step:
  assumes "worker_inv s" and "worker_step L s s'"
  shows "worker_inv s'"
proof -
  note D = worker_invD[OF assms(1)]
  note p = worker_part_step[OF assms(2) D(4)]
  have "players_of s' r = foldl room_apply [] (executed (wk_jobs s') r) \<and> keys_sorted (players_of s' r)" for r
  proof -
    obtain js where js: "executed (wk_jobs s') r = executed (wk_jobs s) r @ js"
      "players_of s' r = foldl room_apply (players_of s r) js"
      using room_step_players p unfolding part_step_def by blast
    then show ?thesis using D(5,6)[of r] by (metis foldl_append foldl_room_sorted)
  qed
  then show ?thesis
    using p reach_run D(1-3) worker_rest[OF assms(2) D(4)] unfolding worker_inv_def part_step_def by metis
qed

lemma worker_init_inv: "worker_init s \<Longrightarrow> worker_inv s"
proof -
  assume i: "worker_init s"
  then obtain n1 n2 n3 tm where tm: "timer_init tm" "wk_timer s = main_timer n1 n2 n3 tm" by (auto simp: worker_init_def)
  have r0: "reach timer_init timer_step tm" by (rule reach_init) (rule tm)
  have r1: "reach timer_init timer_step (Reserve n1 1000 0 Print_line tm)" by (rule reach_step[OF r0 reserve])
  have r2: "reach timer_init timer_step (Reserve n2 2000 0 Print_line (Reserve n1 1000 0 Print_line tm))"
    by (rule reach_step[OF r1 reserve])
  have "reach timer_init timer_step (wk_timer s)" unfolding tm(2) main_timer_def by (rule reach_step[OF r2 reserve])
  moreover have "dist_at (wk_timer s) = (\<lambda>_. D_None)"
    using tm by (simp add: main_timer_def Reserve_def new_data_def timer_init_def)
  moreover have "executed (wk_jobs s) r = []" "players_of s r = []" for r
    using i by (simp_all add: worker_init_def job_init_def players_of_def new_room_def)
  moreover have "reach job_init (job_step True) (wk_jobs s)" "leaked (wk_jobs s) = (\<lambda>_. 0)"
    using i by (auto simp: worker_init_def job_init_def intro: reach_init)
  ultimately show ?thesis by (simp add: worker_inv_def timers_at_rest_def keys_sorted_def)
qed

interpretation workers: invariant_system worker_init "worker_step L" worker_inv for L
  by unfold_locales (rule worker_init_inv, assumption, rule worker_inv_step)

section \<open>A player that stays\<close>

fun concerns :: "u64 \<Rightarrow> closure \<Rightarrow> bool" where
  "concerns k (Room_job (Enter_job p)) = (g_playerId p = k)"
| "concerns k (Room_job (Leave_job p)) = (g_playerId p = k)"
| "concerns k c = False"

fun broadcast_of :: "closure \<Rightarrow> nat list" where
  "broadcast_of (Room_job (Broadcast_job b)) = [b]"
| "broadcast_of c = []"

definition broadcasts :: "closure list \<Rightarrow> nat list" where
  "broadcasts js = concat (map broadcast_of js)"

definition sent_to :: "nat \<Rightarrow> (nat \<times> nat) list \<Rightarrow> nat list" where
  "sent_to sid xs = map snd (filter (\<lambda>x. fst x = sid) xs)"

lemma sent_to_append [simp]: "sent_to sid (xs @ ys) = sent_to sid xs @ sent_to sid ys"
  by (simp add: sent_to_def)

lemma broadcasts_append [simp]: "broadcasts (xs @ ys) = broadcasts xs @ broadcasts ys"
  by (simp add: broadcasts_def)

lemma room_apply_other:
  assumes "keys_sorted ps" "\<not> concerns k c"
  shows "map_of (room_apply ps c) k = map_of ps k"
  using assms by (cases "(ps, c)" rule: room_apply.cases) (auto simp: map_of_assign map_of_erase)

lemma foldl_room_other:
  assumes "keys_sorted ps" "\<forall>c \<in> set js. \<not> concerns k c"
  shows "map_of (foldl room_apply ps js) k = map_of ps k"
  using assms by (induction js arbitrary: ps) (simp_all add: room_apply_other room_apply_sorted)

lemma sent_to_all:
  assumes "map_of ps k = Some p"
  shows "subseq [b] (sent_to (g_ownerSession p) (map (\<lambda>(k, p). (g_ownerSession p, b)) ps))"
proof -
  have "(k, p) \<in> set ps" using assms by (rule map_of_SomeD)
  then have "b \<in> set (sent_to (g_ownerSession p) (map (\<lambda>(k, p). (g_ownerSession p, b)) ps))"
    by (force simp: sent_to_def)
  then show ?thesis by (simp add: subseq_singleton_left)
qed

lemma run_closure_sends:
  assumes "map_of (r_players (rooms w r)) k = Some p"
  shows "\<exists>sent. sends (run_closure pc w) = sends w @ sent
    \<and> subseq (broadcasts (job_run pc r)) (sent_to (g_ownerSession p) sent)"
proof (cases "(pc, w)" rule: run_closure.cases)
  case (1 q job jobs n w')
  then show ?thesis
    using sent_to_all[OF assms]
    by (cases job) (auto simp: Room_Enter_def Room_Leave_def Room_Broadcast_eq upd_room_def broadcasts_def)
qed (auto simp: broadcasts_def)

lemma sends_run_closure: "\<exists>sent. sends (run_closure pc w) = sends w @ sent"
proof (cases "(pc, w)" rule: run_closure.cases)
  case (1 q job jobs n w')
  then show ?thesis by (cases job) (simp_all add: Room_Enter_def Room_Leave_def Room_Broadcast_eq upd_room_def)
qed simp_all

lemma room_step_sends:
  assumes "room_step s s'" and "map_of (players_of s r) k = Some p"
  shows "\<exists>js sent. executed (wk_jobs s') r = executed (wk_jobs s) r @ js \<and> sends (wk_world s') = sends (wk_world s) @ sent
    \<and> subseq (broadcasts js) (sent_to (g_ownerSession p) sent)"
  using assms(1) unfolding room_step_def
proof
  assume "\<exists>pc. (\<forall>r. executed (wk_jobs s') r = executed (wk_jobs s) r @ job_run pc r) \<and> wk_world s' = run_closure pc (wk_world s)"
  then obtain pc where "executed (wk_jobs s') r = executed (wk_jobs s) r @ job_run pc r"
    "wk_world s' = run_closure pc (wk_world s)" by blast
  then show ?thesis using run_closure_sends[OF assms(2)[unfolded players_of_def], of pc] by auto
qed (auto simp: broadcasts_def)

lemma run_sends:
  assumes "(worker_step L)\<^sup>*\<^sup>* s s'" and "worker_inv s" and "map_of (players_of s r) k = Some p"
  shows "\<exists>js sent. executed (wk_jobs s') r = executed (wk_jobs s) r @ js \<and> sends (wk_world s') = sends (wk_world s) @ sent
    \<and> ((\<forall>c \<in> set js. \<not> concerns k c) \<longrightarrow> subseq (broadcasts js) (sent_to (g_ownerSession p) sent))"
  using assms(1)
proof (induction rule: rtranclp_induct)
  case base
  show ?case by (intro exI[of _ "[]"]) (simp add: broadcasts_def)
next
  case (step x y)
  have inv: "worker_inv x" using workers.run_inv[OF step.hyps(1) assms(2)] .
  obtain js sent where x: "executed (wk_jobs x) r = executed (wk_jobs s) r @ js" "sends (wk_world x) = sends (wk_world s) @ sent"
    "(\<forall>c \<in> set js. \<not> concerns k c) \<longrightarrow> subseq (broadcasts js) (sent_to (g_ownerSession p) sent)"
    using step.IH by blast
  have rs: "room_step x y" using worker_part_step[OF step.hyps(2) worker_invD(4)[OF inv]] by (simp add: part_step_def)
  have "players_of x r = foldl room_apply (players_of s r) js"
    using worker_invD(5)[OF inv, of r] worker_invD(5)[OF assms(2), of r] x(1) by simp
  then have "map_of (players_of x r) k = Some p" if "\<forall>c \<in> set js. \<not> concerns k c"
    using foldl_room_other[OF worker_invD(6)[OF assms(2)] that] assms(3) by simp
  note here = room_step_sends[OF rs this]
  obtain js' where js': "executed (wk_jobs y) r = executed (wk_jobs x) r @ js'" using room_step_players[OF rs] by blast
  obtain sent' where sent': "sends (wk_world y) = sends (wk_world x) @ sent'"
    "(\<forall>c \<in> set js. \<not> concerns k c) \<Longrightarrow> subseq (broadcasts js') (sent_to (g_ownerSession p) sent')"
  proof (cases "\<forall>c \<in> set js. \<not> concerns k c")
    case True
    then show ?thesis using here js' that by auto
  next
    case False
    have "\<exists>sent. sends (wk_world y) = sends (wk_world x) @ sent"
      using rs sends_run_closure unfolding room_step_def by auto
    then show ?thesis using False that by auto
  qed
  show ?case
    using x js' sent' by (intro exI[of _ "js @ js'"] exI[of _ "sent @ sent'"]) (auto intro: list_emb_append_mono)
qed

section \<open>A call of DoAsync that runs through\<close>

text \<open>An idle queue is executed by the thread that pushes; six steps later the job has run.\<close>

definition at_rest :: "worker_sys \<Rightarrow> u32 \<Rightarrow> nat \<Rightarrow> bool" where
  "at_rest s t r \<longleftrightarrow> idle s t \<and> LCurrentJobQueue (wk_jobs s) t = None \<and> queues (wk_jobs s) r = new_job_queue"

definition busy_step :: "wire_env \<Rightarrow> u32 \<Rightarrow> worker_sys \<Rightarrow> worker_sys \<Rightarrow> bool" where
  "busy_step L t s s' \<longleftrightarrow> loop_step L t s s' \<and> \<not> idle s t"

lemma busy_runs: "(busy_step L t)\<^sup>*\<^sup>* s s' \<Longrightarrow> (worker_step L)\<^sup>*\<^sup>* s s'"
  by (erule rtranclp_mono[THEN predicate2D, rotated]) (auto simp: busy_step_def intro: wk_loop)

lemma DoAsync_runs:
  assumes "at_rest s t r"
  shows "\<exists>s'. (busy_step L t)\<^sup>*\<^sup>* (DoAsync t r (Room_job job) s) s' \<and> wk_world s' = run_job r job (wk_world s)
    \<and> executed (wk_jobs s') r = executed (wk_jobs s) r @ [Room_job job]
    \<and> queues (wk_jobs s') r = new_job_queue \<and> push_at (wk_jobs s') = push_at (wk_jobs s)
    \<and> exec_at (wk_jobs s') = exec_at (wk_jobs s) \<and> LCurrentJobQueue (wk_jobs s') = LCurrentJobQueue (wk_jobs s)
    \<and> wk_rest s' = wk_rest s \<and> wk_phase s' = wk_phase s"
proof -
  let ?c = "Room_job job"
  define s0 where "s0 = DoAsync t r ?c s"
  define s1 where "s1 = push_turn t s0"
  define s2 where "s2 = push_turn t s1"
  define s3 where "s3 = push_turn t s2"
  define s4 where "s4 = execute_turn 0 t s3"
  define s5 where "s5 = execute_turn 0 t s4"
  define s6 where "s6 = execute_turn 0 t s5"
  note pre = assms[unfolded at_rest_def idle_def]
  note defs = job_defs new_job_queue_def new_lock_queue_def Execute_begin_def PopAll_items
  have 0: "push_at (wk_jobs s0) = (push_at (wk_jobs s))(t := P_Add r ?c False)" "exec_at (wk_jobs s0) = exec_at (wk_jobs s)"
    "queues (wk_jobs s0) = queues (wk_jobs s)" "LCurrentJobQueue (wk_jobs s0) = LCurrentJobQueue (wk_jobs s)"
    "executed (wk_jobs s0) = executed (wk_jobs s)" by (simp_all add: s0_def DoAsync_def defs)
  have 1: "push_at (wk_jobs s1) = (push_at (wk_jobs s))(t := P_Queue r ?c 0 False)" "exec_at (wk_jobs s1) = exec_at (wk_jobs s)"
    "queues (wk_jobs s1) = (queues (wk_jobs s))(r := \<lparr>m_jobs = \<lparr>m_items = []\<rparr>, m_jobCount = 1\<rparr>)"
    "LCurrentJobQueue (wk_jobs s1) = LCurrentJobQueue (wk_jobs s)" "executed (wk_jobs s1) = executed (wk_jobs s)"
    using pre by (simp_all add: s1_def push_turn_def 0 defs)
  have 2: "push_at (wk_jobs s2) = (push_at (wk_jobs s))(t := P_Decide r False)" "exec_at (wk_jobs s2) = exec_at (wk_jobs s)"
    "queues (wk_jobs s2) = (queues (wk_jobs s))(r := \<lparr>m_jobs = \<lparr>m_items = [Some ?c]\<rparr>, m_jobCount = 1\<rparr>)"
    "LCurrentJobQueue (wk_jobs s2) = LCurrentJobQueue (wk_jobs s)" "executed (wk_jobs s2) = executed (wk_jobs s)"
    using pre by (simp_all add: s2_def push_turn_def 1 defs)
  have 3: "push_at (wk_jobs s3) = push_at (wk_jobs s)" "exec_at (wk_jobs s3) = (exec_at (wk_jobs s))(t := X_Pop r)"
    "queues (wk_jobs s3) = queues (wk_jobs s2)" "LCurrentJobQueue (wk_jobs s3) = (LCurrentJobQueue (wk_jobs s))(t := Some r)"
    "executed (wk_jobs s3) = executed (wk_jobs s)"
    using pre by (simp_all add: s3_def push_turn_def 2 defs fun_upd_idem)
  have 4: "push_at (wk_jobs s4) = push_at (wk_jobs s)" "exec_at (wk_jobs s4) = (exec_at (wk_jobs s))(t := X_Run r [?c] 1)"
    "queues (wk_jobs s4) = (queues (wk_jobs s))(r := \<lparr>m_jobs = \<lparr>m_items = []\<rparr>, m_jobCount = 1\<rparr>)"
    "LCurrentJobQueue (wk_jobs s4) = LCurrentJobQueue (wk_jobs s3)" "executed (wk_jobs s4) = executed (wk_jobs s)"
    by (simp_all add: s4_def execute_turn_def 3 2 defs)
  have 5: "push_at (wk_jobs s5) = push_at (wk_jobs s)" "exec_at (wk_jobs s5) = (exec_at (wk_jobs s))(t := X_Run r [] 1)"
    "queues (wk_jobs s5) = queues (wk_jobs s4)" "LCurrentJobQueue (wk_jobs s5) = LCurrentJobQueue (wk_jobs s3)"
    "executed (wk_jobs s5) = (executed (wk_jobs s))(r := executed (wk_jobs s) r @ [?c])"
    by (simp_all add: s5_def execute_turn_def 4 defs)
  have 6: "push_at (wk_jobs s6) = push_at (wk_jobs s)" "exec_at (wk_jobs s6) = exec_at (wk_jobs s)"
    "queues (wk_jobs s6) r = new_job_queue" "LCurrentJobQueue (wk_jobs s6) = LCurrentJobQueue (wk_jobs s)"
    "executed (wk_jobs s6) = executed (wk_jobs s5)"
    using pre by (simp_all add: s6_def execute_turn_def 5 4 3 defs fun_upd_idem)
  have "wk_world s3 = wk_world s" by (simp add: s3_def s2_def s1_def s0_def push_turn_def DoAsync_def)
  moreover have "wk_world s4 = wk_world s3" by (simp add: s4_def execute_turn_def 3)
  moreover have "wk_world s5 = run_job r job (wk_world s4)" by (simp add: s5_def execute_turn_def 4)
  moreover have "wk_world s6 = wk_world s5" by (simp add: s6_def execute_turn_def 5)
  ultimately have w: "wk_world s6 = run_job r job (wk_world s)" by simp
  have same: "wk_rest s6 = wk_rest s" "wk_phase s6 = wk_phase s"
    by (simp_all add: s6_def s5_def s4_def s3_def s2_def s1_def s0_def execute_turn_def push_turn_def DoAsync_def)
  have "loop_step L t s0 s1" "loop_step L t s1 s2" "loop_step L t s2 s3"
    unfolding s1_def s2_def s3_def
    by (rule lp_push; use pre in \<open>simp add: 0 1 2 new_job_queue_def flip: s1_def s2_def\<close>)+
  moreover have "loop_step L t s3 s4" "loop_step L t s4 s5" "loop_step L t s5 s6"
    unfolding s4_def s5_def s6_def by (rule lp_execute; use pre in \<open>simp add: 3 4 5 flip: s4_def s5_def\<close>)+
  ultimately have "busy_step L t s0 s1" "busy_step L t s1 s2" "busy_step L t s2 s3" "busy_step L t s3 s4"
    "busy_step L t s4 s5" "busy_step L t s5 s6"
    by (simp_all add: busy_step_def idle_def 0 1 2 3 4 5)
  then have "(busy_step L t)\<^sup>*\<^sup>* s0 s6" by (meson rtranclp.rtrancl_refl rtranclp.rtrancl_into_rtrancl)
  then show ?thesis using 5 6 w same unfolding s0_def by (intro exI[of _ s6]) simp
qed

section \<open>A run of two workers\<close>

definition worker_start :: worker_sys where
  "worker_start = \<lparr>wk_jobs = \<lparr>queues = (\<lambda>_. new_job_queue), GGlobalQueue = \<lparr>m_jobQueues = new_lock_queue\<rparr>,
       push_at = (\<lambda>_. P_None), exec_at = (\<lambda>_. X_None), LCurrentJobQueue = (\<lambda>_. None),
       executed = (\<lambda>_. []), pushed = (\<lambda>_. []), leaked = (\<lambda>_. 0)\<rparr>,
     wk_timer = main_timer 0 0 0 \<lparr>tm_items = [], m_distributing = False, job_data_pool = Map.empty,
       dist_at = (\<lambda>_. D_None), next_data = 0, pushes = []\<rparr>,
     wk_world = server_start send_init, LEndTickCount = (\<lambda>_. 0), wk_phase = (\<lambda>_. W_Top), wk_rest = (\<lambda>_. No_rest)\<rparr>"

definition both_dispatch :: worker_sys where
  "both_dispatch = worker_deadline 0 2 (worker_deadline 0 1 worker_start)"

lemma both_dispatch_reach: "reach worker_init (worker_step L) both_dispatch"
proof -
  have 0: "reach worker_init (worker_step L) worker_start"
    by (rule reach_init) (auto simp: worker_init_def worker_start_def job_init_def timer_init_def)
  have 1: "reach worker_init (worker_step L) (worker_deadline 0 1 worker_start)"
    by (rule reach_step[OF 0 wk_top]) (simp add: wk_ready_def idle_def worker_start_def)
  show ?thesis unfolding both_dispatch_def
    by (rule reach_step[OF 1 wk_top]) (simp add: wk_ready_def idle_def worker_start_def worker_deadline_def to_phase_def)
qed

lemma both_dispatch_simps:
  "wk_jobs both_dispatch = wk_jobs worker_start" "wk_world both_dispatch = server_start send_init"
  "wk_rest both_dispatch = (\<lambda>_. No_rest)" "wk_phase both_dispatch 1 = W_Dispatch" "wk_phase both_dispatch 2 = W_Dispatch"
  by (simp_all add: both_dispatch_def worker_deadline_def to_phase_def worker_start_def)

text \<open>Thread 1 logs session 0 in, enters the game with its first player, and has not yet replied.\<close>

lemma workers_entered:
  "\<exists>s. reach worker_init (worker_step L) s \<and> at_rest s 1 0 \<and> at_rest s 2 0 \<and> wk_rest s = (\<lambda>_. No_rest)(1 := Enter_rest 0)
    \<and> wk_phase s 2 = W_Dispatch \<and> players_of s 0 = [(1, player1)] \<and> send_inv None (w_send (wk_world s), \<lambda>_. None)
    \<and> m_rooms (wk_world s) = [0] \<and> gs_currentPlayer (sessions (wk_world s) 0) = Some player1
    \<and> gs_room (sessions (wk_world s) 0) = Some 0"
proof -
  have inv0: "game_inv (server_start send_init, 0)" by (rule game.reach_inv[OF start_reach])
  obtain i st where h: "Handle_C_LOGIN L (unat (1 :: u32)) 0 C_LOGIN_new (server_start send_init)
      = Inr (True, Send_call 0 i ((login_world 0 (server_start send_init))\<lparr>w_send := st\<rparr>))"
    using login_succeeds[OF inv0] by blast
  define w1 where "w1 = Send_call 0 i ((login_world 0 (server_start send_init))\<lparr>w_send := st\<rparr>)"
  have inv1: "game_inv (w1, 1)"
    using game.step_inv[OF inv0 step_login[OF h[folded w1_def]]] by simp
  define s1 where "s1 = both_dispatch\<lparr>wk_world := w1\<rparr>"
  have rdy: "wk_ready both_dispatch 1 W_Dispatch"
    by (simp add: wk_ready_def idle_def both_dispatch_simps worker_start_def)
  have r1: "reach worker_init (worker_step L) s1"
    unfolding s1_def
    by (rule reach_step[OF both_dispatch_reach wk_login[OF rdy]], unfold both_dispatch_simps, rule h[folded w1_def])
  have w1: "gs_players (sessions w1 0) = [player1, player2]" "rooms w1 = (\<lambda>_. new_room)" "m_rooms w1 = [0]"
    using game_invD(1)[OF inv1] by (simp_all add: w1_def login_world_simps new_game_session_def Send_call_def)
  define w2 where "w2 = upd_session 0 (\<lambda>s. s\<lparr>gs_room := Some 0\<rparr>) (upd_session 0 (\<lambda>s. s\<lparr>gs_currentPlayer := Some player1\<rparr>) w1)"
  have e: "Enter_before 0 C_ENTER_GAME_new w1 = Inr ((0, player1), w2)"
    using w1 by (simp add: Enter_before_def Let_def C_ENTER_GAME_new_def GetRoom_def upd_session_def w2_def)
  define s2 where "s2 = set_rest 1 (Enter_rest 0) (s1\<lparr>wk_world := w2\<rparr>)"
  have r2: "reach worker_init (worker_step L) (DoAsync 1 0 (Room_job (Enter_job player1)) s2)"
    unfolding s2_def
    by (rule reach_step[OF r1 wk_enter]) (use rdy e in \<open>simp_all add: s1_def wk_ready_def idle_def\<close>)
  have jobs: "wk_jobs s2 = wk_jobs worker_start" by (simp add: s2_def s1_def set_rest_def both_dispatch_simps)
  have "at_rest s2 1 0" by (simp add: at_rest_def idle_def jobs worker_start_def)
  from DoAsync_runs[OF this, of L "Enter_job player1"] obtain s3 where s3:
    "(busy_step L 1)\<^sup>*\<^sup>* (DoAsync 1 0 (Room_job (Enter_job player1)) s2) s3" "wk_world s3 = Room_Enter 0 player1 w2"
    "queues (wk_jobs s3) 0 = new_job_queue" "push_at (wk_jobs s3) = push_at (wk_jobs s2)"
    "exec_at (wk_jobs s3) = exec_at (wk_jobs s2)" "LCurrentJobQueue (wk_jobs s3) = LCurrentJobQueue (wk_jobs s2)"
    "wk_rest s3 = wk_rest s2" "wk_phase s3 = wk_phase s2"
    by (auto simp: s2_def set_rest_def)
  have "reach worker_init (worker_step L) s3" using reach_run[OF busy_runs[OF s3(1)] r2] .
  moreover have "at_rest s3 1 0" "at_rest s3 2 0" by (simp_all add: at_rest_def idle_def s3 jobs worker_start_def)
  moreover have "wk_rest s3 = (\<lambda>_. No_rest)(1 := Enter_rest 0)" "wk_phase s3 2 = W_Dispatch"
    by (simp_all add: s3 s2_def s1_def set_rest_def both_dispatch_simps)
  moreover have "players_of s3 0 = [(1, player1)]"
    using w1 by (simp add: players_of_def s3 Room_Enter_def upd_room_def w2_def upd_session_def new_room_def)
  moreover have "send_inv None (w_send (wk_world s3), \<lambda>_. None)"
    using game_invD(2)[OF inv1] by (simp add: s3 Room_Enter_def upd_room_def w2_def upd_session_def)
  moreover have "m_rooms (wk_world s3) = [0]" "gs_currentPlayer (sessions (wk_world s3) 0) = Some player1"
    "gs_room (sessions (wk_world s3) 0) = Some 0"
    using w1 by (simp_all add: s3 Room_Enter_def upd_room_def w2_def upd_session_def)
  ultimately show ?thesis by blast
qed

text \<open>Thread 2 broadcasts a chat in that room.\<close>

lemma workers_chat:
  assumes "reach worker_init (worker_step L) s" "at_rest s 2 0" "wk_rest s 2 = No_rest" "wk_phase s 2 = W_Dispatch"
    and "send_inv None (w_send (wk_world s), \<lambda>_. None)" "m_rooms (wk_world s) = [0]"
  shows "\<exists>s' b. (worker_step L)\<^sup>*\<^sup>* s s' \<and> executed (wk_jobs s') 0 = executed (wk_jobs s) 0 @ [Room_job (Broadcast_job b)]"
proof -
  let ?pkt = "S_CHAT_new\<lparr>sc_msg := cc_msg C_CHAT_new\<rparr>"
  have ok: "string_ok (cc_msg C_CHAT_new)" by (simp add: C_CHAT_new_def)
  have "fst (S_CHAT_ByteSizeLong ?pkt) \<le> 5996" by (simp add: size_defs new_defs final_size_def Let_def)
  from S_CHAT.make_packet[OF assms(5) refl chatPkt_valid[OF ok] this, of L "unat (2 :: u32)" PKT_S_CHAT]
  obtain b st where mk: "MakeSendBuffer S_CHAT_ByteSizeLong (S_CHAT_InternalSerialize L) (unat (2 :: u32)) ?pkt PKT_S_CHAT
      (w_send (wk_world s)) = Inr (b, st)" by blast
  define w where "w = (wk_world s)\<lparr>w_send := st\<rparr>"
  have c: "Chat_before L 2 C_CHAT_new (wk_world s) = Inr ((0, b), w)"
    using mk assms(6) by (simp add: Chat_before_def Let_def make_defs with_buffer_def w_def GetRoom_def)
  let ?s = "s\<lparr>wk_world := w\<rparr>"
  have "wk_ready s 2 W_Dispatch" using assms(2-4) by (simp add: wk_ready_def at_rest_def)
  then have step: "worker_step L s (DoAsync 2 0 (Room_job (Broadcast_job b)) ?s)" using c by (rule wk_chat)
  have "at_rest ?s 2 0" using assms(2) by (simp add: at_rest_def idle_def)
  from DoAsync_runs[OF this, of L "Broadcast_job b"] obtain s' where
    "(busy_step L 2)\<^sup>*\<^sup>* (DoAsync 2 0 (Room_job (Broadcast_job b)) ?s) s'"
    "executed (wk_jobs s') 0 = executed (wk_jobs s) 0 @ [Room_job (Broadcast_job b)]" by auto
  then show ?thesis using step busy_runs by (meson converse_rtranclp_into_rtranclp)
qed

section \<open>The order of the queues\<close>

lemma executed_pushed:
  assumes "reach job_init (job_step True) s" and "leaked s = (\<lambda>_. 0)"
  shows "prefix (executed s r) (pushed s r)" and "m_jobCount (queues s r) = 0 \<Longrightarrow> executed s r = pushed s r"
proof -
  note J = job_machine.reach_inv[OF assms(1)]
  show "prefix (executed s r) (pushed s r)"
    using job_invD(2)[OF J, of r] unfolding ordered_def by (metis prefixI)
  assume z: "m_jobCount (queues s r) = 0"
  then have c: "count_of s r = 0" by (simp add: count_zero)
  have "exec_at s t \<noteq> X_Run r js n" for t js n using executing(1)[OF J, of t r] c by auto
  moreover have "jobs_of s r = []"
    using job_invD(1)[OF J, of r] c counted_zero[OF job_invD(1)[OF J, of r]] by (simp add: counted_def)
  ultimately show "executed s r = pushed s r" using job_invD(2)[OF J, of r] by (simp add: ordered_def)
qed

section \<open>Properties\<close>

text \<open>The queues and the timer in the server. In every state the worker threads reach, whatever the
  clients do, the job queues are in a state their own machine reaches and the timer in one of its own;
  so what holds of them alone holds of them inside the server.\<close>

theorem worker_components:
  assumes "reach worker_init (worker_step L) s"
  shows "reach job_init (job_step True) (wk_jobs s) \<and> reach timer_init timer_step (wk_timer s)"
  using worker_invD(1,2)[OF workers.reach_inv[OF assms]] by blast

theorem worker_components_witness: "reach job_init (job_step True) (wk_jobs both_dispatch)"
  using worker_components[OF both_dispatch_reach[of test_env]] by blast

text \<open>C6: A room needs no lock. Under every interleaving of the worker threads the players of a room
  are what its jobs make of the empty room one after the other, in the order they were pushed; no two
  threads are ever inside the same room; and when the counter of the room's queue is zero, every job
  pushed has run.
  A Push adds to the int32 counter of its queue only below 2^31 - 1; as no worker clears jobs it counts
  the jobs alive.\<close>

theorem room_serialized:
  assumes "reach worker_init (worker_step L) s"
  shows "r_players (rooms (wk_world s) r) = foldl room_apply [] (executed (wk_jobs s) r)
    \<and> prefix (executed (wk_jobs s) r) (pushed (wk_jobs s) r)
    \<and> (\<forall>t u. exec_queue (exec_at (wk_jobs s) t) = Some r \<longrightarrow> exec_queue (exec_at (wk_jobs s) u) = Some r \<longrightarrow> t = u)
    \<and> (m_jobCount (queues (wk_jobs s) r) = 0 \<longrightarrow> executed (wk_jobs s) r = pushed (wk_jobs s) r)"
proof (intro conjI allI impI)
  note D = worker_invD[OF workers.reach_inv[OF assms]]
  note J = job_machine.reach_inv[OF D(1)]
  show "r_players (rooms (wk_world s) r) = foldl room_apply [] (executed (wk_jobs s) r)"
    using D(5)[of r] by (simp add: players_of_def)
  show "prefix (executed (wk_jobs s) r) (pushed (wk_jobs s) r)" by (rule executed_pushed(1)[OF D(1,3)])
  show "t = u" if "exec_queue (exec_at (wk_jobs s) t) = Some r" "exec_queue (exec_at (wk_jobs s) u) = Some r" for t u
    using one_executor[OF job_invD(1)[OF J] that] .
  show "m_jobCount (queues (wk_jobs s) r) = 0 \<Longrightarrow> executed (wk_jobs s) r = pushed (wk_jobs s) r"
    by (rule executed_pushed(2)[OF D(1,3)])
qed

theorem room_serialized_witness:
  "\<exists>s. reach worker_init (worker_step test_env) s \<and> r_players (rooms (wk_world s) 0) = [(1, player1)]
    \<and> foldl room_apply [] (executed (wk_jobs s) 0) = [(1, player1)]"
  using workers_entered[of test_env] room_serialized[where r = 0] unfolding players_of_def by metis

text \<open>C7: Everybody in a room hears the same. From any reachable state on, however the threads go on, a
  player that is in the room and neither enters nor leaves it again gets the buffers of all broadcasts
  the room runs, in the order the room runs them, among the calls of Send for its session. The order is
  the same for every such player.
  A Push adds to the int32 counter of its queue only below 2^31 - 1; as no worker clears jobs it counts
  the jobs alive.\<close>

theorem chat_same_order:
  assumes "reach worker_init (worker_step L) s" and "(worker_step L)\<^sup>*\<^sup>* s s'"
    and "map_of (r_players (rooms (wk_world s) r)) k = Some p"
    and "executed (wk_jobs s') r = executed (wk_jobs s) r @ new" and "\<forall>c \<in> set new. \<not> concerns k c"
  shows "\<exists>sent. sends (wk_world s') = sends (wk_world s) @ sent
    \<and> subseq (broadcasts new) (sent_to (g_ownerSession p) sent)"
proof -
  have "map_of (players_of s r) k = Some p" using assms(3) by (simp add: players_of_def)
  from run_sends[OF assms(2) workers.reach_inv[OF assms(1)] this] show ?thesis using assms(4,5) by auto
qed

theorem chat_same_order_witness:
  "\<exists>s s' b sent. reach worker_init (worker_step test_env) s \<and> (worker_step test_env)\<^sup>*\<^sup>* s s'
    \<and> executed (wk_jobs s') 0 = executed (wk_jobs s) 0 @ [Room_job (Broadcast_job b)]
    \<and> sends (wk_world s') = sends (wk_world s) @ sent \<and> subseq [b] (sent_to 0 sent)"
proof -
  obtain s where s: "reach worker_init (worker_step test_env) s" "at_rest s 2 0"
    "wk_rest s = (\<lambda>_. No_rest)(1 := Enter_rest 0)" "wk_phase s 2 = W_Dispatch" "players_of s 0 = [(1, player1)]"
    "send_inv None (w_send (wk_world s), \<lambda>_. None)" "m_rooms (wk_world s) = [0]"
    using workers_entered[of test_env] by (elim exE conjE)
  have "wk_rest s 2 = No_rest" using s(3) by simp
  from workers_chat[OF s(1,2) this s(4,6,7)] obtain s' b where s': "(worker_step test_env)\<^sup>*\<^sup>* s s'"
    "executed (wk_jobs s') 0 = executed (wk_jobs s) 0 @ [Room_job (Broadcast_job b)]" by blast
  have p: "map_of (r_players (rooms (wk_world s) 0)) 1 = Some player1" using s(5) by (simp add: players_of_def)
  have "\<exists>sent. sends (wk_world s') = sends (wk_world s) @ sent \<and> subseq [b] (sent_to 0 sent)"
    using chat_same_order[OF s(1) s'(1) p s'(2)] by (simp add: broadcasts_def)
  then show ?thesis using s(1) s' by blast
qed

text \<open>C36: A disconnect can overtake the handler of C_ENTER_GAME. There is a reachable state in which a
  worker is about to reply to a C_ENTER_GAME packet while another has run OnDisconnected for the same
  session; the handler then reads a null m_currentPlayer and the server crashes.\<close>

theorem enter_overtaken:
  "\<exists>s t. reach worker_init (worker_step L) s \<and> idle s t \<and> wk_rest s t = Enter_rest 0
    \<and> handler_after L t (wk_rest s t) (wk_world s) = Inl NullDeref"
proof -
  obtain s where s: "reach worker_init (worker_step L) s" "at_rest s 1 0" "at_rest s 2 0"
    "wk_rest s = (\<lambda>_. No_rest)(1 := Enter_rest 0)" "wk_phase s 2 = W_Dispatch"
    "send_inv None (w_send (wk_world s), \<lambda>_. None)" "gs_currentPlayer (sessions (wk_world s) 0) = Some player1"
    "gs_room (sessions (wk_world s) 0) = Some 0"
    using workers_entered[of L] by (elim exE conjE)
  let ?w = "SessionManager_Remove 0 (wk_world s)"
  let ?s = "set_rest 2 (Disconnect_rest 0) (s\<lparr>wk_world := ?w\<rparr>)"
  have "wk_ready s 2 W_Dispatch" using s(3-5) by (simp add: wk_ready_def at_rest_def)
  then have "worker_step L s (start_disconnected 2 0 s)" by (rule wk_disconnected)
  also have "start_disconnected 2 0 s = DoAsync 2 0 (Room_job (Leave_job player1)) ?s"
    using s(7,8) by (simp add: start_disconnected_def Disconnected_before_def Let_def SessionManager_Remove_def)
  finally have r1: "reach worker_init (worker_step L) (DoAsync 2 0 (Room_job (Leave_job player1)) ?s)"
    by (rule reach_step[OF s(1)])
  have "at_rest ?s 2 0" using s(3) by (simp add: at_rest_def idle_def set_rest_def)
  from DoAsync_runs[OF this, of L "Leave_job player1"] obtain s' where s':
    "(worker_step L)\<^sup>*\<^sup>* (DoAsync 2 0 (Room_job (Leave_job player1)) ?s) s'" "wk_world s' = Room_Leave 0 player1 ?w"
    "push_at (wk_jobs s') = push_at (wk_jobs s)" "exec_at (wk_jobs s') = exec_at (wk_jobs s)"
    "wk_rest s' = (wk_rest s)(2 := Disconnect_rest 0)"
    by (auto simp: set_rest_def dest: busy_runs)
  have i: "idle s' 1" "idle s' 2" using s(2,3) by (simp_all add: idle_def at_rest_def s')
  define s'' where "s'' = set_rest 2 No_rest (s'\<lparr>wk_world := Disconnected_after 0 (wk_world s')\<rparr>)"
  have "worker_step L s' s''" unfolding s''_def by (rule wk_after[OF i(2)]) (simp add: s')
  from reach_step[OF reach_run[OF s'(1) r1] this] have r: "reach worker_init (worker_step L) s''" .
  have "fst (S_ENTER_GAME_ByteSizeLong (S_ENTER_GAME_new\<lparr>se_success := True\<rparr>)) \<le> 5996"
    by (simp add: S_ENTER_GAME_ByteSizeLong_def S_ENTER_GAME_new_def final_size_def Let_def)
  from S_ENTER_GAME.make_packet[OF s(6) refl enterPkt_valid this, of L "unat (1 :: u32)" PKT_S_ENTER_GAME]
  obtain b st where mk: "MakeSendBuffer S_ENTER_GAME_ByteSizeLong (S_ENTER_GAME_InternalSerialize L) (unat (1 :: u32))
      (S_ENTER_GAME_new\<lparr>se_success := True\<rparr>) PKT_S_ENTER_GAME (w_send (wk_world s)) = Inr (b, st)" by blast
  have w: "w_send (wk_world s'') = w_send (wk_world s)" "gs_currentPlayer (sessions (wk_world s'') 0) = None"
    by (simp_all add: s''_def set_rest_def Disconnected_after_def upd_session_def s' Room_Leave_def upd_room_def
        SessionManager_Remove_def)
  have "handler_after L 1 (Enter_rest 0) (wk_world s'') = Inl NullDeref"
    using mk w by (simp add: Enter_after_def Let_def make_defs with_buffer_def)
  moreover have "idle s'' 1" "wk_rest s'' 1 = Enter_rest 0"
    using i s(4) by (simp_all add: s''_def set_rest_def idle_def s')
  ultimately show ?thesis using r by metis
qed

end
