(* ===== verification/Game_Traffic_Safety.thy ===== *)
theory Game_Traffic_Safety
  imports Game_Traffic Game_Worker_Safety
begin

text \<open>
  What the clients can rely on: every step of the traffic is a run of the workers, the packets of a
  session are handled in the order of its bytes although any worker may handle them, and the jobs they
  ask for reach the queue of a room in that order.
\<close>

section \<open>The traffic is a run of the workers\<close>

lemma worker_entry:
  "last_entry (worker_entries L t sid) PKT_C_LOGIN f
     = HandlePacket_as (C_LOGIN_InternalParse L) C_LOGIN_Clear C_LOGIN_new (Login_start L t sid)"
  "last_entry (worker_entries L t sid) PKT_C_ENTER_GAME f
     = HandlePacket_as (C_ENTER_GAME_InternalParse L) C_ENTER_GAME_Clear C_ENTER_GAME_new (Enter_start t sid)"
  "last_entry (worker_entries L t sid) PKT_C_CHAT f
     = HandlePacket_as (C_CHAT_InternalParse L) C_CHAT_Clear C_CHAT_new (Chat_start L t)"
  "pktId \<notin> {PKT_C_LOGIN, PKT_C_ENTER_GAME, PKT_C_CHAT} \<Longrightarrow> last_entry (worker_entries L t sid) pktId f = f"
  by (auto simp: worker_entries_def packet_ids)

lemma packet_start_cases:
  assumes "packet_start L t sid buffer len s = Inr s'"
  shows "s' = s
    \<or> (\<exists>m b w. Handle_C_LOGIN L (unat t) sid m (wk_world s) = Inr (b, w) \<and> s' = s\<lparr>wk_world := w\<rparr>)
    \<or> (\<exists>m r p w. Enter_before sid m (wk_world s) = Inr ((r, p), w)
        \<and> s' = DoAsync t r (Room_job (Enter_job p)) (set_rest t (Enter_rest sid) (s\<lparr>wk_world := w\<rparr>)))
    \<or> (\<exists>m r b w. Chat_before L t m (wk_world s) = Inr ((r, b), w)
        \<and> s' = DoAsync t r (Room_job (Broadcast_job b)) (s\<lparr>wk_world := w\<rparr>))"
proof -
  let ?id = "hd_id (read_header buffer)"
  obtain b where "HandlePacket (Handler_Init (worker_entries L t sid)) buffer (int (unat len)) s = Inr (b, s')"
    using assms by (auto simp: packet_start_def rbind_eq_Inr)
  note e = HandlePacket_Inr[OF this]
  consider "?id = PKT_C_LOGIN" | "?id = PKT_C_ENTER_GAME" | "?id = PKT_C_CHAT"
    | "?id \<notin> {PKT_C_LOGIN, PKT_C_ENTER_GAME, PKT_C_CHAT}" by blast
  then show ?thesis
  proof cases
    case 1
    with e have "HandlePacket_as (C_LOGIN_InternalParse L) C_LOGIN_Clear C_LOGIN_new (Login_start L t sid)
        buffer (int (unat len)) s = Inr (b, s')" by (simp add: worker_entry)
    from HandlePacket_as_Inr[OF this] have "s' = s \<or> (\<exists>m. Login_start L t sid m s = Inr (b, s'))" by blast
    then show ?thesis unfolding Login_start_def rbind_eq_Inr by (elim disjE exE conjE) (simp, clarsimp split: prod.splits, blast)
  next
    case 2
    with e have "HandlePacket_as (C_ENTER_GAME_InternalParse L) C_ENTER_GAME_Clear C_ENTER_GAME_new (Enter_start t sid)
        buffer (int (unat len)) s = Inr (b, s')" by (simp add: worker_entry)
    from HandlePacket_as_Inr[OF this] have "s' = s \<or> (\<exists>m. Enter_start t sid m s = Inr (b, s'))" by blast
    then show ?thesis unfolding Enter_start_def rbind_eq_Inr by (elim disjE exE conjE) (simp, clarsimp split: prod.splits, blast)
  next
    case 3
    with e have "HandlePacket_as (C_CHAT_InternalParse L) C_CHAT_Clear C_CHAT_new (Chat_start L t)
        buffer (int (unat len)) s = Inr (b, s')" by (simp add: worker_entry)
    from HandlePacket_as_Inr[OF this] have "s' = s \<or> (\<exists>m. Chat_start L t m s = Inr (b, s'))" by blast
    then show ?thesis unfolding Chat_start_def rbind_eq_Inr by (elim disjE exE conjE) (simp, clarsimp split: prod.splits, blast)
  next
    case 4
    then show ?thesis using e by (simp add: worker_entry Handle_INVALID_def)
  qed
qed

lemma packet_start_step:
  assumes "packet_start L t sid buffer len s = Inr s'" and "wk_ready s t W_Dispatch"
  shows "(worker_step L)\<^sup>*\<^sup>* s s'"
  using packet_start_cases[OF assms(1)]
  by (elim disjE exE conjE) (simp_all add: r_into_rtranclp wk_login[OF assms(2)] wk_enter[OF assms(2)] wk_chat[OF assms(2)])

lemma recv_turn_cases:
  assumes "recv_turn L io dio t x = Inr y"
  obtains (other) "y = x" "recv_session (tr_at x t) = None"
  | (finish) sid buffer len p s where "tr_at x t = C_Recv sid buffer len p"
      "to_size_t (len - p) < int sizeof_PacketHeader \<or> len - p < uint (hd_size (read_header (drop (nat p) buffer)))"
      "Recv_after io dio len p (tr_sess x sid) = Inr s" "y = tr_to t C_Done (tr_session sid s x)"
  | (handle) sid buffer len p s n where "tr_at x t = C_Recv sid buffer len p"
      "n = hd_size (read_header (drop (nat p) buffer))"
      "\<not> to_size_t (len - p) < int sizeof_PacketHeader" "\<not> len - p < uint n"
      "packet_start L t sid (drop (nat p) buffer) n (tr_work x) = Inr s"
      "y = tr_to t (C_Recv sid buffer len (p + uint n))
        (x\<lparr>tr_work := s, tr_log := tr_log x @ [(sid, take (unat n) (drop (nat p) buffer), asked_job t s)]\<rparr>)"
  using assms
  by (cases "tr_at x t") (auto simp: recv_turn_def Let_def rbind_eq_Inr split: if_splits)

lemma tr_fields [simp]:
  "tr_work (tr_to t pc x) = tr_work x" "tr_sess (tr_to t pc x) = tr_sess x" "tr_next (tr_to t pc x) = tr_next x"
  "tr_at (tr_to t pc x) = (tr_at x)(t := pc)" "tr_stream (tr_to t pc x) = tr_stream x" "tr_log (tr_to t pc x) = tr_log x"
  "tr_pushed (tr_to t pc x) = tr_pushed x"
  "tr_work (tr_session sid s x) = tr_work x" "tr_sess (tr_session sid s x) = (tr_sess x)(sid := s)"
  "tr_next (tr_session sid s x) = tr_next x" "tr_at (tr_session sid s x) = tr_at x"
  "tr_stream (tr_session sid s x) = tr_stream x" "tr_log (tr_session sid s x) = tr_log x"
  "tr_pushed (tr_session sid s x) = tr_pushed x"
  by (simp_all add: tr_to_def tr_session_def)

lemma loop_turn_fields [simp]:
  "tr_work (loop_turn t s x) = s" "tr_sess (loop_turn t s x) = tr_sess x" "tr_next (loop_turn t s x) = tr_next x"
  "tr_stream (loop_turn t s x) = tr_stream x" "tr_log (loop_turn t s x) = tr_log x"
  "tr_at (loop_turn t s x) = (if wk_phase s t = W_Dispatch then tr_at x else (tr_at x)(t := C_None))"
  by (simp_all add: loop_turn_def Let_def)

lemma traffic_worker_step: "traffic_step L x y \<Longrightarrow> (worker_step L)\<^sup>*\<^sup>* (tr_work x) (tr_work y)"
proof (induction rule: traffic_step.induct)
  case (tr_accept x t s io dio s' w)
  have "w = OnConnected (tr_next x) (wk_world (tr_work x))"
    using tr_accept(3) by (auto simp: ProcessConnect_def rbind_eq_Inr Let_def)
  then show ?case using tr_accept(1) wk_connected[of "tr_work x" t L "tr_next x"] by (simp add: dispatching_def r_into_rtranclp)
next
  case (tr_receive x t sid bs dio c)
  then show ?case by (cases c) (simp_all add: recv_begin_def)
next
  case (tr_packet x t io dio y)
  from tr_packet(2) show ?case
    by (cases rule: recv_turn_cases) (simp_all add: packet_start_step[OF _ tr_packet(1)])
next
  case (tr_disconnected x t sid)
  then show ?case by (simp add: dispatching_def wk_disconnected r_into_rtranclp)
next
  case (tr_loop t x s)
  then show ?case by (simp add: wk_loop r_into_rtranclp)
qed simp

lemma traffic_worker: "reach traffic_init (traffic_step L) x \<Longrightarrow> reach worker_init (worker_step L) (tr_work x)"
proof (induction rule: reach.induct)
  case (reach_init x)
  then show ?case by (simp add: traffic_init_def reach.reach_init)
next
  case (reach_step x y)
  then show ?case using reach_run[OF traffic_worker_step] by blast
qed

section \<open>Jobs on their way into a queue\<close>

text \<open>The job thread t has asked for and not yet put into the queue of room r.\<close>

fun pending :: "closure push_pc \<Rightarrow> nat \<Rightarrow> closure list" where
  "pending (P_Add q job pushOnly) r = (if q = r then [job] else [])"
| "pending (P_Queue q job n pushOnly) r = (if q = r then [job] else [])"
| "pending pc r = []"

definition in_push :: "worker_sys \<Rightarrow> u32 \<Rightarrow> nat \<Rightarrow> closure list" where
  "in_push s t = pending (push_at (wk_jobs s) t)"

text \<open>What a step of a thread's loop adds to the queues, and what it leaves of the other threads.\<close>

definition adds :: "worker_sys \<Rightarrow> worker_sys \<Rightarrow> nat \<Rightarrow> closure list" where
  "adds s s' r = drop (length (pushed (wk_jobs s) r)) (pushed (wk_jobs s') r)"

lemma pushed_Push:
  "\<exists>new. pushed (JobQueue_Push (push_at s t) t s) r = pushed s r @ new
    \<and> new @ pending (push_at (JobQueue_Push (push_at s t) t s) t) r = pending (push_at s t) r"
  "u \<noteq> t \<Longrightarrow> push_at (JobQueue_Push (push_at s t) t s) u = push_at s u"
  by (cases "push_at s t"; simp add: job_defs Execute_begin_def Let_def)+

lemma pushed_Execute:
  "pushed (JobQueue_Execute late pc t s) = pushed s" "push_at (JobQueue_Execute late pc t s) = push_at s"
  by (cases "(late, pc, t, s)" rule: JobQueue_Execute.cases; simp add: job_defs Let_def split: prod.split)+

lemma pushed_Global:
  "pushed (GlobalQueueWork t s) = pushed s" "push_at (GlobalQueueWork t s) = push_at s"
  by (simp_all add: GlobalQueueWork_def job_defs Execute_begin_def split: prod.split option.split)

lemma DoAsync_jobs:
  "pushed (wk_jobs (DoAsync t q job s)) = pushed (wk_jobs s)"
  "push_at (wk_jobs (DoAsync t q job s)) = (push_at (wk_jobs s))(t := P_Add q job False)"
  "wk_phase (DoAsync t q job s) = wk_phase s"
  by (simp_all add: DoAsync_def to_push_def)

lemma distribute_jobs:
  "pushed (wk_jobs (distribute_turn alive t s)) = pushed (wk_jobs s)"
  "u \<noteq> t \<Longrightarrow> push_at (wk_jobs (distribute_turn alive t s)) u = push_at (wk_jobs s) u"
  "u \<noteq> t \<Longrightarrow> wk_phase (distribute_turn alive t s) u = wk_phase s u"
  by (auto simp: distribute_turn_def Let_def to_phase_def DoAsync_jobs split: list.split)

lemma global_jobs:
  "pushed (wk_jobs (DoGlobalQueueWork now t s)) = pushed (wk_jobs s)"
  "push_at (wk_jobs (DoGlobalQueueWork now t s)) = push_at (wk_jobs s)"
  "u \<noteq> t \<Longrightarrow> wk_phase (DoGlobalQueueWork now t s) u = wk_phase s u"
  by (simp_all add: DoGlobalQueueWork_def Let_def to_phase_def pushed_Global)

lemma loop_step_adds:
  assumes "loop_step L t s s'"
  shows "pushed (wk_jobs s') r = pushed (wk_jobs s) r @ adds s s' r"
    and "u \<noteq> t \<Longrightarrow> push_at (wk_jobs s') u = push_at (wk_jobs s) u \<and> wk_phase s' u = wk_phase s u"
proof -
  have "\<exists>new. pushed (wk_jobs s') r = pushed (wk_jobs s) r @ new"
    using assms
  proof (cases rule: loop_step.cases)
    case lp_push
    then show ?thesis using pushed_Push(1)[of "wk_jobs s" t r] by (auto simp: push_turn_def)
  qed (simp_all add: worker_defs distribute_jobs global_jobs pushed_Execute)
  then show "pushed (wk_jobs s') r = pushed (wk_jobs s) r @ adds s s' r" by (auto simp: adds_def)
  show "u \<noteq> t \<Longrightarrow> push_at (wk_jobs s') u = push_at (wk_jobs s) u \<and> wk_phase s' u = wk_phase s u"
    using assms by (cases rule: loop_step.cases)
      (simp_all add: worker_defs distribute_jobs global_jobs pushed_Execute pushed_Push(2))
qed

text \<open>Inside a handler the thread only moves its own job into the queue.\<close>

lemma loop_step_handler:
  assumes "loop_step L t s s'" and "wk_phase s t = W_Dispatch" and "\<not> wk_ready s t W_Dispatch"
  shows "wk_phase s' t = W_Dispatch" and "adds s s' r @ in_push s' t r = in_push s t r"
proof -
  have "wk_phase s' t = W_Dispatch \<and> adds s s' r @ in_push s' t r = in_push s t r"
    using assms(1)
  proof (cases rule: loop_step.cases)
    case lp_push
    then show ?thesis using pushed_Push(1)[of "wk_jobs s" t r] assms(2) by (auto simp: push_turn_def adds_def in_push_def)
  qed (use assms(2,3) in \<open>simp_all add: worker_defs adds_def in_push_def pushed_Execute wk_ready_def\<close>)
  then show "wk_phase s' t = W_Dispatch" "adds s s' r @ in_push s' t r = in_push s t r" by simp_all
qed

lemma start_disconnected_jobs:
  "pushed (wk_jobs (start_disconnected t sid s)) = pushed (wk_jobs s)"
  "u \<noteq> t \<Longrightarrow> push_at (wk_jobs (start_disconnected t sid s)) u = push_at (wk_jobs s) u"
  "wk_phase (start_disconnected t sid s) = wk_phase s"
  by (simp_all add: start_disconnected_def Let_def set_rest_def DoAsync_jobs split: prod.split option.split)

lemma packet_start_jobs:
  assumes "packet_start L t sid buffer len s = Inr s'" and "push_at (wk_jobs s) t = P_None"
  shows "pushed (wk_jobs s') = pushed (wk_jobs s)" and "wk_phase s' = wk_phase s"
    and "u \<noteq> t \<Longrightarrow> push_at (wk_jobs s') u = push_at (wk_jobs s) u"
    and "in_push s' t r = (case asked_job t s' of None \<Rightarrow> [] | Some (q, job) \<Rightarrow> if q = r then [job] else [])"
  using packet_start_cases[OF assms(1)] assms(2)
  by (elim disjE exE conjE; simp add: DoAsync_jobs set_rest_def in_push_def asked_job_def)+

section \<open>The buffer of a session\<close>

lemma Disconnect_recv [simp]:
  "m_recvBuffer (Session_IO.Disconnect io s) = m_recvBuffer s" "m_recvEvent (Session_IO.Disconnect io s) = m_recvEvent s"
  by (cases io; simp add: Session_IO.Disconnect_def RegisterDisconnect_def Let_def)+

lemma RegisterRecv_buffer: "RegisterRecv io dio s = Inr s' \<Longrightarrow> m_recvBuffer s' = m_recvBuffer s"
  by (auto simp: RegisterRecv_def HandleError_def Let_def rbind_eq_Inr split: if_splits io_answer.splits)

lemma socket_store_nothing: "socket_store [] b = b"
  by (simp add: socket_store_def overwrite_def)

lemma Recv_before_ends:
  assumes "Recv_before dio (int (length bs)) (recv_store bs s) = Inr (Recv_ends s')"
    and "int (length bs) \<le> FreeSize (m_recvBuffer s)"
  shows "bs = []" "m_recvBuffer s' = m_recvBuffer s" "\<not> m_recvEvent s'"
  using assms
  by (auto simp: Recv_before_def recv_store_def OnWrite_def Let_def rbind_eq_Inr socket_store_fields socket_store_nothing
      split: if_splits)

lemma Recv_before_packets:
  assumes r: "Recv_before dio (int (length bs)) (recv_store bs s) = Inr (Recv_packets s' buffer n)"
    and inv: "rb_inv (m_recvBuffer s)" and fit: "int (length bs) \<le> FreeSize (m_recvBuffer s)"
  shows "rb_inv (m_recvBuffer s')" "buffer = data_of s'" "data_of s' = data_of s @ bs" "n = int (length buffer)"
    "length buffer < 2 ^ 31" "\<not> m_recvEvent s'"
proof -
  obtain ok b where w: "OnWrite (int (length bs)) (socket_store bs (m_recvBuffer s)) = (ok, b)" by fastforce
  note d = OnWrite_data[OF inv fit w]
  have inv': "rb_inv b" by (rule OnWrite_inv[OF socket_store_inv[OF inv fit] _ w]) simp
  obtain pos where pos: "ReadPos b = Inr pos" and s': "s' = (recv_store bs s)\<lparr>m_recvEvent := False, m_recvBuffer := b\<rparr>"
    and buf: "buffer = slice pos (nat (DataSize b)) (m_buffer b)" "n = DataSize b"
    using r d by (auto simp: Recv_before_def recv_store_def Let_def w rbind_eq_Inr split: if_splits)
  have p: "pos = nat (m_readPos b)" using pos by (auto simp: ReadPos_def vec_at_def split: if_splits)
  show "rb_inv (m_recvBuffer s')" "\<not> m_recvEvent s'" using inv' by (simp_all add: s')
  show bd: "buffer = data_of s'" "data_of s' = data_of s @ bs" using d by (simp_all add: s' buf p data_of_def rb_data_def)
  show n: "n = int (length buffer)" using rb_inv_length[OF inv'] by (simp add: buf(2) bd(1) s' data_of_def)
  have "fits_i32 n" using rb_inv_fits[OF inv'] buf(2) by simp
  then show "length buffer < 2 ^ 31" using n by (simp add: fits_i32_def)
qed

lemma Recv_after_data:
  assumes r: "Recv_after io dio (int (length (data_of s))) p s = Inr s'" and inv: "rb_inv (m_recvBuffer s)"
    and p: "0 \<le> p" "p \<le> int (length (data_of s))"
  shows "rb_inv (m_recvBuffer s')" "data_of s' = drop (nat p) (data_of s)"
proof -
  have n: "DataSize (m_recvBuffer s) = int (length (data_of s))" using rb_inv_length[OF inv] by (simp add: data_of_def)
  obtain b2 where rd: "OnRead p (m_recvBuffer s) = (True, b2)" using p n by (simp add: OnRead_def)
  note inv2 = OnRead_inv[OF inv p(1) rd] and d2 = OnRead_data[OF inv p(1) rd]
  obtain b3 where cl: "Clean b2 = Inr b3" and reg: "RegisterRecv io dio (s\<lparr>m_recvBuffer := b3\<rparr>) = Inr s'"
    using r p rd by (auto simp: Recv_after_def rbind_eq_Inr)
  note c = Clean_inv_data[OF inv2 cl] and b = RegisterRecv_buffer[OF reg]
  show "rb_inv (m_recvBuffer s')" "data_of s' = drop (nat p) (data_of s)" using c b d2 by (simp_all add: data_of_def)
qed

section \<open>The invariant\<close>

text \<open>The packets of a session that were handled, empty ones apart; the jobs they asked for in room r;
  and those of them that are in the room's queue.\<close>

definition handled :: "traffic \<Rightarrow> nat \<Rightarrow> byte list list" where
  "handled x sid = map (fst \<circ> snd) (filter (\<lambda>e. fst e = sid \<and> fst (snd e) \<noteq> []) (tr_log x))"

fun entry_jobs :: "nat \<Rightarrow> nat \<Rightarrow> packet_entry \<Rightarrow> closure list" where
  "entry_jobs sid r (s, f, Some (q, job)) = (if s = sid \<and> q = r then [job] else [])"
| "entry_jobs sid r (s, f, None) = []"

definition asked :: "traffic \<Rightarrow> nat \<Rightarrow> nat \<Rightarrow> closure list" where
  "asked x sid = (\<lambda>r. concat (map (entry_jobs sid r) (tr_log x)))"

definition tagged :: "traffic \<Rightarrow> nat \<Rightarrow> nat \<Rightarrow> closure list" where
  "tagged x sid = (\<lambda>r. map snd (filter (\<lambda>e. fst e = Some sid) (tr_pushed x r)))"

text \<open>The session's stream is what was handled and the packets of the rest; the jobs it asked for are in
  the queues but for those in pend.\<close>

definition stream_ok :: "traffic \<Rightarrow> nat \<Rightarrow> byte list \<Rightarrow> bool" where
  "stream_ok x sid rest \<longleftrightarrow>
     split_frames (tr_stream x sid) = (handled x sid @ fst (split_frames rest), snd (split_frames rest))"

definition jobs_ok :: "traffic \<Rightarrow> nat \<Rightarrow> (nat \<Rightarrow> closure list) \<Rightarrow> bool" where
  "jobs_ok x sid way \<longleftrightarrow> (\<forall>r. asked x sid r = tagged x sid r @ way r)"

definition reading_ok :: "traffic \<Rightarrow> u32 \<Rightarrow> nat \<Rightarrow> byte list \<Rightarrow> int \<Rightarrow> int \<Rightarrow> bool" where
  "reading_ok x t sid b n p \<longleftrightarrow> wk_phase (tr_work x) t = W_Dispatch \<and> sid < tr_next x \<and> \<not> m_recvEvent (tr_sess x sid)
     \<and> b = data_of (tr_sess x sid) \<and> n = int (length b) \<and> length b < 2 ^ 31 \<and> 0 \<le> p \<and> p \<le> n
     \<and> stream_ok x sid (drop (nat p) b) \<and> jobs_ok x sid (in_push (tr_work x) t)"

definition resting_ok :: "traffic \<Rightarrow> nat \<Rightarrow> bool" where
  "resting_ok x sid \<longleftrightarrow> split_frames (tr_stream x sid) = (handled x sid, data_of (tr_sess x sid))
     \<and> split_frames (data_of (tr_sess x sid)) = ([], data_of (tr_sess x sid)) \<and> jobs_ok x sid (\<lambda>_. [])"

definition traffic_inv :: "traffic \<Rightarrow> bool" where
  "traffic_inv x \<longleftrightarrow> (\<forall>sid. rb_inv (m_recvBuffer (tr_sess x sid)))
     \<and> (\<forall>t sid b n p. tr_at x t = C_Recv sid b n p \<longrightarrow> reading_ok x t sid b n p)
     \<and> (\<forall>t u sid. recv_session (tr_at x t) = Some sid \<longrightarrow> recv_session (tr_at x u) = Some sid \<longrightarrow> t = u)
     \<and> (\<forall>sid. (\<forall>t. recv_session (tr_at x t) \<noteq> Some sid) \<longrightarrow> resting_ok x sid)
     \<and> (\<forall>sid \<ge> tr_next x. \<not> m_recvEvent (tr_sess x sid) \<and> data_of (tr_sess x sid) = [])
     \<and> (\<forall>r. map snd (tr_pushed x r) = pushed (wk_jobs (tr_work x)) r)"

lemma traffic_invD:
  assumes "traffic_inv x"
  shows "rb_inv (m_recvBuffer (tr_sess x sid))" "tr_at x t = C_Recv sid b n p \<Longrightarrow> reading_ok x t sid b n p"
    "recv_session (tr_at x t) = Some sid \<Longrightarrow> recv_session (tr_at x u) = Some sid \<Longrightarrow> t = u"
    "(\<And>t. recv_session (tr_at x t) \<noteq> Some sid) \<Longrightarrow> resting_ok x sid"
    "tr_next x \<le> sid \<Longrightarrow> \<not> m_recvEvent (tr_sess x sid) \<and> data_of (tr_sess x sid) = []"
    "map snd (tr_pushed x r) = pushed (wk_jobs (tr_work x)) r"
  using assms unfolding traffic_inv_def by blast+

lemma recv_session_Some: "recv_session pc = Some sid \<longleftrightarrow> (\<exists>b n p. pc = C_Recv sid b n p)"
  by (cases pc) auto

text \<open>What a session's own fields say of it in another state.\<close>

definition same_session :: "traffic \<Rightarrow> traffic \<Rightarrow> nat \<Rightarrow> bool" where
  "same_session x y sid \<longleftrightarrow> tr_stream y sid = tr_stream x sid \<and> handled y sid = handled x sid
     \<and> asked y sid = asked x sid \<and> tagged y sid = tagged x sid \<and> data_of (tr_sess y sid) = data_of (tr_sess x sid)
     \<and> (m_recvEvent (tr_sess y sid) \<longrightarrow> m_recvEvent (tr_sess x sid) \<or> tr_next x \<le> sid \<and> sid < tr_next y)"

definition same_thread :: "traffic \<Rightarrow> traffic \<Rightarrow> u32 \<Rightarrow> bool" where
  "same_thread x y u \<longleftrightarrow> tr_at y u = tr_at x u \<and> push_at (wk_jobs (tr_work y)) u = push_at (wk_jobs (tr_work x)) u
     \<and> wk_phase (tr_work y) u = wk_phase (tr_work x) u"

lemma same_reading:
  assumes "reading_ok x u sid b n p" "same_session x y sid" "same_thread x y u" "tr_next x \<le> tr_next y"
  shows "reading_ok y u sid b n p"
  using assms by (auto simp: reading_ok_def same_session_def same_thread_def stream_ok_def jobs_ok_def in_push_def)

lemma same_resting: "resting_ok x sid \<Longrightarrow> same_session x y sid \<Longrightarrow> resting_ok y sid"
  by (simp add: resting_ok_def same_session_def jobs_ok_def)

text \<open>A step no reader takes part in.\<close>

lemma traffic_quiet_inv:
  assumes inv: "traffic_inv x" and nxt: "tr_next x \<le> tr_next y"
    and ses: "\<And>sid. same_session x y sid" and rb: "\<And>sid. rb_inv (m_recvBuffer (tr_sess y sid))"
    and reader: "\<And>u. recv_session (tr_at x u) \<noteq> None \<Longrightarrow> same_thread x y u"
    and other: "\<And>u. recv_session (tr_at x u) = None \<Longrightarrow> recv_session (tr_at y u) = None"
    and push: "\<And>r. map snd (tr_pushed y r) = pushed (wk_jobs (tr_work y)) r"
  shows "traffic_inv y"
proof -
  note D = traffic_invD[OF inv]
  have at: "recv_session (tr_at y u) = recv_session (tr_at x u)" for u
    using reader[of u] other[of u] by (cases "recv_session (tr_at x u)") (auto simp: same_thread_def)
  have "reading_ok y u sid b n p" if "tr_at y u = C_Recv sid b n p" for u sid b n p
  proof -
    have r: "recv_session (tr_at x u) \<noteq> None" unfolding at[symmetric] that by simp
    then have "tr_at x u = C_Recv sid b n p" using reader[OF r] that by (simp add: same_thread_def)
    then show ?thesis using same_reading[OF D(2) ses reader[OF r] nxt] by blast
  qed
  moreover have "resting_ok y sid" if "\<And>u. recv_session (tr_at y u) \<noteq> Some sid" for sid
    using same_resting[OF D(4) ses] that at by simp
  moreover have "\<not> m_recvEvent (tr_sess y sid) \<and> data_of (tr_sess y sid) = []" if "tr_next y \<le> sid" for sid
    using that nxt D(5)[of sid] ses[of sid] by (auto simp: same_session_def)
  ultimately show ?thesis using rb push D(3) unfolding traffic_inv_def at by blast
qed

text \<open>A step of the one thread that reads session sid, before or after it.\<close>

lemma reader_inv:
  assumes inv: "traffic_inv x" and nxt: "tr_next y = tr_next x" "sid < tr_next x"
    and ses: "\<And>k. k \<noteq> sid \<Longrightarrow> same_session x y k \<and> tr_sess y k = tr_sess x k"
    and thr: "\<And>u. u \<noteq> t \<Longrightarrow> same_thread x y u \<and> recv_session (tr_at x u) \<noteq> Some sid"
    and me: "recv_session (tr_at x t) = None \<or> recv_session (tr_at x t) = Some sid"
    and rb: "rb_inv (m_recvBuffer (tr_sess y sid))"
    and push: "\<And>r. map snd (tr_pushed y r) = pushed (wk_jobs (tr_work y)) r"
    and now: "(\<exists>b n p. tr_at y t = C_Recv sid b n p \<and> reading_ok y t sid b n p)
      \<or> recv_session (tr_at y t) = None \<and> resting_ok y sid"
  shows "traffic_inv y"
proof -
  note D = traffic_invD[OF inv]
  have at: "recv_session (tr_at y u) = recv_session (tr_at x u)" if "u \<noteq> t" for u
    using thr[OF that] by (simp add: same_thread_def)
  have "reading_ok y u k b n p" if r: "tr_at y u = C_Recv k b n p" for u k b n p
  proof (cases "u = t")
    case True
    then show ?thesis using r now by auto
  next
    case False
    then have "tr_at x u = C_Recv k b n p" using thr[OF False] r by (simp add: same_thread_def)
    moreover from this have "k \<noteq> sid" using thr[OF False] by auto
    ultimately show ?thesis using same_reading[OF D(2)] thr[OF False] ses nxt by simp
  qed
  moreover have "u = v" if "recv_session (tr_at y u) = Some k" "recv_session (tr_at y v) = Some k" for u v k
  proof (cases "k = sid")
    case True
    then show ?thesis using that at thr by metis
  next
    case False
    then have "u \<noteq> t" "v \<noteq> t" using that now by auto
    then show ?thesis using that at D(3) by metis
  qed
  moreover have "resting_ok y k" if "\<And>u. recv_session (tr_at y u) \<noteq> Some k" for k
  proof (cases "k = sid")
    case True
    then show ?thesis using now that[of t] by auto
  next
    case False
    have "recv_session (tr_at x u) \<noteq> Some k" for u
      using that[of u] at[of u] me False by (cases "u = t") auto
    then show ?thesis using same_resting[OF D(4)] ses[OF False] by blast
  qed
  moreover have "\<not> m_recvEvent (tr_sess y k) \<and> data_of (tr_sess y k) = []" if "tr_next y \<le> k" for k
    using that nxt D(5)[of k] ses[of k] by auto
  moreover have "rb_inv (m_recvBuffer (tr_sess y k))" for k using rb ses[of k] D(1)[of k] by (cases "k = sid") auto
  ultimately show ?thesis using push unfolding traffic_inv_def by blast
qed

section \<open>Every step keeps it\<close>

lemmas record_defs = handled_def asked_def tagged_def

lemma accept_inv:
  assumes inv: "traffic_inv x" and d: "dispatching x t" and s: "new_session = Inr s"
    and c: "ProcessConnect f io dio s w0 = Inr (s', w)"
  shows "traffic_inv (tr_to t C_Done (tr_session (tr_next x) s'
    (x\<lparr>tr_next := tr_next x + 1, tr_work := (tr_work x)\<lparr>wk_world := w\<rparr>\<rparr>)))" (is "traffic_inv ?y")
proof -
  note D = traffic_invD[OF inv]
  obtain b where b: "RecvBuffer BUFFER_SIZE = Inr b" using RecvBuffer_ok by blast
  have "m_recvBuffer s' = b"
    using c s b by (auto simp: new_session_def ProcessConnect_def rbind_eq_Inr Let_def dest!: RegisterRecv_buffer)
  then have s': "rb_inv (m_recvBuffer s')" "data_of s' = []" using fresh_buffer[OF b] by (simp_all add: data_of_def)
  show ?thesis
  proof (rule traffic_quiet_inv[OF inv])
    show "same_session x ?y sid" for sid
      using D(5)[of sid] s' by (auto simp: same_session_def record_defs)
    show "rb_inv (m_recvBuffer (tr_sess ?y sid))" for sid using D(1)[of sid] s' by simp
    show "map snd (tr_pushed ?y r) = pushed (wk_jobs (tr_work ?y)) r" for r using D(6) by simp
  qed (use d in \<open>auto simp: same_thread_def dispatching_def\<close>)
qed

lemma receive_inv:
  assumes inv: "traffic_inv x" and d: "dispatching x t" and e: "m_recvEvent (tr_sess x sid)"
    and fit: "int (length bs) \<le> FreeSize (m_recvBuffer (tr_sess x sid))"
    and c: "Recv_before dio (int (length bs)) (recv_store bs (tr_sess x sid)) = Inr c"
  shows "traffic_inv (recv_begin t sid bs c x)"
proof -
  note D = traffic_invD[OF inv]
  have none: "recv_session (tr_at x u) \<noteq> Some sid" for u
    using D(2)[of u sid] e by (auto simp: recv_session_Some reading_ok_def)
  have sid: "sid < tr_next x" using D(5)[of sid] e by (meson not_le)
  note rest = D(4)[OF none, unfolded resting_ok_def]
  show ?thesis
  proof (cases c)
    case (Recv_ends s)
    note b = Recv_before_ends[OF c[unfolded Recv_ends] fit]
    show ?thesis
    proof (rule traffic_quiet_inv[OF inv])
      show "same_session x (recv_begin t sid bs c x) k" for k
        using b e by (simp add: recv_begin_def Recv_ends same_session_def record_defs data_of_def)
      show "rb_inv (m_recvBuffer (tr_sess (recv_begin t sid bs c x) k))" for k
        using D(1) b by (simp add: recv_begin_def Recv_ends)
      show "map snd (tr_pushed (recv_begin t sid bs c x) r) = pushed (wk_jobs (tr_work (recv_begin t sid bs c x))) r" for r
        using D(6) by (simp add: recv_begin_def Recv_ends)
    qed (use d in \<open>auto simp: same_thread_def dispatching_def recv_begin_def Recv_ends\<close>)
  next
    case (Recv_packets s buffer n)
    note b = Recv_before_packets[OF c[unfolded Recv_packets] D(1) fit]
    let ?y = "recv_begin t sid bs c x"
    have y: "tr_at ?y = (tr_at x)(t := C_Recv sid buffer n 0)" "tr_sess ?y = (tr_sess x)(sid := s)"
      "tr_stream ?y = (tr_stream x)(sid := tr_stream x sid @ bs)" "tr_log ?y = tr_log x" "tr_pushed ?y = tr_pushed x"
      "tr_work ?y = tr_work x" "tr_next ?y = tr_next x"
      by (simp_all add: recv_begin_def Recv_packets)
    have "stream_ok ?y sid buffer"
      using split_frames_append[of "tr_stream x sid" "handled x sid" "data_of (tr_sess x sid)" bs] rest b
      by (simp add: stream_ok_def y record_defs)
    moreover have "in_push (tr_work x) t r = []" for r
      using d by (simp add: in_push_def dispatching_def wk_ready_def idle_def)
    then have "jobs_ok ?y sid (in_push (tr_work ?y) t)" using rest by (simp add: jobs_ok_def y record_defs)
    ultimately have "reading_ok ?y t sid buffer n 0"
      using d b sid by (simp add: reading_ok_def y dispatching_def wk_ready_def)
    then show ?thesis
      using d none D(6) b(1) by (intro reader_inv[OF inv _ sid, where t = t])
        (auto simp: y same_session_def same_thread_def record_defs dispatching_def)
  qed
qed

lemma recv_finish_inv:
  assumes inv: "traffic_inv x" and r: "wk_ready (tr_work x) t W_Dispatch" and at: "tr_at x t = C_Recv sid b n p"
    and stop: "to_size_t (n - p) < int sizeof_PacketHeader \<or> n - p < uint (hd_size (read_header (drop (nat p) b)))"
    and a: "Recv_after io dio n p (tr_sess x sid) = Inr s"
  shows "traffic_inv (tr_to t C_Done (tr_session sid s x))"
proof -
  note D = traffic_invD[OF inv]
  note R = D(2)[OF at, unfolded reading_ok_def]
  have b: "b = data_of (tr_sess x sid)" "n = int (length b)" "length b < 2 ^ 31" "0 \<le> p" "p \<le> n" using R by blast+
  have "incomplete (drop (nat p) b)"
    using stop loop_size[of p b, OF b(4) _ b(3)] b(5) uint_frame_len[of "drop (nat p) b"]
    by (auto simp: incomplete_def sizeof_PacketHeader_def b(2))
  then have stop: "split_frames (drop (nat p) b) = ([], drop (nat p) b)" by (simp add: split_frames_stop)
  have after: "rb_inv (m_recvBuffer s)" "data_of s = drop (nat p) b"
    using Recv_after_data[of io dio "tr_sess x sid" p s] a D(1)[of sid] b(2,4,5) by (simp_all flip: b(1))
  have "in_push (tr_work x) t q = []" for q using r by (simp add: in_push_def wk_ready_def idle_def)
  then have "resting_ok (tr_to t C_Done (tr_session sid s x)) sid"
    using R after stop by (simp add: resting_ok_def stream_ok_def jobs_ok_def record_defs)
  moreover have "recv_session (tr_at x u) \<noteq> Some sid" if "u \<noteq> t" for u using D(3)[of t sid u] at that by auto
  ultimately show ?thesis
    using R after D(6) at by (intro reader_inv[OF inv, where t = t and sid = sid])
      (auto simp: same_session_def same_thread_def record_defs)
qed

text \<open>A packet that is handled moves from the rest of the stream to the packets handled.\<close>

lemma split_frames_take:
  assumes "\<not> incomplete m"
  shows "split_frames m = ((if take (frame_len m) m = [] then [] else [take (frame_len m) m])
    @ fst (split_frames (drop (frame_len m) m)), snd (split_frames (drop (frame_len m) m)))"
proof (cases "stuck m")
  case True
  then show ?thesis by (simp add: split_frames_stop stuck_def)
next
  case False
  have "take (frame_len m) m \<noteq> []" using assms False by (auto simp: incomplete_def stuck_def)
  then show ?thesis using split_frames_step[OF assms False] by simp
qed

lemma handle_inv:
  assumes inv: "traffic_inv x" and r: "wk_ready (tr_work x) t W_Dispatch" and at: "tr_at x t = C_Recv sid b n p"
    and k: "k = hd_size (read_header (drop (nat p) b))"
    and go: "\<not> to_size_t (n - p) < int sizeof_PacketHeader" "\<not> n - p < uint k"
    and h: "packet_start L t sid (drop (nat p) b) k (tr_work x) = Inr s"
  shows "traffic_inv (tr_to t (C_Recv sid b n (p + uint k))
    (x\<lparr>tr_work := s, tr_log := tr_log x @ [(sid, take (unat k) (drop (nat p) b), asked_job t s)]\<rparr>))" (is "traffic_inv ?y")
proof -
  note D = traffic_invD[OF inv]
  note R = D(2)[OF at, unfolded reading_ok_def]
  let ?m = "drop (nat p) b"
  have b: "n = int (length b)" "length b < 2 ^ 31" "0 \<le> p" "p \<le> n" using R by blast+
  have k': "uint k = int (frame_len ?m)" "unat k = frame_len ?m" by (simp_all add: k frame_len_def)
  have inc: "\<not> incomplete ?m"
  proof -
    have "n - p = int (length ?m)" "to_size_t (n - p) = int (length ?m)"
      using loop_size[of p b, OF b(3) _ b(2)] b(1,4) by simp_all
    then show ?thesis using go k'(1) by (auto simp only: incomplete_def sizeof_PacketHeader_def of_nat_less_iff)
  qed
  have idle: "push_at (wk_jobs (tr_work x)) t = P_None" using r by (simp add: wk_ready_def idle_def)
  note J = packet_start_jobs[OF h idle]
  have "stream_ok ?y sid (drop (nat (p + uint k)) b)"
  proof -
    have "drop (nat (p + uint k)) b = drop (frame_len ?m) ?m" using b(3) by (simp add: k'(1) nat_add_distrib add.commute)
    moreover have "handled ?y sid = handled x sid @ (if take (frame_len ?m) ?m = [] then [] else [take (frame_len ?m) ?m])"
      by (simp add: handled_def k'(2))
    ultimately show ?thesis
      using R split_frames_take[OF inc] unfolding stream_ok_def by (simp del: drop_drop)
  qed
  moreover have "jobs_ok ?y sid (in_push (tr_work ?y) t)"
  proof -
    have "in_push (tr_work x) t q = []" for q using idle by (simp add: in_push_def)
    then have "asked x sid q = tagged x sid q" for q using R by (simp add: jobs_ok_def)
    then show ?thesis
      by (auto simp: jobs_ok_def asked_def tagged_def J(4) fun_eq_iff split: option.split)
  qed
  moreover have "p + uint k \<le> n" using go(2) by simp
  ultimately have "reading_ok ?y t sid b n (p + uint k)" using R b by (simp add: reading_ok_def J(2))
  moreover have "recv_session (tr_at x u) \<noteq> Some sid" if "u \<noteq> t" for u using D(3)[of t sid u] at that by auto
  moreover have "same_session x ?y q" if "q \<noteq> sid" for q
    using that by (cases "asked_job t s") (auto simp: same_session_def record_defs fun_eq_iff)
  ultimately show ?thesis
    using R D(1,6) J at by (intro reader_inv[OF inv, where t = t and sid = sid]) (auto simp: same_thread_def)
qed

lemma loop_pushed: "tr_pushed (loop_turn t s x) r = tr_pushed x r @ map (Pair (recv_session (tr_at x t))) (adds (tr_work x) s r)"
  by (simp add: loop_turn_def Let_def adds_def)

lemma loop_inv:
  assumes inv: "traffic_inv x" and l: "loop_step L t (tr_work x) s"
    and free: "wk_ready (tr_work x) t W_Dispatch \<Longrightarrow> recv_session (tr_at x t) = None"
  shows "traffic_inv (loop_turn t s x)" (is "traffic_inv ?y")
proof -
  note D = traffic_invD[OF inv]
  have push: "map snd (tr_pushed ?y r) = pushed (wk_jobs (tr_work ?y)) r" for r
    using D(6)[of r] loop_step_adds(1)[OF l, of r] by (simp add: loop_pushed comp_def)
  show ?thesis
  proof (cases "recv_session (tr_at x t)")
    case None
    have tag: "tagged ?y k = tagged x k" for k
      by (simp add: tagged_def loop_pushed None filter_empty_conv fun_eq_iff)
    show ?thesis
    proof (rule traffic_quiet_inv[OF inv _ _ _ _ _ push])
      show "same_session x ?y k" for k using tag by (simp add: same_session_def handled_def asked_def)
      show "same_thread x ?y u" if "recv_session (tr_at x u) \<noteq> None" for u
        using that None loop_step_adds(2)[OF l, of u] by (cases "u = t") (auto simp: same_thread_def)
    qed (use D(1) None in \<open>auto\<close>)
  next
    case (Some sid)
    then obtain b n p where at: "tr_at x t = C_Recv sid b n p" by (auto simp: recv_session_Some)
    note R = D(2)[OF at, unfolded reading_ok_def]
    have ph: "wk_phase (tr_work x) t = W_Dispatch" "\<not> wk_ready (tr_work x) t W_Dispatch" using R free Some by auto
    note H = loop_step_handler[OF l ph]
    have tag: "tagged ?y k r = tagged x k r @ (if k = sid then adds (tr_work x) s r else [])" for k r
      by (simp add: tagged_def loop_pushed Some comp_def filter_empty_conv)
    have "asked x sid r = tagged x sid r @ in_push (tr_work x) t r" for r using R by (simp add: jobs_ok_def)
    then have "jobs_ok ?y sid (in_push (tr_work ?y) t)"
      using H(2) by (simp add: jobs_ok_def tag asked_def)
    moreover have "handled ?y = handled x" by (simp add: handled_def fun_eq_iff)
    ultimately have "reading_ok ?y t sid b n p" using R H(1) by (auto simp: reading_ok_def stream_ok_def)
    moreover have "recv_session (tr_at x u) \<noteq> Some sid" if "u \<noteq> t" for u using D(3)[of t sid u] at that by auto
    moreover have "same_session x ?y k" if "k \<noteq> sid" for k
      using that tag by (simp add: same_session_def handled_def asked_def fun_eq_iff)
    ultimately show ?thesis
      using R D(1) at loop_step_adds(2)[OF l] H(1) by (intro reader_inv[OF inv _ _ _ _ _ _ push, where t = t and sid = sid])
        (auto simp: same_thread_def)
  qed
qed

lemma traffic_inv_step:
  assumes "traffic_inv x" and "traffic_step L x y"
  shows "traffic_inv y"
  using assms(2)
proof (cases rule: traffic_step.cases)
  case (tr_accept t s io dio s' w)
  then show ?thesis using accept_inv[OF assms(1)] by simp
next
  case (tr_receive t sid bs dio c)
  then show ?thesis using receive_inv[OF assms(1)] by simp
next
  case (tr_packet t io dio)
  from tr_packet(2) show ?thesis
  proof (cases rule: recv_turn_cases)
    case other
    then show ?thesis using assms(1) by simp
  next
    case finish
    then show ?thesis using recv_finish_inv[OF assms(1) tr_packet(1)] by simp
  next
    case handle
    then show ?thesis using handle_inv[OF assms(1) tr_packet(1)] by simp
  qed
next
  case (tr_send_failed sid dio)
  show ?thesis unfolding tr_send_failed
    by (rule traffic_quiet_inv[OF assms(1)])
      (use traffic_invD[OF assms(1)] in \<open>simp_all add: same_session_def same_thread_def record_defs data_of_def\<close>)
next
  case (tr_disconnected t sid)
  have quiet: "recv_session (tr_at x u) \<noteq> None \<Longrightarrow> u \<noteq> t" for u using tr_disconnected(2) by (auto simp: dispatching_def)
  show ?thesis unfolding tr_disconnected(1)
    by (rule traffic_quiet_inv[OF assms(1)])
      (use traffic_invD[OF assms(1)] quiet in
        \<open>auto simp: same_session_def same_thread_def record_defs data_of_def start_disconnected_jobs\<close>)
next
  case (tr_loop t s)
  then show ?thesis using loop_inv[OF assms(1) tr_loop(2)] by simp
qed

lemma traffic_init_inv: "traffic_init x \<Longrightarrow> traffic_inv x"
proof -
  assume i: "traffic_init x"
  then obtain s where s: "new_session = Inr s" "tr_sess x = (\<lambda>_. s)" by (auto simp: traffic_init_def)
  obtain b where b: "RecvBuffer BUFFER_SIZE = Inr b" using RecvBuffer_ok by blast
  have "rb_inv (m_recvBuffer s)" "data_of s = []" "\<not> m_recvEvent s"
    using s(1) b fresh_buffer[OF b] by (auto simp: new_session_def data_of_def)
  moreover have "pushed (wk_jobs (tr_work x)) = (\<lambda>_. [])" using i by (auto simp: traffic_init_def worker_init_def job_init_def)
  moreover have "split_frames [] = ([], [])" by (simp add: split_frames_stop incomplete_def)
  ultimately show ?thesis
    using i s(2) by (simp add: traffic_inv_def traffic_init_def resting_ok_def jobs_ok_def record_defs)
qed

interpretation traffic: invariant_system traffic_init "traffic_step L" traffic_inv for L
  by unfold_locales (rule traffic_init_inv, assumption, rule traffic_inv_step)

lemma traffic_run: "(traffic_step L)\<^sup>*\<^sup>* x y \<Longrightarrow> (worker_step L)\<^sup>*\<^sup>* (tr_work x) (tr_work y)"
  by (induction rule: rtranclp_induct) (auto dest: traffic_worker_step)

text \<open>The jobs in a room's queue are those its sessions asked for, less the ones on their way.\<close>

lemma asked_tagged:
  assumes "traffic_inv x"
  shows "\<exists>way. asked x sid r = tagged x sid r @ way"
    and "(\<And>t. recv_session (tr_at x t) \<noteq> Some sid) \<Longrightarrow> asked x sid r = tagged x sid r"
proof -
  note D = traffic_invD[OF assms]
  show rest: "asked x sid r = tagged x sid r" if "\<And>t. recv_session (tr_at x t) \<noteq> Some sid"
    using D(4)[OF that] by (simp add: resting_ok_def jobs_ok_def)
  show "\<exists>way. asked x sid r = tagged x sid r @ way"
  proof (cases "\<exists>t. recv_session (tr_at x t) = Some sid")
    case True
    then show ?thesis using D(2) unfolding recv_session_Some reading_ok_def jobs_ok_def by metis
  next
    case False
    then show ?thesis using rest by simp
  qed
qed

section \<open>A run with two workers\<close>

lemma busy_traffic:
  assumes "(busy_step L t)\<^sup>*\<^sup>* (tr_work x) s" and "wk_phase (tr_work x) t = W_Dispatch"
  shows "\<exists>y. (traffic_step L)\<^sup>*\<^sup>* x y \<and> tr_work y = s \<and> wk_phase s t = W_Dispatch \<and> tr_log y = tr_log x \<and> tr_at y = tr_at x
    \<and> tr_stream y = tr_stream x \<and> tr_sess y = tr_sess x"
  using assms(1)
proof (induction rule: rtranclp_induct)
  case base
  then show ?case using assms(2) by blast
next
  case (step s s')
  then obtain y where y: "(traffic_step L)\<^sup>*\<^sup>* x y" "tr_work y = s" "wk_phase s t = W_Dispatch" "tr_log y = tr_log x" "tr_at y = tr_at x"
    "tr_stream y = tr_stream x" "tr_sess y = tr_sess x" by blast
  have l: "loop_step L t (tr_work y) s'" and r: "\<not> wk_ready s t W_Dispatch"
    using step.hyps(2) y(2) by (simp_all add: busy_step_def wk_ready_def)
  have ph: "wk_phase s' t = W_Dispatch" using loop_step_handler(1)[OF l] y r by simp
  have "traffic_step L y (loop_turn t s' y)" by (rule tr_loop[OF l]) (use r y in simp)
  then show ?case using y ph by (intro exI[of _ "loop_turn t s' y"]) auto
qed

end
