(* ===== verification/Game_Traffic_Text.thy ===== *)
theory Game_Traffic_Text
  imports Game_Traffic_Safety
begin

text \<open>
  What the clients say: every packet handled asks for the job its bytes mean, and the buffer a chat
  broadcasts holds a packet with the text the client sent. With the order of the streams and of the
  queues this is what a room broadcasts, from the bytes that arrive.
\<close>

section \<open>The text of a packet\<close>

definition chat_text :: "wire_env \<Rightarrow> byte list \<Rightarrow> byte list option" where
  "chat_text L f =
     (if length f < sizeof_PacketHeader \<or> hd_id (read_header f) \<noteq> PKT_C_CHAT then None
      else map_option cc_msg (MergeFromImpl (C_CHAT_InternalParse L) (C_CHAT_Clear C_CHAT_new) (drop sizeof_PacketHeader f)))"

definition reply_text :: "wire_env \<Rightarrow> byte list \<Rightarrow> byte list option" where
  "reply_text L f =
     (if length f < sizeof_PacketHeader \<or> hd_id (read_header f) \<noteq> PKT_S_CHAT then None
      else map_option sc_msg (MergeFromImpl (S_CHAT_InternalParse L) (S_CHAT_Clear S_CHAT_new) (drop sizeof_PacketHeader f)))"

definition buffer_text :: "wire_env \<Rightarrow> world \<Rightarrow> nat \<Rightarrow> byte list option" where
  "buffer_text L w b = Option.bind (buffer_bytes (w_send w) b) (reply_text L)"

lemma chat_reply_text:
  assumes "string_ok msg" "pkt = S_CHAT_new\<lparr>sc_msg := msg\<rparr>"
  shows "reply_text L (packet_bytes PKT_S_CHAT (S_CHAT_InternalSerialize L (snd (S_CHAT_ByteSizeLong pkt)))) = Some msg"
proof -
  have v: "S_CHAT_valid 100 pkt" using chatPkt_valid[OF assms(1)] assms(2) by simp
  obtain m where m: "S_CHAT_InternalParse L 100 S_CHAT_new (S_CHAT_InternalSerialize L (snd (S_CHAT_ByteSizeLong pkt))) = Some (m, At_limit)"
    "S_CHAT_content m = S_CHAT_content pkt"
    using S_CHAT.roundtrip[OF v, of L] by blast
  have "sc_msg m = msg" using arg_cong[OF m(2), of sc_msg] assms(2) by (simp add: S_CHAT_content_def)
  moreover have "S_CHAT_Clear S_CHAT_new = S_CHAT_new" by (simp add: S_CHAT_Clear_def S_CHAT_new_def)
  moreover have "hd_id (read_header (packet_bytes PKT_S_CHAT body)) = PKT_S_CHAT" for body
    using packet_bytes_header[of PKT_S_CHAT body "[]"] by simp
  moreover have "drop 4 (packet_bytes PKT_S_CHAT body) = body" for body
    by (simp add: packet_bytes_def flip: sizeof_PacketHeader_def)
  ultimately show ?thesis using m(1) by (simp add: reply_text_def sizeof_PacketHeader_def MergeFromImpl_def)
qed

section \<open>Buffers keep their bytes\<close>

definition world_ok :: "world \<Rightarrow> bool" where
  "world_ok w \<longleftrightarrow> m_rooms w = [0] \<and> send_inv None (w_send w, \<lambda>_. None)"

definition keeps :: "world \<Rightarrow> world \<Rightarrow> bool" where
  "keeps w w' \<longleftrightarrow> (world_ok w \<longrightarrow> world_ok w' \<and> (\<forall>b bs. buffer_bytes (w_send w) b = Some bs \<longrightarrow> buffer_bytes (w_send w') b = Some bs))"

lemma keeps_same: "m_rooms w' = m_rooms w \<Longrightarrow> w_send w' = w_send w \<Longrightarrow> keeps w w'"
  by (simp add: keeps_def world_ok_def)

lemma keeps_text: "keeps w w' \<Longrightarrow> world_ok w \<Longrightarrow> buffer_text L w b = Some msg \<Longrightarrow> buffer_text L w' b = Some msg"
  by (auto simp: keeps_def buffer_text_def bind_eq_Some_conv)

context wire_message
begin

lemma made_keeps:
  assumes "MakeSendBuffer byte_size serialize t pkt pktId (w_send w) = Inr (i, s)" and "valid pkt"
    and "m_rooms w' = m_rooms w" and "w_send w' = s"
  shows "keeps w w'"
  unfolding keeps_def
proof
  assume "world_ok w"
  then have inv: "m_rooms w = [0]" "send_inv None (w_send w, \<lambda>_. None)" by (simp_all add: world_ok_def)
  note r = make_result[OF inv(2) refl assms(2,1)]
  have "buffer_bytes (w_send w) i = None" using r(5) by (simp add: buffer_bytes_def)
  then show "world_ok w' \<and> (\<forall>b bs. buffer_bytes (w_send w) b = Some bs \<longrightarrow> buffer_bytes (w_send w') b = Some bs)"
    using r(3,4) inv(1) assms(3,4) unfolding world_ok_def by (metis option.distinct(1))
qed

end

lemma login_keeps: "Handle_C_LOGIN L t sid pkt w = Inr (b, w') \<Longrightarrow> keeps w w'"
  by (drule Handle_C_LOGIN_Inr)
    (auto simp: Send_call_def login_world_simps intro: S_LOGIN.made_keeps[OF _ loginPkt_valid])

lemma enter_before_keeps: "Enter_before sid pkt w = Inr (x, w') \<Longrightarrow> keeps w w'"
  by (rule keeps_same) (auto simp: Enter_before_def Let_def rbind_eq_Inr upd_session_def split: if_splits)

lemma enter_after_keeps: "Enter_after L t sid w = Inr w' \<Longrightarrow> keeps w w'"
  by (auto simp: Enter_after_def Let_def rbind_eq_Inr make_defs with_buffer_Inr Send_call_def
      split: option.splits) (rule S_ENTER_GAME.made_keeps[OF _ enterPkt_valid], assumption, simp_all)

lemma chat_before_keeps: "Chat_before L t pkt w = Inr (x, w') \<Longrightarrow> string_ok (cc_msg pkt) \<Longrightarrow> keeps w w'"
  by (auto simp: Chat_before_def Let_def rbind_eq_Inr make_defs with_buffer_Inr intro: S_CHAT.made_keeps[OF _ chatPkt_valid])

lemma run_job_keeps: "keeps w (run_job r job w)"
  by (cases job) (simp_all add: Room_Enter_def Room_Leave_def Room_Broadcast_eq upd_room_def keeps_same)

lemma run_closure_keeps: "keeps w (run_closure pc w)"
  by (cases "(pc, w)" rule: run_closure.cases) (simp_all add: run_job_keeps keeps_same)

lemma handler_after_keeps: "handler_after L t hr w = Inr w' \<Longrightarrow> keeps w w'"
  by (cases hr) (auto intro: enter_after_keeps simp: Disconnected_after_def upd_session_def keeps_same)

lemma loop_step_keeps:
  assumes "loop_step L t s s'"
  shows "keeps (wk_world s) (wk_world s')"
  using assms
proof (cases rule: loop_step.cases)
  case (lp_distribute alive)
  moreover have "wk_world (distribute_turn alive t s) = wk_world s"
    by (simp add: distribute_turn_def Let_def to_phase_def DoAsync_def split: list.split)
  ultimately show ?thesis by (simp add: keeps_same)
next
  case (lp_global now)
  then show ?thesis by (simp add: DoGlobalQueueWork_def Let_def to_phase_def keeps_same)
qed (simp_all add: worker_defs keeps_same handler_after_keeps run_closure_keeps)

lemma start_disconnected_keeps: "keeps (wk_world s) (wk_world (start_disconnected t sid s))"
  by (rule keeps_same)
    (auto simp: start_disconnected_def Disconnected_before_def SessionManager_Remove_def Let_def set_rest_def DoAsync_def
      split: option.split)

section \<open>The job of a packet\<close>

text \<open>A chat packet, and no other, asks for a broadcast; the buffer holds its text.\<close>

definition entry_ok :: "wire_env \<Rightarrow> world \<Rightarrow> packet_entry \<Rightarrow> bool" where
  "entry_ok L w e = (case e of (sid, f, a) \<Rightarrow>
     (case chat_text L f of
        Some msg \<Rightarrow> (\<exists>b. a = Some (0, Room_job (Broadcast_job b)) \<and> buffer_text L w b = Some msg)
      | None \<Rightarrow> (\<forall>r b. a \<noteq> Some (r, Room_job (Broadcast_job b)))))"

lemma entry_ok_keeps:
  assumes "keeps w w'" "world_ok w" "entry_ok L w e"
  shows "entry_ok L w' e"
  using assms(3) keeps_text[OF assms(1,2)]
  by (auto simp: entry_ok_def split: option.splits prod.splits)

lemma HandlePacket_as_cases:
  assumes "HandlePacket_as parse clear pkt func buffer len w = Inr (b, w')"
  shows "4 \<le> len"
    and "case MergeFromImpl parse (clear pkt) (drop 4 (take (nat len) buffer)) of None \<Rightarrow> w' = w | Some m \<Rightarrow> func m w = Inr (b, w')"
  using assms
  by (auto simp: HandlePacket_as_def ParseFromArray_def rbind_eq_Inr sizeof_PacketHeader_def drop_take nat_diff_distrib'
      split: if_splits option.splits)

lemma packet_start_entry:
  assumes h: "packet_start L t sid here n s = Inr s'" and idle: "push_at (wk_jobs s) t = P_None"
    and len: "unat n \<le> length here" and ok: "world_ok (wk_world s)"
  shows "keeps (wk_world s) (wk_world s')"
    and "entry_ok L (wk_world s') (sid, take (unat n) here, asked_job t s')"
proof -
  let ?id = "hd_id (read_header here)" and ?f = "take (unat n) here"
  obtain b where hp: "HandlePacket (Handler_Init (worker_entries L t sid)) here (int (unat n)) s = Inr (b, s')"
    using h by (auto simp: packet_start_def rbind_eq_Inr)
  note e = HandlePacket_Inr[OF hp]
  have hdr: "read_header ?f = read_header here" if "4 \<le> unat n"
    using read_header_append[of ?f "drop (unat n) here"] that len by simp
  have quiet: "entry_ok L w (sid, ?f, asked_job t s)" if "chat_text L ?f = None" for w
    using that idle by (simp add: entry_ok_def asked_job_def)
  have no_text: "chat_text L ?f = None" if "?id \<noteq> PKT_C_CHAT"
    using that hdr len by (auto simp: chat_text_def sizeof_PacketHeader_def)
  have "keeps (wk_world s) (wk_world s') \<and> entry_ok L (wk_world s') (sid, ?f, asked_job t s')"
  proof (cases "?id = PKT_C_CHAT")
    case False
    have other: "\<not> (\<exists>r b. asked_job t s' = Some (r, Room_job (Broadcast_job b))) \<and> keeps (wk_world s) (wk_world s')"
    proof -
      consider "?id = PKT_C_LOGIN" | "?id = PKT_C_ENTER_GAME" | "?id \<notin> {PKT_C_LOGIN, PKT_C_ENTER_GAME, PKT_C_CHAT}"
        using False by blast
      then show ?thesis
      proof cases
        case 1
        with e have "HandlePacket_as (C_LOGIN_InternalParse L) C_LOGIN_Clear C_LOGIN_new (Login_start L t sid)
            here (int (unat n)) s = Inr (b, s')" by (simp add: worker_entry)
        from HandlePacket_as_Inr[OF this] have "s' = s \<or> (\<exists>m. Login_start L t sid m s = Inr (b, s'))" by blast
        then show ?thesis
          using idle by (auto simp: Login_start_def rbind_eq_Inr asked_job_def keeps_same intro: login_keeps)
      next
        case 2
        with e have "HandlePacket_as (C_ENTER_GAME_InternalParse L) C_ENTER_GAME_Clear C_ENTER_GAME_new (Enter_start t sid)
            here (int (unat n)) s = Inr (b, s')" by (simp add: worker_entry)
        from HandlePacket_as_Inr[OF this] have "s' = s \<or> (\<exists>m. Enter_start t sid m s = Inr (b, s'))" by blast
        then show ?thesis
          using idle by (auto simp: Enter_start_def rbind_eq_Inr asked_job_def DoAsync_def to_push_def set_rest_def keeps_same
              intro: enter_before_keeps)
      next
        case 3
        then show ?thesis using e idle by (simp add: worker_entry Handle_INVALID_def asked_job_def keeps_same)
      qed
    qed
    then show ?thesis using no_text[OF False] by (auto simp: entry_ok_def)
  next
    case True
    with e have c: "HandlePacket_as (C_CHAT_InternalParse L) C_CHAT_Clear C_CHAT_new (Chat_start L t)
        here (int (unat n)) s = Inr (b, s')" by (simp add: worker_entry)
    note C = HandlePacket_as_cases[OF c]
    have n4: "4 \<le> unat n" using C(1) by linarith
    have f: "chat_text L ?f = map_option cc_msg (MergeFromImpl (C_CHAT_InternalParse L) (C_CHAT_Clear C_CHAT_new) (drop 4 ?f))"
      using n4 len hdr[OF n4] True by (simp add: chat_text_def sizeof_PacketHeader_def)
    show ?thesis
    proof (cases "MergeFromImpl (C_CHAT_InternalParse L) (C_CHAT_Clear C_CHAT_new) (drop 4 ?f)")
      case None
      then have "s' = s" using C(2) by simp
      then show ?thesis using quiet f None by (simp add: keeps_same)
    next
      case (Some m)
      then have "Chat_start L t m s = Inr (b, s')" using C(2) by simp
      then obtain r i w where cb: "Chat_before L t m (wk_world s) = Inr ((r, i), w)"
        and s': "s' = DoAsync t r (Room_job (Broadcast_job i)) (s\<lparr>wk_world := w\<rparr>)"
        by (auto simp: Chat_start_def rbind_eq_Inr)
      have m: "string_ok (cc_msg m)"
        using Some C_CHAT_parse_ok[of L 100 "C_CHAT_Clear C_CHAT_new"]
        by (auto simp: MergeFromImpl_def C_CHAT_Clear_def split: option.splits parse_end.splits)
      obtain st where mk: "MakeSendBuffer S_CHAT_ByteSizeLong (S_CHAT_InternalSerialize L) (unat t)
          (S_CHAT_new\<lparr>sc_msg := cc_msg m\<rparr>) PKT_S_CHAT (w_send (wk_world s)) = Inr (i, st)"
        and w: "w = (wk_world s)\<lparr>w_send := st\<rparr>" and r: "r = 0"
        using cb ok by (auto simp: Chat_before_def Let_def rbind_eq_Inr make_defs with_buffer_Inr GetRoom_def world_ok_def)
      have "send_inv None (w_send (wk_world s), \<lambda>_. None)" using ok by (simp add: world_ok_def)
      from S_CHAT.make_result(2)[OF this refl chatPkt_valid[OF m] mk]
      have "buffer_text L w i = Some (cc_msg m)"
        using chat_reply_text[OF m refl, of L] by (simp add: buffer_text_def w)
      moreover have "asked_job t s' = Some (0, Room_job (Broadcast_job i))" "wk_world s' = w"
        by (simp_all add: s' r asked_job_def DoAsync_def to_push_def)
      ultimately show ?thesis using f Some chat_before_keeps[OF cb m] by (simp add: entry_ok_def)
    qed
  qed
  then show "keeps (wk_world s) (wk_world s')" "entry_ok L (wk_world s') (sid, ?f, asked_job t s')" by blast+
qed

section \<open>The invariant\<close>

definition text_inv :: "wire_env \<Rightarrow> traffic \<Rightarrow> bool" where
  "text_inv L x \<longleftrightarrow> traffic_inv x \<and> world_ok (wk_world (tr_work x))
     \<and> (\<forall>e \<in> set (tr_log x). entry_ok L (wk_world (tr_work x)) e)"

lemma text_keep:
  assumes "text_inv L x" "traffic_inv y" "keeps (wk_world (tr_work x)) (wk_world (tr_work y))" "tr_log y = tr_log x @ es"
    and "\<And>e. e \<in> set es \<Longrightarrow> entry_ok L (wk_world (tr_work y)) e"
  shows "text_inv L y"
  using assms entry_ok_keeps[OF assms(3)] by (auto simp: text_inv_def keeps_def)

lemma text_inv_step:
  assumes inv: "text_inv L x" and step: "traffic_step L x y"
  shows "text_inv L y"
proof -
  have tr: "traffic_inv x" and ok: "world_ok (wk_world (tr_work x))" using inv by (simp_all add: text_inv_def)
  note D = traffic_invD[OF tr] and tr' = traffic_inv_step[OF tr step]
  have quiet: "text_inv L y" if "keeps (wk_world (tr_work x)) (wk_world (tr_work y))" "tr_log y = tr_log x"
    using text_keep[OF inv tr' that(1), of "[]"] that(2) by simp
  show ?thesis
    using step
  proof (cases rule: traffic_step.cases)
    case (tr_accept t s io dio s' w)
    have "w = OnConnected (tr_next x) (wk_world (tr_work x))"
      using tr_accept(4) by (auto simp: ProcessConnect_def rbind_eq_Inr Let_def)
    then show ?thesis using tr_accept(1) by (intro quiet keeps_same) (simp_all add: OnConnected_def SessionManager_Add_def)
  next
    case (tr_receive t sid bs dio c)
    then show ?thesis by (intro quiet keeps_same; cases c; simp add: recv_begin_def)
  next
    case (tr_packet t io dio)
    from tr_packet(2) show ?thesis
    proof (cases rule: recv_turn_cases)
      case other
      then show ?thesis using inv by simp
    next
      case finish
      then show ?thesis by (intro quiet) (simp_all add: keeps_same)
    next
      case (handle sid b n p s k)
      have R: "n = int (length b)" "length b < 2 ^ 31" "0 \<le> p" "p \<le> n"
        using D(2)[OF handle(1)] unfolding reading_ok_def by blast+
      have "int (unat k) \<le> int (length (drop (nat p) b))" using handle(4) R by simp
      then have len: "unat k \<le> length (drop (nat p) b)" by linarith
      have idle: "push_at (wk_jobs (tr_work x)) t = P_None" using tr_packet(1) by (simp add: wk_ready_def idle_def)
      note E = packet_start_entry[OF handle(5) idle len ok]
      show ?thesis
        by (rule text_keep[OF inv tr', where es = "[(sid, take (unat k) (drop (nat p) b), asked_job t s)]"])
          (use E handle(6) in simp_all)
    qed
  next
    case (tr_send_failed sid dio)
    then show ?thesis by (intro quiet) (simp_all add: keeps_same)
  next
    case (tr_disconnected t sid)
    then show ?thesis by (intro quiet) (simp_all add: start_disconnected_keeps)
  next
    case (tr_loop t s)
    then show ?thesis by (intro quiet) (simp_all add: loop_step_keeps)
  qed
qed

lemma text_init_inv: "traffic_init x \<Longrightarrow> text_inv L x"
  using traffic_init_inv[of x] game_invD(1,2)[OF game.reach_inv[OF start_reach]]
  by (auto simp: text_inv_def traffic_init_def worker_init_def world_ok_def)

interpretation traffic_text: invariant_system traffic_init "traffic_step L" "text_inv L" for L
  by unfold_locales (rule text_init_inv, assumption, rule text_inv_step)

text \<open>The texts of the buffers a session asked to broadcast are the texts of its packets.\<close>

definition chat_texts :: "wire_env \<Rightarrow> byte list list \<Rightarrow> byte list list" where
  "chat_texts L = List.map_filter (chat_text L)"

lemma chat_texts_append: "chat_texts L (fs @ gs) = chat_texts L fs @ chat_texts L gs"
  by (induction fs) (simp_all add: chat_texts_def List.map_filter_simps split: option.split)

lemma no_broadcast: "(\<And>b. c \<noteq> Room_job (Broadcast_job b)) \<Longrightarrow> broadcast_of c = []"
  by (cases c rule: broadcast_of.cases) auto

lemma entry_texts:
  assumes "entry_ok L w e"
  shows "map (buffer_text L w) (broadcasts (entry_jobs sid 0 e))
    = map Some (chat_texts L (if fst e = sid \<and> fst (snd e) \<noteq> [] then [fst (snd e)] else []))"
proof -
  obtain s f a where e: "e = (s, f, a)" by (cases e)
  have empty: "chat_text L [] = None" by (simp add: chat_text_def sizeof_PacketHeader_def)
  show ?thesis
  proof (cases "chat_text L f")
    case None
    then have "broadcasts (entry_jobs sid 0 e) = []"
      using assms unfolding e entry_ok_def
      by (cases a rule: option.exhaust) (auto simp: broadcasts_def no_broadcast)
    then show ?thesis using None by (simp add: chat_texts_def List.map_filter_simps e)
  next
    case (Some msg)
    then obtain b where "a = Some (0, Room_job (Broadcast_job b))" "buffer_text L w b = Some msg"
      using assms unfolding e entry_ok_def by auto
    moreover have "f \<noteq> []" using Some empty by auto
    ultimately show ?thesis using Some by (simp add: e chat_texts_def List.map_filter_simps broadcasts_def)
  qed
qed

lemma log_texts:
  assumes "\<forall>e \<in> set es. entry_ok L w e"
  shows "map (buffer_text L w) (broadcasts (concat (map (entry_jobs sid 0) es)))
    = map Some (chat_texts L (map (fst \<circ> snd) (filter (\<lambda>e. fst e = sid \<and> fst (snd e) \<noteq> []) es)))"
  using assms
proof (induction es)
  case (Cons e es)
  define R where "R = map (fst \<circ> snd) (filter (\<lambda>e. fst e = sid \<and> fst (snd e) \<noteq> []) es)"
  have "chat_texts L (fst (snd e) # R) = chat_texts L [fst (snd e)] @ chat_texts L R"
    using chat_texts_append[of L "[fst (snd e)]" R] by simp
  moreover have "chat_texts L [] = []" by (simp add: chat_texts_def List.map_filter_simps)
  ultimately show ?case
    using Cons entry_texts[of L w e sid] by (cases "fst e = sid \<and> fst (snd e) \<noteq> []") (auto simp: R_def comp_def)
qed (simp add: broadcasts_def chat_texts_def List.map_filter_simps)

lemma session_texts:
  assumes "text_inv L x"
  shows "map (buffer_text L (wk_world (tr_work x))) (broadcasts (asked x sid 0)) = map Some (chat_texts L (handled x sid))"
  using assms log_texts unfolding text_inv_def asked_def handled_def by blast

section \<open>Nobody else broadcasts\<close>

text \<open>The timer and a disconnect push jobs too, but the only buffers a room broadcasts are those of chat
  packets: a job pushed outside a receive is no broadcast.\<close>

definition only_lines :: "closure timer_sys \<Rightarrow> bool" where
  "only_lines tm \<longleftrightarrow> (\<forall>i d. job_data_pool tm i = Some d \<longrightarrow> m_job d = Print_line)"

lemma only_lines_Distribute:
  assumes "only_lines tm"
  shows "only_lines (Distribute alive pc t tm)"
    and "\<exists>new. pushes (Distribute alive pc t tm) = pushes tm @ new \<and> (\<forall>(owner, job) \<in> set new. job = Print_line)"
  using assms
  by (cases "(alive, pc, t, tm)" rule: Distribute.cases;
      auto simp: only_lines_def to_dist_def push_item_def delete_data_def split: prod.split option.splits sum.splits if_splits)+

lemma distribute_turn_lines:
  assumes "only_lines (wk_timer s)"
  shows "only_lines (wk_timer (distribute_turn alive t s))"
    and "in_push (distribute_turn alive t s) t r \<noteq> in_push s t r \<Longrightarrow> broadcasts (in_push (distribute_turn alive t s) t r) = []"
proof -
  let ?tm = "Distribute alive (dist_at (wk_timer s) t) t (wk_timer s)"
  note D = only_lines_Distribute[OF assms, of alive "dist_at (wk_timer s) t" t]
  show "only_lines (wk_timer (distribute_turn alive t s))"
    using assms D(1) by (auto simp: distribute_turn_def Let_def to_phase_def DoAsync_def split: list.split)
  assume ne: "in_push (distribute_turn alive t s) t r \<noteq> in_push s t r"
  obtain new where new: "pushes ?tm = pushes (wk_timer s) @ new" "\<forall>(owner, job) \<in> set new. job = Print_line" using D(2) by blast
  show "broadcasts (in_push (distribute_turn alive t s) t r) = []"
    using ne new by (cases new) (auto simp: distribute_turn_def Let_def to_phase_def in_push_def DoAsync_jobs broadcasts_def
        split: if_splits prod.splits)
qed

definition source_ok :: "traffic \<Rightarrow> bool" where
  "source_ok x \<longleftrightarrow> only_lines (wk_timer (tr_work x))
     \<and> (\<forall>t r. recv_session (tr_at x t) = None \<longrightarrow> broadcasts (in_push (tr_work x) t r) = [])
     \<and> (\<forall>r c. (None, c) \<in> set (tr_pushed x r) \<longrightarrow> broadcasts [c] = [])"

lemma in_push_idle: "idle s t \<Longrightarrow> in_push s t r = []"
  by (simp add: idle_def in_push_def)

lemma broadcasts_nil [simp]: "broadcasts [] = []"
  by (simp add: broadcasts_def)

lemma broadcasts_none: "broadcasts cs = [] \<Longrightarrow> c \<in> set cs \<Longrightarrow> broadcasts [c] = []"
  by (simp add: broadcasts_def)

text \<open>Outside a receive a step of the loop pushes no broadcast.\<close>

lemma loop_step_lines:
  assumes "loop_step L t s s'" and lines: "only_lines (wk_timer s)"
  shows "only_lines (wk_timer s')" and "broadcasts (in_push s t r) = [] \<Longrightarrow> broadcasts (adds s s' r @ in_push s' t r) = []"
proof -
  have "only_lines (wk_timer s') \<and> (broadcasts (in_push s t r) = [] \<longrightarrow> broadcasts (adds s s' r @ in_push s' t r) = [])"
    using assms(1)
  proof (cases rule: loop_step.cases)
    case (lp_distribute alive)
    have "adds s s' r = []" using lp_distribute(1) by (simp add: adds_def distribute_jobs)
    then show ?thesis using distribute_turn_lines(1)[OF lines, of alive t] distribute_turn_lines(2)[OF lines, of alive t r] lp_distribute(1)
      by (cases "in_push s' t r = in_push s t r") auto
  next
    case lp_push
    then have "adds s s' r @ in_push s' t r = in_push s t r"
      using pushed_Push(1)[of "wk_jobs s" t r] by (auto simp: push_turn_def adds_def in_push_def)
    then have "broadcasts (adds s s' r @ in_push s' t r) = broadcasts (in_push s t r)" by (rule arg_cong)
    then show ?thesis using lp_push(1) lines by (simp add: push_turn_def)
  next
    case (lp_global now)
    then show ?thesis using lines by (simp add: adds_def in_push_def pushed_Global DoGlobalQueueWork_def Let_def to_phase_def)
  qed (use lines in \<open>simp_all add: worker_defs adds_def in_push_def pushed_Execute global_jobs only_lines_def to_dist_def\<close>)
  then show "only_lines (wk_timer s')" "broadcasts (in_push s t r) = [] \<Longrightarrow> broadcasts (adds s s' r @ in_push s' t r) = []"
    by simp_all
qed

lemma source_ok_step:
  assumes inv: "traffic_inv x" and ok: "source_ok x" and step: "traffic_step L x y"
  shows "source_ok y"
proof -
  note O = ok[unfolded source_ok_def]
  have quiet: "source_ok y" if "only_lines (wk_timer (tr_work y))" "tr_pushed y = tr_pushed x"
    "\<And>u r. recv_session (tr_at y u) = None \<Longrightarrow> in_push (tr_work y) u r = in_push (tr_work x) u r \<and> recv_session (tr_at x u) = None
       \<or> broadcasts (in_push (tr_work y) u r) = []" for y
    using that O unfolding source_ok_def by metis
  show ?thesis
    using step
  proof (cases rule: traffic_step.cases)
    case (tr_accept t s io dio s' w)
    then show ?thesis using O by (intro quiet) (auto simp: dispatching_def in_push_def split: if_splits)
  next
    case (tr_receive t sid bs dio c)
    then show ?thesis using O by (intro quiet; cases c) (auto simp: recv_begin_def dispatching_def split: if_splits)
  next
    case (tr_packet t io dio)
    have idle: "in_push (tr_work x) t r = []" for r using tr_packet(1) by (simp add: wk_ready_def in_push_idle)
    from tr_packet(2) show ?thesis
    proof (cases rule: recv_turn_cases)
      case finish
      then show ?thesis using O idle by (intro quiet) (auto split: if_splits)
    next
      case (handle sid b n p s k)
      have "wk_timer s = wk_timer (tr_work x)"
        using packet_start_cases[OF handle(5)] by (elim disjE exE conjE; simp add: DoAsync_def set_rest_def)
      moreover have "push_at (wk_jobs s) u = push_at (wk_jobs (tr_work x)) u" if "u \<noteq> t" for u
        using packet_start_jobs(3)[OF handle(5) _ that] tr_packet(1) by (simp add: wk_ready_def idle_def)
      ultimately show ?thesis using O handle(6) by (intro quiet) (auto simp: in_push_def split: if_splits)
    qed (use ok in simp)
  next
    case (tr_send_failed sid dio)
    then show ?thesis using O by (intro quiet) simp_all
  next
    case (tr_disconnected t sid)
    have "broadcasts (in_push (start_disconnected t sid (tr_work x)) t r) = []" for r
      using tr_disconnected(2) by (auto simp: start_disconnected_def Let_def set_rest_def in_push_def DoAsync_jobs dispatching_def
        wk_ready_def idle_def broadcasts_def split: prod.split option.split)
    moreover have "wk_timer (start_disconnected t sid (tr_work x)) = wk_timer (tr_work x)"
      by (simp add: start_disconnected_def Let_def set_rest_def DoAsync_def split: prod.split option.split)
    ultimately show ?thesis using O tr_disconnected
      by (intro quiet) (auto simp: in_push_def start_disconnected_jobs dispatching_def split: if_splits)
  next
    case (tr_loop t s)
    let ?w = "tr_work x"
    note A = loop_step_lines[OF tr_loop(2)] and B = loop_step_adds(2)[OF tr_loop(2)]
    have outside: "recv_session (tr_at x t) = None" if none: "recv_session (tr_at y t) = None"
    proof (rule ccontr)
      assume r: "recv_session (tr_at x t) \<noteq> None"
      then obtain sid b n p where at: "tr_at x t = C_Recv sid b n p" by (cases "tr_at x t") auto
      have "wk_phase ?w t = W_Dispatch" using traffic_invD(2)[OF inv at] by (simp add: reading_ok_def)
      then have "wk_phase s t = W_Dispatch" using loop_step_handler(1)[OF tr_loop(2)] tr_loop(3) r by blast
      then show False using none r tr_loop(1) by simp
    qed
    have mine: "broadcasts (adds ?w s r @ in_push s t r) = []" if "recv_session (tr_at x t) = None" for r
      using A(2) O that by blast
    have "broadcasts (in_push s u r) = []" if "recv_session (tr_at y u) = None" for u r
    proof (cases "u = t")
      case True
      then show ?thesis using mine[OF outside] that by simp
    next
      case False
      then have "recv_session (tr_at x u) = None" using that tr_loop(1) by (simp split: if_splits)
      then show ?thesis using O B[OF False] by (simp add: in_push_def)
    qed
    moreover have "broadcasts [c] = []" if "(None, c) \<in> set (tr_pushed y r)" for r c
    proof (cases "(None, c) \<in> set (tr_pushed x r)")
      case True
      then show ?thesis using O by blast
    next
      case False
      then have "recv_session (tr_at x t) = None" "c \<in> set (adds ?w s r)"
        using that tr_loop(1) by (auto simp: loop_turn_def Let_def adds_def)
      then show ?thesis using mine[of r] by (intro broadcasts_none[of "adds ?w s r"]) simp_all
    qed
    ultimately show ?thesis using A(1) O tr_loop(1) by (simp add: source_ok_def)
  qed
qed

interpretation traffic_source: invariant_system traffic_init "traffic_step L" "\<lambda>x. traffic_inv x \<and> source_ok x" for L
proof
  fix x y
  show "traffic_inv x \<and> source_ok x \<Longrightarrow> traffic_step L x y \<Longrightarrow> traffic_inv y \<and> source_ok y"
    using traffic_inv_step source_ok_step by blast
  assume x: "traffic_init x"
  then have w: "worker_init (tr_work x)" "tr_at x = (\<lambda>_. C_None)" "tr_pushed x = (\<lambda>_. [])" by (simp_all add: traffic_init_def)
  then obtain n1 n2 n3 tm where "timer_init tm" "wk_timer (tr_work x) = main_timer n1 n2 n3 tm"
    unfolding worker_init_def by blast
  moreover have "job_init (wk_jobs (tr_work x))" using w(1) by (simp add: worker_init_def)
  ultimately have "source_ok x" using w(2,3)
    by (auto simp: source_ok_def only_lines_def in_push_def job_init_def timer_init_def main_timer_def Reserve_def new_data_def
        split: if_splits)
  then show "traffic_inv x \<and> source_ok x" using x traffic_init_inv by blast
qed

section \<open>What a queue has executed\<close>

text \<open>The jobs the queue of a room has executed, each with the session whose packet asked for it.\<close>

definition executed_by :: "traffic \<Rightarrow> nat \<Rightarrow> (nat option \<times> closure) list" where
  "executed_by x r = take (length (executed (wk_jobs (tr_work x)) r)) (tr_pushed x r)"

definition of_session :: "nat \<Rightarrow> (nat option \<times> closure) list \<Rightarrow> closure list" where
  "of_session sid ws = map snd (filter (\<lambda>e. fst e = Some sid) ws)"

lemma executed_by_jobs:
  assumes "reach traffic_init (traffic_step L) x"
  shows "map snd (executed_by x r) = executed (wk_jobs (tr_work x)) r"
    and "m_jobCount (queues (wk_jobs (tr_work x)) r) = 0 \<Longrightarrow> executed_by x r = tr_pushed x r"
proof -
  note W = worker_invD[OF workers.reach_inv[OF traffic_worker[OF assms]]]
  note P = traffic_invD(6)[OF traffic.reach_inv[OF assms], of r]
  show "map snd (executed_by x r) = executed (wk_jobs (tr_work x)) r"
    using P executed_pushed(1)[OF W(1,3), of r] by (auto simp: executed_by_def prefix_def simp flip: take_map)
  assume "m_jobCount (queues (wk_jobs (tr_work x)) r) = 0"
  then show "executed_by x r = tr_pushed x r"
    using arg_cong[OF P, of length] executed_pushed(2)[OF W(1,3), of r] by (simp add: executed_by_def)
qed

lemma executed_by_tagged: "prefix (of_session sid (executed_by x r)) (tagged x sid r)"
proof -
  let ?ws = "executed_by x r"
  have "tagged x sid r = of_session sid (?ws @ drop (length (executed (wk_jobs (tr_work x)) r)) (tr_pushed x r))"
    unfolding executed_by_def by (simp add: tagged_def of_session_def)
  then show ?thesis by (simp add: of_session_def)
qed

lemma handled_prefix:
  assumes "traffic_inv x"
  shows "prefix (handled x sid) (fst (split_frames (tr_stream x sid)))"
proof (cases "\<exists>t. recv_session (tr_at x t) = Some sid")
  case True
  then obtain t b n p where "tr_at x t = C_Recv sid b n p" by (auto simp: recv_session_Some)
  from traffic_invD(2)[OF assms this] show ?thesis by (simp add: reading_ok_def stream_ok_def)
next
  case False
  then show ?thesis using traffic_invD(4)[OF assms, of sid] by (simp add: resting_ok_def)
qed

text \<open>The texts of a session that its room has broadcast.\<close>

definition said :: "traffic \<Rightarrow> nat \<Rightarrow> nat list" where
  "said x sid = broadcasts (of_session sid (executed_by x 0))"

lemma said_texts:
  assumes "reach traffic_init (traffic_step L) x"
  shows "prefix (map (buffer_text L (wk_world (tr_work x))) (said x sid))
      (map Some (chat_texts L (fst (split_frames (tr_stream x sid)))))" 
    and "m_jobCount (queues (wk_jobs (tr_work x)) 0) = 0 \<Longrightarrow> \<forall>t. recv_session (tr_at x t) \<noteq> Some sid \<Longrightarrow>
      map (buffer_text L (wk_world (tr_work x))) (said x sid) = map Some (chat_texts L (fst (split_frames (tr_stream x sid))))"
proof -
  let ?T = "buffer_text L (wk_world (tr_work x))" and ?texts = "\<lambda>fs. map Some (chat_texts L fs)"
  have inv: "traffic_inv x" and ti: "text_inv L x" using traffic_text.reach_inv[OF assms] by (simp_all add: text_inv_def)
  obtain way where "asked x sid 0 = tagged x sid 0 @ way" using asked_tagged(1)[OF inv] by blast
  then have "prefix (map ?T (said x sid)) (map ?T (broadcasts (asked x sid 0)))"
    using executed_by_tagged[of sid x 0] by (auto simp: prefix_def said_def)
  also have "\<dots> = ?texts (handled x sid)" by (rule session_texts[OF ti])
  also have "prefix \<dots> (?texts (fst (split_frames (tr_stream x sid))))"
    using handled_prefix[OF inv, of sid] by (auto simp: prefix_def chat_texts_append)
  finally show "prefix (map ?T (said x sid)) (?texts (fst (split_frames (tr_stream x sid))))" .
  assume empty: "m_jobCount (queues (wk_jobs (tr_work x)) 0) = 0" and away: "\<forall>t. recv_session (tr_at x t) \<noteq> Some sid"
  have "of_session sid (executed_by x 0) = asked x sid 0"
    using asked_tagged(2)[OF inv, of sid 0] away executed_by_jobs(2)[OF assms empty] by (simp add: of_session_def tagged_def)
  moreover have "fst (split_frames (tr_stream x sid)) = handled x sid" using traffic_invD(4)[OF inv] away by (simp add: resting_ok_def)
  ultimately show "map ?T (said x sid) = ?texts (fst (split_frames (tr_stream x sid)))"
    using session_texts[OF ti, of sid] by (simp add: said_def)
qed

text \<open>What is executed between two states, with its sessions.\<close>

lemma pushed_grow: "(traffic_step L)\<^sup>*\<^sup>* x y \<Longrightarrow> prefix (tr_pushed x r) (tr_pushed y r)"
proof (induction rule: rtranclp_induct)
  case (step y z)
  have "prefix (tr_pushed y r) (tr_pushed z r)"
    using step.hyps(2)
  proof (cases rule: traffic_step.cases)
    case (tr_receive t sid bs dio c)
    then show ?thesis by (cases c) (simp_all add: recv_begin_def)
  next
    case (tr_packet t io dio)
    from tr_packet(2) show ?thesis by (cases rule: recv_turn_cases) simp_all
  qed (simp_all add: loop_turn_def Let_def)
  then show ?case using step.IH by (rule prefix_order.trans[rotated])
qed simp

lemma executed_by_grow:
  assumes "reach traffic_init (traffic_step L) x" and "(traffic_step L)\<^sup>*\<^sup>* x y"
    and "executed (wk_jobs (tr_work y)) r = executed (wk_jobs (tr_work x)) r @ new"
  obtains ts where "executed_by y r = executed_by x r @ ts" "map snd ts = new"
proof -
  let ?n = "length (executed (wk_jobs (tr_work x)) r)"
  note X = executed_by_jobs(1)[OF assms(1), of r] and Y = executed_by_jobs(1)[OF reach_run[OF assms(2,1)], of r]
  obtain zs where zs: "tr_pushed y r = tr_pushed x r @ zs" using pushed_grow[OF assms(2), of r] by (auto simp: prefix_def)
  have "?n \<le> length (tr_pushed x r)" using arg_cong[OF X, of length] by (simp add: executed_by_def)
  then have "take ?n (executed_by y r) = executed_by x r" using zs assms(3) by (simp add: executed_by_def)
  then have e: "executed_by y r = executed_by x r @ drop ?n (executed_by y r)" by (metis append_take_drop_id)
  then have "map snd (executed_by x r) @ map snd (drop ?n (executed_by y r)) = executed (wk_jobs (tr_work x)) r @ new"
    using Y assms(3) by (metis map_append)
  then show ?thesis using that[OF e] X by simp
qed

lemma subseq_broadcasts: "subseq js ks \<Longrightarrow> subseq (broadcasts js) (broadcasts ks)"
  by (induction js ks rule: list_emb.induct) (auto simp: broadcasts_def intro: list_emb_append_mono list_emb_append2)

lemma said_grow:
  assumes "reach traffic_init (traffic_step L) x" and "(traffic_step L)\<^sup>*\<^sup>* x y"
    and "executed (wk_jobs (tr_work y)) 0 = executed (wk_jobs (tr_work x)) 0 @ new"
  obtains bs where "said y sid = said x sid @ bs" "subseq bs (broadcasts new)"
proof -
  obtain ts where ts: "executed_by y 0 = executed_by x 0 @ ts" "map snd ts = new" by (rule executed_by_grow[OF assms])
  have "subseq (of_session sid ts) new" unfolding of_session_def ts(2)[symmetric] by (intro subseq_map subseq_filter_left)
  then show ?thesis using that[of "broadcasts (of_session sid ts)"] subseq_broadcasts by (simp add: said_def ts(1) of_session_def)
qed

end
