(* ===== verification/Game_Traffic_Properties.thy ===== *)
theory Game_Traffic_Properties
  imports Game_Traffic_Text
begin

text \<open>
  The properties of the whole path from the bytes of a client to the other clients of its room, and a
  run of the server in which a client connects, logs in, enters the game and chats.
\<close>

section \<open>Packets a client may send\<close>

lemma login_start_packet:
  assumes "C_LOGIN_valid 100 pkt" and "length (C_LOGIN_InternalSerialize L pkt) \<le> 65531"
  shows "\<exists>m. packet_start L t sid (packet_bytes PKT_C_LOGIN (C_LOGIN_InternalSerialize L pkt) @ rest)
      (word_of_nat (length (C_LOGIN_InternalSerialize L pkt) + 4)) s = rbind (Login_start L t sid m s) (\<lambda>(_, s'). Inr s')"
  unfolding packet_start_def
  by (rule C_LOGIN.table_packet[where L = L and rest = rest and w = s, unfolded sized_plain,
        OF assms(1) refl clear_new(1) refl assms(2) server_ids(1) worker_entry(1)[of L t sid]]) auto

lemma enter_start_packet:
  assumes "C_ENTER_GAME_valid 100 pkt" and "length (C_ENTER_GAME_InternalSerialize L pkt) \<le> 65531"
  shows "\<exists>m. ce_playerindex m = ce_playerindex pkt
    \<and> packet_start L t sid (packet_bytes PKT_C_ENTER_GAME (C_ENTER_GAME_InternalSerialize L pkt) @ rest)
        (word_of_nat (length (C_ENTER_GAME_InternalSerialize L pkt) + 4)) s = rbind (Enter_start t sid m s) (\<lambda>(_, s'). Inr s')"
  unfolding packet_start_def
  by (rule C_ENTER_GAME.table_packet[where L = L and rest = rest and w = s, unfolded sized_plain,
        OF assms(1) refl clear_new(2) refl assms(2) server_ids(2) worker_entry(2)[of L t sid]]) (auto dest: content_fields)

lemma chat_start_packet:
  assumes "C_CHAT_valid 100 pkt" and "length (C_CHAT_InternalSerialize L pkt) \<le> 65531"
  shows "\<exists>m. cc_msg m = cc_msg pkt
    \<and> packet_start L t sid (packet_bytes PKT_C_CHAT (C_CHAT_InternalSerialize L pkt) @ rest)
        (word_of_nat (length (C_CHAT_InternalSerialize L pkt) + 4)) s = rbind (Chat_start L t m s) (\<lambda>(_, s'). Inr s')"
  unfolding packet_start_def
  by (rule C_CHAT.table_packet[where L = L and rest = rest and w = s, unfolded sized_plain,
        OF assms(1) refl clear_new(3) refl assms(2) server_ids(3) worker_entry(3)[of L t sid]]) (auto dest: content_fields)

lemma chat_packet_text:
  assumes "C_CHAT_valid 100 pkt"
  shows "chat_text L (packet_bytes PKT_C_CHAT (C_CHAT_InternalSerialize L pkt)) = Some (cc_msg pkt)"
proof -
  obtain m where m: "C_CHAT_InternalParse L 100 C_CHAT_new (C_CHAT_InternalSerialize L pkt) = Some (m, At_limit)"
    "C_CHAT_content m = C_CHAT_content pkt"
    using C_CHAT.roundtrip[OF assms, of L] by (auto simp: sized_plain)
  have "cc_msg m = cc_msg pkt" using arg_cong[OF m(2), of cc_msg] by (simp add: C_CHAT_content_def)
  moreover have "C_CHAT_Clear C_CHAT_new = C_CHAT_new" by (simp add: C_CHAT_Clear_def C_CHAT_new_def)
  moreover have "hd_id (read_header (packet_bytes PKT_C_CHAT body)) = PKT_C_CHAT" for body
    using packet_bytes_header[of PKT_C_CHAT body "[]"] by simp
  moreover have "drop 4 (packet_bytes PKT_C_CHAT body) = body" for body
    by (simp add: packet_bytes_def flip: sizeof_PacketHeader_def)
  ultimately show ?thesis using m(1) by (simp add: chat_text_def sizeof_PacketHeader_def MergeFromImpl_def)
qed

section \<open>A run of two workers\<close>

text \<open>Thread 1 accepts session 0.\<close>

lemma one_client:
  "\<exists>x. reach traffic_init (traffic_step L) x \<and> tr_work x = both_dispatch\<lparr>wk_world := OnConnected 0 (server_start send_init)\<rparr>
    \<and> tr_at x 2 = C_None \<and> tr_stream x = (\<lambda>_. []) \<and> tr_log x = [] \<and> (\<forall>u. recv_session (tr_at x u) = None)
    \<and> receiving (tr_sess x 0) \<and> data_of (tr_sess x 0) = [] \<and> m_recvEvent (tr_sess x 0)"
proof -
  obtain s where s: "new_session = Inr s" using RecvBuffer_ok by (auto simp: new_session_def)
  define x0 where "x0 = \<lparr>tr_work = worker_start, tr_sess = (\<lambda>_. s), tr_next = 0, tr_at = (\<lambda>_. C_None), tr_stream = (\<lambda>_. []),
    tr_log = [], tr_pushed = (\<lambda>_. [])\<rparr>"
  define x1 where "x1 = loop_turn 1 (worker_deadline 0 1 worker_start) x0"
  define x2 where "x2 = loop_turn 2 both_dispatch x1"
  have r0: "reach traffic_init (traffic_step L) x0"
    by (rule reach_init) (auto simp: traffic_init_def x0_def worker_init_def worker_start_def job_init_def timer_init_def s)
  have l1: "loop_step L 1 (tr_work x0) (worker_deadline 0 1 worker_start)"
    unfolding x0_def traffic.simps by (rule lp_top) (simp add: wk_ready_def idle_def worker_start_def)
  have r1: "reach traffic_init (traffic_step L) x1"
    unfolding x1_def by (rule reach_step[OF r0 tr_loop[OF l1]]) (simp add: x0_def)
  have l2: "loop_step L 2 (tr_work x1) both_dispatch"
    unfolding x1_def loop_turn_fields both_dispatch_def
    by (rule lp_top) (simp add: wk_ready_def idle_def worker_start_def worker_deadline_def to_phase_def)
  have r2: "reach traffic_init (traffic_step L) x2"
    unfolding x2_def by (rule reach_step[OF r1 tr_loop[OF l2]]) (simp add: x1_def x0_def)
  have x2: "tr_work x2 = both_dispatch" "tr_next x2 = 0" "tr_at x2 = (\<lambda>_. C_None)" "tr_stream x2 = (\<lambda>_. [])" "tr_log x2 = []"
    by (simp_all add: x2_def x1_def x0_def both_dispatch_simps worker_deadline_def to_phase_def)
  let ?w = "server_start send_init"
  obtain s' where s': "ProcessConnect (\<lambda>_ w. Inr (OnConnected 0 w)) IO_Accepted IO_Accepted s ?w = Inr (s', OnConnected 0 ?w)"
  proof -
    obtain b where b: "RecvBuffer BUFFER_SIZE = Inr b" using RecvBuffer_ok by blast
    have "WritePos b = Inr (nat (m_writePos b))"
      using fresh_buffer[OF b] by (intro WritePos_ok) (simp_all add: BUFFER_SIZE_def)
    then show ?thesis using that s b by (auto simp: new_session_def ProcessConnect_def RegisterRecv_def Let_def)
  qed
  note rc = connected_receiving[OF s s']
  have d: "dispatching x2 1"
    by (simp add: dispatching_def x2 wk_ready_def idle_def both_dispatch_simps worker_start_def)
  have "ProcessConnect (\<lambda>_ w. Inr (OnConnected (tr_next x2) w)) IO_Accepted IO_Accepted s (wk_world (tr_work x2)) = Inr (s', OnConnected 0 ?w)"
    using s' by (simp add: x2 both_dispatch_simps)
  note step = tr_accept[OF d s this]
  show ?thesis by (rule exI, rule conjI, rule reach_step[OF r2 step]) (use rc x2 in simp)
qed

text \<open>A receive of whole packets.\<close>

lemma deliver_nothing: "deliver (\<lambda>_ _ a. Inr a) fs r a = Inr a"
  by (induction fs) simp_all

lemma recv_whole:
  assumes rc: "receiving s" "data_of s = []" and bs: "bs \<noteq> []" "int (length bs) \<le> FreeSize (m_recvBuffer s)"
    and fr: "split_frames bs = (fs, [])"
  shows "\<exists>s1 s'. Recv_before dio (int (length bs)) (recv_store bs s) = Inr (Recv_packets s1 bs (int (length bs)))
    \<and> Recv_after IO_Accepted dio (int (length bs)) (int (length bs)) s1 = Inr s'"
proof -
  let ?cb = "\<lambda>_ _ u :: unit. Inr u"
  have inv: "rb_inv (m_recvBuffer s)" using rc(1) by (simp add: receiving_def)
  have fr': "split_frames (data_of s @ bs) = (fs, [])" "\<not> stuck []" using fr rc(2) by (simp_all add: stuck_def)
  have all: "concat fs = bs" using split_frames_concat[OF fr] by simp
  obtain s' where p: "ProcessRecv ?cb IO_Accepted dio (int (length bs)) (recv_store bs s) () = Some (Inr (s', ()))"
    using receive_any[OF rc(1) bs fr' deliver_nothing, of dio "()"] by blast
  then obtain c where c: "Recv_before dio (int (length bs)) (recv_store bs s) = Inr c"
    by (auto simp: Recv_parts split: sum.splits)
  show ?thesis
  proof (cases c)
    case (Recv_ends k)
    then show ?thesis using Recv_before_ends(1)[of dio bs s k] c bs by simp
  next
    case (Recv_packets s1 buffer n)
    note b = Recv_before_packets[OF c[unfolded Recv_packets] inv bs(2)]
    have buf: "buffer = bs" "n = int (length bs)" "length bs < 2 ^ 31" using b(2-5) rc(2) by simp_all
    have "OnRecv ?cb bs (int (length bs)) () = Some (Inr (int (length bs), ()))"
      using OnRecv_deliver[of bs fs "[]" ?cb "()"] fr fr'(2) buf(3) all by (simp add: deliver_nothing)
    then show ?thesis using p c buf Recv_packets by (auto simp: Recv_parts rbind_eq_Inr)
  qed
qed

text \<open>The packets of one receive. Thread 2 is inside OnRecv of session 0 between two packets, at p.\<close>

definition at_packet :: "wire_env \<Rightarrow> session \<Rightarrow> byte list \<Rightarrow> nat \<Rightarrow> traffic \<Rightarrow> bool" where
  "at_packet L s bs p x \<longleftrightarrow> reach traffic_init (traffic_step L) x \<and> at_rest (tr_work x) 2 0 \<and> wk_rest (tr_work x) = (\<lambda>_. No_rest)
     \<and> wk_phase (tr_work x) 2 = W_Dispatch \<and> tr_at x 2 = C_Recv 0 bs (int (length bs)) (int p)
     \<and> tr_stream x 0 = bs \<and> tr_sess x 0 = s \<and> (\<forall>u. u \<noteq> 2 \<longrightarrow> recv_session (tr_at x u) = None)"

lemma at_packetD:
  assumes "at_packet L s bs p x"
  shows "reach traffic_init (traffic_step L) x" "at_rest (tr_work x) 2 0" "wk_rest (tr_work x) = (\<lambda>_. No_rest)"
    "wk_phase (tr_work x) 2 = W_Dispatch" "tr_at x 2 = C_Recv 0 bs (int (length bs)) (int p)" "tr_stream x 0 = bs"
    "tr_sess x 0 = s" "u \<noteq> 2 \<Longrightarrow> recv_session (tr_at x u) = None" "wk_ready (tr_work x) 2 W_Dispatch"
  using assms by (simp_all add: at_packet_def wk_ready_def at_rest_def)

lemma recv_turn_frame:
  assumes at: "tr_at x t = C_Recv sid bs (int (length bs)) (int p)" and here: "drop p bs = packet_bytes i body @ rest"
    and len: "length body \<le> 65531" "length bs < 2 ^ 31"
    and ps: "packet_start L t sid (packet_bytes i body @ rest) (word_of_nat (length body + 4)) (tr_work x) = Inr s"
  shows "recv_turn L io dio t x = Inr (tr_to t (C_Recv sid bs (int (length bs)) (int (p + length body + 4)))
    (x\<lparr>tr_work := s, tr_log := tr_log x @ [(sid, packet_bytes i body, asked_job t s)]\<rparr>))"
proof -
  define h where "h = hd_size (read_header (packet_bytes i body @ rest))"
  have h: "h = word_of_nat (length body + 4)" by (simp add: h_def packet_bytes_header sizeof_PacketHeader_def)
  then have u: "unat h = length body + 4"
    using len(1) by (simp add: unsigned_of_nat take_bit_nat_eq_self del: of_nat_add)
  then have ui: "uint h = int (length body + 4)" by (metis int_nat_eq uint_nat)
  have "length bs = p + (length body + 4 + length rest)" using arg_cong[OF here, of length] by simp
  then have n: "int (length bs) - int p = int (length body + 4 + length rest)" by simp
  have "to_size_t (int (length body + 4 + length rest)) = int (length body + 4 + length rest)"
    using n len(2) by (simp add: to_size_t_def)
  then show ?thesis
    using ps[folded h] at by (simp add: recv_turn_def Let_def here n ui u sizeof_PacketHeader_def add.assoc flip: h_def)
qed

lemma recv_turn_done:
  assumes "tr_at x t = C_Recv sid bs n n" and "Recv_after io dio n n (tr_sess x sid) = Inr s"
  shows "recv_turn L io dio t x = Inr (tr_to t C_Done (tr_session sid s x))"
  using assms by (simp add: recv_turn_def to_size_t_def sizeof_PacketHeader_def)

lemma turn_step:
  assumes A: "at_packet L s bs p x" and here: "drop p bs = packet_bytes i body @ rest"
    and len: "length body \<le> 65531" "length bs < 2 ^ 31"
    and ps: "packet_start L 2 0 (packet_bytes i body @ rest) (word_of_nat (length body + 4)) (tr_work x) = Inr w"
  obtains y where "traffic_step L x y" "tr_work y = w" "tr_at y = (tr_at x)(2 := C_Recv 0 bs (int (length bs)) (int (p + length body + 4)))"
    "tr_stream y = tr_stream x" "tr_sess y = tr_sess x"
  by (rule that[OF tr_packet[OF at_packetD(9)[OF A] recv_turn_frame[OF at_packetD(5)[OF A] here len ps]]]) simp_all

lemma login_new_valid: "C_LOGIN_valid 100 C_LOGIN_new"
  by (simp add: valid_defs new_defs unknown_ok_def foreign_def)

lemma turn_login:
  assumes A: "at_packet L s bs p x" and here: "drop p bs = packet_bytes PKT_C_LOGIN (C_LOGIN_InternalSerialize L C_LOGIN_new) @ rest"
    and len: "length (C_LOGIN_InternalSerialize L C_LOGIN_new) \<le> 65531" "length bs < 2 ^ 31" and g: "game_inv (wk_world (tr_work x), k)"
  obtains y i st where "traffic_step L x y" "at_packet L s bs (p + length (C_LOGIN_InternalSerialize L C_LOGIN_new) + 4) y"
    "wk_world (tr_work y) = Send_call 0 i ((login_world 0 (wk_world (tr_work x)))\<lparr>w_send := st\<rparr>)"
    "game_inv (wk_world (tr_work y), Suc k)" "wk_jobs (tr_work y) = wk_jobs (tr_work x)"
proof -
  obtain m where m: "packet_start L 2 0 (packet_bytes PKT_C_LOGIN (C_LOGIN_InternalSerialize L C_LOGIN_new) @ rest)
      (word_of_nat (length (C_LOGIN_InternalSerialize L C_LOGIN_new) + 4)) (tr_work x)
    = rbind (Login_start L 2 0 m (tr_work x)) (\<lambda>(_, s'). Inr s')"
    using login_start_packet[OF login_new_valid len(1)] by blast
  obtain i st where h: "Handle_C_LOGIN L (unat (2 :: u32)) 0 m (wk_world (tr_work x))
      = Inr (True, Send_call 0 i ((login_world 0 (wk_world (tr_work x)))\<lparr>w_send := st\<rparr>))" (is "_ = Inr (True, ?w)")
    using login_succeeds[OF g] by blast
  have ps: "packet_start L 2 0 (packet_bytes PKT_C_LOGIN (C_LOGIN_InternalSerialize L C_LOGIN_new) @ rest)
      (word_of_nat (length (C_LOGIN_InternalSerialize L C_LOGIN_new) + 4)) (tr_work x) = Inr ((tr_work x)\<lparr>wk_world := ?w\<rparr>)"
    unfolding m Login_start_def h by simp
  obtain y where y: "traffic_step L x y" "tr_work y = (tr_work x)\<lparr>wk_world := ?w\<rparr>"
    "tr_at y = (tr_at x)(2 := C_Recv 0 bs (int (length bs)) (int (p + length (C_LOGIN_InternalSerialize L C_LOGIN_new) + 4)))"
    "tr_stream y = tr_stream x" "tr_sess y = tr_sess x"
    by (rule turn_step[OF A here len ps])
  note D = at_packetD[OF A]
  have "at_packet L s bs (p + length (C_LOGIN_InternalSerialize L C_LOGIN_new) + 4) y"
    using reach_step[OF D(1) y(1)] D(2-8) y(2-5) by (simp add: at_packet_def at_rest_def idle_def)
  moreover have "game_inv (wk_world (tr_work y), Suc k)" using game.step_inv[OF g step_login[OF h]] y(2) by simp
  ultimately show ?thesis using that[OF y(1), of i st] y(2) by simp
qed

text \<open>A handler that calls DoAsync: the job runs at once, then the handler goes on.\<close>

lemma turn_async:
  assumes A: "at_packet L s bs p x" and here: "drop p bs = packet_bytes i body @ rest"
    and len: "length body \<le> 65531" "length bs < 2 ^ 31"
    and ps: "packet_start L 2 0 (packet_bytes i body @ rest) (word_of_nat (length body + 4)) (tr_work x)
      = Inr (DoAsync 2 0 (Room_job job) (set_rest 2 hr ((tr_work x)\<lparr>wk_world := w\<rparr>)))"
    and aft: "handler_after L 2 hr (run_job 0 job w) = Inr w'"
  obtains y where "(traffic_step L)\<^sup>*\<^sup>* x y" "at_packet L s bs (p + length body + 4) y" "wk_world (tr_work y) = w'"
    "executed (wk_jobs (tr_work y)) 0 = executed (wk_jobs (tr_work x)) 0 @ [Room_job job]"
proof -
  let ?s = "set_rest 2 hr ((tr_work x)\<lparr>wk_world := w\<rparr>)"
  note D = at_packetD[OF A]
  obtain y1 where y1: "traffic_step L x y1" "tr_work y1 = DoAsync 2 0 (Room_job job) ?s"
    "tr_at y1 = (tr_at x)(2 := C_Recv 0 bs (int (length bs)) (int (p + length body + 4)))"
    "tr_stream y1 = tr_stream x" "tr_sess y1 = tr_sess x" by (rule turn_step[OF A here len ps])
  have s: "wk_jobs ?s = wk_jobs (tr_work x)" "wk_world ?s = w" "wk_rest ?s = (\<lambda>_. No_rest)(2 := hr)" "wk_phase ?s = wk_phase (tr_work x)"
    using D(3) by (simp_all add: set_rest_def)
  have "at_rest ?s 2 0" using D(2) s by (simp add: at_rest_def idle_def)
  from DoAsync_runs[OF this, of L job] obtain sw where sw: "(busy_step L 2)\<^sup>*\<^sup>* (tr_work y1) sw" "wk_world sw = run_job 0 job w"
    "executed (wk_jobs sw) 0 = executed (wk_jobs (tr_work x)) 0 @ [Room_job job]"
    "queues (wk_jobs sw) 0 = new_job_queue" "push_at (wk_jobs sw) = push_at (wk_jobs (tr_work x))"
    "exec_at (wk_jobs sw) = exec_at (wk_jobs (tr_work x))" "LCurrentJobQueue (wk_jobs sw) = LCurrentJobQueue (wk_jobs (tr_work x))"
    "wk_rest sw = (\<lambda>_. No_rest)(2 := hr)" "wk_phase sw = wk_phase (tr_work x)"
    unfolding s y1(2) by blast
  have "wk_phase (tr_work y1) 2 = W_Dispatch" using y1(2) D(4) s by (simp add: DoAsync_jobs)
  from busy_traffic[OF sw(1) this] obtain y2 where y2: "(traffic_step L)\<^sup>*\<^sup>* y1 y2" "tr_work y2 = sw"
    "tr_at y2 = tr_at y1" "tr_stream y2 = tr_stream y1" "tr_sess y2 = tr_sess y1" by blast
  have run: "(traffic_step L)\<^sup>*\<^sup>* x y2" using y1(1) y2(1) by (rule converse_rtranclp_into_rtranclp)
  have rest: "at_rest sw 2 0" using D(2) sw by (simp add: at_rest_def idle_def)
  show ?thesis
  proof (cases "hr = No_rest")
    case True
    have "at_packet L s bs (p + length body + 4) y2"
      using reach_run[OF run D(1)] D(4,6-8) y1 y2 sw rest True by (auto simp: at_packet_def)
    then show ?thesis using that[OF run] y2 sw True aft by simp
  next
    case False
    define y3 where "y3 = loop_turn 2 (set_rest 2 No_rest (sw\<lparr>wk_world := w'\<rparr>)) y2"
    have "loop_step L 2 (tr_work y2) (set_rest 2 No_rest (sw\<lparr>wk_world := w'\<rparr>))"
      using lp_after[of sw 2 L w'] rest sw(2,8) aft y2(2) by (simp add: at_rest_def)
    then have step: "traffic_step L y2 y3"
      unfolding y3_def by (rule tr_loop) (use False sw(8) y2(2) in \<open>simp add: wk_ready_def\<close>)
    have y3: "tr_work y3 = set_rest 2 No_rest (sw\<lparr>wk_world := w'\<rparr>)" "tr_at y3 = tr_at y2" "tr_stream y3 = tr_stream y2"
      "tr_sess y3 = tr_sess y2" using D(4) sw(9) by (simp_all add: y3_def set_rest_def)
    have run3: "(traffic_step L)\<^sup>*\<^sup>* x y3" using run step by (rule rtranclp.rtrancl_into_rtrancl)
    have "at_packet L s bs (p + length body + 4) y3"
      using reach_run[OF run3 D(1)] D(4,6-8) y1 y2 y3 sw rest
      by (auto simp: at_packet_def set_rest_def at_rest_def idle_def)
    then show ?thesis using that[OF run3] y3(1) sw(3) by (simp add: set_rest_def)
  qed
qed

text \<open>What the packets of the run ask for.\<close>

definition enter_before_world :: "world \<Rightarrow> world" where
  "enter_before_world w = upd_session 0 (\<lambda>s. s\<lparr>gs_room := Some 0\<rparr>) (upd_session 0 (\<lambda>s. s\<lparr>gs_currentPlayer := Some player1\<rparr>) w)"

lemma enter_asked:
  assumes len: "length (C_ENTER_GAME_InternalSerialize L C_ENTER_GAME_new) \<le> 65531"
    and w: "m_rooms (wk_world s) = [0]" "gs_players (sessions (wk_world s) 0) = [player1, player2]"
  shows "packet_start L t 0 (packet_bytes PKT_C_ENTER_GAME (C_ENTER_GAME_InternalSerialize L C_ENTER_GAME_new) @ rest)
      (word_of_nat (length (C_ENTER_GAME_InternalSerialize L C_ENTER_GAME_new) + 4)) s
    = Inr (DoAsync t 0 (Room_job (Enter_job player1)) (set_rest t (Enter_rest 0) (s\<lparr>wk_world := enter_before_world (wk_world s)\<rparr>)))"
proof -
  have v: "C_ENTER_GAME_valid 100 C_ENTER_GAME_new" by (simp add: valid_defs new_defs unknown_ok_def foreign_def)
  obtain m where m: "ce_playerindex m = ce_playerindex C_ENTER_GAME_new"
    "packet_start L t 0 (packet_bytes PKT_C_ENTER_GAME (C_ENTER_GAME_InternalSerialize L C_ENTER_GAME_new) @ rest)
      (word_of_nat (length (C_ENTER_GAME_InternalSerialize L C_ENTER_GAME_new) + 4)) s = rbind (Enter_start t 0 m s) (\<lambda>(_, s'). Inr s')"
    using enter_start_packet[OF v len, of t 0 rest s] by blast
  have "Enter_before 0 m (wk_world s) = Inr ((0, player1), enter_before_world (wk_world s))"
    using w m(1) by (simp add: Enter_before_def Let_def C_ENTER_GAME_new_def GetRoom_def upd_session_def enter_before_world_def)
  then show ?thesis unfolding m(2) by (simp add: Enter_start_def)
qed

lemma enter_after_job:
  assumes w: "rooms w = (\<lambda>_. new_room)" "send_inv None (w_send w, \<lambda>_. None)"
  obtains w' where "handler_after L t (Enter_rest 0) (run_job 0 (Enter_job player1) (enter_before_world w)) = Inr w'"
    "r_players (rooms w' 0) = [(1, player1)]"
proof -
  have sz: "fst (S_ENTER_GAME_ByteSizeLong (S_ENTER_GAME_new\<lparr>se_success := True\<rparr>)) \<le> 5996"
    by (simp add: S_ENTER_GAME_ByteSizeLong_def S_ENTER_GAME_new_def final_size_def Let_def)
  let ?w = "run_job 0 (Enter_job player1) (enter_before_world w)"
  have e: "w_send ?w = w_send w" "gs_currentPlayer (sessions ?w 0) = Some player1" "r_players (rooms ?w 0) = [(1, player1)]"
    using w(1) by (simp_all add: Room_Enter_def upd_room_def enter_before_world_def upd_session_def new_room_def)
  obtain i st where "MakeSendBuffer S_ENTER_GAME_ByteSizeLong (S_ENTER_GAME_InternalSerialize L) (unat t)
      (S_ENTER_GAME_new\<lparr>se_success := True\<rparr>) PKT_S_ENTER_GAME (w_send ?w) = Inr (i, st)"
    using S_ENTER_GAME.make_packet[OF w(2) refl enterPkt_valid sz] unfolding e(1) by blast
  then have "handler_after L t (Enter_rest 0) ?w = Inr (Send_call (g_ownerSession player1) i (?w\<lparr>w_send := st\<rparr>))"
    using e(2) by (simp add: Enter_after_def Let_def make_defs with_buffer_def)
  then show ?thesis by (rule that) (use e(3) in simp)
qed

lemma chat_asked:
  assumes v: "C_CHAT_valid 100 pkt" and len: "length (C_CHAT_InternalSerialize L pkt) \<le> 65531"
    and sz: "fst (S_CHAT_ByteSizeLong (S_CHAT_new\<lparr>sc_msg := cc_msg pkt\<rparr>)) \<le> 5996" and ok: "world_ok (wk_world s)"
  shows "\<exists>b w. packet_start L t sid (packet_bytes PKT_C_CHAT (C_CHAT_InternalSerialize L pkt) @ rest)
      (word_of_nat (length (C_CHAT_InternalSerialize L pkt) + 4)) s
    = Inr (DoAsync t 0 (Room_job (Broadcast_job b)) (s\<lparr>wk_world := w\<rparr>))"
proof -
  obtain m where m: "cc_msg m = cc_msg pkt"
    "packet_start L t sid (packet_bytes PKT_C_CHAT (C_CHAT_InternalSerialize L pkt) @ rest)
      (word_of_nat (length (C_CHAT_InternalSerialize L pkt) + 4)) s = rbind (Chat_start L t m s) (\<lambda>(_, s'). Inr s')"
    using chat_start_packet[OF v len, of t sid rest s] by blast
  have w: "m_rooms (wk_world s) = [0]" "send_inv None (w_send (wk_world s), \<lambda>_. None)" using ok by (simp_all add: world_ok_def)
  have sv: "S_CHAT_valid 100 (S_CHAT_new\<lparr>sc_msg := cc_msg m\<rparr>)" using v by (intro chatPkt_valid) (simp add: C_CHAT_valid_def m(1))
  obtain b st where "MakeSendBuffer S_CHAT_ByteSizeLong (S_CHAT_InternalSerialize L) (unat t)
      (S_CHAT_new\<lparr>sc_msg := cc_msg m\<rparr>) PKT_S_CHAT (w_send (wk_world s)) = Inr (b, st)"
    using S_CHAT.make_packet[OF w(2) refl sv] sz unfolding m(1) by blast
  then have "Chat_start L t m s = Inr (True, DoAsync t 0 (Room_job (Broadcast_job b)) (s\<lparr>wk_world := (wk_world s)\<lparr>w_send := st\<rparr>\<rparr>))"
    using w(1) by (simp add: Chat_start_def Chat_before_def Let_def make_defs with_buffer_def GetRoom_def)
  then show ?thesis unfolding m(2) by auto
qed

text \<open>The run: a login, an entry and a chat in one receive.\<close>

definition hello :: C_CHAT where
  "hello = long_chat 5"

definition hello_bytes :: "wire_env \<Rightarrow> byte list" where
  "hello_bytes L = packet_bytes PKT_C_LOGIN (C_LOGIN_InternalSerialize L C_LOGIN_new)
     @ packet_bytes PKT_C_ENTER_GAME (C_ENTER_GAME_InternalSerialize L C_ENTER_GAME_new)
     @ packet_bytes PKT_C_CHAT (C_CHAT_InternalSerialize L hello)"

lemma hello_facts:
  "C_CHAT_valid 100 hello" "cc_msg hello = replicate 5 0x61" "length (C_CHAT_InternalSerialize L hello) = 7"
  "fst (S_CHAT_ByteSizeLong (S_CHAT_new\<lparr>sc_msg := cc_msg hello\<rparr>)) \<le> 5996"
  "length (C_LOGIN_InternalSerialize L C_LOGIN_new) \<le> 5996" "length (C_ENTER_GAME_InternalSerialize L C_ENTER_GAME_new) \<le> 5996"
proof -
  define n :: nat where "n = 5"
  have n: "n \<le> max_size" "length (venc n) = 1" "0 < n" by (simp_all add: n_def max_size_def venc_small)
  have h: "hello = long_chat n" by (simp add: hello_def n_def)
  show "C_CHAT_valid 100 hello" unfolding h by (rule long_chat_valid[OF n(1)])
  show "cc_msg hello = replicate 5 0x61" by (simp add: hello_def)
  show "length (C_CHAT_InternalSerialize L hello) = 7" unfolding h long_chat_sizes(1)[OF n(3,1)] n(2) by (simp add: n_def)
  show "fst (S_CHAT_ByteSizeLong (S_CHAT_new\<lparr>sc_msg := cc_msg hello\<rparr>)) \<le> 5996"
    unfolding h using long_chat_sizes(2)[OF n(3,1)] n(2) by (simp add: n_def)
  show "length (C_LOGIN_InternalSerialize L C_LOGIN_new) \<le> 5996"
    using C_LOGIN.size_law[OF login_new_valid, of L] by (simp add: sized_plain size_defs new_defs final_size_def Let_def)
  have v: "C_ENTER_GAME_valid 100 C_ENTER_GAME_new" by (simp add: valid_defs new_defs unknown_ok_def foreign_def)
  show "length (C_ENTER_GAME_InternalSerialize L C_ENTER_GAME_new) \<le> 5996"
    using C_ENTER_GAME.size_law[OF v, of L] by (simp add: sized_plain size_defs new_defs final_size_def Let_def)
qed

lemma hello_frames:
  "split_frames (hello_bytes L) = ([packet_bytes PKT_C_LOGIN (C_LOGIN_InternalSerialize L C_LOGIN_new),
     packet_bytes PKT_C_ENTER_GAME (C_ENTER_GAME_InternalSerialize L C_ENTER_GAME_new),
     packet_bytes PKT_C_CHAT (C_CHAT_InternalSerialize L hello)], [])"
  using hello_facts(3,5,6)[of L]
    split_frames_wf[of "[packet_bytes PKT_C_LOGIN (C_LOGIN_InternalSerialize L C_LOGIN_new),
      packet_bytes PKT_C_ENTER_GAME (C_ENTER_GAME_InternalSerialize L C_ENTER_GAME_new),
      packet_bytes PKT_C_CHAT (C_CHAT_InternalSerialize L hello)]" "[]"]
  by (simp add: hello_bytes_def packet_wf incomplete_def)

lemma hello_start:
  obtains x s s' where "at_packet L s (hello_bytes L) 0 x"
    "Recv_after IO_Accepted IO_Accepted (int (length (hello_bytes L))) (int (length (hello_bytes L))) s = Inr s'"
    "wk_world (tr_work x) = OnConnected 0 (server_start send_init)" "executed (wk_jobs (tr_work x)) 0 = []"
proof -
  let ?bs = "hello_bytes L"
  obtain x where r: "reach traffic_init (traffic_step L) x"
    and x: "tr_work x = both_dispatch\<lparr>wk_world := OnConnected 0 (server_start send_init)\<rparr>" "tr_at x 2 = C_None"
      "tr_stream x = (\<lambda>_. [])" "\<And>u. recv_session (tr_at x u) = None"
    and rc: "receiving (tr_sess x 0)" "data_of (tr_sess x 0) = []" "m_recvEvent (tr_sess x 0)"
    using one_client[of L] by blast
  have len: "?bs \<noteq> []" "length ?bs \<le> 12011"
    using hello_facts(3,5,6)[of L] by (auto simp: hello_bytes_def simp flip: length_greater_0_conv)
  then have fit: "int (length ?bs) \<le> FreeSize (m_recvBuffer (tr_sess x 0))"
    using rc(1) by (auto simp: receiving_def BUFFER_SIZE_def)
  obtain s s' where before: "Recv_before IO_Accepted (int (length ?bs)) (recv_store ?bs (tr_sess x 0)) = Inr (Recv_packets s ?bs (int (length ?bs)))"
    and after: "Recv_after IO_Accepted IO_Accepted (int (length ?bs)) (int (length ?bs)) s = Inr s'"
    using recv_whole[OF rc(1,2) len(1) fit hello_frames] by blast
  have rest: "at_rest (tr_work x) 2 0" "wk_rest (tr_work x) = (\<lambda>_. No_rest)" "wk_phase (tr_work x) 2 = W_Dispatch"
    using x by (simp_all add: at_rest_def idle_def both_dispatch_simps worker_start_def)
  then have d: "dispatching x 2" using x by (simp add: dispatching_def wk_ready_def at_rest_def)
  define y where "y = recv_begin 2 0 ?bs (Recv_packets s ?bs (int (length ?bs))) x"
  have ry: "reach traffic_init (traffic_step L) y" unfolding y_def by (rule reach_step[OF r tr_receive[OF d rc(3) fit before]])
  have y: "tr_work y = tr_work x" "tr_at y = (tr_at x)(2 := C_Recv 0 ?bs (int (length ?bs)) 0)" "tr_stream y 0 = ?bs" "tr_sess y 0 = s"
    using x by (simp_all add: y_def recv_begin_def)
  have "at_packet L s ?bs 0 y" using ry y rest x(4) by (simp add: at_packet_def)
  then show ?thesis by (rule that[OF _ after]) (use y x in \<open>simp_all add: both_dispatch_simps worker_start_def\<close>)
qed

text \<open>The client is in the room when thread 2 comes to its chat.\<close>

lemma hello_entered:
  obtains x s s' p where "at_packet L s (hello_bytes L) p x" "drop p (hello_bytes L) = packet_bytes PKT_C_CHAT (C_CHAT_InternalSerialize L hello)"
    "Recv_after IO_Accepted IO_Accepted (int (length (hello_bytes L))) (int (length (hello_bytes L))) s = Inr s'"
    "executed (wk_jobs (tr_work x)) 0 = [Room_job (Enter_job player1)]" "r_players (rooms (wk_world (tr_work x)) 0) = [(1, player1)]"
proof -
  let ?bs = "hello_bytes L" and ?l = "C_LOGIN_InternalSerialize L C_LOGIN_new" and ?e = "C_ENTER_GAME_InternalSerialize L C_ENTER_GAME_new"
  let ?fe = "packet_bytes PKT_C_ENTER_GAME ?e" and ?fc = "packet_bytes PKT_C_CHAT (C_CHAT_InternalSerialize L hello)"
  have len: "length ?bs < 2 ^ 31" "length ?l \<le> 65531" "length ?e \<le> 65531"
    using hello_facts(3,5,6)[of L] by (simp_all add: hello_bytes_def)
  obtain x0 s s' where x0: "at_packet L s ?bs 0 x0"
    "Recv_after IO_Accepted IO_Accepted (int (length ?bs)) (int (length ?bs)) s = Inr s'"
    "wk_world (tr_work x0) = OnConnected 0 (server_start send_init)" "executed (wk_jobs (tr_work x0)) 0 = []" by (rule hello_start)
  have g0: "game_inv (wk_world (tr_work x0), 0)"
    unfolding x0(3) by (rule game.step_inv[OF game.reach_inv[OF start_reach] step_connect])
  have d0: "drop 0 ?bs = packet_bytes PKT_C_LOGIN ?l @ ?fe @ ?fc" by (simp add: hello_bytes_def)
  obtain x1 i st where x1: "at_packet L s ?bs (0 + length ?l + 4) x1"
    "wk_world (tr_work x1) = Send_call 0 i ((login_world 0 (wk_world (tr_work x0)))\<lparr>w_send := st\<rparr>)"
    "game_inv (wk_world (tr_work x1), Suc 0)" "wk_jobs (tr_work x1) = wk_jobs (tr_work x0)"
    using turn_login[OF x0(1) d0 len(2,1) g0] by metis
  have w1: "rooms (wk_world (tr_work x1)) = (\<lambda>_. new_room)" "gs_players (sessions (wk_world (tr_work x1)) 0) = [player1, player2]"
    unfolding x1(2) x0(3) by (simp_all add: login_world_simps OnConnected_def SessionManager_Add_def new_game_session_def)
  note G = game_invD(1,2)[OF x1(3)]
  have d1: "drop (0 + length ?l + 4) ?bs = ?fe @ ?fc" by (simp add: hello_bytes_def)
  obtain w' where w': "handler_after L 2 (Enter_rest 0) (run_job 0 (Enter_job player1) (enter_before_world (wk_world (tr_work x1)))) = Inr w'"
    "r_players (rooms w' 0) = [(1, player1)]" by (rule enter_after_job[OF w1(1) G(2)])
  obtain x2 where x2: "at_packet L s ?bs (0 + length ?l + 4 + length ?e + 4) x2" "wk_world (tr_work x2) = w'"
    "executed (wk_jobs (tr_work x2)) 0 = executed (wk_jobs (tr_work x1)) 0 @ [Room_job (Enter_job player1)]"
    by (rule turn_async[OF x1(1) d1 len(3,1) enter_asked[OF len(3) G(1) w1(2)] w'(1)])
  show ?thesis
    by (rule that[OF x2(1) _ x0(2)]) (use x2 x1(4) x0(4) w'(2) in \<open>simp_all add: hello_bytes_def\<close>)
qed

lemma hello_run:
  obtains x y b where "reach traffic_init (traffic_step L) x" "(traffic_step L)\<^sup>*\<^sup>* x y"
    "executed (wk_jobs (tr_work x)) 0 = [Room_job (Enter_job player1)]" "r_players (rooms (wk_world (tr_work x)) 0) = [(1, player1)]"
    "executed (wk_jobs (tr_work y)) 0 = [Room_job (Enter_job player1), Room_job (Broadcast_job b)]"
    "tr_stream y 0 = hello_bytes L" "m_jobCount (queues (wk_jobs (tr_work y)) 0) = 0" "\<forall>u. recv_session (tr_at y u) = None"
proof -
  let ?bs = "hello_bytes L" and ?c = "C_CHAT_InternalSerialize L hello"
  have len: "length ?bs < 2 ^ 31" "length ?c \<le> 65531" using hello_facts(3,5,6)[of L] by (simp_all add: hello_bytes_def)
  obtain x s s' p where x: "at_packet L s ?bs p x" "drop p ?bs = packet_bytes PKT_C_CHAT ?c"
    "Recv_after IO_Accepted IO_Accepted (int (length ?bs)) (int (length ?bs)) s = Inr s'"
    "executed (wk_jobs (tr_work x)) 0 = [Room_job (Enter_job player1)]" "r_players (rooms (wk_world (tr_work x)) 0) = [(1, player1)]"
    by (rule hello_entered)
  note X = at_packetD[OF x(1)]
  have d: "drop p ?bs = packet_bytes PKT_C_CHAT ?c @ []" using x(2) by simp
  have "world_ok (wk_world (tr_work x))" using traffic_text.reach_inv[OF X(1)] by (simp add: text_inv_def)
  from chat_asked[OF hello_facts(1) len(2) hello_facts(4) this, of 2 0 "[]"] obtain b w where
    "packet_start L 2 0 (packet_bytes PKT_C_CHAT ?c @ []) (word_of_nat (length ?c + 4)) (tr_work x)
      = Inr (DoAsync 2 0 (Room_job (Broadcast_job b)) ((tr_work x)\<lparr>wk_world := w\<rparr>))" by blast
  moreover have "set_rest 2 No_rest ((tr_work x)\<lparr>wk_world := w\<rparr>) = (tr_work x)\<lparr>wk_world := w\<rparr>"
    using X(3) by (simp add: set_rest_def fun_upd_idem)
  ultimately have ps: "packet_start L 2 0 (packet_bytes PKT_C_CHAT ?c @ []) (word_of_nat (length ?c + 4)) (tr_work x)
      = Inr (DoAsync 2 0 (Room_job (Broadcast_job b)) (set_rest 2 No_rest ((tr_work x)\<lparr>wk_world := w\<rparr>)))" by simp
  obtain y where y: "(traffic_step L)\<^sup>*\<^sup>* x y" "at_packet L s ?bs (p + length ?c + 4) y"
    "executed (wk_jobs (tr_work y)) 0 = executed (wk_jobs (tr_work x)) 0 @ [Room_job (Broadcast_job b)]"
    by (rule turn_async[OF x(1) d len(2,1) ps handler_after.simps(1)])
  have p: "p + length ?c + 4 = length ?bs" using arg_cong[OF x(2), of length] by simp
  note Y = at_packetD[OF y(2)[unfolded p]]
  define z where "z = tr_to 2 C_Done (tr_session 0 s' y)"
  have "recv_turn L IO_Accepted IO_Accepted 2 y = Inr z"
    unfolding z_def by (rule recv_turn_done[OF Y(5)]) (use x(3) Y(7) in simp)
  from tr_packet[OF Y(9) this] have z: "(traffic_step L)\<^sup>*\<^sup>* x z" using y(1) by simp
  have rest: "m_jobCount (queues (wk_jobs (tr_work y)) 0) = 0" using Y(2) by (simp add: at_rest_def new_job_queue_def)
  show ?thesis
    by (rule that[OF X(1) z x(4,5)]) (use y(3) x(4) Y(6,8) rest in \<open>simp_all add: z_def\<close>)
qed

lemma hello_texts: "chat_texts L (fst (split_frames (hello_bytes L))) = [replicate 5 0x61]"
proof -
  have "chat_text L (packet_bytes i body) = None" if "i \<noteq> PKT_C_CHAT" for i body
    using packet_bytes_header[of i body "[]"] that by (simp add: chat_text_def)
  then show ?thesis
    using chat_packet_text[OF hello_facts(1), of L]
    by (simp add: hello_frames chat_texts_def List.map_filter_simps packet_ids hello_facts(2))
qed

section \<open>Properties\<close>

text \<open>C4: The stream survives the threads. Whatever worker dispatches a receive and wherever the threads
  are interleaved, inside handlers and inside the queues, the packets of a session that were handled are
  the first packets of the bytes it sent, in their order and each once; when no worker is inside OnRecv
  of the session they are all of them, and its buffer holds the incomplete rest. No two workers are ever
  inside OnRecv of one session.
  A Push adds to the int32 counter of its queue only below 2^31 - 1; as no worker clears jobs it counts
  the jobs alive.\<close>

theorem packets_in_order:
  assumes "reach traffic_init (traffic_step L) x"
  shows "prefix (handled x sid) (fst (split_frames (tr_stream x sid)))
    \<and> ((\<forall>t. recv_session (tr_at x t) \<noteq> Some sid) \<longrightarrow>
        split_frames (tr_stream x sid) = (handled x sid, data_of (tr_sess x sid)))
    \<and> (\<forall>t u. recv_session (tr_at x t) = Some sid \<longrightarrow> recv_session (tr_at x u) = Some sid \<longrightarrow> t = u)"
proof (intro conjI allI impI)
  note D = traffic_invD[OF traffic.reach_inv[OF assms]]
  show "split_frames (tr_stream x sid) = (handled x sid, data_of (tr_sess x sid))"
    if "\<forall>t. recv_session (tr_at x t) \<noteq> Some sid" using D(4) that by (simp add: resting_ok_def)
  show "prefix (handled x sid) (fst (split_frames (tr_stream x sid)))"
    by (rule handled_prefix[OF traffic.reach_inv[OF assms]])
  show "recv_session (tr_at x t) = Some sid \<Longrightarrow> recv_session (tr_at x u) = Some sid \<Longrightarrow> t = u" for t u by (rule D(3))
qed

theorem packets_in_order_witness:
  "\<exists>x. reach traffic_init (traffic_step test_env) x
    \<and> handled x 0 = [packet_bytes PKT_C_LOGIN (C_LOGIN_InternalSerialize test_env C_LOGIN_new),
        packet_bytes PKT_C_ENTER_GAME (C_ENTER_GAME_InternalSerialize test_env C_ENTER_GAME_new),
        packet_bytes PKT_C_CHAT (C_CHAT_InternalSerialize test_env hello)]"
proof -
  obtain x y where r: "reach traffic_init (traffic_step test_env) x" "(traffic_step test_env)\<^sup>*\<^sup>* x y"
    and y: "tr_stream y 0 = hello_bytes test_env" "\<forall>u. recv_session (tr_at y u) = None" by (rule hello_run)
  have ry: "reach traffic_init (traffic_step test_env) y" by (rule reach_run[OF r(2,1)])
  have "split_frames (tr_stream y 0) = (handled y 0, data_of (tr_sess y 0))" using packets_in_order[OF ry, of 0] y(2) by simp
  then show ?thesis using hello_frames[of test_env] ry y(1) by auto
qed

text \<open>C2: A room says what its clients said and nothing else. Each job the queue of the room has executed
  came from a packet of one session or from no packet, and those from no packet broadcast nothing. In
  every state the worker threads reach, with any number of clients and packets, the texts the room has
  broadcast for a client are the first texts of the chat packets in the bytes the client sent, in their
  order, none twice and none left out; when the queue of the room is done and no worker is inside a
  receive of the client, they are all of them.
  A Push adds to the int32 counter of its queue only below 2^31 - 1; as no worker clears jobs it counts
  the jobs alive.\<close>

theorem chats_in_stream_order:
  assumes "reach traffic_init (traffic_step L) x"
  shows "map snd (executed_by x 0) = executed (wk_jobs (tr_work x)) 0
    \<and> (\<forall>c. (None, c) \<in> set (executed_by x 0) \<longrightarrow> broadcasts [c] = [])
    \<and> prefix (map (buffer_text L (wk_world (tr_work x))) (said x sid))
        (map Some (chat_texts L (fst (split_frames (tr_stream x sid)))))
    \<and> (m_jobCount (queues (wk_jobs (tr_work x)) 0) = 0 \<longrightarrow> (\<forall>t. recv_session (tr_at x t) \<noteq> Some sid) \<longrightarrow>
        map (buffer_text L (wk_world (tr_work x))) (said x sid)
          = map Some (chat_texts L (fst (split_frames (tr_stream x sid)))))"
proof (intro conjI impI allI)
  show "map snd (executed_by x 0) = executed (wk_jobs (tr_work x)) 0" by (rule executed_by_jobs(1)[OF assms])
  show "broadcasts [c] = []" if "(None, c) \<in> set (executed_by x 0)" for c
    using in_set_takeD[OF that[unfolded executed_by_def]] traffic_source.reach_inv[OF assms] by (simp add: source_ok_def)
qed (use said_texts[OF assms, of sid] in simp_all)

theorem chats_in_stream_order_witness:
  "\<exists>x b. reach traffic_init (traffic_step test_env) x
    \<and> executed (wk_jobs (tr_work x)) 0 = [Room_job (Enter_job player1), Room_job (Broadcast_job b)]
    \<and> map (buffer_text test_env (wk_world (tr_work x))) (said x 0) = [Some (replicate 5 0x61)]"
proof -
  obtain x y b where r: "reach traffic_init (traffic_step test_env) x" "(traffic_step test_env)\<^sup>*\<^sup>* x y"
    and y: "executed (wk_jobs (tr_work y)) 0 = [Room_job (Enter_job player1), Room_job (Broadcast_job b)]"
      "tr_stream y 0 = hello_bytes test_env" "m_jobCount (queues (wk_jobs (tr_work y)) 0) = 0"
      "\<forall>u. recv_session (tr_at y u) = None" by (rule hello_run)
  have ry: "reach traffic_init (traffic_step test_env) y" by (rule reach_run[OF r(2,1)])
  have "map (buffer_text test_env (wk_world (tr_work y))) (said y 0) = [Some (replicate 5 0x61)]"
    using chats_in_stream_order[OF ry, of 0] y(2-4) by (simp add: hello_texts)
  with ry y(1) show ?thesis by (intro exI[of _ y] exI[of _ b] conjI)
qed

text \<open>C1: Everybody in the room hears every client, from bytes to calls of Send. Take any two states of
  the server, one after the other, and a player that is in the room in the first and neither enters nor
  leaves it in between. Then the texts of any client that the room broadcasts in between, which are the
  texts of its chat packets from the first not said before on, are all sent to the player's session, in
  the order the client sent them; and when the queue of the room is done and no worker is inside a
  receive of that client, nothing it said is missing.
  A Push adds to the int32 counter of its queue only below 2^31 - 1; as no worker clears jobs it counts
  the jobs alive.\<close>

theorem chats_heard:
  assumes "reach traffic_init (traffic_step L) x" and "(traffic_step L)\<^sup>*\<^sup>* x y"
    and "map_of (r_players (rooms (wk_world (tr_work x)) 0)) k = Some p"
    and "executed (wk_jobs (tr_work y)) 0 = executed (wk_jobs (tr_work x)) 0 @ new" and "\<forall>c \<in> set new. \<not> concerns k c"
  shows "\<exists>sent. sends (wk_world (tr_work y)) = sends (wk_world (tr_work x)) @ sent
    \<and> subseq (map Some (drop (length (said x sid)) (take (length (said y sid)) (chat_texts L (fst (split_frames (tr_stream y sid)))))))
        (map (buffer_text L (wk_world (tr_work y))) (sent_to (g_ownerSession p) sent))
    \<and> (m_jobCount (queues (wk_jobs (tr_work y)) 0) = 0 \<longrightarrow> (\<forall>t. recv_session (tr_at y t) \<noteq> Some sid) \<longrightarrow>
        length (said y sid) = length (chat_texts L (fst (split_frames (tr_stream y sid)))))"
proof -
  let ?T = "buffer_text L (wk_world (tr_work y))" and ?texts = "chat_texts L (fst (split_frames (tr_stream y sid)))"
  note Y = said_texts[OF reach_run[OF assms(2,1)], of sid]
  have "(worker_step L)\<^sup>*\<^sup>* (tr_work x) (tr_work y)"
    using assms(2) by (induction rule: rtranclp_induct) (auto dest: traffic_worker_step)
  from run_sends[OF this workers.reach_inv[OF traffic_worker[OF assms(1)]]] assms(3-5)
  obtain sent where sent: "sends (wk_world (tr_work y)) = sends (wk_world (tr_work x)) @ sent"
    "subseq (broadcasts new) (sent_to (g_ownerSession p) sent)" unfolding players_of_def by fastforce
  obtain bs where bs: "said y sid = said x sid @ bs" "subseq bs (broadcasts new)" by (rule said_grow[OF assms(1,2,4)])
  have "map Some (take (length (said y sid)) ?texts) = map ?T (said y sid)"
    using Y(1) by (auto simp: prefix_def take_map[symmetric])
  then have "map Some (drop (length (said x sid)) (take (length (said y sid)) ?texts)) = map ?T bs"
    by (simp add: drop_map[symmetric] bs(1))
  moreover have "subseq (map ?T bs) (map ?T (sent_to (g_ownerSession p) sent))"
    using subseq_map subseq_order.trans[OF bs(2) sent(2)] by blast
  moreover have "length (said y sid) = length ?texts"
    if "m_jobCount (queues (wk_jobs (tr_work y)) 0) = 0" "\<forall>t. recv_session (tr_at y t) \<noteq> Some sid"
    using arg_cong[OF Y(2)[OF that], of length] by simp
  ultimately show ?thesis using sent(1) by auto
qed

theorem chats_heard_witness:
  "\<exists>x y b sent. reach traffic_init (traffic_step test_env) x \<and> (traffic_step test_env)\<^sup>*\<^sup>* x y
    \<and> executed (wk_jobs (tr_work y)) 0 = executed (wk_jobs (tr_work x)) 0 @ [Room_job (Broadcast_job b)]
    \<and> sends (wk_world (tr_work y)) = sends (wk_world (tr_work x)) @ sent
    \<and> subseq [Some (replicate 5 0x61)] (map (buffer_text test_env (wk_world (tr_work y))) (sent_to 0 sent))"
proof -
  obtain x y b where r: "reach traffic_init (traffic_step test_env) x" "(traffic_step test_env)\<^sup>*\<^sup>* x y"
    and x: "executed (wk_jobs (tr_work x)) 0 = [Room_job (Enter_job player1)]" "r_players (rooms (wk_world (tr_work x)) 0) = [(1, player1)]"
    and y: "executed (wk_jobs (tr_work y)) 0 = [Room_job (Enter_job player1), Room_job (Broadcast_job b)]"
      "tr_stream y 0 = hello_bytes test_env" "m_jobCount (queues (wk_jobs (tr_work y)) 0) = 0"
      "\<forall>u. recv_session (tr_at y u) = None" by (rule hello_run)
  have "set (map snd (executed_by x 0)) = {Room_job (Enter_job player1)}" unfolding executed_by_jobs(1)[OF r(1)] x(1) by simp
  then have "c = Room_job (Enter_job player1)" if "(z, c) \<in> set (executed_by x 0)" for z c using that by force
  then have none: "said x 0 = []" by (fastforce simp: said_def of_session_def broadcasts_def)
  have p: "map_of (r_players (rooms (wk_world (tr_work x)) 0)) 1 = Some player1" using x(2) by simp
  have new: "executed (wk_jobs (tr_work y)) 0 = executed (wk_jobs (tr_work x)) 0 @ [Room_job (Broadcast_job b)]" using x(1) y(1) by simp
  from chats_heard[OF r p new, of 0] none y(2-4) have "\<exists>sent. sends (wk_world (tr_work y)) = sends (wk_world (tr_work x)) @ sent
    \<and> subseq [Some (replicate 5 0x61)] (map (buffer_text test_env (wk_world (tr_work y))) (sent_to 0 sent))"
    by (auto simp: hello_texts)
  then show ?thesis using r new by blast
qed

end
