(* ===== verification/Game_Contract.thy ===== *)
theory Game_Contract
  imports Game_Properties
begin

text \<open>
  What the game server promises its clients, stated without its code: a game of players, one room and
  the replies the clients read, in which a client asks for a login, for one of its players to enter,
  or for a text to be said. The bytes of a packet are what its parser makes of them, and a reply is
  what a client's parser makes of the buffer that was sent; there are no send buffers, no table of
  handlers, no std::map and no managers here. Then the simulation: any sequence of connections,
  packets, disconnections and jobs of the room makes of the server what the same sequence makes of the
  game, and crashes it exactly where the game has no next state. A handler and a job of the room are one
  event each, as in Game_World; what the threads do in between is in Game_Worker.
\<close>

section \<open>What clients ask and what they hear\<close>

datatype request = Ask_login | Ask_enter nat | Ask_say "byte list" | Ask_nothing | Ask_beyond_table

datatype reply =
    Login_reply bool "(u64 \<times> byte list \<times> u32) list"
  | Enter_reply bool
  | Chat_reply u64 "byte list"
  | No_reply

definition pkt_id :: "byte list \<Rightarrow> u16" where
  "pkt_id p = hd_id (read_header p)"

definition request_of :: "wire_env \<Rightarrow> byte list \<Rightarrow> request" where
  "request_of L p =
     (let body = drop 4 p in
      if pkt_id p = 1000 then
        (case MergeFromImpl (C_LOGIN_InternalParse L) C_LOGIN_new body of None \<Rightarrow> Ask_nothing | Some m \<Rightarrow> Ask_login)
      else if pkt_id p = 1002 then
        (case MergeFromImpl (C_ENTER_GAME_InternalParse L) C_ENTER_GAME_new body of
           None \<Rightarrow> Ask_nothing | Some m \<Rightarrow> Ask_enter (unat (ce_playerindex m)))
      else if pkt_id p = 1004 then
        (case MergeFromImpl (C_CHAT_InternalParse L) C_CHAT_new body of
           None \<Rightarrow> Ask_nothing | Some m \<Rightarrow> Ask_say (cc_msg m))
      else if pkt_id p = 65535 then Ask_beyond_table
      else Ask_nothing)"

definition reply_of :: "wire_env \<Rightarrow> byte list \<Rightarrow> reply" where
  "reply_of L p =
     (let body = drop 4 p in
      if pkt_id p = 1001 then
        (case MergeFromImpl (S_LOGIN_InternalParse L) S_LOGIN_new body of
           None \<Rightarrow> No_reply
         | Some m \<Rightarrow> Login_reply (sl_success m) (map (\<lambda>p. (pl_id p, pl_name p, pl_playertype p)) (sl_players m)))
      else if pkt_id p = 1003 then
        (case MergeFromImpl (S_ENTER_GAME_InternalParse L) S_ENTER_GAME_new body of
           None \<Rightarrow> No_reply | Some m \<Rightarrow> Enter_reply (se_success m))
      else if pkt_id p = 1005 then
        (case MergeFromImpl (S_CHAT_InternalParse L) S_CHAT_new body of
           None \<Rightarrow> No_reply | Some m \<Rightarrow> Chat_reply (sc_playerid m) (sc_msg m))
      else No_reply)"

section \<open>The game\<close>

datatype room_order = Comes game_player | Goes game_player | Says reply

record game =
  g_next :: u64
  g_online :: "nat set"
  g_players :: "nat \<Rightarrow> game_player list"
  g_current :: "nat \<Rightarrow> game_player option"
  g_inside :: "u64 \<rightharpoonup> game_player"
  g_inbox :: "room_order list"
  g_sent :: "(nat \<times> reply) list"

definition new_game :: game where
  "new_game = \<lparr>g_next = 1, g_online = {}, g_players = (\<lambda>_. []), g_current = (\<lambda>_. None), g_inside = Map.empty,
     g_inbox = [], g_sent = []\<rparr>"

definition TempName1 :: "byte list" where "TempName1 = map of_char ''TempName1''"
definition TempName2 :: "byte list" where "TempName2 = map of_char ''TempName2''"

text \<open>Every login makes two more players, a knight and a mage with the next two ids; their ids are not
  in the reply. A player enters by its index. A text of more than 5993 bytes does not fit in a packet.\<close>

fun answer :: "nat \<Rightarrow> request \<Rightarrow> game \<Rightarrow> game option" where
  "answer sid Ask_login g =
     (let knight = \<lparr>g_playerId = g_next g, g_name = TempName1, g_type = 1, g_ownerSession = sid\<rparr>;
          mage = \<lparr>g_playerId = g_next g + 1, g_name = TempName2, g_type = 2, g_ownerSession = sid\<rparr>
      in Some (g\<lparr>g_next := g_next g + 2, g_players := (g_players g)(sid := g_players g sid @ [knight, mage]),
           g_sent := g_sent g @ [(sid, Login_reply True [(0, TempName1, 1), (0, TempName2, 2)])]\<rparr>))"
| "answer sid (Ask_enter i) g =
     (if i < length (g_players g sid)
      then let p = g_players g sid ! i in
           Some (g\<lparr>g_current := (g_current g)(sid := Some p), g_inbox := g_inbox g @ [Comes p],
             g_sent := g_sent g @ [(sid, Enter_reply True)]\<rparr>)
      else None)"
| "answer sid (Ask_say msg) g =
     (if length msg \<le> 5993 then Some (g\<lparr>g_inbox := g_inbox g @ [Says (Chat_reply 0 msg)]\<rparr>) else None)"
| "answer sid Ask_nothing g = Some g"
| "answer sid Ask_beyond_table g = None"

text \<open>The players inside hear a text in the order of their ids.\<close>

fun obey :: "room_order \<Rightarrow> game \<Rightarrow> game" where
  "obey (Comes p) g = g\<lparr>g_inside := (g_inside g)(g_playerId p \<mapsto> p)\<rparr>"
| "obey (Goes p) g = g\<lparr>g_inside := (g_inside g)(g_playerId p := None)\<rparr>"
| "obey (Says r) g = g\<lparr>g_sent := g_sent g
     @ map (\<lambda>k. (g_ownerSession (the (g_inside g k)), r)) (sorted_list_of_set (dom (g_inside g)))\<rparr>"

datatype event = Ev_connect nat | Ev_receive nat nat "byte list" | Ev_disconnect nat | Ev_turn

fun game_event :: "wire_env \<Rightarrow> event \<Rightarrow> game \<Rightarrow> game option" where
  "game_event L (Ev_connect sid) g = Some (g\<lparr>g_online := insert sid (g_online g)\<rparr>)"
| "game_event L (Ev_receive t sid p) g = answer sid (request_of L p) g"
| "game_event L (Ev_disconnect sid) g = Some (g\<lparr>g_online := g_online g - {sid},
     g_inbox := g_inbox g @ (case g_current g sid of None \<Rightarrow> [] | Some p \<Rightarrow> [Goes p]),
     g_current := (g_current g)(sid := None), g_players := (g_players g)(sid := [])\<rparr>)"
| "game_event L Ev_turn g = Some (case g_inbox g of [] \<Rightarrow> g | r # rs \<Rightarrow> obey r (g\<lparr>g_inbox := rs\<rparr>))"

fun play :: "wire_env \<Rightarrow> event list \<Rightarrow> game \<Rightarrow> game option" where
  "play L [] g = Some g"
| "play L (e # es) g = (case game_event L e g of None \<Rightarrow> None | Some g' \<Rightarrow> play L es g')"

section \<open>The server under the same events\<close>

fun server_event :: "wire_env \<Rightarrow> event \<Rightarrow> world \<Rightarrow> world result" where
  "server_event L (Ev_connect sid) w = Inr (OnConnected sid w)"
| "server_event L (Ev_receive t sid p) w = OnRecvPacket L t sid p (word_of_nat (length p)) w"
| "server_event L (Ev_disconnect sid) w = Inr (OnDisconnected sid w)"
| "server_event L Ev_turn w = Inr (Room_Execute 0 w)"

fun serve :: "wire_env \<Rightarrow> event list \<Rightarrow> world \<Rightarrow> world result" where
  "serve L [] w = Inr w"
| "serve L (e # es) w = rbind (server_event L e w) (serve L es)"

text \<open>A packet is a whole frame: at least its header, at most what the size field of the header can say.\<close>

fun whole_event :: "event \<Rightarrow> bool" where
  "whole_event (Ev_receive t sid p) \<longleftrightarrow> 4 \<le> length p \<and> length p \<le> 65535"
| "whole_event e \<longleftrightarrow> True"

definition buffer_reply :: "wire_env \<Rightarrow> send_state \<Rightarrow> nat \<Rightarrow> reply" where
  "buffer_reply L s b = (case buffer_bytes s b of None \<Rightarrow> No_reply | Some p \<Rightarrow> reply_of L p)"

fun order_of :: "wire_env \<Rightarrow> send_state \<Rightarrow> room_job \<Rightarrow> room_order" where
  "order_of L s (Enter_job p) = Comes p"
| "order_of L s (Leave_job p) = Goes p"
| "order_of L s (Broadcast_job b) = Says (buffer_reply L s b)"

definition view :: "wire_env \<Rightarrow> world \<Rightarrow> game" where
  "view L w = \<lparr>g_next = idGenerator w, g_online = set (m_sessions w),
     g_players = (\<lambda>sid. gs_players (sessions w sid)), g_current = (\<lambda>sid. gs_currentPlayer (sessions w sid)),
     g_inside = map_of (r_players (rooms w 0)), g_inbox = map (order_of L (w_send w)) (r_jobs (rooms w 0)),
     g_sent = map (\<lambda>(sid, b). (sid, buffer_reply L (w_send w) b)) (sends w)\<rparr>"

section \<open>Making a reply\<close>

text \<open>A new buffer leaves what was sent and what waits in the room as it reads.\<close>

lemma view_made:
  assumes "buffers_inv w" and "\<forall>j. j \<noteq> i \<longrightarrow> buffer_bytes s j = buffer_bytes (w_send w) j"
    and "buffers (w_send w) i = None"
  shows "map (\<lambda>(sid, b). (sid, buffer_reply L s b)) (sends w) = map (\<lambda>(sid, b). (sid, buffer_reply L (w_send w) b)) (sends w)"
    and "map (order_of L s) (r_jobs (rooms w 0)) = map (order_of L (w_send w)) (r_jobs (rooms w 0))"
proof -
  have old: "buffer_reply L s b = buffer_reply L (w_send w) b" if "whole_packet w b" for b
  proof -
    have "b \<noteq> i" using that assms(3) by (auto simp: whole_packet_def dest!: buffer_bytes_Some)
    then show ?thesis using assms(2) by (simp add: buffer_reply_def)
  qed
  show "map (\<lambda>(sid, b). (sid, buffer_reply L s b)) (sends w) = map (\<lambda>(sid, b). (sid, buffer_reply L (w_send w) b)) (sends w)"
    using assms(1) old by (auto simp: buffers_inv_def)
  have "order_of L s job = order_of L (w_send w) job" if "job \<in> set (r_jobs (rooms w 0))" for job
    using assms(1) old that by (cases job) (auto simp: buffers_inv_def)
  then show "map (order_of L s) (r_jobs (rooms w 0)) = map (order_of L (w_send w)) (r_jobs (rooms w 0))" by simp
qed

lemma pkt_id_packet [simp]: "pkt_id (packet_bytes pktId body) = pktId"
  using packet_bytes_header[of pktId body "[]"] by (simp add: pkt_id_def)

lemma drop_packet [simp]: "drop 4 (packet_bytes pktId body) = body"
  by (simp add: packet_bytes_def flip: sizeof_PacketHeader_def)

text \<open>What a client reads in the replies the handlers make.\<close>

lemma login_reply:
  "reply_of L (packet_bytes PKT_S_LOGIN (S_LOGIN_InternalSerialize L (snd (S_LOGIN_ByteSizeLong loginPkt))))
     = Login_reply True [(0, TempName1, 1), (0, TempName2, 2)]"
proof -
  obtain m where m: "S_LOGIN_InternalParse L 100 S_LOGIN_new (S_LOGIN_InternalSerialize L (snd (S_LOGIN_ByteSizeLong loginPkt)))
      = Some (m, At_limit)" "S_LOGIN_content m = S_LOGIN_content loginPkt"
    using S_LOGIN.roundtrip[OF loginPkt_valid, of L] by blast
  let ?f = "\<lambda>p. (pl_id p, pl_name p, pl_playertype p)"
  have fields: "map ?f (sl_players (S_LOGIN_content m)) = map ?f (sl_players m)" for m
    by (simp add: S_LOGIN_content_def Player_content_def)
  have "map ?f (sl_players loginPkt) = [(0, TempName1, 1), (0, TempName2, 2)]" "sl_success loginPkt"
    by (simp_all add: loginPkt_def login_player_def Player_new_def S_LOGIN_new_def utf8_literal_def TempName1_def
        TempName2_def PLAYER_TYPE_KNIGHT_def PLAYER_TYPE_MAGE_def)
  moreover have "map ?f (sl_players m) = map ?f (sl_players loginPkt)"
    using arg_cong[OF m(2), of "\<lambda>m. map ?f (sl_players m)"] unfolding fields .
  moreover have "sl_success m = sl_success loginPkt"
    using arg_cong[OF m(2), of sl_success] by (simp add: S_LOGIN_content_def)
  ultimately show ?thesis
    unfolding reply_of_def Let_def MergeFromImpl_def pkt_id_packet drop_packet m(1) by (simp add: packet_ids)
qed

lemma enter_reply:
  "reply_of L (packet_bytes PKT_S_ENTER_GAME (S_ENTER_GAME_InternalSerialize L
     (snd (S_ENTER_GAME_ByteSizeLong (S_ENTER_GAME_new\<lparr>se_success := True\<rparr>))))) = Enter_reply True"
proof -
  let ?pkt = "S_ENTER_GAME_new\<lparr>se_success := True\<rparr>"
  obtain m where m: "S_ENTER_GAME_InternalParse L 100 S_ENTER_GAME_new
      (S_ENTER_GAME_InternalSerialize L (snd (S_ENTER_GAME_ByteSizeLong ?pkt))) = Some (m, At_limit)"
    "S_ENTER_GAME_content m = S_ENTER_GAME_content ?pkt"
    using S_ENTER_GAME.roundtrip[OF enterPkt_valid, of L] by blast
  have "se_success m" using arg_cong[OF m(2), of se_success] by (simp add: S_ENTER_GAME_content_def)
  then show ?thesis using m(1) by (simp add: reply_of_def MergeFromImpl_def packet_ids)
qed

lemma chat_reply:
  assumes "string_ok msg"
  shows "reply_of L (packet_bytes PKT_S_CHAT (S_CHAT_InternalSerialize L
     (snd (S_CHAT_ByteSizeLong (S_CHAT_new\<lparr>sc_msg := msg\<rparr>))))) = Chat_reply 0 msg"
proof -
  let ?pkt = "S_CHAT_new\<lparr>sc_msg := msg\<rparr>"
  obtain m where m: "S_CHAT_InternalParse L 100 S_CHAT_new
      (S_CHAT_InternalSerialize L (snd (S_CHAT_ByteSizeLong ?pkt))) = Some (m, At_limit)"
    "S_CHAT_content m = S_CHAT_content ?pkt"
    using S_CHAT.roundtrip[OF chatPkt_valid[OF assms], of L] by blast
  have "sc_msg m = msg" "sc_playerid m = 0"
    using arg_cong[OF m(2), of sc_msg] arg_cong[OF m(2), of sc_playerid] by (simp_all add: S_CHAT_content_def S_CHAT_new_def)
  then show ?thesis using m(1) by (simp add: reply_of_def MergeFromImpl_def packet_ids)
qed

text \<open>A text of n bytes takes n + 1 and the bytes of its length.\<close>

lemma chat_size:
  assumes "string_ok msg"
  shows "fst (S_CHAT_ByteSizeLong (S_CHAT_new\<lparr>sc_msg := msg\<rparr>)) \<le> 5996 \<longleftrightarrow> length msg \<le> 5993"
proof -
  have n: "length msg \<le> max_size" using assms by (simp add: string_ok_def)
  have sz: "fst (S_CHAT_ByteSizeLong (S_CHAT_new\<lparr>sc_msg := msg\<rparr>))
      = (if msg = [] then 0 else 1 + (length (venc (length msg)) + length msg))"
    using n by (auto simp: size_defs new_defs final_size_def Let_def LengthDelimitedSize_venc)
  consider "length msg < 128" | "128 \<le> length msg" "length msg < 128 ^ 2" | "128 ^ 2 \<le> length msg" by linarith
  then show ?thesis
  proof cases
    case 2
    have "length msg div 128 < 128" using 2(2) by (simp add: power2_eq_square less_mult_imp_div_less)
    then have "length (venc (length msg)) = 2" using 2(1) by (simp add: venc_step venc_small)
    then show ?thesis unfolding sz using 2(1) by auto
  qed (use sz in \<open>auto simp: venc_small\<close>)
qed

section \<open>The handlers do what the game says\<close>

text \<open>A crash is the game's None, a world is what it shows.\<close>

definition outcome :: "wire_env \<Rightarrow> world result \<Rightarrow> game option" where
  "outcome L r = (case r of Inl e \<Rightarrow> None | Inr w \<Rightarrow> Some (view L w))"

lemma outcome_simps [simp]: "outcome L (Inl e) = None" "outcome L (Inr w) = Some (view L w)"
  by (simp_all add: outcome_def)

definition after_handler :: "(bool \<times> world) result \<Rightarrow> world result" where
  "after_handler r = rbind r (\<lambda>(_, w). Inr w)"

lemma after_handler_simps [simp]: "after_handler (Inl e) = Inl e" "after_handler (Inr (b, w)) = Inr w"
  by (simp_all add: after_handler_def)

lemma reply_made: "buffer_bytes s i = Some p \<Longrightarrow> buffer_reply L s i = reply_of L p"
  by (simp add: buffer_reply_def)

lemma login_view:
  assumes inv: "game_inv (w, n)"
  shows "outcome L (after_handler (Handle_C_LOGIN L t sid pkt w)) = answer sid Ask_login (view L w)"
proof -
  obtain w' where h: "Handle_C_LOGIN L t sid pkt w = Inr (True, w')" using login_succeeds[OF inv] by blast
  then obtain i s where mk: "MakeSendBuffer S_LOGIN_ByteSizeLong (S_LOGIN_InternalSerialize L) t loginPkt PKT_S_LOGIN (w_send w) = Inr (i, s)"
    and w': "w' = Send_call sid i ((login_world sid w)\<lparr>w_send := s\<rparr>)" using Handle_C_LOGIN_Inr by blast
  note r = S_LOGIN.make_result[OF game_invD(2)[OF inv] refl loginPkt_valid mk]
  note old = view_made[OF game_invD(5)[OF inv] r(4,5), of L]
  note new = reply_made[OF r(2), of L, unfolded login_reply]
  show ?thesis
    unfolding h w' using old new
    by (simp add: view_def login_world_simps Let_def utf8_literal_def TempName1_def TempName2_def
        PLAYER_TYPE_KNIGHT_def PLAYER_TYPE_MAGE_def fun_eq_iff)
qed

lemma enter_view:
  assumes inv: "game_inv (w, n)"
  shows "outcome L (after_handler (Handle_C_ENTER_GAME L t sid pkt w)) = answer sid (Ask_enter (unat (ce_playerindex pkt))) (view L w)"
proof (cases "unat (ce_playerindex pkt) < length (gs_players (sessions w sid))")
  case False
  then have "Handle_C_ENTER_GAME L t sid pkt w = Inl OutOfBounds" by (simp add: Handle_C_ENTER_GAME_def Let_def)
  then show ?thesis using False by (simp add: view_def)
next
  case True
  let ?p = "gs_players (sessions w sid) ! unat (ce_playerindex pkt)"
  obtain w' where h: "Handle_C_ENTER_GAME L t sid pkt w = Inr (True, w')" using enter_succeeds[OF inv True] by blast
  then obtain i s where mk: "MakeSendBuffer S_ENTER_GAME_ByteSizeLong (S_ENTER_GAME_InternalSerialize L) t
      (S_ENTER_GAME_new\<lparr>se_success := True\<rparr>) PKT_S_ENTER_GAME (w_send w) = Inr (i, s)"
    and w': "w' = Send_call (g_ownerSession ?p) i ((enter_world sid ?p 0 w)\<lparr>w_send := s\<rparr>)"
    using Handle_C_ENTER_GAME_Inr[OF h] game_invD(3)[OF inv] by auto
  have "?p \<in> set (gs_players (sessions w sid))" using True by (rule nth_mem)
  then have own: "g_ownerSession ?p = sid"
    using shape_invD(2)[OF game_invD(4)[OF inv], of sid] by (simp add: session_ok_def)
  note r = S_ENTER_GAME.make_result[OF game_invD(2)[OF inv] refl enterPkt_valid mk]
  note old = view_made[OF game_invD(5)[OF inv] r(4,5), of L]
  note new = reply_made[OF r(2), of L, unfolded enter_reply]
  show ?thesis
    unfolding h w' own using old new True
    by (simp add: view_def enter_world_def Room_DoAsync_def upd_room_def upd_session_def Let_def fun_eq_iff)
qed

lemma chat_view:
  assumes inv: "game_inv (w, n)" and ok: "string_ok (cc_msg pkt)"
  shows "outcome L (after_handler (Handle_C_CHAT L t sid pkt w)) = answer sid (Ask_say (cc_msg pkt)) (view L w)"
proof (cases "length (cc_msg pkt) \<le> 5993")
  case False
  then have "\<nexists>w'. Handle_C_CHAT L t sid pkt w = Inr (True, w')" using chat_handler(1)[OF inv ok] chat_size[OF ok] by simp
  then obtain e where "Handle_C_CHAT L t sid pkt w = Inl e"
    using chat_handler(2)[OF inv ok, of L t sid] by (cases "Handle_C_CHAT L t sid pkt w") auto
  then show ?thesis using False by simp
next
  case True
  then obtain w' where h: "Handle_C_CHAT L t sid pkt w = Inr (True, w')"
    using chat_handler(1)[OF inv ok, of L t sid] chat_size[OF ok] by auto
  then obtain i s where mk: "MakeSendBuffer S_CHAT_ByteSizeLong (S_CHAT_InternalSerialize L) t
      (S_CHAT_new\<lparr>sc_msg := cc_msg pkt\<rparr>) PKT_S_CHAT (w_send w) = Inr (i, s)"
    and w': "w' = Room_DoAsync 0 (Broadcast_job i) (w\<lparr>w_send := s\<rparr>)"
    using Handle_C_CHAT_Inr[OF h] game_invD(3)[OF inv] by auto
  note r = S_CHAT.make_result[OF game_invD(2)[OF inv] refl chatPkt_valid[OF ok] mk]
  note old = view_made[OF game_invD(5)[OF inv] r(4,5), of L]
  note new = reply_made[OF r(2), of L, unfolded chat_reply[OF ok]]
  show ?thesis
    unfolding h w' using old new True by (simp add: view_def Room_DoAsync_def upd_room_def)
qed

section \<open>A packet\<close>

lemma whole_parse:
  assumes "4 \<le> length p"
  shows "HandlePacket_as parse clear new_m func p (int (length p)) w
    = (case MergeFromImpl parse (clear new_m) (drop 4 p) of None \<Rightarrow> Inr (False, w) | Some m \<Rightarrow> func m w)"
  using assms by (simp add: HandlePacket_as_def ParseFromArray_def sizeof_PacketHeader_def nat_diff_distrib)

lemma chat_parsed: "MergeFromImpl (C_CHAT_InternalParse L) C_CHAT_new body = Some m \<Longrightarrow> string_ok (cc_msg m)"
  using C_CHAT_parse_ok[of L 100 C_CHAT_new body m]
  by (auto simp: MergeFromImpl_def C_CHAT_new_def split: option.splits parse_end.splits prod.splits)

lemma packet_view:
  assumes inv: "game_inv (w, n)" and p: "4 \<le> length p" "length p \<le> 65535"
  shows "outcome L (OnRecvPacket L t sid p (word_of_nat (length p)) w) = answer sid (request_of L p) (view L w)"
proof -
  let ?es = "server_entries L t sid" and ?n = "int (length p)"
  have "unat (word_of_nat (length p) :: u16) = length p" using p(2) by (simp add: unsigned_of_nat take_bit_nat_eq_self)
  then have on: "OnRecvPacket L t sid p (word_of_nat (length p)) w = after_handler (HandlePacket (Handler_Init ?es) p ?n w)"
    by (simp only: OnRecvPacket_def after_handler_def)
  show ?thesis
  proof (cases "pkt_id p = 65535")
    case True
    have "HandlePacket (Handler_Init ?es) p ?n w = Inl OutOfBounds"
      by (rule HandlePacket_last_id) (use True in \<open>simp add: pkt_id_def\<close>)
    then show ?thesis using True unfolding on by (simp add: request_of_def)
  next
    case False
    then have "unat (pkt_id p) < UINT16_MAX"
      unfolding UINT16_MAX_def using unsigned_less[of "pkt_id p", where 'a = nat] by (auto simp: word_unat_eq_iff)
    then have e: "HandlePacket (Handler_Init ?es) p ?n w = last_entry ?es (pkt_id p) Handle_INVALID p ?n w"
      unfolding pkt_id_def by (rule HandlePacket_table)
    consider "pkt_id p = PKT_C_LOGIN" | "pkt_id p = PKT_C_ENTER_GAME" | "pkt_id p = PKT_C_CHAT"
      | "pkt_id p \<notin> {PKT_C_LOGIN, PKT_C_ENTER_GAME, PKT_C_CHAT}" by blast
    then show ?thesis
    proof cases
      case 1
      then show ?thesis
        unfolding on e 1 entry_of whole_parse[OF p(1)] clear_new using 1 login_view[OF inv, of L t sid]
        by (simp add: request_of_def packet_ids split: option.split)
    next
      case 2
      then show ?thesis
        unfolding on e 2 entry_of whole_parse[OF p(1)] clear_new using 2 enter_view[OF inv, of L t sid]
        by (simp add: request_of_def packet_ids split: option.split)
    next
      case 3
      then show ?thesis
        unfolding on e 3 entry_of whole_parse[OF p(1)] clear_new using 3 chat_view[OF inv, of _ L t sid] chat_parsed[of L "drop 4 p"]
        by (cases "MergeFromImpl (C_CHAT_InternalParse L) C_CHAT_new (drop 4 p)") (simp_all add: request_of_def packet_ids)
    next
      case 4
      then show ?thesis
        unfolding on e entry_of(4)[OF 4] using False by (simp add: Handle_INVALID_def request_of_def packet_ids)
    qed
  qed
qed

section \<open>The other events\<close>

text \<open>The only room is room 0, which a session keeps when its player leaves.\<close>

definition contract_inv :: "world \<Rightarrow> bool" where
  "contract_inv w \<longleftrightarrow> (\<exists>n. game_inv (w, n)) \<and> (\<forall>sid r. gs_room (sessions w sid) = Some r \<longrightarrow> r = 0)"

lemma contract_step:
  assumes inv: "contract_inv w" and step: "server_event L e w = Inr w'"
  shows "contract_inv w'"
proof -
  obtain n where n: "game_inv (w, n)" using inv by (auto simp: contract_inv_def)
  have "w' = w \<or> (\<exists>k. game_step L (w, n) (w', k))"
    using step packet_step[of L _ _ _ _ w w' n]
    by (cases e) (auto intro: step_connect step_disconnect step_execute)
  then have "\<exists>k. game_inv (w', k)" using n game.step_inv by blast
  moreover have "gs_room (sessions w' sid) = gs_room (sessions w sid) \<or> gs_room (sessions w' sid) = Some 0" for sid
  proof (cases e)
    case (Ev_receive t s p)
    show ?thesis
      using packet_cases[OF step[unfolded Ev_receive server_event.simps]] game_invD(3)[OF n]
      by (auto dest!: Handle_C_LOGIN_Inr Handle_C_ENTER_GAME_Inr Handle_C_CHAT_Inr
          simp: login_world_simps enter_world_def Room_DoAsync_def upd_room_def upd_session_def)
  next
    case (Ev_disconnect s)
    then show ?thesis
      using step by (auto simp: OnDisconnected_def SessionManager_Remove_def Let_def upd_session_def Room_DoAsync_def
          upd_room_def split: option.splits)
  next
    case Ev_turn
    have "sessions (Room_Execute 0 w) = sessions w"
      by (cases "r_jobs (rooms w 0)"; cases "hd (r_jobs (rooms w 0))";
          simp add: Room_Execute_def Room_Enter_def Room_Leave_def Room_Broadcast_eq upd_room_def)
    then show ?thesis using step Ev_turn by simp
  qed (use step in \<open>auto simp: OnConnected_def SessionManager_Add_def\<close>)
  ultimately show ?thesis using inv unfolding contract_inv_def by (metis option.inject)
qed

text \<open>The room tells its players a text in the order of its map, which is that of the ids.\<close>

lemma map_order:
  assumes "keys_sorted ps"
  shows "map (\<lambda>k. (g_ownerSession (the (map_of ps k)), x)) (sorted_list_of_set (dom (map_of ps)))
    = map (\<lambda>(k, p). (g_ownerSession p, x)) ps"
proof -
  have s: "sorted_wrt (<) (map fst ps)" using assms by (simp add: keys_sorted_def)
  then have d: "distinct (map fst ps)" by (simp add: strict_sorted_iff)
  have "sorted_list_of_set (dom (map_of ps)) = map fst ps"
    using s unfolding dom_map_of_conv_image_fst by (metis list.set_map sorted_list_of_set.idem_if_sorted_distinct strict_sorted_iff)
  then show ?thesis using map_of_is_SomeI[OF d] by (auto simp: comp_def)
qed

lemma turn_view:
  assumes inv: "game_inv (w, n)"
  shows "Some (view L (Room_Execute 0 w)) = game_event L Ev_turn (view L w)"
proof (cases "r_jobs (rooms w 0)")
  case Nil
  then show ?thesis by (simp add: Room_Execute_def view_def)
next
  case (Cons job jobs)
  have k: "keys_sorted (r_players (rooms w 0))"
    using shape_invD(1)[OF game_invD(4)[OF inv], of 0] by (simp add: room_ok_def)
  show ?thesis
    using Cons by (cases job)
      (simp_all add: map_order[OF k] Room_Execute_def Room_Enter_def Room_Leave_def Room_Broadcast_eq upd_room_def view_def
        map_of_assign[OF k] map_of_erase[OF k] case_prod_unfold comp_def)
qed

lemma disconnect_view:
  assumes inv: "contract_inv w"
  shows "Some (view L (OnDisconnected sid w)) = game_event L (Ev_disconnect sid) (view L w)"
proof -
  obtain n where n: "game_inv (w, n)" using inv by (auto simp: contract_inv_def)
  have room: "gs_room (sessions w sid) = Some 0" if "gs_currentPlayer (sessions w sid) = Some p" for p
    using inv that shape_invD(2)[OF game_invD(4)[OF n], of sid] by (auto simp: contract_inv_def session_ok_def)
  show ?thesis
    by (cases "gs_currentPlayer (sessions w sid)")
      (simp_all add: room OnDisconnected_def SessionManager_Remove_def Let_def view_def upd_session_def Room_DoAsync_def
        upd_room_def fun_eq_iff)
qed

lemma event_view:
  assumes inv: "contract_inv w" and "whole_event e"
  shows "outcome L (server_event L e w) = game_event L e (view L w)"
proof (cases e)
  case (Ev_connect sid)
  then show ?thesis by (simp add: OnConnected_def SessionManager_Add_def view_def)
next
  case (Ev_receive t sid p)
  obtain n where "game_inv (w, n)" using inv by (auto simp: contract_inv_def)
  from packet_view[OF this] assms(2) Ev_receive show ?thesis by simp
next
  case (Ev_disconnect sid)
  then show ?thesis using disconnect_view[OF inv] by simp
next
  case Ev_turn
  obtain n where "game_inv (w, n)" using inv by (auto simp: contract_inv_def)
  from turn_view[OF this] Ev_turn show ?thesis by simp
qed

lemma run_view:
  assumes "contract_inv w" and "\<forall>e \<in> set es. whole_event e"
  shows "outcome L (serve L es w) = play L es (view L w)"
  using assms
proof (induction es arbitrary: w)
  case (Cons e es)
  have e: "outcome L (server_event L e w) = game_event L e (view L w)" using event_view Cons.prems by simp
  show ?case
  proof (cases "server_event L e w")
    case (Inl err)
    then show ?thesis using e by simp
  next
    case (Inr w')
    then show ?thesis using e[symmetric] Cons.IH[OF contract_step[OF Cons.prems(1) Inr]] Cons.prems(2) by simp
  qed
qed simp

lemma start_view: "contract_inv (server_start send_init)" "view L (server_start send_init) = new_game"
  using game.reach_inv[OF start_reach]
  by (auto simp: contract_inv_def view_def new_game_def new_room_def new_game_session_def)

section \<open>A client that logs in, enters and talks\<close>

lemma asked_login: "request_of L (packet_bytes PKT_C_LOGIN []) = Ask_login"
proof -
  have "C_LOGIN_valid 100 C_LOGIN_new" by (simp add: valid_defs new_defs unknown_ok_def foreign_def)
  moreover have "C_LOGIN_InternalSerialize L (snd (C_LOGIN_ByteSizeLong C_LOGIN_new)) = []"
    by (simp add: serialize_defs new_defs size_defs unknown_tail_def final_size_def Let_def)
  ultimately obtain m where "C_LOGIN_InternalParse L 100 C_LOGIN_new [] = Some (m, At_limit)"
    using C_LOGIN.roundtrip[of C_LOGIN_new L] by auto
  then show ?thesis by (simp add: request_of_def MergeFromImpl_def packet_ids)
qed

lemma asked_enter:
  assumes "C_ENTER_GAME_valid 100 pkt"
  shows "request_of L (packet_bytes PKT_C_ENTER_GAME (C_ENTER_GAME_InternalSerialize L pkt)) = Ask_enter (unat (ce_playerindex pkt))"
proof -
  obtain m where m: "C_ENTER_GAME_InternalParse L 100 C_ENTER_GAME_new (C_ENTER_GAME_InternalSerialize L pkt) = Some (m, At_limit)"
    "C_ENTER_GAME_content m = C_ENTER_GAME_content pkt"
    using C_ENTER_GAME.roundtrip[OF assms, of L] unfolding sized_plain by blast
  have "ce_playerindex m = ce_playerindex pkt" using m(2) by (rule content_fields(1))
  then show ?thesis using m(1) by (simp add: request_of_def MergeFromImpl_def packet_ids)
qed

lemma asked_say:
  assumes "C_CHAT_valid 100 pkt"
  shows "request_of L (packet_bytes PKT_C_CHAT (C_CHAT_InternalSerialize L pkt)) = Ask_say (cc_msg pkt)"
proof -
  obtain m where m: "C_CHAT_InternalParse L 100 C_CHAT_new (C_CHAT_InternalSerialize L pkt) = Some (m, At_limit)"
    "C_CHAT_content m = C_CHAT_content pkt"
    using C_CHAT.roundtrip[OF assms, of L] unfolding sized_plain by blast
  have "cc_msg m = cc_msg pkt" using m(2) by (rule content_fields(2))
  then show ?thesis using m(1) by (simp add: request_of_def MergeFromImpl_def packet_ids)
qed

text \<open>Session 0 logs in, enters with its second player (index 1) and says a text of two letters.\<close>

definition demo_enter :: C_ENTER_GAME where "demo_enter = C_ENTER_GAME_new\<lparr>ce_playerindex := 1\<rparr>"
definition demo_chat :: C_CHAT where "demo_chat = C_CHAT_new\<lparr>cc_msg := [0x61, 0x61]\<rparr>"

definition demo_events :: "event list" where
  "demo_events = [Ev_connect 0, Ev_receive 1 0 (packet_bytes PKT_C_LOGIN []),
     Ev_receive 1 0 (packet_bytes PKT_C_ENTER_GAME (C_ENTER_GAME_InternalSerialize test_env demo_enter)),
     Ev_turn, Ev_receive 2 0 (packet_bytes PKT_C_CHAT (C_CHAT_InternalSerialize test_env demo_chat)), Ev_turn]"

lemma demo_valid: "C_ENTER_GAME_valid 100 demo_enter" "C_CHAT_valid 100 demo_chat"
proof -
  show "C_ENTER_GAME_valid 100 demo_enter" by (simp add: demo_enter_def valid_defs new_defs unknown_ok_def foreign_def)
  have "C_CHAT_valid 100 (long_chat 2)" by (rule long_chat_valid) (simp add: max_size_def)
  then show "C_CHAT_valid 100 demo_chat" by (simp add: demo_chat_def numeral_2_eq_2)
qed

lemma demo_play:
  "\<exists>g. play test_env demo_events new_game = Some g \<and> g_sent g = [(0, Login_reply True [(0, TempName1, 1), (0, TempName2, 2)]),
     (0, Enter_reply True), (0, Chat_reply 0 [0x61, 0x61])] \<and> dom (g_inside g) = {2} \<and> g_next g = 3"
proof -
  have f: "ce_playerindex demo_enter = 1" "cc_msg demo_chat = [0x61, 0x61]"
    by (simp_all add: demo_enter_def demo_chat_def)
  note ask = asked_login asked_enter[OF demo_valid(1), unfolded f] asked_say[OF demo_valid(2), unfolded f]
  show ?thesis by (simp add: demo_events_def new_game_def ask Let_def)
qed

lemma demo_whole: "\<forall>e \<in> set demo_events. whole_event e"
proof -
  have "length (C_ENTER_GAME_InternalSerialize test_env demo_enter) = fst (C_ENTER_GAME_ByteSizeLong demo_enter)"
    "length (C_CHAT_InternalSerialize test_env demo_chat) = fst (C_CHAT_ByteSizeLong demo_chat)"
    using C_ENTER_GAME.size_law[OF demo_valid(1), of test_env] C_CHAT.size_law[OF demo_valid(2), of test_env]
    by (simp_all only: sized_plain)
  moreover have "fst (C_ENTER_GAME_ByteSizeLong demo_enter) \<le> 65531" "fst (C_CHAT_ByteSizeLong demo_chat) \<le> 65531"
    by (simp_all add: demo_enter_def demo_chat_def new_defs size_defs final_size_def Let_def VarintSize32_venc VarintSize64_venc
        venc_small LengthDelimitedSize_def)
  ultimately show ?thesis by (simp add: demo_events_def)
qed

section \<open>Properties\<close>

text \<open>C34: The server is the game. For any sequence of connections, received packets of any bytes (whole
  frames), disconnections and turns of the room, the server crashes exactly if the game has no next
  state on the way, and otherwise shows the game's state: the next id, who is online, the players of
  every session and the one that entered, who is inside, what waits for the room, and what every
  session was sent, as a client's parser reads it. So a login answers with its two players and takes
  the next two ids, an enter puts the player of that index in front of the room, a text of at most 5993
  bytes is said to everybody inside in the order of their ids, and a wrong index, a longer text or the
  packet id 65535 ends the server.\<close>

theorem server_plays_game:
  assumes "\<forall>e \<in> set es. whole_event e"
  shows "(case serve L es (server_start send_init) of Inl e \<Rightarrow> None | Inr w \<Rightarrow> Some (view L w)) = play L es new_game"
  using run_view[OF start_view(1) assms, of L] unfolding outcome_def start_view(2) .

theorem server_plays_game_witness:
  "\<exists>w. serve test_env demo_events (server_start send_init) = Inr w
    \<and> g_sent (view test_env w) = [(0, Login_reply True [(0, TempName1, 1), (0, TempName2, 2)]),
        (0, Enter_reply True), (0, Chat_reply 0 [0x61, 0x61])]
    \<and> dom (g_inside (view test_env w)) = {2} \<and> idGenerator w = 3"
proof -
  note eq = server_plays_game[OF demo_whole, of test_env]
  obtain g where g: "play test_env demo_events new_game = Some g" "g_sent g = [(0, Login_reply True [(0, TempName1, 1), (0, TempName2, 2)]),
     (0, Enter_reply True), (0, Chat_reply 0 [0x61, 0x61])]" "dom (g_inside g) = {2}" "g_next g = 3"
    using demo_play by blast
  then obtain w where w: "serve test_env demo_events (server_start send_init) = Inr w" "view test_env w = g"
    using eq by (auto split: sum.splits)
  have "idGenerator w = 3" using w(2) g(4) by (auto simp: view_def)
  then show ?thesis using w g by auto
qed

end
