(* ===== verification/Buffer_IO.thy ===== *)
theory Buffer_IO
  imports Server_Base
begin

text \<open>
  BufferReader and BufferWriter (ServerCore/BufferReader.h and .cpp, BufferWriter.h and .cpp): a view
  of a byte array with its size and a position. The array is the list of bytes from m_buffer to the
  end of its storage, which may be longer than m_size; a step outside of it is undefined. The value an
  operator stores or loads is its object representation, so sizeof(T) is its number of bytes.
\<close>

section \<open>The writer\<close>

record buffer_writer =
  w_buffer :: "byte list"
  w_size :: u32
  w_pos :: u32

definition BufferWriter :: "byte list \<Rightarrow> u32 \<Rightarrow> u32 \<Rightarrow> buffer_writer" where
  "BufferWriter buffer bytes pos = \<lparr>w_buffer = buffer, w_size = bytes, w_pos = pos\<rparr>"

definition WriteSize :: "buffer_writer \<Rightarrow> u32" where
  "WriteSize w = w_pos w"

definition Writer_FreeSize :: "buffer_writer \<Rightarrow> u32" where
  "Writer_FreeSize w = w_size w - w_pos w"

text \<open>What both ways to write do: the bytes go to m_buffer[m_pos], and the position moves on.\<close>

definition store_at_pos :: "byte list \<Rightarrow> buffer_writer \<Rightarrow> buffer_writer result" where
  "store_at_pos src w =
     (if length (w_buffer w) < unat (w_pos w) + length src then Inl OutOfBounds
      else Inr (w\<lparr>w_buffer := overwrite (w_buffer w) (unat (w_pos w)) src, w_pos := w_pos w + word_of_nat (length src)\<rparr>))"

definition Writer_Write :: "byte list \<Rightarrow> u32 \<Rightarrow> buffer_writer \<Rightarrow> (bool \<times> buffer_writer) result" where
  "Writer_Write src len w =
     (if Writer_FreeSize w < len then Inr (False, w)
      else if length src < unat len then Inl OutOfBounds
      else rbind (store_at_pos (take (unat len) src) w) (\<lambda>w'. Inr (True, w')))"

text \<open>Reserve: sizeof(T) * _count is computed in 64 bits. The result is the index of the first byte.\<close>

definition Writer_Reserve :: "u64 \<Rightarrow> u16 \<Rightarrow> buffer_writer \<Rightarrow> (nat option \<times> buffer_writer) result" where
  "Writer_Reserve sizeof_T count w =
     (if ucast (Writer_FreeSize w) < sizeof_T * ucast count then Inr (None, w)
      else if length (w_buffer w) < unat (w_pos w) then Inl OutOfBounds
      else Inr (Some (unat (w_pos w)), w\<lparr>w_pos := w_pos w + ucast (sizeof_T * ucast count)\<rparr>))"

definition Writer_shl :: "byte list \<Rightarrow> buffer_writer \<Rightarrow> buffer_writer result" where
  "Writer_shl src w = store_at_pos src w"

section \<open>The reader\<close>

record buffer_reader =
  r_buffer :: "byte list"
  r_size :: u32
  r_pos :: u32

definition BufferReader :: "byte list \<Rightarrow> u32 \<Rightarrow> u32 \<Rightarrow> buffer_reader" where
  "BufferReader buffer bytes pos = \<lparr>r_buffer = buffer, r_size = bytes, r_pos = pos\<rparr>"

definition ReadSize_of :: "buffer_reader \<Rightarrow> u32" where
  "ReadSize_of r = r_pos r"

definition Reader_FreeSize :: "buffer_reader \<Rightarrow> u32" where
  "Reader_FreeSize r = r_size r - r_pos r"

definition load_at_pos :: "nat \<Rightarrow> buffer_reader \<Rightarrow> byte list result" where
  "load_at_pos len r =
     (if length (r_buffer r) < unat (r_pos r) + len then Inl OutOfBounds
      else Inr (slice (unat (r_pos r)) len (r_buffer r)))"

definition Reader_Peek :: "u32 \<Rightarrow> buffer_reader \<Rightarrow> byte list option result" where
  "Reader_Peek len r =
     (if Reader_FreeSize r < len then Inr None else rbind (load_at_pos (unat len) r) (\<lambda>bs. Inr (Some bs)))"

definition Reader_Read :: "u32 \<Rightarrow> buffer_reader \<Rightarrow> (byte list option \<times> buffer_reader) result" where
  "Reader_Read len r =
     rbind (Reader_Peek len r) (\<lambda>dest.
       case dest of None \<Rightarrow> Inr (None, r) | Some bs \<Rightarrow> Inr (Some bs, r\<lparr>r_pos := r_pos r + len\<rparr>))"

definition Reader_shr :: "nat \<Rightarrow> buffer_reader \<Rightarrow> (byte list \<times> buffer_reader) result" where
  "Reader_shr sizeof_T r = rbind (load_at_pos sizeof_T r) (\<lambda>bs. Inr (bs, r\<lparr>r_pos := r_pos r + word_of_nat sizeof_T\<rparr>))"

section \<open>A writer and its reader as a stream of bytes\<close>

text \<open>
  What a client of the two classes relies on: a put appends its bytes while there is room, a get takes
  the next bytes while there are enough, and the reader of a writer sees what was written.
\<close>

locale byte_stream =
  fixes ok :: "'w \<Rightarrow> bool" and written :: "'w \<Rightarrow> byte list" and room :: "'w \<Rightarrow> nat"
    and put :: "byte list \<Rightarrow> 'w \<Rightarrow> 'w result"
    and rok :: "'r \<Rightarrow> bool" and unread :: "'r \<Rightarrow> byte list"
    and get :: "nat \<Rightarrow> 'r \<Rightarrow> (byte list \<times> 'r) result"
    and reader_of :: "'w \<Rightarrow> 'r"
  assumes put_law: "ok w \<Longrightarrow> length bs \<le> room w \<Longrightarrow>
      \<exists>w'. put bs w = Inr w' \<and> ok w' \<and> written w' = written w @ bs \<and> room w' + length bs = room w"
    and get_law: "rok r \<Longrightarrow> k \<le> length (unread r) \<Longrightarrow>
      \<exists>r'. get k r = Inr (take k (unread r), r') \<and> rok r' \<and> unread r' = drop k (unread r)"
    and reader_law: "ok w \<Longrightarrow> rok (reader_of w) \<and> unread (reader_of w) = written w"
begin

primrec put_all :: "byte list list \<Rightarrow> 'w \<Rightarrow> 'w result" where
  "put_all [] w = Inr w"
| "put_all (bs # bss) w = rbind (put bs w) (put_all bss)"

primrec get_all :: "nat list \<Rightarrow> 'r \<Rightarrow> byte list list result" where
  "get_all [] r = Inr []"
| "get_all (k # ks) r = rbind (get k r) (\<lambda>(bs, r'). rbind (get_all ks r') (\<lambda>bss. Inr (bs # bss)))"

lemma put_all_appends:
  assumes "ok w" and "length (concat bss) \<le> room w"
  shows "\<exists>w'. put_all bss w = Inr w' \<and> ok w' \<and> written w' = written w @ concat bss
    \<and> room w' + length (concat bss) = room w"
  using assms
proof (induction bss arbitrary: w)
  case (Cons bs bss)
  then have "length bs \<le> room w" by simp
  from put_law[OF Cons.prems(1) this] obtain v where v:
    "put bs w = Inr v" "ok v" "written v = written w @ bs" "room v + length bs = room w" by blast
  then have "length (concat bss) \<le> room v" using Cons.prems(2) by simp
  from Cons.IH[OF v(2) this] v show ?case by fastforce
qed simp

lemma get_all_splits:
  assumes "rok r" and "unread r = concat bss @ rest"
  shows "get_all (map length bss) r = Inr bss"
  using assms
proof (induction bss arbitrary: r)
  case (Cons bs bss)
  then have "length bs \<le> length (unread r)" by simp
  from get_law[OF Cons.prems(1) this] Cons.prems(2) obtain r' where
    "get (length bs) r = Inr (bs, r')" "rok r'" "unread r' = concat bss @ rest" by auto
  with Cons.IH[of r'] show ?case by simp
qed simp

lemma roundtrip:
  assumes "ok w" and "written w = []" and "length (concat bss) \<le> room w"
  shows "\<exists>w'. put_all bss w = Inr w' \<and> written w' = concat bss \<and> get_all (map length bss) (reader_of w') = Inr bss"
proof -
  obtain w' where w': "put_all bss w = Inr w'" "ok w'" "written w' = concat bss"
    using put_all_appends[OF assms(1,3)] assms(2) by auto
  with reader_law[OF w'(2)] get_all_splits[of "reader_of w'" bss "[]"] show ?thesis by simp
qed

end

section \<open>Both classes give the stream\<close>

definition writer_ok :: "buffer_writer \<Rightarrow> bool" where
  "writer_ok w \<longleftrightarrow> w_pos w \<le> w_size w \<and> unat (w_size w) \<le> length (w_buffer w)"

definition writer_room :: "buffer_writer \<Rightarrow> nat" where
  "writer_room w = unat (w_size w) - unat (w_pos w)"

definition writer_bytes :: "buffer_writer \<Rightarrow> byte list" where
  "writer_bytes w = take (unat (w_pos w)) (w_buffer w)"

definition reader_ok :: "buffer_reader \<Rightarrow> bool" where
  "reader_ok r \<longleftrightarrow> r_pos r \<le> r_size r \<and> unat (r_size r) \<le> length (r_buffer r)"

definition reader_bytes :: "buffer_reader \<Rightarrow> byte list" where
  "reader_bytes r = slice (unat (r_pos r)) (unat (r_size r) - unat (r_pos r)) (r_buffer r)"

definition read_back :: "buffer_writer \<Rightarrow> buffer_reader" where
  "read_back w = BufferReader (w_buffer w) (WriteSize w) 0"

text \<open>The free size is the room exactly while the position is inside the view.\<close>

lemma FreeSize_room: "w_pos w \<le> w_size w \<Longrightarrow> unat (Writer_FreeSize w) = writer_room w"
  by (simp add: Writer_FreeSize_def writer_room_def unat_sub)

lemma Reader_FreeSize_left: "r_pos r \<le> r_size r \<Longrightarrow> unat (Reader_FreeSize r) = unat (r_size r) - unat (r_pos r)"
  by (simp add: Reader_FreeSize_def unat_sub)

lemma pos_moves:
  fixes p s :: u32
  assumes "p \<le> s" and "k \<le> unat s - unat p"
  shows "unat (p + word_of_nat k) = unat p + k" and "p + word_of_nat k \<le> s"
proof -
  have s: "unat p + k \<le> unat s" using assms by (simp add: word_le_nat_alt)
  then have "unat p + k < 2 ^ 32" using unsigned_less[of s, where 'a = nat] by simp
  then show u: "unat (p + word_of_nat k) = unat p + k"
    by (simp add: unat_word_ariths unat_of_nat take_bit_nat_def)
  show "p + word_of_nat k \<le> s" using s by (simp add: word_le_nat_alt u)
qed

lemma store_appends:
  assumes "writer_ok w" and "length src \<le> writer_room w"
  shows "\<exists>w'. store_at_pos src w = Inr w' \<and> writer_ok w' \<and> writer_bytes w' = writer_bytes w @ src
    \<and> writer_room w' + length src = writer_room w \<and> w_size w' = w_size w"
proof -
  from assms have p: "w_pos w \<le> w_size w" "unat (w_size w) \<le> length (w_buffer w)" "unat (w_pos w) \<le> unat (w_size w)"
    by (simp_all add: writer_ok_def word_le_nat_alt)
  note m = pos_moves[OF p(1) assms(2)[unfolded writer_room_def]]
  have fit: "unat (w_pos w) + length src \<le> unat (w_size w)" using assms(2) p(3) by (simp add: writer_room_def)
  have "take (unat (w_pos w) + length src) (overwrite (w_buffer w) (unat (w_pos w)) src) = take (unat (w_pos w)) (w_buffer w) @ src"
    using fit p(2) by (simp add: overwrite_def)
  then show ?thesis
    using fit p m by (simp add: store_at_pos_def writer_ok_def writer_bytes_def writer_room_def del: of_nat_add)
qed

lemma load_takes:
  assumes "reader_ok r" and "k \<le> length (reader_bytes r)"
  shows "load_at_pos k r = Inr (take k (reader_bytes r)) \<and> k \<le> unat (r_size r) - unat (r_pos r)
    \<and> reader_ok (r\<lparr>r_pos := r_pos r + word_of_nat k\<rparr>)
    \<and> reader_bytes (r\<lparr>r_pos := r_pos r + word_of_nat k\<rparr>) = drop k (reader_bytes r)"
proof -
  from assms have p: "r_pos r \<le> r_size r" "unat (r_size r) \<le> length (r_buffer r)" "unat (r_pos r) \<le> unat (r_size r)"
    by (simp_all add: reader_ok_def word_le_nat_alt)
  have k: "k \<le> unat (r_size r) - unat (r_pos r)" using assms(2) by (simp add: reader_bytes_def)
  note m = pos_moves[OF p(1) k]
  show ?thesis using k p m
    by (simp add: load_at_pos_def reader_ok_def reader_bytes_def take_slice drop_slice min_absorb1)
qed

lemma reader_of_writer:
  assumes "writer_ok w"
  shows "reader_ok (read_back w) \<and> reader_bytes (read_back w) = writer_bytes w"
  using assms by (auto simp: writer_ok_def word_le_nat_alt read_back_def BufferReader_def reader_ok_def reader_bytes_def
      writer_bytes_def WriteSize_def slice_def)

text \<open>The checked calls as a put and a get that must succeed.\<close>

definition put_checked :: "byte list \<Rightarrow> buffer_writer \<Rightarrow> buffer_writer result" where
  "put_checked bs w = rbind (Writer_Write bs (word_of_nat (length bs)) w)
     (\<lambda>(b, w'). rbind (ASSERT_CRASH b) (\<lambda>_. Inr w'))"

definition get_checked :: "nat \<Rightarrow> buffer_reader \<Rightarrow> (byte list \<times> buffer_reader) result" where
  "get_checked k r = rbind (Reader_Read (word_of_nat k) r)
     (\<lambda>(dest, r'). case dest of None \<Rightarrow> Inl (Crash ''ASSERT_CRASH'') | Some bs \<Rightarrow> Inr (bs, r'))"

lemma small_size:
  fixes n :: u32
  assumes "k \<le> unat n - m"
  shows "unat (word_of_nat k :: u32) = k"
proof -
  have "k < 2 ^ 32" using assms unsigned_less[of n, where 'a = nat] by simp
  then show ?thesis by (simp add: unat_of_nat take_bit_nat_def)
qed

lemma Writer_Write_appends:
  assumes "writer_ok w" and "length src \<le> writer_room w"
  shows "\<exists>w'. Writer_Write src (word_of_nat (length src)) w = Inr (True, w') \<and> writer_ok w'
    \<and> writer_bytes w' = writer_bytes w @ src \<and> writer_room w' + length src = writer_room w \<and> w_size w' = w_size w"
proof -
  have len: "unat (word_of_nat (length src) :: u32) = length src"
    using small_size[of "length src" "w_size w"] assms(2) by (simp add: writer_room_def)
  have "\<not> Writer_FreeSize w < word_of_nat (length src)"
    using assms FreeSize_room[of w] by (simp add: word_less_nat_alt len writer_ok_def)
  with store_appends[OF assms] show ?thesis by (auto simp: Writer_Write_def len)
qed

interpretation checked: byte_stream writer_ok writer_bytes writer_room put_checked
    reader_ok reader_bytes get_checked read_back
proof
  fix w and bs :: "byte list" assume "writer_ok w" and "length bs \<le> writer_room w"
  from Writer_Write_appends[OF this]
  show "\<exists>w'. put_checked bs w = Inr w' \<and> writer_ok w' \<and> writer_bytes w' = writer_bytes w @ bs
    \<and> writer_room w' + length bs = writer_room w" by (auto simp: put_checked_def)
next
  fix r and k :: nat assume r: "reader_ok r" "k \<le> length (reader_bytes r)"
  note l = load_takes[OF r]
  then have k: "unat (word_of_nat k :: u32) = k" using small_size by blast
  then have "\<not> Reader_FreeSize r < word_of_nat k"
    using l r(1) Reader_FreeSize_left[of r] by (simp add: word_less_nat_alt reader_ok_def)
  then show "\<exists>r'. get_checked k r = Inr (take k (reader_bytes r), r') \<and> reader_ok r' \<and> reader_bytes r' = drop k (reader_bytes r)"
    using l by (simp add: get_checked_def Reader_Read_def Reader_Peek_def k)
qed (rule reader_of_writer)

interpretation operators: byte_stream writer_ok writer_bytes writer_room Writer_shl
    reader_ok reader_bytes Reader_shr read_back
proof
  fix w and bs :: "byte list" assume "writer_ok w" and "length bs \<le> writer_room w"
  from store_appends[OF this]
  show "\<exists>w'. Writer_shl bs w = Inr w' \<and> writer_ok w' \<and> writer_bytes w' = writer_bytes w @ bs
    \<and> writer_room w' + length bs = writer_room w" by (auto simp: Writer_shl_def)
next
  fix r and k :: nat assume "reader_ok r" "k \<le> length (reader_bytes r)"
  from load_takes[OF this]
  show "\<exists>r'. Reader_shr k r = Inr (take k (reader_bytes r), r') \<and> reader_ok r' \<and> reader_bytes r' = drop k (reader_bytes r)"
    by (simp add: Reader_shr_def)
qed (rule reader_of_writer)

section \<open>Properties\<close>

text \<open>What was written is read. Any sequence of values that fits in the view is written by
  either Write or the operator, and a reader of what was written gets the values back with reads of
  the same sizes.\<close>

theorem write_read_roundtrip:
  assumes "length (concat bss) \<le> unat bytes" and "unat bytes \<le> length buffer"
  shows "(\<exists>w'. checked.put_all bss (BufferWriter buffer bytes 0) = Inr w' \<and> writer_bytes w' = concat bss
      \<and> checked.get_all (map length bss) (read_back w') = Inr bss)
    \<and> (\<exists>w'. operators.put_all bss (BufferWriter buffer bytes 0) = Inr w' \<and> writer_bytes w' = concat bss
      \<and> operators.get_all (map length bss) (read_back w') = Inr bss)"
proof -
  have "writer_ok (BufferWriter buffer bytes 0)" "writer_bytes (BufferWriter buffer bytes 0) = []"
    "length (concat bss) \<le> writer_room (BufferWriter buffer bytes 0)"
    using assms by (simp_all add: writer_ok_def writer_bytes_def writer_room_def BufferWriter_def)
  from checked.roundtrip[OF this] operators.roundtrip[OF this] show ?thesis by blast
qed

theorem write_read_roundtrip_witness:
  "\<exists>w'. checked.put_all [[1, 2], [3]] (BufferWriter [0, 0, 0, 0] 4 0) = Inr w'
    \<and> checked.get_all (map length [[1, 2], [3 :: byte]]) (read_back w') = Inr [[1, 2], [3]]"
proof -
  have "length (concat [[1, 2], [3 :: byte]]) \<le> unat (4 :: u32)" "unat (4 :: u32) \<le> length [0, 0, 0, 0 :: byte]" by simp_all
  from write_read_roundtrip[OF this] show ?thesis by blast
qed

lemma unat_widened:
  fixes x :: u32 and c :: u16
  shows "unat (ucast x :: u64) = unat x" and "unat (ucast c :: u64) = unat c"
  using unsigned_less[of x, where 'a = nat] unsigned_less[of c, where 'a = nat]
  by (simp_all add: unsigned_ucast_eq take_bit_nat_def)

text \<open>The bounds of the writer. From a position inside the view neither Write nor Reserve leaves
  it: Write returns false exactly for more bytes than are free and then changes nothing, and no call
  runs out of the array. The operator does not look: after it has passed the end of the view the free
  size has wrapped around, and Write accepts what is outside of the array.\<close>

theorem writer_bounds:
  assumes "writer_ok w" and "length src < 2 ^ 32" and "unat sizeof_T < 2 ^ 48"
  shows "(\<exists>b w'. Writer_Write src (word_of_nat (length src)) w = Inr (b, w') \<and> writer_ok w'
      \<and> (b \<longleftrightarrow> length src \<le> writer_room w) \<and> (\<not> b \<longrightarrow> w' = w))
    \<and> (\<exists>p w'. Writer_Reserve sizeof_T count w = Inr (p, w') \<and> writer_ok w'
      \<and> (p \<noteq> None \<longleftrightarrow> unat sizeof_T * unat count \<le> writer_room w) \<and> (p = None \<longrightarrow> w' = w))"
proof (intro conjI)
  have len: "unat (word_of_nat (length src) :: u32) = length src"
    using assms(2) by (simp add: unat_of_nat take_bit_nat_def)
  have p: "w_pos w \<le> w_size w" "unat (w_pos w) \<le> length (w_buffer w)" using assms(1) by (auto simp: writer_ok_def word_le_nat_alt)
  show "\<exists>b w'. Writer_Write src (word_of_nat (length src)) w = Inr (b, w') \<and> writer_ok w'
      \<and> (b \<longleftrightarrow> length src \<le> writer_room w) \<and> (\<not> b \<longrightarrow> w' = w)"
  proof (cases "length src \<le> writer_room w")
    case True
    with Writer_Write_appends[OF assms(1) True] show ?thesis by auto
  next
    case False
    then have "Writer_FreeSize w < word_of_nat (length src)" using p(1) by (simp add: word_less_nat_alt len FreeSize_room)
    then have "Writer_Write src (word_of_nat (length src)) w = Inr (False, w)" by (simp add: Writer_Write_def)
    with False assms(1) show ?thesis by blast
  qed
  let ?k = "unat sizeof_T * unat count"
  have c: "unat count < 2 ^ 16" using unsigned_less[of count, where 'a = nat] by simp
  then have "?k < 2 ^ 48 * 2 ^ 16" using assms(3) by (intro mult_strict_mono) simp_all
  then have k: "unat (sizeof_T * ucast count) = ?k"
    by (simp add: unat_word_ariths unat_widened take_bit_nat_def)
  have f: "unat (ucast (Writer_FreeSize w) :: u64) = writer_room w" using p(1) by (simp add: unat_widened FreeSize_room)
  have t: "(ucast (sizeof_T * ucast count) :: u32) = word_of_nat ?k"
    by (simp only: of_nat_unat flip: k)
  show "\<exists>p w'. Writer_Reserve sizeof_T count w = Inr (p, w') \<and> writer_ok w'
      \<and> (p \<noteq> None \<longleftrightarrow> ?k \<le> writer_room w) \<and> (p = None \<longrightarrow> w' = w)"
  proof (cases "?k \<le> writer_room w")
    case True
    then have "w_pos w + word_of_nat ?k \<le> w_size w" by (intro pos_moves(2)[OF p(1)]) (simp only: writer_room_def)
    then have "writer_ok (w\<lparr>w_pos := w_pos w + word_of_nat ?k\<rparr>)" using assms(1) by (simp add: writer_ok_def)
    with True p(2) show ?thesis by (simp add: Writer_Reserve_def word_less_nat_alt f k t del: of_nat_mult)
  next
    case False
    with assms(1) show ?thesis by (simp add: Writer_Reserve_def word_less_nat_alt f k)
  qed
qed

theorem writer_bounds_witness:
  "\<exists>b w'. Writer_Write [1, 2, 3] 3 (BufferWriter [0, 0, 0, 0] 4 2) = Inr (b, w') \<and> \<not> b"
proof -
  have w: "writer_ok (BufferWriter [0, 0, 0, 0] 4 2)" "writer_room (BufferWriter [0, 0, 0, 0] 4 2) = 2"
    by (simp_all add: writer_ok_def BufferWriter_def writer_room_def)
  from writer_bounds[OF w(1), of "[1, 2, 3]" 4 1] show ?thesis by (auto simp: w(2))
qed

text \<open>The operator passes the end of the view: the free size wraps, and a Write beyond the array follows.\<close>

lemma operator_unchecked:
  "\<exists>w. Writer_shl [1, 2, 3, 4] (BufferWriter [0, 0, 0, 0, 0, 0] 2 0) = Inr w \<and> Writer_FreeSize w = - 2
    \<and> Writer_Write [7, 8, 9] 3 w = Inl OutOfBounds"
  by (simp add: Writer_shl_def store_at_pos_def BufferWriter_def Writer_FreeSize_def Writer_Write_def)

end
