(* ===== verification/Type_Cast.thy ===== *)
theory Type_Cast
  imports Server_Base
begin

text \<open>
  Casts by type list (ServerCore/TypeCast.h). A class carries the list of the classes its family has;
  an object knows the index of its own class in it, and a table over the list, filled at the first
  question by a recursion over two template indices, says which class converts to which. A type is a
  value of the model; the class hierarchy is a map from a class to its bases, all of them public and
  reached in one way, as an implicit conversion of pointers asks for.
\<close>

section \<open>Type lists\<close>

fun TL_Length :: "'t list \<Rightarrow> int" where
  "TL_Length [] = 0"
| "TL_Length (T # U) = 1 + TL_Length U"

text \<open>No specialisation of TypeAt takes an empty list: None is a program that does not compile.\<close>

fun TypeAt :: "'t list \<Rightarrow> int \<Rightarrow> 't option" where
  "TypeAt [] index = None"
| "TypeAt (Head # Tail) index = (if index = 0 then Some Head else TypeAt Tail (index - 1))"

fun IndexOf :: "'t list \<Rightarrow> 't \<Rightarrow> int" where
  "IndexOf [] T = - 1"
| "IndexOf (Head # Tail) T =
     (if Head = T then 0 else let temp = IndexOf Tail T in if temp = - 1 then - 1 else temp + 1)"

lemma TL_Length_length: "TL_Length TL = int (length TL)"
  by (induction TL) simp_all

lemma TypeAt_nth: "TypeAt TL i = (if 0 \<le> i \<and> i < int (length TL) then Some (TL ! nat i) else None)"
  by (induction TL i rule: TypeAt.induct) (auto simp: nth_Cons' nat_diff_distrib)

lemma IndexOf_bounds: "- 1 \<le> IndexOf TL T \<and> IndexOf TL T < int (length TL)"
  by (induction TL) (auto simp: Let_def)

lemma IndexOf_absent: "IndexOf TL T = - 1 \<longleftrightarrow> T \<notin> set TL"
proof (induction TL)
  case (Cons H TL)
  then show ?case using IndexOf_bounds[of TL T] by (auto simp: Let_def)
qed simp

lemma TypeAt_IndexOf:
  assumes "T \<in> set TL"
  shows "TypeAt TL (IndexOf TL T) = Some T"
  using assms
proof (induction TL)
  case (Cons H TL)
  then show ?case using IndexOf_bounds[of TL T] IndexOf_absent[of TL T] by (auto simp: Let_def)
qed simp

lemma IndexOf_in: "T \<in> set TL \<Longrightarrow> 0 \<le> IndexOf TL T"
  using IndexOf_bounds[of TL T] IndexOf_absent[of TL T] by linarith

section \<open>Conversion\<close>

text \<open>Conversion<const From*, const To*>::exists: overload resolution prefers Test(const To&), so it
  holds exactly if the pointers convert: To is From or one of its bases.\<close>

inductive derives :: "('t \<Rightarrow> 't list) \<Rightarrow> 't \<Rightarrow> 't \<Rightarrow> bool" for bases where
  derives_refl: "derives bases T T"
| derives_step: "B \<in> set (bases From) \<Longrightarrow> derives bases B To \<Longrightarrow> derives bases From To"

inductive_simps derives_leaf: "derives bases From To"

section \<open>The table\<close>

type_synonym convert_table = "int \<Rightarrow> int \<Rightarrow> bool"

definition set_convert :: "int \<Rightarrow> int \<Rightarrow> bool \<Rightarrow> convert_table \<Rightarrow> convert_table" where
  "set_convert i j b s = s(i := (s i)(j := b))"

text \<open>The three overloads of MakeTable: the last one ends at row i = length, the second starts a new
  row at j = length, and the first is for all other indices.\<close>

function (sequential) MakeTable ::
    "('t \<Rightarrow> 't list) \<Rightarrow> 't list \<Rightarrow> int \<Rightarrow> int \<Rightarrow> convert_table \<Rightarrow> convert_table option" where
  "MakeTable bases TL i j s_convert =
     (if TL_Length TL \<le> i then Some s_convert
      else if TL_Length TL \<le> j then MakeTable bases TL (i + 1) 0 s_convert
      else
        (case (TypeAt TL i, TypeAt TL j) of
           (Some FromType, Some ToType) \<Rightarrow>
             MakeTable bases TL i (j + 1) (set_convert i j (derives bases FromType ToType) s_convert)
         | _ \<Rightarrow> None))"
  by pat_completeness auto
termination
  by (relation "measures [\<lambda>(bases, TL, i, j, s). nat (TL_Length TL - i), \<lambda>(bases, TL, i, j, s). nat (TL_Length TL - j)]") auto

declare MakeTable.simps [simp del]

text \<open>s_convert has static storage and starts as all false. The constructor starts at (0, 0), where
  an empty list makes the two ends of MakeTable equally good: the program does not compile.\<close>

definition TypeConversion :: "('t \<Rightarrow> 't list) \<Rightarrow> 't list \<Rightarrow> convert_table option" where
  "TypeConversion bases TL = (if TL = [] then None else MakeTable bases TL 0 0 (\<lambda>_ _. False))"

definition CanConvert :: "('t \<Rightarrow> 't list) \<Rightarrow> 't list \<Rightarrow> int \<Rightarrow> int \<Rightarrow> bool result option" where
  "CanConvert bases TL from to =
     map_option (\<lambda>s_convert.
       if 0 \<le> from \<and> from < TL_Length TL \<and> 0 \<le> to \<and> to < TL_Length TL then Inr (s_convert from to)
       else Inl OutOfBounds) (TypeConversion bases TL)"

section \<open>Casts\<close>

text \<open>An object by its address, with the index the constructor of its class has stored.\<close>

record tl_object =
  o_addr :: nat
  m_typeId :: int

definition INIT_TL :: "'t list \<Rightarrow> 't \<Rightarrow> nat \<Rightarrow> tl_object" where
  "INIT_TL TL T addr = \<lparr>o_addr = addr, m_typeId = IndexOf TL T\<rparr>"

definition TypeCast ::
    "('t \<Rightarrow> 't list) \<Rightarrow> 't list \<Rightarrow> 't \<Rightarrow> tl_object option \<Rightarrow> tl_object option result option" where
  "TypeCast bases TL To ptr =
     (case ptr of
        None \<Rightarrow> Some (Inr None)
      | Some obj \<Rightarrow>
          map_option (\<lambda>r. rbind r (\<lambda>ok. Inr (if ok then Some obj else None)))
            (CanConvert bases TL (m_typeId obj) (IndexOf TL To)))"

definition CanCast :: "('t \<Rightarrow> 't list) \<Rightarrow> 't list \<Rightarrow> 't \<Rightarrow> tl_object option \<Rightarrow> bool result option" where
  "CanCast bases TL To ptr =
     (case ptr of
        None \<Rightarrow> Some (Inr False)
      | Some obj \<Rightarrow> CanConvert bases TL (m_typeId obj) (IndexOf TL To))"

text \<open>The overloads for shared_ptr: the pointer that is returned shares the object, so its count goes
  up by one; the parameter, a copy, is gone again after the call.\<close>

definition TypeCast_shared ::
    "('t \<Rightarrow> 't list) \<Rightarrow> 't list \<Rightarrow> 't \<Rightarrow> tl_object option \<Rightarrow> (nat \<Rightarrow> nat)
      \<Rightarrow> (tl_object option \<times> (nat \<Rightarrow> nat)) result option" where
  "TypeCast_shared bases TL To ptr use_count =
     (case ptr of
        None \<Rightarrow> Some (Inr (None, use_count))
      | Some obj \<Rightarrow>
          map_option (\<lambda>r. rbind r (\<lambda>ok.
              Inr (if ok then (Some obj, use_count(o_addr obj := use_count (o_addr obj) + 1)) else (None, use_count))))
            (CanConvert bases TL (m_typeId obj) (IndexOf TL To)))"

definition CanCast_shared :: "('t \<Rightarrow> 't list) \<Rightarrow> 't list \<Rightarrow> 't \<Rightarrow> tl_object option \<Rightarrow> bool result option" where
  "CanCast_shared bases TL To ptr =
     (case ptr of
        None \<Rightarrow> Some (Inr False)
      | Some obj \<Rightarrow> CanConvert bases TL (m_typeId obj) (IndexOf TL To))"

section \<open>The table is the relation of the classes\<close>

definition convert_entry :: "('t \<Rightarrow> 't list) \<Rightarrow> 't list \<Rightarrow> int \<Rightarrow> int \<Rightarrow> bool" where
  "convert_entry bases TL a b \<longleftrightarrow> derives bases (TL ! nat a) (TL ! nat b)"

text \<open>From (i, j) on the recursion writes the entries that follow in row order, and no other.\<close>

lemma MakeTable_fills:
  assumes "0 \<le> i" and "0 \<le> j"
  shows "\<exists>s'. MakeTable bases TL i j s = Some s' \<and>
    (\<forall>a b. s' a b = (if 0 \<le> b \<and> b < TL_Length TL \<and> a < TL_Length TL \<and> (i < a \<or> i = a \<and> j \<le> b)
       then convert_entry bases TL a b else s a b))"
  using assms
proof (induction bases TL i j s rule: MakeTable.induct)
  case (1 bases TL i j s)
  consider (rows) "TL_Length TL \<le> i" | (row) "i < TL_Length TL" "TL_Length TL \<le> j"
    | (cell) "i < TL_Length TL" "j < TL_Length TL" by linarith
  then show ?case
  proof cases
    case rows
    then show ?thesis by (subst MakeTable.simps) auto
  next
    case row
    have m: "MakeTable bases TL i j s = MakeTable bases TL (i + 1) 0 s" using row by (subst MakeTable.simps) simp
    from row 1 obtain s' where s': "MakeTable bases TL (i + 1) 0 s = Some s'"
      "\<And>a b. s' a b = (if 0 \<le> b \<and> b < TL_Length TL \<and> a < TL_Length TL \<and> (i + 1 < a \<or> i + 1 = a \<and> 0 \<le> b)
        then convert_entry bases TL a b else s a b)" by force
    have "s' a b = (if 0 \<le> b \<and> b < TL_Length TL \<and> a < TL_Length TL \<and> (i < a \<or> i = a \<and> j \<le> b)
        then convert_entry bases TL a b else s a b)" for a b
      unfolding s'(2)[of a b] using row by auto
    with s'(1) show ?thesis unfolding m by blast
  next
    case cell
    with 1 have t: "TypeAt TL i = Some (TL ! nat i)" "TypeAt TL j = Some (TL ! nat j)"
      by (simp_all add: TypeAt_nth TL_Length_length)
    let ?s = "set_convert i j (derives bases (TL ! nat i) (TL ! nat j)) s"
    have m: "MakeTable bases TL i j s = MakeTable bases TL i (j + 1) ?s"
      using cell by (subst MakeTable.simps) (simp add: t)
    from 1(2)[OF _ _ refl t] cell 1(3,4) obtain s' where s': "MakeTable bases TL i (j + 1) ?s = Some s'"
      "\<And>a b. s' a b = (if 0 \<le> b \<and> b < TL_Length TL \<and> a < TL_Length TL \<and> (i < a \<or> i = a \<and> j + 1 \<le> b)
        then convert_entry bases TL a b else ?s a b)" by force
    have "s' a b = (if 0 \<le> b \<and> b < TL_Length TL \<and> a < TL_Length TL \<and> (i < a \<or> i = a \<and> j \<le> b)
        then convert_entry bases TL a b else s a b)" for a b
      unfolding s'(2)[of a b] using cell 1(4) by (auto simp: set_convert_def convert_entry_def)
    with s'(1) show ?thesis unfolding m by blast
  qed
qed

lemma TypeConversion_table:
  assumes "TL \<noteq> []"
  shows "\<exists>s. TypeConversion bases TL = Some s \<and>
    (\<forall>a b. 0 \<le> a \<and> a < TL_Length TL \<and> 0 \<le> b \<and> b < TL_Length TL \<longrightarrow> s a b = convert_entry bases TL a b)"
  using MakeTable_fills[of 0 0 bases TL "\<lambda>_ _. False"] assms by (force simp: TypeConversion_def)

lemma CanConvert_entry:
  assumes "TL \<noteq> []"
  shows "CanConvert bases TL a b =
    Some (if 0 \<le> a \<and> a < TL_Length TL \<and> 0 \<le> b \<and> b < TL_Length TL then Inr (convert_entry bases TL a b) else Inl OutOfBounds)"
  using TypeConversion_table[OF assms, of bases] by (auto simp: CanConvert_def)

lemma CanConvert_types:
  assumes "T \<in> set TL"
  shows "CanConvert bases TL (IndexOf TL T) (IndexOf TL To) =
    Some (if To \<in> set TL then Inr (derives bases T To) else Inl OutOfBounds)"
proof -
  have ne: "TL \<noteq> []" using assms by auto
  have T: "0 \<le> IndexOf TL T" "IndexOf TL T < TL_Length TL" "TL ! nat (IndexOf TL T) = T"
    using IndexOf_in[OF assms] IndexOf_bounds[of TL T] TypeAt_IndexOf[OF assms] by (simp_all add: TL_Length_length TypeAt_nth)
  show ?thesis
  proof (cases "To \<in> set TL")
    case True
    then have "0 \<le> IndexOf TL To" "IndexOf TL To < TL_Length TL" "TL ! nat (IndexOf TL To) = To"
      using IndexOf_in[OF True] IndexOf_bounds[of TL To] TypeAt_IndexOf[OF True] by (simp_all add: TL_Length_length TypeAt_nth)
    with True T show ?thesis by (simp add: CanConvert_entry[OF ne] convert_entry_def)
  next
    case False
    then have "IndexOf TL To = - 1" by (simp add: IndexOf_absent)
    with False show ?thesis by (simp add: CanConvert_entry[OF ne])
  qed
qed

section \<open>Properties\<close>

text \<open>What a cast does. For an object of a class of the list, in whatever hierarchy, the compile
  time recursion ends and TypeCast to a class of the list returns the object exactly if its class is
  that class or derives from it, and null otherwise; CanCast says the same, and the shared pointer
  gains one owner exactly if the cast succeeds. A class outside the list is looked up at column -1.\<close>

theorem TypeCast_correct:
  assumes "T \<in> set TL"
  shows "TypeCast bases TL To (Some (INIT_TL TL T addr))
      = Some (if To \<in> set TL then Inr (if derives bases T To then Some (INIT_TL TL T addr) else None) else Inl OutOfBounds)
    \<and> CanCast bases TL To (Some (INIT_TL TL T addr))
      = Some (if To \<in> set TL then Inr (derives bases T To) else Inl OutOfBounds)
    \<and> CanCast_shared bases TL To (Some (INIT_TL TL T addr)) = CanCast bases TL To (Some (INIT_TL TL T addr))
    \<and> TypeCast_shared bases TL To (Some (INIT_TL TL T addr)) use_count
      = Some (if To \<in> set TL
          then Inr (if derives bases T To then (Some (INIT_TL TL T addr), use_count(addr := use_count addr + 1)) else (None, use_count))
          else Inl OutOfBounds)"
  using CanConvert_types[OF assms, of bases To]
  by (simp add: TypeCast_def CanCast_def TypeCast_shared_def CanCast_shared_def INIT_TL_def)

definition player_bases :: "string \<Rightarrow> string list" where
  "player_bases T = (if T = ''Knight'' \<or> T = ''Mage'' then [''Player''] else [])"

theorem TypeCast_correct_witness:
  "TypeCast player_bases [''Player'', ''Mage'', ''Knight''] ''Player'' (Some (INIT_TL [''Player'', ''Mage'', ''Knight''] ''Knight'' 7))
      = Some (Inr (Some (INIT_TL [''Player'', ''Mage'', ''Knight''] ''Knight'' 7)))
    \<and> TypeCast player_bases [''Player'', ''Mage'', ''Knight''] ''Mage'' (Some (INIT_TL [''Player'', ''Mage'', ''Knight''] ''Knight'' 7))
      = Some (Inr None)"
proof -
  have p: "\<not> derives player_bases ''Player'' ''Mage''" by (simp add: derives_leaf[of _ "''Player''"] player_bases_def)
  have "derives player_bases ''Knight'' ''Player''"
    by (rule derives_step[OF _ derives_refl]) (simp add: player_bases_def)
  moreover have "\<not> derives player_bases ''Knight'' ''Mage''"
    using p by (simp add: derives_leaf[of _ "''Knight''"]) (simp add: player_bases_def)
  ultimately show ?thesis
    using TypeCast_correct[of "''Knight''" "[''Player'', ''Mage'', ''Knight'']" player_bases "''Player''" 7]
      TypeCast_correct[of "''Knight''" "[''Player'', ''Mage'', ''Knight'']" player_bases "''Mage''" 7] by simp
qed

end
