(* ===== verification/Ref_Counting.thy ===== *)
theory Ref_Counting
  imports Server_Base
begin

text \<open>
  Intrusive reference counting (ServerCore/RefCounting.h): RefCountable with its counter, and the smart
  pointer TSharedPTr. Objects are numbers; the pointers in scope are a map from variables to what their
  m_ptr holds. Who makes an object with new holds its first count without a smart pointer, and may add
  and release counts by hand; those are counted in raw. The counted objects hold no smart pointer
  themselves, so a destructor has no further effect. The counter is a 32 bit atomic that wraps around.
\<close>

section \<open>RefCountable\<close>

record ref_state =
  m_refCount :: "nat \<Rightarrow> int"
  deleted :: "nat set"
  next_object :: nat
  pointers :: "nat \<Rightarrow> nat option option"
  raw :: "nat \<Rightarrow> nat"

definition ref_start :: ref_state where
  "ref_start = \<lparr>m_refCount = (\<lambda>_. 0), deleted = {}, next_object = 0, pointers = (\<lambda>_. None), raw = (\<lambda>_. 0)\<rparr>"

definition new_RefCountable :: "ref_state \<Rightarrow> ref_state" where
  "new_RefCountable s = s\<lparr>m_refCount := (m_refCount s)(next_object s := 1), next_object := next_object s + 1,
     raw := (raw s)(next_object s := 1)\<rparr>"

definition valid_object :: "nat \<Rightarrow> ref_state \<Rightarrow> bool" where
  "valid_object p s \<longleftrightarrow> p < next_object s \<and> p \<notin> deleted s"

definition AddRef :: "nat \<Rightarrow> ref_state \<Rightarrow> (int \<times> ref_state) result" where
  "AddRef p s =
     (if \<not> valid_object p s then Inl UseAfterFree
      else
        let refCount = (if m_refCount s p = 2 ^ 31 - 1 then - (2 ^ 31) else m_refCount s p + 1)
        in Inr (refCount, s\<lparr>m_refCount := (m_refCount s)(p := refCount)\<rparr>))"

definition ReleaseRef :: "nat \<Rightarrow> ref_state \<Rightarrow> (int \<times> ref_state) result" where
  "ReleaseRef p s =
     (if \<not> valid_object p s then Inl UseAfterFree
      else
        let refCount = (if m_refCount s p = - (2 ^ 31) then 2 ^ 31 - 1 else m_refCount s p - 1);
            s' = s\<lparr>m_refCount := (m_refCount s)(p := refCount)\<rparr>
        in Inr (refCount, if refCount = 0 then s'\<lparr>deleted := insert p (deleted s')\<rparr> else s'))"

section \<open>TSharedPTr\<close>

text \<open>What the pointer in variable x holds; null for a variable that is not in scope.\<close>

definition m_ptr :: "nat \<Rightarrow> ref_state \<Rightarrow> nat option" where
  "m_ptr x s = (case pointers s x of None \<Rightarrow> None | Some p \<Rightarrow> p)"

definition set_ptr :: "nat \<Rightarrow> nat option \<Rightarrow> ref_state \<Rightarrow> ref_state" where
  "set_ptr x p s = s\<lparr>pointers := (pointers s)(x := Some p)\<rparr>"

definition Ptr_Set :: "nat \<Rightarrow> nat option \<Rightarrow> ref_state \<Rightarrow> ref_state result" where
  "Ptr_Set x p s =
     (let s' = set_ptr x p s
      in case p of None \<Rightarrow> Inr s' | Some q \<Rightarrow> rbind (AddRef q s') (\<lambda>(_, s''). Inr s''))"

definition Ptr_Release :: "nat \<Rightarrow> ref_state \<Rightarrow> ref_state result" where
  "Ptr_Release x s =
     (case m_ptr x s of
        None \<Rightarrow> Inr s
      | Some q \<Rightarrow> rbind (ReleaseRef q s) (\<lambda>(_, s'). Inr (set_ptr x None s')))"

definition Ptr_default :: "nat \<Rightarrow> ref_state \<Rightarrow> ref_state" where
  "Ptr_default x s = set_ptr x None s"

definition Ptr_from :: "nat \<Rightarrow> nat option \<Rightarrow> ref_state \<Rightarrow> ref_state result" where
  "Ptr_from x p s = Ptr_Set x p (set_ptr x None s)"

definition Ptr_copy :: "nat \<Rightarrow> nat \<Rightarrow> ref_state \<Rightarrow> ref_state result" where
  "Ptr_copy x rhs s = Ptr_Set x (m_ptr rhs s) (set_ptr x None s)"

definition Ptr_move :: "nat \<Rightarrow> nat \<Rightarrow> ref_state \<Rightarrow> ref_state" where
  "Ptr_move x rhs s = (let s' = set_ptr x (m_ptr rhs s) s in set_ptr rhs None s')"

definition Ptr_destroy :: "nat \<Rightarrow> ref_state \<Rightarrow> ref_state result" where
  "Ptr_destroy x s = rbind (Ptr_Release x s) (\<lambda>s'. Inr (s'\<lparr>pointers := (pointers s')(x := None)\<rparr>))"

definition Ptr_assign :: "nat \<Rightarrow> nat \<Rightarrow> ref_state \<Rightarrow> ref_state result" where
  "Ptr_assign x rhs s =
     (if m_ptr x s \<noteq> m_ptr rhs s then rbind (Ptr_Release x s) (\<lambda>s'. Ptr_Set x (m_ptr rhs s') s') else Inr s)"

definition Ptr_assign_move :: "nat \<Rightarrow> nat \<Rightarrow> ref_state \<Rightarrow> ref_state result" where
  "Ptr_assign_move x rhs s =
     rbind (Ptr_Release x s) (\<lambda>s'. let s'' = set_ptr x (m_ptr rhs s') s' in Inr (set_ptr rhs None s''))"

definition Ptr_eq :: "nat \<Rightarrow> nat \<Rightarrow> ref_state \<Rightarrow> bool" where
  "Ptr_eq x rhs s \<longleftrightarrow> m_ptr x s = m_ptr rhs s"

definition isNull :: "nat \<Rightarrow> ref_state \<Rightarrow> bool" where
  "isNull x s \<longleftrightarrow> m_ptr x s = None"

section \<open>A program that uses the pointers\<close>

text \<open>
  Any sequence of the operations on variables in scope. A smart pointer is made from a raw pointer only
  by who holds a count of the object, and counts are added only below the largest value of the counter.
\<close>

definition in_scope :: "nat \<Rightarrow> ref_state \<Rightarrow> bool" where
  "in_scope x s \<longleftrightarrow> pointers s x \<noteq> None"

definition count_room :: "nat option \<Rightarrow> ref_state \<Rightarrow> bool" where
  "count_room p s \<longleftrightarrow> (case p of None \<Rightarrow> True | Some q \<Rightarrow> m_refCount s q < 2 ^ 31 - 1)"

inductive ref_step :: "ref_state \<Rightarrow> ref_state \<Rightarrow> bool" where
  ref_new: "ref_step s (new_RefCountable s)"
| ref_raw_add: "0 < raw s p \<Longrightarrow> count_room (Some p) s \<Longrightarrow> AddRef p s = Inr (k, s') \<Longrightarrow>
    ref_step s (s'\<lparr>raw := (raw s')(p := raw s' p + 1)\<rparr>)"
| ref_raw_release: "0 < raw s p \<Longrightarrow> ReleaseRef p s = Inr (k, s') \<Longrightarrow>
    ref_step s (s'\<lparr>raw := (raw s')(p := raw s' p - 1)\<rparr>)"
| ref_default: "\<not> in_scope x s \<Longrightarrow> ref_step s (Ptr_default x s)"
| ref_from: "\<not> in_scope x s \<Longrightarrow> 0 < raw s p \<Longrightarrow> count_room (Some p) s \<Longrightarrow> Ptr_from x (Some p) s = Inr s' \<Longrightarrow> ref_step s s'"
| ref_copy: "\<not> in_scope x s \<Longrightarrow> in_scope y s \<Longrightarrow> count_room (m_ptr y s) s \<Longrightarrow> Ptr_copy x y s = Inr s' \<Longrightarrow> ref_step s s'"
| ref_move: "\<not> in_scope x s \<Longrightarrow> in_scope y s \<Longrightarrow> ref_step s (Ptr_move x y s)"
| ref_destroy: "in_scope x s \<Longrightarrow> Ptr_destroy x s = Inr s' \<Longrightarrow> ref_step s s'"
| ref_assign: "in_scope x s \<Longrightarrow> in_scope y s \<Longrightarrow> count_room (m_ptr y s) s \<Longrightarrow> Ptr_assign x y s = Inr s' \<Longrightarrow> ref_step s s'"
| ref_assign_move: "in_scope x s \<Longrightarrow> in_scope y s \<Longrightarrow> Ptr_assign_move x y s = Inr s' \<Longrightarrow> ref_step s s'"

section \<open>The invariant\<close>

definition holders :: "nat \<Rightarrow> ref_state \<Rightarrow> nat set" where
  "holders p s = {x. pointers s x = Some (Some p)}"

definition references :: "nat \<Rightarrow> ref_state \<Rightarrow> nat" where
  "references p s = raw s p + card (holders p s)"

definition ref_inv :: "ref_state \<Rightarrow> bool" where
  "ref_inv s \<longleftrightarrow> finite (dom (pointers s))
     \<and> (\<forall>p. p \<ge> next_object s \<longrightarrow> references p s = 0 \<and> holders p s = {} \<and> p \<notin> deleted s)
     \<and> (\<forall>p < next_object s. p \<in> deleted s \<longleftrightarrow> references p s = 0)
     \<and> (\<forall>p < next_object s. p \<notin> deleted s \<longrightarrow> m_refCount s p = int (references p s) \<and> references p s < 2 ^ 31)"

lemma finite_holders: "finite (dom (pointers s)) \<Longrightarrow> finite (holders p s)"
  by (rule finite_subset[of _ "dom (pointers s)"]) (auto simp: holders_def)

lemma holders_set_ptr:
  "holders q (set_ptr x p s) = (if p = Some q then insert x (holders q s) else holders q s - {x})"
  by (auto simp: holders_def set_ptr_def)

text \<open>An object something refers to is valid.\<close>

lemma referenced_valid:
  assumes "ref_inv s" and "0 < references p s"
  shows "valid_object p s" "m_refCount s p = int (references p s)"
proof -
  have "p < next_object s" using assms by (fastforce simp: ref_inv_def not_le)
  with assms show "valid_object p s" "m_refCount s p = int (references p s)"
    by (auto simp: ref_inv_def valid_object_def)
qed

lemma holder_references:
  assumes "ref_inv s" and "pointers s x = Some (Some p)"
  shows "0 < references p s" "x \<in> holders p s" "finite (holders p s)"
proof -
  show x: "x \<in> holders p s" using assms(2) by (simp add: holders_def)
  show f: "finite (holders p s)" using assms(1) finite_holders by (auto simp: ref_inv_def)
  show "0 < references p s" using x f by (auto simp: references_def card_gt_0_iff)
qed

text \<open>The invariant only looks at the number of references, the counter and what is deleted.\<close>

lemma ref_inv_counts:
  assumes "ref_inv s" and "next_object s' = next_object s" and "finite (dom (pointers s'))"
    and "deleted s' = (if references p s' = 0 \<and> p < next_object s then insert p (deleted s) else deleted s)"
    and "p < next_object s" and "p \<notin> deleted s"
    and "m_refCount s' p = int (references p s')" and "references p s' < 2 ^ 31"
    and "\<And>q. q \<noteq> p \<Longrightarrow> m_refCount s' q = m_refCount s q \<and> raw s' q = raw s q \<and> holders q s' = holders q s"
  shows "ref_inv s'"
proof -
  have other: "references q s' = references q s" "holders q s' = holders q s" "m_refCount s' q = m_refCount s q"
    if "q \<noteq> p" for q
    using assms(9)[OF that] by (simp_all add: references_def)
  show ?thesis
    unfolding ref_inv_def assms(2)
  proof (intro conjI allI impI)
    fix q assume q: "next_object s \<le> q"
    then have "q \<noteq> p" using assms(5) by auto
    with q assms(1,4) other show "references q s' = 0" "holders q s' = {}" "q \<notin> deleted s'"
      by (auto simp: ref_inv_def)
  next
    fix q assume q: "q < next_object s"
    show "q \<in> deleted s' \<longleftrightarrow> references q s' = 0"
      using assms(1,4,5,6) q other[of q] by (cases "q = p") (auto simp: ref_inv_def)
    assume "q \<notin> deleted s'"
    then show "m_refCount s' q = int (references q s')" "references q s' < 2 ^ 31"
      using assms(1,4,5,7,8) q other[of q] by (cases "q = p"; auto simp: ref_inv_def split: if_splits)+
  qed (rule assms(3))
qed

lemma ref_inv_quiet:
  assumes "ref_inv s" and "next_object s' = next_object s" and "finite (dom (pointers s'))" and "deleted s' = deleted s"
    and "m_refCount s' = m_refCount s" and "raw s' = raw s" and "\<And>q. holders q s' = {} \<longleftrightarrow> holders q s = {}"
    and "\<And>q. card (holders q s') = card (holders q s)"
  shows "ref_inv s'"
  using assms by (simp add: ref_inv_def references_def)

section \<open>The operations keep it and do not fail\<close>

lemma AddRef_ok:
  assumes "ref_inv s" and "0 < references p s" and "count_room (Some p) s"
  shows "\<exists>k t. AddRef p s = Inr (k, t) \<and> m_refCount t = (m_refCount s)(p := int (references p s + 1)) \<and> deleted t = deleted s
    \<and> next_object t = next_object s \<and> pointers t = pointers s \<and> raw t = raw s \<and> references p s + 1 < 2 ^ 31"
  using referenced_valid[OF assms(1,2)] assms(3) by (auto simp: AddRef_def Let_def count_room_def)

lemma ReleaseRef_ok:
  assumes "ref_inv s" and "0 < references p s"
  shows "\<exists>k t. ReleaseRef p s = Inr (k, t) \<and> m_refCount t = (m_refCount s)(p := int (references p s - 1))
    \<and> deleted t = (if references p s = 1 then insert p (deleted s) else deleted s)
    \<and> next_object t = next_object s \<and> pointers t = pointers s \<and> raw t = raw s"
proof -
  from referenced_valid[OF assms] have v: "valid_object p s" "m_refCount s p = int (references p s)" .
  have "int (references p s) - 1 = int (references p s - 1)" using assms(2) by simp
  then show ?thesis using v assms(2) by (auto simp: ReleaseRef_def Let_def)
qed

lemma holders_pointers: "pointers s' = pointers s \<Longrightarrow> holders q s' = holders q s"
  by (simp add: holders_def)

lemma set_ptr_simps [simp]:
  "m_refCount (set_ptr x p s) = m_refCount s" "deleted (set_ptr x p s) = deleted s" "raw (set_ptr x p s) = raw s"
  "next_object (set_ptr x p s) = next_object s" "dom (pointers (set_ptr x p s)) = insert x (dom (pointers s))"
  "pointers (set_ptr x p s) y = (if y = x then Some p else pointers s y)"
  by (auto simp: set_ptr_def)

lemma Ptr_Release_ok:
  assumes "ref_inv s" and "in_scope x s"
  shows "\<exists>s'. Ptr_Release x s = Inr s' \<and> ref_inv s' \<and> pointers s' = (pointers s)(x := Some None) \<and> raw s' = raw s
    \<and> (\<forall>q. m_ptr x s \<noteq> Some q \<longrightarrow> m_refCount s' q = m_refCount s q)"
proof (cases "m_ptr x s")
  case None
  then have "pointers s x = Some None" using assms(2) by (auto simp: m_ptr_def in_scope_def)
  with None assms(1) show ?thesis by (simp add: Ptr_Release_def fun_upd_idem)
next
  case (Some p)
  then have x: "pointers s x = Some (Some p)" by (auto simp: m_ptr_def split: option.splits)
  note h = holder_references[OF assms(1) x] and v = referenced_valid[OF assms(1) holder_references(1)[OF assms(1) x]]
  obtain k t where t: "ReleaseRef p s = Inr (k, t)" "m_refCount t = (m_refCount s)(p := int (references p s - 1))"
    "deleted t = (if references p s = 1 then insert p (deleted s) else deleted s)"
    "next_object t = next_object s" "pointers t = pointers s" "raw t = raw s"
    using ReleaseRef_ok[OF assms(1) h(1)] by blast
  have hs: "holders q (set_ptr x None t) = holders q s - {x}" for q
    by (simp add: holders_set_ptr holders_pointers[OF t(5)])
  have "card (holders p s - {x}) = card (holders p s) - 1" "0 < card (holders p s)"
    using h(2,3) by (auto simp: card_gt_0_iff)
  then have r: "references p (set_ptr x None t) = references p s - 1" unfolding references_def hs by (simp add: t(6))
  have o: "holders q (set_ptr x None t) = holders q s" if "q \<noteq> p" for q unfolding hs using x that by (auto simp: holders_def)
  have "ref_inv (set_ptr x None t)"
  proof (rule ref_inv_counts[OF assms(1), where p = p])
    show "p < next_object s" "p \<notin> deleted s" using v(1) by (simp_all add: valid_object_def)
    then have "references p s < 2 ^ 31" using assms(1) by (auto simp: ref_inv_def)
    then show "references p (set_ptr x None t) < 2 ^ 31" unfolding r by simp
    show "deleted (set_ptr x None t) = (if references p (set_ptr x None t) = 0 \<and> p < next_object s then insert p (deleted s) else deleted s)"
      unfolding r using h(1) v(1) t(3) by (auto simp: valid_object_def)
    show "m_refCount (set_ptr x None t) p = int (references p (set_ptr x None t))" unfolding r by (simp add: t(2))
    show "finite (dom (pointers (set_ptr x None t)))" using assms(1) t(5) by (simp add: ref_inv_def)
  qed (use o t in simp_all)
  moreover have "pointers (set_ptr x None t) = (pointers s)(x := Some None)" using t(5) by (simp add: fun_eq_iff)
  ultimately show ?thesis using Some t by (simp add: Ptr_Release_def)
qed

lemma Ptr_Set_ok:
  assumes "ref_inv s" and "m_ptr x s = None" and "\<And>q. p = Some q \<Longrightarrow> 0 < references q s" and "count_room p s"
  shows "\<exists>s'. Ptr_Set x p s = Inr s' \<and> ref_inv s'"
proof (cases p)
  case None
  have hs: "holders q (set_ptr x None s) = holders q s" for q
    using assms(2) by (auto simp: holders_def m_ptr_def)
  have "ref_inv (set_ptr x None s)"
    by (rule ref_inv_quiet[OF assms(1)]) (use assms(1) hs in \<open>simp_all add: ref_inv_def\<close>)
  with None show ?thesis by (simp add: Ptr_Set_def)
next
  case (Some q)
  note v = referenced_valid[OF assms(1) assms(3)[OF Some]]
  have x: "x \<notin> holders r s" for r using assms(2) by (auto simp: holders_def m_ptr_def)
  have f: "finite (holders q s)" using assms(1) finite_holders by (auto simp: ref_inv_def)
  obtain k t where t: "AddRef q s = Inr (k, t)" "m_refCount t = (m_refCount s)(q := int (references q s + 1))"
    "deleted t = deleted s" "next_object t = next_object s" "pointers t = pointers s" "raw t = raw s" "references q s + 1 < 2 ^ 31"
    using AddRef_ok[OF assms(1) assms(3)[OF Some] assms(4)[unfolded Some]] by blast
  have set: "Ptr_Set x p s = Inr (set_ptr x p t)"
    using t(1) Some by (auto simp: Ptr_Set_def AddRef_def Let_def valid_object_def set_ptr_def split: if_splits)
  have hs: "holders r (set_ptr x p t) = (if r = q then insert x (holders r s) else holders r s)" for r
    using x[of r] Some by (auto simp: holders_set_ptr holders_pointers[OF t(5)])
  have r: "references q (set_ptr x p t) = references q s + 1" unfolding references_def hs using x f by (simp add: t(6))
  have "ref_inv (set_ptr x p t)"
  proof (rule ref_inv_counts[OF assms(1), where p = q])
    show "q < next_object s" "q \<notin> deleted s" using v(1) by (simp_all add: valid_object_def)
    show "references q (set_ptr x p t) < 2 ^ 31" unfolding r by (rule t(7))
    show "deleted (set_ptr x p t) = (if references q (set_ptr x p t) = 0 \<and> q < next_object s then insert q (deleted s) else deleted s)"
      unfolding r by (simp add: t(3))
    show "m_refCount (set_ptr x p t) q = int (references q (set_ptr x p t))" unfolding r by (simp add: t(2))
    show "finite (dom (pointers (set_ptr x p t)))" using assms(1) t(5) by (simp add: ref_inv_def)
  qed (use t in \<open>simp_all add: hs\<close>)
  with set show ?thesis by blast
qed

text \<open>A pointer that moves out of y into x, which held nothing.\<close>

lemma move_ok:
  assumes "ref_inv s" and "m_ptr x s = None" and "x = y \<or> in_scope y s"
  shows "ref_inv (set_ptr y None (set_ptr x (m_ptr y s) s))"
proof (rule ref_inv_quiet[OF assms(1)])
  let ?s = "set_ptr y None (set_ptr x (m_ptr y s) s)"
  have x: "x \<notin> holders q s" for q using assms(2) by (auto simp: holders_def m_ptr_def)
  have hs: "holders q ?s = (if m_ptr y s = Some q \<and> x \<noteq> y then insert x (holders q s - {y}) else holders q s)" for q
    using assms(2,3) by (auto simp: holders_def m_ptr_def in_scope_def split: option.splits)
  have y: "y \<in> holders q s" if "m_ptr y s = Some q" for q using that by (auto simp: holders_def m_ptr_def split: option.splits)
  have f: "finite (holders q s)" for q using assms(1) finite_holders by (auto simp: ref_inv_def)
  show "holders q ?s = {} \<longleftrightarrow> holders q s = {}" for q using hs y by auto
  show "card (holders q ?s) = card (holders q s)" for q
  proof (cases "m_ptr y s = Some q \<and> x \<noteq> y")
    case True
    then have "card (holders q s) = Suc (card (holders q s - {y}))" using card.remove[OF f[of q] y[of q]] by simp
    then show ?thesis using True hs[of q] x[of q] f[of q] by simp
  next
    case False
    then show ?thesis unfolding hs by (simp only: if_False)
  qed
  show "finite (dom (pointers ?s))" using assms(1) by (simp add: ref_inv_def)
qed simp_all

lemma scope_end_ok:
  assumes "ref_inv s" and "pointers s x = Some None"
  shows "ref_inv (s\<lparr>pointers := (pointers s)(x := None)\<rparr>)"
proof (rule ref_inv_quiet[OF assms(1)])
  have "holders q (s\<lparr>pointers := (pointers s)(x := None)\<rparr>) = holders q s" for q using assms(2) by (auto simp: holders_def)
  then show "holders q (s\<lparr>pointers := (pointers s)(x := None)\<rparr>) = {} \<longleftrightarrow> holders q s = {}"
    "card (holders q (s\<lparr>pointers := (pointers s)(x := None)\<rparr>)) = card (holders q s)" for q by simp_all
qed (use assms(1) in \<open>simp_all add: ref_inv_def\<close>)

lemma fresh_ok:
  assumes "ref_inv s" and "m_ptr x s = None"
  shows "ref_inv (set_ptr x None s)" "references q (set_ptr x None s) = references q s"
    "m_ptr x (set_ptr x None s) = None" "y \<noteq> x \<Longrightarrow> m_ptr y (set_ptr x None s) = m_ptr y s"
proof -
  show "ref_inv (set_ptr x None s)" using Ptr_Set_ok[OF assms, of None] by (simp add: Ptr_Set_def count_room_def)
  have "holders q (set_ptr x None s) = holders q s" using assms(2) by (auto simp: holders_def m_ptr_def)
  then show "references q (set_ptr x None s) = references q s" by (simp add: references_def)
qed (simp_all add: m_ptr_def)

lemma held:
  assumes "ref_inv s" and "m_ptr y s = Some q"
  shows "0 < references q s"
  using holder_references(1)[OF assms(1), of y q] assms(2) by (auto simp: m_ptr_def split: option.splits)

lemma not_in_scope: "\<not> in_scope x s \<Longrightarrow> m_ptr x s = None"
  by (simp add: in_scope_def m_ptr_def)

text \<open>Each operation of a program that keeps to the rules returns, and keeps the invariant.\<close>

lemma Ptr_from_ok:
  assumes "ref_inv s" and "\<not> in_scope x s" and "\<And>q. p = Some q \<Longrightarrow> 0 < references q s" and "count_room p s"
  shows "\<exists>s'. Ptr_from x p s = Inr s' \<and> ref_inv s'"
proof -
  note f = fresh_ok[OF assms(1) not_in_scope[OF assms(2)]]
  have "count_room p (set_ptr x None s)" using assms(4) by (simp add: count_room_def split: option.splits)
  then show ?thesis unfolding Ptr_from_def using Ptr_Set_ok[OF f(1,3)] assms(3) f(2) by simp
qed

lemma Ptr_copy_ok:
  assumes "ref_inv s" and "\<not> in_scope x s" and "count_room (m_ptr y s) s"
  shows "\<exists>s'. Ptr_copy x y s = Inr s' \<and> ref_inv s'"
  using Ptr_from_ok[OF assms(1,2) held[OF assms(1)] assms(3)] by (simp add: Ptr_copy_def Ptr_from_def)

lemma Ptr_destroy_ok:
  assumes "ref_inv s" and "in_scope x s"
  shows "\<exists>s'. Ptr_destroy x s = Inr s' \<and> ref_inv s'"
proof -
  obtain t where "Ptr_Release x s = Inr t" "ref_inv t" "pointers t = (pointers s)(x := Some None)"
    using Ptr_Release_ok[OF assms] by blast
  then show ?thesis using scope_end_ok[of t x] by (simp add: Ptr_destroy_def)
qed

lemma Ptr_assign_ok:
  assumes "ref_inv s" and "in_scope x s" and "count_room (m_ptr y s) s"
  shows "\<exists>s'. Ptr_assign x y s = Inr s' \<and> ref_inv s'"
proof (cases "m_ptr x s = m_ptr y s")
  case False
  then have xy: "y \<noteq> x" by auto
  obtain t where t: "Ptr_Release x s = Inr t" "ref_inv t" "pointers t = (pointers s)(x := Some None)"
    "\<And>q. m_ptr x s \<noteq> Some q \<Longrightarrow> m_refCount t q = m_refCount s q"
    using Ptr_Release_ok[OF assms(1,2)] by blast
  have p: "m_ptr x t = None" "m_ptr y t = m_ptr y s" using t(3) xy by (simp_all add: m_ptr_def)
  have "count_room (m_ptr y t) t" using assms(3) t(4) False unfolding p by (auto simp: count_room_def split: option.splits)
  from Ptr_Set_ok[OF t(2) p(1) held[OF t(2)] this] show ?thesis using False t(1) by (simp add: Ptr_assign_def)
qed (use assms in \<open>simp add: Ptr_assign_def\<close>)

lemma Ptr_assign_move_ok:
  assumes "ref_inv s" and "in_scope x s" and "in_scope y s"
  shows "\<exists>s'. Ptr_assign_move x y s = Inr s' \<and> ref_inv s'"
proof -
  obtain t where t: "Ptr_Release x s = Inr t" "ref_inv t" "pointers t = (pointers s)(x := Some None)"
    using Ptr_Release_ok[OF assms(1,2)] by blast
  then have "m_ptr x t = None" "x = y \<or> in_scope y t" using assms(3) by (auto simp: m_ptr_def in_scope_def)
  from move_ok[OF t(2) this] t(1) show ?thesis by (simp add: Ptr_assign_move_def Let_def)
qed

text \<open>Counts held by hand.\<close>

lemma raw_add_ok:
  assumes "ref_inv s" and "0 < raw s p" and "count_room (Some p) s" and "AddRef p s = Inr (k, s')"
  shows "ref_inv (s'\<lparr>raw := (raw s')(p := raw s' p + 1)\<rparr>)"
proof -
  have r: "0 < references p s" using assms(2) by (simp add: references_def)
  from AddRef_ok[OF assms(1) r assms(3)] assms(4) have t: "m_refCount s' = (m_refCount s)(p := int (references p s + 1))"
    "deleted s' = deleted s" "next_object s' = next_object s" "pointers s' = pointers s" "raw s' = raw s" "references p s + 1 < 2 ^ 31"
    by auto
  let ?s = "s'\<lparr>raw := (raw s')(p := raw s' p + 1)\<rparr>"
  have hs: "holders q ?s = holders q s" for q using t(4) by (simp add: holders_def)
  then have rp: "references p ?s = references p s + 1" by (simp add: references_def t(5))
  show ?thesis
  proof (rule ref_inv_counts[OF assms(1), where p = p])
    show "p < next_object s" "p \<notin> deleted s" using referenced_valid(1)[OF assms(1) r] by (simp_all add: valid_object_def)
    show "references p ?s < 2 ^ 31" unfolding rp by (rule t(6))
    show "m_refCount ?s p = int (references p ?s)" unfolding rp by (simp add: t(1))
    show "deleted ?s = (if references p ?s = 0 \<and> p < next_object s then insert p (deleted s) else deleted s)"
      unfolding rp by (simp add: t(2))
    show "finite (dom (pointers ?s))" using assms(1) t(4) by (simp add: ref_inv_def)
  qed (use t hs in simp_all)
qed

lemma raw_release_ok:
  assumes "ref_inv s" and "0 < raw s p" and "ReleaseRef p s = Inr (k, s')"
  shows "ref_inv (s'\<lparr>raw := (raw s')(p := raw s' p - 1)\<rparr>)"
proof -
  have r: "0 < references p s" using assms(2) by (simp add: references_def)
  from ReleaseRef_ok[OF assms(1) r] assms(3) have t: "m_refCount s' = (m_refCount s)(p := int (references p s - 1))"
    "deleted s' = (if references p s = 1 then insert p (deleted s) else deleted s)"
    "next_object s' = next_object s" "pointers s' = pointers s" "raw s' = raw s" by auto
  let ?s = "s'\<lparr>raw := (raw s')(p := raw s' p - 1)\<rparr>"
  have hs: "holders q ?s = holders q s" for q using t(4) by (simp add: holders_def)
  then have rp: "references p ?s = references p s - 1" using assms(2) by (simp add: references_def t(5))
  show ?thesis
  proof (rule ref_inv_counts[OF assms(1), where p = p])
    show p: "p < next_object s" "p \<notin> deleted s" using referenced_valid(1)[OF assms(1) r] by (simp_all add: valid_object_def)
    then have "references p s < 2 ^ 31" using assms(1) by (auto simp: ref_inv_def)
    then show "references p ?s < 2 ^ 31" unfolding rp by simp
    show "m_refCount ?s p = int (references p ?s)" unfolding rp by (simp add: t(1))
    show "deleted ?s = (if references p ?s = 0 \<and> p < next_object s then insert p (deleted s) else deleted s)"
      unfolding rp using t(2) p r by auto
    show "finite (dom (pointers ?s))" using assms(1) t(4) by (simp add: ref_inv_def)
  qed (use t hs in simp_all)
qed

lemma new_object_ok:
  assumes "ref_inv s"
  shows "ref_inv (new_RefCountable s)"
proof -
  have h: "holders p (new_RefCountable s) = holders p s" for p by (simp add: holders_def new_RefCountable_def)
  have r: "references p (new_RefCountable s) = (if p = next_object s then 1 else references p s)" for p
    unfolding references_def h using assms by (auto simp: new_RefCountable_def ref_inv_def)
  show ?thesis using assms unfolding ref_inv_def r h
    by (auto simp: new_RefCountable_def less_Suc_eq)
qed

lemma ref_step_inv: "ref_step s t \<Longrightarrow> ref_inv s \<Longrightarrow> ref_inv t"
proof (induction rule: ref_step.induct)
  case (ref_from x s p s')
  have "0 < references p s" using ref_from.hyps(2) by (simp add: references_def)
  with Ptr_from_ok[OF ref_from.prems ref_from.hyps(1), of "Some p"] ref_from.hyps show ?case by auto
next
  case (ref_copy x s y s')
  with Ptr_copy_ok[of s x y] show ?case by auto
next
  case (ref_move x s y)
  with move_ok[of s x y] show ?case by (auto simp: Ptr_move_def Let_def not_in_scope)
next
  case (ref_destroy x s s')
  with Ptr_destroy_ok[of s x] show ?case by auto
next
  case (ref_assign x s y s')
  with Ptr_assign_ok[of s x y] show ?case by auto
next
  case (ref_assign_move x s y s')
  with Ptr_assign_move_ok[of s x y] show ?case by auto
qed (blast intro: new_object_ok raw_add_ok raw_release_ok, blast intro: raw_add_ok, blast intro: raw_release_ok,
    simp add: Ptr_default_def not_in_scope fresh_ok(1))

interpretation counted: invariant_system "\<lambda>s. s = ref_start" ref_step ref_inv
proof
  show "\<And>s. s = ref_start \<Longrightarrow> ref_inv s" by (simp add: ref_inv_def ref_start_def references_def holders_def)
qed (rule ref_step_inv)

section \<open>Properties\<close>

text \<open>C38: Counting is exact. Whatever a program does with smart pointers that keeps to the rules, the
  counter of an object is the number of smart pointers to it and of counts held by hand, the object is
  deleted exactly when the last of them is gone, and no operation on a pointer in scope uses a deleted
  object: each of them returns.\<close>

theorem refcount_exact:
  assumes "reach (\<lambda>s. s = ref_start) ref_step s"
  shows "(\<forall>p < next_object s. (p \<in> deleted s \<longleftrightarrow> references p s = 0) \<and> (p \<in> deleted s \<or> m_refCount s p = int (references p s)))
    \<and> (\<forall>x y. in_scope x s \<and> in_scope y s \<longrightarrow>
        (\<exists>t. Ptr_destroy x s = Inr t) \<and> (\<exists>t. Ptr_assign_move x y s = Inr t)
        \<and> (count_room (m_ptr y s) s \<longrightarrow> (\<exists>t. Ptr_assign x y s = Inr t)))"
proof -
  have inv: "ref_inv s" using counted.reach_inv[OF assms] .
  then have "\<forall>p < next_object s. (p \<in> deleted s \<longleftrightarrow> references p s = 0) \<and> (p \<in> deleted s \<or> m_refCount s p = int (references p s))"
    unfolding ref_inv_def by blast
  with Ptr_destroy_ok[OF inv] Ptr_assign_move_ok[OF inv] Ptr_assign_ok[OF inv] show ?thesis by metis
qed

text \<open>An object in a smart pointer of its own: the first count is released by hand, as the pointer
  has added one, and the object lives until the pointer is gone.\<close>

definition wrapped :: ref_state where
  "wrapped = ref_start\<lparr>m_refCount := (\<lambda>_. 0)(0 := 1), next_object := 1, pointers := (\<lambda>_. None)(7 := Some (Some 0))\<rparr>"

definition shared_once :: "int \<Rightarrow> nat \<Rightarrow> ref_state" where
  "shared_once count hand = ref_start\<lparr>m_refCount := (\<lambda>_. 0)(0 := count), next_object := 1,
     pointers := (\<lambda>_. None)(7 := Some (Some 0)), raw := (\<lambda>_. 0)(0 := hand)\<rparr>"

lemma wrapped_reach: "reach (\<lambda>s. s = ref_start) ref_step wrapped"
proof -
  let ?s = "new_RefCountable ref_start"
  have "reach (\<lambda>s. s = ref_start) ref_step ref_start" by (rule reach_init) simp
  then have r1: "reach (\<lambda>s. s = ref_start) ref_step ?s" using ref_new by (rule reach_step)
  have "Ptr_from 7 (Some 0) ?s = Inr (shared_once 2 1)"
    by (simp add: Ptr_from_def Ptr_Set_def AddRef_def Let_def set_ptr_def new_RefCountable_def ref_start_def valid_object_def
        shared_once_def)
  moreover have "\<not> in_scope 7 ?s" "0 < raw ?s 0" "count_room (Some 0) ?s"
    by (simp_all add: in_scope_def new_RefCountable_def ref_start_def count_room_def)
  ultimately have "ref_step ?s (shared_once 2 1)" by (intro ref_from)
  with r1 have r2: "reach (\<lambda>s. s = ref_start) ref_step (shared_once 2 1)" by (rule reach_step)
  define t where "t = shared_once 1 1"
  have "ReleaseRef 0 (shared_once 2 1) = Inr (1, t)"
    by (simp add: ReleaseRef_def Let_def ref_start_def valid_object_def shared_once_def t_def)
  moreover have "0 < raw (shared_once 2 1) 0" by (simp add: shared_once_def)
  ultimately have "ref_step (shared_once 2 1) (t\<lparr>raw := (raw t)(0 := raw t 0 - 1)\<rparr>)" by (intro ref_raw_release)
  moreover have "t\<lparr>raw := (raw t)(0 := raw t 0 - 1)\<rparr> = wrapped"
    by (simp add: t_def shared_once_def wrapped_def ref_start_def fun_upd_idem)
  ultimately show ?thesis using reach_step[OF r2] by simp
qed

theorem refcount_exact_witness:
  "0 \<notin> deleted wrapped \<and> m_refCount wrapped 0 = int (references 0 wrapped) \<and> (\<exists>t. Ptr_destroy 7 wrapped = Inr t)"
proof -
  have "references 0 wrapped = 1"
    by (simp add: references_def holders_def wrapped_def ref_start_def)
  with refcount_exact[OF wrapped_reach] show ?thesis by (auto simp: wrapped_def ref_start_def in_scope_def)
qed

end
