(* ===== verification/Lock_Free_Stack.thy ===== *)
theory Lock_Free_Stack
  imports Server_Base
begin

text \<open>
  The stacks of GameServer/ConcurrentStack.h. LockStack is a list under a mutex. LockFreeStack is a
  linked list with an atomic head whose popped nodes are deleted only when no other thread can still
  look at them: m_popCount counts the threads inside TryPop, and what cannot be deleted yet waits in
  m_pendingList. Every access of an atomic or of a node is a step of its own, any number of threads
  run Push and TryPop, a weak exchange may fail for no reason, and new may return an address that was
  deleted before. The memory is sequentially consistent. Fewer than 2^31 threads keep the counter from
  wrapping around. The stack has static storage: its constructor leaves head and list as they are.
\<close>

section \<open>LockStack\<close>

definition LockStack_Push :: "'a \<Rightarrow> 'a list \<Rightarrow> 'a list" where
  "LockStack_Push v m_stack = v # m_stack"

definition LockStack_TryPop :: "'a list \<Rightarrow> 'a option \<times> 'a list" where
  "LockStack_TryPop m_stack = (case m_stack of [] \<Rightarrow> (None, m_stack) | v # rest \<Rightarrow> (Some v, rest))"

text \<open>WaitPop sleeps while the stack is empty: None is a thread that stays asleep.\<close>

definition LockStack_WaitPop :: "'a list \<Rightarrow> ('a \<times> 'a list) option" where
  "LockStack_WaitPop m_stack = (case m_stack of [] \<Rightarrow> None | v # rest \<Rightarrow> Some (v, rest))"

section \<open>LockFreeStack: its state\<close>

text \<open>What ChainPendingNodeList returns to: the deletion of the old head, or the decrement of the count.\<close>

datatype after = Then_delete nat | Then_decrement

datatype stack_pc =
    Outside
  | P_Load nat | P_Cas nat
  | T_Inc | T_Load | T_Test "nat option" | T_Cas nat "nat option" | T_Null | T_Data nat
  | D_Check nat | D_Xchg nat | D_Dec nat "nat option" | D_Nodes nat "nat option" | D_Del nat
  | L_Last nat nat nat | C_Store after nat nat | C_Cas after nat nat | C_Dec
  | Faulted fault

text \<open>What took effect, in its order: a push or a pop of a value by a thread.\<close>

datatype 'a stack_event = Pushed nat 'a | Popped nat 'a

record 'a lf_stack =
  m_head :: "nat option"
  m_popCount :: int
  m_pendingList :: "nat option"
  node_next :: "nat \<Rightarrow> nat option"
  node_data :: "nat \<Rightarrow> 'a"
  alive_nodes :: "nat set"
  history :: "'a stack_event list"

definition set_next :: "nat \<Rightarrow> nat option \<Rightarrow> 'a lf_stack \<Rightarrow> 'a lf_stack" where
  "set_next n p s = s\<lparr>node_next := (node_next s)(n := p)\<rparr>"

definition new_Node :: "nat \<Rightarrow> 'a \<Rightarrow> 'a lf_stack \<Rightarrow> 'a lf_stack" where
  "new_Node n v s = s\<lparr>alive_nodes := insert n (alive_nodes s), node_data := (node_data s)(n := v),
     node_next := (node_next s)(n := None)\<rparr>"

definition delete_Node :: "nat \<Rightarrow> 'a lf_stack \<Rightarrow> 'a lf_stack" where
  "delete_Node n s = s\<lparr>alive_nodes := alive_nodes s - {n}\<rparr>"

text \<open>A step that looks into a node, writes to it or deletes it.\<close>

definition touch :: "nat \<Rightarrow> 'a lf_stack \<Rightarrow> stack_pc \<times> 'a lf_stack \<Rightarrow> stack_pc \<times> 'a lf_stack" where
  "touch n s r = (if n \<in> alive_nodes s then r else (Faulted UseAfterFree, s))"

definition LockFreeStack :: "(nat \<Rightarrow> 'a) \<Rightarrow> 'a lf_stack" where
  "LockFreeStack d = \<lparr>m_head = None, m_popCount = 0, m_pendingList = None, node_next = (\<lambda>_. None), node_data = d,
     alive_nodes = {}, history = []\<rparr>"

section \<open>The operations of thread t\<close>

text \<open>The flag weak is a weak exchange that fails although the values are equal.\<close>

fun Stack_Push :: "nat \<Rightarrow> bool \<Rightarrow> stack_pc \<Rightarrow> 'a lf_stack \<Rightarrow> stack_pc \<times> 'a lf_stack" where
  "Stack_Push t weak (P_Load node) s = touch node s (P_Cas node, set_next node (m_head s) s)"
| "Stack_Push t weak (P_Cas node) s = touch node s
     (if m_head s = node_next s node \<and> \<not> weak
      then (Outside, s\<lparr>m_head := Some node, history := history s @ [Pushed t (node_data s node)]\<rparr>)
      else (P_Cas node, set_next node (m_head s) s))"
| "Stack_Push t weak pc s = (pc, s)"

fun Stack_TryPop :: "nat \<Rightarrow> bool \<Rightarrow> stack_pc \<Rightarrow> 'a lf_stack \<Rightarrow> stack_pc \<times> 'a lf_stack" where
  "Stack_TryPop t weak T_Inc s = (T_Load, s\<lparr>m_popCount := m_popCount s + 1\<rparr>)"
| "Stack_TryPop t weak T_Load s = (T_Test (m_head s), s)"
| "Stack_TryPop t weak (T_Test None) s = (T_Null, s)"
| "Stack_TryPop t weak (T_Test (Some oldHead)) s = touch oldHead s (T_Cas oldHead (node_next s oldHead), s)"
| "Stack_TryPop t weak (T_Cas oldHead next) s =
     (if m_head s = Some oldHead \<and> \<not> weak
      then (T_Data oldHead, s\<lparr>m_head := next, history := history s @ [Popped t (node_data s oldHead)]\<rparr>)
      else (T_Test (m_head s), s))"
| "Stack_TryPop t weak T_Null s = (Outside, s\<lparr>m_popCount := m_popCount s - 1\<rparr>)"
| "Stack_TryPop t weak (T_Data oldHead) s = touch oldHead s (D_Check oldHead, s)"
| "Stack_TryPop t weak pc s = (pc, s)"

fun TryDelete :: "stack_pc \<Rightarrow> 'a lf_stack \<Rightarrow> stack_pc \<times> 'a lf_stack" where
  "TryDelete (D_Check oldHead) s =
     (if m_popCount s = 1 then (D_Xchg oldHead, s) else (C_Store Then_decrement oldHead oldHead, s))"
| "TryDelete (D_Xchg oldHead) s = (D_Dec oldHead (m_pendingList s), s\<lparr>m_pendingList := None\<rparr>)"
| "TryDelete (D_Dec oldHead node) s =
     (let s' = s\<lparr>m_popCount := m_popCount s - 1\<rparr> in
      if m_popCount s' = 0 then (D_Nodes oldHead node, s')
      else case node of Some n \<Rightarrow> (L_Last oldHead n n, s') | None \<Rightarrow> (D_Del oldHead, s'))"
| "TryDelete (D_Del oldHead) s = touch oldHead s (Outside, delete_Node oldHead s)"
| "TryDelete C_Dec s = (Outside, s\<lparr>m_popCount := m_popCount s - 1\<rparr>)"
| "TryDelete pc s = (pc, s)"

fun DeleteNodes :: "stack_pc \<Rightarrow> 'a lf_stack \<Rightarrow> stack_pc \<times> 'a lf_stack" where
  "DeleteNodes (D_Nodes oldHead None) s = (D_Del oldHead, s)"
| "DeleteNodes (D_Nodes oldHead (Some node)) s = touch node s (D_Nodes oldHead (node_next s node), delete_Node node s)"
| "DeleteNodes pc s = (pc, s)"

definition chained :: "after \<Rightarrow> stack_pc" where
  "chained k = (case k of Then_delete h \<Rightarrow> D_Del h | Then_decrement \<Rightarrow> C_Dec)"

fun ChainPendingNodeList :: "bool \<Rightarrow> stack_pc \<Rightarrow> 'a lf_stack \<Rightarrow> stack_pc \<times> 'a lf_stack" where
  "ChainPendingNodeList weak (L_Last oldHead first end_node) s = touch end_node s
     (case node_next s end_node of
        Some n \<Rightarrow> (L_Last oldHead first n, s)
      | None \<Rightarrow> (C_Store (Then_delete oldHead) first end_node, s))"
| "ChainPendingNodeList weak (C_Store k first end_node) s = touch end_node s (C_Cas k first end_node, set_next end_node (m_pendingList s) s)"
| "ChainPendingNodeList weak (C_Cas k first end_node) s = touch end_node s
     (if m_pendingList s = node_next s end_node \<and> \<not> weak
      then (chained k, s\<lparr>m_pendingList := Some first\<rparr>)
      else (C_Cas k first end_node, set_next end_node (m_pendingList s) s))"
| "ChainPendingNodeList weak pc s = (pc, s)"

section \<open>Threads\<close>

record 'a lf_sys =
  lf :: "'a lf_stack"
  pcs :: "nat \<Rightarrow> stack_pc"

definition set_thread :: "nat \<Rightarrow> stack_pc \<times> 'a lf_stack \<Rightarrow> 'a lf_sys \<Rightarrow> 'a lf_sys" where
  "set_thread t r x = x\<lparr>lf := snd r, pcs := (pcs x)(t := fst r)\<rparr>"

text \<open>A step of one of N threads: a call begins (for Push with a node at any free address), or the
  operation a thread is in goes on.\<close>

inductive stack_step :: "nat \<Rightarrow> 'a lf_sys \<Rightarrow> 'a lf_sys \<Rightarrow> bool" for N where
  call_push: "t < N \<Longrightarrow> pcs x t = Outside \<Longrightarrow> node \<notin> alive_nodes (lf x) \<Longrightarrow>
    stack_step N x (set_thread t (P_Load node, new_Node node v (lf x)) x)"
| call_pop: "t < N \<Longrightarrow> pcs x t = Outside \<Longrightarrow> stack_step N x (set_thread t (T_Inc, lf x) x)"
| in_push: "t < N \<Longrightarrow> stack_step N x (set_thread t (Stack_Push t weak (pcs x t) (lf x)) x)"
| in_pop: "t < N \<Longrightarrow> stack_step N x (set_thread t (Stack_TryPop t weak (pcs x t) (lf x)) x)"
| in_delete: "t < N \<Longrightarrow> stack_step N x (set_thread t (TryDelete (pcs x t) (lf x)) x)"
| in_nodes: "t < N \<Longrightarrow> stack_step N x (set_thread t (DeleteNodes (pcs x t) (lf x)) x)"
| in_chain: "t < N \<Longrightarrow> stack_step N x (set_thread t (ChainPendingNodeList weak (pcs x t) (lf x)) x)"

definition stack_init :: "'a lf_sys \<Rightarrow> bool" where
  "stack_init x \<longleftrightarrow> (\<exists>d. x = \<lparr>lf = LockFreeStack d, pcs = (\<lambda>_. Outside)\<rparr>)"

end
