(* ===== verification/Lock_Free_Safety.thy ===== *)
theory Lock_Free_Safety
  imports Lock_Free_Stack
begin

text \<open>
  Why LockFreeStack is safe: at every moment each node that is alive is in the stack, in the pending
  list, or in the hands of exactly one thread, and a thread deletes only nodes that no other thread
  inside TryPop can have read from the head.
\<close>

section \<open>Chains of nodes\<close>

fun nodes_from :: "(nat \<Rightarrow> nat option) \<Rightarrow> nat option \<Rightarrow> nat list \<Rightarrow> bool" where
  "nodes_from nx p [] \<longleftrightarrow> p = None"
| "nodes_from nx p (a # xs) \<longleftrightarrow> p = Some a \<and> nodes_from nx (nx a) xs"

text \<open>The same, but from the first node to the last one only; what the last one points to is open.\<close>

fun path :: "(nat \<Rightarrow> nat option) \<Rightarrow> nat \<Rightarrow> nat list \<Rightarrow> nat \<Rightarrow> bool" where
  "path nx a [] z \<longleftrightarrow> False"
| "path nx a [b] z \<longleftrightarrow> a = b \<and> z = b"
| "path nx a (b # c # xs) z \<longleftrightarrow> a = b \<and> nx b = Some c \<and> path nx c (c # xs) z"

lemma nodes_from_cong: "(\<And>n. n \<in> set xs \<Longrightarrow> nx' n = nx n) \<Longrightarrow> nodes_from nx' p xs = nodes_from nx p xs"
  by (induction nx p xs rule: nodes_from.induct) auto

lemma nodes_from_upd [simp]: "n \<notin> set xs \<Longrightarrow> nodes_from (nx(n := q)) p xs = nodes_from nx p xs"
  by (rule nodes_from_cong) auto

lemma path_cong: "(\<And>n. n \<in> set xs \<Longrightarrow> nx' n = nx n) \<Longrightarrow> path nx' a xs z = path nx a xs z"
  by (induction nx a xs z rule: path.induct) auto

lemma nodes_from_None [simp]: "nodes_from nx None xs \<longleftrightarrow> xs = []"
  by (cases xs) auto

lemma nodes_from_Some: "nodes_from nx (Some a) xs \<longleftrightarrow> (\<exists>ys. xs = a # ys \<and> nodes_from nx (nx a) ys)"
  by (cases xs) auto

lemma path_end: "path nx a xs z \<Longrightarrow> z \<in> set xs \<and> a \<in> set xs"
  by (induction nx a xs z rule: path.induct) auto

lemma nodes_from_path: "nodes_from nx (Some a) xs \<Longrightarrow> z \<in> set xs \<Longrightarrow> nx z = None \<Longrightarrow> path nx a xs z"
  by (induction xs arbitrary: a rule: induct_list012) (auto simp: nodes_from_Some)

text \<open>Writing the next of the last node keeps the path, and a path that ends where a chain begins is one.\<close>

lemma path_upd_end: "path nx a xs z \<Longrightarrow> distinct xs \<Longrightarrow> path (nx(z := p)) a xs z"
  by (induction nx a xs z rule: path.induct) (auto dest: path_end)

lemma path_chain: "path nx a xs z \<Longrightarrow> nodes_from nx (nx z) ys \<Longrightarrow> nodes_from nx (Some a) (xs @ ys)"
  by (induction nx a xs z rule: path.induct) auto

lemma nodes_from_next: "nodes_from nx p xs \<Longrightarrow> z \<in> set xs \<Longrightarrow> nx z = Some n \<Longrightarrow> n \<in> set xs"
  by (induction nx p xs rule: nodes_from.induct) (auto simp: nodes_from_Some)

section \<open>What each thread has\<close>

text \<open>The nodes in the hands of a thread, in an order its program counter knows.\<close>

fun owns :: "(nat \<Rightarrow> nat option) \<Rightarrow> stack_pc \<Rightarrow> nat list \<Rightarrow> bool" where
  "owns nx (P_Load n) xs \<longleftrightarrow> xs = [n]"
| "owns nx (P_Cas n) xs \<longleftrightarrow> xs = [n]"
| "owns nx (T_Data h) xs \<longleftrightarrow> xs = [h]"
| "owns nx (D_Check h) xs \<longleftrightarrow> xs = [h]"
| "owns nx (D_Xchg h) xs \<longleftrightarrow> xs = [h]"
| "owns nx (D_Dec h node) xs \<longleftrightarrow> (\<exists>ys. xs = h # ys \<and> nodes_from nx node ys)"
| "owns nx (D_Nodes h node) xs \<longleftrightarrow> (\<exists>ys. xs = h # ys \<and> nodes_from nx node ys)"
| "owns nx (D_Del h) xs \<longleftrightarrow> xs = [h]"
| "owns nx (L_Last h a z) xs \<longleftrightarrow> (\<exists>ys. xs = h # ys \<and> nodes_from nx (Some a) ys \<and> z \<in> set ys)"
| "owns nx (C_Store (Then_delete h) a z) xs \<longleftrightarrow> (\<exists>ys. xs = h # ys \<and> path nx a ys z)"
| "owns nx (C_Store Then_decrement a z) xs \<longleftrightarrow> path nx a xs z"
| "owns nx (C_Cas (Then_delete h) a z) xs \<longleftrightarrow> (\<exists>ys. xs = h # ys \<and> path nx a ys z)"
| "owns nx (C_Cas Then_decrement a z) xs \<longleftrightarrow> path nx a xs z"
| "owns nx (Faulted f) xs \<longleftrightarrow> False"
| "owns nx pc xs \<longleftrightarrow> xs = []"

text \<open>Those of them that no other thread may have a pointer to: they are new, or about to be deleted.\<close>

fun secluded :: "stack_pc \<Rightarrow> nat list \<Rightarrow> nat set" where
  "secluded (P_Load n) xs = {n}"
| "secluded (P_Cas n) xs = {n}"
| "secluded (D_Xchg h) xs = {h}"
| "secluded (D_Dec h node) xs = {h}"
| "secluded (D_Nodes h node) xs = set xs"
| "secluded (D_Del h) xs = {h}"
| "secluded (L_Last h a z) xs = {h}"
| "secluded (C_Store (Then_delete h) a z) xs = {h}"
| "secluded (C_Cas (Then_delete h) a z) xs = {h}"
| "secluded pc xs = {}"

text \<open>The node a thread has read from the head and may look into, and the threads m_popCount counts.\<close>

fun looks_at :: "stack_pc \<Rightarrow> nat option" where
  "looks_at (T_Test p) = p"
| "looks_at (T_Cas h p) = Some h"
| "looks_at pc = None"

fun popping :: "stack_pc \<Rightarrow> bool" where
  "popping T_Load = True"
| "popping (T_Test p) = True"
| "popping (T_Cas h p) = True"
| "popping T_Null = True"
| "popping (T_Data h) = True"
| "popping (D_Check h) = True"
| "popping (D_Xchg h) = True"
| "popping (D_Dec h p) = True"
| "popping (C_Store Then_decrement a z) = True"
| "popping (C_Cas Then_decrement a z) = True"
| "popping C_Dec = True"
| "popping pc = False"

lemma secluded_owned: "owns nx pc xs \<Longrightarrow> secluded pc xs \<subseteq> set xs"
  by (cases "(nx, pc, xs)" rule: owns.cases) auto

lemma looks_counted: "looks_at pc = Some h \<Longrightarrow> popping pc"
  by (cases pc) auto

lemma owns_cong:
  assumes "\<And>n. n \<in> set xs \<Longrightarrow> nx' n = nx n"
  shows "owns nx' pc xs = owns nx pc xs"
proof -
  have whole: "path nx' a xs z = path nx a xs z" for a z using assms by (intro path_cong)
  show ?thesis
  proof (cases xs)
    case (Cons g ys)
    then have "nodes_from nx' p ys = nodes_from nx p ys" "path nx' a ys z = path nx a ys z" for p a z
      using assms by (auto intro!: nodes_from_cong path_cong)
    with Cons whole show ?thesis by (cases "(nx, pc, xs)" rule: owns.cases) auto
  qed (use whole in \<open>cases "(nx, pc, xs)" rule: owns.cases; auto\<close>)
qed

section \<open>The history\<close>

text \<open>The events replayed, one after the other, on a LockStack; None if a pop took what was not on top.\<close>

fun replay :: "'a stack_event list \<Rightarrow> 'a list \<Rightarrow> 'a list option" where
  "replay [] vs = Some vs"
| "replay (Pushed t v # es) vs = replay es (LockStack_Push v vs)"
| "replay (Popped t v # es) vs =
     (case LockStack_TryPop vs of
        (None, us) \<Rightarrow> None
      | (Some u, us) \<Rightarrow> if u = v then replay es us else None)"

lemma LockStack_simps [simp]:
  "LockStack_Push v vs = v # vs" "LockStack_TryPop [] = (None, [])" "LockStack_TryPop (v # vs) = (Some v, vs)"
  by (simp_all add: LockStack_Push_def LockStack_TryPop_def)

lemma replay_append: "replay (es @ fs) vs = (case replay es vs of None \<Rightarrow> None | Some us \<Rightarrow> replay fs us)"
  by (induction es vs rule: replay.induct) (auto split: prod.split option.split)

fun event_thread :: "'a stack_event \<Rightarrow> nat" where
  "event_thread (Pushed t v) = t"
| "event_thread (Popped t v) = t"

definition last_event :: "nat \<Rightarrow> 'a stack_event list \<Rightarrow> 'a stack_event option" where
  "last_event t es = List.find (\<lambda>e. event_thread e = t) (rev es)"

lemma last_event_append [simp]:
  "last_event t (es @ [e]) = (if event_thread e = t then Some e else last_event t es)"
  by (simp add: last_event_def)

section \<open>The invariant\<close>

datatype place = In_stack | In_pending | Owned nat

text \<open>
  The ghosts: where each node is, the two lists, and the nodes of each thread. Places make the lists
  disjoint from each other.
\<close>

definition lists_ok :: "'a lf_stack \<Rightarrow> (nat \<Rightarrow> place option) \<Rightarrow> nat list \<Rightarrow> nat list \<Rightarrow> bool" where
  "lists_ok s loc stk pend \<longleftrightarrow>
     distinct stk \<and> nodes_from (node_next s) (m_head s) stk \<and> set stk = {n. loc n = Some In_stack}
     \<and> distinct pend \<and> nodes_from (node_next s) (m_pendingList s) pend \<and> set pend = {n. loc n = Some In_pending}
     \<and> dom loc = alive_nodes s \<and> replay (history s) [] = Some (map (node_data s) stk)"

definition stack_thread_ok :: "'a lf_stack \<Rightarrow> (nat \<Rightarrow> place option) \<Rightarrow> nat \<Rightarrow> stack_pc \<Rightarrow> nat list \<Rightarrow> bool" where
  "stack_thread_ok s loc t pc xs \<longleftrightarrow>
     distinct xs \<and> owns (node_next s) pc xs \<and> set xs = {n. loc n = Some (Owned t)}
     \<and> (\<forall>h p. pc = T_Cas h p \<longrightarrow> loc h = Some In_stack \<longrightarrow> node_next s h = p)
     \<and> (\<forall>h. pc = T_Data h \<longrightarrow> last_event t (history s) = Some (Popped t (node_data s h)))"

definition refs_ok :: "'a lf_stack \<Rightarrow> (nat \<Rightarrow> stack_pc) \<Rightarrow> (nat \<Rightarrow> nat list) \<Rightarrow> bool" where
  "refs_ok s pc own \<longleftrightarrow> (\<forall>t h. looks_at (pc t) = Some h \<longrightarrow> h \<in> alive_nodes s \<and> (\<forall>u. h \<notin> secluded (pc u) (own u)))"

definition count_ok :: "nat \<Rightarrow> 'a lf_stack \<Rightarrow> (nat \<Rightarrow> stack_pc) \<Rightarrow> bool" where
  "count_ok N s pc \<longleftrightarrow> (\<forall>t \<ge> N. pc t = Outside) \<and> m_popCount s = int (card {t. popping (pc t)})"

definition lf_rel :: "nat \<Rightarrow> 'a lf_sys \<Rightarrow> (nat \<Rightarrow> place option) \<Rightarrow> nat list \<Rightarrow> nat list \<Rightarrow> (nat \<Rightarrow> nat list) \<Rightarrow> bool" where
  "lf_rel N x loc stk pend own \<longleftrightarrow>
     lists_ok (lf x) loc stk pend \<and> (\<forall>t. stack_thread_ok (lf x) loc t (pcs x t) (own t))
     \<and> refs_ok (lf x) (pcs x) own \<and> count_ok N (lf x) (pcs x)"

definition lf_inv :: "nat \<Rightarrow> 'a lf_sys \<Rightarrow> bool" where
  "lf_inv N x \<longleftrightarrow> (\<exists>loc stk pend own. lf_rel N x loc stk pend own)"

lemma lf_relD:
  assumes "lf_rel N x loc stk pend own"
  shows "lists_ok (lf x) loc stk pend" "stack_thread_ok (lf x) loc t (pcs x t) (own t)"
    "refs_ok (lf x) (pcs x) own" "count_ok N (lf x) (pcs x)"
  using assms by (simp_all add: lf_rel_def)

lemma finite_counted: "count_ok N s pc \<Longrightarrow> finite {t. popping (pc t)}"
  by (rule finite_subset[of _ "{..<N}"]) (auto simp: count_ok_def not_le[symmetric])

text \<open>The count when one thread moves on.\<close>

lemma count_move:
  assumes c: "count_ok N s pc" and t: "t < N"
    and m: "m_popCount s' = m_popCount s + (if popping p then 1 else 0) - (if popping (pc t) then 1 else 0)"
  shows "count_ok N s' (pc(t := p))"
proof -
  define C where "C = {u. popping (pc u)} - {t}"
  have f: "finite C" "t \<notin> C" using finite_counted[OF c] by (simp_all add: C_def)
  have "{u. popping ((pc(t := p)) u)} = (if popping p then insert t C else C)"
    "{u. popping (pc u)} = (if popping (pc t) then insert t C else C)" by (auto simp: C_def)
  moreover have "card (if b then insert t C else C) = (if b then Suc (card C) else card C)" for b using f by simp
  ultimately have "card {u. popping ((pc(t := p)) u)} = (if popping p then Suc (card C) else card C)"
    "card {u. popping (pc u)} = (if popping (pc t) then Suc (card C) else card C)" by metis+
  then show ?thesis using c t m by (auto simp: count_ok_def)
qed

section \<open>One thread moves\<close>

text \<open>
  What has to be shown for a step of thread t: the lists and the thread afterwards; that the nodes of
  the other threads are left to them, with their next; that what other threads look at stays alive and
  is not secluded to t now; and that a node of the stack keeps its next while others compare.
\<close>

lemma thread_move:
  assumes R: "lf_rel N x loc stk pend own" and t: "t < N"
    and L: "lists_ok s' loc' stk' pend'" and T: "stack_thread_ok s' loc' t p xs"
    and places: "\<And>n u. u \<noteq> t \<Longrightarrow> loc' n = Some (Owned u) \<longleftrightarrow> loc n = Some (Owned u)"
    and next_kept: "\<And>n u. u \<noteq> t \<Longrightarrow> loc n = Some (Owned u) \<Longrightarrow> node_next s' n = node_next (lf x) n \<and> node_data s' n = node_data (lf x) n"
    and stack_kept: "\<And>h. loc' h = Some In_stack \<Longrightarrow> h \<notin> secluded (pcs x t) (own t) \<Longrightarrow>
      h \<in> alive_nodes (lf x) \<Longrightarrow> loc h = Some In_stack \<and> node_next s' h = node_next (lf x) h"
    and others: "\<And>u h. u \<noteq> t \<Longrightarrow> looks_at (pcs x u) = Some h \<Longrightarrow> h \<in> alive_nodes s' \<and> h \<notin> secluded p xs"
    and mine: "\<And>h u. looks_at p = Some h \<Longrightarrow> h \<in> alive_nodes s' \<and> h \<notin> secluded p xs \<and> (u \<noteq> t \<longrightarrow> h \<notin> secluded (pcs x u) (own u))"
    and events: "\<And>u. u \<noteq> t \<Longrightarrow> last_event u (history s') = last_event u (history (lf x))"
    and cnt: "m_popCount s' = m_popCount (lf x) + (if popping p then 1 else 0) - (if popping (pcs x t) then 1 else 0)"
  shows "lf_rel N (set_thread t (p, s') x) loc' stk' pend' (own(t := xs))"
proof -
  have "stack_thread_ok s' loc' u (pcs x u) (own u)" if u: "u \<noteq> t" for u
  proof -
    have old: "stack_thread_ok (lf x) loc u (pcs x u) (own u)" using lf_relD(2)[OF R] .
    then have own: "set (own u) = {n. loc n = Some (Owned u)}" by (simp add: stack_thread_ok_def)
    then have "owns (node_next s') (pcs x u) (own u) = owns (node_next (lf x)) (pcs x u) (own u)"
      using next_kept[OF u] by (intro owns_cong) auto
    moreover have "node_next s' h = q" if "pcs x u = T_Cas h q" "loc' h = Some In_stack" for h q
    proof -
      have "looks_at (pcs x u) = Some h" using that(1) by simp
      then have "h \<in> alive_nodes (lf x)" "h \<notin> secluded (pcs x t) (own t)"
        using lf_relD(3)[OF R] unfolding refs_ok_def by blast+
      from stack_kept[OF that(2) this(2,1)] show ?thesis using old that(1) by (simp add: stack_thread_ok_def)
    qed
    moreover have "node_data s' h = node_data (lf x) h" if "pcs x u = T_Data h" for h
    proof -
      have "own u = [h]" using old that by (simp add: stack_thread_ok_def)
      then have "loc h = Some (Owned u)" using own by auto
      then show ?thesis using next_kept[OF u] by blast
    qed
    ultimately show ?thesis using old places[OF u] events[OF u] by (simp add: stack_thread_ok_def)
  qed
  moreover have "refs_ok s' ((pcs x)(t := p)) (own(t := xs))"
    using lf_relD(3)[OF R] others mine unfolding refs_ok_def by auto
  moreover have "count_ok N s' ((pcs x)(t := p))" using count_move[OF lf_relD(4)[OF R] t cnt] .
  ultimately show ?thesis using L T by (auto simp: lf_rel_def set_thread_def)
qed

text \<open>A step that changes nothing of the nodes and the lists, the count apart.\<close>

lemma quiet_move:
  assumes R: "lf_rel N x loc stk pend own" and t: "t < N"
    and s': "s' = (lf x)\<lparr>m_popCount := m_popCount (lf x) + (if popping p then 1 else 0) - (if popping (pcs x t) then 1 else 0)\<rparr>"
    and ow: "owns (node_next (lf x)) p (own t)"
    and cas: "\<And>h q. p = T_Cas h q \<Longrightarrow> node_next (lf x) h = q" and dat: "\<And>h. p \<noteq> T_Data h"
    and priv: "secluded p (own t) \<subseteq> secluded (pcs x t) (own t)
      \<or> (\<forall>u h. u \<noteq> t \<longrightarrow> looks_at (pcs x u) = Some h \<longrightarrow> h \<notin> secluded p (own t))"
    and mine: "\<And>h. looks_at p = Some h \<Longrightarrow> looks_at (pcs x t) = Some h \<or> loc h = Some In_stack"
  shows "lf_rel N (set_thread t (p, s') x) loc stk pend (own(t := own t))"
proof -
  have old: "stack_thread_ok (lf x) loc t (pcs x t) (own t)" and L: "lists_ok (lf x) loc stk pend"
    and C: "refs_ok (lf x) (pcs x) own" using lf_relD[OF R] by auto
  have own: "secluded (pcs x u) (own u) \<subseteq> {n. loc n = Some (Owned u)}" for u
    using lf_relD(2)[OF R, of u] secluded_owned unfolding stack_thread_ok_def by metis
  have dead: "secluded p (own t) = {}" if "looks_at p \<noteq> None" using that by (cases p) auto
  show ?thesis
  proof (rule thread_move[OF R t])
    show "lists_ok s' loc stk pend" using L s' by (simp add: lists_ok_def)
    show "stack_thread_ok s' loc t p (own t)" using old ow cas dat s' by (simp add: stack_thread_ok_def)
    show "h \<in> alive_nodes s' \<and> h \<notin> secluded p (own t)" if "u \<noteq> t" "looks_at (pcs x u) = Some h" for u h
      using C priv that s' unfolding refs_ok_def by auto
    show "h \<in> alive_nodes s' \<and> h \<notin> secluded p (own t) \<and> (u \<noteq> t \<longrightarrow> h \<notin> secluded (pcs x u) (own u))"
      if "looks_at p = Some h" for h u
    proof (cases "looks_at (pcs x t) = Some h")
      case True
      then show ?thesis using C s' dead that unfolding refs_ok_def by auto
    next
      case False
      then have "loc h = Some In_stack" using mine[OF that] by blast
      then have "h \<in> alive_nodes s'" "h \<notin> secluded (pcs x u) (own u)" using L own[of u] s' by (auto simp: lists_ok_def)
      then show ?thesis using dead that by auto
    qed
    show "loc h = Some In_stack \<and> node_next s' h = node_next (lf x) h" if "loc h = Some In_stack" for h
      using that s' by simp
  qed (use s' in simp_all)
qed

lemma lf_invI: "lf_rel N x loc stk pend own \<Longrightarrow> lf_inv N x"
  unfolding lf_inv_def by blast

lemma set_thread_same [simp]: "set_thread t (pcs x t, lf x) x = x"
  by (simp add: set_thread_def)

text \<open>The nodes a thread owns are alive, and its own.\<close>

lemma owned_alive:
  assumes "lf_rel N x loc stk pend own" and "n \<in> set (own t)"
  shows "n \<in> alive_nodes (lf x)" "loc n = Some (Owned t)" "n \<notin> set stk" "n \<notin> set pend"
proof -
  show l: "loc n = Some (Owned t)" using lf_relD(2)[OF assms(1), of t] assms(2) by (auto simp: stack_thread_ok_def)
  then show "n \<in> alive_nodes (lf x)" "n \<notin> set stk" "n \<notin> set pend"
    using lf_relD(1)[OF assms(1)] by (auto simp: lists_ok_def)
qed

lemma thread_owns:
  assumes "lf_rel N x loc stk pend own"
  shows "owns (node_next (lf x)) (pcs x t) (own t)" "distinct (own t)" "set (own t) = {n. loc n = Some (Owned t)}"
  using lf_relD(2)[OF assms, of t] by (simp_all add: stack_thread_ok_def)

text \<open>A thread that finds the count at one is the only one popping.\<close>

lemma alone:
  assumes "lf_rel N x loc stk pend own" and "m_popCount (lf x) = 1" and "popping (pcs x t)" and "u \<noteq> t"
  shows "looks_at (pcs x u) \<noteq> Some h"
proof -
  note c = lf_relD(4)[OF assms(1)]
  have "card {v. popping (pcs x v)} = 1" using c assms(2) by (simp add: count_ok_def)
  then obtain w where "{v. popping (pcs x v)} = {w}" by (rule card_1_singletonE)
  then have "\<not> popping (pcs x u)" using assms(3,4) by (metis mem_Collect_eq singletonD)
  then show ?thesis using looks_counted by blast
qed

text \<open>A thread writes the next of a node of its own.\<close>

lemma write_move:
  assumes R: "lf_rel N x loc stk pend own" and t: "t < N" and z: "z \<in> set (own t)"
    and ow: "owns ((node_next (lf x))(z := q)) p (own t)"
    and pc: "\<And>h r. p \<noteq> T_Cas h r" "\<And>h. p \<noteq> T_Data h" "looks_at p = None" "popping p = popping (pcs x t)"
    and priv: "secluded p (own t) \<subseteq> secluded (pcs x t) (own t)"
  shows "lf_inv N (set_thread t (p, set_next z q (lf x)) x)"
proof (rule lf_invI, rule thread_move[OF R t])
  note o = owned_alive[OF R z] and T = thread_owns[OF R, of t] and C = lf_relD(3)[OF R]
  show "lists_ok (set_next z q (lf x)) loc stk pend"
    using lf_relD(1)[OF R] nodes_from_upd[OF o(3)] nodes_from_upd[OF o(4)] by (simp add: lists_ok_def set_next_def)
  show "stack_thread_ok (set_next z q (lf x)) loc t p (own t)"
    using ow T pc(1,2) by (simp add: stack_thread_ok_def set_next_def)
  show "node_next (set_next z q (lf x)) n = node_next (lf x) n \<and> node_data (set_next z q (lf x)) n = node_data (lf x) n"
    if "u \<noteq> t" "loc n = Some (Owned u)" for n u using that o(2) by (auto simp: set_next_def)
  show "loc h = Some In_stack \<and> node_next (set_next z q (lf x)) h = node_next (lf x) h" if "loc h = Some In_stack" for h
    using that o(2) by (auto simp: set_next_def)
  show "h \<in> alive_nodes (set_next z q (lf x)) \<and> h \<notin> secluded p (own t)" if "looks_at (pcs x u) = Some h" for u h
    using C priv that unfolding refs_ok_def by (auto simp: set_next_def)
qed (use pc in \<open>simp_all add: set_next_def\<close>)

section \<open>Push\<close>

lemma push_begins:
  assumes R: "lf_rel N x loc stk pend own" and t: "t < N" and pc: "pcs x t = Outside" and n: "n \<notin> alive_nodes (lf x)"
  shows "lf_inv N (set_thread t (P_Load n, new_Node n v (lf x)) x)"
proof (rule lf_invI, rule thread_move[OF R t])
  let ?s = "new_Node n v (lf x)" and ?loc = "loc(n := Some (Owned t))"
  note L = lf_relD(1)[OF R] and T = thread_owns[OF R, of t] and C = lf_relD(3)[OF R]
  have l: "loc n = None" "n \<notin> set stk" "n \<notin> set pend" using L n by (auto simp: lists_ok_def)
  have "map ((node_data (lf x))(n := v)) stk = map (node_data (lf x)) stk" using l(2) by auto
  then show "lists_ok ?s ?loc stk pend"
    using L l(1) nodes_from_upd[OF l(2)] nodes_from_upd[OF l(3)] by (auto simp: lists_ok_def new_Node_def)
  have "own t = []" using T(1) pc by simp
  then show "stack_thread_ok ?s ?loc t (P_Load n) [n]" using T(3) by (auto simp: stack_thread_ok_def)
  show "?loc m = Some (Owned u) \<longleftrightarrow> loc m = Some (Owned u)" if "u \<noteq> t" for m u using that l(1) by auto
  show "node_next ?s m = node_next (lf x) m \<and> node_data ?s m = node_data (lf x) m"
    if "u \<noteq> t" "loc m = Some (Owned u)" for m u using that l(1) by (auto simp: new_Node_def)
  show "loc h = Some In_stack \<and> node_next ?s h = node_next (lf x) h" if "?loc h = Some In_stack" for h
    using that l(1) by (auto simp: new_Node_def split: if_splits)
  show "h \<in> alive_nodes ?s \<and> h \<notin> secluded (P_Load n) [n]" if "looks_at (pcs x u) = Some h" for u h
    using C that n unfolding refs_ok_def by (auto simp: new_Node_def)
qed (simp_all add: new_Node_def pc)

lemma push_done:
  assumes R: "lf_rel N x loc stk pend own" and t: "t < N" and pc: "pcs x t = P_Cas n"
    and eq: "m_head (lf x) = node_next (lf x) n"
  shows "lf_inv N (set_thread t (Outside, (lf x)\<lparr>m_head := Some n, history := history (lf x) @ [Pushed t (node_data (lf x) n)]\<rparr>) x)"
proof (rule lf_invI, rule thread_move[OF R t])
  let ?s = "(lf x)\<lparr>m_head := Some n, history := history (lf x) @ [Pushed t (node_data (lf x) n)]\<rparr>"
  let ?loc = "loc(n := Some In_stack)"
  note L = lf_relD(1)[OF R] and T = thread_owns[OF R, of t] and C = lf_relD(3)[OF R]
  have own: "own t = [n]" using T(1) pc by simp
  note o = owned_alive[OF R, of n t, unfolded own, simplified]
  have none: "loc m \<noteq> Some (Owned t)" if "m \<noteq> n" for m using T(3) own that by auto
  show "lists_ok ?s ?loc (n # stk) pend"
    using L o eq by (auto simp: lists_ok_def replay_append)
  show "stack_thread_ok ?s ?loc t Outside []" using none by (auto simp: stack_thread_ok_def)
  show "?loc m = Some (Owned u) \<longleftrightarrow> loc m = Some (Owned u)" if "u \<noteq> t" for m u using that o(2) by auto
  show "loc h = Some In_stack \<and> node_next ?s h = node_next (lf x) h"
    if "?loc h = Some In_stack" "h \<notin> secluded (pcs x t) (own t)" for h
    using that pc by (auto split: if_splits)
  show "h \<in> alive_nodes ?s \<and> h \<notin> secluded Outside []" if "looks_at (pcs x u) = Some h" for u h
    using C that unfolding refs_ok_def by simp
qed (simp_all add: pc)

lemma Stack_Push_inv:
  assumes R: "lf_rel N x loc stk pend own" and t: "t < N"
  shows "lf_inv N (set_thread t (Stack_Push t weak (pcs x t) (lf x)) x)"
proof -
  note T = thread_owns(1)[OF R, of t]
  have touched: "touch n (lf x) r = r" if "own t = [n]" for n r
    using owned_alive(1)[OF R, of n t] that by (simp add: touch_def)
  consider (load) n where "pcs x t = P_Load n" | (cas) n where "pcs x t = P_Cas n"
    | (other) "Stack_Push t weak (pcs x t) (lf x) = (pcs x t, lf x)" by (cases "pcs x t") auto
  then show ?thesis
  proof cases
    case (load n)
    then have own: "own t = [n]" using T by simp
    show ?thesis using load by (simp add: touched[OF own]) (rule write_move[OF R t]; simp add: own)
  next
    case (cas n)
    then have own: "own t = [n]" using T by simp
    show ?thesis
    proof (cases "m_head (lf x) = node_next (lf x) n \<and> \<not> weak")
      case True
      then show ?thesis using cas push_done[OF R t cas] by (simp add: touched[OF own])
    next
      case False
      then have "Stack_Push t weak (pcs x t) (lf x) = (P_Cas n, set_next n (m_head (lf x)) (lf x))"
        using cas by (simp add: touched[OF own])
      then show ?thesis by (simp only:) (rule write_move[OF R t]; simp add: own cas)
    qed
  next
    case other
    then show ?thesis using lf_invI[OF R] by simp
  qed
qed

section \<open>TryPop\<close>

lemma pop_done:
  assumes R: "lf_rel N x loc stk pend own" and t: "t < N" and pc: "pcs x t = T_Cas h q" and eq: "m_head (lf x) = Some h"
  shows "lf_inv N (set_thread t (T_Data h, (lf x)\<lparr>m_head := q, history := history (lf x) @ [Popped t (node_data (lf x) h)]\<rparr>) x)"
proof -
  let ?s = "(lf x)\<lparr>m_head := q, history := history (lf x) @ [Popped t (node_data (lf x) h)]\<rparr>"
  let ?loc = "loc(h := Some (Owned t))"
  note L = lf_relD(1)[OF R] and T = thread_owns[OF R, of t] and C = lf_relD(3)[OF R]
  obtain ys where stk: "stk = h # ys" "nodes_from (node_next (lf x)) (node_next (lf x) h) ys"
    using L eq by (auto simp: lists_ok_def nodes_from_Some)
  have l: "loc h = Some In_stack" using L stk(1) by (auto simp: lists_ok_def)
  then have q: "node_next (lf x) h = q" using lf_relD(2)[OF R, of t] pc by (simp add: stack_thread_ok_def)
  have own: "own t = []" using T(1) pc by simp
  have "lf_rel N (set_thread t (T_Data h, ?s) x) ?loc ys pend (own(t := [h]))"
  proof (rule thread_move[OF R t])
    have "set ys = {n. ?loc n = Some In_stack}" using L stk(1) by (auto simp: lists_ok_def)
    then show "lists_ok ?s ?loc ys pend"
      using L l stk q by (auto simp: lists_ok_def replay_append)
    show "stack_thread_ok ?s ?loc t (T_Data h) [h]" using own T(3) by (auto simp: stack_thread_ok_def)
    show "?loc m = Some (Owned u) \<longleftrightarrow> loc m = Some (Owned u)" if "u \<noteq> t" for m u using that l by auto
    show "loc g = Some In_stack \<and> node_next ?s g = node_next (lf x) g" if "?loc g = Some In_stack" for g
      using that by (auto split: if_splits)
    show "g \<in> alive_nodes ?s \<and> g \<notin> secluded (T_Data h) [h]" if "looks_at (pcs x u) = Some g" for u g
      using C that unfolding refs_ok_def by simp
  qed (simp_all add: pc)
  then show ?thesis by (rule lf_invI)
qed

lemma head_in_stack:
  assumes "lf_rel N x loc stk pend own" and "m_head (lf x) = Some h"
  shows "loc h = Some In_stack"
  using lf_relD(1)[OF assms(1)] assms(2) by (auto simp: lists_ok_def nodes_from_Some)

lemma quiet_inv:
  assumes "lf_rel N x loc stk pend own" and "t < N"
    and "s' = (lf x)\<lparr>m_popCount := m_popCount (lf x) + (if popping p then 1 else 0) - (if popping (pcs x t) then 1 else 0)\<rparr>"
    and "owns (node_next (lf x)) p (own t)"
    and "\<And>h q. p = T_Cas h q \<Longrightarrow> node_next (lf x) h = q" and "\<And>h. p \<noteq> T_Data h"
    and "secluded p (own t) \<subseteq> secluded (pcs x t) (own t)
      \<or> (\<forall>u h. u \<noteq> t \<longrightarrow> looks_at (pcs x u) = Some h \<longrightarrow> h \<notin> secluded p (own t))"
    and "\<And>h. looks_at p = Some h \<Longrightarrow> looks_at (pcs x t) = Some h \<or> loc h = Some In_stack"
  shows "lf_inv N (set_thread t (p, s') x)"
  by (rule lf_invI, rule quiet_move[OF assms])

lemma Stack_TryPop_inv:
  assumes R: "lf_rel N x loc stk pend own" and t: "t < N"
  shows "lf_inv N (set_thread t (Stack_TryPop t weak (pcs x t) (lf x)) x)"
proof -
  note T = thread_owns(1)[OF R, of t] and quiet = quiet_inv[OF R t]
  have looked: "touch h (lf x) r = r" if "looks_at (pcs x t) = Some h" for h r
    using lf_relD(3)[OF R] that unfolding refs_ok_def touch_def by auto
  note head = head_in_stack[OF R]
  show ?thesis
  proof (cases "pcs x t")
    case T_Inc
    then show ?thesis using T by simp (rule quiet; simp)
  next
    case T_Load
    then show ?thesis using T by simp (rule quiet; simp add: head)
  next
    case (T_Test p)
    then show ?thesis
    proof (cases p)
      case (Some h)
      then show ?thesis using T T_Test by (simp add: looked) (rule quiet; simp)
    next
      case None
      then show ?thesis using T T_Test by simp (rule quiet; simp)
    qed
  next
    case (T_Cas h q)
    show ?thesis
    proof (cases "m_head (lf x) = Some h \<and> \<not> weak")
      case True
      then show ?thesis using pop_done[OF R t T_Cas] T_Cas by simp
    next
      case False
      then have "Stack_TryPop t weak (pcs x t) (lf x) = (T_Test (m_head (lf x)), lf x)" using T_Cas by auto
      then show ?thesis using T T_Cas by (simp only:) (rule quiet; simp add: head)
    qed
  next
    case T_Null
    then show ?thesis using T by simp (rule quiet; simp)
  next
    case (T_Data h)
    then have "touch h (lf x) r = r" for r using T owned_alive(1)[OF R, of h t] by (simp add: touch_def)
    then show ?thesis using T T_Data by simp (rule quiet; simp)
  qed (use lf_invI[OF R] set_thread_same[of t x] in simp_all)
qed

section \<open>TryDelete\<close>

text \<open>The whole pending list comes into the hands of the thread.\<close>

lemma take_pending:
  assumes R: "lf_rel N x loc stk pend own" and t: "t < N" and pc: "pcs x t = D_Xchg h"
  shows "lf_inv N (set_thread t (D_Dec h (m_pendingList (lf x)), (lf x)\<lparr>m_pendingList := None\<rparr>) x)"
proof -
  let ?s = "(lf x)\<lparr>m_pendingList := None\<rparr>"
  let ?loc = "\<lambda>n. if loc n = Some In_pending then Some (Owned t) else loc n"
  note L = lf_relD(1)[OF R] and T = thread_owns[OF R, of t] and C = lf_relD(3)[OF R]
  have own: "own t = [h]" using T(1) pc by simp
  note o = owned_alive[OF R, of h t, unfolded own, simplified]
  have "lf_rel N (set_thread t (D_Dec h (m_pendingList (lf x)), ?s) x) ?loc stk [] (own(t := h # pend))"
  proof (rule thread_move[OF R t])
    show "lists_ok ?s ?loc stk []" using L by (auto simp: lists_ok_def dom_def)
    show "stack_thread_ok ?s ?loc t (D_Dec h (m_pendingList (lf x))) (h # pend)"
      using L T(3) own o(4) by (auto simp: stack_thread_ok_def lists_ok_def)
    show "?loc m = Some (Owned u) \<longleftrightarrow> loc m = Some (Owned u)" if "u \<noteq> t" for m u using that by auto
    show "loc g = Some In_stack \<and> node_next ?s g = node_next (lf x) g" if "?loc g = Some In_stack" for g
      using that by (simp split: if_splits)
    show "g \<in> alive_nodes ?s \<and> g \<notin> secluded (D_Dec h (m_pendingList (lf x))) (h # pend)" if "looks_at (pcs x u) = Some g" for u g
      using C that pc unfolding refs_ok_def by (metis lf_stack.select_convs(6) lf_stack.surjective lf_stack.update_convs(3) secluded.simps(3,4))
  qed (simp_all add: pc)
  then show ?thesis by (rule lf_invI)
qed

text \<open>A thread deletes a node of its own that nobody else can look at.\<close>

lemma delete_move:
  assumes R: "lf_rel N x loc stk pend own" and t: "t < N" and n: "n \<in> set (own t)" "n \<in> secluded (pcs x t) (own t)"
    and ow: "owns (node_next (lf x)) p (removeAll n (own t))"
    and pc: "\<And>h r. p \<noteq> T_Cas h r" "\<And>h. p \<noteq> T_Data h" "looks_at p = None" "popping p = popping (pcs x t)"
    and priv: "secluded p (removeAll n (own t)) \<subseteq> secluded (pcs x t) (own t)"
  shows "lf_inv N (set_thread t (p, delete_Node n (lf x)) x)"
proof -
  let ?s = "delete_Node n (lf x)" and ?loc = "loc(n := None)"
  note L = lf_relD(1)[OF R] and T = thread_owns[OF R, of t] and C = lf_relD(3)[OF R] and o = owned_alive[OF R n(1)]
  have "lf_rel N (set_thread t (p, ?s) x) ?loc stk pend (own(t := removeAll n (own t)))"
  proof (rule thread_move[OF R t])
    show "lists_ok ?s ?loc stk pend" using L o by (auto simp: lists_ok_def delete_Node_def)
    show "stack_thread_ok ?s ?loc t p (removeAll n (own t))"
      using ow T pc(1,2) by (auto simp: stack_thread_ok_def delete_Node_def distinct_removeAll)
    show "?loc m = Some (Owned u) \<longleftrightarrow> loc m = Some (Owned u)" if "u \<noteq> t" for m u using that o(2) by auto
    show "loc g = Some In_stack \<and> node_next ?s g = node_next (lf x) g" if "?loc g = Some In_stack" for g
      using that by (simp add: delete_Node_def split: if_splits)
    show "g \<in> alive_nodes ?s \<and> g \<notin> secluded p (removeAll n (own t))" if "looks_at (pcs x u) = Some g" for u g
      using C that n(2) priv unfolding refs_ok_def by (auto simp: delete_Node_def)
  qed (simp_all add: delete_Node_def pc)
  then show ?thesis by (rule lf_invI)
qed

lemma TryDelete_inv:
  assumes R: "lf_rel N x loc stk pend own" and t: "t < N"
  shows "lf_inv N (set_thread t (TryDelete (pcs x t) (lf x)) x)"
proof -
  note T = thread_owns(1)[OF R, of t] and quiet = quiet_inv[OF R t]
  show ?thesis
  proof (cases "pcs x t")
    case (D_Check h)
    have only: "looks_at (pcs x u) \<noteq> Some g" if "m_popCount (lf x) = 1" "u \<noteq> t" for u g
      using alone[OF R that(1) _ that(2)] D_Check by simp
    show ?thesis using T D_Check only by simp (intro conjI impI; rule quiet; simp)
  next
    case (D_Xchg h)
    then show ?thesis using take_pending[OF R t D_Xchg] by simp
  next
    case (D_Dec h node)
    have only: "looks_at (pcs x u) \<noteq> Some g" if "m_popCount (lf x) = 1" "u \<noteq> t" for u g
      using alone[OF R that(1) _ that(2)] D_Dec by simp
    consider (zero) "m_popCount (lf x) = 1" | (nodes_from) n where "m_popCount (lf x) \<noteq> 1" "node = Some n"
      | (none) "m_popCount (lf x) \<noteq> 1" "node = None" by (cases node) auto
    then show ?thesis
    proof cases
      case zero
      then show ?thesis using T D_Dec only by (simp add: Let_def) (rule quiet; simp)
    next
      case (nodes_from n)
      then show ?thesis using T D_Dec by (simp add: Let_def) (rule quiet; auto simp: nodes_from_Some)
    next
      case none
      then show ?thesis using T D_Dec by (simp add: Let_def) (rule quiet; simp)
    qed
  next
    case (D_Del h)
    then have own: "own t = [h]" using T by simp
    then have "touch h (lf x) r = r" for r using owned_alive(1)[OF R, of h t] by (simp add: touch_def)
    then show ?thesis using D_Del by simp (rule delete_move[OF R t]; simp add: own)
  next
    case C_Dec
    then show ?thesis using T by simp (rule quiet; simp)
  qed (use lf_invI[OF R] set_thread_same[of t x] in simp_all)
qed

lemma DeleteNodes_inv:
  assumes R: "lf_rel N x loc stk pend own" and t: "t < N"
  shows "lf_inv N (set_thread t (DeleteNodes (pcs x t) (lf x)) x)"
proof -
  note T = thread_owns[OF R, of t]
  consider (done_all) h where "pcs x t = D_Nodes h None" | (node) h n where "pcs x t = D_Nodes h (Some n)"
    | (other) "DeleteNodes (pcs x t) (lf x) = (pcs x t, lf x)"
    by (cases "(pcs x t, lf x)" rule: DeleteNodes.cases) auto
  then show ?thesis
  proof cases
    case (done_all h)
    then show ?thesis using T by simp (rule quiet_inv[OF R t]; simp)
  next
    case (node h n)
    then obtain ys where own: "own t = h # n # ys" "nodes_from (node_next (lf x)) (node_next (lf x) n) ys"
      using T(1) by (auto simp: nodes_from_Some)
    then have "removeAll n (own t) = h # ys" using T(2) by (auto intro: removeAll_id)
    moreover have "touch n (lf x) r = r" for r using owned_alive(1)[OF R, of n t] own by (simp add: touch_def)
    ultimately show ?thesis using node own by simp (rule delete_move[OF R t]; auto)
  next
    case other
    then show ?thesis using lf_invI[OF R] by simp
  qed
qed

section \<open>The pending list\<close>

lemma nodes_from_done:
  assumes R: "lf_rel N x loc stk pend own" and t: "t < N" and pc: "pcs x t = C_Cas k a z"
    and eq: "m_pendingList (lf x) = node_next (lf x) z"
  shows "lf_inv N (set_thread t (chained k, (lf x)\<lparr>m_pendingList := Some a\<rparr>) x)"
proof -
  let ?s = "(lf x)\<lparr>m_pendingList := Some a\<rparr>"
  note L = lf_relD(1)[OF R] and T = thread_owns[OF R, of t] and C = lf_relD(3)[OF R]
  define ys where "ys = (case k of Then_delete h \<Rightarrow> tl (own t) | Then_decrement \<Rightarrow> own t)"
  define xs where "xs = (case k of Then_delete h \<Rightarrow> [h] | Then_decrement \<Rightarrow> [])"
  have ys: "path (node_next (lf x)) a ys z" "own t = xs @ ys" using T(1) pc by (auto simp: ys_def xs_def split: after.splits)
  let ?loc = "\<lambda>n. if n \<in> set ys then Some In_pending else loc n"
  have y: "loc n = Some (Owned t)" if "n \<in> set ys" for n using that T(3) ys(2) by auto
  have "nodes_from (node_next (lf x)) (Some a) (ys @ pend)"
    using path_chain[OF ys(1)] L eq by (simp add: lists_ok_def)
  moreover have "distinct (ys @ pend)" using T(2) ys(2) L y by (auto simp: lists_ok_def)
  ultimately have l: "lists_ok ?s ?loc stk (ys @ pend)" using L y by (auto simp: lists_ok_def dom_def)
  have "lf_rel N (set_thread t (chained k, ?s) x) ?loc stk (ys @ pend) (own(t := xs))"
  proof (rule thread_move[OF R t l])
    have "set xs = {n. loc n = Some (Owned t) \<and> n \<notin> set ys}" using T(2,3) ys(2) by auto
    then have "set xs = {n. ?loc n = Some (Owned t)}" by auto
    moreover have "owns (node_next (lf x)) (chained k) xs" by (simp add: chained_def xs_def split: after.split)
    ultimately show "stack_thread_ok ?s ?loc t (chained k) xs"
      using T(2) ys(2) by (simp add: stack_thread_ok_def) (simp add: chained_def split: after.split)
    show "?loc m = Some (Owned u) \<longleftrightarrow> loc m = Some (Owned u)" if "u \<noteq> t" for m u using that y by auto
    show "loc g = Some In_stack \<and> node_next ?s g = node_next (lf x) g" if "?loc g = Some In_stack" for g
      using that by (simp split: if_splits)
    have "secluded (chained k) xs = secluded (pcs x t) (own t)" by (simp add: pc chained_def split: after.split)
    then show "g \<in> alive_nodes ?s \<and> g \<notin> secluded (chained k) xs" if "looks_at (pcs x u) = Some g" for u g
      using C that unfolding refs_ok_def by simp
    have "looks_at (chained k) = None" by (simp add: chained_def split: after.split)
    then show "g \<in> alive_nodes ?s \<and> g \<notin> secluded (chained k) xs \<and> (u \<noteq> t \<longrightarrow> g \<notin> secluded (pcs x u) (own u))"
      if "looks_at (chained k) = Some g" for g u using that by simp
    have "popping (chained k) = popping (pcs x t)" by (simp add: pc chained_def split: after.split)
    then show "m_popCount ?s = m_popCount (lf x) + (if popping (chained k) then 1 else 0) - (if popping (pcs x t) then 1 else 0)"
      by simp
  qed simp_all
  then show ?thesis by (rule lf_invI)
qed

lemma ChainPendingNodeList_inv:
  assumes R: "lf_rel N x loc stk pend own" and t: "t < N"
  shows "lf_inv N (set_thread t (ChainPendingNodeList weak (pcs x t) (lf x)) x)"
proof -
  note T = thread_owns[OF R, of t]
  have touched: "touch n (lf x) r = r" if "n \<in> set (own t)" for n r
    using owned_alive(1)[OF R that] by (simp add: touch_def)
  have wr: "owns ((node_next (lf x))(z := q)) (C_Cas k a z) (own t) \<and> z \<in> set (own t)"
    if "pcs x t = C_Store k a z \<or> pcs x t = C_Cas k a z" for k a z q
  proof (cases k)
    case (Then_delete h)
    from that Then_delete have "owns (node_next (lf x)) (C_Store (Then_delete h) a z) (own t)" using T(1) by auto
    then obtain ys where ys: "own t = h # ys" "path (node_next (lf x)) a ys z" "distinct ys" using T(2) by auto
    then show ?thesis using Then_delete path_upd_end[OF ys(2,3)] path_end[OF ys(2)] by simp
  next
    case Then_decrement
    with that have ys: "path (node_next (lf x)) a (own t) z" using T(1) by auto
    then show ?thesis using Then_decrement path_upd_end[OF ys T(2)] path_end[OF ys] by simp
  qed
  show ?thesis
  proof (cases "pcs x t")
    case (L_Last h a z)
    then obtain ys where ys: "own t = h # ys" "nodes_from (node_next (lf x)) (Some a) ys" "z \<in> set ys" using T(1) by auto
    then have z: "touch z (lf x) r = r" for r using touched by simp
    show ?thesis
    proof (cases "node_next (lf x) z")
      case None
      then show ?thesis using L_Last ys nodes_from_path[OF ys(2,3)] by (simp add: z) (rule quiet_inv[OF R t]; simp)
    next
      case (Some n)
      then show ?thesis using L_Last ys nodes_from_next[OF ys(2,3)] by (simp add: z) (rule quiet_inv[OF R t]; simp)
    qed
  next
    case (C_Store k a z)
    then have "ChainPendingNodeList weak (pcs x t) (lf x) = (C_Cas k a z, set_next z (m_pendingList (lf x)) (lf x))"
      using wr touched by simp
    moreover have w: "owns ((node_next (lf x))(z := q)) (C_Cas k a z) (own t)" "z \<in> set (own t)" for q using wr C_Store by blast+
    ultimately show ?thesis using C_Store by (simp only:) (rule write_move[OF R t w(2,1)]; cases k; simp)
  next
    case (C_Cas k a z)
    then have z: "touch z (lf x) r = r" for r using wr touched by simp
    show ?thesis
    proof (cases "m_pendingList (lf x) = node_next (lf x) z \<and> \<not> weak")
      case True
      then show ?thesis using nodes_from_done[OF R t C_Cas] C_Cas by (simp add: z)
    next
      case False
      then have "ChainPendingNodeList weak (pcs x t) (lf x) = (C_Cas k a z, set_next z (m_pendingList (lf x)) (lf x))"
        using C_Cas by (auto simp: z)
      moreover have w: "owns ((node_next (lf x))(z := q)) (C_Cas k a z) (own t)" "z \<in> set (own t)" for q using wr C_Cas by blast+
    ultimately show ?thesis using C_Cas by (simp only:) (rule write_move[OF R t w(2,1)]; cases k; simp)
    qed
  qed (use lf_invI[OF R] set_thread_same[of t x] in simp_all)
qed

section \<open>Every reachable state\<close>

lemma stack_step_inv: "lf_inv N x \<Longrightarrow> stack_step N x y \<Longrightarrow> lf_inv N y"
proof (erule stack_step.cases)
  fix t z n v
  assume a: "lf_inv N x" "x = z" "y = set_thread t (P_Load n, new_Node n v (lf z)) z" "t < N" "pcs z t = Outside" "n \<notin> alive_nodes (lf z)"
  then obtain loc stk pend own where R: "lf_rel N z loc stk pend own" by (auto simp: lf_inv_def)
  show "lf_inv N y" unfolding a(3) by (rule push_begins[OF R a(4-6)])
next
  fix t z assume a: "lf_inv N x" "x = z" "y = set_thread t (T_Inc, lf z) z" "t < N" "pcs z t = Outside"
  then obtain loc stk pend own where R: "lf_rel N z loc stk pend own" by (auto simp: lf_inv_def)
  have own: "own t = []" using thread_owns(1)[OF R, of t] a(5) by simp
  show "lf_inv N y" unfolding a(3) by (rule quiet_inv[OF R a(4)]) (simp_all add: a(5) own)
qed (unfold lf_inv_def[of N x], blast intro: Stack_Push_inv, blast intro: Stack_TryPop_inv, blast intro: TryDelete_inv,
    blast intro: DeleteNodes_inv, blast intro: ChainPendingNodeList_inv)

lemma stack_init_inv:
  assumes "stack_init x"
  shows "lf_inv N x"
proof (rule lf_invI)
  show "lf_rel N x (\<lambda>_. None) [] [] (\<lambda>_. [])"
    using assms by (auto simp: stack_init_def lf_rel_def lists_ok_def stack_thread_ok_def refs_ok_def count_ok_def LockFreeStack_def)
qed

interpretation lock_free: invariant_system stack_init "stack_step N" "lf_inv N" for N
  by unfold_locales (rule stack_init_inv, assumption, rule stack_step_inv)

text \<open>One thread pushes a value and takes it again, up to the moment before it reads the value.\<close>

definition pushed_one :: "'a \<Rightarrow> 'a lf_sys" where
  "pushed_one v = (let x0 = \<lparr>lf = LockFreeStack (\<lambda>_. v), pcs = (\<lambda>_. Outside)\<rparr>;
     x1 = set_thread 0 (P_Load 5, new_Node 5 v (lf x0)) x0;
     x2 = set_thread 0 (Stack_Push 0 False (pcs x1 0) (lf x1)) x1
   in set_thread 0 (Stack_Push 0 False (pcs x2 0) (lf x2)) x2)"

definition taken_one :: "'a \<Rightarrow> 'a lf_sys" where
  "taken_one v = (let x0 = pushed_one v; x1 = set_thread 0 (T_Inc, lf x0) x0;
     x2 = set_thread 0 (Stack_TryPop 0 False (pcs x1 0) (lf x1)) x1;
     x3 = set_thread 0 (Stack_TryPop 0 False (pcs x2 0) (lf x2)) x2;
     x4 = set_thread 0 (Stack_TryPop 0 False (pcs x3 0) (lf x3)) x3
   in set_thread 0 (Stack_TryPop 0 False (pcs x4 0) (lf x4)) x4)"

lemma reach_steps:
  assumes "reach I (stack_step N) x" and "t < N"
  shows "reach I (stack_step N) (set_thread t (Stack_Push t weak (pcs x t) (lf x)) x)"
    and "reach I (stack_step N) (set_thread t (Stack_TryPop t weak (pcs x t) (lf x)) x)"
    and "pcs x t = Outside \<Longrightarrow> reach I (stack_step N) (set_thread t (T_Inc, lf x) x)"
    and "pcs x t = Outside \<Longrightarrow> n \<notin> alive_nodes (lf x) \<Longrightarrow> reach I (stack_step N) (set_thread t (P_Load n, new_Node n v (lf x)) x)"
  using assms by (blast intro: reach_step stack_step.intros)+

lemma pushed_one_reach: "reach stack_init (stack_step 1) (pushed_one v)"
  unfolding pushed_one_def Let_def
  by (intro reach_steps(1,4) reach_init) (auto simp: stack_init_def LockFreeStack_def)

lemma pushed_one_simps:
  "pcs (pushed_one v) t = Outside" "m_head (lf (pushed_one v)) = Some 5" "m_popCount (lf (pushed_one v)) = 0"
  "m_pendingList (lf (pushed_one v)) = None" "node_next (lf (pushed_one v)) = (\<lambda>_. None)"
  "node_data (lf (pushed_one v)) = (\<lambda>_. v)" "alive_nodes (lf (pushed_one v)) = {5}"
  "history (lf (pushed_one v)) = [Pushed 0 v]"
  by (simp_all add: pushed_one_def Let_def set_thread_def LockFreeStack_def new_Node_def touch_def set_next_def fun_eq_iff)

lemma taken_one_reach: "reach stack_init (stack_step 1) (taken_one v)"
  unfolding taken_one_def Let_def
  by (intro reach_steps(2,3) pushed_one_reach) (simp_all add: pushed_one_simps)

lemma taken_one_simps: "pcs (taken_one v) 0 = T_Data 5" "history (lf (taken_one v)) = [Pushed 0 v, Popped 0 v]"
  "node_data (lf (taken_one v)) = (\<lambda>_. v)" "m_head (lf (taken_one v)) = None"
  by (simp_all add: taken_one_def Let_def set_thread_def touch_def pushed_one_simps)

section \<open>Properties\<close>

text \<open>C9: No thread touches a deleted node. Under every interleaving of any number of threads in Push
  and TryPop, with addresses that new gives out again and weak exchanges that fail for no reason, no
  step reads, writes or deletes a node that has been deleted; so the exchange on the head never takes a
  node for another one at the same address, and no node is deleted twice.\<close>

theorem no_use_after_delete:
  assumes "reach stack_init (stack_step N) x"
  shows "pcs x t \<noteq> Faulted f"
proof -
  obtain loc stk pend own where R: "lf_rel N x loc stk pend own"
    using lock_free.reach_inv[OF assms] by (auto simp: lf_inv_def)
  show ?thesis using thread_owns(1)[OF R, of t] by (cases "pcs x t") auto
qed

theorem no_use_after_delete_witness: "pcs (taken_one ''a'') 0 \<noteq> Faulted UseAfterFree \<and> pcs (taken_one ''a'') 0 = T_Data 5"
  using no_use_after_delete[OF taken_one_reach] by (simp add: taken_one_simps)

text \<open>C23: The lock-free stack refines the locked one. In every reachable state the chain from the head
  holds exactly the values that are left when the pushes and pops are run on a LockStack, one after the
  other, in the order their exchanges succeeded; and a thread that is about to read the value of the node it took reads the one
  that was on top at its pop.\<close>

theorem lock_free_lifo:
  assumes "reach stack_init (stack_step N) x"
  shows "\<exists>nodes. nodes_from (node_next (lf x)) (m_head (lf x)) nodes \<and> distinct nodes
    \<and> replay (history (lf x)) [] = Some (map (node_data (lf x)) nodes)
    \<and> (\<forall>t h. pcs x t = T_Data h \<longrightarrow> last_event t (history (lf x)) = Some (Popped t (node_data (lf x) h)))"
proof -
  obtain loc stk pend own where R: "lf_rel N x loc stk pend own"
    using lock_free.reach_inv[OF assms] by (auto simp: lf_inv_def)
  from lf_relD(1)[OF R] lf_relD(2)[OF R] show ?thesis by (auto simp: lists_ok_def stack_thread_ok_def)
qed

theorem lock_free_lifo_witness:
  "replay (history (lf (taken_one ''a''))) [] = Some [] \<and> last_event 0 (history (lf (taken_one ''a''))) = Some (Popped 0 ''a'')"
  using lock_free_lifo[OF taken_one_reach, of "''a''"] by (auto simp: taken_one_simps)

text \<open>No node is lost. In every reachable state in which no thread is inside an operation, the
  nodes that are alive are those of the stack and those of the pending list, each in one place, and the
  count is zero.\<close>

theorem no_node_lost:
  assumes "reach stack_init (stack_step N) x" and "\<And>t. pcs x t = Outside"
  shows "m_popCount (lf x) = 0 \<and> (\<exists>stk pend. distinct (stk @ pend) \<and> alive_nodes (lf x) = set (stk @ pend)
    \<and> nodes_from (node_next (lf x)) (m_head (lf x)) stk \<and> nodes_from (node_next (lf x)) (m_pendingList (lf x)) pend)"
proof -
  obtain loc stk pend own where R: "lf_rel N x loc stk pend own"
    using lock_free.reach_inv[OF assms(1)] by (auto simp: lf_inv_def)
  note L = lf_relD(1)[OF R]
  have "loc n \<noteq> Some (Owned t)" for n t using thread_owns(1,3)[OF R, of t] assms(2) by auto
  then have "loc n = None \<or> loc n = Some In_stack \<or> loc n = Some In_pending" for n
    by (cases "loc n"; cases "the (loc n)") auto
  then have "dom loc = set (stk @ pend)" using L unfolding lists_ok_def by auto
  moreover have "distinct (stk @ pend)" using L by (auto simp: lists_ok_def)
  moreover have "m_popCount (lf x) = 0" using lf_relD(4)[OF R] assms(2) by (simp add: count_ok_def)
  ultimately show ?thesis
    using L unfolding lists_ok_def by (intro conjI exI[of _ stk] exI[of _ pend]) simp_all
qed

theorem no_node_lost_witness:
  "m_popCount (lf (pushed_one ''a'')) = 0 \<and> (\<exists>stk. alive_nodes (lf (pushed_one ''a'')) = set stk \<and> stk = [5])"
  using no_node_lost[OF pushed_one_reach, of "''a''"] by (auto simp: pushed_one_simps)

end
