(* ===== verification/Lock_Free_Stack2.thy ===== *)
theory Lock_Free_Stack2
  imports Lock_Free_Safety
begin

text \<open>
  LockFreeStack2 of GameServer/ConcurrentStack.h: the stack whose nodes are held by shared_ptr and whose
  head is read and exchanged with the atomic functions on shared_ptr. Every access is a step of its own.
  A node is destroyed when the last shared_ptr to it is gone: the head, the next of a node that is alive,
  or a local of a thread; its address may be given out again from then on. Destroying is a step of its
  own that may come later than the last release. An exchange succeeds if the pointers are equal, and a
  weak one may fail for no reason.
\<close>

section \<open>State\<close>

datatype sp_pc =
    S_Out
  | S_Load nat | S_Cas nat
  | V_Load | V_Test "nat option" | V_Cas nat "nat option" | V_Data nat
  | S_Fault fault

record 'a sp_stack =
  sp_head :: "nat option"
  sp_next :: "nat \<Rightarrow> nat option"
  sp_data :: "nat \<Rightarrow> 'a"
  sp_alive :: "nat set"
  sp_history :: "'a stack_event list"

record 'a sp_sys =
  sps :: "'a sp_stack"
  sp_pcs :: "nat \<Rightarrow> sp_pc"

definition LockFreeStack2 :: "(nat \<Rightarrow> 'a) \<Rightarrow> 'a sp_stack" where
  "LockFreeStack2 d = \<lparr>sp_head = None, sp_next = (\<lambda>_. None), sp_data = d, sp_alive = {}, sp_history = []\<rparr>"

definition sp_new_Node :: "nat \<Rightarrow> 'a \<Rightarrow> 'a sp_stack \<Rightarrow> 'a sp_stack" where
  "sp_new_Node n v s = s\<lparr>sp_next := (sp_next s)(n := None), sp_data := (sp_data s)(n := v), sp_alive := insert n (sp_alive s)\<rparr>"

definition sp_touch :: "nat \<Rightarrow> 'a sp_stack \<Rightarrow> sp_pc \<times> 'a sp_stack \<Rightarrow> sp_pc \<times> 'a sp_stack" where
  "sp_touch n s r = (if n \<in> sp_alive s then r else (S_Fault UseAfterFree, s))"

definition sp_set_next :: "nat \<Rightarrow> 'a sp_stack \<Rightarrow> 'a sp_stack" where
  "sp_set_next n s = s\<lparr>sp_next := (sp_next s)(n := sp_head s)\<rparr>"

section \<open>The operations of thread t\<close>

fun Stack2_Push :: "nat \<Rightarrow> bool \<Rightarrow> sp_pc \<Rightarrow> 'a sp_stack \<Rightarrow> sp_pc \<times> 'a sp_stack" where
  "Stack2_Push t weak (S_Load node) s = sp_touch node s (S_Cas node, sp_set_next node s)"
| "Stack2_Push t weak (S_Cas node) s = sp_touch node s
     (if sp_head s = sp_next s node \<and> \<not> weak
      then (S_Out, s\<lparr>sp_head := Some node, sp_history := sp_history s @ [Pushed t (sp_data s node)]\<rparr>)
      else (S_Cas node, sp_set_next node s))"
| "Stack2_Push t weak pc s = (pc, s)"

fun Stack2_TryPop :: "nat \<Rightarrow> bool \<Rightarrow> sp_pc \<Rightarrow> 'a sp_stack \<Rightarrow> sp_pc \<times> 'a sp_stack" where
  "Stack2_TryPop t weak V_Load s = (V_Test (sp_head s), s)"
| "Stack2_TryPop t weak (V_Test None) s = (S_Out, s)"
| "Stack2_TryPop t weak (V_Test (Some oldHead)) s = sp_touch oldHead s (V_Cas oldHead (sp_next s oldHead), s)"
| "Stack2_TryPop t weak (V_Cas oldHead next) s =
     (if sp_head s = Some oldHead \<and> \<not> weak
      then (V_Data oldHead, s\<lparr>sp_head := next, sp_history := sp_history s @ [Popped t (sp_data s oldHead)]\<rparr>)
      else (V_Test (sp_head s), s))"
| "Stack2_TryPop t weak (V_Data oldHead) s = sp_touch oldHead s (S_Out, s)"
| "Stack2_TryPop t weak pc s = (pc, s)"

text \<open>The shared_ptr a thread has in its locals.\<close>

fun holds :: "sp_pc \<Rightarrow> nat set" where
  "holds (S_Load n) = {n}"
| "holds (S_Cas n) = {n}"
| "holds (V_Test p) = set_option p"
| "holds (V_Cas h p) = insert h (set_option p)"
| "holds (V_Data h) = {h}"
| "holds pc = {}"

definition last_owner_gone :: "nat \<Rightarrow> 'a sp_sys \<Rightarrow> bool" where
  "last_owner_gone n x \<longleftrightarrow> sp_head (sps x) \<noteq> Some n \<and> (\<forall>t. n \<notin> holds (sp_pcs x t))
     \<and> (\<forall>m \<in> sp_alive (sps x). sp_next (sps x) m \<noteq> Some n)"

definition sp_thread :: "nat \<Rightarrow> sp_pc \<times> 'a sp_stack \<Rightarrow> 'a sp_sys \<Rightarrow> 'a sp_sys" where
  "sp_thread t r x = x\<lparr>sps := snd r, sp_pcs := (sp_pcs x)(t := fst r)\<rparr>"

definition sp_destroy :: "nat \<Rightarrow> 'a sp_sys \<Rightarrow> 'a sp_sys" where
  "sp_destroy n x = x\<lparr>sps := (sps x)\<lparr>sp_alive := sp_alive (sps x) - {n}\<rparr>\<rparr>"

inductive sp_step :: "'a sp_sys \<Rightarrow> 'a sp_sys \<Rightarrow> bool" where
  sp_call_push: "sp_pcs x t = S_Out \<Longrightarrow> node \<notin> sp_alive (sps x) \<Longrightarrow>
    sp_step x (sp_thread t (S_Load node, sp_new_Node node v (sps x)) x)"
| sp_call_pop: "sp_pcs x t = S_Out \<Longrightarrow> sp_step x (sp_thread t (V_Load, sps x) x)"
| sp_in_push: "sp_step x (sp_thread t (Stack2_Push t weak (sp_pcs x t) (sps x)) x)"
| sp_in_pop: "sp_step x (sp_thread t (Stack2_TryPop t weak (sp_pcs x t) (sps x)) x)"
| sp_destroyed: "n \<in> sp_alive (sps x) \<Longrightarrow> last_owner_gone n x \<Longrightarrow> sp_step x (sp_destroy n x)"

definition sp_init :: "'a sp_sys \<Rightarrow> bool" where
  "sp_init x \<longleftrightarrow> (\<exists>d. x = \<lparr>sps = LockFreeStack2 d, sp_pcs = (\<lambda>_. S_Out)\<rparr>)"

section \<open>The invariant\<close>

text \<open>A node that Push has made and not published belongs to its thread alone; a published node keeps its
  next, which leads to an older node.\<close>

fun making :: "sp_pc \<Rightarrow> nat set" where
  "making (S_Load n) = {n}"
| "making (S_Cas n) = {n}"
| "making pc = {}"

definition sp_list_ok :: "'a sp_stack \<Rightarrow> nat list \<Rightarrow> bool" where
  "sp_list_ok s xs \<longleftrightarrow> nodes_from (sp_next s) (sp_head s) xs \<and> distinct xs \<and> set xs \<subseteq> sp_alive s \<and> finite (sp_alive s)
     \<and> replay (sp_history s) [] = Some (map (sp_data s) xs)
     \<and> (\<forall>n \<in> sp_alive s. \<forall>m. sp_next s n = Some m \<longrightarrow> m \<in> sp_alive s)
     \<and> (\<exists>age :: nat \<Rightarrow> nat. \<forall>n \<in> sp_alive s. \<forall>m. sp_next s n = Some m \<longrightarrow> age m < age n)"

definition sp_thread_ok :: "'a sp_stack \<Rightarrow> nat \<Rightarrow> sp_pc \<Rightarrow> bool" where
  "sp_thread_ok s t pc \<longleftrightarrow> holds pc \<subseteq> sp_alive s
     \<and> (case pc of V_Cas h p \<Rightarrow> sp_next s h = p
        | V_Data h \<Rightarrow> last_event t (sp_history s) = Some (Popped t (sp_data s h)) | S_Fault f \<Rightarrow> False | _ \<Rightarrow> True)"

definition sp_private :: "'a sp_sys \<Rightarrow> nat list \<Rightarrow> bool" where
  "sp_private x xs \<longleftrightarrow> (\<forall>t. \<forall>n \<in> making (sp_pcs x t). n \<notin> set xs \<and> (\<forall>u. u \<noteq> t \<longrightarrow> n \<notin> holds (sp_pcs x u))
     \<and> (\<forall>m \<in> sp_alive (sps x). sp_next (sps x) m \<noteq> Some n))"

definition sp_rel :: "'a sp_sys \<Rightarrow> nat list \<Rightarrow> bool" where
  "sp_rel x xs \<longleftrightarrow> sp_list_ok (sps x) xs \<and> (\<forall>t. sp_thread_ok (sps x) t (sp_pcs x t)) \<and> sp_private x xs"


lemma sp_relD:
  assumes "sp_rel x xs"
  shows "sp_list_ok (sps x) xs" "sp_thread_ok (sps x) t (sp_pcs x t)" "sp_private x xs"
  using assms by (simp_all add: sp_rel_def)

lemma sp_listD:
  assumes "sp_list_ok s xs"
  shows "nodes_from (sp_next s) (sp_head s) xs" "distinct xs" "set xs \<subseteq> sp_alive s" "finite (sp_alive s)"
    "replay (sp_history s) [] = Some (map (sp_data s) xs)" "n \<in> sp_alive s \<Longrightarrow> sp_next s n = Some m \<Longrightarrow> m \<in> sp_alive s"
  using assms by (simp_all add: sp_list_ok_def)

lemma sp_privateD:
  assumes "sp_private x xs" "n \<in> making (sp_pcs x t)"
  shows "n \<notin> set xs" "u \<noteq> t \<Longrightarrow> n \<notin> holds (sp_pcs x u)" "m \<in> sp_alive (sps x) \<Longrightarrow> sp_next (sps x) m \<noteq> Some n"
  using assms unfolding sp_private_def by blast+

lemma making_holds: "making pc \<subseteq> holds pc"
  by (cases pc) auto

lemma head_on_list: "sp_list_ok s xs \<Longrightarrow> sp_head s = Some h \<Longrightarrow> h \<in> set xs"
  by (auto simp: sp_list_ok_def nodes_from_Some)

text \<open>What a thread knows stays true when another one moves.\<close>

lemma sp_other:
  assumes "sp_thread_ok s u pc" and "sp_alive s \<subseteq> sp_alive s'" and "last_event u (sp_history s') = last_event u (sp_history s)"
    and "\<And>n. n \<in> holds pc \<Longrightarrow> sp_next s' n = sp_next s n \<and> sp_data s' n = sp_data s n"
  shows "sp_thread_ok s' u pc"
  using assms by (cases pc) (auto simp: sp_thread_ok_def)

lemma sp_move:
  assumes R: "sp_rel x xs" and L: "sp_list_ok s' xs'" and me: "sp_thread_ok s' t pc'"
    and alive: "sp_alive (sps x) \<subseteq> sp_alive s'" and hist: "\<And>u. u \<noteq> t \<Longrightarrow> last_event u (sp_history s') = last_event u (sp_history (sps x))"
    and same: "\<And>u n. u \<noteq> t \<Longrightarrow> n \<in> holds (sp_pcs x u) \<Longrightarrow> sp_next s' n = sp_next (sps x) n \<and> sp_data s' n = sp_data (sps x) n"
    and priv: "sp_private (sp_thread t (pc', s') x) xs'"
  shows "sp_rel (sp_thread t (pc', s') x) xs'"
proof -
  have "sp_thread_ok s' u (sp_pcs x u)" if "u \<noteq> t" for u
    using sp_other[OF sp_relD(2)[OF R] alive hist[OF that]] same[OF that] by blast
  then show ?thesis using L me priv by (auto simp: sp_rel_def sp_thread_def)
qed

lemma sp_call_push_rel:
  assumes R: "sp_rel x xs" and out: "sp_pcs x t = S_Out" and new: "node \<notin> sp_alive (sps x)"
  shows "sp_rel (sp_thread t (S_Load node, sp_new_Node node v (sps x)) x) xs"
proof (rule sp_move[OF R])
  let ?s = "sps x"
  note L = sp_listD[OF sp_relD(1)[OF R]]
  have H: "n \<noteq> node" if "n \<in> holds (sp_pcs x u)" for u n using that sp_relD(2)[OF R, of u] new by (auto simp: sp_thread_ok_def)
  have N: "node \<notin> set xs" using L(3) new by blast
  obtain age :: "nat \<Rightarrow> nat" where "\<forall>n \<in> sp_alive ?s. \<forall>m. sp_next ?s n = Some m \<longrightarrow> age m < age n"
    using sp_relD(1)[OF R] unfolding sp_list_ok_def by blast
  then have "\<forall>n \<in> sp_alive (sp_new_Node node v ?s). \<forall>m. sp_next (sp_new_Node node v ?s) n = Some m \<longrightarrow> age m < age n"
    by (auto simp: sp_new_Node_def)
  moreover have "replay (sp_history ?s) [] = Some (map (sp_data (sp_new_Node node v ?s)) xs)"
    using L(5) N by (simp add: sp_new_Node_def)
  ultimately show "sp_list_ok (sp_new_Node node v ?s) xs"
    using L N unfolding sp_list_ok_def by (auto simp: sp_new_Node_def split: if_splits)
  have "node \<notin> holds (sp_pcs x u)" "node \<notin> making (sp_pcs x u)" for u using H making_holds by blast+
  then show "sp_private (sp_thread t (S_Load node, sp_new_Node node v ?s) x) xs"
    using sp_relD(3)[OF R] N H L(6) new unfolding sp_private_def sp_thread_def sp_new_Node_def by (auto split: if_splits)
qed (use assms in \<open>auto simp: sp_new_Node_def sp_thread_ok_def dest: sp_relD(2)[unfolded sp_thread_ok_def]\<close>)

text \<open>The writes of Push to the next of its own node.\<close>

lemma sp_set_next_rel:
  assumes R: "sp_rel x xs" and mine: "making (sp_pcs x t) = {node}"
  shows "sp_rel (sp_thread t (S_Cas node, sp_set_next node (sps x)) x) xs"
proof (rule sp_move[OF R])
  let ?s = "sps x"
  note L = sp_listD[OF sp_relD(1)[OF R]] and P = sp_privateD[OF sp_relD(3)[OF R]]
  have node: "node \<in> making (sp_pcs x t)" using mine by simp
  then have alive: "node \<in> sp_alive ?s" using making_holds sp_relD(2)[OF R, of t] unfolding sp_thread_ok_def by blast
  have head: "sp_head ?s = Some m \<Longrightarrow> m \<in> set xs" for m by (rule head_on_list[OF sp_relD(1)[OF R]])
  obtain age :: "nat \<Rightarrow> nat" where age: "\<forall>n \<in> sp_alive ?s. \<forall>m. sp_next ?s n = Some m \<longrightarrow> age m < age n"
    using sp_relD(1)[OF R] unfolding sp_list_ok_def by blast
  define age' where "age' = age(node := (case sp_head ?s of None \<Rightarrow> 0 | Some h \<Rightarrow> Suc (age h)))"
  have "age' m < age' n" if "n \<in> sp_alive ?s" "sp_next (sp_set_next node ?s) n = Some m" for n m
  proof (cases "n = node")
    case True
    then show ?thesis using that(2) head[of m] P(1)[OF node] by (auto simp: sp_set_next_def age'_def)
  next
    case False
    then show ?thesis using that age P(3)[OF node, of n] by (auto simp: sp_set_next_def age'_def)
  qed
  then have "\<exists>age :: nat \<Rightarrow> nat. \<forall>n \<in> sp_alive ?s. \<forall>m. sp_next (sp_set_next node ?s) n = Some m \<longrightarrow> age m < age n" by blast
  then show "sp_list_ok (sp_set_next node ?s) xs"
    using L P(1)[OF node] head unfolding sp_list_ok_def by (auto simp: sp_set_next_def split: if_splits)
  have "node \<notin> making (sp_pcs x u)" if "u \<noteq> t" for u using P(2)[OF node that] making_holds by blast
  then show "sp_private (sp_thread t (S_Cas node, sp_set_next node ?s) x) xs"
    using sp_relD(3)[OF R] mine head P(1,3)[OF node] unfolding sp_private_def sp_thread_def sp_set_next_def
    by (auto split: if_splits)
  show "u \<noteq> t \<Longrightarrow> n \<in> holds (sp_pcs x u) \<Longrightarrow> sp_next (sp_set_next node ?s) n = sp_next ?s n
      \<and> sp_data (sp_set_next node ?s) n = sp_data ?s n" for u n
    using P(2)[OF node, of u] by (auto simp: sp_set_next_def)
  show "sp_thread_ok (sp_set_next node ?s) t (S_Cas node)" using alive by (simp add: sp_thread_ok_def sp_set_next_def)
qed (simp_all add: sp_set_next_def)

lemma sp_pushed_rel:
  assumes R: "sp_rel x xs" and pc: "sp_pcs x t = S_Cas node" and eq: "sp_head (sps x) = sp_next (sps x) node"
  shows "sp_rel (sp_thread t (S_Out, (sps x)\<lparr>sp_head := Some node,
    sp_history := sp_history (sps x) @ [Pushed t (sp_data (sps x) node)]\<rparr>) x) (node # xs)"
proof (rule sp_move[OF R])
  let ?s = "sps x" and ?s' = "(sps x)\<lparr>sp_head := Some node, sp_history := sp_history (sps x) @ [Pushed t (sp_data (sps x) node)]\<rparr>"
  note L = sp_listD[OF sp_relD(1)[OF R]] and P = sp_privateD[OF sp_relD(3)[OF R]]
  have node: "node \<in> making (sp_pcs x t)" by (simp add: pc)
  then have alive: "node \<in> sp_alive ?s" using making_holds sp_relD(2)[OF R, of t] unfolding sp_thread_ok_def by blast
  show "sp_list_ok ?s' (node # xs)"
    using sp_relD(1)[OF R] P(1)[OF node] alive eq unfolding sp_list_ok_def by (auto simp: replay_append)
  have "n \<noteq> node" if "n \<in> making (sp_pcs x u)" "u \<noteq> t" for u n using P(2)[OF node that(2)] that(1) making_holds by blast
  then show "sp_private (sp_thread t (S_Out, ?s') x) (node # xs)"
    using sp_relD(3)[OF R] unfolding sp_private_def sp_thread_def by (auto split: if_splits)
qed (simp_all add: sp_thread_ok_def)

text \<open>Steps that only move the program counter, to one that holds published nodes.\<close>

lemma sp_quiet_rel:
  assumes R: "sp_rel x xs" and me: "sp_thread_ok (sps x) t pc'" and "making pc' = {}"
    and shared: "\<And>n u. n \<in> holds pc' \<Longrightarrow> u \<noteq> t \<Longrightarrow> n \<notin> making (sp_pcs x u)"
  shows "sp_rel (sp_thread t (pc', sps x) x) xs"
proof (rule sp_move[OF R sp_relD(1)[OF R] me])
  show "sp_private (sp_thread t (pc', sps x) x) xs"
    using sp_relD(3)[OF R] assms(3) shared unfolding sp_private_def sp_thread_def by (auto split: if_splits)
qed simp_all

lemma sp_popped_rel:
  assumes R: "sp_rel x xs" and pc: "sp_pcs x t = V_Cas h p" and eq: "sp_head (sps x) = Some h"
  shows "\<exists>ys. sp_rel (sp_thread t (V_Data h, (sps x)\<lparr>sp_head := p,
    sp_history := sp_history (sps x) @ [Popped t (sp_data (sps x) h)]\<rparr>) x) ys"
proof -
  let ?s = "sps x" and ?s' = "(sps x)\<lparr>sp_head := p, sp_history := sp_history (sps x) @ [Popped t (sp_data (sps x) h)]\<rparr>"
  note L = sp_listD[OF sp_relD(1)[OF R]]
  have n: "sp_next ?s h = p" "h \<in> sp_alive ?s" using sp_relD(2)[OF R, of t] pc by (auto simp: sp_thread_ok_def)
  then obtain ys where ys: "xs = h # ys" "nodes_from (sp_next ?s) p ys" using L(1) eq by (auto simp: nodes_from_Some)
  have "sp_rel (sp_thread t (V_Data h, ?s') x) ys"
  proof (rule sp_move[OF R])
    show "sp_list_ok ?s' ys" using sp_relD(1)[OF R] ys unfolding sp_list_ok_def by (auto simp: replay_append)
    have "h \<notin> making (sp_pcs x u)" if "u \<noteq> t" for u using sp_privateD(2)[OF sp_relD(3)[OF R], of h u t] that pc by auto
    then show "sp_private (sp_thread t (V_Data h, ?s') x) ys"
      using sp_relD(3)[OF R] ys(1) unfolding sp_private_def sp_thread_def by (auto split: if_splits)
  qed (use n in \<open>simp_all add: sp_thread_ok_def\<close>)
  then show ?thesis by blast
qed


lemma nodes_from_member: "nodes_from nx p xs \<Longrightarrow> n \<in> set xs \<Longrightarrow> p = Some n \<or> (\<exists>m \<in> set xs. nx m = Some n)"
  by (induction nx p xs rule: nodes_from.induct) (auto simp: nodes_from_Some)

lemma sp_destroy_rel:
  assumes R: "sp_rel x xs" and gone: "last_owner_gone n x"
  shows "sp_rel (sp_destroy n x) xs"
proof -
  note L = sp_listD[OF sp_relD(1)[OF R]]
  have "n \<notin> set xs" using nodes_from_member[OF L(1), of n] L(3) gone by (auto simp: last_owner_gone_def)
  moreover have "\<exists>age :: nat \<Rightarrow> nat. \<forall>k \<in> sp_alive (sps x) - {n}. \<forall>m. sp_next (sps x) k = Some m \<longrightarrow> age m < age k"
    using sp_relD(1)[OF R] unfolding sp_list_ok_def by blast
  ultimately have "sp_list_ok (sps (sp_destroy n x)) xs"
    using L gone unfolding sp_list_ok_def by (auto simp: sp_destroy_def last_owner_gone_def)
  moreover have "sp_thread_ok (sps (sp_destroy n x)) t (sp_pcs x t)" for t
  proof -
    have "n \<notin> holds (sp_pcs x t)" using gone by (simp add: last_owner_gone_def)
    then show ?thesis using sp_relD(2)[OF R, of t] by (cases "sp_pcs x t") (auto simp: sp_thread_ok_def sp_destroy_def)
  qed
  moreover have "sp_private (sp_destroy n x) xs" using sp_relD(3)[OF R] by (auto simp: sp_private_def sp_destroy_def)
  ultimately show ?thesis by (simp add: sp_rel_def sp_destroy_def)
qed

lemma Stack2_Push_rel:
  assumes R: "sp_rel x xs"
  shows "\<exists>ys. sp_rel (sp_thread t (Stack2_Push t weak (sp_pcs x t) (sps x)) x) ys"
proof -
  have same: "sp_thread t (sp_pcs x t, sps x) x = x" by (simp add: sp_thread_def)
  have alive: "n \<in> sp_alive (sps x)" if "making (sp_pcs x t) = {n}" for n
    using that making_holds sp_relD(2)[OF R, of t] unfolding sp_thread_ok_def by blast
  show ?thesis
  proof (cases "sp_pcs x t")
    case (S_Load node)
    then show ?thesis using sp_set_next_rel[OF R, of t node] alive[of node] by (auto simp: sp_touch_def)
  next
    case (S_Cas node)
    then show ?thesis
      using sp_set_next_rel[OF R, of t node] sp_pushed_rel[OF R S_Cas] alive[of node]
      by (cases "sp_head (sps x) = sp_next (sps x) node \<and> \<not> weak") (auto simp: sp_touch_def)
  qed (use R same in \<open>auto intro: exI[of _ xs]\<close>)
qed

lemma Stack2_TryPop_rel:
  assumes R: "sp_rel x xs"
  shows "\<exists>ys. sp_rel (sp_thread t (Stack2_TryPop t weak (sp_pcs x t) (sps x)) x) ys"
proof -
  note L = sp_listD[OF sp_relD(1)[OF R]] and P = sp_privateD[OF sp_relD(3)[OF R]]
  have same: "sp_thread t (sp_pcs x t, sps x) x = x" by (simp add: sp_thread_def)
  have T: "holds (sp_pcs x t) \<subseteq> sp_alive (sps x)" "\<And>f. sp_pcs x t \<noteq> S_Fault f"
    using sp_relD(2)[OF R, of t] by (auto simp: sp_thread_ok_def)
  have test: "sp_rel (sp_thread t (V_Test (sp_head (sps x)), sps x) x) xs"
    by (rule sp_quiet_rel[OF R]) (use L(3) P(1) head_on_list[OF sp_relD(1)[OF R]] in \<open>auto simp: sp_thread_ok_def\<close>)
  have out: "sp_rel (sp_thread t (S_Out, sps x) x) xs"
    by (rule sp_quiet_rel[OF R]) (simp_all add: sp_thread_ok_def)
  show ?thesis
  proof (cases "sp_pcs x t")
    case (V_Test h)
    show ?thesis
    proof (cases h)
      case (Some oldHead)
      have a: "oldHead \<in> sp_alive (sps x)" using T V_Test Some by simp
      have "n \<notin> making (sp_pcs x u)" if "n \<in> holds (V_Cas oldHead (sp_next (sps x) oldHead))" "u \<noteq> t" for n u
        using that P(2)[of oldHead u t] P(3)[OF _ a, of n u] V_Test Some by (cases "n = oldHead") auto
      then have "sp_rel (sp_thread t (V_Cas oldHead (sp_next (sps x) oldHead), sps x) x) xs"
        by (intro sp_quiet_rel[OF R]) (use a L(6)[OF a] in \<open>auto simp: sp_thread_ok_def\<close>)
      then show ?thesis using V_Test Some a by (auto simp: sp_touch_def)
    qed (use V_Test out in auto)
  next
    case (V_Cas oldHead p)
    then show ?thesis using test sp_popped_rel[OF R V_Cas] by (cases "sp_head (sps x) = Some oldHead \<and> \<not> weak") auto
  next
    case (V_Data oldHead)
    then show ?thesis using T out by (auto simp: sp_touch_def)
  qed (use R same test T in \<open>auto intro: exI[of _ xs]\<close>)
qed

definition sp_inv :: "'a sp_sys \<Rightarrow> bool" where
  "sp_inv x \<longleftrightarrow> (\<exists>xs. sp_rel x xs)"

lemma sp_step_inv: "sp_step x y \<Longrightarrow> sp_inv x \<Longrightarrow> sp_inv y"
  unfolding sp_inv_def
proof (elim exE)
  fix xs assume R: "sp_rel x xs"
  assume "sp_step x y"
  then show "\<exists>ys. sp_rel y ys"
  proof (cases rule: sp_step.cases)
    case (sp_call_push t node v)
    then show ?thesis using sp_call_push_rel[OF R] by blast
  next
    case (sp_call_pop t)
    have "sp_rel (sp_thread t (V_Load, sps x) x) xs" by (rule sp_quiet_rel[OF R]) (simp_all add: sp_thread_ok_def)
    then show ?thesis using sp_call_pop by blast
  next
    case (sp_in_push t weak)
    then show ?thesis using Stack2_Push_rel[OF R] by blast
  next
    case (sp_in_pop t weak)
    then show ?thesis using Stack2_TryPop_rel[OF R] by blast
  next
    case (sp_destroyed n)
    then show ?thesis using sp_destroy_rel[OF R] by blast
  qed
qed

lemma sp_init_inv: "sp_init x \<Longrightarrow> sp_inv x"
  by (auto simp: sp_init_def sp_inv_def sp_rel_def sp_list_ok_def sp_thread_ok_def sp_private_def LockFreeStack2_def
      intro!: exI[of _ "[]"])

interpretation stack2: invariant_system sp_init sp_step sp_inv
  by unfold_locales (rule sp_init_inv, assumption, rule sp_step_inv)

section \<open>What it keeps\<close>

text \<open>No shared_ptr of a thread dangles and the stack is a LockStack, as for LockFreeStack.\<close>

theorem stack2_lifo:
  assumes "reach sp_init sp_step x"
  shows "sp_pcs x t \<noteq> S_Fault f \<and> holds (sp_pcs x t) \<subseteq> sp_alive (sps x)
    \<and> (\<exists>nodes. nodes_from (sp_next (sps x)) (sp_head (sps x)) nodes \<and> distinct nodes \<and> set nodes \<subseteq> sp_alive (sps x)
        \<and> replay (sp_history (sps x)) [] = Some (map (sp_data (sps x)) nodes))
    \<and> (\<forall>h. sp_pcs x t = V_Data h \<longrightarrow> last_event t (sp_history (sps x)) = Some (Popped t (sp_data (sps x) h)))"
proof -
  obtain xs where R: "sp_rel x xs" using stack2.reach_inv[OF assms] by (auto simp: sp_inv_def)
  show ?thesis
    using sp_listD(1-3,5)[OF sp_relD(1)[OF R]] sp_relD(2)[OF R, of t] by (auto simp: sp_thread_ok_def)
qed

text \<open>Nothing leaks: when every call has returned, destroying what has no owner leaves exactly the nodes
  of the stack. The next of a node leads to an older node, so there is no ring of shared_ptr.\<close>

lemma youngest_unowned:
  assumes R: "sp_rel x xs" and out: "\<And>t. sp_pcs x t = S_Out" and more: "sp_alive (sps x) \<noteq> set xs"
  shows "\<exists>n \<in> sp_alive (sps x) - set xs. last_owner_gone n x"
proof -
  note L = sp_listD[OF sp_relD(1)[OF R]]
  obtain age :: "nat \<Rightarrow> nat" where age: "\<forall>n \<in> sp_alive (sps x). \<forall>m. sp_next (sps x) n = Some m \<longrightarrow> age m < age n"
    using sp_relD(1)[OF R] unfolding sp_list_ok_def by blast
  let ?D = "sp_alive (sps x) - set xs"
  have D: "finite (age ` ?D)" "age ` ?D \<noteq> {}" using L(3,4) more by auto
  obtain n where n: "n \<in> ?D" "age n = Max (age ` ?D)" using Max_in[OF D] by (metis imageE)
  have "sp_next (sps x) m \<noteq> Some n" if m: "m \<in> sp_alive (sps x)" for m
  proof
    assume e: "sp_next (sps x) m = Some n"
    have "m \<notin> set xs" using nodes_from_next[OF L(1) _ e] n(1) by auto
    then have "age m \<le> age n" unfolding n(2) using m D(1) by (intro Max_ge) auto
    then show False using age m e by force
  qed
  moreover have "sp_head (sps x) \<noteq> Some n" using head_on_list[OF sp_relD(1)[OF R]] n(1) by auto
  ultimately show ?thesis using n(1) out by (auto simp: last_owner_gone_def)
qed

theorem stack2_no_leak:
  assumes "reach sp_init sp_step x" and "\<And>t. sp_pcs x t = S_Out"
  shows "\<exists>y nodes. sp_step\<^sup>*\<^sup>* x y \<and> sp_alive (sps y) = set nodes \<and> nodes_from (sp_next (sps y)) (sp_head (sps y)) nodes
    \<and> sp_pcs y = sp_pcs x \<and> sp_history (sps y) = sp_history (sps x)"
proof -
  obtain xs where R: "sp_rel x xs" using stack2.reach_inv[OF assms(1)] by (auto simp: sp_inv_def)
  have "\<exists>y. sp_step\<^sup>*\<^sup>* x y \<and> sp_rel y xs \<and> sp_alive (sps y) = set xs \<and> sp_pcs y = sp_pcs x \<and> sp_history (sps y) = sp_history (sps x)"
    using R assms(2)
  proof (induction "card (sp_alive (sps x))" arbitrary: x rule: less_induct)
    case less
    note L = sp_listD[OF sp_relD(1)[OF less.prems(1)]]
    show ?case
    proof (cases "sp_alive (sps x) = set xs")
      case False
      then obtain n where n: "n \<in> sp_alive (sps x)" "last_owner_gone n x"
        using youngest_unowned[OF less.prems] by blast
      let ?z = "sp_destroy n x"
      have z: "sp_alive (sps ?z) = sp_alive (sps x) - {n}" by (simp add: sp_destroy_def)
      have "card (sp_alive (sps ?z)) < card (sp_alive (sps x))" unfolding z by (rule card_Diff1_less[OF L(4) n(1)])
      from less.hyps[OF this sp_destroy_rel[OF less.prems(1) n(2)]] less.prems(2) obtain y where
        "sp_step\<^sup>*\<^sup>* ?z y" "sp_rel y xs" "sp_alive (sps y) = set xs" "sp_pcs y = sp_pcs x" "sp_history (sps y) = sp_history (sps x)"
        by (auto simp: sp_destroy_def)
      then show ?thesis using sp_destroyed[OF n] by (meson converse_rtranclp_into_rtranclp)
    qed (use less.prems in blast)
  qed
  then show ?thesis using sp_listD(1)[OF sp_relD(1)] by metis
qed

end
