(* ===== verification/Lock_Free_Queue.thy ===== *)
theory Lock_Free_Queue
  imports Lock_Queue
begin

text \<open>
  The lock-free queue of GameServer/ConcurrentQueue.h. Its nodes form a list from m_head to m_tail whose
  last node is a dummy that waits for data. A node lives as long as somebody may look at it: the two
  counted pointers that lead to it (from the head or its predecessor, and from the tail) count the
  threads that came along them, and the node itself counts the threads that have left and the pointers
  that still count. Every access of an atomic or of a node is a step of its own, any number of threads
  run Push and TryPop, and new may return an address that was deleted before. The counters wrap around
  at their widths. A CountedNodePtr has padding, so an exchange of one may fail although its members are
  equal (the flag pad). The memory is sequentially consistent, and data of a new node is null.
\<close>

section \<open>State\<close>

type_synonym counter = "30 word \<times> 2 word"

record counted_ptr =
  externalCount :: u32
  cp_ptr :: "nat option"

record 'a queue_node =
  nd_data :: "'a option"
  internalCount :: "30 word"
  externalCountRemaining :: "2 word"
  nd_next :: counted_ptr

text \<open>Where ReleaseRef goes on: Push with its value, its dummy and oldTail, TryPop with oldHead, or the end
  of a TryPop that found the queue empty.\<close>

datatype 'a release_to = Push_again 'a nat counted_ptr | Pop_again counted_ptr | Pop_null

datatype 'a queue_pc =
    Q_Out
  | Enq_Load 'a nat | Enq_Increase 'a nat counted_ptr | Enq_Data 'a nat counted_ptr
  | Enq_Next 'a nat counted_ptr | Enq_Exchange 'a nat counted_ptr
  | Deq_Load | Deq_Increase counted_ptr | Deq_Tail counted_ptr | Deq_Next counted_ptr
  | Deq_Cas counted_ptr counted_ptr | Deq_Data counted_ptr 'a
  | Free_Load counted_ptr | Free_Cas counted_ptr counter | Free_Delete nat
  | Rel_Load "'a release_to" nat | Rel_Cas "'a release_to" nat counter | Rel_Delete "'a release_to" nat
  | Q_Faulted fault

text \<open>What took effect, in its order; the value a Deq_Data carries is the one its event names.\<close>

datatype 'a queue_event = Enqueued nat 'a | Dequeued nat 'a | Found_empty nat

record 'a lf_queue =
  q_head :: counted_ptr
  q_tail :: counted_ptr
  q_nodes :: "nat \<Rightarrow> 'a queue_node"
  q_alive :: "nat set"
  q_history :: "'a queue_event list"

definition new_node :: "'a queue_node" where
  "new_node = \<lparr>nd_data = None, internalCount = 0, externalCountRemaining = 2, nd_next = \<lparr>externalCount = 0, cp_ptr = None\<rparr>\<rparr>"

definition upd_node :: "nat \<Rightarrow> ('a queue_node \<Rightarrow> 'a queue_node) \<Rightarrow> 'a lf_queue \<Rightarrow> 'a lf_queue" where
  "upd_node n f s = s\<lparr>q_nodes := (q_nodes s)(n := f (q_nodes s n))\<rparr>"

definition make_node :: "nat \<Rightarrow> 'a lf_queue \<Rightarrow> 'a lf_queue" where
  "make_node n s = (upd_node n (\<lambda>_. new_node) s)\<lparr>q_alive := insert n (q_alive s)\<rparr>"

definition delete_node :: "nat \<Rightarrow> 'a lf_queue \<Rightarrow> 'a lf_queue" where
  "delete_node n s = s\<lparr>q_alive := q_alive s - {n}\<rparr>"

text \<open>A step that reads, writes or deletes the node a pointer leads to.\<close>

definition at_node :: "'a lf_queue \<Rightarrow> nat option \<Rightarrow> (nat \<Rightarrow> 'a queue_pc \<times> 'a lf_queue) \<Rightarrow> 'a queue_pc \<times> 'a lf_queue" where
  "at_node s p f =
     (case p of
        None \<Rightarrow> (Q_Faulted NullDeref, s)
      | Some n \<Rightarrow> if n \<in> q_alive s then f n else (Q_Faulted UseAfterFree, s))"

definition node_count :: "'a lf_queue \<Rightarrow> nat \<Rightarrow> counter" where
  "node_count s n = (internalCount (q_nodes s n), externalCountRemaining (q_nodes s n))"

definition set_count :: "nat \<Rightarrow> counter \<Rightarrow> 'a lf_queue \<Rightarrow> 'a lf_queue" where
  "set_count n c = upd_node n (\<lambda>k. k\<lparr>internalCount := fst c, externalCountRemaining := snd c\<rparr>)"

definition LockFreeQueue :: "nat \<Rightarrow> (nat \<Rightarrow> 'a queue_node) \<Rightarrow> 'a lf_queue" where
  "LockFreeQueue n mem =
     (let node = \<lparr>externalCount = 1, cp_ptr = Some n\<rparr> in
      make_node n \<lparr>q_head = node, q_tail = node, q_nodes = mem, q_alive = {}, q_history = []\<rparr>)"

section \<open>The operations of thread t\<close>

text \<open>The body of the loop of IncreaseExternalCount: Inl is the value read when the exchange fails, Inr the
  pointer with the new count when it succeeds.\<close>

definition IncreaseExternalCount :: "bool \<Rightarrow> counted_ptr \<Rightarrow> counted_ptr \<Rightarrow> counted_ptr + counted_ptr" where
  "IncreaseExternalCount pad counter oldCounter =
     (if counter = oldCounter \<and> \<not> pad then Inr (oldCounter\<lparr>externalCount := externalCount oldCounter + 1\<rparr>) else Inl counter)"

fun Queue_Push :: "nat \<Rightarrow> bool \<Rightarrow> 'a queue_pc \<Rightarrow> 'a lf_queue \<Rightarrow> 'a queue_pc \<times> 'a lf_queue" where
  "Queue_Push t pad (Enq_Load v dummy) s = (Enq_Increase v dummy (q_tail s), s)"
| "Queue_Push t pad (Enq_Increase v dummy oldTail) s =
     (case IncreaseExternalCount pad (q_tail s) oldTail of
        Inl now \<Rightarrow> (Enq_Increase v dummy now, s)
      | Inr new \<Rightarrow> (Enq_Data v dummy new, s\<lparr>q_tail := new\<rparr>))"
| "Queue_Push t pad (Enq_Data v dummy oldTail) s = at_node s (cp_ptr oldTail) (\<lambda>n.
     if nd_data (q_nodes s n) = None then (Enq_Next v dummy oldTail, upd_node n (\<lambda>k. k\<lparr>nd_data := Some v\<rparr>) s)
     else (Rel_Load (Push_again v dummy oldTail) n, s))"
| "Queue_Push t pad (Enq_Next v dummy oldTail) s = at_node s (cp_ptr oldTail) (\<lambda>n.
     (Enq_Exchange v dummy oldTail, upd_node n (\<lambda>k. k\<lparr>nd_next := \<lparr>externalCount = 1, cp_ptr = Some dummy\<rparr>\<rparr>) s))"
| "Queue_Push t pad (Enq_Exchange v dummy oldTail) s =
     (Free_Load (q_tail s), s\<lparr>q_tail := \<lparr>externalCount = 1, cp_ptr = Some dummy\<rparr>, q_history := q_history s @ [Enqueued t v]\<rparr>)"
| "Queue_Push t pad pc s = (pc, s)"

fun Queue_TryPop :: "nat \<Rightarrow> bool \<Rightarrow> 'a queue_pc \<Rightarrow> 'a lf_queue \<Rightarrow> 'a queue_pc \<times> 'a lf_queue" where
  "Queue_TryPop t pad Deq_Load s = (Deq_Increase (q_head s), s)"
| "Queue_TryPop t pad (Deq_Increase oldHead) s =
     (case IncreaseExternalCount pad (q_head s) oldHead of
        Inl now \<Rightarrow> (Deq_Increase now, s)
      | Inr new \<Rightarrow> (Deq_Tail new, s\<lparr>q_head := new\<rparr>))"
| "Queue_TryPop t pad (Deq_Tail oldHead) s =
     (if cp_ptr oldHead = cp_ptr (q_tail s)
      then at_node s (cp_ptr oldHead) (\<lambda>n. (Rel_Load Pop_null n, s\<lparr>q_history := q_history s @ [Found_empty t]\<rparr>))
      else (Deq_Next oldHead, s))"
| "Queue_TryPop t pad (Deq_Next oldHead) s = at_node s (cp_ptr oldHead) (\<lambda>n. (Deq_Cas oldHead (nd_next (q_nodes s n)), s))"
| "Queue_TryPop t pad (Deq_Cas oldHead nxt) s =
     (if q_head s = oldHead \<and> \<not> pad
      then let v = the (nd_data (q_nodes s (the (cp_ptr oldHead)))) in
           (Deq_Data oldHead v, s\<lparr>q_head := nxt, q_history := q_history s @ [Dequeued t v]\<rparr>)
      else at_node s (cp_ptr oldHead) (\<lambda>n. (Rel_Load (Pop_again (q_head s)) n, s)))"
| "Queue_TryPop t pad (Deq_Data oldHead v) s = at_node s (cp_ptr oldHead) (\<lambda>n. (Free_Load oldHead, s))"
| "Queue_TryPop t pad pc s = (pc, s)"

fun FreeExternalCount :: "'a queue_pc \<Rightarrow> 'a lf_queue \<Rightarrow> 'a queue_pc \<times> 'a lf_queue" where
  "FreeExternalCount (Free_Load p) s = at_node s (cp_ptr p) (\<lambda>n. (Free_Cas p (node_count s n), s))"
| "FreeExternalCount (Free_Cas p oldCounter) s = at_node s (cp_ptr p) (\<lambda>n.
     let countIncrease = externalCount p - 2;
         newCounter = (fst oldCounter + ucast countIncrease, snd oldCounter - 1)
     in if node_count s n = oldCounter
        then (if newCounter = (0, 0) then Free_Delete n else Q_Out, set_count n newCounter s)
        else (Free_Cas p (node_count s n), s))"
| "FreeExternalCount (Free_Delete n) s = at_node s (Some n) (\<lambda>n. (Q_Out, delete_node n s))"
| "FreeExternalCount pc s = (pc, s)"

fun released :: "'a release_to \<Rightarrow> 'a queue_pc" where
  "released (Push_again v dummy oldTail) = Enq_Increase v dummy oldTail"
| "released (Pop_again oldHead) = Deq_Increase oldHead"
| "released Pop_null = Q_Out"

fun Node_ReleaseRef :: "'a queue_pc \<Rightarrow> 'a lf_queue \<Rightarrow> 'a queue_pc \<times> 'a lf_queue" where
  "Node_ReleaseRef (Rel_Load k n) s = at_node s (Some n) (\<lambda>n. (Rel_Cas k n (node_count s n), s))"
| "Node_ReleaseRef (Rel_Cas k n oldCounter) s = at_node s (Some n) (\<lambda>n.
     let newCounter = (fst oldCounter - 1, snd oldCounter)
     in if node_count s n = oldCounter
        then (if newCounter = (0, 0) then Rel_Delete k n else released k, set_count n newCounter s)
        else (Rel_Cas k n (node_count s n), s))"
| "Node_ReleaseRef (Rel_Delete k n) s = at_node s (Some n) (\<lambda>n. (released k, delete_node n s))"
| "Node_ReleaseRef pc s = (pc, s)"

section \<open>Threads\<close>

record 'a queue_sys =
  lfq :: "'a lf_queue"
  q_at :: "nat \<Rightarrow> 'a queue_pc"

definition q_set :: "nat \<Rightarrow> 'a queue_pc \<times> 'a lf_queue \<Rightarrow> 'a queue_sys \<Rightarrow> 'a queue_sys" where
  "q_set t r x = x\<lparr>lfq := snd r, q_at := (q_at x)(t := fst r)\<rparr>"

inductive queue_step :: "nat \<Rightarrow> 'a queue_sys \<Rightarrow> 'a queue_sys \<Rightarrow> bool" for N where
  call_enq: "t < N \<Longrightarrow> q_at x t = Q_Out \<Longrightarrow> dummy \<notin> q_alive (lfq x) \<Longrightarrow>
    queue_step N x (q_set t (Enq_Load v dummy, make_node dummy (lfq x)) x)"
| call_deq: "t < N \<Longrightarrow> q_at x t = Q_Out \<Longrightarrow> queue_step N x (q_set t (Deq_Load, lfq x) x)"
| in_enq: "t < N \<Longrightarrow> queue_step N x (q_set t (Queue_Push t pad (q_at x t) (lfq x)) x)"
| in_deq: "t < N \<Longrightarrow> queue_step N x (q_set t (Queue_TryPop t pad (q_at x t) (lfq x)) x)"
| in_free: "t < N \<Longrightarrow> queue_step N x (q_set t (FreeExternalCount (q_at x t) (lfq x)) x)"
| in_release: "t < N \<Longrightarrow> queue_step N x (q_set t (Node_ReleaseRef (q_at x t) (lfq x)) x)"

definition queue_init :: "'a queue_sys \<Rightarrow> bool" where
  "queue_init x \<longleftrightarrow> (\<exists>n mem. x = \<lparr>lfq = LockFreeQueue n mem, q_at = (\<lambda>_. Q_Out)\<rparr>)"

end
