(* ===== verification/Lock_Free_Queue_Safety.thy ===== *)
theory Lock_Free_Queue_Safety
  imports Lock_Free_Queue
begin

text \<open>
  Why LockFreeQueue is safe: for every node the counts of the pointers that lead to it and its own count
  add up to the threads that hold it, so a thread that takes both counts to zero is alone with it; and
  what the queue holds is what a LockQueue holds after the same pushes and pops.
\<close>

section \<open>What a thread holds\<close>

fun rel_dummy :: "'a release_to \<Rightarrow> nat option" where
  "rel_dummy (Push_again v d c) = Some d"
| "rel_dummy k = None"

fun dummy_of :: "'a queue_pc \<Rightarrow> nat option" where
  "dummy_of (Enq_Load v d) = Some d"
| "dummy_of (Enq_Increase v d c) = Some d"
| "dummy_of (Enq_Data v d c) = Some d"
| "dummy_of (Enq_Next v d c) = Some d"
| "dummy_of (Enq_Exchange v d c) = Some d"
| "dummy_of (Rel_Load k n) = rel_dummy k"
| "dummy_of (Rel_Cas k n o') = rel_dummy k"
| "dummy_of (Rel_Delete k n) = rel_dummy k"
| "dummy_of pc = None"

fun held :: "'a queue_pc \<Rightarrow> nat option" where
  "held (Enq_Data v d c) = cp_ptr c"
| "held (Enq_Next v d c) = cp_ptr c"
| "held (Enq_Exchange v d c) = cp_ptr c"
| "held (Deq_Tail c) = cp_ptr c"
| "held (Deq_Next c) = cp_ptr c"
| "held (Deq_Cas c nx) = cp_ptr c"
| "held (Deq_Data c v) = cp_ptr c"
| "held (Free_Load c) = cp_ptr c"
| "held (Free_Cas c o') = cp_ptr c"
| "held (Rel_Load k n) = Some n"
| "held (Rel_Cas k n o') = Some n"
| "held pc = None"

fun freeing :: "'a queue_pc \<Rightarrow> counted_ptr option" where
  "freeing (Deq_Data c v) = Some c"
| "freeing (Free_Load c) = Some c"
| "freeing (Free_Cas c o') = Some c"
| "freeing pc = None"

fun deleting :: "'a queue_pc \<Rightarrow> nat option" where
  "deleting (Free_Delete n) = Some n"
| "deleting (Rel_Delete k n) = Some n"
| "deleting pc = None"

fun q_writing :: "'a queue_pc \<Rightarrow> bool" where
  "q_writing (Enq_Next v d c) = True"
| "q_writing (Enq_Exchange v d c) = True"
| "q_writing pc = False"

section \<open>The balance of a node\<close>

definition extra :: "counted_ptr \<Rightarrow> nat \<Rightarrow> 30 word" where
  "extra c n = (if cp_ptr c = Some n then ucast (externalCount c) - 1 else 0)"

definition weight :: "'a queue_pc \<Rightarrow> nat \<Rightarrow> 30 word" where
  "weight pc n = (case freeing pc of None \<Rightarrow> 0 | Some c \<Rightarrow> extra c n) - (if held pc = Some n then 1 else 0)"

definition slots :: "'a queue_pc \<Rightarrow> nat \<Rightarrow> nat" where
  "slots pc n = (case freeing pc of None \<Rightarrow> 0 | Some c \<Rightarrow> if cp_ptr c = Some n then 1 else 0)"

definition balance :: "nat \<Rightarrow> 'a lf_queue \<Rightarrow> (nat \<Rightarrow> 'a queue_pc) \<Rightarrow> nat \<Rightarrow> 30 word" where
  "balance N s pc n = internalCount (q_nodes s n) + extra (q_head s) n + extra (q_tail s) n + (\<Sum>t<N. weight (pc t) n)"

definition pointers :: "nat \<Rightarrow> (nat \<Rightarrow> 'a queue_pc) \<Rightarrow> nat list \<Rightarrow> nat \<Rightarrow> nat" where
  "pointers N pc xs n = (if n \<in> set xs then 1 else 0) + (if n = last xs then 1 else 0) + (\<Sum>t<N. slots (pc t) n)"

lemma sum_move: "(t :: nat) < N \<Longrightarrow> (\<Sum>u<N. f (if u = t then p else pc u)) + f (pc t) = (\<Sum>u<N. f (pc u)) + f p"
  for f :: "'a queue_pc \<Rightarrow> 'b::comm_monoid_add"
proof -
  assume t: "t < N"
  have "(\<Sum>u<N. f (if u = t then p else pc u)) = f p + (\<Sum>u\<in>{..<N} - {t}. f (pc u))"
    using t by (subst sum.remove[of _ t]) (auto intro: sum.cong)
  moreover have "(\<Sum>u<N. f (pc u)) = f (pc t) + (\<Sum>u\<in>{..<N} - {t}. f (pc u))"
    using t by (subst sum.remove[of _ t]) auto
  ultimately show ?thesis by (simp add: ac_simps)
qed

section \<open>The invariant\<close>

fun linked :: "(nat \<Rightarrow> 'a queue_node) \<Rightarrow> nat list \<Rightarrow> bool" where
  "linked nd (a # b # xs) = (nd_next (nd a) = \<lparr>externalCount = 1, cp_ptr = Some b\<rparr> \<and> linked nd (b # xs))"
| "linked nd xs = True"

fun replay_queue :: "'a queue_event list \<Rightarrow> 'a lock_queue \<Rightarrow> 'a lock_queue option" where
  "replay_queue [] q = Some q"
| "replay_queue (Enqueued t v # es) q = replay_queue es (LockQueue_Push (Some v) q)"
| "replay_queue (Dequeued t v # es) q =
     (if fst (LockQueue_Pop q) = Some v then replay_queue es (snd (LockQueue_Pop q)) else None)"
| "replay_queue (Found_empty t # es) q = (if fst (LockQueue_Pop q) = None then replay_queue es q else None)"

definition list_ok :: "'a lf_queue \<Rightarrow> nat list \<Rightarrow> bool" where
  "list_ok s xs \<longleftrightarrow> xs \<noteq> [] \<and> distinct xs \<and> set xs \<subseteq> q_alive s \<and> cp_ptr (q_head s) = Some (hd xs)
     \<and> cp_ptr (q_tail s) = Some (last xs) \<and> linked (q_nodes s) xs
     \<and> replay_queue (q_history s) new_lock_queue = Some \<lparr>m_items = map (\<lambda>n. nd_data (q_nodes s n)) (butlast xs)\<rparr>"

fun place_ok :: "'a lf_queue \<Rightarrow> nat list \<Rightarrow> 'a queue_pc \<Rightarrow> bool" where
  "place_ok s xs (Enq_Data v d c) = (cp_ptr c \<noteq> None)"
| "place_ok s xs (Enq_Next v d c) = (cp_ptr c = Some (last xs) \<and> nd_data (q_nodes s (last xs)) = Some v)"
| "place_ok s xs (Enq_Exchange v d c) = (cp_ptr c = Some (last xs) \<and> nd_data (q_nodes s (last xs)) = Some v
     \<and> nd_next (q_nodes s (last xs)) = \<lparr>externalCount = 1, cp_ptr = Some d\<rparr>)"
| "place_ok s xs (Deq_Tail c) = (\<exists>n. cp_ptr c = Some n \<and> (n \<in> set xs \<longrightarrow> n = hd xs))"
| "place_ok s xs (Deq_Next c) = (\<exists>n. cp_ptr c = Some n \<and> (n \<in> set xs \<longrightarrow> n = hd xs \<and> n \<noteq> last xs))"
| "place_ok s xs (Deq_Cas c nx) = (\<exists>n. cp_ptr c = Some n
     \<and> (n \<in> set xs \<longrightarrow> n = hd xs \<and> n \<noteq> last xs \<and> nd_next (q_nodes s n) = nx))"
| "place_ok s xs (Deq_Data c v) = (\<exists>n. cp_ptr c = Some n \<and> nd_data (q_nodes s n) = Some v)"
| "place_ok s xs (Free_Load c) = (cp_ptr c \<noteq> None)"
| "place_ok s xs (Free_Cas c o') = (cp_ptr c \<noteq> None)"
| "place_ok s xs (Q_Faulted e) = False"
| "place_ok s xs pc = True"

definition q_pc_ok :: "'a lf_queue \<Rightarrow> nat list \<Rightarrow> 'a queue_pc \<Rightarrow> bool" where
  "q_pc_ok s xs p \<longleftrightarrow> (\<forall>d. dummy_of p = Some d \<longrightarrow> d \<in> q_alive s \<and> d \<notin> set xs \<and> q_nodes s d = new_node
        \<and> held p \<noteq> Some d \<and> deleting p \<noteq> Some d)
     \<and> (\<forall>n. held p = Some n \<longrightarrow> n \<in> q_alive s)
     \<and> (\<forall>n. deleting p = Some n \<longrightarrow> n \<in> q_alive s \<and> n \<notin> set xs) \<and> place_ok s xs p"

definition compat :: "'a queue_pc \<Rightarrow> 'a queue_pc \<Rightarrow> bool" where
  "compat p q \<longleftrightarrow> (\<forall>d. dummy_of p = Some d \<longrightarrow> dummy_of q \<noteq> Some d \<and> held q \<noteq> Some d \<and> deleting q \<noteq> Some d)
     \<and> (\<forall>n. deleting p = Some n \<longrightarrow> held q \<noteq> Some n \<and> deleting q \<noteq> Some n) \<and> \<not> (q_writing p \<and> q_writing q)"

definition published :: "nat \<Rightarrow> 'a lf_queue \<Rightarrow> (nat \<Rightarrow> 'a queue_pc) \<Rightarrow> nat \<Rightarrow> bool" where
  "published N s pc n \<longleftrightarrow> n \<in> q_alive s \<and> (\<forall>t<N. dummy_of (pc t) \<noteq> Some n)"

definition node_ok :: "nat \<Rightarrow> 'a lf_queue \<Rightarrow> (nat \<Rightarrow> 'a queue_pc) \<Rightarrow> nat list \<Rightarrow> nat \<Rightarrow> bool" where
  "node_ok N s pc xs n \<longleftrightarrow> (n \<noteq> last xs \<longrightarrow> nd_data (q_nodes s n) \<noteq> None) \<and> balance N s pc n = 0
     \<and> unat (externalCountRemaining (q_nodes s n)) = pointers N pc xs n"

definition lfq_inv :: "nat \<Rightarrow> 'a lf_queue \<Rightarrow> (nat \<Rightarrow> 'a queue_pc) \<Rightarrow> nat list \<Rightarrow> bool" where
  "lfq_inv N s pc xs \<longleftrightarrow> list_ok s xs \<and> (\<forall>n. published N s pc n \<longrightarrow> node_ok N s pc xs n)
     \<and> (\<forall>t<N. q_pc_ok s xs (pc t)) \<and> (\<forall>t<N. \<forall>u<N. t \<noteq> u \<longrightarrow> compat (pc t) (pc u))
     \<and> (nd_data (q_nodes s (last xs)) \<noteq> None \<longleftrightarrow> (\<exists>t<N. q_writing (pc t))) \<and> (\<forall>t\<ge>N. pc t = Q_Out)
     \<and> (\<forall>n. published N s pc n \<longrightarrow> node_count s n = (0, 0) \<longrightarrow> (\<exists>t<N. deleting (pc t) = Some n))"

lemma lfq_invD:
  assumes "lfq_inv N s pc xs"
  shows "list_ok s xs" "published N s pc n \<Longrightarrow> node_ok N s pc xs n" "t < N \<Longrightarrow> q_pc_ok s xs (pc t)"
    "t < N \<Longrightarrow> u < N \<Longrightarrow> t \<noteq> u \<Longrightarrow> compat (pc t) (pc u)"
    "nd_data (q_nodes s (last xs)) \<noteq> None \<longleftrightarrow> (\<exists>t<N. q_writing (pc t))" "t \<ge> N \<Longrightarrow> pc t = Q_Out"
    "published N s pc n \<Longrightarrow> node_count s n = (0, 0) \<Longrightarrow> \<exists>t<N. deleting (pc t) = Some n"
  using assms unfolding lfq_inv_def by blast+

lemma lfq_inv_step:
  assumes inv: "lfq_inv N s pc xs" and t: "t < N"
    and list: "list_ok s' xs'"
    and nodes: "\<And>n. published N s' (pc(t := p)) n \<Longrightarrow> node_ok N s' (pc(t := p)) xs' n"
    and here: "q_pc_ok s' xs' p" and there: "\<And>u. u < N \<Longrightarrow> u \<noteq> t \<Longrightarrow> q_pc_ok s' xs' (pc u)"
    and both: "\<And>u. u < N \<Longrightarrow> u \<noteq> t \<Longrightarrow> compat p (pc u) \<and> compat (pc u) p"
    and writer: "nd_data (q_nodes s' (last xs')) \<noteq> None \<longleftrightarrow> q_writing p \<or> (\<exists>u<N. u \<noteq> t \<and> q_writing (pc u))"
    and dead: "\<And>n. published N s' (pc(t := p)) n \<Longrightarrow> node_count s' n = (0, 0) \<Longrightarrow>
      deleting p = Some n \<or> (deleting (pc t) \<noteq> Some n \<and> published N s pc n \<and> node_count s n = (0, 0))"
  shows "lfq_inv N s' (pc(t := p)) xs'"
proof -
  note D = lfq_invD[OF inv]
  have "\<exists>u<N. deleting ((pc(t := p)) u) = Some n" if n: "published N s' (pc(t := p)) n" "node_count s' n = (0, 0)" for n
  proof (cases "deleting p = Some n")
    case True
    then show ?thesis using t by (intro exI[of _ t]) simp
  next
    case False
    then obtain u where "u < N" "deleting (pc u) = Some n" "u \<noteq> t" using dead[OF n] D(7)[of n] by auto
    then show ?thesis by (intro exI[of _ u]) simp
  qed
  moreover have "q_pc_ok s' xs' ((pc(t := p)) u)" if "u < N" for u using here there[OF that] by (cases "u = t") simp_all
  moreover have "compat ((pc(t := p)) u) ((pc(t := p)) v)" if "u < N" "v < N" "u \<noteq> v" for u v
    using both[OF that(1)] both[OF that(2)] D(4)[OF that] that(3) by (cases "u = t"; cases "v = t") auto
  moreover have "(\<exists>u<N. q_writing ((pc(t := p)) u)) \<longleftrightarrow> q_writing p \<or> (\<exists>u<N. u \<noteq> t \<and> q_writing (pc u))" using t by auto
  moreover have "(pc(t := p)) u = Q_Out" if "N \<le> u" for u using D(6)[OF that] that t by simp
  ultimately show ?thesis using list nodes writer unfolding lfq_inv_def by blast
qed

lemma list_okD:
  assumes "list_ok s xs"
  shows "xs \<noteq> []" "distinct xs" "set xs \<subseteq> q_alive s" "cp_ptr (q_head s) = Some (hd xs)"
    "cp_ptr (q_tail s) = Some (last xs)" "linked (q_nodes s) xs" "last xs \<in> set xs" "hd xs \<in> set xs"
    "replay_queue (q_history s) new_lock_queue = Some \<lparr>m_items = map (\<lambda>n. nd_data (q_nodes s n)) (butlast xs)\<rparr>"
  using assms unfolding list_ok_def by auto

lemma q_pc_okD:
  assumes "q_pc_ok s xs p"
  shows "dummy_of p = Some d \<Longrightarrow> d \<in> q_alive s" "dummy_of p = Some d \<Longrightarrow> d \<notin> set xs"
    "dummy_of p = Some d \<Longrightarrow> q_nodes s d = new_node" "dummy_of p = Some d \<Longrightarrow> held p \<noteq> Some d"
    "dummy_of p = Some d \<Longrightarrow> deleting p \<noteq> Some d" "held p = Some n \<Longrightarrow> n \<in> q_alive s"
    "deleting p = Some n \<Longrightarrow> n \<in> q_alive s" "deleting p = Some n \<Longrightarrow> n \<notin> set xs" "place_ok s xs p"
  using assms unfolding q_pc_ok_def by blast+

lemma compatD:
  assumes "compat p q"
  shows "dummy_of p = Some d \<Longrightarrow> dummy_of q \<noteq> Some d" "dummy_of p = Some d \<Longrightarrow> held q \<noteq> Some d"
    "dummy_of p = Some d \<Longrightarrow> deleting q \<noteq> Some d" "deleting p = Some n \<Longrightarrow> held q \<noteq> Some n"
    "deleting p = Some n \<Longrightarrow> deleting q \<noteq> Some n" "\<not> (q_writing p \<and> q_writing q)"
  using assms unfolding compat_def by blast+

text \<open>A held node, and every node of the list, is published.\<close>

lemma held_published:
  assumes inv: "lfq_inv N s pc xs" and t: "t < N" and h: "held (pc t) = Some n"
  shows "published N s pc n"
proof -
  have "dummy_of (pc u) \<noteq> Some n" if u: "u < N" for u
    using q_pc_okD(4)[OF lfq_invD(3)[OF inv t]] compatD(2)[OF lfq_invD(4)[OF inv u t]] h by (cases "u = t") auto
  then show ?thesis using q_pc_okD(6)[OF lfq_invD(3)[OF inv t] h] by (simp add: published_def)
qed

lemma list_published:
  assumes inv: "lfq_inv N s pc xs" and "n \<in> set xs"
  shows "published N s pc n"
  using assms(2) list_okD(3)[OF lfq_invD(1)[OF inv]] q_pc_okD(2)[OF lfq_invD(3)[OF inv]] by (auto simp: published_def)

lemma balance_move:
  assumes "t < N"
  shows "balance N s' (pc(t := p)) n - balance N s pc n =
      (internalCount (q_nodes s' n) - internalCount (q_nodes s n)) + (extra (q_head s') n - extra (q_head s) n)
      + (extra (q_tail s') n - extra (q_tail s) n) + (weight p n - weight (pc t) n)"
  using sum_move[OF assms, of "\<lambda>q. weight q n" p pc] by (simp add: balance_def algebra_simps)

lemma pointers_move:
  assumes "t < N"
  shows "pointers N (pc(t := p)) xs' n + slots (pc t) n + (if n \<in> set xs then 1 else 0) + (if n = last xs then 1 else 0)
    = pointers N pc xs n + slots p n + (if n \<in> set xs' then 1 else 0) + (if n = last xs' then 1 else 0)"
  using sum_move[OF assms, of "\<lambda>q. slots q n" p pc] by (simp add: pointers_def)

lemma published_move:
  assumes "t < N"
  shows "published N s' (pc(t := p)) n \<longleftrightarrow> n \<in> q_alive s' \<and> dummy_of p \<noteq> Some n \<and> (\<forall>u<N. u \<noteq> t \<longrightarrow> dummy_of (pc u) \<noteq> Some n)"
  using assms by (auto simp: published_def)

section \<open>Steps that only move a thread\<close>

lemma place_ok_history: "place_ok (s\<lparr>q_history := h\<rparr>) xs p = place_ok s xs p"
  by (cases "(s, xs, p)" rule: place_ok.cases) auto

lemma lfq_neutral:
  assumes inv: "lfq_inv N s pc xs" and t: "t < N" and s': "s' = s\<lparr>q_history := h\<rparr>" and list: "list_ok s' xs"
    and same: "dummy_of p = dummy_of (pc t)" "held p = held (pc t)" "freeing p = freeing (pc t)"
      "deleting p = deleting (pc t)" "q_writing p = q_writing (pc t)" and place: "place_ok s xs p"
  shows "lfq_inv N s' (pc(t := p)) xs"
proof (rule lfq_inv_step[OF inv t list])
  note D = lfq_invD[OF inv]
  have w: "weight p n = weight (pc t) n" "slots p n = slots (pc t) n" for n by (simp_all add: weight_def slots_def same)
  show "node_ok N s' (pc(t := p)) xs n" if n: "published N s' (pc(t := p)) n" for n
  proof -
    have "published N s pc n" using n t by (auto simp: published_def s' same split: if_splits)
    then show ?thesis
      using D(2)[of n] balance_move[OF t, of s' pc p n s] pointers_move[OF t, of pc p xs n xs] w
      by (simp add: node_ok_def s')
  qed
  have ok: "q_pc_ok s' xs q = q_pc_ok s xs q" for q by (simp add: q_pc_ok_def s' place_ok_history)
  show "q_pc_ok s' xs p" using D(3)[OF t] place unfolding ok by (simp add: q_pc_ok_def same)
  show "q_pc_ok s' xs (pc u)" if "u < N" "u \<noteq> t" for u using D(3)[OF that(1)] ok by simp
  show "compat p (pc u) \<and> compat (pc u) p" if "u < N" "u \<noteq> t" for u
    using D(4)[OF t that(1)] D(4)[OF that(1) t] that(2) by (simp add: compat_def same)
  show "nd_data (q_nodes s' (last xs)) \<noteq> None \<longleftrightarrow> q_writing p \<or> (\<exists>u<N. u \<noteq> t \<and> q_writing (pc u))"
    using D(5) t by (auto simp: s' same)
  show "deleting p = Some n \<or> (deleting (pc t) \<noteq> Some n \<and> published N s pc n \<and> node_count s n = (0, 0))"
    if "published N s' (pc(t := p)) n" "node_count s' n = (0, 0)" for n
    using that t by (auto simp: published_def s' same node_count_def split: if_splits)
qed

lemma lfq_move:
  assumes "lfq_inv N s pc xs" "t < N" "dummy_of p = dummy_of (pc t)" "held p = held (pc t)" "freeing p = freeing (pc t)"
      "deleting p = deleting (pc t)" "q_writing p = q_writing (pc t)" "place_ok s xs p"
  shows "lfq_inv N s (pc(t := p)) xs"
  by (rule lfq_neutral[OF assms(1,2), of s "q_history s"]) (use assms lfq_invD(1)[OF assms(1)] in simp_all)

section \<open>A call of Push\<close>

lemma make_node_inv:
  assumes inv: "lfq_inv N s pc xs" and t: "t < N" and pc: "pc t = Q_Out" and new: "d \<notin> q_alive s"
  shows "lfq_inv N (make_node d s) (pc(t := Enq_Load v d)) xs"
proof (rule lfq_inv_step[OF inv t])
  let ?s = "make_node d s" and ?p = "Enq_Load v d :: 'a queue_pc"
  note D = lfq_invD[OF inv]
  note L = list_okD[OF D(1)]
  have al: "q_alive ?s = insert d (q_alive s)" "q_nodes ?s = (q_nodes s)(d := new_node)" "q_head ?s = q_head s"
    "q_tail ?s = q_tail s" "q_history ?s = q_history s" by (simp_all add: make_node_def upd_node_def)
  have nxs: "d \<notin> set xs" using L(3) new by blast
  have lk: "linked ((q_nodes s)(d := new_node)) ys = linked (q_nodes s) ys" if "d \<notin> set ys" for ys
    using that by (induction "q_nodes s" ys rule: linked.induct) simp_all
  have md: "map (\<lambda>n. nd_data (((q_nodes s)(d := new_node)) n)) (butlast xs) = map (\<lambda>n. nd_data (q_nodes s n)) (butlast xs)"
    using nxs by (auto dest: in_set_butlastD)
  show "list_ok ?s xs" using L nxs md lk[OF nxs] unfolding list_ok_def al by auto
  show "node_ok N ?s (pc(t := ?p)) xs n" if n: "published N ?s (pc(t := ?p)) n" for n
  proof -
    have "dummy_of (pc u) \<noteq> Some n" if "u < N" for u
      using n that pc by (cases "u = t") (auto simp: published_move[OF t])
    then have n': "n \<noteq> d" "published N s pc n" using n by (auto simp: published_move[OF t] published_def[of N s] al)
    show ?thesis
      using D(2)[OF n'(2)] n'(1) balance_move[OF t, of ?s pc ?p n s] pointers_move[OF t, of pc ?p xs n xs] pc
      by (simp add: node_ok_def al weight_def slots_def)
  qed
  have pl: "place_ok ?s xs q = place_ok s xs q" if "held q \<noteq> Some d" for q :: "'a queue_pc"
    using that L(7) nxs by (cases "(s, xs, q)" rule: place_ok.cases) (auto simp: al)
  show "q_pc_ok ?s xs ?p" by (simp add: q_pc_ok_def al nxs)
  fix u assume u: "u < N" "u \<noteq> t"
  have a: "held (pc u) \<noteq> Some d" "dummy_of (pc u) \<noteq> Some d" "deleting (pc u) \<noteq> Some d"
    using q_pc_okD(1,6,7)[OF D(3)[OF u(1)]] new by blast+
  show "q_pc_ok ?s xs (pc u)" using D(3)[OF u(1)] a pl[OF a(1)] by (auto simp: q_pc_ok_def al)
  show "compat ?p (pc u) \<and> compat (pc u) ?p" using a by (auto simp: compat_def)
next
  note L = list_okD[OF lfq_invD(1)[OF inv]]
  have "d \<noteq> last xs" using L(3,7) new by blast
  then show "nd_data (q_nodes (make_node d s) (last xs)) \<noteq> None \<longleftrightarrow> q_writing (Enq_Load v d) \<or> (\<exists>u<N. u \<noteq> t \<and> q_writing (pc u))"
    using lfq_invD(5)[OF inv] pc t by (auto simp: make_node_def upd_node_def)
  show "deleting (Enq_Load v d) = Some n \<or> (deleting (pc t) \<noteq> Some n \<and> published N s pc n \<and> node_count s n = (0, 0))"
    if n: "published N (make_node d s) (pc(t := Enq_Load v d)) n" "node_count (make_node d s) n = (0, 0)" for n
  proof -
    have nd: "n \<noteq> d" using n(1) t by (auto simp: published_move)
    have "dummy_of (pc u) \<noteq> Some n" if "u < N" for u
      using n(1) that pc by (cases "u = t") (auto simp: published_move[OF t])
    then show ?thesis using n nd pc by (auto simp: published_def make_node_def upd_node_def node_count_def)
  qed
qed

section \<open>Taking a reference\<close>

lemma ucast_plus_30: "(ucast (a + b :: u32) :: 30 word) = ucast a + ucast b"
proof -
  have d: "(2 ^ 30 :: nat) dvd 2 ^ 32" by (rule le_imp_power_dvd) simp
  have "unat (ucast (a + b) :: 30 word) = (unat a + unat b) mod 2 ^ 30"
    unfolding unsigned_ucast_eq unat_word_ariths take_bit_eq_mod using mod_mod_cancel[OF d] by simp
  also have "\<dots> = unat (ucast a + ucast b :: 30 word)"
    unfolding unat_word_ariths unsigned_ucast_eq take_bit_eq_mod by (simp add: mod_add_eq)
  finally show ?thesis by (simp add: word_unat_eq_iff)
qed

lemma ucast_minus_30: "(ucast (a - 2 :: u32) :: 30 word) = ucast a - 2"
  using ucast_plus_30[of "a - 2" 2] by (simp add: algebra_simps)

text \<open>The count of the pointer and the thread's hold grow together.\<close>

lemma extra_increase:
  assumes "cp_ptr c = Some n"
  shows "extra (c\<lparr>externalCount := externalCount c + 1\<rparr>) m = extra c m + (if m = n then 1 else 0)"
  using assms by (simp add: extra_def ucast_plus_30)

lemma place_ok_pointers: "place_ok (s\<lparr>q_head := h, q_tail := k\<rparr>) xs p = place_ok s xs p"
  by (cases "(s, xs, p)" rule: place_ok.cases) auto

lemma lfq_increase:
  assumes inv: "lfq_inv N s pc xs" and t: "t < N" and n: "n \<in> set xs"
    and s': "s' = s\<lparr>q_head := h, q_tail := k\<rparr>" and ptr: "cp_ptr h = cp_ptr (q_head s)" "cp_ptr k = cp_ptr (q_tail s)"
    and grow: "\<And>m. extra h m + extra k m = extra (q_head s) m + extra (q_tail s) m + (if m = n then 1 else 0)"
    and p: "dummy_of p = dummy_of (pc t)" "held p = Some n" "freeing p = None" "deleting p = None" "\<not> q_writing p"
    and old: "held (pc t) = None" "freeing (pc t) = None" "deleting (pc t) = None" "\<not> q_writing (pc t)"
    and place: "place_ok s xs p"
  shows "lfq_inv N s' (pc(t := p)) xs"
proof (rule lfq_inv_step[OF inv t])
  note D = lfq_invD[OF inv]
  note L = list_okD[OF D(1)]
  have al: "q_alive s' = q_alive s" "q_nodes s' = q_nodes s" "q_history s' = q_history s" "q_head s' = h" "q_tail s' = k"
    by (simp_all add: s')
  show "list_ok s' xs" using L ptr unfolding list_ok_def al by auto
  show "node_ok N s' (pc(t := p)) xs m" if m: "published N s' (pc(t := p)) m" for m
  proof -
    have "published N s pc m" using m p(1) t by (auto simp: published_def al split: if_splits)
    then have b: "node_ok N s pc xs m" by (rule D(2))
    have "weight p m - weight (pc t) m = - (if m = n then 1 else 0)" using p old by (simp add: weight_def)
    then have "balance N s' (pc(t := p)) m - balance N s pc m = 0"
      using balance_move[OF t, of s' pc p m s] grow[of m] by (simp add: al algebra_simps)
    moreover have "pointers N (pc(t := p)) xs m = pointers N pc xs m"
      using pointers_move[OF t, of pc p xs m xs] p old by (simp add: slots_def)
    ultimately show ?thesis using b by (simp add: node_ok_def al)
  qed
  have pl: "place_ok s' xs q = place_ok s xs q" for q :: "'a queue_pc" unfolding s' by (rule place_ok_pointers)
  have "n \<notin> {d. dummy_of (pc t) = Some d}" using q_pc_okD(2)[OF D(3)[OF t]] n by blast
  then show "q_pc_ok s' xs p" using D(3)[OF t] n L(3) place by (auto simp: q_pc_ok_def p old al pl)
  fix u assume u: "u < N" "u \<noteq> t"
  show "q_pc_ok s' xs (pc u)" using D(3)[OF u(1)] by (simp add: q_pc_ok_def al pl)
  have c: "compat (pc t) (pc u)" "compat (pc u) (pc t)" using D(4)[OF t u(1)] D(4)[OF u(1) t] u(2) by auto
  have "dummy_of (pc u) \<noteq> Some n" "deleting (pc u) \<noteq> Some n" using q_pc_okD(2,8)[OF D(3)[OF u(1)]] n by blast+
  then show "compat p (pc u) \<and> compat (pc u) p" using c p old by (auto simp: compat_def)
next
  show "nd_data (q_nodes s' (last xs)) \<noteq> None \<longleftrightarrow> q_writing p \<or> (\<exists>u<N. u \<noteq> t \<and> q_writing (pc u))"
    using lfq_invD(5)[OF inv] p(5) old(4) t by (auto simp: s')
  show "deleting p = Some m \<or> (deleting (pc t) \<noteq> Some m \<and> published N s pc m \<and> node_count s m = (0, 0))"
    if "published N s' (pc(t := p)) m" "node_count s' m = (0, 0)" for m
    using that t p(1) old(3) by (auto simp: published_def s' node_count_def split: if_splits)
qed

section \<open>Writing the last node\<close>

lemma linked_cong:
  assumes "\<And>m. m \<in> set (butlast xs) \<Longrightarrow> nd_next (f m) = nd_next (g m)"
  shows "linked f xs = linked g xs"
  using assms by (induction f xs rule: linked.induct) auto

lemma not_butlast: "distinct xs \<Longrightarrow> last xs \<notin> set (butlast xs)"
  by (cases xs rule: rev_cases) auto

text \<open>The fields data and next of the last node change; both are read of other nodes only.\<close>

lemma lfq_write_last:
  assumes inv: "lfq_inv N s pc xs" and t: "t < N" and n: "n = last xs"
    and s': "s' = upd_node n f s" and f: "internalCount (f (q_nodes s n)) = internalCount (q_nodes s n)"
      "externalCountRemaining (f (q_nodes s n)) = externalCountRemaining (q_nodes s n)"
    and p: "dummy_of p = dummy_of (pc t)" "held p = held (pc t)" "freeing p = freeing (pc t)"
      "deleting p = deleting (pc t)" "q_writing p"
    and alone: "\<And>u. u < N \<Longrightarrow> u \<noteq> t \<Longrightarrow> \<not> q_writing (pc u)" and data: "nd_data (f (q_nodes s n)) \<noteq> None"
    and keep: "nd_data (q_nodes s n) \<noteq> None \<Longrightarrow> nd_data (f (q_nodes s n)) = nd_data (q_nodes s n)"
    and place: "place_ok s' xs p"
  shows "lfq_inv N s' (pc(t := p)) xs"
proof (rule lfq_inv_step[OF inv t])
  note D = lfq_invD[OF inv]
  note L = list_okD[OF D(1)]
  have al: "q_alive s' = q_alive s" "q_nodes s' = (q_nodes s)(n := f (q_nodes s n))" "q_head s' = q_head s"
    "q_tail s' = q_tail s" "q_history s' = q_history s" by (simp_all add: s' upd_node_def)
  have nb: "m \<noteq> n" if "m \<in> set (butlast xs)" for m using that not_butlast[OF L(2)] n by auto
  have "linked (q_nodes s') xs = linked (q_nodes s) xs" using nb by (intro linked_cong) (simp add: al)
  moreover have "map (\<lambda>m. nd_data (q_nodes s' m)) (butlast xs) = map (\<lambda>m. nd_data (q_nodes s m)) (butlast xs)"
    using nb by (simp add: al)
  ultimately show "list_ok s' xs" using L unfolding list_ok_def by (simp add: al(1,3-5))
  show "node_ok N s' (pc(t := p)) xs m" if m: "published N s' (pc(t := p)) m" for m
  proof -
    have "published N s pc m" using m p(1) t by (auto simp: published_def al split: if_splits)
    moreover have "weight p m = weight (pc t) m" "slots p m = slots (pc t) m" by (simp_all add: weight_def slots_def p)
    ultimately show ?thesis
      using D(2)[of m] balance_move[OF t, of s' pc p m s] pointers_move[OF t, of pc p xs m xs] n f
      by (simp add: node_ok_def al split: if_splits)
  qed
  have nd: "d \<noteq> n" if "u < N" "dummy_of (pc u) = Some d" for u d using q_pc_okD(2)[OF D(3)[OF that(1)] that(2)] L(7) n by auto
  show "q_pc_ok s' xs p" using D(3)[OF t] nd[OF t] place by (simp add: q_pc_ok_def p al)
  fix u assume u: "u < N" "u \<noteq> t"
  have "place_ok s' xs (pc u)"
    using q_pc_okD(9)[OF D(3)[OF u(1)]] alone[OF u] n keep by (cases "(s', xs, pc u)" rule: place_ok.cases) (auto simp: al)
  then show "q_pc_ok s' xs (pc u)" using D(3)[OF u(1)] nd[OF u(1)] by (simp add: q_pc_ok_def al)
  show "compat p (pc u) \<and> compat (pc u) p"
    using D(4)[OF t u(1)] D(4)[OF u(1) t] u(2) alone[OF u] by (simp add: compat_def p)
next
  show "nd_data (q_nodes s' (last xs)) \<noteq> None \<longleftrightarrow> q_writing p \<or> (\<exists>u<N. u \<noteq> t \<and> q_writing (pc u))"
    using p(5) data n by (simp add: s' upd_node_def)
  show "deleting p = Some m \<or> (deleting (pc t) \<noteq> Some m \<and> published N s pc m \<and> node_count s m = (0, 0))"
    if "published N s' (pc(t := p)) m" "node_count s' m = (0, 0)" for m
    using that t p(1,4) f by (auto simp: published_def s' node_count_def upd_node_def split: if_splits)
qed

section \<open>The two exchanges that move the ends\<close>

lemma replay_queue_append:
  "replay_queue (es @ fs) q = (case replay_queue es q of None \<Rightarrow> None | Some q' \<Rightarrow> replay_queue fs q')"
  by (induction es q rule: replay_queue.induct) simp_all

lemma linked_snoc:
  "xs \<noteq> [] \<Longrightarrow> linked f (xs @ [d]) \<longleftrightarrow> linked f xs \<and> nd_next (f (last xs)) = \<lparr>externalCount = 1, cp_ptr = Some d\<rparr>"
  by (induction f xs rule: linked.induct) auto

lemma freeing_held: "freeing p = Some c \<Longrightarrow> held p = cp_ptr c"
  by (cases p) auto

lemma no_weight: "held p \<noteq> Some n \<Longrightarrow> weight p n = 0 \<and> slots p n = 0"
  using freeing_held[of p] by (auto simp: weight_def slots_def extra_def split: option.split)

lemma exchange_inv:
  assumes inv: "lfq_inv N s pc xs" and t: "t < N" and pc: "pc t = Enq_Exchange v d c"
    and s': "s' = s\<lparr>q_tail := \<lparr>externalCount = 1, cp_ptr = Some d\<rparr>, q_history := q_history s @ [Enqueued t v]\<rparr>"
  shows "lfq_inv N s' (pc(t := Free_Load (q_tail s))) (xs @ [d])"
proof (rule lfq_inv_step[OF inv t])
  let ?p = "Free_Load (q_tail s) :: 'a queue_pc"
  note D = lfq_invD[OF inv]
  note L = list_okD[OF D(1)]
  have al: "q_alive s' = q_alive s" "q_nodes s' = q_nodes s" "q_head s' = q_head s"
    "q_tail s' = \<lparr>externalCount = 1, cp_ptr = Some d\<rparr>" "q_history s' = q_history s @ [Enqueued t v]" by (simp_all add: s')
  have dd: "dummy_of (pc t) = Some d" using pc by simp
  have d: "d \<in> q_alive s" "d \<notin> set xs" "q_nodes s d = new_node" using q_pc_okD(1-3)[OF D(3)[OF t] dd] by auto
  have la: "cp_ptr c = Some (last xs)" "nd_data (q_nodes s (last xs)) = Some v"
    "nd_next (q_nodes s (last xs)) = \<lparr>externalCount = 1, cp_ptr = Some d\<rparr>"
    using q_pc_okD(9)[OF D(3)[OF t]] by (simp_all add: pc)
  have hp: "held ?p = Some (last xs)" "held (pc t) = Some (last xs)" using L(5) la(1) by (simp_all add: pc)
  have co: "dummy_of (pc u) \<noteq> Some d" "held (pc u) \<noteq> Some d" "deleting (pc u) \<noteq> Some d" "\<not> q_writing (pc u)"
    if "u < N" "u \<noteq> t" for u
    using compatD(1-3)[OF D(4)[OF t that(1)] dd] compatD(6)[OF D(4)[OF t that(1)]] that(2) pc by auto
  have "map (\<lambda>n. nd_data (q_nodes s n)) xs = map (\<lambda>n. nd_data (q_nodes s n)) (butlast xs) @ [Some v]"
    using la(2) by (subst append_butlast_last_id[OF L(1), symmetric]) simp
  then show "list_ok s' (xs @ [d])"
    using L d la(3) unfolding list_ok_def al by (auto simp: linked_snoc replay_queue_append LockQueue_Push_def)
  show "node_ok N s' (pc(t := ?p)) (xs @ [d]) m" if m: "published N s' (pc(t := ?p)) m" for m
  proof (cases "m = d")
    case True
    have z: "weight ((pc(t := ?p)) u) d = 0 \<and> slots ((pc(t := ?p)) u) d = 0" if "u < N" for u
    proof (rule no_weight)
      show "held ((pc(t := ?p)) u) \<noteq> Some d" using co(2)[OF that] hp(1) L(7) d(2) by (cases "u = t") auto
    qed
    have "hd xs \<noteq> d" using L(8) d(2) by auto
    then have "balance N s' (pc(t := ?p)) d = 0"
      using z d(3) L(4) by (simp add: balance_def al new_node_def extra_def)
    moreover have "pointers N (pc(t := ?p)) (xs @ [d]) d = 2" using z by (simp add: pointers_def)
    ultimately show ?thesis using True d(3) by (simp add: node_ok_def al new_node_def)
  next
    case False
    have "dummy_of (pc u) \<noteq> Some m" if "u < N" for u
      using m that False dd by (cases "u = t") (auto simp: published_move[OF t])
    then have "published N s pc m" using m by (simp add: published_def al)
    then have b: "node_ok N s pc xs m" by (rule D(2))
    have w: "weight ?p m - weight (pc t) m = extra (q_tail s) m" "extra (q_tail s') m = 0"
      using False hp by (simp_all add: weight_def pc al extra_def)
    have "balance N s' (pc(t := ?p)) m = balance N s pc m"
      using balance_move[OF t, of s' pc ?p m s] w by (simp add: al)
    moreover have "pointers N (pc(t := ?p)) (xs @ [d]) m = pointers N pc xs m"
      using pointers_move[OF t, of pc ?p "xs @ [d]" m xs] False L(5) by (simp add: slots_def pc split: if_splits)
    ultimately show ?thesis using b la(2) by (auto simp: node_ok_def al)
  qed
  show "q_pc_ok s' (xs @ [d]) ?p" using hp(1) L by (auto simp: q_pc_ok_def al)
  fix u assume u: "u < N" "u \<noteq> t"
  note P = D(3)[OF u(1)]
  have "place_ok s' (xs @ [d]) (pc u)"
    using q_pc_okD(9)[OF P] co(2,4)[OF u] d(2) L(1) by (cases "(s', xs, pc u)" rule: place_ok.cases) (auto simp: al)
  then show "q_pc_ok s' (xs @ [d]) (pc u)" using P co(1-3)[OF u] by (auto simp: q_pc_ok_def al)
  have "deleting (pc u) \<noteq> Some (last xs)" "dummy_of (pc u) \<noteq> Some (last xs)"
    using q_pc_okD(2,8)[OF P] L(7) by blast+
  then show "compat ?p (pc u) \<and> compat (pc u) ?p" using hp(1) by (auto simp: compat_def)
next
  note D = lfq_invD[OF inv]
  have dd: "dummy_of (pc t) = Some d" using pc by simp
  have "\<not> q_writing (pc u)" if "u < N" "u \<noteq> t" for u using compatD(6)[OF D(4)[OF t that(1)]] that(2) pc by auto
  then show "nd_data (q_nodes s' (last (xs @ [d]))) \<noteq> None
      \<longleftrightarrow> q_writing (Free_Load (q_tail s) :: 'a queue_pc) \<or> (\<exists>u<N. u \<noteq> t \<and> q_writing (pc u))"
    using q_pc_okD(3)[OF D(3)[OF t] dd] by (auto simp: s' new_node_def)
  show "deleting (Free_Load (q_tail s) :: 'a queue_pc) = Some m
      \<or> (deleting (pc t) \<noteq> Some m \<and> published N s pc m \<and> node_count s m = (0, 0))"
    if m: "published N s' (pc(t := Free_Load (q_tail s))) m" "node_count s' m = (0, 0)" for m
  proof -
    have md: "m \<noteq> d" using m(2) q_pc_okD(3)[OF D(3)[OF t] dd] by (auto simp: s' node_count_def new_node_def)
    have "dummy_of (pc u) \<noteq> Some m" if "u < N" for u
      using m(1) that md dd by (cases "u = t") (auto simp: published_move[OF t])
    then show ?thesis using m pc by (simp add: published_def s' node_count_def)
  qed
qed

lemma head_inv:
  assumes inv: "lfq_inv N s pc xs" and t: "t < N" and pc: "pc t = Deq_Cas (q_head s) nx"
    and s': "s' = s\<lparr>q_head := nx, q_history := q_history s @ [Dequeued t w]\<rparr>"
    and w: "w = the (nd_data (q_nodes s (the (cp_ptr (q_head s)))))"
  shows "lfq_inv N s' (pc(t := Deq_Data (q_head s) w)) (tl xs)"
proof -
  let ?p = "Deq_Data (q_head s) w"
  note D = lfq_invD[OF inv]
  note L = list_okD[OF D(1)]
  have hd: "hd xs \<noteq> last xs" "nd_next (q_nodes s (hd xs)) = nx"
    using q_pc_okD(9)[OF D(3)[OF t]] L(4,8) by (auto simp: pc)
  obtain n b ys where xs: "xs = n # b # ys" using L(1) hd(1) by (cases xs rule: remdups_adj.cases) auto
  have nx: "nx = \<lparr>externalCount = 1, cp_ptr = Some b\<rparr>" using hd(2) L(6) by (simp add: xs)
  have n: "cp_ptr (q_head s) = Some n" using L(4) by (simp add: xs)
  have al: "q_alive s' = q_alive s" "q_nodes s' = q_nodes s" "q_head s' = nx" "q_tail s' = q_tail s"
    "q_history s' = q_history s @ [Dequeued t w]" by (simp_all add: s')
  have "node_ok N s pc xs n" using D(2) list_published[OF inv, of n] by (simp add: xs)
  then have v: "nd_data (q_nodes s n) = Some w" using hd(1) n by (auto simp: node_ok_def xs w)
  show ?thesis
  proof (rule lfq_inv_step[OF inv t])
    show "list_ok s' (tl xs)"
      using L nx v unfolding list_ok_def al by (auto simp: xs replay_queue_append LockQueue_Pop_def)
    show "node_ok N s' (pc(t := ?p)) (tl xs) m" if m: "published N s' (pc(t := ?p)) m" for m
    proof -
      have "published N s pc m" using m t pc by (auto simp: published_def al split: if_splits)
      then have b: "node_ok N s pc xs m" by (rule D(2))
      have "weight ?p m - weight (pc t) m = extra (q_head s) m" by (simp add: weight_def pc)
      moreover have "extra (q_head s') m = 0" by (simp add: al nx extra_def)
      ultimately have "balance N s' (pc(t := ?p)) m = balance N s pc m"
        using balance_move[OF t, of s' pc ?p m s] by (simp add: al)
      moreover have "pointers N (pc(t := ?p)) (tl xs) m = pointers N pc xs m"
        using pointers_move[OF t, of pc ?p "tl xs" m xs] L(2) n by (auto simp: slots_def pc xs split: if_splits)
      ultimately show ?thesis using b by (simp add: node_ok_def al xs)
    qed
    show "q_pc_ok s' (tl xs) ?p" using L(3) n v by (auto simp: q_pc_ok_def al xs)
    fix u assume u: "u < N" "u \<noteq> t"
    note P = D(3)[OF u(1)]
    have "place_ok s' (tl xs) (pc u)"
      using q_pc_okD(9)[OF P] L(2) by (cases "(s', xs, pc u)" rule: place_ok.cases) (auto simp: al xs)
    then show "q_pc_ok s' (tl xs) (pc u)" using P by (auto simp: q_pc_ok_def al xs)
    have "deleting (pc u) \<noteq> Some n" "dummy_of (pc u) \<noteq> Some n" using q_pc_okD(2,8)[OF P] by (auto simp: xs)
    then show "compat ?p (pc u) \<and> compat (pc u) ?p" using n by (auto simp: compat_def)
  next
    show "nd_data (q_nodes s' (last (tl xs))) \<noteq> None \<longleftrightarrow> q_writing ?p \<or> (\<exists>u<N. u \<noteq> t \<and> q_writing (pc u))"
      using D(5) t pc by (auto simp: al xs)
    show "deleting ?p = Some m \<or> (deleting (pc t) \<noteq> Some m \<and> published N s pc m \<and> node_count s m = (0, 0))"
      if "published N s' (pc(t := ?p)) m" "node_count s' m = (0, 0)" for m
      using that t pc by (auto simp: published_def al node_count_def split: if_splits)
  qed
qed

section \<open>Giving a reference back\<close>

text \<open>Both counts at zero: the node has left the list and nobody holds it.\<close>

lemma counts_zero:
  assumes "node_ok N s pc xs n" and "node_count s n = (0, 0)" and list: "list_ok s xs" and N: "N < 2 ^ 30"
  shows "n \<notin> set xs" and "\<And>u. u < N \<Longrightarrow> held (pc u) \<noteq> Some n"
proof -
  note L = list_okD[OF list]
  have z: "pointers N pc xs n = 0" "balance N s pc n = 0" "internalCount (q_nodes s n) = 0"
    using assms(1,2) by (auto simp: node_ok_def node_count_def)
  show nxs: "n \<notin> set xs" using z(1) by (auto simp: pointers_def split: if_splits)
  have ends: "extra (q_head s) n = 0" "extra (q_tail s) n = 0" using nxs L(4,5,7,8) by (auto simp: extra_def)
  have w: "weight (pc u) n = - (if held (pc u) = Some n then 1 else 0)" if u: "u < N" for u
  proof -
    have "slots (pc u) n = 0" using z(1) u by (simp add: pointers_def)
    then show ?thesis
      by (cases "freeing (pc u)") (simp_all add: weight_def slots_def extra_def split: if_splits)
  qed
  have "(\<Sum>u<N. weight (pc u) n) = - (\<Sum>u<N. if held (pc u) = Some n then 1 else 0)"
    using w by (simp add: sum_negf)
  also have "(\<Sum>u<N. if held (pc u) = Some n then 1 else 0) = (of_nat (card {u. u < N \<and> held (pc u) = Some n}) :: 30 word)"
    using sum.inter_filter[of "{..<N}" "\<lambda>_. 1 :: 30 word" "\<lambda>u. held (pc u) = Some n"] by simp
  finally have "(of_nat (card {u. u < N \<and> held (pc u) = Some n}) :: 30 word) = 0"
    using z(2,3) ends by (simp add: balance_def)
  then have "2 ^ 30 dvd card {u. u < N \<and> held (pc u) = Some n}" by (simp add: word_of_nat_eq_0_iff)
  moreover have "card {u. u < N \<and> held (pc u) = Some n} \<le> N"
    using card_mono[of "{..<N}" "{u. u < N \<and> held (pc u) = Some n}"] by auto
  ultimately have "card {u. u < N \<and> held (pc u) = Some n} = 0"
    using N dvd_imp_le[of "2 ^ 30" "card {u. u < N \<and> held (pc u) = Some n}"] by linarith
  then show "u < N \<Longrightarrow> held (pc u) \<noteq> Some n" for u by auto
qed

lemma slots_le: "t < N \<Longrightarrow> slots (pc t) n \<le> pointers N pc xs n"
  using member_le_sum[of t "{..<N}" "\<lambda>u. slots (pc u) n"] by (simp add: pointers_def)

lemma lfq_count:
  assumes inv: "lfq_inv N s pc xs" and t: "t < N" and N: "N < 2 ^ 30" and h: "held (pc t) = Some n"
    and s': "s' = set_count n c s"
    and old: "deleting (pc t) = None" "\<not> q_writing (pc t)"
    and p: "dummy_of p = dummy_of (pc t)" "held p = None" "freeing p = None" "\<not> q_writing p"
      "deleting p = (if c = (0, 0) then Some n else None)"
    and count: "fst c = internalCount (q_nodes s n) + weight (pc t) n"
      "unat (snd c) + slots (pc t) n = unat (externalCountRemaining (q_nodes s n))"
    and place: "\<And>s xs. place_ok s xs p"
  shows "lfq_inv N s' (pc(t := p)) xs"
proof -
  note D = lfq_invD[OF inv]
  note L = list_okD[OF D(1)]
  have al: "q_alive s' = q_alive s" "q_head s' = q_head s" "q_tail s' = q_tail s" "q_history s' = q_history s"
    "q_nodes s' = (q_nodes s)(n := (q_nodes s n)\<lparr>internalCount := fst c, externalCountRemaining := snd c\<rparr>)"
    by (simp_all add: s' set_count_def upd_node_def)
  have fields: "nd_next (q_nodes s' m) = nd_next (q_nodes s m)" "nd_data (q_nodes s' m) = nd_data (q_nodes s m)" for m
    by (simp_all add: al)
  have pub: "published N s pc n" by (rule held_published[OF inv t h])
  have list: "list_ok s' xs"
    using L linked_cong[of xs "q_nodes s'" "q_nodes s"] fields unfolding list_ok_def al(1-4) by auto
  have nodes: "node_ok N s' (pc(t := p)) xs m" if m: "published N s' (pc(t := p)) m" for m
  proof -
    have "published N s pc m" using m p(1) t by (auto simp: published_def al split: if_splits)
    then have b: "node_ok N s pc xs m" by (rule D(2))
    have np: "weight p m = 0" "slots p m = 0" using no_weight[of p m] p(2) by auto
    have nm: "weight (pc t) m = 0 \<and> slots (pc t) m = 0" if "m \<noteq> n" using no_weight[of "pc t" m] h that by auto
    have "balance N s' (pc(t := p)) m = balance N s pc m"
      using balance_move[OF t, of s' pc p m s] np nm count(1) by (cases "m = n") (simp_all add: al)
    moreover have "pointers N (pc(t := p)) xs m + slots (pc t) m = pointers N pc xs m"
      using pointers_move[OF t, of pc p xs m xs] np by simp
    then have "unat (externalCountRemaining (q_nodes s' m)) = pointers N (pc(t := p)) xs m"
      using b count(2) nm by (cases "m = n") (auto simp: node_ok_def al)
    ultimately show ?thesis using b by (simp add: node_ok_def fields)
  qed
  have free: "n \<notin> set xs \<and> (\<forall>u<N. u \<noteq> t \<longrightarrow> held (pc u) \<noteq> Some n)" if "c = (0, 0)"
  proof -
    have "published N s' (pc(t := p)) n" using pub p(1) t by (auto simp: published_def al)
    note z = counts_zero[OF nodes[OF this] _ list N]
    have "node_count s' n = (0, 0)" using that by (simp add: node_count_def al)
    then have "n \<notin> set xs" "\<And>u. u < N \<Longrightarrow> held ((pc(t := p)) u) \<noteq> Some n" using z by auto
    then show ?thesis by (metis fun_upd_other)
  qed
  show ?thesis
  proof (rule lfq_inv_step[OF inv t list nodes])
    have "dummy_of p \<noteq> Some n" using q_pc_okD(4)[OF D(3)[OF t]] h p(1) by auto
    moreover have "d \<noteq> n" if "dummy_of p = Some d" for d using that calculation by auto
    ultimately show "q_pc_ok s' xs p"
      using D(3)[OF t] p place free q_pc_okD(6)[OF D(3)[OF t] h] by (auto simp: q_pc_ok_def al)
    fix u assume u: "u < N" "u \<noteq> t"
    note P = D(3)[OF u(1)]
    have c: "compat (pc t) (pc u)" "compat (pc u) (pc t)" using D(4)[OF t u(1)] D(4)[OF u(1) t] u(2) by auto
    have du: "dummy_of (pc u) \<noteq> Some n" "deleting (pc u) \<noteq> Some n" using compatD(2,4)[OF c(2)] h by auto
    have "place_ok s' xs (pc u)"
      using q_pc_okD(9)[OF P] by (cases "(s', xs, pc u)" rule: place_ok.cases) (auto simp: fields)
    then show "q_pc_ok s' xs (pc u)" using P du by (auto simp: q_pc_ok_def al)
    show "compat p (pc u) \<and> compat (pc u) p" using c p du free u old by (auto simp: compat_def)
  next
    show "nd_data (q_nodes s' (last xs)) \<noteq> None \<longleftrightarrow> q_writing p \<or> (\<exists>u<N. u \<noteq> t \<and> q_writing (pc u))"
      using D(5) t p(4) old(2) unfolding fields by auto
    show "deleting p = Some m \<or> (deleting (pc t) \<noteq> Some m \<and> published N s pc m \<and> node_count s m = (0, 0))"
      if "published N s' (pc(t := p)) m" "node_count s' m = (0, 0)" for m
      using that t p(1,5) old(1) by (cases "m = n") (auto simp: published_def al node_count_def split: if_splits)
  qed
qed

section \<open>Deleting a node\<close>

lemma delete_inv:
  assumes inv: "lfq_inv N s pc xs" and t: "t < N" and del: "deleting (pc t) = Some n"
    and p: "dummy_of p = dummy_of (pc t)" "held p = None" "freeing p = None" "deleting p = None" "\<not> q_writing p"
    and old: "held (pc t) = None" "freeing (pc t) = None" "\<not> q_writing (pc t)" and place: "\<And>s xs. place_ok s xs p"
  shows "lfq_inv N (delete_node n s) (pc(t := p)) xs"
proof (rule lfq_inv_step[OF inv t])
  let ?s = "delete_node n s"
  note D = lfq_invD[OF inv]
  note L = list_okD[OF D(1)]
  have al: "q_alive ?s = q_alive s - {n}" "q_nodes ?s = q_nodes s" "q_head ?s = q_head s" "q_tail ?s = q_tail s"
    "q_history ?s = q_history s" by (simp_all add: delete_node_def)
  have n: "n \<notin> set xs" by (rule q_pc_okD(8)[OF D(3)[OF t] del])
  show "list_ok ?s xs" using L n unfolding list_ok_def al by auto
  show "node_ok N ?s (pc(t := p)) xs m" if m: "published N ?s (pc(t := p)) m" for m
  proof -
    have "published N s pc m" using m p(1) t by (auto simp: published_def al split: if_splits)
    moreover have "weight p m = weight (pc t) m" "slots p m = slots (pc t) m" using p old by (simp_all add: weight_def slots_def)
    ultimately show ?thesis
      using D(2)[of m] balance_move[OF t, of ?s pc p m s] pointers_move[OF t, of pc p xs m xs] by (simp add: node_ok_def al)
  qed
  have pl: "place_ok ?s xs q = place_ok s xs q" for q :: "'a queue_pc"
    by (cases "(s, xs, q)" rule: place_ok.cases) (simp_all add: al)
  show "q_pc_ok ?s xs p"
    using D(3)[OF t] q_pc_okD(5)[OF D(3)[OF t]] del p place by (auto simp: q_pc_ok_def al)
  fix u assume u: "u < N" "u \<noteq> t"
  have c: "compat (pc t) (pc u)" "compat (pc u) (pc t)" using D(4)[OF t u(1)] D(4)[OF u(1) t] u(2) by auto
  have "dummy_of (pc u) \<noteq> Some n" "held (pc u) \<noteq> Some n" "deleting (pc u) \<noteq> Some n"
    using compatD(3)[OF c(2)] compatD(4,5)[OF c(1) del] del by auto
  then show "q_pc_ok ?s xs (pc u)" using D(3)[OF u(1)] pl by (auto simp: q_pc_ok_def al)
  show "compat p (pc u) \<and> compat (pc u) p" using c p old by (auto simp: compat_def)
next
  show "nd_data (q_nodes (delete_node n s) (last xs)) \<noteq> None \<longleftrightarrow> q_writing p \<or> (\<exists>u<N. u \<noteq> t \<and> q_writing (pc u))"
    using lfq_invD(5)[OF inv] t p(5) old(3) by (auto simp: delete_node_def)
  show "deleting p = Some m \<or> (deleting (pc t) \<noteq> Some m \<and> published N s pc m \<and> node_count s m = (0, 0))"
    if "published N (delete_node n s) (pc(t := p)) m" "node_count (delete_node n s) m = (0, 0)" for m
    using that t p(1) del by (auto simp: published_def delete_node_def node_count_def split: if_splits)
qed

section \<open>The steps\<close>

definition queue_inv :: "nat \<Rightarrow> 'a queue_sys \<Rightarrow> bool" where
  "queue_inv N x \<longleftrightarrow> (N < 2 ^ 30 \<longrightarrow> (\<exists>xs. lfq_inv N (lfq x) (q_at x) xs))"

lemma at_node_alive: "p = Some n \<Longrightarrow> n \<in> q_alive s \<Longrightarrow> at_node s p f = f n"
  by (simp add: at_node_def)

lemma held_at_node:
  assumes "lfq_inv N s pc xs" "t < N" "held (pc t) = Some n"
  shows "at_node s (Some n) f = f n"
  using q_pc_okD(6)[OF lfq_invD(3)[OF assms(1,2)] assms(3)] by (simp add: at_node_def)

lemma enq_inv:
  assumes inv: "lfq_inv N s pc xs" and t: "t < N"
  shows "\<exists>xs'. lfq_inv N (snd (Queue_Push t pad (pc t) s)) (pc(t := fst (Queue_Push t pad (pc t) s))) xs'"
proof -
  note D = lfq_invD[OF inv] and place = q_pc_okD(9)[OF lfq_invD(3)[OF inv t]]
  note L = list_okD[OF D(1)]
  show ?thesis
  proof (cases "pc t")
    case (Enq_Load v d)
    then show ?thesis using lfq_move[OF inv t, of "Enq_Increase v d (q_tail s)"] by auto
  next
    case (Enq_Increase v d c)
    show ?thesis
    proof (cases "q_tail s = c \<and> \<not> pad")
      case True
      let ?k = "c\<lparr>externalCount := externalCount c + 1\<rparr>"
      have c: "cp_ptr c = Some (last xs)" "q_tail s = c" using True L(5) by auto
      have "lfq_inv N (s\<lparr>q_tail := ?k\<rparr>) (pc(t := Enq_Data v d ?k)) xs"
        using c by (intro lfq_increase[OF inv t L(7), where h = "q_head s" and k = ?k])
          (simp_all add: Enq_Increase extra_increase[OF c(1)])
      then show ?thesis using True by (auto simp: Enq_Increase IncreaseExternalCount_def)
    next
      case False
      then show ?thesis
        using lfq_move[OF inv t, of "Enq_Increase v d (q_tail s)"] by (auto simp: Enq_Increase IncreaseExternalCount_def)
    qed
  next
    case (Enq_Data v d c)
    obtain n where n: "cp_ptr c = Some n" using place by (auto simp: Enq_Data)
    then have h: "held (pc t) = Some n" by (simp add: Enq_Data)
    note an = held_at_node[OF inv t h]
    show ?thesis
    proof (cases "nd_data (q_nodes s n) = None")
      case True
      have l: "n = last xs" using D(2)[OF held_published[OF inv t h]] True by (auto simp: node_ok_def)
      have "lfq_inv N (upd_node n (\<lambda>k. k\<lparr>nd_data := Some v\<rparr>) s) (pc(t := Enq_Next v d c)) xs"
        using D(5) True n l
        by (intro lfq_write_last[OF inv t l refl]) (auto simp: Enq_Data upd_node_def)
      then show ?thesis using True by (auto simp: Enq_Data n an)
    next
      case False
      then show ?thesis
        using lfq_move[OF inv t, of "Rel_Load (Push_again v d c) n"] n by (auto simp: Enq_Data an)
    qed
  next
    case (Enq_Next v d c)
    have n: "cp_ptr c = Some (last xs)" "nd_data (q_nodes s (last xs)) = Some v" using place by (simp_all add: Enq_Next)
    have an: "at_node s (cp_ptr c) f = f (last xs)" for f :: "nat \<Rightarrow> 'a queue_pc \<times> 'a lf_queue"
      using L(3,7) n(1) by (auto simp: at_node_def)
    have al: "\<not> q_writing (pc u)" if "u < N" "u \<noteq> t" for u
      using compatD(6)[OF D(4)[OF t that(1)]] that(2) by (auto simp: Enq_Next)
    have "lfq_inv N (upd_node (last xs) (\<lambda>k. k\<lparr>nd_next := \<lparr>externalCount = 1, cp_ptr = Some d\<rparr>\<rparr>) s) (pc(t := Enq_Exchange v d c)) xs"
      using n al by (intro lfq_write_last[OF inv t refl refl]) (auto simp: Enq_Next upd_node_def)
    then show ?thesis by (auto simp: Enq_Next an)
  next
    case (Enq_Exchange v d c)
    then show ?thesis using exchange_inv[OF inv t Enq_Exchange refl] by auto
  qed (use inv in \<open>auto simp: fun_upd_idem\<close>)
qed

lemma deq_inv:
  assumes inv: "lfq_inv N s pc xs" and t: "t < N"
  shows "\<exists>xs'. lfq_inv N (snd (Queue_TryPop t pad (pc t) s)) (pc(t := fst (Queue_TryPop t pad (pc t) s))) xs'"
proof -
  note D = lfq_invD[OF inv] and place = q_pc_okD(9)[OF lfq_invD(3)[OF inv t]]
  note L = list_okD[OF D(1)]
  show ?thesis
  proof (cases "pc t")
    case Deq_Load
    then show ?thesis using lfq_move[OF inv t, of "Deq_Increase (q_head s)"] by auto
  next
    case (Deq_Increase c)
    show ?thesis
    proof (cases "q_head s = c \<and> \<not> pad")
      case True
      let ?k = "c\<lparr>externalCount := externalCount c + 1\<rparr>"
      have c: "cp_ptr c = Some (hd xs)" "q_head s = c" using True L(4) by auto
      have "lfq_inv N (s\<lparr>q_head := ?k\<rparr>) (pc(t := Deq_Tail ?k)) xs"
        using c by (intro lfq_increase[OF inv t L(8), where h = ?k and k = "q_tail s"])
          (simp_all add: Deq_Increase extra_increase[OF c(1)])
      then show ?thesis using True by (auto simp: Deq_Increase IncreaseExternalCount_def)
    next
      case False
      then show ?thesis
        using lfq_move[OF inv t, of "Deq_Increase (q_head s)"] by (auto simp: Deq_Increase IncreaseExternalCount_def)
    qed
  next
    case (Deq_Tail c)
    obtain n where n: "cp_ptr c = Some n" "n \<in> set xs \<longrightarrow> n = hd xs" using place by (auto simp: Deq_Tail)
    then have h: "held (pc t) = Some n" by (simp add: Deq_Tail)
    note an = held_at_node[OF inv t h]
    show ?thesis
    proof (cases "cp_ptr c = cp_ptr (q_tail s)")
      case True
      then have nl: "n = last xs" "n = hd xs" using n L(5,7) by auto
      have xs: "xs = [n]"
      proof (cases xs)
        case (Cons a ys)
        then show ?thesis using nl L(2) last_in_set[of ys] by (cases "ys = []") auto
      qed (use L(1) in simp)
      let ?s = "s\<lparr>q_history := q_history s @ [Found_empty t]\<rparr>"
      have "list_ok ?s xs" using L by (simp add: list_ok_def xs replay_queue_append LockQueue_Pop_def)
      from lfq_neutral[OF inv t refl this, of "Rel_Load Pop_null n"]
      have "lfq_inv N ?s (pc(t := Rel_Load Pop_null n)) xs" using n by (simp add: Deq_Tail)
      moreover have "Queue_TryPop t pad (pc t) s = (Rel_Load Pop_null n, ?s)"
        using True n(1) by (simp add: Deq_Tail an flip: True)
      ultimately show ?thesis by auto
    next
      case False
      then show ?thesis using lfq_move[OF inv t, of "Deq_Next c"] n L(5) by (auto simp: Deq_Tail)
    qed
  next
    case (Deq_Next c)
    obtain n where n: "cp_ptr c = Some n" "n \<in> set xs \<longrightarrow> n = hd xs \<and> n \<noteq> last xs" using place by (auto simp: Deq_Next)
    then have "held (pc t) = Some n" by (simp add: Deq_Next)
    note an = held_at_node[OF inv t this]
    show ?thesis using lfq_move[OF inv t, of "Deq_Cas c (nd_next (q_nodes s n))"] n by (auto simp: Deq_Next an)
  next
    case (Deq_Cas c nx)
    obtain n where n: "cp_ptr c = Some n" using place by (auto simp: Deq_Cas)
    then have h: "held (pc t) = Some n" by (simp add: Deq_Cas)
    note an = held_at_node[OF inv t h]
    show ?thesis
    proof (cases "q_head s = c \<and> \<not> pad")
      case True
      then have pc: "pc t = Deq_Cas (q_head s) nx" by (simp add: Deq_Cas)
      show ?thesis using head_inv[OF inv t pc refl refl] True by (auto simp: Deq_Cas Let_def)
    next
      case False
      then show ?thesis
        using lfq_move[OF inv t, of "Rel_Load (Pop_again (q_head s)) n"] n by (auto simp: Deq_Cas an)
    qed
  next
    case (Deq_Data c v)
    obtain n where n: "cp_ptr c = Some n" using place by (auto simp: Deq_Data)
    then have h: "held (pc t) = Some n" by (simp add: Deq_Data)
    note an = held_at_node[OF inv t h]
    show ?thesis using lfq_move[OF inv t, of "Free_Load c"] n by (auto simp: Deq_Data an)
  qed (use inv in \<open>auto simp: fun_upd_idem\<close>)
qed

lemma free_inv:
  assumes inv: "lfq_inv N s pc xs" and t: "t < N" and N: "N < 2 ^ 30"
  shows "lfq_inv N (snd (FreeExternalCount (pc t) s)) (pc(t := fst (FreeExternalCount (pc t) s))) xs"
proof -
  note D = lfq_invD[OF inv] and place = q_pc_okD(9)[OF lfq_invD(3)[OF inv t]]
  show ?thesis
  proof (cases "pc t")
    case (Free_Load c)
    obtain n where n: "cp_ptr c = Some n" using place by (auto simp: Free_Load)
    then have h: "held (pc t) = Some n" by (simp add: Free_Load)
    show ?thesis using lfq_move[OF inv t, of "Free_Cas c (node_count s n)"] n
      by (simp add: Free_Load held_at_node[OF inv t h])
  next
    case (Free_Cas c o')
    obtain n where n: "cp_ptr c = Some n" using place by (auto simp: Free_Cas)
    then have h: "held (pc t) = Some n" by (simp add: Free_Cas)
    note an = held_at_node[OF inv t h]
    show ?thesis
    proof (cases "node_count s n = o'")
      case True
      let ?c = "(fst o' + ucast (externalCount c - 2), snd o' - 1)"
      have o': "fst o' = internalCount (q_nodes s n)" "snd o' = externalCountRemaining (q_nodes s n)"
        using True by (auto simp: node_count_def)
      have one: "slots (pc t) n = 1" by (simp add: slots_def Free_Cas n)
      have "1 \<le> unat (snd o')"
        using D(2)[OF held_published[OF inv t h]] slots_le[OF t, of pc n xs] one by (simp add: node_ok_def o')
      then have "unat (snd o' - 1) = unat (snd o') - 1" by (intro unat_minus_one) auto
      then have "lfq_inv N (set_count n ?c s) (pc(t := if ?c = (0, 0) then Free_Delete n else Q_Out)) xs"
        using \<open>1 \<le> unat (snd o')\<close> one
        by (intro lfq_count[OF inv t N h refl]) (auto simp: Free_Cas o' weight_def n extra_def ucast_minus_30)
      then show ?thesis using True by (simp add: Free_Cas n an Let_def del: split_paired_All)
    next
      case False
      then show ?thesis using lfq_move[OF inv t, of "Free_Cas c (node_count s n)"] n
        by (simp add: Free_Cas an Let_def)
    qed
  next
    case (Free_Delete n)
    have "n \<in> q_alive s" using q_pc_okD(7)[OF D(3)[OF t], of n] by (simp add: Free_Delete)
    then show ?thesis using delete_inv[OF inv t, of n Q_Out] by (simp add: Free_Delete at_node_def)
  qed (use inv in \<open>auto simp: fun_upd_idem\<close>)
qed

lemma released_simps [simp]:
  "dummy_of (released k) = rel_dummy k" "held (released k) = None" "freeing (released k) = None"
  "deleting (released k) = None" "\<not> q_writing (released k)" "place_ok s xs (released k)"
  by (cases k; simp)+

lemma release_node_inv:
  assumes inv: "lfq_inv N s pc xs" and t: "t < N" and N: "N < 2 ^ 30"
  shows "lfq_inv N (snd (Node_ReleaseRef (pc t) s)) (pc(t := fst (Node_ReleaseRef (pc t) s))) xs"
proof -
  note D = lfq_invD[OF inv]
  show ?thesis
  proof (cases "pc t")
    case (Rel_Load k n)
    then have h: "held (pc t) = Some n" by simp
    show ?thesis using lfq_move[OF inv t, of "Rel_Cas k n (node_count s n)"]
      by (simp add: Rel_Load held_at_node[OF inv t h])
  next
    case (Rel_Cas k n o')
    then have h: "held (pc t) = Some n" by simp
    note an = held_at_node[OF inv t h]
    show ?thesis
    proof (cases "node_count s n = o'")
      case True
      let ?c = "(fst o' - 1, snd o')"
      have o': "fst o' = internalCount (q_nodes s n)" "snd o' = externalCountRemaining (q_nodes s n)"
        using True by (auto simp: node_count_def)
      have "lfq_inv N (set_count n ?c s) (pc(t := if ?c = (0, 0) then Rel_Delete k n else released k)) xs"
        by (intro lfq_count[OF inv t N h refl]) (auto simp: Rel_Cas o' weight_def slots_def)
      then show ?thesis using True by (simp add: Rel_Cas an Let_def del: split_paired_All)
    next
      case False
      then show ?thesis using lfq_move[OF inv t, of "Rel_Cas k n (node_count s n)"] by (simp add: Rel_Cas an Let_def)
    qed
  next
    case (Rel_Delete k n)
    have "n \<in> q_alive s" using q_pc_okD(7)[OF D(3)[OF t], of n] by (simp add: Rel_Delete)
    then show ?thesis using delete_inv[OF inv t, of n "released k"] by (simp add: Rel_Delete at_node_def)
  qed (use inv in \<open>auto simp: fun_upd_idem\<close>)
qed

lemma queue_inv_step: "queue_step N x y \<Longrightarrow> queue_inv N x \<Longrightarrow> queue_inv N y"
proof (induction rule: queue_step.induct)
  case (call_enq t x d v)
  then show ?case using make_node_inv[of N "lfq x" "q_at x" _ t d v] by (auto simp: queue_inv_def q_set_def)
next
  case (call_deq t x)
  then show ?case using lfq_move[of N "lfq x" "q_at x" _ t Deq_Load] by (auto simp: queue_inv_def q_set_def)
next
  case (in_enq t x pad)
  then show ?case using enq_inv[of N "lfq x" "q_at x" _ t pad] by (auto simp: queue_inv_def q_set_def)
next
  case (in_deq t x pad)
  then show ?case using deq_inv[of N "lfq x" "q_at x" _ t pad] by (auto simp: queue_inv_def q_set_def)
next
  case (in_free t x)
  then show ?case using free_inv[of N "lfq x" "q_at x" _ t] by (auto simp: queue_inv_def q_set_def)
next
  case (in_release t x)
  then show ?case using release_node_inv[of N "lfq x" "q_at x" _ t] by (auto simp: queue_inv_def q_set_def)
qed

lemma queue_init_inv: "queue_init x \<Longrightarrow> queue_inv N x"
proof -
  assume "queue_init x"
  then obtain n mem where x: "x = \<lparr>lfq = LockFreeQueue n mem, q_at = (\<lambda>_. Q_Out)\<rparr>" by (auto simp: queue_init_def)
  have "lfq_inv N (LockFreeQueue n mem) (\<lambda>_. Q_Out) [n]"
    by (auto simp: lfq_inv_def list_ok_def LockFreeQueue_def make_node_def upd_node_def Let_def node_ok_def balance_def
        pointers_def weight_def slots_def extra_def new_node_def new_lock_queue_def q_pc_ok_def compat_def published_def
        node_count_def)
  then show ?thesis by (auto simp: queue_inv_def x)
qed

interpretation free_queue: invariant_system queue_init "queue_step N" "queue_inv N" for N
  by unfold_locales (rule queue_init_inv, assumption, rule queue_inv_step)

lemma queue_reach: "reach queue_init (queue_step N) x \<Longrightarrow> N < 2 ^ 30 \<Longrightarrow> \<exists>xs. lfq_inv N (lfq x) (q_at x) xs"
  using free_queue.reach_inv unfolding queue_inv_def by blast

section \<open>A run of one thread\<close>

definition queue_start :: "nat queue_sys" where
  "queue_start = \<lparr>lfq = LockFreeQueue 0 (\<lambda>_. new_node), q_at = (\<lambda>_. Q_Out)\<rparr>"

definition enq_turn :: "nat queue_sys \<Rightarrow> nat queue_sys" where
  "enq_turn x = q_set 0 (Queue_Push 0 False (q_at x 0) (lfq x)) x"

definition free_turn :: "nat queue_sys \<Rightarrow> nat queue_sys" where
  "free_turn x = q_set 0 (FreeExternalCount (q_at x 0) (lfq x)) x"

definition queue_pushed :: "nat queue_sys" where
  "queue_pushed = (free_turn ^^ 2) ((enq_turn ^^ 5) (q_set 0 (Enq_Load 7 1, make_node 1 (lfq queue_start)) queue_start))"

lemma queue_pushed_reach: "reach queue_init (queue_step 1) queue_pushed"
proof -
  have 0: "reach queue_init (queue_step 1) queue_start"
    by (rule reach_init) (auto simp: queue_init_def queue_start_def)
  have e: "reach queue_init (queue_step 1) ((enq_turn ^^ k) x)" if "reach queue_init (queue_step 1) x" for k x
  proof (induction k)
    case (Suc k)
    have "queue_step 1 ((enq_turn ^^ k) x) (enq_turn ((enq_turn ^^ k) x))" unfolding enq_turn_def by (rule in_enq) simp
    from reach_step[OF Suc this] show ?case by simp
  qed (use that in simp)
  have f: "reach queue_init (queue_step 1) ((free_turn ^^ k) x)" if "reach queue_init (queue_step 1) x" for k x
  proof (induction k)
    case (Suc k)
    have "queue_step 1 ((free_turn ^^ k) x) (free_turn ((free_turn ^^ k) x))" unfolding free_turn_def by (rule in_free) simp
    from reach_step[OF Suc this] show ?case by simp
  qed (use that in simp)
  have "queue_step 1 queue_start (q_set 0 (Enq_Load 7 1, make_node 1 (lfq queue_start)) queue_start)"
    by (rule call_enq) (simp_all add: queue_start_def LockFreeQueue_def make_node_def upd_node_def Let_def)
  from f[OF e[OF reach_step[OF 0 this]]] show ?thesis unfolding queue_pushed_def .
qed

lemma queue_pushed_state: "q_at queue_pushed = (\<lambda>_. Q_Out)" "q_history (lfq queue_pushed) = [Enqueued 0 7]"
  by (simp_all add: queue_pushed_def queue_start_def enq_turn_def free_turn_def q_set_def LockFreeQueue_def make_node_def
      upd_node_def Let_def at_node_def IncreaseExternalCount_def new_node_def set_count_def node_count_def
      eval_nat_numeral fun_eq_iff)

section \<open>Properties\<close>

text \<open>C21: No thread of the lock-free queue touches a deleted node. Under every interleaving of Push and
  TryPop by fewer than 2^30 threads, with exchanges that fail for no reason and addresses that are used
  again, no thread reads, writes or deletes a node that was deleted or follows a null pointer; and when no
  thread is inside an operation, the nodes alive are the dummy and one per value in the queue, so none is
  lost.\<close>

theorem queue_no_use_after_delete:
  assumes "reach queue_init (queue_step N) x" and "N < 2 ^ 30"
  shows "(\<forall>t e. q_at x t \<noteq> Q_Faulted e)
    \<and> ((\<forall>t. q_at x t = Q_Out) \<longrightarrow>
        (\<exists>xs d. q_alive (lfq x) = set (xs @ [d]) \<and> distinct (xs @ [d]) \<and> cp_ptr (q_tail (lfq x)) = Some d
          \<and> replay_queue (q_history (lfq x)) new_lock_queue = Some \<lparr>m_items = map (\<lambda>n. nd_data (q_nodes (lfq x) n)) xs\<rparr>))"
proof (intro conjI allI impI)
  obtain xs where inv: "lfq_inv N (lfq x) (q_at x) xs" using queue_reach[OF assms] by blast
  note D = lfq_invD[OF inv]
  note L = list_okD[OF D(1)]
  show "q_at x t \<noteq> Q_Faulted e" for t e
  proof (cases "t < N")
    case True
    then show ?thesis using q_pc_okD(9)[OF D(3)[OF True]] by auto
  qed (use D(6)[of t] in simp)
  assume out: "\<forall>t. q_at x t = Q_Out"
  have "n \<in> set xs" if n: "n \<in> q_alive (lfq x)" for n
  proof (rule ccontr)
    assume nxs: "n \<notin> set xs"
    have pub: "published N (lfq x) (q_at x) n" using n out by (simp add: published_def)
    have z: "extra (q_head (lfq x)) n = 0" "extra (q_tail (lfq x)) n = 0" "n \<noteq> last xs"
      using nxs L(4,5,7,8) by (auto simp: extra_def)
    have "node_count (lfq x) n = (0, 0)"
      using D(2)[OF pub] z nxs out by (simp add: node_ok_def balance_def pointers_def weight_def slots_def node_count_def unat_eq_0)
    then show False using D(7)[OF pub] out by auto
  qed
  then have "q_alive (lfq x) = set xs" using L(3) by blast
  then show "\<exists>xs d. q_alive (lfq x) = set (xs @ [d]) \<and> distinct (xs @ [d]) \<and> cp_ptr (q_tail (lfq x)) = Some d
      \<and> replay_queue (q_history (lfq x)) new_lock_queue = Some \<lparr>m_items = map (\<lambda>n. nd_data (q_nodes (lfq x) n)) xs\<rparr>"
    using L(1,2,5,9) by (intro exI[of _ "butlast xs"] exI[of _ "last xs"]) simp
qed

theorem queue_no_use_after_delete_witness:
  "q_at queue_pushed = (\<lambda>_. Q_Out) \<and> (\<exists>n d. n \<noteq> d \<and> q_alive (lfq queue_pushed) = {n, d} \<and> cp_ptr (q_tail (lfq queue_pushed)) = Some d)"
proof -
  obtain xs d where x: "q_alive (lfq queue_pushed) = set (xs @ [d])" "distinct (xs @ [d])" "cp_ptr (q_tail (lfq queue_pushed)) = Some d"
    "replay_queue (q_history (lfq queue_pushed)) new_lock_queue = Some \<lparr>m_items = map (\<lambda>n. nd_data (q_nodes (lfq queue_pushed) n)) xs\<rparr>"
    using queue_no_use_after_delete[OF queue_pushed_reach] by (auto simp: queue_pushed_state)
  have "length (map (\<lambda>n. nd_data (q_nodes (lfq queue_pushed) n)) xs) = 1"
    using x(4) by (auto simp: queue_pushed_state LockQueue_Push_def new_lock_queue_def)
  then obtain n where "xs = [n]" by (auto simp: length_Suc_conv)
  then show ?thesis using x by (auto simp: queue_pushed_state)
qed

text \<open>C22: The lock-free queue is a LockQueue. In every reachable state the pushes and pops that have taken
  effect, in the order of their exchanges, are a run of the locked queue from the empty one: a pop took
  what was first, and a TryPop that returned null found the queue empty; and the value a TryPop goes on to
  read from its node is the one it took.\<close>

theorem lock_free_fifo:
  assumes "reach queue_init (queue_step N) x" and "N < 2 ^ 30"
  shows "(\<exists>q. replay_queue (q_history (lfq x)) new_lock_queue = Some q)
    \<and> (\<forall>t c v. q_at x t = Deq_Data c v \<longrightarrow> (\<exists>n. cp_ptr c = Some n \<and> nd_data (q_nodes (lfq x) n) = Some v))"
proof (intro conjI allI impI)
  obtain xs where inv: "lfq_inv N (lfq x) (q_at x) xs" using queue_reach[OF assms] by blast
  note D = lfq_invD[OF inv]
  show "\<exists>q. replay_queue (q_history (lfq x)) new_lock_queue = Some q" using list_okD(9)[OF D(1)] by blast
  fix t c v assume pc: "q_at x t = Deq_Data c v"
  then have "t < N" using D(6)[of t] by (cases "t < N") auto
  then show "\<exists>n. cp_ptr c = Some n \<and> nd_data (q_nodes (lfq x) n) = Some v"
    using q_pc_okD(9)[OF D(3)[of t]] pc by auto
qed

theorem lock_free_fifo_witness:
  "\<exists>q. q_history (lfq queue_pushed) = [Enqueued 0 7] \<and> replay_queue (q_history (lfq queue_pushed)) new_lock_queue = Some q
    \<and> fst (LockQueue_Pop q) = Some 7"
proof -
  obtain q where q: "replay_queue (q_history (lfq queue_pushed)) new_lock_queue = Some q"
    using lock_free_fifo[OF queue_pushed_reach] by auto
  then have "q = LockQueue_Push (Some 7) new_lock_queue" by (simp add: queue_pushed_state)
  then show ?thesis using q by (simp add: queue_pushed_state LockQueue_Push_def LockQueue_Pop_def new_lock_queue_def)
qed

end
