(* ===== verification/Object_Pool.thy ===== *)
theory Object_Pool
  imports Memory_Pool_Safety "HOL-Library.Signed_Division"
begin

text \<open>
  Object pools and the stomp allocator (ServerCore/ObjectPool.h, Allocator.h and .cpp). Each class has
  an ObjectPool with a MemoryPool of its own: a class is a number k, which is also the number of its
  pool, and size_of k is sizeof(Type). Pop constructs an object in a piece of the pool and Push destroys
  it; objects records which object lives at which address. H is the size of a MemoryHeader as in
  Memory_Pool. The stomp allocator puts an allocation at the end of its pages, so that a write past its
  end leaves them; the address VirtualAlloc returns is an argument.
\<close>

section \<open>The stomp allocator\<close>

definition PAGE_SIZE :: int where "PAGE_SIZE = 4096"

text \<open>The sum is computed in int, the division truncates, the rest is in int64.\<close>

definition pageCount :: "int \<Rightarrow> int result" where
  "pageCount sz =
     (if fits_i32 (sz + PAGE_SIZE) then Inr ((sz + PAGE_SIZE - 1) sdiv PAGE_SIZE) else Inl SignedOverflow)"

definition StompAllocator_Alloc :: "int \<Rightarrow> (int \<Rightarrow> int) \<Rightarrow> int result" where
  "StompAllocator_Alloc sz VirtualAlloc =
     rbind (pageCount sz) (\<lambda>n.
       let dataOffset = n * PAGE_SIZE - sz; baseAddress = VirtualAlloc (n * PAGE_SIZE) in Inr (baseAddress + dataOffset))"

text \<open>The address given to VirtualFree.\<close>

definition StompAllocator_Release :: "int \<Rightarrow> int" where
  "StompAllocator_Release address = address - (address smod PAGE_SIZE)"

section \<open>The allocator of the containers\<close>

text \<open>The size is computed in size_t and cast to int32.\<close>

definition StlAllocator_size :: "nat \<Rightarrow> nat \<Rightarrow> int" where
  "StlAllocator_size size_of count = sint (word_of_nat (count * size_of) :: u32)"

definition StlAllocator_allocate :: "nat \<Rightarrow> nat \<Rightarrow> nat \<Rightarrow> nat \<Rightarrow> heap \<Rightarrow> (nat \<times> heap) result" where
  "StlAllocator_allocate H size_of count fresh h = PoolAllocator_Alloc H (StlAllocator_size size_of count) fresh h"

definition StlAllocator_deallocate :: "nat \<Rightarrow> nat \<Rightarrow> nat \<Rightarrow> heap \<Rightarrow> heap result" where
  "StlAllocator_deallocate H p count h = PoolAllocator_Release H p h"

section \<open>Object pools\<close>

record object_heap =
  op_heap :: heap
  objects :: "nat \<Rightarrow> nat option"

definition s_allocSize :: "nat \<Rightarrow> (nat \<Rightarrow> nat) \<Rightarrow> nat \<Rightarrow> nat" where
  "s_allocSize H size_of k = size_of k + H"

definition ObjectPool_Pop :: "nat \<Rightarrow> (nat \<Rightarrow> nat) \<Rightarrow> nat \<Rightarrow> nat \<Rightarrow> object_heap \<Rightarrow> (nat \<times> object_heap) result" where
  "ObjectPool_Pop H size_of k fresh s =
     rbind (MemoryPool_Pop (s_allocSize H size_of k) k fresh (op_heap s)) (\<lambda>(a, h).
       let (memory, h') = AttachHeader H a (int (s_allocSize H size_of k)) h in
       Inr (memory, s\<lparr>op_heap := h', objects := (objects s)(memory \<mapsto> k)\<rparr>))"

definition ObjectPool_Push :: "nat \<Rightarrow> nat \<Rightarrow> nat \<Rightarrow> object_heap \<Rightarrow> object_heap result" where
  "ObjectPool_Push H k obj s =
     (if objects s obj \<noteq> Some k then Inl UseAfterFree
      else Inr (s\<lparr>op_heap := MemoryPool_Push k (DetachHeader H obj) (op_heap s), objects := (objects s)(obj := None)\<rparr>))"

text \<open>The classes in use; a new block overlaps no block that is still allocated.\<close>

definition object_init :: "object_heap \<Rightarrow> bool" where
  "object_init s \<longleftrightarrow> s = \<lparr>op_heap = heap_start, objects = Map.empty\<rparr>"

inductive object_step :: "nat \<Rightarrow> (nat \<Rightarrow> nat) \<Rightarrow> object_heap \<Rightarrow> object_heap \<Rightarrow> bool" for H size_of where
  pop_object: "fresh_block (op_heap s) fresh (s_allocSize H size_of k) \<Longrightarrow>
     ObjectPool_Pop H size_of k fresh s = Inr (p, s') \<Longrightarrow> object_step H size_of s s'"
| push_object: "ObjectPool_Push H k obj s = Inr s' \<Longrightarrow> object_step H size_of s s'"

section \<open>The stomp allocator protects the end\<close>

lemma sdiv_pages: "0 \<le> x \<Longrightarrow> x sdiv PAGE_SIZE = x div 4096"
  by (cases "x = 0") (simp_all add: signed_divide_int_def PAGE_SIZE_def sgn_if)

lemma smod_pages: "0 \<le> x \<Longrightarrow> x smod PAGE_SIZE = x mod 4096"
  by (cases "x = 0") (simp_all add: signed_modulo_int_def signed_divide_int_def PAGE_SIZE_def sgn_if minus_div_mult_eq_mod)

text \<open>An allocation ends where its pages end, and Release finds their start again.\<close>

theorem stomp_end:
  assumes "0 < sz" and "sz < 2 ^ 31 - PAGE_SIZE" and "\<And>n. 0 < VirtualAlloc n \<and> VirtualAlloc n mod PAGE_SIZE = 0"
  shows "\<exists>n p. pageCount sz = Inr n \<and> StompAllocator_Alloc sz VirtualAlloc = Inr p
    \<and> p + sz = VirtualAlloc (n * PAGE_SIZE) + n * PAGE_SIZE
    \<and> VirtualAlloc (n * PAGE_SIZE) \<le> p \<and> p < VirtualAlloc (n * PAGE_SIZE) + PAGE_SIZE
    \<and> StompAllocator_Release p = VirtualAlloc (n * PAGE_SIZE)"
proof -
  define n where "n = (sz + 4095) div 4096"
  define base where "base = VirtualAlloc (n * PAGE_SIZE)"
  define off where "off = n * 4096 - sz"
  have c: "pageCount sz = Inr n"
    using assms(1,2) sdiv_pages[of "sz + PAGE_SIZE - 1"] by (simp add: pageCount_def fits_i32_def PAGE_SIZE_def n_def)
  have "n * 4096 + (sz + 4095) mod 4096 = sz + 4095" by (simp add: n_def)
  moreover have "0 \<le> (sz + 4095) mod 4096" "(sz + 4095) mod 4096 < 4096" by simp_all
  ultimately have off: "0 \<le> off" "off < 4096" unfolding off_def by linarith+
  have base: "0 < base" "base mod 4096 = 0" using assms(3) by (simp_all add: base_def PAGE_SIZE_def)
  have "(base + off) mod 4096 = off" using off base(2) by (simp add: mod_add_eq[symmetric, of base])
  then have rel: "StompAllocator_Release (base + off) = base"
    using smod_pages[of "base + off"] off base(1) by (simp add: StompAllocator_Release_def)
  have va: "VirtualAlloc (n * PAGE_SIZE) = base" by (simp add: base_def)
  have al: "StompAllocator_Alloc sz VirtualAlloc = Inr (base + off)"
    by (simp add: StompAllocator_Alloc_def c va Let_def) (simp add: PAGE_SIZE_def off_def)
  have "base + off + sz = base + n * PAGE_SIZE" "base + off < base + PAGE_SIZE"
    using off by (simp_all add: off_def PAGE_SIZE_def)
  then show ?thesis using c al rel va off by auto
qed

theorem stomp_end_witness: "StompAllocator_Alloc 100 (\<lambda>n. 65536) = Inr 69532 \<and> StompAllocator_Release 69532 = 65536"
proof -
  obtain n p where p: "pageCount 100 = Inr n" "StompAllocator_Alloc 100 (\<lambda>n. 65536) = Inr p"
    "p + 100 = 65536 + n * PAGE_SIZE" "StompAllocator_Release p = 65536"
    using stomp_end[of 100 "\<lambda>n. 65536"] by (auto simp: PAGE_SIZE_def)
  have "n = 1" using p(1) by (simp add: pageCount_def fits_i32_def PAGE_SIZE_def sdiv_pages[unfolded PAGE_SIZE_def])
  then have "p = 69532" using p(3) by (simp add: PAGE_SIZE_def)
  then show ?thesis using p by simp
qed

text \<open>A container asks for the bytes of its elements as long as they fit in an int32; beyond that the cast
  wraps, and 2^32 bytes more ask for no more.\<close>

theorem StlAllocator_asks:
  shows "count * size_of < 2 ^ 31 \<Longrightarrow> StlAllocator_size size_of count = int (count * size_of)"
    and "(count' * size_of) mod 2 ^ 32 = (count * size_of) mod 2 ^ 32 \<Longrightarrow> StlAllocator_size size_of count' = StlAllocator_size size_of count"
proof -
  show "count * size_of < 2 ^ 31 \<Longrightarrow> StlAllocator_size size_of count = int (count * size_of)"
    unfolding StlAllocator_size_def
    by (simp add: signed_of_nat signed_take_bit_int_eq_self del: of_nat_mult)
  assume "(count' * size_of) mod 2 ^ 32 = (count * size_of) mod 2 ^ 32"
  then have "(word_of_nat (count' * size_of) :: u32) = word_of_nat (count * size_of)"
    by (simp add: word_of_nat_eq_iff take_bit_eq_mod del: of_nat_mult)
  then show "StlAllocator_size size_of count' = StlAllocator_size size_of count" by (simp only: StlAllocator_size_def)
qed

section \<open>The objects of all pools\<close>

definition piece_of :: "nat \<Rightarrow> (nat \<Rightarrow> nat) \<Rightarrow> nat \<Rightarrow> int \<Rightarrow> heap \<Rightarrow> nat \<Rightarrow> bool" where
  "piece_of H size_of k n h a \<longleftrightarrow> (\<exists>b. blocks h a = Some b \<and> bl_bytes b = s_allocSize H size_of k \<and> allocSize b = n)"

definition objects_ok :: "nat \<Rightarrow> (nat \<Rightarrow> nat) \<Rightarrow> object_heap \<Rightarrow> bool" where
  "objects_ok H size_of s \<longleftrightarrow> apart (op_heap s)
     \<and> (\<forall>p k. objects s p = Some k \<longrightarrow> H \<le> p \<and> piece_of H size_of k (int (s_allocSize H size_of k)) (op_heap s) (p - H)
          \<and> (\<forall>q. p - H \<notin> set (m_header (op_heap s) q)))
     \<and> (\<forall>q a. a \<in> set (m_header (op_heap s) q) \<longrightarrow> piece_of H size_of q 0 (op_heap s) a)
     \<and> (\<forall>q. distinct (m_header (op_heap s) q))
     \<and> (\<forall>q q'. q \<noteq> q' \<longrightarrow> set (m_header (op_heap s) q) \<inter> set (m_header (op_heap s) q') = {})"

lemma objects_okD:
  assumes "objects_ok H size_of s"
  shows "apart (op_heap s)"
    "objects s p = Some k \<Longrightarrow> H \<le> p \<and> piece_of H size_of k (int (s_allocSize H size_of k)) (op_heap s) (p - H)"
    "objects s p = Some k \<Longrightarrow> p - H \<notin> set (m_header (op_heap s) q)"
    "a \<in> set (m_header (op_heap s) q) \<Longrightarrow> piece_of H size_of q 0 (op_heap s) a"
    "distinct (m_header (op_heap s) q)"
    "q \<noteq> q' \<Longrightarrow> set (m_header (op_heap s) q) \<inter> set (m_header (op_heap s) q') = {}"
  using assms unfolding objects_ok_def by blast+

text \<open>What Pop finds: a new block, or the first free piece of the pool, never one that is in use.\<close>

definition popped :: "nat \<Rightarrow> (nat \<Rightarrow> nat) \<Rightarrow> nat \<Rightarrow> nat \<Rightarrow> object_heap \<Rightarrow> nat \<times> heap" where
  "popped H size_of k fresh s = (case m_header (op_heap s) k of
     [] \<Rightarrow> (fresh, snd (aligned_malloc fresh (s_allocSize H size_of k) (op_heap s)))
   | a # rest \<Rightarrow> (a, (op_heap s)\<lparr>m_header := (m_header (op_heap s))(k := rest)\<rparr>))"

lemma ObjectPool_Pop_eq:
  assumes "objects_ok H size_of s"
  shows "\<exists>use res. ObjectPool_Pop H size_of k fresh s = Inr (fst (popped H size_of k fresh s) + H,
    s\<lparr>op_heap := set_allocSize (fst (popped H size_of k fresh s)) (int (s_allocSize H size_of k))
         ((snd (popped H size_of k fresh s))\<lparr>m_useCount := use, m_reservedCount := res\<rparr>),
      objects := (objects s)(fst (popped H size_of k fresh s) + H \<mapsto> k)\<rparr>)"
proof (cases "m_header (op_heap s) k")
  case Nil
  then show ?thesis
    by (intro exI[of _ "(m_useCount (op_heap s))(k := m_useCount (op_heap s) k + 1)"] exI[of _ "m_reservedCount (op_heap s)"])
      (simp add: ObjectPool_Pop_def MemoryPool_Pop_def popped_def aligned_malloc_def AttachHeader_def set_allocSize_def)
next
  case (Cons a rest)
  obtain b where "blocks (op_heap s) a = Some b" "allocSize b = 0"
    using objects_okD(4)[OF assms, of a k] Cons by (auto simp: piece_of_def)
  then show ?thesis
    using Cons by (intro exI[of _ "(m_useCount (op_heap s))(k := m_useCount (op_heap s) k + 1)"]
        exI[of _ "(m_reservedCount (op_heap s))(k := m_reservedCount (op_heap s) k - 1)"])
      (simp add: ObjectPool_Pop_def MemoryPool_Pop_def popped_def AttachHeader_def set_allocSize_def)
qed

text \<open>The piece Pop takes: of the class's size, on no free list any more, and not the piece of an object.\<close>

lemma popped_piece:
  assumes ok: "objects_ok H size_of s" and fresh: "fresh_block (op_heap s) fresh (s_allocSize H size_of k)"
    and pop: "popped H size_of k fresh s = (a, h)"
  shows "piece_of H size_of k 0 h a" "\<And>q. a \<notin> set (m_header h q)" "apart h"
    "\<And>q. set (m_header h q) \<subseteq> set (m_header (op_heap s) q)" "\<And>q. distinct (m_header h q)"
    "\<And>x. x \<noteq> a \<Longrightarrow> blocks h x = blocks (op_heap s) x"
    "\<And>p j. objects s p = Some j \<Longrightarrow> p - H \<noteq> a"
proof -
  note D = objects_okD[OF ok]
  have "piece_of H size_of k 0 h a \<and> (\<forall>q. a \<notin> set (m_header h q)) \<and> apart h
    \<and> (\<forall>q. set (m_header h q) \<subseteq> set (m_header (op_heap s) q) \<and> distinct (m_header h q))
    \<and> (\<forall>x. x \<noteq> a \<longrightarrow> blocks h x = blocks (op_heap s) x) \<and> (\<forall>p j. objects s p = Some j \<longrightarrow> p - H \<noteq> a)"
  proof (cases "m_header (op_heap s) k")
    case Nil
    then have a: "a = fresh" and h: "h = (op_heap s)\<lparr>blocks := (blocks (op_heap s))(fresh \<mapsto>
        \<lparr>bl_bytes = s_allocSize H size_of k, allocSize = 0\<rparr>)\<rparr>"
      using pop by (auto simp: popped_def aligned_malloc_def)
    have new: "blocks (op_heap s) fresh = None" using fresh by (simp add: fresh_block_def)
    have "apart h"
      using D(1) fresh unfolding apart_def h fresh_block_def by (auto split: if_splits)
    moreover have "fresh \<notin> set (m_header (op_heap s) q)" for q
      using D(4)[of fresh q] new by (auto simp: piece_of_def)
    moreover have "p - H \<noteq> fresh" if "objects s p = Some j" for p j
      using D(2)[OF that] new by (auto simp: piece_of_def)
    ultimately show ?thesis using D(5) by (auto simp: a h piece_of_def)
  next
    case (Cons x rest)
    then have a: "x = a" and h: "h = (op_heap s)\<lparr>m_header := (m_header (op_heap s))(k := rest)\<rparr>"
      using pop by (simp_all add: popped_def)
    note Cons = Cons[unfolded a]
    have "piece_of H size_of k 0 h a" using D(4)[of a k] Cons by (simp add: piece_of_def h)
    moreover have "a \<notin> set (m_header h q)" for q
      using D(5)[of k] D(6)[of q k] Cons by (auto simp: h)
    moreover have "apart h" using D(1) by (simp add: apart_def h)
    moreover have "set (m_header h q) \<subseteq> set (m_header (op_heap s) q) \<and> distinct (m_header h q)" for q
      using D(5)[of q] Cons by (auto simp: h)
    moreover have "p - H \<noteq> a" if "objects s p = Some j" for p j
      using D(3)[OF that, of k] Cons by auto
    ultimately show ?thesis by (simp add: h)
  qed
  then show "piece_of H size_of k 0 h a" "\<And>q. a \<notin> set (m_header h q)" "apart h"
    "\<And>q. set (m_header h q) \<subseteq> set (m_header (op_heap s) q)" "\<And>q. distinct (m_header h q)"
    "\<And>x. x \<noteq> a \<Longrightarrow> blocks h x = blocks (op_heap s) x"
    "\<And>p j. objects s p = Some j \<Longrightarrow> p - H \<noteq> a" by blast+
qed

lemma set_allocSize_other: "x \<noteq> a \<Longrightarrow> blocks (set_allocSize a n h) x = blocks h x"
  by (simp add: set_allocSize_def)

lemma set_allocSize_apart: "apart (set_allocSize a n h) = apart h"
proof -
  have "map_option bl_bytes (blocks (set_allocSize a n h) x) = map_option bl_bytes (blocks h x)" for x
    by (cases "blocks h a") (auto simp: set_allocSize_def)
  moreover have "apart k \<longleftrightarrow> (\<forall>a x m n. map_option bl_bytes (blocks k a) = Some m \<longrightarrow>
      map_option bl_bytes (blocks k x) = Some n \<longrightarrow> a \<noteq> x \<longrightarrow> a + m \<le> x \<or> x + n \<le> a)" for k
    unfolding apart_def by (auto simp: map_option_case split: option.splits)
  ultimately show ?thesis by (simp only:)
qed

lemma piece_of_set: "piece_of H size_of k m h a \<Longrightarrow> piece_of H size_of k n (set_allocSize a n h) a"
  by (auto simp: piece_of_def set_allocSize_def)

lemma pop_object_ok:
  assumes ok: "objects_ok H size_of s" and fresh: "fresh_block (op_heap s) fresh (s_allocSize H size_of k)"
    and r: "ObjectPool_Pop H size_of k fresh s = Inr (p, s')"
  shows "objects_ok H size_of s'"
proof -
  obtain a h where pop: "popped H size_of k fresh s = (a, h)" by (cases "popped H size_of k fresh s")
  obtain use res where eq: "p = a + H" "s' = s\<lparr>op_heap := set_allocSize a (int (s_allocSize H size_of k))
      (h\<lparr>m_useCount := use, m_reservedCount := res\<rparr>), objects := (objects s)(a + H \<mapsto> k)\<rparr>"
    using ObjectPool_Pop_eq[OF ok, of k fresh] r pop by auto
  note P = popped_piece[OF ok fresh pop] and D = objects_okD[OF ok]
  have hd: "m_header (op_heap s') = m_header h" by (simp add: eq set_allocSize_def)
  have bl: "blocks (op_heap s') x = blocks (op_heap s) x" if "x \<noteq> a" for x
    using P(6)[OF that] that by (simp add: eq set_allocSize_def)
  have "apart (op_heap s')" using P(3) by (simp add: eq set_allocSize_apart) (simp add: apart_def)
  moreover have "H \<le> x \<and> piece_of H size_of j (int (s_allocSize H size_of j)) (op_heap s') (x - H)
      \<and> (\<forall>q. x - H \<notin> set (m_header (op_heap s') q))" if x: "objects s' x = Some j" for x j
  proof (cases "x = a + H")
    case True
    then have "j = k" using x by (simp add: eq)
    then show ?thesis
      using True P(1,2) piece_of_set[of H size_of k 0 "h\<lparr>m_useCount := use, m_reservedCount := res\<rparr>" a]
      unfolding hd by (simp add: eq piece_of_def)
  next
    case False
    then have o: "objects s x = Some j" using x by (simp add: eq)
    then have "x - H \<noteq> a" using P(7) by blast
    then show ?thesis using D(2,3)[OF o] P(4) bl unfolding hd piece_of_def by (metis subsetD)
  qed
  moreover have "piece_of H size_of q 0 (op_heap s') x" if x: "x \<in> set (m_header (op_heap s') q)" for q x
  proof -
    have "x \<noteq> a" "x \<in> set (m_header (op_heap s) q)" using x P(2,4) unfolding hd by blast+
    then show ?thesis using D(4)[of x q] bl by (simp add: piece_of_def)
  qed
  moreover have "distinct (m_header (op_heap s') q)" for q using P(5) unfolding hd .
  moreover have "set (m_header (op_heap s') q) \<inter> set (m_header (op_heap s') q') = {}" if "q \<noteq> q'" for q q'
    using D(6)[OF that] P(4) unfolding hd by blast
  ultimately show ?thesis unfolding objects_ok_def by blast
qed

lemma push_object_ok:
  assumes ok: "objects_ok H size_of s" and r: "ObjectPool_Push H k obj s = Inr s'"
  shows "objects_ok H size_of s'"
proof -
  note D = objects_okD[OF ok]
  let ?a = "obj - H"
  have o: "objects s obj = Some k" using r by (auto simp: ObjectPool_Push_def split: if_splits)
  have s': "s' = s\<lparr>op_heap := MemoryPool_Push k ?a (op_heap s), objects := (objects s)(obj := None)\<rparr>"
    using r o by (simp add: ObjectPool_Push_def DetachHeader_def)
  have hd: "m_header (op_heap s') = (m_header (op_heap s))(k := ?a # m_header (op_heap s) k)"
    by (simp add: s' MemoryPool_Push_def Let_def set_allocSize_def)
  have blk: "blocks (op_heap s') = blocks (set_allocSize ?a 0 (op_heap s))"
    by (simp add: s' MemoryPool_Push_def Let_def set_allocSize_def)
  have bl: "blocks (op_heap s') x = blocks (op_heap s) x" if "x \<noteq> ?a" for x
    using that by (simp add: blk set_allocSize_other)
  have free: "?a \<notin> set (m_header (op_heap s) q)" for q by (rule D(3)[OF o])
  have "apart (op_heap s')" using D(1) set_allocSize_apart[of ?a 0 "op_heap s"] by (simp add: apart_def blk)
  moreover have "H \<le> x \<and> piece_of H size_of j (int (s_allocSize H size_of j)) (op_heap s') (x - H)
      \<and> (\<forall>q. x - H \<notin> set (m_header (op_heap s') q))" if x: "objects s' x = Some j" for x j
  proof -
    have x': "x \<noteq> obj" "objects s x = Some j" using x by (auto simp: s' split: if_splits)
    then have "x - H \<noteq> ?a" using D(2)[OF x'(2)] D(2)[OF o] by linarith
    then show ?thesis using D(2,3)[OF x'(2)] bl by (simp add: hd piece_of_def)
  qed
  moreover have "piece_of H size_of q 0 (op_heap s') x" if x: "x \<in> set (m_header (op_heap s') q)" for q x
  proof (cases "x = ?a")
    case True
    then have "q = k" using x free by (auto simp: hd split: if_splits)
    then show ?thesis using D(2)[OF o] True unfolding piece_of_def blk by (auto simp: set_allocSize_def)
  next
    case False
    then have "x \<in> set (m_header (op_heap s) q)" using x by (auto simp: hd split: if_splits)
    then show ?thesis using D(4)[of x q] bl[OF False] by (simp add: piece_of_def)
  qed
  moreover have "distinct (m_header (op_heap s') q)" for q using D(5)[of q] D(5)[of k] free by (simp add: hd)
  moreover have "set (m_header (op_heap s') q) \<inter> set (m_header (op_heap s') q') = {}" if "q \<noteq> q'" for q q'
    using D(6)[OF that] D(6)[of q k] D(6)[of k q'] free that by (cases "q = k"; cases "q' = k") (auto simp: hd)
  ultimately show ?thesis unfolding objects_ok_def by blast
qed

lemma object_init_ok: "object_init s \<Longrightarrow> objects_ok H size_of s"
  by (simp add: object_init_def objects_ok_def heap_start_def apart_def)

interpretation object_pools: invariant_system object_init "object_step H size_of" "objects_ok H size_of" for H size_of
  by unfold_locales (rule object_init_ok, assumption, erule object_step.cases, (blast intro: pop_object_ok push_object_ok)+)

text \<open>The memory of live objects. In every reachable state Pop finds a piece for any class without
  crashing; and two objects that are alive lie in disjoint memory, their headers included, each in a
  piece as large as its class asks for.\<close>

theorem objects_disjoint:
  assumes "reach object_init (object_step H size_of) s"
  shows "(\<forall>k fresh. \<exists>p s'. ObjectPool_Pop H size_of k fresh s = Inr (p, s') \<and> objects s' p = Some k)
    \<and> (\<forall>p k p' k'. objects s p = Some k \<longrightarrow> objects s p' = Some k' \<longrightarrow> p \<noteq> p' \<longrightarrow>
          H \<le> p \<and> H \<le> p' \<and> (p + size_of k \<le> p' - H \<or> p' + size_of k' \<le> p - H))"
proof (intro conjI allI impI)
  note ok = object_pools.reach_inv[OF assms]
  show "\<exists>p s'. ObjectPool_Pop H size_of k fresh s = Inr (p, s') \<and> objects s' p = Some k" for k fresh
    using ObjectPool_Pop_eq[OF ok, of k fresh] by auto
  fix p k p' k' assume p: "objects s p = Some k" and p': "objects s p' = Some k'" and ne: "p \<noteq> p'"
  note D = objects_okD(2)[OF ok p] objects_okD(2)[OF ok p']
  show "H \<le> p" "H \<le> p'" using D by blast+
  then have "p - H \<noteq> p' - H" using ne by linarith
  then show "p + size_of k \<le> p' - H \<or> p' + size_of k' \<le> p - H"
    using D apartD[OF objects_okD(1)[OF ok], of "p - H" _ "p' - H"] by (fastforce simp: piece_of_def s_allocSize_def)
qed

theorem objects_disjoint_witness:
  "\<exists>p s'. ObjectPool_Pop 16 (\<lambda>_. 40) 3 4096 \<lparr>op_heap = heap_start, objects = Map.empty\<rparr> = Inr (p, s') \<and> objects s' p = Some 3"
proof -
  have "reach object_init (object_step 16 (\<lambda>_. 40)) \<lparr>op_heap = heap_start, objects = Map.empty\<rparr>"
    by (rule reach_init) (simp add: object_init_def)
  from objects_disjoint[OF this] show ?thesis by blast
qed

end
