(* ===== verification/Spin_Lock.thy ===== *)
theory Spin_Lock
  imports Server_Base
begin

text \<open>
  The spin lock (ServerCore/SpinLock.h) with any number of threads. lock exchanges m_locked from false
  to true until it succeeds; unlock stores false and asks nobody. Each access of the atomic is a step.
  A thread calls unlock only after its lock has returned, as a lock_guard does.
\<close>

section \<open>State and operations\<close>

datatype spin_pc = S_Out | S_Exchange bool | S_In | S_Store

record spin_lock =
  m_locked :: bool
  spin_at :: "nat \<Rightarrow> spin_pc"

definition to_spin :: "nat \<Rightarrow> spin_pc \<Rightarrow> spin_lock \<Rightarrow> spin_lock" where
  "to_spin t pc s = s\<lparr>spin_at := (spin_at s)(t := pc)\<rparr>"

text \<open>compare_exchange_strong(expected, true); a failure would leave the value read in expected, and the
  loop sets it to false again.\<close>

fun SpinLock_lock :: "spin_pc \<Rightarrow> nat \<Rightarrow> spin_lock \<Rightarrow> spin_lock" where
  "SpinLock_lock (S_Exchange expected) t s =
     (if m_locked s = expected then to_spin t S_In (s\<lparr>m_locked := True\<rparr>) else to_spin t (S_Exchange False) s)"
| "SpinLock_lock pc t s = s"

fun SpinLock_unlock :: "spin_pc \<Rightarrow> nat \<Rightarrow> spin_lock \<Rightarrow> spin_lock" where
  "SpinLock_unlock S_Store t s = to_spin t S_Out (s\<lparr>m_locked := False\<rparr>)"
| "SpinLock_unlock pc t s = s"

definition spin_init :: "spin_lock \<Rightarrow> bool" where
  "spin_init s \<longleftrightarrow> s = \<lparr>m_locked = False, spin_at = (\<lambda>_. S_Out)\<rparr>"

inductive spin_step :: "spin_lock \<Rightarrow> spin_lock \<Rightarrow> bool" where
  call_lock: "spin_at s t = S_Out \<Longrightarrow> spin_step s (to_spin t (S_Exchange False) s)"
| in_lock: "spin_step s (SpinLock_lock (spin_at s t) t s)"
| call_unlock: "spin_at s t = S_In \<Longrightarrow> spin_step s (to_spin t S_Store s)"
| in_unlock: "spin_step s (SpinLock_unlock (spin_at s t) t s)"

section \<open>Mutual exclusion\<close>

definition holding :: "spin_pc \<Rightarrow> bool" where
  "holding pc \<longleftrightarrow> pc = S_In \<or> pc = S_Store"

definition spin_inv :: "spin_lock \<Rightarrow> bool" where
  "spin_inv s \<longleftrightarrow> (\<forall>t u. holding (spin_at s t) \<longrightarrow> holding (spin_at s u) \<longrightarrow> t = u)
     \<and> (m_locked s \<longleftrightarrow> (\<exists>t. holding (spin_at s t)))
     \<and> (\<forall>t. spin_at s t \<noteq> S_Exchange True)"

lemma holding_simps [simp]:
  "holding S_In" "holding S_Store" "\<not> holding S_Out" "\<not> holding (S_Exchange e)"
  by (simp_all add: holding_def)

lemma spin_inv_step: "spin_step s s' \<Longrightarrow> spin_inv s \<Longrightarrow> spin_inv s'"
proof (induction rule: spin_step.induct)
  case (in_lock s t)
  show ?case
  proof (cases "spin_at s t")
    case (S_Exchange e)
    then have e: "e = False" using in_lock unfolding spin_inv_def by (cases e) auto
    show ?thesis
    proof (cases "m_locked s")
      case True
      then show ?thesis using in_lock S_Exchange e by (simp add: to_spin_def fun_upd_idem)
    next
      case False
      then show ?thesis using in_lock S_Exchange e by (auto simp: spin_inv_def to_spin_def)
    qed
  qed (use in_lock in auto)
next
  case (in_unlock s t)
  then show ?case
    by (cases "spin_at s t") (auto simp: spin_inv_def to_spin_def split: if_splits)
next
  case (call_lock s t)
  then have "holding (((spin_at s)(t := S_Exchange False)) u) = holding (spin_at s u)" for u by simp
  then show ?case using call_lock unfolding spin_inv_def to_spin_def by (simp del: fun_upd_apply) simp
next
  case (call_unlock s t)
  then have "holding (((spin_at s)(t := S_Store)) u) = holding (spin_at s u)" for u by simp
  then show ?case using call_unlock unfolding spin_inv_def to_spin_def by (simp del: fun_upd_apply) simp
qed

interpretation spinning: invariant_system spin_init spin_step spin_inv
  by unfold_locales (simp add: spin_init_def spin_inv_def, rule spin_inv_step[rotated])

text \<open>At most one thread is between its lock and its unlock; the lock can be taken exactly if nobody is;
  and an exchange a thread makes while nobody is takes it.\<close>

theorem spin_exclusion:
  assumes "reach spin_init spin_step s"
  shows "(\<forall>t u. holding (spin_at s t) \<longrightarrow> holding (spin_at s u) \<longrightarrow> t = u)
    \<and> (m_locked s \<longleftrightarrow> (\<exists>t. holding (spin_at s t)))
    \<and> (\<forall>t e. spin_at s t = S_Exchange e \<longrightarrow> spin_at (SpinLock_lock (spin_at s t) t s) t = S_In \<longleftrightarrow> (\<forall>u. \<not> holding (spin_at s u)))"
proof -
  note inv = spinning.reach_inv[OF assms, unfolded spin_inv_def]
  have "spin_at (SpinLock_lock (spin_at s t) t s) t = S_In \<longleftrightarrow> (\<forall>u. \<not> holding (spin_at s u))"
    if "spin_at s t = S_Exchange e" for t e
  proof -
    have "e = False" using inv that by (cases e) auto
    then show ?thesis using inv that by (auto simp: to_spin_def)
  qed
  then show ?thesis using inv by blast
qed

theorem spin_exclusion_witness:
  "\<exists>s. reach spin_init spin_step s \<and> spin_at s 0 = S_Exchange False \<and> spin_at (SpinLock_lock (spin_at s 0) 0 s) 0 = S_In"
proof -
  let ?a = "\<lparr>m_locked = False, spin_at = (\<lambda>_. S_Out)\<rparr>" and ?b = "\<lparr>m_locked = False, spin_at = (\<lambda>_. S_Out)(0 := S_Exchange False)\<rparr>"
  have r0: "reach spin_init spin_step ?a" by (rule reach_init) (simp add: spin_init_def)
  have "spin_step ?a ?b" using call_lock[of ?a 0] by (simp add: to_spin_def)
  from reach_step[OF r0 this] have r: "reach spin_init spin_step ?b" .
  have "spin_at ?b 0 = S_Exchange False \<longrightarrow>
      (spin_at (SpinLock_lock (spin_at ?b 0) 0 ?b) 0 = S_In \<longleftrightarrow> (\<forall>u. \<not> holding (spin_at ?b u)))"
    using spin_exclusion[OF r] by blast
  moreover have "spin_at ?b 0 = S_Exchange False" "\<not> holding (spin_at ?b u)" for u by simp_all
  ultimately show ?thesis using r by blast
qed

end
