(* ===== verification/Thread_Manager.thy ===== *)
theory Thread_Manager
  imports RW_Lock
begin

text \<open>
  Launch, Join and the thread ids (ServerCore/ThreadManager.h, ThreadManager.cpp, CoreTLS.cpp). The
  operating system starts a launched thread at some later step; its first action is InitTLS, which takes
  the next number of the counter SThreadId. Join waits for all threads. The lock of Lock.cpp keeps the
  id of its writer in 16 bits, so what it relies on is that the ids are different and fit.
\<close>

section \<open>State and operations\<close>

text \<open>A thread of the system: not created, created by Launch, in its callback, at its end.\<close>

datatype thread_phase = Th_None | Th_Created | Th_Running | Th_Ended

record thread_manager =
  m_threads :: "nat list"
  SThreadId :: u32
  LThreadId :: "nat \<Rightarrow> u32"
  th_at :: "nat \<Rightarrow> thread_phase"

definition InitTLS :: "nat \<Rightarrow> thread_manager \<Rightarrow> thread_manager" where
  "InitTLS k m = m\<lparr>LThreadId := (LThreadId m)(k := SThreadId m), SThreadId := SThreadId m + 1\<rparr>"

text \<open>The constructor runs in the main thread, number 0 here.\<close>

definition ThreadManager :: thread_manager where
  "ThreadManager = InitTLS 0 \<lparr>m_threads = [], SThreadId = 1, LThreadId = (\<lambda>_. 0), th_at = (\<lambda>_. Th_None)(0 := Th_Running)\<rparr>"

definition Launch :: "nat \<Rightarrow> thread_manager \<Rightarrow> thread_manager" where
  "Launch k m = m\<lparr>m_threads := m_threads m @ [k], th_at := (th_at m)(k := Th_Created)\<rparr>"

text \<open>Join returns when every thread has ended; None is a call that still waits.\<close>

definition ThreadManager_Join :: "thread_manager \<Rightarrow> thread_manager option" where
  "ThreadManager_Join m = (if \<forall>k \<in> set (m_threads m). th_at m k = Th_Ended then Some (m\<lparr>m_threads := []\<rparr>) else None)"

inductive thread_step :: "thread_manager \<Rightarrow> thread_manager \<Rightarrow> bool" where
  th_launch: "th_at m k = Th_None \<Longrightarrow> thread_step m (Launch k m)"
| th_start: "th_at m k = Th_Created \<Longrightarrow> thread_step m (InitTLS k (m\<lparr>th_at := (th_at m)(k := Th_Running)\<rparr>))"
| th_end: "th_at m k = Th_Running \<Longrightarrow> k \<noteq> 0 \<Longrightarrow> thread_step m (m\<lparr>th_at := (th_at m)(k := Th_Ended)\<rparr>)"
| th_join: "ThreadManager_Join m = Some m' \<Longrightarrow> thread_step m m'"

section \<open>Ids\<close>

definition started :: "thread_manager \<Rightarrow> nat set" where
  "started m = {k. th_at m k = Th_Running \<or> th_at m k = Th_Ended}"

text \<open>The n threads started so far have the numbers 1 to n; those launched and not started wait in the list.\<close>

definition thread_inv :: "thread_manager \<Rightarrow> bool" where
  "thread_inv m \<longleftrightarrow> finite (started m) \<and> 0 \<in> started m \<and> SThreadId m = word_of_nat (card (started m) + 1)
     \<and> (\<exists>num. bij_betw num (started m) {1..card (started m)} \<and> (\<forall>k \<in> started m. LThreadId m k = word_of_nat (num k)))
     \<and> distinct (m_threads m) \<and> 0 \<notin> set (m_threads m) \<and> (\<forall>k. th_at m k = Th_Created \<longrightarrow> k \<in> set (m_threads m))
     \<and> (\<forall>k. k \<noteq> 0 \<longrightarrow> th_at m k = Th_Running \<longrightarrow> k \<in> set (m_threads m))
     \<and> (\<forall>k \<in> set (m_threads m). th_at m k \<noteq> Th_None)"

lemma thread_keep:
  assumes "thread_inv m" and "started m' = started m" "SThreadId m' = SThreadId m" "LThreadId m' = LThreadId m"
    and "distinct (m_threads m')" "0 \<notin> set (m_threads m')" "\<And>k. th_at m' k = Th_Created \<Longrightarrow> k \<in> set (m_threads m')"
    and "\<And>k. k \<noteq> 0 \<Longrightarrow> th_at m' k = Th_Running \<Longrightarrow> k \<in> set (m_threads m')" "\<And>k. k \<in> set (m_threads m') \<Longrightarrow> th_at m' k \<noteq> Th_None"
  shows "thread_inv m'"
  using assms by (simp add: thread_inv_def)

lemma thread_invD:
  assumes "thread_inv m"
  shows "finite (started m)" "0 \<in> started m" "distinct (m_threads m)" "0 \<notin> set (m_threads m)"
    "th_at m k = Th_Created \<Longrightarrow> k \<in> set (m_threads m)" "k \<noteq> 0 \<Longrightarrow> th_at m k = Th_Running \<Longrightarrow> k \<in> set (m_threads m)"
    "k \<in> set (m_threads m) \<Longrightarrow> th_at m k \<noteq> Th_None"
  using assms by (auto simp: thread_inv_def)

lemma thread_start_inv:
  assumes inv: "thread_inv m" and k: "th_at m k = Th_Created"
  shows "thread_inv (InitTLS k (m\<lparr>th_at := (th_at m)(k := Th_Running)\<rparr>))" (is "thread_inv ?m")
proof -
  let ?n = "card (started m)"
  have new: "k \<notin> started m" and st: "started ?m = insert k (started m)" using k by (auto simp: started_def InitTLS_def)
  obtain num where num: "bij_betw num (started m) {1..?n}" "\<forall>j \<in> started m. LThreadId m j = word_of_nat (num j)"
    using inv by (auto simp: thread_inv_def)
  have fin: "finite (started m)" using inv by (simp add: thread_inv_def)
  then have card: "card (insert k (started m)) = ?n + 1" using new by simp
  have "{1..?n + 1} = insert (?n + 1) {1..?n}" by auto
  moreover have "bij_betw (num(k := ?n + 1)) (started m) {1..?n}"
    using num(1) new by (subst bij_betw_cong[of _ _ num]) auto
  ultimately have "bij_betw (num(k := ?n + 1)) (insert k (started m)) {1..?n + 1}"
    using notIn_Un_bij_betw[OF new, of "num(k := ?n + 1)" "{1..?n}"] by simp
  moreover have S: "SThreadId m = word_of_nat (?n + 1)" using inv by (simp add: thread_inv_def)
  have "\<forall>j \<in> started ?m. LThreadId ?m j = word_of_nat ((num(k := ?n + 1)) j)"
    unfolding st using num(2) new S by (auto simp: InitTLS_def)
  ultimately have "\<exists>num. bij_betw num (started ?m) {1..card (started ?m)} \<and> (\<forall>j \<in> started ?m. LThreadId ?m j = word_of_nat (num j))"
    unfolding st card by blast
  then show ?thesis
    using inv fin card thread_invD[OF inv] k unfolding thread_inv_def st by (auto simp: InitTLS_def)
qed

lemma thread_step_inv: "thread_inv m \<Longrightarrow> thread_step m m' \<Longrightarrow> thread_inv m'"
proof -
  assume inv: "thread_inv m" and "thread_step m m'"
  note D = thread_invD[OF inv]
  from \<open>thread_step m m'\<close> show "thread_inv m'"
  proof (cases rule: thread_step.cases)
    case (th_launch k)
    then have "k \<notin> set (m_threads m)" using D(7) by auto
    moreover have "k \<noteq> 0" using th_launch(2) D(2) by (cases "k = 0") (auto simp: started_def)
    ultimately have "k \<noteq> 0" "k \<notin> set (m_threads m)" by blast+
    then show ?thesis
      by (intro thread_keep[OF inv]) (use th_launch D in \<open>auto simp: Launch_def started_def split: if_splits\<close>)
  next
    case (th_start k)
    then show ?thesis using thread_start_inv[OF inv] by simp
  next
    case (th_end k)
    then show ?thesis by (intro thread_keep[OF inv]) (use D in \<open>auto simp: started_def split: if_splits\<close>)
  next
    case th_join
    then have "m' = m\<lparr>m_threads := []\<rparr>" "\<forall>k \<in> set (m_threads m). th_at m k = Th_Ended"
      by (auto simp: ThreadManager_Join_def split: if_splits)
    moreover from this have "th_at m k \<noteq> Th_Created" "k \<noteq> 0 \<Longrightarrow> th_at m k \<noteq> Th_Running" for k
      using D(5)[of k] D(6)[of k] by force+
    ultimately show ?thesis by (intro thread_keep[OF inv]) (simp_all add: started_def)
  qed
qed

interpretation thread_machine: invariant_system "\<lambda>m. m = ThreadManager" thread_step thread_inv
proof
  fix m assume m: "m = ThreadManager"
  have st: "started m = {0}" by (auto simp: m ThreadManager_def InitTLS_def started_def)
  have "bij_betw (\<lambda>_. 1 :: nat) {0 :: nat} {1..1}" by (simp add: bij_betw_def)
  then show "thread_inv m" unfolding thread_inv_def st by (auto simp: m ThreadManager_def InitTLS_def intro!: exI[of _ "\<lambda>_. 1"])
qed (rule thread_step_inv)

section \<open>What the lock relies on\<close>

theorem thread_ids_distinct:
  assumes "reach (\<lambda>m. m = ThreadManager) thread_step m" and "card (started m) < 65536"
  shows "LThreadId m ` started m \<subseteq> thread_ids \<and> inj_on (LThreadId m) (started m)"
proof -
  have inv: "thread_inv m" by (rule thread_machine.reach_inv[OF assms(1)])
  then obtain num where num: "bij_betw num (started m) {1..card (started m)}" "\<forall>k \<in> started m. LThreadId m k = word_of_nat (num k)"
    by (auto simp: thread_inv_def)
  have r: "0 < num k \<and> num k < 65536" if "k \<in> started m" for k
    using bij_betwE[OF num(1)] that assms(2) by fastforce
  then have u: "unat (LThreadId m k) = num k" if "k \<in> started m" for k
  proof -
    have "num k < 2 ^ 32" using r[OF that] by simp
    then show ?thesis using that num(2) by (simp add: unsigned_of_nat take_bit_nat_eq_self)
  qed
  have "LThreadId m k \<in> thread_ids" if "k \<in> started m" for k
    using r[OF that] u[OF that] by (simp add: thread_ids_def word_less_nat_alt word_greater_zero_iff flip: unat_gt_0)
  moreover have "inj_on (LThreadId m) (started m)"
    using bij_betw_imp_inj_on[OF num(1)] u unfolding inj_on_def by metis
  ultimately show ?thesis by blast
qed

text \<open>An id of 17 bits leaves no trace in the lock: the thread with number 65536 takes a free lock and
  leaves it free.\<close>

lemma id_too_large: "WriteLock 65536 late (W_Spin 0) \<lparr>m_lockFlag = EMPTY_FLAG, m_writeCount = 0\<rparr>
    = (W_Count, \<lparr>m_lockFlag = EMPTY_FLAG, m_writeCount = 0\<rparr>)"
proof -
  have z: "(4294967296 :: u32) = 0" using word_of_nat_eq_0_iff[where 'a = 32, of 4294967296] by simp
  show ?thesis by (simp add: MAX_SPIN_COUNT_def Let_def EMPTY_FLAG_def) (unfold z, simp)
qed

text \<open>Join returns only when nobody it launched is running, and keeps the ids.\<close>

lemma Join_ended:
  assumes "reach (\<lambda>m. m = ThreadManager) thread_step m" and "ThreadManager_Join m = Some m'"
  shows "th_at m' k = Th_Running \<Longrightarrow> k = 0" and "th_at m' k \<noteq> Th_Created" and "LThreadId m' = LThreadId m"
  using thread_machine.reach_inv[OF assms(1)] assms(2)
  by (auto simp: ThreadManager_Join_def thread_inv_def split: if_splits)

end
