(* ===== verification/Spec2Isabelle.thy ===== *)
theory Spec2Isabelle
  imports Recv_Buffer Packet_Framing Send_Buffer_Safety RW_Lock_Safety Dead_Lock_Safety Job_Queue_Safety
    Job_Timer_Safety Memory_Pool_Safety Session_Send_Safety Proto_Properties Dummy_Client Game_Traffic_Properties
    Game_Contract
    Buffer_IO Type_Cast Ref_Counting Lock_Free_Stack2 Lock_Free_Queue_Safety Object_Pool Spin_Lock Thread_Manager
begin

text \<open>
  ServerCore and its game server

  The repository is a C++17 server for Windows: ServerCore is a library (memory, locks, job queues,
  buffers, sockets over an I/O completion port), GameServer is the server built on it, DummyClient is
  a client that logs in and chats, and the packets between them are Protocol Buffers messages. This
  development models that code as HOL functions and step relations and proves what makes each part,
  and the parts together, correct. All paths below are under src/.

  1. The parts and how they interact

  A byte that arrives travels like this. A worker thread takes a completion from the port
  (IocpCore::Dispatch) and hands it to the owner of the event: the Listener for an accept, a Session
  for a connect, receive, send or disconnect. Session::ProcessRecv moves the write cursor of the
  RecvBuffer and calls PacketSession::OnRecv, which cuts the bytes into packets; GameSession sends each
  to ClientPacketHandler::HandlePacket, which looks the id up in a table and parses the body with the
  generated parser. The handler changes the session and its players or pushes a job to the Room, whose
  JobQueue is executed by one thread at a time, at once or later through the GlobalQueue. The jobs of
  the room broadcast: MakeSendBuffer cuts a SendBuffer from the chunk of the thread and serializes into
  it, Session::Send queues it, and RegisterSend gives all queued buffers to one WSASend. Under all this
  are the reader/writer lock with its deadlock profiler, the pooled heap and the job timer.

  2. Theories and the code they model

  Server_Base            ServerCore/Types.h, CoreMacro.h: fixed width integers, the outcome of an
                         operation that may crash (Inl Crash), reachability and its invariant rule
  Recv_Buffer            RecvBuffer.h/.cpp
  Packet_Framing         PacketHeader and PacketSession::OnRecv of Session.h/.cpp
  Send_Buffer, _Safety   SendBuffer.h/.cpp: SendBuffer, SendBufferChunk, SendBufferManager
  RW_Lock, _Safety       Lock.h/.cpp
  Dead_Lock_Profiler, Dead_Lock_Safety      DeadLockProfiler.h/.cpp
  Thread_Manager         ThreadManager.h/.cpp, CoreTLS.cpp: Launch, Join, the thread ids
  Lock_Queue             LockQueue.h, GlobalQueue.h/.cpp
  Job_Queue, _Safety     JobQueue.h/.cpp, ThreadManager::DoGlobalQueueWork
  Job_Timer, _Safety     JobTimer.h/.cpp
  Memory_Pool, _Safety   Memory.h/.cpp, MemoryPool.h/.cpp, PoolAllocator of Allocator.cpp
  Object_Pool            ObjectPool.h, StompAllocator and StlAllocator of Allocator.h/.cpp
  Spin_Lock              SpinLock.h
  Ref_Counting           RefCounting.h
  Type_Cast              TypeCast.h
  Buffer_IO              BufferReader.h/.cpp, BufferWriter.h/.cpp
  Lock_Free_Stack, Lock_Free_Safety         GameServer/ConcurrentStack.h: LockStack, LockFreeStack
  Lock_Free_Stack2       ConcurrentStack.h: LockFreeStack2
  Lock_Free_Queue, _Safety                  GameServer/ConcurrentQueue.h
  Session_IO             Session and PacketSession: Connect, Disconnect, Dispatch, Register* and Process*
  Session_Recv           the receive path end to end (properties only)
  Session_Send, _Safety  the send path once more, in atomic steps of any number of threads
  Net_Service, Net_Safety, Net_Properties   Service.h/.cpp, Listener.h/.cpp, IocpCore.cpp
  Proto_Utf8, Proto_Utf8_Spec               google/protobuf/stubs/structurally_valid.cc
  Proto_Wire, Proto_Varint                  io/coded_stream.h/.cc, parse_context.h/.cc, wire_format_lite.h
  Proto_Unknown          unknown_field_set.h/.cc, wire_format.cc
  Proto_Messages, Proto_Roundtrip, Proto_Properties   GameServer/Struct.pb.cc and Protocol.pb.cc
  Packet_Handler         GameServer/ClientPacketHandler.h, message_lite.cc
  Game_World, Game_Safety, Game_Properties  GameServer/: Player, Room, RoomManager, GameSession,
                         GameSessionManager, ClientPacketHandler.cpp
  Game_Contract          what the same code promises, as a game without handlers and buffers, and the simulation
  Game_Server            GameServer.cpp: the game as the application of the service
  Game_Worker, _Safety   GameServer.cpp, ThreadManager.cpp, Job.h: the worker threads, with the job queues of
                         the rooms, the global queue and the timer in one state
  Game_Traffic, _Safety, _Text, _Properties Session.cpp (ProcessRecv, OnRecv) and GameServer.cpp: the receives of the
                         sessions and the workers in one state, from bytes to the jobs of the rooms
  Dummy_Client           DummyClient/: ServerPacketHandler, ServerSession, the chat loop of main

  A class is a record with its members as fields (m_writePos is m_writePos), a member function is a
  function on that record of the same name, an enum or a program point is a datatype. An operation that
  may crash (ASSERT_CRASH, a null pointer, an index outside its array) returns Inl Crash; a state that
  several threads share is changed by the steps of an inductive relation, each atomic access of the
  code being one step, with a program counter per thread. What Windows does (the socket calls,
  GetQueuedCompletionStatus, GetTickCount64, _aligned_malloc, the interlocked lists) is an argument or
  an environment step.

  3. Interfaces

  The locale invariant_system (Server_Base) turns an invariant kept by every step into a fact of all
  reachable states; every step relation of the development interprets it with its own invariant. The
  other locales are the contracts between components: fifo (Lock_Queue), kept by the locked queue and
  used by the global queue and the job queues; prio_queue (Job_Timer), kept by the model of
  std::priority_queue and used by Distribute; wire_message (Proto_Roundtrip), the contract of size,
  serializer and parser that every message of the protocol keeps and the packet templates use;
  ordered_map (Game_Safety), kept by the map of players of a room; byte_stream (Buffer_IO), kept by
  both ways to write and the one to read. A client's lemmas are proved once inside the locale and
  reached through the interpretation.

  4. What the lemmas show

  Buffers. A RecvBuffer is a queue of bytes; OnRead and OnWrite fail exactly outside their data and
  Clean keeps the content. Live send buffers of all threads are disjoint pieces of chunks, the count of a
  chunk is the number of its holders, and the bytes of a finished buffer do not change while anybody
  holds it. BufferWriter and BufferReader are inverse and stay inside their view.
  Locks. A writer excludes all others and readers exclude writers, the flag counts the guards held; the
  profiler's search ends, reports a cycle exactly if the recorded order has one, and threads that obey
  it never wait for each other in a circle. One thread at most is inside a SpinLock. The
  ids of the threads, which the lock keeps in 16 bits, are different and fit for the first 65535 threads.
  Jobs. As long as no Push takes the int32 counter past 2^31 - 1, a queue has one executor, runs its jobs
  once each in the order they were pushed, and is never left with work and without an executor or an
  entry in the global queue. Without that bound ClearJobs, which drops jobs and leaves the counter, can
  wrap it and start a second executor (ClearJobs_two_executors). Distribute takes exactly the
  items that are due, in their order; each JobData object is owned by one item and deleted once.
  Memory. The constructor's table, the sizes of the pieces, no piece twice, the counters of the pools, a
  destructor that leaves only what nobody released; objects of all pools disjoint, the stomp allocator's
  pages; the counts of RefCountable; the compile time table of TypeCast. No use after delete and no loss
  of nodes under every interleaving of LockFreeStack, LockFreeStack2 and LockFreeQueue, which behave as
  the locked stack and the locked queue; the nodes of LockFreeStack2 nobody owns can all be destroyed.
  Messages. Varint readers equal a reference decoder; the UTF-8 scanner accepts exactly the encodings
  of scalar values; the bytes a serializer writes number what ByteSizeLong says and are merged back by
  the parser, unknown fields included; any accepted bytes give well-formed names.
  Network. The bytes a peer sends, however the receives cut them, reach the application as its packets
  in order; one send is in flight, buffers go out in their order, a session is released once, accept
  events stay in flight, and which limits do not hold.
  Workers. The threads of main interleave at every atomic access and inside the handlers that call
  DoAsync; the queues and the timer stay runs of their own machines, a room is what its jobs make of it
  in push order, everybody in a room hears its broadcasts in the same order, and a disconnect can
  overtake the handler of C_ENTER_GAME. With the receive buffers in the same state: whatever worker takes
  a receive, the packets of a session are handled in the order of its bytes, and what a room broadcasts
  for a client are the texts of its chat packets in that order, and are sent to everybody in the room.
  Game. The step relation game_step is the machine of the handlers, for the invariants: ids are unique, a
  broadcast reaches every player once, the sessions of the game are those of the service; from the bytes of a
  chat packet to the bytes every client prints. Independent of the handlers is the game of Game_Contract:
  any sequence of connections, packets, disconnections and jobs makes of the server what it makes of the
  game, replies included, and crashes it exactly where the game has no next state.

  5. Bounds and fuel

  Loops that follow data are structural or have a measure. Fuel stands in the depth first search of the
  profiler (one more than the number of locks: each call discovers a new lock; shown enough) and in the
  loop that prints a cycle (its length plus one; shown enough). The depth of nested messages is the
  library's own limit of 100 (an argument depth). OnRecv is a partial function into an option, as it
  does not return on a header of size 0; OnRecv_terminates says exactly when it returns. RegisterAccept
  recurses once per failed AcceptEx; its argument is the list of answers and None is a run whose list
  ended with a failure. Machine integers wrap where the code's do (the lock flag, ticks, m_jobCount, the
  counters of RefCountable and of LockFreeQueue, varints, sizes of the wire) and are int where an invariant
  bounds them (the cursors of RecvBuffer, m_allocCount). Guards the code does not have: a Push adds to
  m_jobCount only below 2^31 - 1 (push_room, in the bounded job_step and in loop_step, where no worker
  clears jobs and the counter is the number of jobs alive), a count of RefCountable is added only below
  2^31 - 1 (count_room), and the 16 bit counts of the lock do not overflow, in threads with ids 1 to 65535
  (write_room and read_room). The properties of LockFreeQueue ask for fewer than 2^30 threads, as its 30 bit counter
  numbers them.

  6. What is not modelled

  The memory model is sequentially consistent; the data races of plain members are findings of the
  manifest, not steps. Of the vendored protobuf library only what the server's messages use is
  modelled: not reflection, descriptors, arenas, JSON, text format, the compiler or its tests, and of
  the generated files not the descriptor tables. The patch buffers of EpsCopyInputStream are left out
  since ParseFromArray reads one array; the writer's ones since the array is large enough. SocketUtils
  and NetAddress only wrap Winsock calls; CoreGlobal makes the singletons; the printing of messages is
  left out. The _STOMP build of Memory and ObjectPool is left out (StompAllocator itself is modelled), as are the destructors of
  the singletons other than Memory. LockFreeStack3 and the converting constructor of TSharedPTr do not
  compile. The packet generator is Python and its output is what Packet_Handler
  models. MemoryModel.h, TypeCastStudy.h, Future.h, ConditionVariable.h, EventLock.h,
  ThreadLocalStorage.h, primeCount.cpp and ConcurrentStack.cpp are study notes in comments.
\<close>

end
